(* ===== verification/Smap_Prelude.thy ===== *)
theory Smap_Prelude
  imports Main "HOL-Library.Word"
begin

text \<open>
  The prelude of the development: the error codes the user-space part of SMAP returns, the
  machine arithmetic of its \<^verbatim>\<open>uint32_t\<close> and \<^verbatim>\<open>uint64_t\<close> values, and the two facts about
  integer apportionment on which every page distribution of the program rests (the
  proportional share rounded down, then one more page to the first entries until the rest is
  gone).

  Conventions. A struct field of type \<^verbatim>\<open>uint32_t\<close> or \<^verbatim>\<open>uint64_t\<close> is a word of that width; a
  local variable of type \<^verbatim>\<open>uint64_t\<close> is a natural number, and every addition or subtraction on
  it is \<open>add64\<close> or \<open>sub64\<close>, which wrap around at \<open>2 ^ 64\<close>. A conversion to \<^verbatim>\<open>uint32_t\<close> is
  \<open>of_nat\<close> into the 32-bit words, which truncates as the C conversion does. A C array is a
  function from its index; a loop over \<open>0 \<le> i < n\<close> is a \<open>fold\<close> over \<open>[0..<n]\<close>.
\<close>

named_theorems smap_arith \<open>no-wrap-around facts of the 64-bit arithmetic\<close>

section \<open>Error codes\<close>

text \<open>The negative \<^verbatim>\<open>errno\<close> values; a call that returns 0 is \<open>Inr\<close> of what it wrote.\<close>

datatype errno =
    EINVAL | ENOENT | ENOSPC | ENOMEM | ERANGE | EOVERFLOW | EAGAIN | EPERM | ESRCH | EBADF | EBUSY | ETIMEDOUT | ENODATA | ENODEV | EFAULT

section \<open>Machine arithmetic\<close>

type_synonym u8 = "8 word"
type_synonym u32 = "32 word"
type_synonym u64 = "64 word"

abbreviation (input) UINT32_MAX :: nat where "UINT32_MAX \<equiv> 4294967295"
abbreviation (input) UINT64_MAX :: nat where "UINT64_MAX \<equiv> 18446744073709551615"

definition add64 :: "nat \<Rightarrow> nat \<Rightarrow> nat" where
  "add64 a b = (a + b) mod 2 ^ 64"

definition sub64 :: "nat \<Rightarrow> nat \<Rightarrow> nat" where
  "sub64 a b = (a + (2 ^ 64 - b mod 2 ^ 64)) mod 2 ^ 64"

lemma add64_eq [smap_arith]: "a + b < 2 ^ 64 \<Longrightarrow> add64 a b = a + b"
  by (simp add: add64_def)

lemma sub64_eq [smap_arith]:
  assumes "b \<le> a" and "a < 2 ^ 64"
  shows "sub64 a b = a - b"
proof -
  have "b mod 2 ^ 64 = b" using assms by simp
  moreover have "a + (2 ^ 64 - b) = (a - b) + 2 ^ 64" using assms by simp
  moreover have "(a - b) mod 2 ^ 64 = a - b" using assms by simp
  ultimately show ?thesis unfolding sub64_def by (metis mod_add_self2)
qed

lemma sub64_self [simp]: "sub64 a a = 0"
proof -
  have "(a + (M - a mod M)) mod M = 0" if "0 < M" for M :: nat
  proof -
    have "a mod M + (M - a mod M) = M" using that by (simp add: less_imp_le)
    then show ?thesis using mod_add_left_eq [of a M "M - a mod M"] by simp
  qed
  then show ?thesis unfolding sub64_def by simp
qed

lemma add64_less [simp]: "add64 a b < 2 ^ 64"
  by (simp add: add64_def)

lemma sub64_less [simp]: "sub64 a b < 2 ^ 64"
  by (simp add: sub64_def)

lemma unat_u32_less [simp]: "unat (w :: u32) < 4294967296"
  using unsigned_less [of w, where ?'a = nat] by simp

lemma unat_u32_le [simp]: "unat (w :: u32) \<le> UINT32_MAX"
  using unat_u32_less [of w] by linarith

lemma unat_u64_less [simp]: "unat (w :: u64) < 18446744073709551616"
  using unsigned_less [of w, where ?'a = nat] by simp

lemma unat_u64_le [simp]: "unat (w :: u64) \<le> UINT64_MAX"
  using unat_u64_less [of w] by linarith

lemma unat_u32_less64 [simp]: "unat (w :: u32) < 18446744073709551616"
  using unat_u32_less [of w] by linarith

lemma le_u32: "n \<le> unat (w :: u32) \<Longrightarrow> n \<le> UINT32_MAX"
  using unat_u32_le [of w] by linarith

lemma le_u64: "n \<le> unat (w :: u64) \<Longrightarrow> n \<le> UINT64_MAX"
  using unat_u64_le [of w] by linarith

lemma unat_of_nat_u32: "n \<le> UINT32_MAX \<Longrightarrow> unat (of_nat n :: u32) = n"
  by (simp add: unat_of_nat)

lemma unat_of_nat_u64: "n \<le> UINT64_MAX \<Longrightarrow> unat (of_nat n :: u64) = n"
  by (simp add: unat_of_nat)

lemma unat_of_nat_u32_le: "unat (of_nat n :: u32) \<le> n"
  by (simp add: unat_of_nat take_bit_nat_eq_self)

lemma unat_minus_of_nat:
  fixes w :: "'a :: len word"
  assumes "m \<le> unat w"
  shows "unat (w - of_nat m) = unat w - m"
proof -
  have "m < 2 ^ LENGTH('a)" using assms unsigned_less [of w, where ?'a = nat] by (rule le_less_trans)
  then have "unat (of_nat m :: 'a word) = m" by (simp add: unat_of_nat)
  with assms show ?thesis by (simp add: unat_sub word_le_nat_alt)
qed

lemma unat_plus_bounded:
  fixes a b c :: "'a :: len word"
  assumes "unat a + unat b \<le> unat c"
  shows "unat (a + b) = unat a + unat b"
proof -
  have "unat a + unat b < 2 ^ LENGTH('a)"
    using assms unsigned_less [of c, where ?'a = nat] by (rule le_less_trans)
  then show ?thesis by (simp add: unat_word_ariths(1))
qed

section \<open>Sums accumulated by a loop\<close>

text \<open>The loop \<^verbatim>\<open>for (i = 0; i < n; i++) t += f(i)\<close>, started at \<open>t\<close>.\<close>

definition loop_sum :: "(nat \<Rightarrow> nat) \<Rightarrow> nat list \<Rightarrow> nat \<Rightarrow> nat" where
  "loop_sum f is t = fold (\<lambda>i t. add64 t (f i)) is t"

lemma loop_sum_simps [simp]:
  "loop_sum f [] t = t"
  "loop_sum f (i # is) t = loop_sum f is (add64 t (f i))"
  by (simp_all add: loop_sum_def)

lemma loop_sum_eq [smap_arith]:
  "t + sum_list (map f is) < 2 ^ 64 \<Longrightarrow> loop_sum f is t = t + sum_list (map f is)"
  by (induction "is" arbitrary: t) (simp_all add: add64_eq)

lemma sum_list_upt: "sum_list (map f [0..<n]) = (\<Sum>i<n. f i :: nat)"
  by (simp add: interv_sum_list_conv_sum_set_nat lessThan_atLeast0)

lemma loop_sum_upt:
  "(\<Sum>i<n. f i) < 2 ^ 64 \<Longrightarrow> loop_sum f [0..<n] 0 = (\<Sum>i<n. f i)"
  using loop_sum_eq [of 0 f "[0..<n]"] by (simp add: sum_list_upt)

lemma sum_bounded_nat:
  assumes "\<And>i. i < n \<Longrightarrow> f i \<le> (K :: nat)"
  shows "(\<Sum>i<n. f i) \<le> n * K"
  using sum_bounded_above [of "{..<n}" f K] assms by simp

lemma find_append: "find P (xs @ ys) = (case find P xs of None \<Rightarrow> find P ys | Some x \<Rightarrow> Some x)"
  by (induction xs) auto

section \<open>Apportionment\<close>

text \<open>
  The rounded-down proportional shares \<open>p * w i div W\<close> of \<open>p\<close> pages by the weights \<open>w\<close> leave
  at most as many pages as there are entries of non-zero weight.
\<close>

lemma apportion_floor_le:
  assumes "sum_list (map w is) \<le> (W :: nat)"
  shows "sum_list (map (\<lambda>i. p * w i div W) is) \<le> p"
proof (cases "W = 0")
  case False
  have "W * sum_list (map (\<lambda>i. p * w i div W) is) \<le> sum_list (map (\<lambda>i. p * w i) is)"
    by (induction "is") (simp_all add: algebra_simps add_mono)
  also have "\<dots> = p * sum_list (map w is)" by (simp add: sum_list_const_mult)
  also have "\<dots> \<le> W * p" using assms by (simp add: mult.commute)
  finally show ?thesis using False by simp
qed simp

lemma apportion_rest:
  assumes W: "sum_list (map w is) = (W :: nat)" and "W > 0"
  shows "p \<le> sum_list (map (\<lambda>i. p * w i div W) is) + length (filter (\<lambda>i. w i \<noteq> 0) is)"
proof -
  have "sum_list (map (\<lambda>i. p * w i) js)
      \<le> W * (sum_list (map (\<lambda>i. p * w i div W) js) + length (filter (\<lambda>i. w i \<noteq> 0) js))" for js
  proof (induction js)
    case (Cons j js)
    have "p * w j \<le> W * (p * w j div W + (if w j \<noteq> 0 then 1 else 0))"
      using \<open>W > 0\<close> by (auto simp: algebra_simps dest: less_imp_le)
        (metis add.commute less_imp_le_nat mod_less_divisor mod_mult_div_eq nat_add_left_cancel_le mult.commute)
    with Cons.IH show ?case by (auto simp: algebra_simps)
  qed simp
  from this [of "is"] have "W * p \<le> W * (sum_list (map (\<lambda>i. p * w i div W) is) + length (filter (\<lambda>i. w i \<noteq> 0) is))"
    using W by (simp add: sum_list_const_mult mult.commute)
  with \<open>W > 0\<close> show ?thesis by simp
qed

lemma apportion_below:
  assumes "p < (W :: nat)" and "w > 0"
  shows "p * w div W < w"
  using assms by (metis div_less_iff_less_mult less_trans mult.commute mult_less_mono1 not_less_zero zero_less_iff_neq_zero)

lemma apportion_share_le:
  assumes "p \<le> (W :: nat)"
  shows "p * w div W \<le> w"
  using assms by (metis div_by_0 div_mult_self1_is_m div_le_mono le0 mult_le_mono1 neq0_conv)

section \<open>Handing out a rest one by one\<close>

text \<open>
  The loop that follows the rounded-down shares: every entry that may still take a page gets
  one, in order, until the count \<open>d\<close> reaches the number \<open>p\<close> of pages to give.
\<close>

fun hand_out :: "(nat \<Rightarrow> bool) \<Rightarrow> nat \<Rightarrow> nat list \<Rightarrow> (nat \<Rightarrow> nat) \<times> nat \<Rightarrow> (nat \<Rightarrow> nat) \<times> nat" where
  "hand_out elig p [] s = s"
| "hand_out elig p (i # is) (al, d) =
     (if d < p \<and> elig i then hand_out elig p is (al(i := al i + 1), d + 1)
      else hand_out elig p is (al, d))"

lemma hand_out_closed:
  assumes "distinct is" and "d \<le> p"
  shows "hand_out elig p is (al, d) =
    (\<lambda>i. al i + of_bool (i \<in> set (take (p - d) (filter elig is))),
     min p (d + length (filter elig is)))"
  using assms
proof (induction "is" arbitrary: al d)
  case (Cons i "is")
  show ?case
  proof (cases "d < p \<and> elig i")
    case True
    then obtain k where k: "p - d = Suc k" and k': "p - Suc d = k" by (metis Suc_diff_Suc diff_Suc_Suc)
    have "hand_out elig p (i # is) (al, d) = hand_out elig p is (al(i := al i + 1), d + 1)"
      using True by simp
    also have "\<dots> = (\<lambda>j. (al(i := al i + 1)) j + of_bool (j \<in> set (take (p - (d + 1)) (filter elig is))),
        min p (d + 1 + length (filter elig is)))"
      using Cons True by simp
    also have "\<dots> = (\<lambda>j. al j + of_bool (j \<in> set (take (p - d) (filter elig (i # is)))),
        min p (d + length (filter elig (i # is))))"
      using True Cons.prems k k' by (auto simp: fun_eq_iff dest: in_set_takeD)
    finally show ?thesis .
  next
    case False
    then have "hand_out elig p (i # is) (al, d) = hand_out elig p is (al, d)" by auto
    with Cons False show ?thesis by (cases "d = p") auto
  qed
qed simp

text \<open>
  The reference definition of a proportional split of \<open>p\<close> pages over the entries \<open>is\<close> by the
  weights \<open>w\<close>: the share rounded down, and the pages that are left over go one each to the
  first entries of non-zero weight. The split routines of the program are proved equal to it.
\<close>

definition shares :: "nat \<Rightarrow> (nat \<Rightarrow> nat) \<Rightarrow> nat list \<Rightarrow> nat" where
  "shares p w is = sum_list (map (\<lambda>i. p * w i div sum_list (map w is)) is)"

definition apportion :: "nat \<Rightarrow> (nat \<Rightarrow> nat) \<Rightarrow> nat list \<Rightarrow> nat \<Rightarrow> nat" where
  "apportion p w is i =
     p * w i div sum_list (map w is) +
     of_bool (i \<in> set (take (p - shares p w is) (filter (\<lambda>i. w i \<noteq> 0) is)))"

lemma shares_le: "shares p w is \<le> p"
  unfolding shares_def by (rule apportion_floor_le) simp

lemma rest_le:
  "sum_list (map w is) > 0 \<Longrightarrow> p - shares p w is \<le> length (filter (\<lambda>i. w i \<noteq> 0) is)"
  using apportion_rest [of w "is" "sum_list (map w is)" p] by (simp add: shares_def)

lemma sum_list_of_bool_mem:
  assumes "distinct is" and "A \<subseteq> set is"
  shows "sum_list (map (\<lambda>i. of_bool (i \<in> A)) is) = card A"
proof -
  have "sum_list (map (\<lambda>i. of_bool (i \<in> A)) is) = (\<Sum>i \<in> set is. of_bool (i \<in> A))"
    using assms(1) by (rule sum_list_distinct_conv_sum_set)
  also have "\<dots> = card (set is \<inter> A)" by (simp add: sum.If_cases of_bool_def)
  also have "set is \<inter> A = A" using assms(2) by auto
  finally show ?thesis .
qed

lemma apportion_sum:
  assumes "distinct is" and "sum_list (map w is) > 0"
  shows "sum_list (map (apportion p w is) is) = p"
proof -
  let ?A = "set (take (p - shares p w is) (filter (\<lambda>i. w i \<noteq> 0) is))"
  have "sum_list (map (apportion p w is) is) = shares p w is + sum_list (map (\<lambda>i. of_bool (i \<in> ?A)) is)"
    unfolding apportion_def by (simp add: shares_def sum_list_addf)
  also have "sum_list (map (\<lambda>i. of_bool (i \<in> ?A)) is) = card ?A"
    using assms(1) by (rule sum_list_of_bool_mem) (auto dest: in_set_takeD)
  also have "card ?A = p - shares p w is"
    using assms rest_le [OF assms(2), of p] by (subst distinct_card) (auto intro: distinct_take)
  finally show ?thesis using shares_le [of p w "is"] by simp
qed

lemma apportion_zero: "w i = 0 \<Longrightarrow> apportion p w is i = 0"
  by (auto simp: apportion_def dest: in_set_takeD)

lemma apportion_le_weight:
  assumes "p \<le> sum_list (map w is)"
  shows "apportion p w is i \<le> w i"
proof (cases "p < sum_list (map w is)")
  case True
  show ?thesis
  proof (cases "w i = 0")
    case False
    with apportion_below [OF True, of "w i"] show ?thesis by (simp add: apportion_def)
  qed (simp add: apportion_zero)
next
  case False
  then have p: "p = sum_list (map w is)" using assms by simp
  have "shares p w is = p"
  proof (cases "p = 0")
    case False
    then have "p * w j div p = w j" for j by simp
    then show ?thesis unfolding shares_def p [symmetric] by (simp add: p)
  qed (simp add: shares_def)
  then show ?thesis unfolding apportion_def p [symmetric] by (cases "p = 0") auto
qed

lemma apportion_le:
  assumes "distinct is" and "sum_list (map w is) > 0" and "i \<in> set is"
  shows "apportion p w is i \<le> p"
  using member_le_sum_list [of "apportion p w is i" "map (apportion p w is) is"] apportion_sum [OF assms(1,2)] assms(3)
  by (auto simp: image_iff)

end
