(* ===== verification/Numa_Nodes.thy ===== *)
theory Numa_Nodes
  imports Smap_Prelude
begin

unbundle bit_operations_syntax

text \<open>
  The NUMA bitmaps of \<^verbatim>\<open>plugins/smap/src/user/manage/numa_nodes.h\<close>, the helpers of
  \<^verbatim>\<open>manage.h\<close> that shift a remote node id to its bit, and the per-node forbidden flags of
  \<^verbatim>\<open>manage.h\<close>. A bitmap is a 32-bit word: bits 0 to 7 are the local (L1) nodes, bits 8 to 25
  the remote (L2) nodes. The build without \<^verbatim>\<open>USE_DT\<close> is modelled (8 local bits).
\<close>

section \<open>Layout constants\<close>

abbreviation (input) LOCAL_NUMA_BITS :: nat where "LOCAL_NUMA_BITS \<equiv> 8"
abbreviation (input) REMOTE_NUMA_BITS :: nat where "REMOTE_NUMA_BITS \<equiv> 18"
abbreviation (input) MAX_NODES :: nat where "MAX_NODES \<equiv> 26"
abbreviation (input) LOCAL_NUMA_NUM :: nat where "LOCAL_NUMA_NUM \<equiv> 8"
abbreviation (input) REMOTE_NUMA_NUM :: nat where "REMOTE_NUMA_NUM \<equiv> 18"
abbreviation (input) REMOTE_NUMA_SHIFT :: nat where "REMOTE_NUMA_SHIFT \<equiv> 8"
abbreviation (input) NUMA_NO_NODE :: int where "NUMA_NO_NODE \<equiv> -1"

text \<open>
  The two masks are 64-bit constants (\<^verbatim>\<open>1UL\<close>): the complement of one bit, shifted. When they
  are applied to a \<^verbatim>\<open>uint32_t\<close> the result is truncated to 32 bits.
\<close>

definition LOCAL_NUMA_MASK :: u64 where
  "LOCAL_NUMA_MASK = push_bit 0 (NOT (push_bit LOCAL_NUMA_BITS 1))"

definition REMOTE_NUMA_MASK :: u64 where
  "REMOTE_NUMA_MASK = push_bit REMOTE_NUMA_SHIFT (NOT (push_bit REMOTE_NUMA_BITS 1))"

section \<open>Bitmap operations\<close>

text \<open>\<^verbatim>\<open>__builtin_ffs\<close>: one plus the index of the least significant set bit, 0 for the word 0.\<close>

definition builtin_ffs :: "u32 \<Rightarrow> int" where
  "builtin_ffs w = (case find (bit w) [0..<32] of None \<Rightarrow> 0 | Some i \<Rightarrow> int i + 1)"

definition TestBit :: "nat \<Rightarrow> u64 \<Rightarrow> u64" where
  "TestBit nr addr = 1 AND drop_bit (nr mod 64) addr"

definition GetL1 :: "u32 \<Rightarrow> int" where
  "GetL1 nodes =
     (let nid = builtin_ffs nodes - 1
      in if 0 \<le> nid \<and> nid < int LOCAL_NUMA_BITS then nid else NUMA_NO_NODE)"

definition ClearL1 :: "u32 \<Rightarrow> u32" where
  "ClearL1 nodes = ucast (ucast nodes AND NOT LOCAL_NUMA_MASK)"

definition AddL1 :: "u32 \<Rightarrow> nat \<Rightarrow> u32" where
  "AddL1 nodes nid = nodes OR push_bit nid 1"

definition SetL1 :: "u32 \<Rightarrow> nat \<Rightarrow> u32" where
  "SetL1 nodes nid = ClearL1 nodes OR push_bit nid 1"

definition EqualToL1 :: "u32 \<Rightarrow> int \<Rightarrow> bool" where
  "EqualToL1 nodes nid \<longleftrightarrow> 0 \<le> nid \<and> nid < int LOCAL_NUMA_BITS \<and> GetL1 nodes = nid"

definition InL1 :: "u32 \<Rightarrow> int \<Rightarrow> bool" where
  "InL1 nodes nid \<longleftrightarrow> 0 \<le> nid \<and> nid < int LOCAL_NUMA_BITS \<and> TestBit (nat nid) (ucast nodes) \<noteq> 0"

definition GetL2 :: "u32 \<Rightarrow> int" where
  "GetL2 nodes =
     (let nid = builtin_ffs (drop_bit REMOTE_NUMA_SHIFT nodes) - 1
      in if 0 \<le> nid \<and> nid < int REMOTE_NUMA_BITS then nid + int LOCAL_NUMA_BITS else NUMA_NO_NODE)"

definition ClearL2 :: "u32 \<Rightarrow> u32" where
  "ClearL2 nodes = ucast (ucast nodes AND NOT REMOTE_NUMA_MASK)"

definition ClearNodeBit :: "u32 \<Rightarrow> nat \<Rightarrow> u32" where
  "ClearNodeBit nodes pos = nodes AND NOT (push_bit pos 1)"

definition AddL2 :: "u32 \<Rightarrow> nat \<Rightarrow> u32" where
  "AddL2 nodes pos = nodes OR push_bit pos 1"

definition SetL2 :: "u32 \<Rightarrow> nat \<Rightarrow> u32" where
  "SetL2 nodes pos = ClearL2 nodes OR push_bit pos 1"

definition EqualToL2 :: "u32 \<Rightarrow> int \<Rightarrow> bool" where
  "EqualToL2 nodes pos \<longleftrightarrow> int LOCAL_NUMA_BITS \<le> pos \<and> pos < int MAX_NODES \<and> GetL2 nodes = pos"

definition InL2 :: "u32 \<Rightarrow> int \<Rightarrow> bool" where
  "InL2 nodes pos \<longleftrightarrow>
     int LOCAL_NUMA_BITS \<le> pos \<and> pos < int MAX_NODES \<and> TestBit (nat pos) (ucast nodes) \<noteq> 0"

definition GetL1Count :: "u32 \<Rightarrow> nat" where
  "GetL1Count nodes = fold (\<lambda>i count. if bit nodes i then count + 1 else count) [0..<LOCAL_NUMA_BITS] 0"

definition GetL2Count :: "u32 \<Rightarrow> nat" where
  "GetL2Count nodes =
     fold (\<lambda>i count. if bit nodes i then count + 1 else count) [LOCAL_NUMA_BITS..<MAX_NODES] 0"

section \<open>Remote nodes by node id\<close>

text \<open>
  A machine with \<open>nr\<close> local nodes numbers its remote nodes from \<open>nr\<close> on; in a bitmap they
  start at bit 8, so a node id is shifted by \<open>8 - nr\<close>. The bit position is an \<^verbatim>\<open>int\<close> in the
  code; \<open>nat\<close> of it is the shift count.
\<close>

definition l2_offset :: "int \<Rightarrow> int" where
  "l2_offset nrLocalNuma = int LOCAL_NUMA_BITS - nrLocalNuma"

definition GetAttrL2 :: "int \<Rightarrow> u32 \<Rightarrow> int" where
  "GetAttrL2 nrLocalNuma nodes = GetL2 nodes - l2_offset nrLocalNuma"

definition SetL2ByNid :: "int \<Rightarrow> u32 \<Rightarrow> int \<Rightarrow> u32" where
  "SetL2ByNid nrLocalNuma nodes nid = SetL2 nodes (nat (nid + l2_offset nrLocalNuma))"

definition AddL2ByNid :: "int \<Rightarrow> u32 \<Rightarrow> int \<Rightarrow> u32" where
  "AddL2ByNid nrLocalNuma nodes nid = AddL2 nodes (nat (nid + l2_offset nrLocalNuma))"

definition EqualToAttrL2 :: "int \<Rightarrow> u32 \<Rightarrow> int \<Rightarrow> bool" where
  "EqualToAttrL2 nrLocalNuma nodes nid \<longleftrightarrow> EqualToL2 nodes (nid + l2_offset nrLocalNuma)"

definition InAttrL2 :: "int \<Rightarrow> u32 \<Rightarrow> int \<Rightarrow> bool" where
  "InAttrL2 nrLocalNuma nodes nid \<longleftrightarrow> InL2 nodes (nid + l2_offset nrLocalNuma)"

section \<open>Forbidden nodes\<close>

text \<open>
  \<^verbatim>\<open>g_forbiddenNodes\<close>: one atomic integer of reason flags per node. Each update is a
  compare-and-swap loop; the model is the value change of its successful iteration, which is
  the only one that writes.
\<close>

type_synonym forbidden = "nat \<Rightarrow> u32"

abbreviation (input) NODE_FORBIDDEN_USER :: u32 where "NODE_FORBIDDEN_USER \<equiv> 1"
abbreviation (input) NODE_FORBIDDEN_MIGBACK_DONE :: u32 where "NODE_FORBIDDEN_MIGBACK_DONE \<equiv> 2"
abbreviation (input) NODE_FORBIDDEN_MIGBACK_BUSY :: u32 where "NODE_FORBIDDEN_MIGBACK_BUSY \<equiv> 4"

definition SetNodeForbidden :: "nat \<Rightarrow> forbidden \<Rightarrow> forbidden" where
  "SetNodeForbidden nid g = g(nid := g nid OR NODE_FORBIDDEN_USER)"

definition ClearNodeForbidden :: "nat \<Rightarrow> forbidden \<Rightarrow> forbidden" where
  "ClearNodeForbidden nid g = g(nid := 0)"

definition IsNodeForbidden :: "nat \<Rightarrow> forbidden \<Rightarrow> bool" where
  "IsNodeForbidden nid g \<longleftrightarrow> g nid \<noteq> 0"

definition IsNodeForbiddenReason :: "nat \<Rightarrow> u32 \<Rightarrow> forbidden \<Rightarrow> bool" where
  "IsNodeForbiddenReason nid reason g \<longleftrightarrow> g nid AND reason \<noteq> 0"

definition SetNodeForbiddenReason :: "nat \<Rightarrow> u32 \<Rightarrow> forbidden \<Rightarrow> forbidden" where
  "SetNodeForbiddenReason nid reason g = g(nid := g nid OR reason)"

definition ClearNodeForbiddenReason :: "nat \<Rightarrow> u32 \<Rightarrow> forbidden \<Rightarrow> forbidden" where
  "ClearNodeForbiddenReason nid reason g = g(nid := g nid AND NOT reason)"

definition TrySetNodeForbiddenReason :: "nat \<Rightarrow> u32 \<Rightarrow> forbidden \<Rightarrow> errno + forbidden" where
  "TrySetNodeForbiddenReason nid reason g =
     (if g nid AND reason \<noteq> 0 then Inl EAGAIN else Inr (g(nid := g nid OR reason)))"

section \<open>Characterisation by bits\<close>

lemma TestBit_iff: "TestBit nr (ucast (w :: u32)) \<noteq> 0 \<longleftrightarrow> bit w (nr mod 64)"
proof -
  have "bit (TestBit nr (ucast w)) 0 \<longleftrightarrow> bit w (nr mod 64)"
    by (auto simp: TestBit_def bit_and_iff bit_drop_bit_eq bit_ucast_iff bit_simps dest: bit_imp_le_length)
  moreover have "TestBit nr (ucast w) \<noteq> 0 \<longleftrightarrow> bit (TestBit nr (ucast w)) 0"
    by (simp add: TestBit_def one_and_eq bit_0 odd_iff_mod_2_eq_one)
  ultimately show ?thesis by simp
qed

lemma InL1_nat [simp]: "InL1 w (int l) \<longleftrightarrow> l < LOCAL_NUMA_BITS \<and> bit w l"
  by (auto simp: InL1_def TestBit_iff)

lemma InL1_iff: "InL1 w n \<longleftrightarrow> 0 \<le> n \<and> n < 8 \<and> bit w (nat n)"
  by (auto simp: InL1_def TestBit_iff)

lemma InL2_iff: "InL2 w p \<longleftrightarrow> 8 \<le> p \<and> p < 26 \<and> bit w (nat p)"
  by (auto simp: InL2_def TestBit_iff)

lemma bit_AddL1 [simp]: "bit (AddL1 w n) k \<longleftrightarrow> bit w k \<or> (k = n \<and> n < 32)"
  by (auto simp: AddL1_def bit_or_iff bit_push_bit_iff bit_simps)

lemma bit_AddL2 [simp]: "bit (AddL2 w n) k \<longleftrightarrow> bit w k \<or> (k = n \<and> n < 32)"
  by (auto simp: AddL2_def bit_or_iff bit_push_bit_iff bit_simps)

lemma bit_ClearNodeBit [simp]: "bit (ClearNodeBit w n) k \<longleftrightarrow> bit w k \<and> k \<noteq> n"
  by (auto simp: ClearNodeBit_def bit_and_iff bit_not_iff bit_push_bit_iff bit_simps dest: bit_imp_le_length)

lemma find_upt_bit:
  "find P [0..<n] = Some i \<longleftrightarrow> i < n \<and> P i \<and> (\<forall>j<i. \<not> P j)"
  unfolding find_Some_iff by auto

lemma builtin_ffs_eq:
  "builtin_ffs w = int i + 1 \<longleftrightarrow> bit w i \<and> (\<forall>j<i. \<not> bit w j)"
proof (cases "find (bit w) [0..<32]")
  case None
  then have "\<not> bit w i" using bit_imp_le_length [of w i] by (auto simp: find_None_iff)
  with None show ?thesis by (simp add: builtin_ffs_def)
next
  case (Some k)
  then have k: "k < 32" "bit w k" "\<forall>j<k. \<not> bit w j" by (auto simp: find_upt_bit)
  have "builtin_ffs w = int i + 1 \<longleftrightarrow> k = i" by (simp add: builtin_ffs_def Some)
  also have "\<dots> \<longleftrightarrow> bit w i \<and> (\<forall>j<i. \<not> bit w j)"
    using k by (metis linorder_neqE_nat)
  finally show ?thesis .
qed

lemma builtin_ffs_range: "builtin_ffs w = 0 \<or> (\<exists>i<32. builtin_ffs w = int i + 1)"
proof (cases "find (bit w) [0..<32]")
  case (Some i)
  then have "i < 32" using find_upt_bit by blast
  with Some show ?thesis unfolding builtin_ffs_def by auto
qed (simp add: builtin_ffs_def)

lemma GetL2_eq:
  assumes "8 \<le> p" and "p < 26"
  shows "GetL2 w = int p \<longleftrightarrow> bit w p \<and> (\<forall>j. 8 \<le> j \<and> j < p \<longrightarrow> \<not> bit w j)"
proof -
  have "GetL2 w = int p \<longleftrightarrow> builtin_ffs (drop_bit 8 w) = int (p - 8) + 1"
    using assms by (auto simp: GetL2_def Let_def)
  also have "\<dots> \<longleftrightarrow> bit w p \<and> (\<forall>j<p - 8. \<not> bit w (8 + j))"
    unfolding builtin_ffs_eq using assms by (simp add: bit_drop_bit_eq)
  also have "(\<forall>j<p - 8. \<not> bit w (8 + j)) \<longleftrightarrow> (\<forall>j. 8 \<le> j \<and> j < p \<longrightarrow> \<not> bit w j)"
  proof (intro iffI allI impI)
    fix j assume "\<forall>j<p - 8. \<not> bit w (8 + j)" and "8 \<le> j \<and> j < p"
    then show "\<not> bit w j" by (auto dest: spec [of _ "j - 8"])
  qed auto
  finally show ?thesis .
qed

lemma GetL2_none: "GetL2 w = NUMA_NO_NODE \<longleftrightarrow> (\<forall>j. 8 \<le> j \<and> j < 26 \<longrightarrow> \<not> bit w j)"
proof
  assume g: "GetL2 w = NUMA_NO_NODE"
  show "\<forall>j. 8 \<le> j \<and> j < 26 \<longrightarrow> \<not> bit w j"
  proof (rule ccontr)
    assume "\<not> ?thesis"
    then obtain p where "8 \<le> p \<and> p < 26 \<and> bit w p"
      and "\<forall>j<p. \<not> (8 \<le> j \<and> j < 26 \<and> bit w j)"
      using exists_least_iff [of "\<lambda>j. 8 \<le> j \<and> j < 26 \<and> bit w j"] by auto
    then have "GetL2 w = int p" by (auto simp: GetL2_eq)
    with g show False by simp
  qed
next
  assume none: "\<forall>j. 8 \<le> j \<and> j < 26 \<longrightarrow> \<not> bit w j"
  show "GetL2 w = NUMA_NO_NODE"
  proof (rule ccontr)
    assume "\<not> ?thesis"
    then obtain i where "i < 18" "builtin_ffs (drop_bit 8 w) = int i + 1"
      using builtin_ffs_range [of "drop_bit 8 w"] by (auto simp: GetL2_def Let_def split: if_splits)
    then have "bit w (8 + i)" by (simp add: builtin_ffs_eq bit_drop_bit_eq)
    with none \<open>i < 18\<close> show False by auto
  qed
qed

lemma bit_ClearL2: "bit (ClearL2 w) k \<longleftrightarrow> bit w k \<and> (k < 8 \<or> k = 26)"
  using bit_imp_le_length [of w k]
  unfolding ClearL2_def REMOTE_NUMA_MASK_def bit_ucast_iff bit_and_iff bit_not_iff_eq bit_push_bit_iff bit_1_iff
  by (auto simp: bit_simps)

lemma bit_ClearL1: "bit (ClearL1 w) k \<longleftrightarrow> bit w k \<and> k = 8"
  using bit_imp_le_length [of w k]
  unfolding ClearL1_def LOCAL_NUMA_MASK_def bit_ucast_iff bit_and_iff bit_not_iff_eq bit_push_bit_iff bit_1_iff
  by (auto simp: bit_simps)

lemma bit_SetL2: "bit (SetL2 w p) k \<longleftrightarrow> bit w k \<and> (k < 8 \<or> k = 26) \<or> (k = p \<and> p < 32)"
  by (auto simp: SetL2_def bit_or_iff bit_ClearL2 bit_push_bit_iff bit_simps)

lemma bit_SetL1: "bit (SetL1 w p) k \<longleftrightarrow> bit w k \<and> k = 8 \<or> (k = p \<and> p < 32)"
  by (auto simp: SetL1_def bit_or_iff bit_ClearL1 bit_push_bit_iff bit_simps)

lemma fold_count_filter:
  "fold (\<lambda>i c. if P i then c + 1 else c) is c = c + length (filter P is)"
  by (induction "is" arbitrary: c) auto

lemma GetL1Count_card: "GetL1Count w = card {i. i < 8 \<and> bit w i}"
proof -
  have "GetL1Count w = length (filter (bit w) [0..<8])"
    unfolding GetL1Count_def by (subst fold_count_filter) simp
  also have "\<dots> = card (set (filter (bit w) [0..<8]))"
    by (rule distinct_card [symmetric]) simp
  also have "set (filter (bit w) [0..<8]) = {i. i < 8 \<and> bit w i}" by auto
  finally show ?thesis .
qed

section \<open>Properties\<close>

text \<open>
  A remote node id (\<open>nr \<le> nid < nr + 18\<close>) that has been set as the only remote node of a
  bitmap is the one read back, whatever remote nodes the bitmap had before, and the local
  nodes are untouched. Bit 26, which no node id reaches, has to be clear.
\<close>

lemma SetL2ByNid_GetAttrL2_gen:
  assumes "0 < nr" "nr \<le> 8" "nr \<le> nid" "nid < nr + 18"
  shows "GetAttrL2 nr (SetL2ByNid nr w nid) = nid"
    and "InL1 (SetL2ByNid nr w nid) l = InL1 w l"
    and "m \<noteq> nid \<Longrightarrow> nr \<le> m \<Longrightarrow> m < nr + 18 \<Longrightarrow> \<not> InAttrL2 nr (SetL2ByNid nr w nid) m"
proof -
  let ?p = "nat (nid + l2_offset nr)"
  have p: "8 \<le> ?p" "?p < 26" using assms by (auto simp: l2_offset_def)
  have "GetL2 (SetL2 w ?p) = int ?p" using p by (subst GetL2_eq) (auto simp: bit_SetL2)
  then show "GetAttrL2 nr (SetL2ByNid nr w nid) = nid"
    using assms by (simp add: GetAttrL2_def SetL2ByNid_def l2_offset_def)
  show "InL1 (SetL2ByNid nr w nid) l = InL1 w l"
    using p by (auto simp: InL1_iff SetL2ByNid_def bit_SetL2)
  assume "m \<noteq> nid" "nr \<le> m" "m < nr + 18"
  then show "\<not> InAttrL2 nr (SetL2ByNid nr w nid) m"
    using assms by (auto simp: InAttrL2_def InL2_iff SetL2ByNid_def bit_SetL2 l2_offset_def)
qed

lemma AddL2ByNid_InAttrL2:
  assumes "0 < nr" "nr \<le> 8" "nr \<le> nid" "nid < nr + 18" "nr \<le> m" "m < nr + 18"
  shows "InAttrL2 nr (AddL2ByNid nr w nid) m \<longleftrightarrow> m = nid \<or> InAttrL2 nr w m"
  using assms by (auto simp: InAttrL2_def InL2_iff AddL2ByNid_def l2_offset_def)

lemma AddL2ByNid_InL1:
  assumes "0 < nr" "nr \<le> 8" "nr \<le> nid" "nid < nr + 18"
  shows "InL1 (AddL2ByNid nr w nid) l \<longleftrightarrow> InL1 w l"
  using assms by (auto simp: InL1_iff AddL2ByNid_def l2_offset_def)

section \<open>Properties\<close>

text \<open>Round trip of the remote node of a bitmap: after \<^verbatim>\<open>SetL2ByNid\<close> with a valid remote node id,
  \<^verbatim>\<open>GetAttrL2\<close> reads that id back, the local nodes of the bitmap are what they were, and no other
  remote node is left in it.\<close>

theorem SetL2ByNid_roundtrip:
  assumes "0 < nr" and "nr \<le> 8" and "nr \<le> nid" and "nid < nr + 18"
  shows "GetAttrL2 nr (SetL2ByNid nr w nid) = nid \<and> (\<forall>l. InL1 (SetL2ByNid nr w nid) l = InL1 w l) \<and>
    (\<forall>m. nr \<le> m \<and> m < nr + 18 \<and> m \<noteq> nid \<longrightarrow> \<not> InAttrL2 nr (SetL2ByNid nr w nid) m)"
  using SetL2ByNid_GetAttrL2_gen [OF assms] by blast

theorem SetL2ByNid_roundtrip_witness: "GetAttrL2 4 (SetL2ByNid 4 259 6) = 6 \<and> InL1 (SetL2ByNid 4 259 6) 1"
proof -
  have "InL1 259 1" by (simp add: InL1_iff bit_numeral_rec)
  then show ?thesis using SetL2ByNid_roundtrip [of 4 6 259] by simp
qed

text \<open>\<^verbatim>\<open>ClearL1\<close>, meant to remove the local nodes of a bitmap, keeps bit 8 only: the local bits go,
  and with them every remote node but the first, because \<^verbatim>\<open>LOCAL_NUMA_MASK\<close> is the complement of one bit and
  not the mask of the eight local bits.\<close>

theorem ClearL1_keeps_one_bit: "bit (ClearL1 w) k \<longleftrightarrow> bit w k \<and> k = 8"
  by (rule bit_ClearL1)

end
