(* ===== verification/Process_Types.thy ===== *)
theory Process_Types
  imports Numa_Nodes
begin

text \<open>
  The data model of \<^verbatim>\<open>plugins/smap/src/user/manage/manage.h\<close>: the per-process attributes, the
  Pair targets and plans, the process manager. A struct is a record whose fields carry a prefix
  of the struct; an array is a function from its index. Fields that no modelled operation reads
  or writes (device descriptors, file buffers, mutexes, scenes) are left out.
  \<open>pid_t\<close> and node ids are \<^verbatim>\<open>int\<close> values on which no overflowing arithmetic is done.
\<close>

section \<open>Enumerations\<close>

text \<open>
  A C enum object can hold an integer that is none of its enumerators, and the code checks for
  that: the last constructor stands for every such value.
\<close>

datatype MigrateMode = MIG_RATIO_MODE | MIG_MEMSIZE_MODE | MIG_OTHER_MODE

datatype PidType = PROCESS_TYPE | VM_TYPE

datatype ScanType = HAM_SCAN | NORMAL_SCAN | STATISTIC_SCAN

datatype ProcessState = PROC_IDLE | PROC_MIGRATE | PROC_BACK | PROC_MOVE

datatype UbBwRestrictType = UB_BW_NORMAL | UB_BW_SWAP_STOP

datatype MmapType = MMAP_PARIVATE | MMAP_SHARED

section \<open>Migrate-out requests\<close>

record ProcessRemoteTarget =
  rt_remoteNid :: int
  rt_ratio :: u32
  rt_memSizeKB :: u64

text \<open>
  The \<^verbatim>\<open>uint32_t count\<close> is a natural number: it is incremented only below 18 and decremented
  only above 0, so it never wraps.
\<close>

record ProcessTargetConfig =
  tc_migrateMode :: MigrateMode
  tc_count :: nat
  tc_targets :: "nat \<Rightarrow> ProcessRemoteTarget"

record NumaParam =
  np_nid :: int
  np_ratio :: int
  np_memSize :: u64
  np_migrateMode :: MigrateMode

record ProcessParam =
  pp_pid :: int
  pp_scanTime :: u32
  pp_duration :: u32
  pp_scanType :: ScanType
  pp_count :: int
  pp_numaParam :: "nat \<Rightarrow> NumaParam"
  pp_targetConfigValid :: bool
  pp_ignoreRemoteCapacity :: bool
  pp_targetConfig :: ProcessTargetConfig

section \<open>Process attributes\<close>

record ManagedLocalState =
  ml_managedLocalMask :: u32
  ml_observedLocalMask :: u32
  ml_residentLocalMask :: u32
  ml_affinityLocalMask :: u32
  ml_affinityRefreshElapsedMs :: u32
  ml_accountLocalMask :: "nat \<Rightarrow> u32"
  ml_affinityValid :: bool
  ml_affinitySampled :: bool

record WalkPage =
  wp_nrPage :: u32
  wp_nrPages :: "nat \<Rightarrow> u32"

record NumaAttribute =
  na_numaNodes :: u32

text \<open>
  The three ratio matrices of a strategy are \<^verbatim>\<open>double\<close>s; the operations modelled here only store
  integers of a few digits in them (percentages, their sums and differences), on which the
  floating-point operations are exact, so an entry is an \<open>int\<close>.
\<close>

record StrategyAttribute =
  sa_initRemoteMemRatio :: "nat \<Rightarrow> nat \<Rightarrow> int"
  sa_memSize :: "nat \<Rightarrow> nat \<Rightarrow> u64"
  sa_l2RemoteMemRatio :: "nat \<Rightarrow> nat \<Rightarrow> int"
  sa_l3RemoteMemRatio :: "nat \<Rightarrow> nat \<Rightarrow> int"
  sa_allocRemoteNrPages :: "nat \<Rightarrow> nat \<Rightarrow> u32"
  sa_nrMigratePages :: "nat \<Rightarrow> nat \<Rightarrow> u32"
  sa_remoteNrPagesAfterMigrate :: "nat \<Rightarrow> nat \<Rightarrow> u32"
  sa_ubBwRestrict :: "nat \<Rightarrow> UbBwRestrictType"

text \<open>The scan data of one page: \<^verbatim>\<open>actc_t\<close> is an unsigned byte, the other fields are bit fields.\<close>

record ActcData =
  ad_freq :: "8 word"
  ad_isWhiteListPage :: bool
  ad_isSelected :: bool
  ad_prior :: "6 word"

record ActCount =
  ac_freqMin :: "8 word"
  ac_freqMax :: "8 word"
  ac_freqZero :: u32
  ac_freqNum :: u64
  ac_pageNum :: u64
  ac_freqSum :: u64
  ac_remoteHotNum :: u64
  ac_whiteNum :: u64
  ac_freqBuckets :: "nat \<Rightarrow> u32"

text \<open>
  \<^verbatim>\<open>actcData[nid]\<close> is a pointer to the part of the scan buffer with the pages on a node: the list
  of these pages, or \<open>None\<close> for a null pointer.
\<close>

record ScanAttribute =
  sc_actcLen :: "nat \<Rightarrow> u64"
  sc_actcData :: "nat \<Rightarrow> ActcData list option"
  sc_actCount :: "nat \<Rightarrow> ActCount"
  sc_selectedBuckets :: "nat \<Rightarrow> nat \<Rightarrow> u32"

abbreviation sc_hasActcData :: "ScanAttribute \<Rightarrow> nat \<Rightarrow> bool" where
  "sc_hasActcData scan nid \<equiv> sc_actcData scan nid \<noteq> None"

record GroupTargetAttr =
  gt_nid :: int
  gt_quotaPages :: u64
  gt_usedPages :: u64

record GroupLocalAttr =
  gl_nid :: int
  gl_localReservePages :: u64

record MigrationGroupAttr =
  gr_localCount :: int
  gr_locals :: "nat \<Rightarrow> GroupLocalAttr"
  gr_targetCount :: int
  gr_targets :: "nat \<Rightarrow> GroupTargetAttr"
  gr_swapCandidateRounds :: "8 word"

record GroupMigrationPolicy =
  gp_enabled :: bool
  gp_groupCount :: int
  gp_groups :: "nat \<Rightarrow> MigrationGroupAttr"

record MigrateParam =
  mg_nid :: int
  mg_memSize :: u64

record ProcessAttr =
  pa_type :: PidType
  pa_pid :: int
  pa_state :: ProcessState
  pa_scanTime :: u32
  pa_duration :: u32
  pa_scanType :: ScanType
  pa_migrateMode :: MigrateMode
  pa_initLocalMemRatio :: int
  pa_remoteNumaCnt :: int
  pa_isLowMem :: bool
  pa_enableSwap :: bool
  pa_isFirstScan :: bool
  pa_autoRemoveWhenRemoteEmpty :: bool
  pa_migrateParam :: "nat \<Rightarrow> MigrateParam"
  pa_ignoreRemoteCapacity :: bool
  pa_pendingIgnoreRemoteCapacity :: bool
  pa_targetConfig :: ProcessTargetConfig
  pa_pendingTargetConfig :: ProcessTargetConfig
  pa_pendingTargetConfigValid :: bool
  pa_pendingTargetNumaNodes :: u32
  pa_managedLocalState :: ManagedLocalState
  pa_numaAttr :: NumaAttribute
  pa_walkPage :: WalkPage
  pa_groupPolicy :: GroupMigrationPolicy
  pa_groupSwapStableTotalRounds :: "8 word"
  pa_groupSwapTotalPagesValid :: bool
  pa_groupSwapFrozen :: bool
  pa_strategyAttr :: StrategyAttribute
  pa_scanAttr :: ScanAttribute
  pa_mmapType :: MmapType

abbreviation pa_groupPolicyEnabled :: "ProcessAttr \<Rightarrow> bool" where
  "pa_groupPolicyEnabled attr \<equiv> gp_enabled (pa_groupPolicy attr)"

section \<open>Pair targets and plans\<close>

record PairTarget =
  pt_pid :: int
  pt_localNid :: int
  pt_remoteNid :: int
  pt_requestedPages :: u32
  pt_targetPages :: u32

record PairRequestContext =
  rc_nrLocalNuma :: int
  rc_pageSizeKB :: u64
  rc_capacityLocalMask :: "nat \<Rightarrow> u32"

text \<open>The page counts of a summary are computed values, see the conventions of the prelude.\<close>

record PairRequestSummary =
  rs_managedTotalPages :: nat
  rs_requestedRemotePages :: "nat \<Rightarrow> nat"
  rs_effectiveRemotePages :: "nat \<Rightarrow> nat"
  rs_unassignedRequestedPages :: "nat \<Rightarrow> nat"

record PairPlan =
  pl_pid :: int
  pl_localNid :: int
  pl_remoteNid :: int
  pl_remoteIndex :: int
  pl_targetPages :: u32
  pl_actualPages :: u32
  pl_demotePages :: u32
  pl_promotePages :: u32
  pl_swapPages :: u32

record PairPlanContext =
  pc_nrLocalNuma :: int
  pc_freePages :: "nat \<Rightarrow> u64"
  pc_safetyReservePages :: "nat \<Rightarrow> u64"
  pc_plannedPages :: "nat \<Rightarrow> u64"

record PairPidBudget =
  pb_pid :: int
  pb_maxMigratePages :: u64
  pb_plannedPages :: u64

section \<open>The process manager\<close>

record RemoteNumaUsedInfo =
  ru_size :: u64
  ru_used :: u64
  ru_ifUsedFreshed :: bool

record RemoteNumaInfo =
  ri_privateSize :: "nat \<Rightarrow> nat \<Rightarrow> u64"
  ri_sharedSize :: "nat \<Rightarrow> u64"
  ri_usedInfo :: "nat \<Rightarrow> RemoteNumaUsedInfo"
  ri_privateUsedInfo :: "nat \<Rightarrow> nat \<Rightarrow> RemoteNumaUsedInfo"

text \<open>
  \<open>pm_attrs\<close> is the sequence of the process attributes in the slots that are in use, in slot
  order: what \<^verbatim>\<open>PidSlotCollectRefs\<close> returns (the slots themselves are the theory
  \<open>Pid_Slots\<close>).
\<close>

record ProcessManager =
  pm_attrs :: "ProcessAttr list"
  pm_nrLocalNuma :: "16 word"
  pm_pageSize :: u32
  pm_migPeriod :: u32
  pm_remoteNumaInfo :: RemoteNumaInfo

text \<open>
  \<^verbatim>\<open>GetProcessAttr\<close> on the sequence of managed processes; the reference it takes on the slot is
  given back before the caller returns.
\<close>

definition GetProcessAttr :: "ProcessManager \<Rightarrow> int \<Rightarrow> ProcessAttr option" where
  "GetProcessAttr manager pid = find (\<lambda>attr. pa_pid attr = pid) (pm_attrs manager)"

section \<open>Zero-initialised structs\<close>

text \<open>\<^verbatim>\<open>(T){ 0 }\<close> for the structs the code initialises that way.\<close>

definition ProcessRemoteTarget_zero :: ProcessRemoteTarget where
  "ProcessRemoteTarget_zero = \<lparr>rt_remoteNid = 0, rt_ratio = 0, rt_memSizeKB = 0\<rparr>"

definition ProcessTargetConfig_zero :: ProcessTargetConfig where
  "ProcessTargetConfig_zero =
     \<lparr>tc_migrateMode = MIG_RATIO_MODE, tc_count = 0, tc_targets = (\<lambda>_. ProcessRemoteTarget_zero)\<rparr>"

definition ManagedLocalState_zero :: ManagedLocalState where
  "ManagedLocalState_zero =
     \<lparr>ml_managedLocalMask = 0, ml_observedLocalMask = 0, ml_residentLocalMask = 0,
      ml_affinityLocalMask = 0, ml_affinityRefreshElapsedMs = 0, ml_accountLocalMask = (\<lambda>_. 0),
      ml_affinityValid = False, ml_affinitySampled = False\<rparr>"

definition PairRequestSummary_zero :: PairRequestSummary where
  "PairRequestSummary_zero =
     \<lparr>rs_managedTotalPages = 0, rs_requestedRemotePages = (\<lambda>_. 0),
      rs_effectiveRemotePages = (\<lambda>_. 0), rs_unassignedRequestedPages = (\<lambda>_. 0)\<rparr>"

definition ActCount_zero :: ActCount where
  "ActCount_zero =
     \<lparr>ac_freqMin = 0, ac_freqMax = 0, ac_freqZero = 0, ac_freqNum = 0, ac_pageNum = 0, ac_freqSum = 0,
      ac_remoteHotNum = 0, ac_whiteNum = 0, ac_freqBuckets = (\<lambda>_. 0)\<rparr>"

definition MigrationGroupAttr_zero :: MigrationGroupAttr where
  "MigrationGroupAttr_zero =
     \<lparr>gr_localCount = 0, gr_locals = (\<lambda>_. \<lparr>gl_nid = 0, gl_localReservePages = 0\<rparr>), gr_targetCount = 0,
      gr_targets = (\<lambda>_. \<lparr>gt_nid = 0, gt_quotaPages = 0, gt_usedPages = 0\<rparr>), gr_swapCandidateRounds = 0\<rparr>"

definition ProcessAttr_zero :: ProcessAttr where
  "ProcessAttr_zero =
     \<lparr>pa_type = PROCESS_TYPE, pa_pid = 0, pa_state = PROC_IDLE,
      pa_scanTime = 0, pa_duration = 0, pa_scanType = HAM_SCAN, pa_migrateMode = MIG_RATIO_MODE,
      pa_initLocalMemRatio = 0, pa_remoteNumaCnt = 0, pa_isLowMem = False, pa_enableSwap = False,
      pa_isFirstScan = False, pa_autoRemoveWhenRemoteEmpty = False,
      pa_migrateParam = (\<lambda>_. \<lparr>mg_nid = 0, mg_memSize = 0\<rparr>), pa_ignoreRemoteCapacity = False,
      pa_pendingIgnoreRemoteCapacity = False, pa_targetConfig = ProcessTargetConfig_zero,
      pa_pendingTargetConfig = ProcessTargetConfig_zero, pa_pendingTargetConfigValid = False,
      pa_pendingTargetNumaNodes = 0, pa_managedLocalState = ManagedLocalState_zero,
      pa_numaAttr = \<lparr>na_numaNodes = 0\<rparr>,
      pa_walkPage = \<lparr>wp_nrPage = 0, wp_nrPages = (\<lambda>_. 0)\<rparr>,
      pa_groupPolicy = \<lparr>gp_enabled = False, gp_groupCount = 0, gp_groups = (\<lambda>_. MigrationGroupAttr_zero)\<rparr>,
      pa_groupSwapStableTotalRounds = 0, pa_groupSwapTotalPagesValid = False, pa_groupSwapFrozen = False,
      pa_strategyAttr = \<lparr>sa_initRemoteMemRatio = (\<lambda>_ _. 0), sa_memSize = (\<lambda>_ _. 0), sa_l2RemoteMemRatio = (\<lambda>_ _. 0),
        sa_l3RemoteMemRatio = (\<lambda>_ _. 0), sa_allocRemoteNrPages = (\<lambda>_ _. 0), sa_nrMigratePages = (\<lambda>_ _. 0),
        sa_remoteNrPagesAfterMigrate = (\<lambda>_ _. 0), sa_ubBwRestrict = (\<lambda>_. UB_BW_NORMAL)\<rparr>,
      pa_scanAttr = \<lparr>sc_actcLen = (\<lambda>_. 0), sc_actcData = (\<lambda>_. None),
        sc_actCount = (\<lambda>_. ActCount_zero), sc_selectedBuckets = (\<lambda>_ _. 0)\<rparr>,
      pa_mmapType = MMAP_PARIVATE\<rparr>"

text \<open>
  Shorthands: the resident page counts of a process, its Pair account
  (\<^verbatim>\<open>remoteNrPagesAfterMigrate\<close>, local by remote index) and its managed local nodes.
\<close>

abbreviation nrPages :: "ProcessAttr \<Rightarrow> nat \<Rightarrow> u32" where
  "nrPages attr \<equiv> wp_nrPages (pa_walkPage attr)"

abbreviation account :: "ProcessAttr \<Rightarrow> nat \<Rightarrow> nat \<Rightarrow> u32" where
  "account attr \<equiv> sa_remoteNrPagesAfterMigrate (pa_strategyAttr attr)"

abbreviation managedMask :: "ProcessAttr \<Rightarrow> u32" where
  "managedMask attr \<equiv> ml_managedLocalMask (pa_managedLocalState attr)"

abbreviation residentMask :: "ProcessAttr \<Rightarrow> u32" where
  "residentMask attr \<equiv> ml_residentLocalMask (pa_managedLocalState attr)"

end
