(* ===== verification/Target_Config.thy ===== *)
theory Target_Config
  imports Process_Types
begin

text \<open>
  The migrate-out request of a process: the operations on \<^verbatim>\<open>ProcessTargetConfig\<close> of
  \<^verbatim>\<open>plugins/smap/src/user/manage/manage_remote.c\<close> (lines 37 to 253). A null pointer argument
  is no value of the model; the branches that only test for one have no counterpart.

  The abstract view of a configuration is the list of its first \<open>count\<close> targets
  (\<open>config_targets\<close>); the refinement lemmas say what each operation does to that list.
\<close>

section \<open>Operations\<close>

definition InitProcessTargetConfig :: ProcessTargetConfig where
  "InitProcessTargetConfig = ProcessTargetConfig_zero"

definition ClearProcessTargetConfig :: ProcessTargetConfig where
  "ClearProcessTargetConfig = InitProcessTargetConfig"

definition CopyProcessTargetConfig :: "ProcessTargetConfig \<Rightarrow> errno + ProcessTargetConfig" where
  "CopyProcessTargetConfig src =
     (if tc_count src > REMOTE_NUMA_NUM \<or>
         (tc_migrateMode src \<noteq> MIG_RATIO_MODE \<and> tc_migrateMode src \<noteq> MIG_MEMSIZE_MODE)
      then Inl EINVAL else Inr src)"

definition RemoveProcessRemoteTarget :: "ProcessTargetConfig \<Rightarrow> int \<Rightarrow> bool \<times> ProcessTargetConfig" where
  "RemoveProcessRemoteTarget config remoteNid =
     (if tc_count config > REMOTE_NUMA_NUM then (False, config)
      else case find (\<lambda>i. rt_remoteNid (tc_targets config i) = remoteNid) [0..<tc_count config] of
        None \<Rightarrow> (False, config)
      | Some i \<Rightarrow>
          let shifted = fold (\<lambda>j t. t(j - 1 := t j)) [i + 1..<tc_count config] (tc_targets config);
              count = tc_count config - 1
          in (True, config\<lparr>tc_count := count, tc_targets := shifted(count := ProcessRemoteTarget_zero)\<rparr>))"

text \<open>
  The search loop of \<^verbatim>\<open>MoveProcessRemoteTarget\<close> has no \<^verbatim>\<open>break\<close>: the last match counts. The
  call can fail after it has appended the destination, so the configuration is returned in
  every case.
\<close>

definition find_last_target :: "ProcessTargetConfig \<Rightarrow> int \<Rightarrow> nat option" where
  "find_last_target config nid =
     fold (\<lambda>i found. if rt_remoteNid (tc_targets config i) = nid then Some i else found)
       [0..<tc_count config] None"

definition move_amount ::
  "ProcessTargetConfig \<Rightarrow> int \<Rightarrow> nat \<Rightarrow> nat \<Rightarrow> nat \<Rightarrow> (errno + unit) \<times> ProcessTargetConfig" where
  "move_amount config srcNid s d moved =
     (let src = tc_targets config s; dest = tc_targets config d
      in if tc_migrateMode config = MIG_RATIO_MODE then
           if moved > 100 \<or> unat (rt_ratio dest) > 100 - moved then (Inl ERANGE, config)
           else
             let targets = (tc_targets config)(s := src\<lparr>rt_ratio := rt_ratio src - of_nat moved\<rparr>);
                 targets = targets(d := (targets d)\<lparr>rt_ratio := rt_ratio (targets d) + of_nat moved\<rparr>);
                 config = config\<lparr>tc_targets := targets\<rparr>
             in (Inr (), if rt_ratio (targets s) = 0 then snd (RemoveProcessRemoteTarget config srcNid)
                         else config)
         else
           if unat (rt_memSizeKB dest) > UINT64_MAX - moved then (Inl EOVERFLOW, config)
           else
             let targets = (tc_targets config)(s := src\<lparr>rt_memSizeKB := rt_memSizeKB src - of_nat moved\<rparr>);
                 targets = targets(d := (targets d)\<lparr>rt_memSizeKB := rt_memSizeKB (targets d) + of_nat moved\<rparr>);
                 config = config\<lparr>tc_targets := targets\<rparr>
             in (Inr (), if rt_memSizeKB (targets s) = 0 then snd (RemoveProcessRemoteTarget config srcNid)
                         else config))"

definition MoveProcessRemoteTarget ::
  "ProcessTargetConfig \<Rightarrow> int \<Rightarrow> int \<Rightarrow> u64 \<Rightarrow> int \<Rightarrow> (errno + unit) \<times> ProcessTargetConfig" where
  "MoveProcessRemoteTarget config srcNid destNid memSizeKB ratio =
     (if tc_count config > REMOTE_NUMA_NUM \<or> srcNid = destNid \<or>
         (tc_migrateMode config \<noteq> MIG_RATIO_MODE \<and> tc_migrateMode config \<noteq> MIG_MEMSIZE_MODE) \<or>
         ratio < 0
      then (Inl EINVAL, config)
      else case find_last_target config srcNid of
        None \<Rightarrow> (Inl ENOENT, config)
      | Some s \<Rightarrow>
          let src = tc_targets config s;
              moved = (if tc_migrateMode config = MIG_RATIO_MODE then nat ratio else unat memSizeKB);
              source = (if tc_migrateMode config = MIG_RATIO_MODE then unat (rt_ratio src)
                        else unat (rt_memSizeKB src))
          in if moved = 0 then (Inr (), config)
             else if moved > source then (Inl ERANGE, config)
             else case find_last_target config destNid of
               Some d \<Rightarrow> move_amount config srcNid s d moved
             | None \<Rightarrow>
                 if moved = source then
                   (Inr (), config\<lparr>tc_targets := (tc_targets config)(s := src\<lparr>rt_remoteNid := destNid\<rparr>)\<rparr>)
                 else if tc_count config = REMOTE_NUMA_NUM then (Inl ENOSPC, config)
                 else
                   let d = tc_count config;
                       config = config\<lparr>tc_count := tc_count config + 1,
                         tc_targets := (tc_targets config)(d := ProcessRemoteTarget_zero\<lparr>rt_remoteNid := destNid\<rparr>)\<rparr>
                   in move_amount config srcNid s d moved)"

definition config_pageSizeKB :: "bool \<Rightarrow> nat" where
  "config_pageSizeKB hugeMode = (if hugeMode then 2097152 else 4096) div 1024"

text \<open>The loop of \<^verbatim>\<open>ValidateProcessTargetConfig\<close> from index \<open>i\<close>; it returns the ratio sum.\<close>

fun validate_targets :: "nat \<Rightarrow> ProcessTargetConfig \<Rightarrow> nat list \<Rightarrow> nat \<Rightarrow> errno + nat" where
  "validate_targets pageSizeKB copy [] totalRatio = Inr totalRatio"
| "validate_targets pageSizeKB copy (i # is) totalRatio =
     (if list_ex (\<lambda>j. rt_remoteNid (tc_targets copy i) = rt_remoteNid (tc_targets copy j))
           [i + 1..<tc_count copy] then Inl EINVAL
      else if tc_migrateMode copy = MIG_RATIO_MODE then
        if unat (rt_ratio (tc_targets copy i)) > 100 then Inl EINVAL
        else validate_targets pageSizeKB copy is (add64 totalRatio (unat (rt_ratio (tc_targets copy i))))
      else if unat (rt_memSizeKB (tc_targets copy i)) mod pageSizeKB \<noteq> 0 \<or>
              unat (rt_memSizeKB (tc_targets copy i)) div pageSizeKB > UINT32_MAX then Inl EINVAL
      else validate_targets pageSizeKB copy is totalRatio)"

definition ValidateProcessTargetConfig :: "bool \<Rightarrow> ProcessTargetConfig \<Rightarrow> errno + unit" where
  "ValidateProcessTargetConfig hugeMode config =
     (case CopyProcessTargetConfig config of
        Inl _ \<Rightarrow> Inl EINVAL
      | Inr copy \<Rightarrow>
          (case validate_targets (config_pageSizeKB hugeMode) copy [0..<tc_count copy] 0 of
             Inl e \<Rightarrow> Inl e
           | Inr totalRatio \<Rightarrow>
               if tc_migrateMode copy = MIG_RATIO_MODE \<and> totalRatio > 100 then Inl EINVAL else Inr ()))"

definition FindProcessRemoteTarget :: "ProcessTargetConfig \<Rightarrow> int \<Rightarrow> ProcessRemoteTarget option" where
  "FindProcessRemoteTarget config remoteNid =
     (if tc_count config > REMOTE_NUMA_NUM then None
      else map_option (tc_targets config)
        (find (\<lambda>i. rt_remoteNid (tc_targets config i) = remoteNid) [0..<tc_count config]))"

definition RemoteNidToIndex :: "int \<Rightarrow> int \<Rightarrow> errno + nat" where
  "RemoteNidToIndex remoteNid nrLocalNuma =
     (if nrLocalNuma \<le> 0 \<or> nrLocalNuma > int LOCAL_NUMA_NUM \<or> remoteNid < nrLocalNuma \<or>
         remoteNid - nrLocalNuma \<ge> int REMOTE_NUMA_NUM
      then Inl EINVAL else Inr (nat (remoteNid - nrLocalNuma)))"

definition InitProcessMigrationTargetState :: "ProcessAttr \<Rightarrow> ProcessAttr" where
  "InitProcessMigrationTargetState attr =
     attr\<lparr>pa_targetConfig := InitProcessTargetConfig, pa_pendingTargetConfig := InitProcessTargetConfig,
          pa_ignoreRemoteCapacity := False, pa_pendingTargetConfigValid := False,
          pa_pendingIgnoreRemoteCapacity := False, pa_pendingTargetNumaNodes := 0,
          pa_managedLocalState := ManagedLocalState_zero\<rparr>"

fun append_param_targets :: "NumaParam list \<Rightarrow> ProcessTargetConfig \<Rightarrow> errno + ProcessTargetConfig" where
  "append_param_targets [] config = Inr config"
| "append_param_targets (p # ps) config =
     (if np_migrateMode p \<noteq> tc_migrateMode config \<or> FindProcessRemoteTarget config (np_nid p) \<noteq> None
      then Inl EINVAL
      else append_param_targets ps (config\<lparr>tc_count := tc_count config + 1,
        tc_targets := (tc_targets config)(tc_count config :=
          (tc_targets config (tc_count config))\<lparr>rt_remoteNid := np_nid p,
            rt_ratio := of_int (np_ratio p), rt_memSizeKB := np_memSize p\<rparr>)\<rparr>))"

definition BuildProcessTargetConfigFromParam :: "bool \<Rightarrow> ProcessParam \<Rightarrow> errno + ProcessTargetConfig" where
  "BuildProcessTargetConfigFromParam hugeMode param =
     (if pp_count param < 0 \<or> pp_count param > int REMOTE_NUMA_NUM then Inl EINVAL
      else if pp_targetConfigValid param then
        (case ValidateProcessTargetConfig hugeMode (pp_targetConfig param) of
           Inl _ \<Rightarrow> Inl EINVAL
         | Inr _ \<Rightarrow> CopyProcessTargetConfig (pp_targetConfig param))
      else
        let config = InitProcessTargetConfig; numaParam = pp_numaParam param
        in if pp_count param = 0 \<or> (pp_count param = 1 \<and> np_nid (numaParam 0) = -1) then Inr config
           else case append_param_targets (map numaParam [0..<nat (pp_count param)])
                       (config\<lparr>tc_migrateMode := np_migrateMode (numaParam 0)\<rparr>) of
             Inl e \<Rightarrow> Inl e
           | Inr config \<Rightarrow> map_sum id (\<lambda>_. config) (ValidateProcessTargetConfig hugeMode config))"

section \<open>Abstract view\<close>

definition config_targets :: "ProcessTargetConfig \<Rightarrow> ProcessRemoteTarget list" where
  "config_targets c = map (tc_targets c) [0..<tc_count c]"

definition config_distinct :: "ProcessTargetConfig \<Rightarrow> bool" where
  "config_distinct c \<longleftrightarrow> distinct (map rt_remoteNid (config_targets c))"

text \<open>The amount a target asks for under a migrate mode: its ratio, or its size in KB.\<close>

definition target_amount :: "MigrateMode \<Rightarrow> ProcessRemoteTarget \<Rightarrow> nat" where
  "target_amount mode t = (if mode = MIG_RATIO_MODE then unat (rt_ratio t) else unat (rt_memSizeKB t))"

text \<open>The amount a configuration asks for on the remote node \<open>nid\<close>, 0 when it has no such target.\<close>

definition config_amount :: "ProcessTargetConfig \<Rightarrow> int \<Rightarrow> nat" where
  "config_amount c nid =
     sum_list (map (target_amount (tc_migrateMode c))
       (filter (\<lambda>t. rt_remoteNid t = nid) (config_targets c)))"

definition valid_config :: "bool \<Rightarrow> ProcessTargetConfig \<Rightarrow> bool" where
  "valid_config hugeMode c \<longleftrightarrow>
     tc_count c \<le> REMOTE_NUMA_NUM \<and> tc_migrateMode c \<noteq> MIG_OTHER_MODE \<and> config_distinct c \<and>
     (if tc_migrateMode c = MIG_RATIO_MODE
      then (\<Sum>t\<leftarrow>config_targets c. unat (rt_ratio t)) \<le> 100
      else list_all (\<lambda>t. unat (rt_memSizeKB t) mod config_pageSizeKB hugeMode = 0 \<and>
             unat (rt_memSizeKB t) div config_pageSizeKB hugeMode \<le> UINT32_MAX) (config_targets c))"

lemma length_config_targets [simp]: "length (config_targets c) = tc_count c"
  by (simp add: config_targets_def)

lemma nth_config_targets [simp]: "i < tc_count c \<Longrightarrow> config_targets c ! i = tc_targets c i"
  by (simp add: config_targets_def)

lemma config_distinct_iff:
  "config_distinct c \<longleftrightarrow>
     (\<forall>i j. i < j \<and> j < tc_count c \<longrightarrow> rt_remoteNid (tc_targets c i) \<noteq> rt_remoteNid (tc_targets c j))"
  unfolding config_distinct_def distinct_conv_nth
  by (auto simp: config_targets_def) (metis linorder_neqE_nat order.strict_trans)

section \<open>Validation\<close>

lemma validate_targets_ratio:
  assumes "tc_migrateMode c = MIG_RATIO_MODE" and "k \<le> tc_count c" and "tc_count c \<le> 18" and "t \<le> 100 * k"
  shows "validate_targets ps c [k..<tc_count c] t =
    (if (\<forall>i j. k \<le> i \<and> i < j \<and> j < tc_count c \<longrightarrow>
           rt_remoteNid (tc_targets c i) \<noteq> rt_remoteNid (tc_targets c j)) \<and>
        (\<forall>i. k \<le> i \<and> i < tc_count c \<longrightarrow> unat (rt_ratio (tc_targets c i)) \<le> 100)
     then Inr (t + (\<Sum>i\<leftarrow>[k..<tc_count c]. unat (rt_ratio (tc_targets c i)))) else Inl EINVAL)"
  using assms
proof (induction "tc_count c - k" arbitrary: k t)
  case 0
  then show ?case by auto
next
  case (Suc n)
  then have k: "k < tc_count c" and upt: "[k..<tc_count c] = k # [Suc k..<tc_count c]"
    by (auto simp: upt_conv_Cons)
  let ?r = "unat (rt_ratio (tc_targets c k))"
  show ?case
  proof (cases "list_ex (\<lambda>j. rt_remoteNid (tc_targets c k) = rt_remoteNid (tc_targets c j)) [k + 1..<tc_count c] \<or> ?r > 100")
    case True
    then show ?thesis using Suc.prems k upt by (auto simp: list_ex_iff not_le)
  next
    case False
    have add: "add64 t ?r = t + ?r" using Suc.prems False k by (intro add64_eq) auto
    have IH: "validate_targets ps c [Suc k..<tc_count c] (t + ?r) =
      (if (\<forall>i j. Suc k \<le> i \<and> i < j \<and> j < tc_count c \<longrightarrow>
           rt_remoteNid (tc_targets c i) \<noteq> rt_remoteNid (tc_targets c j)) \<and>
        (\<forall>i. Suc k \<le> i \<and> i < tc_count c \<longrightarrow> unat (rt_ratio (tc_targets c i)) \<le> 100)
       then Inr (t + ?r + (\<Sum>i\<leftarrow>[Suc k..<tc_count c]. unat (rt_ratio (tc_targets c i)))) else Inl EINVAL)"
      using Suc.hyps Suc.prems k False by (intro Suc.hyps(1)) auto
    have split: "(\<forall>i j. k \<le> i \<and> i < j \<and> j < tc_count c \<longrightarrow> rt_remoteNid (tc_targets c i) \<noteq> rt_remoteNid (tc_targets c j)) \<longleftrightarrow>
      (\<forall>i j. Suc k \<le> i \<and> i < j \<and> j < tc_count c \<longrightarrow> rt_remoteNid (tc_targets c i) \<noteq> rt_remoteNid (tc_targets c j))"
      using False by (auto simp: list_ex_iff Suc_le_eq) (metis Suc_leI atLeastLessThan_iff le_neq_implies_less)
    have split2: "(\<forall>i. k \<le> i \<and> i < tc_count c \<longrightarrow> unat (rt_ratio (tc_targets c i)) \<le> 100) \<longleftrightarrow>
      (\<forall>i. Suc k \<le> i \<and> i < tc_count c \<longrightarrow> unat (rt_ratio (tc_targets c i)) \<le> 100)"
      using False by (auto simp: Suc_le_eq) (metis le_neq_implies_less linorder_not_less)
    have "validate_targets ps c [k..<tc_count c] t = validate_targets ps c [Suc k..<tc_count c] (t + ?r)"
      using False Suc.prems(1) upt add by simp
    then show ?thesis unfolding IH split split2 using upt by simp
  qed
qed

lemma validate_targets_memsize:
  assumes "tc_migrateMode c \<noteq> MIG_RATIO_MODE" and "k \<le> tc_count c"
  shows "validate_targets ps c [k..<tc_count c] t =
    (if (\<forall>i j. k \<le> i \<and> i < j \<and> j < tc_count c \<longrightarrow>
           rt_remoteNid (tc_targets c i) \<noteq> rt_remoteNid (tc_targets c j)) \<and>
        (\<forall>i. k \<le> i \<and> i < tc_count c \<longrightarrow> unat (rt_memSizeKB (tc_targets c i)) mod ps = 0 \<and>
           unat (rt_memSizeKB (tc_targets c i)) div ps \<le> UINT32_MAX)
     then Inr t else Inl EINVAL)"
  using assms
proof (induction "tc_count c - k" arbitrary: k)
  case 0
  then show ?case by auto
next
  case (Suc n)
  then have k: "k < tc_count c" and upt: "[k..<tc_count c] = k # [Suc k..<tc_count c]"
    by (auto simp: upt_conv_Cons)
  let ?ok = "\<lambda>i. unat (rt_memSizeKB (tc_targets c i)) mod ps = 0 \<and> unat (rt_memSizeKB (tc_targets c i)) div ps \<le> UINT32_MAX"
  show ?case
  proof (cases "list_ex (\<lambda>j. rt_remoteNid (tc_targets c k) = rt_remoteNid (tc_targets c j)) [k + 1..<tc_count c] \<or> \<not> ?ok k")
    case True
    then show ?thesis using Suc.prems k upt by (auto simp: list_ex_iff not_le)
  next
    case False
    have split: "(\<forall>i j. k \<le> i \<and> i < j \<and> j < tc_count c \<longrightarrow> rt_remoteNid (tc_targets c i) \<noteq> rt_remoteNid (tc_targets c j)) \<longleftrightarrow>
      (\<forall>i j. Suc k \<le> i \<and> i < j \<and> j < tc_count c \<longrightarrow> rt_remoteNid (tc_targets c i) \<noteq> rt_remoteNid (tc_targets c j))"
      using False by (auto simp: list_ex_iff Suc_le_eq) (metis Suc_leI atLeastLessThan_iff le_neq_implies_less)
    have split2: "(\<forall>i. k \<le> i \<and> i < tc_count c \<longrightarrow> ?ok i) \<longleftrightarrow> (\<forall>i. Suc k \<le> i \<and> i < tc_count c \<longrightarrow> ?ok i)"
      using False by (metis Suc_le_eq le_eq_less_or_eq)
    have "validate_targets ps c [k..<tc_count c] t = validate_targets ps c [Suc k..<tc_count c] t"
      using False Suc.prems(1) upt by auto
    also have "\<dots> = (if (\<forall>i j. Suc k \<le> i \<and> i < j \<and> j < tc_count c \<longrightarrow>
           rt_remoteNid (tc_targets c i) \<noteq> rt_remoteNid (tc_targets c j)) \<and>
        (\<forall>i. Suc k \<le> i \<and> i < tc_count c \<longrightarrow> ?ok i) then Inr t else Inl EINVAL)"
      using Suc.hyps Suc.prems k by (intro Suc.hyps(1)) auto
    finally show ?thesis unfolding split split2 .
  qed
qed

lemma sum_list_le_imp_le:
  "sum_list (map f xs) \<le> (n :: nat) \<Longrightarrow> x \<in> set xs \<Longrightarrow> f x \<le> n"
  using member_le_sum_list [of "f x" "map f xs"] by fastforce

lemma ValidateProcessTargetConfig_iff_gen:
  "ValidateProcessTargetConfig h c = Inr () \<longleftrightarrow> valid_config h c"
proof (cases "tc_count c > 18 \<or> tc_migrateMode c = MIG_OTHER_MODE")
  case True
  then show ?thesis
    by (cases "tc_migrateMode c")
      (auto simp: ValidateProcessTargetConfig_def CopyProcessTargetConfig_def valid_config_def)
next
  case False
  then have copy: "CopyProcessTargetConfig c = Inr c"
    by (cases "tc_migrateMode c") (auto simp: CopyProcessTargetConfig_def)
  have sum: "(\<Sum>i\<leftarrow>[0..<tc_count c]. unat (rt_ratio (tc_targets c i))) = (\<Sum>t\<leftarrow>config_targets c. unat (rt_ratio t))"
    by (simp add: config_targets_def comp_def)
  show ?thesis
  proof (cases "tc_migrateMode c = MIG_RATIO_MODE")
    case True
    have le: "(\<Sum>t\<leftarrow>config_targets c. unat (rt_ratio t)) \<le> 100 \<Longrightarrow> i < tc_count c \<Longrightarrow> unat (rt_ratio (tc_targets c i)) \<le> 100" for i
      using sum_list_le_imp_le [of "\<lambda>t. unat (rt_ratio t)" "config_targets c" 100 "tc_targets c i"]
      by (auto simp: config_targets_def)
    show ?thesis
      using False True validate_targets_ratio [of c 0 0 "config_pageSizeKB h"] le
      by (auto simp: ValidateProcessTargetConfig_def copy valid_config_def config_distinct_iff sum)
  next
    case mem: False
    then show ?thesis
      using False validate_targets_memsize [of c 0 "config_pageSizeKB h" 0]
      by (auto simp: ValidateProcessTargetConfig_def copy valid_config_def config_distinct_iff
          config_targets_def list_all_iff)
  qed
qed

section \<open>Search\<close>

lemma find_last_fold:
  "fold (\<lambda>i found. if P i then Some i else found) is f =
     (case find P (rev is) of None \<Rightarrow> f | Some i \<Rightarrow> Some i)"
proof (induction "is" arbitrary: f)
  case (Cons a "is")
  have "find P (xs @ [a]) = (case find P xs of None \<Rightarrow> (if P a then Some a else None) | Some i \<Rightarrow> Some i)" for xs
    by (induction xs) auto
  with Cons show ?case by (auto split: option.splits)
qed simp

lemma find_last_target_Some:
  assumes "find_last_target c nid = Some i"
  shows "i < tc_count c" and "rt_remoteNid (tc_targets c i) = nid"
proof -
  from assms have "find (\<lambda>i. rt_remoteNid (tc_targets c i) = nid) (rev [0..<tc_count c]) = Some i"
    by (auto simp: find_last_target_def find_last_fold split: option.splits)
  then show "i < tc_count c" and "rt_remoteNid (tc_targets c i) = nid"
    by (auto dest!: find_Some_iff [THEN iffD1]) (metis add_leE diff_less le_add2 length_rev length_upt
        list.size(3) nth_mem set_rev atLeastLessThan_iff set_upt diff_zero)
qed

lemma find_last_target_None:
  "find_last_target c nid = None \<longleftrightarrow> (\<forall>i<tc_count c. rt_remoteNid (tc_targets c i) \<noteq> nid)"
proof (cases "find_last_target c nid")
  case None
  then show ?thesis by (auto simp: find_last_target_def find_last_fold find_None_iff split: option.splits)
next
  case (Some i)
  then show ?thesis using find_last_target_Some [OF Some] by auto
qed

lemma find_first_target:
  assumes "config_distinct c" and "i < tc_count c"
  shows "find (\<lambda>k. rt_remoteNid (tc_targets c k) = rt_remoteNid (tc_targets c i)) [0..<tc_count c] = Some i"
  using assms by (auto simp: find_upt_bit config_distinct_iff)

section \<open>Removal\<close>

lemma fold_shift:
  "i < n \<Longrightarrow> fold (\<lambda>j t. t(j - 1 := t j)) [i + 1..<n] t k = (if i \<le> k \<and> k < n - 1 then t (k + 1) else t k)"
proof (induction n arbitrary: k)
  case (Suc n)
  show ?case
  proof (cases "i < n")
    case True
    then have "[i + 1..<Suc n] = [i + 1..<n] @ [n]" by simp
    then show ?thesis using Suc.IH [OF True] True by auto
  next
    case False
    with Suc.prems show ?thesis by auto
  qed
qed simp

lemma RemoveProcessRemoteTarget_targets:
  assumes "tc_count c \<le> 18" and "i < tc_count c"
    and "find (\<lambda>k. rt_remoteNid (tc_targets c k) = nid) [0..<tc_count c] = Some i"
  shows "config_targets (snd (RemoveProcessRemoteTarget c nid)) =
      take i (config_targets c) @ drop (Suc i) (config_targets c)"
    and "tc_migrateMode (snd (RemoveProcessRemoteTarget c nid)) = tc_migrateMode c"
    and "tc_count (snd (RemoveProcessRemoteTarget c nid)) = tc_count c - 1"
  using assms
  by (auto simp: RemoveProcessRemoteTarget_def config_targets_def Let_def fold_shift nth_append
      simp del: One_nat_def intro!: nth_equalityI) simp

lemma filter_one_out:
  "distinct (map f (ys @ x # zs)) \<Longrightarrow> filter (\<lambda>z. f z \<noteq> f x) (ys @ x # zs) = ys @ zs"
  by (simp add: image_iff) (metis (mono_tags, lifting) filter_True)

lemma filter_one_in:
  assumes "distinct (map f xs)" and "i < length xs"
  shows "filter (\<lambda>x. f x = f (xs ! i)) xs = [xs ! i]"
proof -
  have "filter (\<lambda>z. f z = f x) (ys @ x # zs) = [x]" if "distinct (map f (ys @ x # zs))" for ys x zs
    using that by (simp add: image_iff) (metis (mono_tags, lifting) append_Nil filter_False)
  from this [of "take i xs" "xs ! i" "drop (Suc i) xs"] assms show ?thesis
    by (simp only: id_take_nth_drop [symmetric])
qed

lemma take_drop_filter:
  assumes "distinct (map f xs)" and "i < length xs"
  shows "take i xs @ drop (Suc i) xs = filter (\<lambda>x. f x \<noteq> f (xs ! i)) xs"
  using filter_one_out [of f "take i xs" "xs ! i" "drop (Suc i) xs"] assms
  by (simp only: id_take_nth_drop [symmetric])

text \<open>On a configuration without duplicate nodes, removal filters the target list.\<close>

lemma RemoveProcessRemoteTarget_filter:
  assumes "tc_count c \<le> 18" and "config_distinct c"
  shows "fst (RemoveProcessRemoteTarget c nid) \<longleftrightarrow> (\<exists>t \<in> set (config_targets c). rt_remoteNid t = nid)"
    and "config_targets (snd (RemoveProcessRemoteTarget c nid)) =
      filter (\<lambda>t. rt_remoteNid t \<noteq> nid) (config_targets c)"
proof -
  let ?f = "find (\<lambda>k. rt_remoteNid (tc_targets c k) = nid) [0..<tc_count c]"
  show "fst (RemoveProcessRemoteTarget c nid) \<longleftrightarrow> (\<exists>t \<in> set (config_targets c). rt_remoteNid t = nid)"
  proof (cases ?f)
    case None
    then have "\<forall>t \<in> set (config_targets c). rt_remoteNid t \<noteq> nid"
      by (auto simp: find_None_iff config_targets_def)
    with None assms show ?thesis by (auto simp: RemoveProcessRemoteTarget_def)
  next
    case (Some i)
    then have "i < tc_count c \<and> rt_remoteNid (tc_targets c i) = nid" by (simp add: find_upt_bit)
    with assms Some show ?thesis by (auto simp: RemoveProcessRemoteTarget_def Let_def config_targets_def)
  qed
  show "config_targets (snd (RemoveProcessRemoteTarget c nid)) =
      filter (\<lambda>t. rt_remoteNid t \<noteq> nid) (config_targets c)"
  proof (cases ?f)
    case None
    moreover from None have "\<forall>t \<in> set (config_targets c). rt_remoteNid t \<noteq> nid"
      by (auto simp: find_None_iff config_targets_def)
    ultimately show ?thesis using assms by (simp add: RemoveProcessRemoteTarget_def filter_id_conv)
  next
    case (Some i)
    then have i: "i < tc_count c" and nid: "rt_remoteNid (tc_targets c i) = nid" by (auto simp: find_upt_bit)
    show ?thesis
      using RemoveProcessRemoteTarget_targets(1) [OF assms(1) i Some]
        take_drop_filter [of rt_remoteNid "config_targets c" i] assms(2) i nid
      by (simp add: config_distinct_def)
  qed
qed

lemma RemoveProcessRemoteTarget_distinct:
  assumes "tc_count c \<le> 18" and "config_distinct c"
  shows "config_distinct (snd (RemoveProcessRemoteTarget c nid))"
  using assms RemoveProcessRemoteTarget_filter(2) [OF assms, of nid]
  by (simp add: config_distinct_def distinct_map_filter)

lemma RemoveProcessRemoteTarget_mode [simp]:
  "tc_migrateMode (snd (RemoveProcessRemoteTarget c nid)) = tc_migrateMode c"
  by (auto simp: RemoveProcessRemoteTarget_def Let_def split: option.splits)

lemma RemoveProcessRemoteTarget_amount:
  assumes "tc_count c \<le> 18" and "config_distinct c"
  shows "config_amount (snd (RemoveProcessRemoteTarget c nid)) n = (if n = nid then 0 else config_amount c n)"
proof (cases "n = nid")
  case False
  then have "filter (\<lambda>t. rt_remoteNid t \<noteq> nid \<and> rt_remoteNid t = n) (config_targets c) =
      filter (\<lambda>t. rt_remoteNid t = n) (config_targets c)"
    by (auto intro: filter_cong)
  with False RemoveProcessRemoteTarget_filter(2) [OF assms, of nid] show ?thesis
    by (simp add: config_amount_def)
qed (use RemoveProcessRemoteTarget_filter(2) [OF assms, of nid] in \<open>simp add: config_amount_def\<close>)

section \<open>Moving an amount between remote nodes\<close>

text \<open>Replacing one target of the list.\<close>

lemma config_targets_upd:
  "i < tc_count c \<Longrightarrow> config_targets (c\<lparr>tc_targets := (tc_targets c)(i := t)\<rparr>) = (config_targets c)[i := t]"
  by (auto simp: config_targets_def intro!: nth_equalityI simp: nth_list_update)

lemma sum_filter_upd:
  fixes g :: "'a \<Rightarrow> nat"
  assumes "i < length xs"
  shows "sum_list (map g (filter P (xs[i := x]))) + (if P (xs ! i) then g (xs ! i) else 0) =
    sum_list (map g (filter P xs)) + (if P x then g x else 0)"
  using assms
proof (induction xs arbitrary: i)
  case (Cons a xs)
  show ?case
  proof (cases i)
    case (Suc j)
    with Cons.IH [of j] Cons.prems show ?thesis by (simp split: if_splits)
  qed simp
qed simp

lemma config_amount_upd:
  assumes "i < tc_count c"
  shows "config_amount (c\<lparr>tc_targets := (tc_targets c)(i := t)\<rparr>) n +
      (if rt_remoteNid (tc_targets c i) = n then target_amount (tc_migrateMode c) (tc_targets c i) else 0) =
    config_amount c n + (if rt_remoteNid t = n then target_amount (tc_migrateMode c) t else 0)"
  using sum_filter_upd [of i "config_targets c" "target_amount (tc_migrateMode c)" "\<lambda>t. rt_remoteNid t = n" t] assms
  by (simp add: config_amount_def config_targets_upd cong: if_cong split del: if_split)

lemma config_distinct_upd:
  assumes "config_distinct c" and "i < tc_count c" and "rt_remoteNid t = rt_remoteNid (tc_targets c i)"
  shows "config_distinct (c\<lparr>tc_targets := (tc_targets c)(i := t)\<rparr>)"
  using assms by (auto simp: config_distinct_iff)

lemma config_amount_distinct:
  assumes "config_distinct c" and "i < tc_count c" and "rt_remoteNid (tc_targets c i) = n"
  shows "config_amount c n = target_amount (tc_migrateMode c) (tc_targets c i)"
  using filter_one_in [of rt_remoteNid "config_targets c" i] assms
  by (simp add: config_amount_def config_distinct_def)

lemma config_amount_absent:
  "\<forall>i<tc_count c. rt_remoteNid (tc_targets c i) \<noteq> n \<Longrightarrow> config_amount c n = 0"
  by (auto simp: config_amount_def filter_empty_conv config_targets_def)

text \<open>The common effect of the two branches of the move: \<open>s\<close> loses, \<open>d\<close> gains \<open>m\<close>.\<close>

lemma move_two:
  assumes dist: "config_distinct c" and s: "s < tc_count c" and d: "d < tc_count c" and "s \<noteq> d"
    and mode: "mode = tc_migrateMode c"
    and ts: "rt_remoteNid ts = rt_remoteNid (tc_targets c s)"
      "target_amount mode ts + m = target_amount mode (tc_targets c s)"
    and td: "rt_remoteNid td = rt_remoteNid (tc_targets c d)"
      "target_amount mode td = target_amount mode (tc_targets c d) + m"
    and c': "c' = c\<lparr>tc_targets := (tc_targets c)(s := ts, d := td)\<rparr>"
  shows "config_distinct c'"
    and "config_amount c' n =
      (if n = rt_remoteNid (tc_targets c s) then config_amount c n - m
       else if n = rt_remoteNid (tc_targets c d) then config_amount c n + m else config_amount c n)"
proof -
  let ?c1 = "c\<lparr>tc_targets := (tc_targets c)(s := ts)\<rparr>"
  have c'2: "c' = ?c1\<lparr>tc_targets := (tc_targets ?c1)(d := td)\<rparr>" by (simp add: c')
  have d1: "config_distinct ?c1" using dist s ts(1) by (rule config_distinct_upd)
  then show "config_distinct c'" unfolding c'2 by (rule config_distinct_upd) (use d td(1) \<open>s \<noteq> d\<close> in auto)
  have ne: "rt_remoteNid (tc_targets c s) \<noteq> rt_remoteNid (tc_targets c d)"
    using dist s d \<open>s \<noteq> d\<close> by (metis config_distinct_iff linorder_neqE_nat)
  show "config_amount c' n =
      (if n = rt_remoteNid (tc_targets c s) then config_amount c n - m
       else if n = rt_remoteNid (tc_targets c d) then config_amount c n + m else config_amount c n)"
    using config_amount_upd [OF s, of ts n] config_amount_upd [of d ?c1 td n] d ts td ne \<open>s \<noteq> d\<close>
    unfolding c'2 by (auto simp: mode)
qed

lemma move_amount_correct:
  assumes dist: "config_distinct c" and count: "tc_count c \<le> 18" and s: "s < tc_count c" and d: "d < tc_count c"
    and sn: "rt_remoteNid (tc_targets c s) = srcNid" and dn: "rt_remoteNid (tc_targets c d) = destNid"
    and ne: "srcNid \<noteq> destNid"
    and le: "m \<le> target_amount (tc_migrateMode c) (tc_targets c s)"
    and res: "move_amount c srcNid s d m = (Inr (), c')"
  shows "config_distinct c'" and "tc_migrateMode c' = tc_migrateMode c"
    and "config_amount c' n =
      (if n = srcNid then config_amount c n - m
       else if n = destNid then config_amount c n + m else config_amount c n)"
proof -
  let ?src = "tc_targets c s" and ?dest = "tc_targets c d"
  have sd: "s \<noteq> d" using sn dn ne by auto
  define ratio where "ratio \<longleftrightarrow> tc_migrateMode c = MIG_RATIO_MODE"
  define ts where "ts = (if ratio then ?src\<lparr>rt_ratio := rt_ratio ?src - of_nat m\<rparr>
    else ?src\<lparr>rt_memSizeKB := rt_memSizeKB ?src - of_nat m\<rparr>)"
  define td where "td = (if ratio then ?dest\<lparr>rt_ratio := rt_ratio ?dest + of_nat m\<rparr>
    else ?dest\<lparr>rt_memSizeKB := rt_memSizeKB ?dest + of_nat m\<rparr>)"
  define c2 where "c2 = c\<lparr>tc_targets := (tc_targets c)(s := ts, d := td)\<rparr>"
  have m32: "ratio \<Longrightarrow> m \<le> 100 \<and> unat (rt_ratio ?dest) + m \<le> 100"
    using res by (auto simp: move_amount_def Let_def ratio_def split: if_splits)
  have m64: "\<not> ratio \<Longrightarrow> unat (rt_memSizeKB ?dest) + m \<le> UINT64_MAX"
  proof -
    assume nr: "\<not> ratio"
    then have "m \<le> UINT64_MAX"
      using le by (auto simp: ratio_def target_amount_def intro: le_trans [OF _ unat_u64_le])
    with nr res show ?thesis by (auto simp: move_amount_def Let_def ratio_def split: if_splits)
  qed
  have ts: "target_amount (tc_migrateMode c) ts + m = target_amount (tc_migrateMode c) ?src"
    using le by (auto simp: ts_def ratio_def target_amount_def unat_minus_of_nat)
  have td: "target_amount (tc_migrateMode c) td = target_amount (tc_migrateMode c) ?dest + m"
    using m32 m64 by (auto simp: td_def ratio_def target_amount_def unat_word_ariths unat_of_nat)
  note two = move_two [OF dist s d sd refl, of ts m td c2]
  have dist2: "config_distinct c2" and amt2: "config_amount c2 n =
      (if n = srcNid then config_amount c n - m
       else if n = destNid then config_amount c n + m else config_amount c n)" for n
    using two ts td sn dn by (auto simp: ts_def td_def c2_def)
  have c': "c' = (if target_amount (tc_migrateMode c) ts = 0 then snd (RemoveProcessRemoteTarget c2 srcNid) else c2)"
    using res sd
    by (auto simp: move_amount_def Let_def ratio_def c2_def ts_def td_def target_amount_def unat_eq_0
        fun_upd_twist split: if_splits)
  have count2: "tc_count c2 \<le> 18" using count by (simp add: c2_def)
  have zero: "config_amount c2 srcNid = 0" if "target_amount (tc_migrateMode c) ts = 0"
    using that ts config_amount_distinct [OF dist s sn] amt2 [of srcNid] by simp
  show "config_distinct c'" and "tc_migrateMode c' = tc_migrateMode c"
    using RemoveProcessRemoteTarget_distinct [OF count2 dist2] dist2 by (auto simp: c' c2_def)
  show "config_amount c' n = (if n = srcNid then config_amount c n - m
       else if n = destNid then config_amount c n + m else config_amount c n)"
    using RemoveProcessRemoteTarget_amount [OF count2 dist2, of srcNid n] zero amt2 [of n] by (auto simp: c')
qed

lemma config_targets_append:
  "config_targets (c\<lparr>tc_count := tc_count c + 1, tc_targets := (tc_targets c)(tc_count c := t)\<rparr>) =
     config_targets c @ [t]"
  by (auto simp: config_targets_def)

lemma config_amount_append:
  "config_amount (c\<lparr>tc_count := tc_count c + 1, tc_targets := (tc_targets c)(tc_count c := t)\<rparr>) n =
     config_amount c n + (if rt_remoteNid t = n then target_amount (tc_migrateMode c) t else 0)"
  unfolding config_amount_def config_targets_append by simp

lemma config_distinct_append:
  assumes "config_distinct c" and "\<forall>i<tc_count c. rt_remoteNid (tc_targets c i) \<noteq> rt_remoteNid t"
  shows "config_distinct (c\<lparr>tc_count := tc_count c + 1, tc_targets := (tc_targets c)(tc_count c := t)\<rparr>)"
  using assms unfolding config_distinct_def config_targets_append by (auto simp: config_targets_def)

definition move_requested :: "ProcessTargetConfig \<Rightarrow> u64 \<Rightarrow> int \<Rightarrow> nat" where
  "move_requested c memSizeKB ratio =
     (if tc_migrateMode c = MIG_RATIO_MODE then nat ratio else unat memSizeKB)"

text \<open>The four ways a move succeeds.\<close>

lemma MoveProcessRemoteTarget_elim:
  assumes res: "MoveProcessRemoteTarget c srcNid destNid memSizeKB ratio = (Inr (), c')"
    and m: "m = move_requested c memSizeKB ratio"
  obtains s where "tc_count c \<le> 18" "srcNid \<noteq> destNid" "find_last_target c srcNid = Some s"
      "m = 0" "c' = c"
  | (existing) s d where "tc_count c \<le> 18" "srcNid \<noteq> destNid" "find_last_target c srcNid = Some s"
      "m \<le> target_amount (tc_migrateMode c) (tc_targets c s)" "find_last_target c destNid = Some d"
      "move_amount c srcNid s d m = (Inr (), c')"
  | (rename) s where "tc_count c \<le> 18" "srcNid \<noteq> destNid" "find_last_target c srcNid = Some s"
      "m = target_amount (tc_migrateMode c) (tc_targets c s)" "find_last_target c destNid = None"
      "c' = c\<lparr>tc_targets := (tc_targets c)(s := (tc_targets c s)\<lparr>rt_remoteNid := destNid\<rparr>)\<rparr>"
  | (append) s where "tc_count c < 18" "srcNid \<noteq> destNid" "find_last_target c srcNid = Some s"
      "m \<le> target_amount (tc_migrateMode c) (tc_targets c s)" "find_last_target c destNid = None"
      "move_amount (c\<lparr>tc_count := tc_count c + 1, tc_targets :=
         (tc_targets c)(tc_count c := ProcessRemoteTarget_zero\<lparr>rt_remoteNid := destNid\<rparr>)\<rparr>)
         srcNid s (tc_count c) m = (Inr (), c')"
proof -
  from res obtain s where g: "tc_count c \<le> 18" "srcNid \<noteq> destNid" "find_last_target c srcNid = Some s"
    by (auto simp: MoveProcessRemoteTarget_def split: if_splits option.splits)
  let ?a = "target_amount (tc_migrateMode c) (tc_targets c s)"
  note unf = MoveProcessRemoteTarget_def target_amount_def Let_def
  consider "m = 0" | "m \<noteq> 0" "find_last_target c destNid \<noteq> None"
    | "m \<noteq> 0" "find_last_target c destNid = None" "m = ?a"
    | "m \<noteq> 0" "find_last_target c destNid = None" "m \<noteq> ?a" by blast
  then show thesis
  proof cases
    case 1
    with res g m show ?thesis by (intro that(1)) (auto simp: unf move_requested_def split: if_splits)
  next
    case 2
    then obtain d where "find_last_target c destNid = Some d" by blast
    with 2 res g m show ?thesis by (intro that(2)) (auto simp: unf move_requested_def split: if_splits)
  next
    case 3
    with res g m show ?thesis by (intro that(3)) (auto simp: unf move_requested_def split: if_splits)
  next
    case 4
    with res g m show ?thesis by (intro that(4)) (auto simp: unf move_requested_def split: if_splits)
  qed
qed

lemma move_rename_correct:
  assumes dist: "config_distinct c" and s: "find_last_target c srcNid = Some s"
    and fresh: "find_last_target c destNid = None" and ne: "srcNid \<noteq> destNid"
    and m: "m = target_amount (tc_migrateMode c) (tc_targets c s)"
    and c': "c' = c\<lparr>tc_targets := (tc_targets c)(s := (tc_targets c s)\<lparr>rt_remoteNid := destNid\<rparr>)\<rparr>"
  shows "config_distinct c'" and "tc_migrateMode c' = tc_migrateMode c"
    and "config_amount c' n = (if n = srcNid then config_amount c n - m
       else if n = destNid then config_amount c n + m else config_amount c n)"
proof -
  note sp = find_last_target_Some [OF s]
  note fresh' = fresh [unfolded find_last_target_None]
  let ?t = "(tc_targets c s)\<lparr>rt_remoteNid := destNid\<rparr>"
  show "config_distinct c'" using dist fresh' sp unfolding c' by (auto simp: config_distinct_iff)
  show "tc_migrateMode c' = tc_migrateMode c" by (simp add: c')
  have "target_amount (tc_migrateMode c) ?t = m" by (simp add: m target_amount_def)
  then show "config_amount c' n = (if n = srcNid then config_amount c n - m
       else if n = destNid then config_amount c n + m else config_amount c n)"
    using config_amount_upd [OF sp(1), of ?t n] sp(2) ne config_amount_absent [OF fresh']
      config_amount_distinct [OF dist sp]
    by (auto simp: c' m)
qed

lemma move_append_correct:
  assumes dist: "config_distinct c" and s: "find_last_target c srcNid = Some s"
    and fresh: "find_last_target c destNid = None" and ne: "srcNid \<noteq> destNid" and cnt: "tc_count c < 18"
    and le: "m \<le> target_amount (tc_migrateMode c) (tc_targets c s)"
    and mv: "move_amount (c\<lparr>tc_count := tc_count c + 1, tc_targets :=
         (tc_targets c)(tc_count c := ProcessRemoteTarget_zero\<lparr>rt_remoteNid := destNid\<rparr>)\<rparr>)
         srcNid s (tc_count c) m = (Inr (), c')" (is "move_amount ?c1 _ _ _ _ = _")
  shows "config_distinct c'" and "tc_migrateMode c' = tc_migrateMode c"
    and "config_amount c' n = (if n = srcNid then config_amount c n - m
       else if n = destNid then config_amount c n + m else config_amount c n)"
proof -
  note sp = find_last_target_Some [OF s]
  note fresh' = fresh [unfolded find_last_target_None]
  have z: "target_amount (tc_migrateMode c) (ProcessRemoteTarget_zero\<lparr>rt_remoteNid := k\<rparr>) = 0" for k
    by (simp add: target_amount_def ProcessRemoteTarget_zero_def)
  have dist1: "config_distinct ?c1" using fresh' by (intro config_distinct_append dist) simp
  have amt1: "config_amount ?c1 k = config_amount c k" for k
    unfolding config_amount_append by (simp add: z)
  note * = move_amount_correct [OF dist1 _ _ _ _ _ ne _ mv]
  show "config_distinct c'" using * sp le cnt by simp
  show "tc_migrateMode c' = tc_migrateMode c" using * sp le cnt by simp
  show "config_amount c' n = (if n = srcNid then config_amount c n - m
       else if n = destNid then config_amount c n + m else config_amount c n)"
    using *(3) [of n] sp le cnt amt1 by simp
qed

text \<open>
  A successful move takes exactly the requested amount from the source node, gives it to the
  destination, leaves every other node alone and creates no duplicate target.
\<close>

lemma MoveProcessRemoteTarget_gen:
  assumes dist: "config_distinct c"
    and res: "MoveProcessRemoteTarget c srcNid destNid memSizeKB ratio = (Inr (), c')"
    and m: "m = move_requested c memSizeKB ratio"
  shows "config_distinct c' \<and> tc_migrateMode c' = tc_migrateMode c \<and> m \<le> config_amount c srcNid \<and>
    config_amount c' n = (if n = srcNid then config_amount c n - m
       else if n = destNid then config_amount c n + m else config_amount c n)"
  using res m
proof (cases rule: MoveProcessRemoteTarget_elim)
  case (1 s)
  with dist show ?thesis by simp
next
  case (existing s d)
  note s = find_last_target_Some [OF existing(3)] and d = find_last_target_Some [OF existing(5)]
  show ?thesis
    using move_amount_correct [OF dist existing(1) s(1) d(1) s(2) d(2) existing(2,4,6)] existing(4)
      config_amount_distinct [OF dist s] by simp
next
  case (rename s)
  show ?thesis
    using move_rename_correct [OF dist rename(3,5,2,4,6)] rename(4)
      config_amount_distinct [OF dist find_last_target_Some [OF rename(3)]] by simp
next
  case (append s)
  show ?thesis
    using move_append_correct [OF dist append(3,5,2,1,4,6)] append(4)
      config_amount_distinct [OF dist find_last_target_Some [OF append(3)]] by simp
qed

section \<open>Building a configuration from parameters\<close>

definition param_target :: "NumaParam \<Rightarrow> ProcessRemoteTarget" where
  "param_target p = \<lparr>rt_remoteNid = np_nid p, rt_ratio = of_int (np_ratio p), rt_memSizeKB = np_memSize p\<rparr>"

lemma append_param_targets_ok:
  assumes "append_param_targets ps c = Inr c'"
  shows "config_targets c' = config_targets c @ map param_target ps \<and> tc_migrateMode c' = tc_migrateMode c \<and>
    tc_count c' = tc_count c + length ps \<and> (\<forall>p \<in> set ps. np_migrateMode p = tc_migrateMode c)"
  using assms
proof (induction ps arbitrary: c)
  case (Cons p ps)
  let ?c = "c\<lparr>tc_count := tc_count c + 1, tc_targets := (tc_targets c)(tc_count c :=
    (tc_targets c (tc_count c))\<lparr>rt_remoteNid := np_nid p, rt_ratio := of_int (np_ratio p), rt_memSizeKB := np_memSize p\<rparr>)\<rparr>"
  have mode: "np_migrateMode p = tc_migrateMode c" and rest: "append_param_targets ps ?c = Inr c'"
    using Cons.prems by (auto split: if_splits)
  have "config_targets ?c = config_targets c @ [param_target p]"
    unfolding config_targets_append by (simp add: param_target_def)
  with Cons.IH [OF rest] mode show ?case by simp
qed simp

lemma BuildProcessTargetConfigFromParam_valid:
  assumes "BuildProcessTargetConfigFromParam h param = Inr c"
  shows "valid_config h c"
proof -
  have "ValidateProcessTargetConfig h c = Inr ()"
  proof (cases "pp_targetConfigValid param")
    case True
    then have "ValidateProcessTargetConfig h (pp_targetConfig param) = Inr ()"
      and "CopyProcessTargetConfig (pp_targetConfig param) = Inr c"
      using assms by (auto simp: BuildProcessTargetConfigFromParam_def split: if_splits sum.splits)
    then show ?thesis by (simp add: CopyProcessTargetConfig_def split: if_splits)
  next
    case False
    have "valid_config h InitProcessTargetConfig"
      by (simp add: valid_config_def InitProcessTargetConfig_def ProcessTargetConfig_zero_def
          config_distinct_def config_targets_def)
    moreover have "valid_config h c"
      if "map_sum id (\<lambda>_. c1) (ValidateProcessTargetConfig h c1) = Inr c" for c1
      using that ValidateProcessTargetConfig_iff_gen [of h c1]
      by (cases "ValidateProcessTargetConfig h c1") auto
    ultimately show ?thesis using False assms
      by (auto simp: BuildProcessTargetConfigFromParam_def Let_def ValidateProcessTargetConfig_iff_gen
          split: if_splits sum.splits)
  qed
  then show ?thesis by (simp add: ValidateProcessTargetConfig_iff_gen)
qed

section \<open>Properties\<close>

text \<open>\<^verbatim>\<open>ValidateProcessTargetConfig\<close> accepts exactly the valid configurations: at most 18 targets, a known
  mode, no node named twice, and either ratios that add up to at most 100 or sizes that are whole numbers of
  pages of 32 bits.\<close>

theorem ValidateProcessTargetConfig_iff:
  "ValidateProcessTargetConfig hugeMode c = Inr () \<longleftrightarrow> valid_config hugeMode c"
  by (rule ValidateProcessTargetConfig_iff_gen)

text \<open>C40. A configuration built from the parameters of a request is valid and is what was asked for: in the
  newer format it is the configuration of the request; in the older one it has one target for every node
  parameter, in their order and with their common mode, or none when no node is named.\<close>

theorem BuildProcessTargetConfigFromParam_ok:
  assumes "BuildProcessTargetConfigFromParam hugeMode param = Inr c"
  shows "valid_config hugeMode c \<and>
    (if pp_targetConfigValid param then c = pp_targetConfig param
     else if pp_count param = 0 \<or> pp_count param = 1 \<and> np_nid (pp_numaParam param 0) = -1 then config_targets c = []
     else config_targets c = map (\<lambda>i. param_target (pp_numaParam param i)) [0..<nat (pp_count param)] \<and>
       (\<forall>i < nat (pp_count param). np_migrateMode (pp_numaParam param i) = tc_migrateMode c))"
proof -
  let ?none = "pp_count param = 0 \<or> pp_count param = 1 \<and> np_nid (pp_numaParam param 0) = -1"
  have init: "config_targets (InitProcessTargetConfig\<lparr>tc_migrateMode := k\<rparr>) = []" "config_targets InitProcessTargetConfig = []" for k
    by (simp_all add: config_targets_def InitProcessTargetConfig_def ProcessTargetConfig_zero_def)
  consider "pp_targetConfigValid param" | "\<not> pp_targetConfigValid param" "?none" | "\<not> pp_targetConfigValid param" "\<not> ?none" by blast
  then show ?thesis
  proof cases
    case 1
    then have "CopyProcessTargetConfig (pp_targetConfig param) = Inr c"
      using assms by (simp add: BuildProcessTargetConfigFromParam_def split: if_splits sum.splits)
    then have "c = pp_targetConfig param" by (simp add: CopyProcessTargetConfig_def split: if_splits)
    then show ?thesis using 1 BuildProcessTargetConfigFromParam_valid [OF assms] by simp
  next
    case 2
    then have "c = InitProcessTargetConfig" using assms by (auto simp: BuildProcessTargetConfigFromParam_def Let_def split: if_splits)
    then show ?thesis using 2 BuildProcessTargetConfigFromParam_valid [OF assms] init(2) by simp
  next
    case 3
    let ?ps = "map (pp_numaParam param) [0..<nat (pp_count param)]"
    have const: "map_sum id (\<lambda>_. x) r = Inr c \<Longrightarrow> x = c" for x and r :: "errno + unit" by (cases r) simp_all
    have "append_param_targets ?ps (InitProcessTargetConfig\<lparr>tc_migrateMode := np_migrateMode (pp_numaParam param 0)\<rparr>) = Inr c"
    proof -
      have "(case append_param_targets ?ps (InitProcessTargetConfig\<lparr>tc_migrateMode := np_migrateMode (pp_numaParam param 0)\<rparr>) of
          Inl e \<Rightarrow> Inl e | Inr config \<Rightarrow> map_sum id (\<lambda>_. config) (ValidateProcessTargetConfig hugeMode config)) = Inr c"
        using assms unfolding BuildProcessTargetConfigFromParam_def Let_def if_not_P [OF 3(1)] if_not_P [OF 3(2)] by (meson sum.distinct(1))
      then show ?thesis using const by (auto split: sum.splits)
    qed
    note ap = append_param_targets_ok [OF this]
    have t: "config_targets c = map (\<lambda>i. param_target (pp_numaParam param i)) [0..<nat (pp_count param)]"
      using conjunct1 [OF ap] unfolding init map_map comp_def by simp
    have "\<forall>p \<in> set ?ps. np_migrateMode p = tc_migrateMode c" using ap by metis
    then have m: "\<forall>i < nat (pp_count param). np_migrateMode (pp_numaParam param i) = tc_migrateMode c" by simp
    show ?thesis unfolding if_not_P [OF 3(1)] if_not_P [OF 3(2)] by (intro conjI t m BuildProcessTargetConfigFromParam_valid [OF assms])
  qed
qed

text \<open>A request of the older format for 20 and 30 percent on the nodes 4 and 5.\<close>

definition request_demo :: ProcessParam where
  "request_demo = \<lparr>pp_pid = 1, pp_scanTime = 0, pp_duration = 0, pp_scanType = NORMAL_SCAN, pp_count = 2,
     pp_numaParam = (\<lambda>i. \<lparr>np_nid = (if i = 0 then 4 else 5), np_ratio = (if i = 0 then 20 else 30), np_memSize = 0, np_migrateMode = MIG_RATIO_MODE\<rparr>),
     pp_targetConfigValid = False, pp_ignoreRemoteCapacity = False, pp_targetConfig = ProcessTargetConfig_zero\<rparr>"

theorem BuildProcessTargetConfigFromParam_ok_witness:
  "\<exists>c. BuildProcessTargetConfigFromParam False request_demo = Inr c \<and> valid_config False c \<and>
     map rt_remoteNid (config_targets c) = [4, 5] \<and> map rt_ratio (config_targets c) = [20, 30]"
proof -
  have [simp]: "[0..<2] = [0, 1 :: nat]" by (simp add: numeral_2_eq_2)
  obtain c where c: "BuildProcessTargetConfigFromParam False request_demo = Inr c"
    by (simp add: BuildProcessTargetConfigFromParam_def request_demo_def FindProcessRemoteTarget_def InitProcessTargetConfig_def
        ProcessTargetConfig_zero_def ProcessRemoteTarget_zero_def ValidateProcessTargetConfig_def CopyProcessTargetConfig_def add64_def)
  from BuildProcessTargetConfigFromParam_ok [OF c] c show ?thesis
    by (auto simp: request_demo_def param_target_def)
qed

text \<open>Removing the target of a remote node filters the list of targets: the node's target goes, the others
  stay in their order, and the call reports whether there was one.\<close>

theorem RemoveProcessRemoteTarget_removes:
  assumes "tc_count c \<le> 18" and "config_distinct c"
  shows "config_targets (snd (RemoveProcessRemoteTarget c nid)) = filter (\<lambda>t. rt_remoteNid t \<noteq> nid) (config_targets c) \<and>
    (fst (RemoveProcessRemoteTarget c nid) \<longleftrightarrow> nid \<in> rt_remoteNid ` set (config_targets c))"
  using RemoveProcessRemoteTarget_filter [OF assms, of nid] by (auto simp: image_iff)

theorem RemoveProcessRemoteTarget_removes_witness:
  "config_targets (snd (RemoveProcessRemoteTarget
     \<lparr>tc_migrateMode = MIG_RATIO_MODE, tc_count = 2, tc_targets = (\<lambda>i. \<lparr>rt_remoteNid = int i + 4, rt_ratio = 10, rt_memSizeKB = 0\<rparr>)\<rparr> 4)) =
   [\<lparr>rt_remoteNid = 5, rt_ratio = 10, rt_memSizeKB = 0\<rparr>]"
  using RemoveProcessRemoteTarget_removes [of "\<lparr>tc_migrateMode = MIG_RATIO_MODE, tc_count = 2,
      tc_targets = (\<lambda>i. \<lparr>rt_remoteNid = int i + 4, rt_ratio = 10, rt_memSizeKB = 0\<rparr>)\<rparr>" 4]
  by (simp add: config_distinct_def config_targets_def numeral_2_eq_2)

text \<open>C37. A successful \<^verbatim>\<open>MoveProcessRemoteTarget\<close> takes exactly the requested amount (ratio or size) from the
  source node, adds it to the destination node, changes no other node, and leaves a configuration in which no
  node is named twice.\<close>

theorem MoveProcessRemoteTarget_moves:
  assumes "config_distinct c" and "MoveProcessRemoteTarget c srcNid destNid memSizeKB ratio = (Inr (), c')"
  shows "config_distinct c' \<and> tc_migrateMode c' = tc_migrateMode c \<and>
    move_requested c memSizeKB ratio \<le> config_amount c srcNid \<and>
    config_amount c' n = (if n = srcNid then config_amount c n - move_requested c memSizeKB ratio
       else if n = destNid then config_amount c n + move_requested c memSizeKB ratio else config_amount c n)"
  using MoveProcessRemoteTarget_gen [OF assms refl] .

theorem MoveProcessRemoteTarget_moves_witness:
  "\<exists>c'. MoveProcessRemoteTarget
     \<lparr>tc_migrateMode = MIG_RATIO_MODE, tc_count = 1, tc_targets = (\<lambda>i. \<lparr>rt_remoteNid = 4, rt_ratio = 30, rt_memSizeKB = 0\<rparr>)\<rparr>
     4 5 0 10 = (Inr (), c') \<and> config_distinct c' \<and> config_amount c' 4 = 20 \<and> config_amount c' 5 = 10"
proof -
  let ?c = "\<lparr>tc_migrateMode = MIG_RATIO_MODE, tc_count = 1, tc_targets = (\<lambda>i. \<lparr>rt_remoteNid = 4, rt_ratio = 30, rt_memSizeKB = 0\<rparr>)\<rparr>"
  have d: "config_distinct ?c" by (simp add: config_distinct_def config_targets_def)
  obtain c' where c': "MoveProcessRemoteTarget ?c 4 5 0 10 = (Inr (), c')"
    by (simp add: MoveProcessRemoteTarget_def find_last_target_def move_amount_def Let_def ProcessRemoteTarget_zero_def)
  have "config_amount ?c 4 = 30" "config_amount ?c 5 = 0" "move_requested ?c 0 10 = 10"
    by (simp_all add: config_amount_def config_targets_def target_amount_def move_requested_def)
  then show ?thesis
    using MoveProcessRemoteTarget_moves [OF d c', of 4] MoveProcessRemoteTarget_moves [OF d c', of 5] c' by (intro exI [of _ c']) simp
qed

end
