(* ===== verification/Managed_Local.thy ===== *)
theory Managed_Local
  imports Target_Config
begin

text \<open>
  The set of local NUMA nodes SMAP manages for a process
  (\<^verbatim>\<open>plugins/smap/src/user/manage/manage.c\<close>, lines 92 to 335): the masks observed from CPU
  affinity, page residency and the Pair account, their refresh, and the tracking scope derived
  from them. The number of local nodes and the migration period of the global process manager
  are arguments. \<^verbatim>\<open>SetLocalNumaByCpu\<close> asks the operating system for the affinity of a process;
  its result is the argument \<open>affinity\<close>.
\<close>

definition BuildAllLocalNumaMask :: "int \<Rightarrow> u32" where
  "BuildAllLocalNumaMask nrLocalNuma =
     (if nrLocalNuma \<le> 0 \<or> nrLocalNuma > int LOCAL_NUMA_NUM then 0
      else push_bit (nat nrLocalNuma) 1 - 1)"

definition BuildResidentLocalMask :: "int \<Rightarrow> ProcessAttr \<Rightarrow> u32" where
  "BuildResidentLocalMask nrLocalNuma attr =
     fold (\<lambda>localNid mask. if nrPages attr localNid \<noteq> 0 then AddL1 mask localNid else mask)
       [0..<min (nat nrLocalNuma) LOCAL_NUMA_NUM] 0"

definition BuildAccountLocalMask :: "int \<Rightarrow> ProcessAttr \<Rightarrow> int \<Rightarrow> u32" where
  "BuildAccountLocalMask nrLocalNuma attr remoteIndex =
     (if remoteIndex < 0 \<or> remoteIndex \<ge> int REMOTE_NUMA_NUM then 0
      else fold (\<lambda>localNid mask. if account attr localNid (nat remoteIndex) \<noteq> 0
                                 then AddL1 mask localNid else mask)
             [0..<min (nat nrLocalNuma) LOCAL_NUMA_NUM] 0)"

record ManagedLocalObservation =
  ob_affinityLocalMask :: u32
  ob_residentLocalMask :: u32
  ob_numaPages :: "nat \<Rightarrow> u64"
  ob_affinityValid :: bool
  ob_affinitySampled :: bool
  ob_residentValid :: bool

definition ApplyManagedLocalObservation ::
  "int \<Rightarrow> ProcessAttr \<Rightarrow> ManagedLocalObservation \<Rightarrow> bool \<Rightarrow> errno + ProcessAttr" where
  "ApplyManagedLocalObservation nrLocalNuma attr observation fullReplacement =
     (if \<not> ob_affinityValid observation \<and> \<not> ob_residentValid observation then Inl EINVAL
      else
        let allLocalMask = BuildAllLocalNumaMask nrLocalNuma
        in if allLocalMask = 0 then Inl EINVAL
           else
             let state = pa_managedLocalState attr;
                 state = state\<lparr>ml_residentLocalMask :=
                   if ob_residentValid observation then ob_residentLocalMask observation AND allLocalMask else 0\<rparr>;
                 state = (if ob_affinitySampled observation
                   then state\<lparr>ml_affinityRefreshElapsedMs := 0, ml_affinitySampled := True\<rparr> else state);
                 state = (if ob_affinityValid observation
                   then state\<lparr>ml_affinityLocalMask := ob_affinityLocalMask observation AND allLocalMask,
                              ml_affinityValid := True\<rparr> else state);
                 observed = (if ml_affinityValid state then ml_affinityLocalMask state else 0)
                              OR ml_residentLocalMask state;
                 state = state\<lparr>ml_observedLocalMask := if observed = 0 then allLocalMask else observed\<rparr>;
                 (masks, allAccountLocalMask) =
                   fold (\<lambda>remoteIndex (masks, all).
                     let m = BuildAccountLocalMask nrLocalNuma attr (int remoteIndex)
                     in (masks(remoteIndex := m), all OR m))
                   [0..<REMOTE_NUMA_NUM] (ml_accountLocalMask state, 0);
                 managedLocalMask = ml_observedLocalMask state OR allAccountLocalMask;
                 managedLocalMask = (if \<not> fullReplacement then managedLocalMask OR managedMask attr
                                     else managedLocalMask);
                 state = state\<lparr>ml_accountLocalMask := masks,
                               ml_managedLocalMask := managedLocalMask AND allLocalMask\<rparr>
             in Inr (attr\<lparr>pa_managedLocalState := state\<rparr>))"

abbreviation (input) MANAGED_LOCAL_AFFINITY_REFRESH_INTERVAL_MS :: nat where
  "MANAGED_LOCAL_AFFINITY_REFRESH_INTERVAL_MS \<equiv> 30000"

definition GetManagedLocalRefreshPeriodMs :: "u32 \<Rightarrow> u32" where
  "GetManagedLocalRefreshPeriodMs migPeriod = (if migPeriod \<noteq> 0 then migPeriod else 2000)"

definition AdvanceManagedLocalAffinityRefresh :: "u32 \<Rightarrow> ProcessAttr \<Rightarrow> ProcessAttr" where
  "AdvanceManagedLocalAffinityRefresh migPeriod attr =
     (let elapsed = ml_affinityRefreshElapsedMs (pa_managedLocalState attr);
          period = GetManagedLocalRefreshPeriodMs migPeriod;
          elapsed' = (if unat elapsed \<ge> MANAGED_LOCAL_AFFINITY_REFRESH_INTERVAL_MS \<or>
                         unat period \<ge> MANAGED_LOCAL_AFFINITY_REFRESH_INTERVAL_MS - unat elapsed
                      then of_nat MANAGED_LOCAL_AFFINITY_REFRESH_INTERVAL_MS else elapsed + period)
      in attr\<lparr>pa_managedLocalState := (pa_managedLocalState attr)\<lparr>ml_affinityRefreshElapsedMs := elapsed'\<rparr>\<rparr>)"

definition RefreshManagedLocalState ::
  "int \<Rightarrow> u32 \<Rightarrow> (errno + u32) \<Rightarrow> ProcessAttr \<Rightarrow> bool \<Rightarrow> errno + ProcessAttr" where
  "RefreshManagedLocalState nrLocalNuma migPeriod affinity attr fullReplacement =
     (let observation = \<lparr>ob_affinityLocalMask = 0,
            ob_residentLocalMask = BuildResidentLocalMask nrLocalNuma attr,
            ob_numaPages = (\<lambda>_. 0), ob_affinityValid = False, ob_affinitySampled = False, ob_residentValid = True\<rparr>;
          attr = (if \<not> fullReplacement then AdvanceManagedLocalAffinityRefresh migPeriod attr else attr);
          state = pa_managedLocalState attr;
          refreshAffinity = (fullReplacement \<or> \<not> ml_affinitySampled state \<or>
            unat (ml_affinityRefreshElapsedMs state) \<ge> MANAGED_LOCAL_AFFINITY_REFRESH_INTERVAL_MS);
          observation =
            (if refreshAffinity then
               (case affinity of
                  Inl _ \<Rightarrow> observation\<lparr>ob_affinitySampled := True\<rparr>
                | Inr aff \<Rightarrow> observation\<lparr>ob_affinityLocalMask := aff, ob_affinitySampled := True,
                                           ob_affinityValid := True\<rparr>)
             else if ml_affinityValid state then
               observation\<lparr>ob_affinityLocalMask := ml_affinityLocalMask state, ob_affinityValid := True\<rparr>
             else observation)
      in ApplyManagedLocalObservation nrLocalNuma attr observation fullReplacement)"

definition BuildManagedTrackingNodes :: "int \<Rightarrow> ProcessAttr \<Rightarrow> u32" where
  "BuildManagedTrackingNodes nrLocalNuma attr =
     (let allLocalMask = BuildAllLocalNumaMask nrLocalNuma
      in if allLocalMask = 0 then 0
         else
           let localBitmapMask = push_bit LOCAL_NUMA_BITS 1 - 1;
               pageSnapshotValid = (wp_nrPage (pa_walkPage attr) \<noteq> 0);
               numaNodes = (if pageSnapshotValid then 0
                            else na_numaNodes (pa_numaAttr attr) AND NOT localBitmapMask);
               numaNodes = numaNodes OR (managedMask attr AND allLocalMask);
               targetCount = min (tc_count (pa_targetConfig attr)) REMOTE_NUMA_NUM;
               numaNodes = fold (\<lambda>i nodes.
                   let remoteNid = rt_remoteNid (tc_targets (pa_targetConfig attr) i)
                   in case RemoteNidToIndex remoteNid nrLocalNuma of
                        Inr _ \<Rightarrow> AddL2ByNid nrLocalNuma nodes remoteNid | Inl _ \<Rightarrow> nodes)
                 [0..<targetCount] numaNodes
           in fold (\<lambda>remoteIndex nodes.
                let remoteNid = nrLocalNuma + int remoteIndex;
                    hasResidentPages = (remoteNid < int MAX_NODES \<and> nrPages attr (nat remoteNid) \<noteq> 0);
                    hasAccount = (ml_accountLocalMask (pa_managedLocalState attr) remoteIndex \<noteq> 0)
                in if \<not> hasResidentPages \<and> \<not> hasAccount then nodes
                   else AddL2ByNid nrLocalNuma nodes remoteNid)
              [0..<REMOTE_NUMA_NUM] numaNodes)"

definition IsRemoteNidValid :: "int \<Rightarrow> int \<Rightarrow> bool" where
  "IsRemoteNidValid nrLocalNuma nid \<longleftrightarrow> nrLocalNuma \<le> nid \<and> nid < int REMOTE_NUMA_BITS + nrLocalNuma"

text \<open>
  The critical-error flags of the remote nodes. \<open>isCritical\<close> is the query of the kernel
  (\<^verbatim>\<open>IsNumaCriticalErr\<close>); the static counter makes only every sixth call query it.
\<close>

record CriticalErr =
  ce_count :: nat
  ce_nodes :: "nat \<Rightarrow> bool"

definition UpdateRemoteNumaCriticalErr :: "int \<Rightarrow> (int \<Rightarrow> bool) \<Rightarrow> CriticalErr \<Rightarrow> CriticalErr" where
  "UpdateRemoteNumaCriticalErr nrLocalNuma isCritical st =
     (if ce_count st < 5 then st\<lparr>ce_count := ce_count st + 1\<rparr>
      else \<lparr>ce_count = 0,
            ce_nodes = fold (\<lambda>i nodes. nodes(i := isCritical (nrLocalNuma + int i)))
              [0..<REMOTE_NUMA_BITS] (ce_nodes st)\<rparr>)"

definition IsRemoteNumaCriticalErr :: "int \<Rightarrow> CriticalErr \<Rightarrow> int \<Rightarrow> bool" where
  "IsRemoteNumaCriticalErr nrLocalNuma st nid \<longleftrightarrow>
     \<not> (nid < nrLocalNuma \<or> nid \<ge> nrLocalNuma + int REMOTE_NUMA_BITS) \<and> ce_nodes st (nat (nid - nrLocalNuma))"

section \<open>The masks by bits\<close>

lemma bit_fold_AddL1:
  "n \<le> 32 \<Longrightarrow> bit (fold (\<lambda>i m. if P i then AddL1 m i else m) [0..<n] m) k \<longleftrightarrow> bit m k \<or> k < n \<and> P k"
  by (induction n) (auto simp: less_Suc_eq)

lemma bit_BuildAllLocalNumaMask [simp]:
  "bit (BuildAllLocalNumaMask nr) k \<longleftrightarrow> 0 < nr \<and> nr \<le> 8 \<and> k < nat nr"
proof (cases "0 < nr \<and> nr \<le> 8")
  case True
  then have "BuildAllLocalNumaMask nr = mask (nat nr)"
    by (simp add: BuildAllLocalNumaMask_def mask_eq_exp_minus_1 push_bit_eq_mult)
  with True show ?thesis by (auto simp: bit_mask_iff)
qed (auto simp: BuildAllLocalNumaMask_def)

lemma BuildAllLocalNumaMask_eq_0 [simp]: "BuildAllLocalNumaMask nr = 0 \<longleftrightarrow> nr \<le> 0 \<or> nr > 8"
proof
  assume z: "BuildAllLocalNumaMask nr = 0"
  have "\<not> bit (BuildAllLocalNumaMask nr) 0" unfolding z by simp
  then show "nr \<le> 0 \<or> nr > 8" by auto
qed (simp add: BuildAllLocalNumaMask_def)

lemma bit_BuildResidentLocalMask [simp]:
  "bit (BuildResidentLocalMask nr attr) k \<longleftrightarrow> k < min (nat nr) 8 \<and> nrPages attr k \<noteq> 0"
  unfolding BuildResidentLocalMask_def by (subst bit_fold_AddL1) auto

lemma bit_BuildAccountLocalMask [simp]:
  "r < 18 \<Longrightarrow> bit (BuildAccountLocalMask nr attr (int r)) k \<longleftrightarrow> k < min (nat nr) 8 \<and> account attr k r \<noteq> 0"
  using bit_fold_AddL1 [of "min (nat nr) 8" "\<lambda>l. account attr l r \<noteq> 0" 0 k]
  by (simp add: BuildAccountLocalMask_def)

lemma fold_masks:
  fixes f :: "nat \<Rightarrow> u32"
  shows "fold (\<lambda>r (ms, all). let m = f r in (ms(r := m), all OR m)) [0..<n] (ms, a) =
    (\<lambda>r. if r < n then f r else ms r, fold (\<lambda>r all. all OR f r) [0..<n] a)"
  by (induction n) (auto simp: Let_def fun_eq_iff less_Suc_eq)

lemma bit_fold_or:
  fixes f :: "nat \<Rightarrow> u32"
  shows "bit (fold (\<lambda>r all. all OR f r) [0..<n] a) k \<longleftrightarrow> bit a k \<or> (\<exists>r<n. bit (f r) k)"
  by (induction n) (auto simp: bit_or_iff less_Suc_eq)

section \<open>Observation and refresh\<close>

text \<open>
  The masks of a refreshed process agree with each other: every node that holds pages of the
  process or an entry of its Pair account is managed, nothing outside the machine is, and the
  managed set is not empty.
\<close>

definition managed_state_ok :: "int \<Rightarrow> ProcessAttr \<Rightarrow> bool" where
  "managed_state_ok nr attr \<longleftrightarrow>
     0 < nr \<and> nr \<le> 8 \<and>
     (\<forall>k. bit (managedMask attr) k \<longrightarrow> k < nat nr) \<and>
     (\<forall>k. bit (residentMask attr) k \<longrightarrow> bit (managedMask attr) k) \<and>
     (\<forall>r<18. \<forall>k. bit (ml_accountLocalMask (pa_managedLocalState attr) r) k \<longleftrightarrow> k < nat nr \<and> account attr k r \<noteq> 0) \<and>
     (\<forall>r<18. \<forall>k<nat nr. account attr k r \<noteq> 0 \<longrightarrow> bit (managedMask attr) k) \<and>
     managedMask attr \<noteq> 0"

lemma ApplyManagedLocalObservation_frame:
  assumes "ApplyManagedLocalObservation nr attr ob full = Inr attr'"
  shows "pa_walkPage attr' = pa_walkPage attr" and "pa_strategyAttr attr' = pa_strategyAttr attr"
    and "pa_targetConfig attr' = pa_targetConfig attr" and "pa_pid attr' = pa_pid attr"
  using assms by (auto simp: ApplyManagedLocalObservation_def Let_def split: if_splits prod.splits)

text \<open>The state that an accepted observation leaves, field by field.\<close>

lemma ApplyManagedLocalObservation_state:
  assumes res: "ApplyManagedLocalObservation nr attr ob full = Inr attr'"
  shows "0 < nr" and "nr \<le> 8"
    and "residentMask attr' = (if ob_residentValid ob then ob_residentLocalMask ob AND BuildAllLocalNumaMask nr else 0)"
    and "r < 18 \<Longrightarrow> ml_accountLocalMask (pa_managedLocalState attr') r = BuildAccountLocalMask nr attr (int r)"
    and "managedMask attr' = (ml_observedLocalMask (pa_managedLocalState attr')
      OR fold (\<lambda>r all. all OR BuildAccountLocalMask nr attr (int r)) [0..<18] 0
      OR (if full then 0 else managedMask attr)) AND BuildAllLocalNumaMask nr"
  using res
  by (auto simp: ApplyManagedLocalObservation_def Let_def fold_masks [unfolded Let_def] or.assoc split: if_splits)

lemma ApplyManagedLocalObservation_observed:
  assumes res: "ApplyManagedLocalObservation nr attr ob full = Inr attr'"
  shows "ml_observedLocalMask (pa_managedLocalState attr') =
    (let aff = (if ob_affinityValid ob then ob_affinityLocalMask ob AND BuildAllLocalNumaMask nr
                else if ml_affinityValid (pa_managedLocalState attr) then ml_affinityLocalMask (pa_managedLocalState attr)
                else 0)
     in if aff OR residentMask attr' = 0 then BuildAllLocalNumaMask nr else aff OR residentMask attr')"
  using res
  by (auto simp: ApplyManagedLocalObservation_def Let_def fold_masks [unfolded Let_def] split: if_splits)

lemma bit_managedMask_after:
  assumes res: "ApplyManagedLocalObservation nr attr ob full = Inr attr'"
  shows "bit (managedMask attr') k \<longleftrightarrow> k < nat nr \<and>
    (bit (ml_observedLocalMask (pa_managedLocalState attr')) k \<or> (\<exists>r<18. account attr k r \<noteq> 0) \<or>
     \<not> full \<and> bit (managedMask attr) k)"
  unfolding ApplyManagedLocalObservation_state(5) [OF res]
  using ApplyManagedLocalObservation_state(1,2) [OF res]
  by (auto simp: bit_and_iff bit_or_iff bit_fold_or split: if_splits)

lemma word_eq_0_bits: "(w :: 'a :: len word) = 0 \<longleftrightarrow> (\<forall>k. \<not> bit w k)"
  by (auto simp: bit_eq_iff dest: bit_imp_le_length)

lemma observed_local_nonempty:
  assumes res: "ApplyManagedLocalObservation nr attr ob full = Inr attr'"
    and aff: "\<not> ob_affinityValid ob \<Longrightarrow> ml_affinityValid (pa_managedLocalState attr) \<Longrightarrow>
      \<forall>k. bit (ml_affinityLocalMask (pa_managedLocalState attr)) k \<longrightarrow> k < nat nr"
  shows "\<exists>k<nat nr. bit (ml_observedLocalMask (pa_managedLocalState attr')) k"
proof -
  let ?all = "BuildAllLocalNumaMask nr" and ?o = "ml_observedLocalMask (pa_managedLocalState attr')"
  note st = ApplyManagedLocalObservation_state [OF res]
  have sub: "bit ?o k \<Longrightarrow> k < nat nr" for k
    using st(1-3) aff unfolding ApplyManagedLocalObservation_observed [OF res]
    by (auto simp: Let_def bit_and_iff bit_or_iff split: if_splits)
  have "?all \<noteq> 0" using st(1,2) by simp
  then have "?o \<noteq> 0" unfolding ApplyManagedLocalObservation_observed [OF res] by (auto simp: Let_def)
  then show ?thesis using sub by (auto simp: word_eq_0_bits)
qed

text \<open>A state whose affinity mask stays on the machine; every accepted observation keeps it so.\<close>

definition affinity_ok :: "int \<Rightarrow> ProcessAttr \<Rightarrow> bool" where
  "affinity_ok nr attr \<longleftrightarrow> (ml_affinityValid (pa_managedLocalState attr) \<longrightarrow>
     (\<forall>k. bit (ml_affinityLocalMask (pa_managedLocalState attr)) k \<longrightarrow> k < nat nr))"

lemma ApplyManagedLocalObservation_affinity_ok:
  assumes "ApplyManagedLocalObservation nr attr ob full = Inr attr'" and "affinity_ok nr attr"
  shows "affinity_ok nr attr'"
  using assms
  by (auto simp: affinity_ok_def ApplyManagedLocalObservation_def Let_def fold_masks [unfolded Let_def]
      bit_and_iff split: if_splits)

lemma ApplyManagedLocalObservation_ok:
  assumes res: "ApplyManagedLocalObservation nr attr ob full = Inr attr'" and aff: "affinity_ok nr attr"
  shows "managed_state_ok nr attr'"
proof -
  note st = ApplyManagedLocalObservation_state [OF res] and fr = ApplyManagedLocalObservation_frame [OF res]
  note bm = bit_managedMask_after [OF res]
  obtain k where "k < nat nr" "bit (ml_observedLocalMask (pa_managedLocalState attr')) k"
    using observed_local_nonempty [OF res] aff by (auto simp: affinity_ok_def)
  then have ne: "managedMask attr' \<noteq> 0" using bm by (auto simp: word_eq_0_bits)
  have resident: "bit (residentMask attr') j \<Longrightarrow> bit (managedMask attr') j" for j
  proof -
    assume b: "bit (residentMask attr') j"
    then have "j < nat nr" using st(1-3) by (auto simp: bit_and_iff split: if_splits)
    moreover have "bit (ml_observedLocalMask (pa_managedLocalState attr')) j"
      using b unfolding ApplyManagedLocalObservation_observed [OF res]
      by (auto simp: Let_def bit_or_iff word_eq_0_bits)
    ultimately show ?thesis by (simp add: bm)
  qed
  have acc: "r < 18 \<Longrightarrow> bit (ml_accountLocalMask (pa_managedLocalState attr') r) j \<longleftrightarrow> j < nat nr \<and> account attr' j r \<noteq> 0" for r j
    using st(2,4) fr(2) by auto
  show ?thesis
    unfolding managed_state_ok_def using st(1,2) ne resident acc bm fr(2) by auto
qed

lemma RefreshManagedLocalState_ok:
  assumes res: "RefreshManagedLocalState nr period affinity attr full = Inr attr'" and aff: "affinity_ok nr attr"
  shows "managed_state_ok nr attr'" and "affinity_ok nr attr'"
    and "\<forall>k<nat nr. nrPages attr k \<noteq> 0 \<longrightarrow> bit (managedMask attr') k"
proof -
  let ?attr = "if full then attr else AdvanceManagedLocalAffinityRefresh period attr"
  from res obtain ob where ob: "ApplyManagedLocalObservation nr ?attr ob full = Inr attr'"
    and r: "ob_residentValid ob" "ob_residentLocalMask ob = BuildResidentLocalMask nr attr"
    by (auto simp: RefreshManagedLocalState_def Let_def split: if_splits sum.splits)
  have aff': "affinity_ok nr ?attr" using aff by (auto simp: affinity_ok_def AdvanceManagedLocalAffinityRefresh_def Let_def)
  show ok: "managed_state_ok nr attr'" using ob aff' by (rule ApplyManagedLocalObservation_ok)
  show "affinity_ok nr attr'" using ob aff' by (rule ApplyManagedLocalObservation_affinity_ok)
  note st = ApplyManagedLocalObservation_state [OF ob]
  show "\<forall>k<nat nr. nrPages attr k \<noteq> 0 \<longrightarrow> bit (managedMask attr') k"
  proof (intro allI impI)
    fix k assume "k < nat nr" "nrPages attr k \<noteq> 0"
    then have "bit (BuildResidentLocalMask nr attr AND BuildAllLocalNumaMask nr) k"
      using st(1,2) by (simp add: bit_and_iff)
    then have "bit (residentMask attr') k" using st(3) r by simp
    then show "bit (managedMask attr') k" using ok by (simp add: managed_state_ok_def)
  qed
qed

lemma RefreshManagedLocalState_total:
  assumes "0 < nr" and "nr \<le> 8"
  shows "\<exists>attr'. RefreshManagedLocalState nr period affinity attr full = Inr attr'"
proof -
  have "\<exists>attr'. ApplyManagedLocalObservation nr a ob full = Inr attr'" if "ob_residentValid ob" for a ob
    using assms that by (auto simp: ApplyManagedLocalObservation_def Let_def split: prod.split)
  then show ?thesis by (simp add: RefreshManagedLocalState_def Let_def split: sum.split)
qed

text \<open>The affinity timer never passes the refresh interval and never wraps.\<close>

lemma AdvanceManagedLocalAffinityRefresh_elapsed:
  "unat (ml_affinityRefreshElapsedMs (pa_managedLocalState (AdvanceManagedLocalAffinityRefresh p attr))) =
    min 30000 (unat (ml_affinityRefreshElapsedMs (pa_managedLocalState attr)) + unat (GetManagedLocalRefreshPeriodMs p))"
proof -
  let ?e = "ml_affinityRefreshElapsedMs (pa_managedLocalState attr)" and ?p = "GetManagedLocalRefreshPeriodMs p"
  show ?thesis
  proof (cases "unat ?e \<ge> 30000 \<or> unat ?p \<ge> 30000 - unat ?e")
    case True
    then show ?thesis by (auto simp: AdvanceManagedLocalAffinityRefresh_def Let_def)
  next
    case False
    then have "unat ?e + unat ?p < 4294967296" by linarith
    then have "unat (?e + ?p) = unat ?e + unat ?p" by (simp add: unat_word_ariths(1))
    with False show ?thesis by (auto simp: AdvanceManagedLocalAffinityRefresh_def Let_def)
  qed
qed

section \<open>Tracking scope\<close>

lemma InAttrL2_fold_AddL2:
  assumes nr: "0 < nr" "nr \<le> 8" and m: "nr \<le> m" "m < nr + 18"
    and ok: "\<And>i. i \<in> set is \<Longrightarrow> P i \<Longrightarrow> nr \<le> f i \<and> f i < nr + 18"
  shows "InAttrL2 nr (fold (\<lambda>i w. if P i then AddL2ByNid nr w (f i) else w) is w) m \<longleftrightarrow>
    InAttrL2 nr w m \<or> (\<exists>i \<in> set is. P i \<and> f i = m)"
  using ok by (induction "is" arbitrary: w) (auto simp: AddL2ByNid_InAttrL2 [OF nr _ _ m])

lemma InL1_fold_AddL2:
  assumes nr: "0 < nr" "nr \<le> 8" and ok: "\<And>i. i \<in> set is \<Longrightarrow> P i \<Longrightarrow> nr \<le> f i \<and> f i < nr + 18"
  shows "InL1 (fold (\<lambda>i w. if P i then AddL2ByNid nr w (f i) else w) is w) l \<longleftrightarrow> InL1 w l"
  using ok by (induction "is" arbitrary: w) (auto simp: AddL2ByNid_InL1 [OF nr])

lemma BuildManagedTrackingNodes_unfold:
  assumes "0 < nr" "nr \<le> 8"
  shows "BuildManagedTrackingNodes nr attr =
    (let base = (if wp_nrPage (pa_walkPage attr) \<noteq> 0 then 0
                 else na_numaNodes (pa_numaAttr attr) AND NOT (mask 8)) OR (managedMask attr AND BuildAllLocalNumaMask nr);
         c = pa_targetConfig attr; n = min (tc_count c) 18
     in fold (\<lambda>r w. if nrPages attr (nat (nr + int r)) \<noteq> 0 \<and> nr + int r < 26 \<or>
                      ml_accountLocalMask (pa_managedLocalState attr) r \<noteq> 0
                   then AddL2ByNid nr w (nr + int r) else w) [0..<18]
        (fold (\<lambda>i w. if nr \<le> rt_remoteNid (tc_targets c i) \<and> rt_remoteNid (tc_targets c i) < nr + 18
                   then AddL2ByNid nr w (rt_remoteNid (tc_targets c i)) else w) [0..<n] base))"
proof -
  have m8: "push_bit 8 1 - 1 = (mask 8 :: u32)" by (simp add: mask_eq_exp_minus_1 push_bit_eq_mult)
  have idx: "(case RemoteNidToIndex x nr of Inl _ \<Rightarrow> w | Inr _ \<Rightarrow> v) = (if nr \<le> x \<and> x < nr + 18 then v else w)" for x and w v :: u32
    using assms by (auto simp: RemoteNidToIndex_def)
  show ?thesis
    using assms unfolding BuildManagedTrackingNodes_def m8 Let_def idx
    by (auto intro!: fold_cong)
qed

lemma BuildManagedTrackingNodes_local_gen:
  assumes nr: "0 < nr" "nr \<le> 8"
  shows "InL1 (BuildManagedTrackingNodes nr attr) l \<longleftrightarrow> InL1 (managedMask attr) l \<and> l < nr"
proof -
  let ?c = "pa_targetConfig attr"
  let ?base = "(if wp_nrPage (pa_walkPage attr) \<noteq> 0 then 0
      else na_numaNodes (pa_numaAttr attr) AND NOT (mask 8)) OR (managedMask attr AND BuildAllLocalNumaMask nr)"
  have "InL1 (BuildManagedTrackingNodes nr attr) l \<longleftrightarrow> InL1 ?base l"
    unfolding BuildManagedTrackingNodes_unfold [OF nr] Let_def
    by (subst InL1_fold_AddL2 [OF nr], force, subst InL1_fold_AddL2 [OF nr], blast, rule refl)
  also have "\<dots> \<longleftrightarrow> InL1 (managedMask attr) l \<and> l < nr"
    using nr by (auto simp: InL1_iff bit_or_iff bit_and_iff bit_not_iff bit_mask_iff split: if_splits)
  finally show ?thesis .
qed

lemma BuildManagedTrackingNodes_remote_gen:
  assumes nr: "0 < nr" "nr \<le> 8" and m: "nr \<le> m" "m < nr + 18"
  shows "InAttrL2 nr (BuildManagedTrackingNodes nr attr) m \<longleftrightarrow>
    wp_nrPage (pa_walkPage attr) = 0 \<and> InAttrL2 nr (na_numaNodes (pa_numaAttr attr)) m \<or>
    (\<exists>i < min (tc_count (pa_targetConfig attr)) 18. rt_remoteNid (tc_targets (pa_targetConfig attr) i) = m) \<or>
    nrPages attr (nat m) \<noteq> 0 \<or> ml_accountLocalMask (pa_managedLocalState attr) (nat (m - nr)) \<noteq> 0"
proof -
  let ?c = "pa_targetConfig attr"
  let ?base = "(if wp_nrPage (pa_walkPage attr) \<noteq> 0 then 0
      else na_numaNodes (pa_numaAttr attr) AND NOT (mask 8)) OR (managedMask attr AND BuildAllLocalNumaMask nr)"
  let ?P = "\<lambda>r. nrPages attr (nat (nr + int r)) \<noteq> 0 \<and> nr + int r < 26 \<or>
    ml_accountLocalMask (pa_managedLocalState attr) r \<noteq> 0"
  have "InAttrL2 nr (BuildManagedTrackingNodes nr attr) m \<longleftrightarrow>
    (InAttrL2 nr ?base m \<or> (\<exists>i \<in> set [0..<min (tc_count ?c) 18].
       (nr \<le> rt_remoteNid (tc_targets ?c i) \<and> rt_remoteNid (tc_targets ?c i) < nr + 18) \<and>
       rt_remoteNid (tc_targets ?c i) = m)) \<or> (\<exists>r \<in> set [0..<18]. ?P r \<and> nr + int r = m)"
    unfolding BuildManagedTrackingNodes_unfold [OF nr] Let_def
    by (subst InAttrL2_fold_AddL2 [OF nr m], force, subst InAttrL2_fold_AddL2 [OF nr m], blast, rule refl)
  moreover have "(\<exists>r \<in> set [0..<18]. ?P r \<and> nr + int r = m) \<longleftrightarrow> ?P (nat (m - nr))"
    using m by (auto intro!: bexI [of _ "nat (m - nr)"])
  moreover have "InAttrL2 nr ?base m \<longleftrightarrow> wp_nrPage (pa_walkPage attr) = 0 \<and> InAttrL2 nr (na_numaNodes (pa_numaAttr attr)) m"
    using nr m
    by (auto simp: InAttrL2_def InL2_iff l2_offset_def bit_or_iff bit_and_iff bit_not_iff bit_mask_iff
        dest: bit_imp_le_length)
  ultimately show ?thesis using m nr by auto
qed

section \<open>Properties\<close>

text \<open>C39. On a machine with 1 to 8 local nodes the refresh of the managed local state of a process succeeds, whether or
  not its affinity could be read, and leaves consistent masks: every local node that holds pages of the process, or pages of
  its Pair account, is managed; no node outside the machine is; and the managed set is not empty.\<close>

theorem RefreshManagedLocalState_invariant:
  assumes "0 < nr" and "nr \<le> 8" and "affinity_ok nr attr"
  shows "\<exists>attr'. RefreshManagedLocalState nr period affinity attr full = Inr attr' \<and> managed_state_ok nr attr' \<and>
    affinity_ok nr attr' \<and> (\<forall>k<nat nr. nrPages attr k \<noteq> 0 \<longrightarrow> bit (managedMask attr') k)"
proof -
  obtain attr' where res: "RefreshManagedLocalState nr period affinity attr full = Inr attr'"
    using RefreshManagedLocalState_total [OF assms(1,2)] by blast
  from RefreshManagedLocalState_ok [OF res assms(3)] res show ?thesis by blast
qed

theorem RefreshManagedLocalState_invariant_witness:
  "\<exists>attr'. RefreshManagedLocalState 2 0 (Inl EINVAL) ProcessAttr_zero True = Inr attr' \<and> managed_state_ok 2 attr'"
proof -
  have "affinity_ok 2 ProcessAttr_zero" by (simp add: affinity_ok_def ProcessAttr_zero_def ManagedLocalState_zero_def)
  from RefreshManagedLocalState_invariant [OF _ _ this, of 0 "Inl EINVAL" True] show ?thesis by auto
qed

end
