(* ===== verification/Pair_Account.thy ===== *)
theory Pair_Account
  imports Managed_Local
begin

text \<open>
  The Pair account of a process, \<^verbatim>\<open>plugins/smap/src/user/manage/manage_pair.c\<close> lines 37 to 184:
  for every remote node, how many of the pages resident there belong to each local node.
  \<open>CalibratePairAccount\<close> reconciles the account with the page counts of the last scan.
\<close>

section \<open>Operations\<close>

definition BuildPairCapacityLocalMask :: "int \<Rightarrow> RemoteNumaInfo \<Rightarrow> ProcessAttr \<Rightarrow> nat \<Rightarrow> u32" where
  "BuildPairCapacityLocalMask nrLocalNuma numaInfo attr remoteIndex =
     (let capacityLocalMask =
            fold (\<lambda>local m. if unat (ri_privateSize numaInfo local remoteIndex) > 0 then AddL1 m local else m)
              [0..<min (nat nrLocalNuma) LOCAL_NUMA_NUM] 0
      in if unat (ri_sharedSize numaInfo remoteIndex) > 0 then capacityLocalMask OR managedMask attr
         else capacityLocalMask)"

text \<open>
  The two loops of \<^verbatim>\<open>DistributePairAccount\<close> on one column of the account (all local nodes, one
  remote node). The product of two 32-bit values is taken in 64 bits and cannot wrap.
\<close>

definition distribute_shares ::
  "nat \<Rightarrow> u32 \<Rightarrow> (nat \<Rightarrow> u32) \<Rightarrow> nat \<Rightarrow> u32 \<Rightarrow> (nat \<Rightarrow> u32) \<Rightarrow> (nat \<Rightarrow> u32) \<times> nat" where
  "distribute_shares n localMask weights weightTotal actualRemotePages col =
     fold (\<lambda>local (col, allocated).
       let col = col(local := 0)
       in if \<not> InL1 localMask (int local) then (col, allocated)
          else let pages = (of_nat (unat actualRemotePages * unat (weights local) div weightTotal) :: u32)
               in (col(local := pages), add64 allocated (unat pages)))
     [0..<n] (col, 0)"

definition distribute_remainder ::
  "nat \<Rightarrow> u32 \<Rightarrow> (nat \<Rightarrow> u32) \<Rightarrow> (nat \<Rightarrow> u32) \<Rightarrow> u32 \<Rightarrow> (nat \<Rightarrow> u32) \<times> u32" where
  "distribute_remainder n localMask weights col remainder =
     fold (\<lambda>local (col, remainder).
       if remainder > 0 \<and> \<not> (\<not> InL1 localMask (int local) \<or> weights local = 0)
       then (col(local := col local + 1), remainder - 1) else (col, remainder))
     [0..<n] (col, remainder)"

definition set_account_column :: "nat \<Rightarrow> (nat \<Rightarrow> u32) \<Rightarrow> ProcessAttr \<Rightarrow> ProcessAttr" where
  "set_account_column remoteIndex col attr =
     attr\<lparr>pa_strategyAttr := (pa_strategyAttr attr)\<lparr>sa_remoteNrPagesAfterMigrate :=
       (\<lambda>local r. if r = remoteIndex then col local else account attr local r)\<rparr>\<rparr>"

definition DistributePairAccount ::
  "int \<Rightarrow> ProcessAttr \<Rightarrow> nat \<Rightarrow> u32 \<Rightarrow> (nat \<Rightarrow> u32) \<Rightarrow> nat \<Rightarrow> u32 \<Rightarrow> ProcessAttr" where
  "DistributePairAccount nrLocalNuma attr remoteIndex localMask weights weightTotal actualRemotePages =
     (let n = min (nat nrLocalNuma) LOCAL_NUMA_NUM;
          (col, allocated) = distribute_shares n localMask weights weightTotal actualRemotePages
            (\<lambda>local. account attr local remoteIndex);
          remainder = (of_nat (sub64 (unat actualRemotePages) allocated) :: u32);
          (col, remainder) = distribute_remainder n localMask weights col remainder
      in set_account_column remoteIndex col attr)"

definition RebuildPairAccount :: "int \<Rightarrow> RemoteNumaInfo \<Rightarrow> ProcessAttr \<Rightarrow> nat \<Rightarrow> u32 \<Rightarrow> ProcessAttr" where
  "RebuildPairAccount nrLocalNuma numaInfo attr remoteIndex actualRemotePages =
     (let allLocalMask = BuildAllLocalNumaMask nrLocalNuma;
          managedLocalMask = managedMask attr AND allLocalMask;
          capacityLocalMask = BuildPairCapacityLocalMask nrLocalNuma numaInfo attr remoteIndex;
          rebuildLocalMask = managedLocalMask AND (capacityLocalMask OR residentMask attr);
          rebuildLocalMask = (if rebuildLocalMask = 0 then managedLocalMask else rebuildLocalMask);
          rebuildLocalMask = (if rebuildLocalMask = 0 then allLocalMask else rebuildLocalMask);
          n = min (nat nrLocalNuma) LOCAL_NUMA_NUM;
          (weights, weightTotal, localCount) =
            fold (\<lambda>local (weights, weightTotal, localCount).
              if \<not> InL1 rebuildLocalMask (int local) then (weights, weightTotal, localCount)
              else (weights(local := nrPages attr local), add64 weightTotal (unat (nrPages attr local)),
                    localCount + 1))
            [0..<n] ((\<lambda>_. 0), 0, 0);
          (weights, weightTotal) =
            (if weightTotal = 0
             then (fold (\<lambda>local weights. if InL1 rebuildLocalMask (int local) then weights(local := 1) else weights)
                     [0..<n] weights, localCount)
             else (weights, weightTotal))
      in DistributePairAccount nrLocalNuma attr remoteIndex rebuildLocalMask weights weightTotal actualRemotePages)"

text \<open>One iteration of the loop of \<^verbatim>\<open>CalibratePairAccount\<close>, for the remote node \<open>remoteIndex\<close>.\<close>

definition calibrate_remote :: "int \<Rightarrow> RemoteNumaInfo \<Rightarrow> nat \<Rightarrow> ProcessAttr \<Rightarrow> ProcessAttr" where
  "calibrate_remote nrLocalNuma numaInfo remoteIndex attr =
     (let n = nat nrLocalNuma;
          weights = (\<lambda>local. if local < n then account attr local remoteIndex else 0);
          accountTotal = loop_sum (\<lambda>local. unat (account attr local remoteIndex)) [0..<n] 0;
          accountLocalMask = fold (\<lambda>local m. if unat (account attr local remoteIndex) > 0 then AddL1 m local else m)
            [0..<n] 0;
          attr = set_account_column remoteIndex
            (fold (\<lambda>local col. col(local := 0)) [n..<LOCAL_NUMA_NUM] (\<lambda>local. account attr local remoteIndex)) attr;
          actualRemotePages = nrPages attr (n + remoteIndex);
          attr = (if accountTotal \<noteq> unat actualRemotePages then
                    if actualRemotePages = 0 then
                      set_account_column remoteIndex
                        (fold (\<lambda>local col. col(local := 0)) [0..<n] (\<lambda>local. account attr local remoteIndex)) attr
                    else if accountTotal > 0 then
                      DistributePairAccount nrLocalNuma attr remoteIndex accountLocalMask weights accountTotal
                        actualRemotePages
                    else RebuildPairAccount nrLocalNuma numaInfo attr remoteIndex actualRemotePages
                  else attr);
          state = pa_managedLocalState attr;
          m = BuildAccountLocalMask nrLocalNuma attr (int remoteIndex)
      in attr\<lparr>pa_managedLocalState := state\<lparr>
           ml_accountLocalMask := (ml_accountLocalMask state)(remoteIndex := m),
           ml_managedLocalMask := ml_managedLocalMask state OR m\<rparr>\<rparr>)"

text \<open>
  The loop stops early when \<open>nrLocalNuma + remoteIndex \<ge> 26\<close>. An invalid node count only logs
  an error.
\<close>

definition CalibratePairAccount :: "int \<Rightarrow> RemoteNumaInfo \<Rightarrow> ProcessAttr \<Rightarrow> ProcessAttr" where
  "CalibratePairAccount nrLocalNuma numaInfo attr =
     (if nrLocalNuma \<le> 0 \<or> nrLocalNuma > int LOCAL_NUMA_NUM then attr
      else
        let attr = fold (\<lambda>remoteIndex attr. calibrate_remote nrLocalNuma numaInfo remoteIndex attr)
              (takeWhile (\<lambda>remoteIndex. \<not> nrLocalNuma + int remoteIndex \<ge> int MAX_NODES) [0..<REMOTE_NUMA_NUM]) attr
        in attr\<lparr>pa_managedLocalState := (pa_managedLocalState attr)\<lparr>
             ml_managedLocalMask := managedMask attr AND BuildAllLocalNumaMask nrLocalNuma\<rparr>\<rparr>)"

section \<open>The split of one column\<close>

definition masked :: "u32 \<Rightarrow> (nat \<Rightarrow> u32) \<Rightarrow> nat \<Rightarrow> nat" where
  "masked m w l = (if InL1 m (int l) then unat (w l) else 0)"

lemma distribute_shares_closed:
  assumes "\<And>l. l < n \<Longrightarrow> InL1 m (int l) \<Longrightarrow> unat a * unat (w l) div W \<le> UINT32_MAX"
    and "sum_list (map (\<lambda>l. unat a * masked m w l div W) [0..<n]) < 2 ^ 64"
  shows "distribute_shares n m w W a col =
    (\<lambda>l. if l < n then of_nat (unat a * masked m w l div W) else col l,
     sum_list (map (\<lambda>l. unat a * masked m w l div W) [0..<n]))"
  using assms
proof (induction n)
  case (Suc n)
  have ih: "distribute_shares n m w W a col =
    (\<lambda>l. if l < n then of_nat (unat a * masked m w l div W) else col l,
     sum_list (map (\<lambda>l. unat a * masked m w l div W) [0..<n]))"
    using Suc.prems by (intro Suc.IH) auto
  have step: "distribute_shares (Suc n) m w W a col =
    (let (col, allocated) = distribute_shares n m w W a col; col = col(n := 0)
     in if \<not> InL1 m (int n) then (col, allocated)
        else let pages = (of_nat (unat a * unat (w n) div W) :: u32)
             in (col(n := pages), add64 allocated (unat pages)))"
    by (simp add: distribute_shares_def Let_def split: prod.splits)
  have u: "InL1 m (int n) \<Longrightarrow> unat (of_nat (unat a * unat (w n) div W) :: u32) = unat a * unat (w n) div W"
    using Suc.prems(1) [of n] by (intro unat_of_nat_u32) auto
  show ?case
  proof (cases "InL1 m (int n)")
    case True
    have "add64 (sum_list (map (\<lambda>l. unat a * masked m w l div W) [0..<n])) (unat a * unat (w n) div W) =
      sum_list (map (\<lambda>l. unat a * masked m w l div W) [0..<n]) + unat a * unat (w n) div W"
      using Suc.prems(2) True by (intro add64_eq) (simp add: masked_def)
    then show ?thesis using True u by (auto simp: step ih Let_def fun_eq_iff less_Suc_eq masked_def)
  next
    case False
    then show ?thesis by (auto simp: step ih Let_def fun_eq_iff less_Suc_eq masked_def)
  qed
qed (simp add: distribute_shares_def)

lemma rest_loop_closed:
  fixes rem :: u32 and col :: "nat \<Rightarrow> u32"
  assumes "distinct is"
  shows "fold (\<lambda>l (col, rem). if rem > 0 \<and> elig l then (col(l := col l + 1), rem - 1) else (col, rem)) is (col, rem) =
    (\<lambda>l. col l + of_bool (l \<in> set (take (unat rem) (filter elig is))),
     of_nat (unat rem - length (filter elig is)))"
  using assms
proof (induction "is" arbitrary: col rem)
  case (Cons l "is")
  show ?case
  proof (cases "rem > 0 \<and> elig l")
    case True
    then have "unat rem > 0" by (simp add: word_less_nat_alt)
    then obtain k where k: "unat rem = Suc k" using gr0_conv_Suc by auto
    have "unat (rem - 1) = k" using k unat_minus_of_nat [of 1 rem] by simp
    then show ?thesis using Cons True k by (auto simp: fun_eq_iff dest: in_set_takeD)
  next
    case False
    then have "rem = 0 \<or> \<not> elig l" by (auto simp: word_gt_0)
    then show ?thesis using Cons by (elim disjE) simp_all
  qed
qed simp

text \<open>
  On valid weights the distribution is the reference split: the pages of the column add up to
  the resident pages, whatever the column held before.
\<close>

lemma DistributePairAccount_apportion:
  assumes n: "n = min (nat nr) 8" and W: "W = (\<Sum>l<n. masked m w l)" and "W > 0"
  shows "l < n \<Longrightarrow> unat (account (DistributePairAccount nr attr r m w W a) l r) =
      apportion (unat a) (masked m w) [0..<n] l"
    and "\<not> l < n \<Longrightarrow> account (DistributePairAccount nr attr r m w W a) l r = account attr l r"
    and "k \<noteq> r \<Longrightarrow> account (DistributePairAccount nr attr r m w W a) l k = account attr l k"
proof -
  let ?w = "masked m w" and ?is = "[0..<n]"
  let ?rest = "unat a - shares (unat a) ?w ?is"
  have WS: "sum_list (map ?w ?is) = W" unfolding W by (rule sum_list_upt)
  have sh: "sum_list (map (\<lambda>l. unat a * ?w l div W) ?is) = shares (unat a) ?w ?is"
    by (simp add: shares_def WS)
  have le: "unat a * ?w l div W \<le> unat a" if "l < n" for l
    using apportion_floor_le [of ?w ?is W "unat a"] WS that
      member_le_sum_list [of "unat a * ?w l div W" "map (\<lambda>l. unat a * ?w l div W) ?is"]
    by (auto intro: le_trans)
  have small: "unat a * unat (w l) div W \<le> UINT32_MAX" if "l < n" "InL1 m (int l)" for l
    using le [OF that(1)] that(2) by (auto simp: masked_def intro: le_u32)
  have bound: "sum_list (map (\<lambda>l. unat a * ?w l div W) ?is) < 2 ^ 64"
    unfolding sh using le_u32 [OF shares_le [of "unat a" ?w ?is]] by simp
  have closed: "distribute_shares n m w W a col =
      (\<lambda>l. if l < n then of_nat (unat a * ?w l div W) else col l, shares (unat a) ?w ?is)" for col
    unfolding sh [symmetric] by (rule distribute_shares_closed) (use small bound in auto)
  have rem: "of_nat (sub64 (unat a) (shares (unat a) ?w ?is)) = (of_nat ?rest :: u32)"
    using shares_le [of "unat a" ?w ?is] le_u32 [OF order_refl, of a] by (subst sub64_eq) simp_all
  have rest32: "unat (of_nat ?rest :: u32) = ?rest"
    by (intro unat_of_nat_u32) (meson diff_le_self le_trans unat_u32_le)
  have elig: "(\<lambda>l. \<not> (\<not> InL1 m (int l) \<or> w l = 0)) = (\<lambda>l. ?w l \<noteq> 0)"
    by (auto simp: fun_eq_iff unat_eq_0 masked_def simp flip: neq0_conv)
  let ?taken = "set (take ?rest (filter (\<lambda>l. ?w l \<noteq> 0) ?is))"
  have acc: "account (DistributePairAccount nr attr r m w W a) l k = (if k = r then
      (if l < n then of_nat (unat a * ?w l div W) else account attr l r) + of_bool (l \<in> ?taken) else account attr l k)" for l k
    unfolding DistributePairAccount_def n [symmetric] Let_def closed prod.case rem distribute_remainder_def
      rest_loop_closed [where elig = "\<lambda>l. \<not> (\<not> InL1 m (int l) \<or> w l = 0)", OF distinct_upt] elig rest32
    by (simp add: set_account_column_def)
  show "\<not> l < n \<Longrightarrow> account (DistributePairAccount nr attr r m w W a) l r = account attr l r"
    unfolding acc by (auto dest: in_set_takeD)
  show "k \<noteq> r \<Longrightarrow> account (DistributePairAccount nr attr r m w W a) l k = account attr l k"
    unfolding acc by simp
  assume l: "l < n"
  have ap: "apportion (unat a) ?w ?is l = unat a * ?w l div W + of_bool (l \<in> ?taken)"
    by (simp add: apportion_def WS)
  have "apportion (unat a) ?w ?is l \<le> unat a"
    using l \<open>W > 0\<close> WS by (intro apportion_le) auto
  then have "apportion (unat a) ?w ?is l \<le> UINT32_MAX" using unat_u32_le le_trans by blast
  then have "unat (of_nat (apportion (unat a) ?w ?is l) :: u32) = apportion (unat a) ?w ?is l"
    by (rule unat_of_nat_u32)
  moreover have "account (DistributePairAccount nr attr r m w W a) l r = of_nat (apportion (unat a) ?w ?is l)"
    unfolding acc ap using l by simp
  ultimately show "unat (account (DistributePairAccount nr attr r m w W a) l r) = apportion (unat a) ?w ?is l"
    by simp
qed

lemma DistributePairAccount_sum:
  assumes "n = min (nat nr) 8" and "W = (\<Sum>l<n. masked m w l)" and "W > 0"
  shows "(\<Sum>l<n. unat (account (DistributePairAccount nr attr r m w W a) l r)) = unat a"
proof -
  have "(\<Sum>l<n. unat (account (DistributePairAccount nr attr r m w W a) l r)) =
      (\<Sum>l<n. apportion (unat a) (masked m w) [0..<n] l)"
    using DistributePairAccount_apportion(1) [OF assms] by (intro sum.cong) auto
  also have "\<dots> = sum_list (map (apportion (unat a) (masked m w) [0..<n]) [0..<n])" by (simp add: sum_list_upt)
  also have "\<dots> = unat a" using assms by (intro apportion_sum) (simp_all add: sum_list_upt)
  finally show ?thesis .
qed

lemma DistributePairAccount_frame [simp]:
  "pa_walkPage (DistributePairAccount nr attr r m w W a) = pa_walkPage attr"
  "pa_managedLocalState (DistributePairAccount nr attr r m w W a) = pa_managedLocalState attr"
  by (simp_all add: DistributePairAccount_def Let_def set_account_column_def split: prod.splits)

section \<open>Rebuilding a lost account\<close>

lemma sum_masked_less: "n \<le> 8 \<Longrightarrow> (\<Sum>l<n. masked m w l) < 2 ^ 64"
proof -
  assume "n \<le> 8"
  have "(\<Sum>l<n. masked m w l) \<le> n * UINT32_MAX" by (rule sum_bounded_nat) (simp add: masked_def)
  also have "\<dots> < 2 ^ 64" using \<open>n \<le> 8\<close> by simp
  finally show ?thesis .
qed

lemma rebuild_weights:
  assumes "n \<le> 8"
  shows "fold (\<lambda>l (ws, t, c). if \<not> InL1 m (int l) then (ws, t, c)
      else (ws(l := w l), add64 t (unat (w l)), c + 1)) [0..<n] ((\<lambda>_. 0), 0, 0 :: nat) =
    (\<lambda>l. if l < n \<and> InL1 m (int l) then w l else 0, \<Sum>l<n. masked m w l,
     length (filter (\<lambda>l. InL1 m (int l)) [0..<n]))"
  using assms
proof (induction n)
  case (Suc n)
  have "add64 (\<Sum>l<n. masked m w l) (unat (w n)) = (\<Sum>l<n. masked m w l) + unat (w n)" if "InL1 m (int n)"
    using sum_masked_less [OF Suc.prems, of m w] that by (intro add64_eq) (simp add: masked_def)
  with Suc show ?case by (auto simp: fun_eq_iff less_Suc_eq masked_def)
qed (simp add: fun_eq_iff)

lemma fold_set_const:
  "fold (\<lambda>l f. if P l then f(l := c) else f) [0..<n] f = (\<lambda>l. if l < n \<and> P l then c else f l)"
  by (induction n) (auto simp: fun_eq_iff less_Suc_eq)

lemma RebuildPairAccount_eq:
  assumes nr: "0 < nr" "nr \<le> 8"
  shows "\<exists>m w W. RebuildPairAccount nr info attr r a = DistributePairAccount nr attr r m w W a \<and>
    W = (\<Sum>l<nat nr. masked m w l) \<and> W > 0"
proof -
  define all where "all = BuildAllLocalNumaMask nr"
  define man where "man = managedMask attr AND all"
  define m0 where "m0 = man AND (BuildPairCapacityLocalMask nr info attr r OR residentMask attr)"
  define m1 where "m1 = (if m0 = 0 then man else m0)"
  define m where "m = (if m1 = 0 then all else m1)"
  have all: "bit all k \<longleftrightarrow> k < nat nr" for k using nr by (simp add: all_def)
  have sub: "bit m k \<Longrightarrow> k < nat nr" for k
    by (auto simp: m_def m1_def m0_def man_def bit_and_iff all split: if_splits)
  have "all \<noteq> 0" using nr by (simp add: all_def)
  then have "m \<noteq> 0" by (simp add: m_def)
  then obtain k where k: "bit m k" by (auto simp: word_eq_0_bits)
  have n: "min (nat nr) 8 = nat nr" "nat nr \<le> 8" and k8: "k < nat nr" "k < 8" using nr sub [OF k] by auto
  define w where "w = (\<lambda>l. if l < nat nr \<and> InL1 m (int l) then nrPages attr l else 0)"
  define W where "W = (\<Sum>l<nat nr. masked m (nrPages attr) l)"
  define c where "c = length (filter (\<lambda>l. InL1 m (int l)) [0..<nat nr])"
  let ?w1 = "\<lambda>l. if l < nat nr \<and> InL1 m (int l) then 1 else w l"
  have eq: "RebuildPairAccount nr info attr r a =
    DistributePairAccount nr attr r m (if W = 0 then ?w1 else w) (if W = 0 then c else W) a"
    unfolding RebuildPairAccount_def Let_def all_def [symmetric] man_def [symmetric] m0_def [symmetric]
      m1_def [symmetric] m_def [symmetric] n(1) rebuild_weights [OF n(2)] w_def [symmetric] W_def [symmetric]
      c_def [symmetric] fold_set_const prod.case
    by (simp add: w_def cong: if_cong)
  have Ww: "W = (\<Sum>l<nat nr. masked m w l)" unfolding W_def by (intro sum.cong) (auto simp: masked_def w_def)
  have "c = card (set (filter (\<lambda>l. InL1 m (int l)) [0..<nat nr]))"
    unfolding c_def by (rule distinct_card [symmetric]) simp
  also have "\<dots> = (\<Sum>l<nat nr. masked m ?w1 l)"
    by (simp add: masked_def sum.If_cases Int_def lessThan_atLeast0)
  finally have cw: "c = (\<Sum>l<nat nr. masked m ?w1 l)" .
  have "c > 0" using k k8 unfolding c_def by (auto simp: filter_empty_conv)
  show ?thesis
  proof (cases "W = 0")
    case True
    with eq cw \<open>c > 0\<close> show ?thesis by (intro exI [of _ m] exI [of _ ?w1] exI [of _ c]) simp
  next
    case False
    with eq have "RebuildPairAccount nr info attr r a = DistributePairAccount nr attr r m w W a" by simp
    with Ww False show ?thesis by blast
  qed
qed

section \<open>Calibration\<close>

lemma fold_zero_range: "fold (\<lambda>l col. col(l := 0)) is col = (\<lambda>l. if l \<in> set is then 0 else col l)"
  by (induction "is" arbitrary: col) auto

lemma account_total:
  assumes "0 < nr" "nr \<le> 8"
  shows "loop_sum (\<lambda>l. unat (account attr l r)) [0..<nat nr] 0 = (\<Sum>l<nat nr. unat (account attr l r))"
proof (rule loop_sum_upt)
  have "(\<Sum>l<nat nr. unat (account attr l r)) \<le> nat nr * UINT32_MAX" by (rule sum_bounded_nat) simp
  also have "\<dots> < 2 ^ 64" using assms by simp
  finally show "(\<Sum>l<nat nr. unat (account attr l r)) < 2 ^ 64" .
qed

lemma account_set_column [simp]:
  "account (set_account_column r col attr) l k = (if k = r then col l else account attr l k)"
  "pa_walkPage (set_account_column r col attr) = pa_walkPage attr"
  "pa_managedLocalState (set_account_column r col attr) = pa_managedLocalState attr"
  by (simp_all add: set_account_column_def)

text \<open>The account after the case distinction of one iteration, before the masks are updated.\<close>

definition calibrated :: "int \<Rightarrow> RemoteNumaInfo \<Rightarrow> nat \<Rightarrow> ProcessAttr \<Rightarrow> ProcessAttr" where
  "calibrated nr info r attr =
     (let n = nat nr; total = (\<Sum>l<n. unat (account attr l r));
          attr0 = set_account_column r (\<lambda>l. if n \<le> l \<and> l < 8 then 0 else account attr l r) attr;
          actual = nrPages attr (n + r)
      in if total \<noteq> unat actual then
           if actual = 0 then set_account_column r (\<lambda>l. if l < n then 0 else account attr0 l r) attr0
           else if total > 0 then
             DistributePairAccount nr attr0 r (fold (\<lambda>l m. if unat (account attr l r) > 0 then AddL1 m l else m) [0..<n] 0)
               (\<lambda>l. if l < n then account attr l r else 0) total actual
           else RebuildPairAccount nr info attr0 r actual
         else attr0)"

lemma calibrate_remote_eq:
  assumes "0 < nr" "nr \<le> 8"
  shows "calibrate_remote nr info r attr =
    (let attr = calibrated nr info r attr; m = BuildAccountLocalMask nr attr (int r); st = pa_managedLocalState attr
     in attr\<lparr>pa_managedLocalState := st\<lparr>ml_accountLocalMask := (ml_accountLocalMask st)(r := m),
          ml_managedLocalMask := ml_managedLocalMask st OR m\<rparr>\<rparr>)"
proof -
  have r1: "l \<in> set [nat nr..<8] \<longleftrightarrow> nat nr \<le> l \<and> l < 8" and r2: "l \<in> set [0..<nat nr] \<longleftrightarrow> l < nat nr" for l
    by auto
  show ?thesis
    unfolding calibrate_remote_def calibrated_def Let_def account_total [OF assms] fold_zero_range r1 r2
    by (simp cong: if_cong)
qed

lemma calibrated_frame [simp]: "pa_walkPage (calibrated nr info r attr) = pa_walkPage attr"
  "pa_managedLocalState (calibrated nr info r attr) = pa_managedLocalState attr"
  by (simp_all add: calibrated_def Let_def RebuildPairAccount_def split: prod.splits)

lemma account_mask_masked:
  assumes "n \<le> 8"
  shows "(\<Sum>l<n. masked (fold (\<lambda>l m. if unat (account attr l r) > 0 then AddL1 m l else m) [0..<n] 0)
      (\<lambda>l. if l < n then account attr l r else 0) l) = (\<Sum>l<n. unat (account attr l r))"
proof (intro sum.cong refl)
  fix l assume "l \<in> {..<n}"
  then show "masked (fold (\<lambda>l m. if unat (account attr l r) > 0 then AddL1 m l else m) [0..<n] 0)
      (\<lambda>l. if l < n then account attr l r else 0) l = unat (account attr l r)"
    using assms bit_fold_AddL1 [of n "\<lambda>l. unat (account attr l r) > 0" 0 l] by (simp add: masked_def)
qed

lemma calibrated_account:
  assumes nr: "0 < nr" "nr \<le> 8"
  shows "(\<Sum>l<nat nr. unat (account (calibrated nr info r attr) l r)) = unat (nrPages attr (nat nr + r))"
    and "nat nr \<le> l \<Longrightarrow> l < 8 \<Longrightarrow> account (calibrated nr info r attr) l r = 0"
    and "k \<noteq> r \<Longrightarrow> account (calibrated nr info r attr) l k = account attr l k"
    and "(\<Sum>l<nat nr. unat (account attr l r)) = unat (nrPages attr (nat nr + r)) \<Longrightarrow> l < nat nr \<Longrightarrow>
      account (calibrated nr info r attr) l r = account attr l r"
proof -
  let ?n = "nat nr" and ?actual = "nrPages attr (nat nr + r)"
  let ?t = "\<Sum>l<nat nr. unat (account attr l r)"
  let ?attr0 = "set_account_column r (\<lambda>l. if ?n \<le> l \<and> l < 8 then 0 else account attr l r) attr"
  have n: "?n = min (nat nr) 8" "?n \<le> 8" using nr by auto
  have dist: "(\<Sum>l<?n. unat (account (DistributePairAccount nr ?attr0 r m w W ?actual) l r)) = unat ?actual \<and>
      (\<forall>l. ?n \<le> l \<and> l < 8 \<longrightarrow> account (DistributePairAccount nr ?attr0 r m w W ?actual) l r = 0) \<and>
      (\<forall>l k. k \<noteq> r \<longrightarrow> account (DistributePairAccount nr ?attr0 r m w W ?actual) l k = account attr l k)"
    if "W = (\<Sum>l<?n. masked m w l)" "W > 0" for m w W
    using DistributePairAccount_sum [OF n(1) that] DistributePairAccount_apportion(2,3) [OF n(1) that] by auto
  consider "?t = unat ?actual" | "?t \<noteq> unat ?actual" "?actual = 0" | "?t \<noteq> unat ?actual" "?actual \<noteq> 0" "?t > 0"
    | "?t \<noteq> unat ?actual" "?actual \<noteq> 0" "?t = 0" by (meson not_gr_zero)
  then have "(\<Sum>l<?n. unat (account (calibrated nr info r attr) l r)) = unat ?actual \<and>
      (\<forall>l. ?n \<le> l \<and> l < 8 \<longrightarrow> account (calibrated nr info r attr) l r = 0) \<and>
      (\<forall>l k. k \<noteq> r \<longrightarrow> account (calibrated nr info r attr) l k = account attr l k)"
  proof cases
    case 3
    with dist [OF account_mask_masked [OF n(2), symmetric]] show ?thesis by (simp add: calibrated_def Let_def)
  next
    case 4
    obtain m w W where "RebuildPairAccount nr info ?attr0 r ?actual = DistributePairAccount nr ?attr0 r m w W ?actual"
      and W: "W = (\<Sum>l<?n. masked m w l)" "W > 0" using RebuildPairAccount_eq [OF nr, of info ?attr0 r ?actual] by blast
    then show ?thesis using 4 dist [OF W] by (simp add: calibrated_def Let_def)
  qed (auto simp: calibrated_def Let_def)
  then show "(\<Sum>l<?n. unat (account (calibrated nr info r attr) l r)) = unat ?actual"
    and "nat nr \<le> l \<Longrightarrow> l < 8 \<Longrightarrow> account (calibrated nr info r attr) l r = 0"
    and "k \<noteq> r \<Longrightarrow> account (calibrated nr info r attr) l k = account attr l k" by auto
  show "?t = unat ?actual \<Longrightarrow> l < ?n \<Longrightarrow> account (calibrated nr info r attr) l r = account attr l r"
    by (simp add: calibrated_def Let_def)
qed

text \<open>
  The calibrated account: for every remote node the entries add up to the resident pages, the
  entries of absent local nodes are 0, and the masks say who holds an entry.
\<close>

definition account_ok :: "int \<Rightarrow> nat \<Rightarrow> ProcessAttr \<Rightarrow> bool" where
  "account_ok nr r attr \<longleftrightarrow>
     (\<Sum>l<nat nr. unat (account attr l r)) = unat (nrPages attr (nat nr + r)) \<and>
     (\<forall>l. nat nr \<le> l \<and> l < 8 \<longrightarrow> account attr l r = 0) \<and>
     (\<forall>k. bit (ml_accountLocalMask (pa_managedLocalState attr) r) k \<longleftrightarrow> k < nat nr \<and> account attr k r \<noteq> 0) \<and>
     (\<forall>k. bit (ml_accountLocalMask (pa_managedLocalState attr) r) k \<longrightarrow> bit (managedMask attr) k)"

lemma calibrate_remote_step:
  assumes nr: "0 < nr" "nr \<le> 8" and r: "r < 18" and attr': "attr' = calibrate_remote nr info r attr"
  shows "account_ok nr r attr'"
    and "j \<noteq> r \<Longrightarrow> account_ok nr j attr \<Longrightarrow> account_ok nr j attr'"
    and "nrPages attr' = nrPages attr"
    and "j \<noteq> r \<Longrightarrow> account attr' l j = account attr l j"
    and "(\<Sum>l<nat nr. unat (account attr l r)) = unat (nrPages attr (nat nr + r)) \<Longrightarrow> l < nat nr \<Longrightarrow>
      account attr' l r = account attr l r"
    and "bit (managedMask attr) k \<Longrightarrow> bit (managedMask attr') k"
proof -
  let ?c = "calibrated nr info r attr"
  note c = calibrated_account [OF nr, where info = info and r = r and attr = attr]
  have acc: "account attr' = account ?c" and pages: "nrPages attr' = nrPages attr"
    and am: "ml_accountLocalMask (pa_managedLocalState attr') =
      (ml_accountLocalMask (pa_managedLocalState attr))(r := BuildAccountLocalMask nr ?c (int r))"
    and mm: "managedMask attr' = managedMask attr OR BuildAccountLocalMask nr ?c (int r)"
    by (simp_all add: attr' calibrate_remote_eq [OF nr] Let_def)
  have bits: "bit (BuildAccountLocalMask nr ?c (int r)) k \<longleftrightarrow> k < nat nr \<and> account ?c k r \<noteq> 0" for k
    using nr r by auto
  show "nrPages attr' = nrPages attr" by (rule pages)
  show "j \<noteq> r \<Longrightarrow> account attr' l j = account attr l j" using c(3) by (simp add: acc)
  show "(\<Sum>l<nat nr. unat (account attr l r)) = unat (nrPages attr (nat nr + r)) \<Longrightarrow> l < nat nr \<Longrightarrow>
      account attr' l r = account attr l r" using c(4) by (simp add: acc)
  show "bit (managedMask attr) k \<Longrightarrow> bit (managedMask attr') k" by (simp add: mm bit_or_iff)
  show "account_ok nr r attr'"
    unfolding account_ok_def acc pages am mm using c(1,2) bits by (auto simp: bit_or_iff)
  show "j \<noteq> r \<Longrightarrow> account_ok nr j attr \<Longrightarrow> account_ok nr j attr'"
    unfolding account_ok_def acc pages am mm using c(3) by (auto simp: bit_or_iff)
qed

lemma calibrate_loop:
  assumes nr: "0 < nr" "nr \<le> 8" and "n \<le> 18"
  shows "let attr' = fold (\<lambda>r a. calibrate_remote nr info r a) [0..<n] attr
    in (\<forall>r<n. account_ok nr r attr') \<and> nrPages attr' = nrPages attr \<and>
       (\<forall>r\<ge>n. \<forall>l. account attr' l r = account attr l r) \<and>
       (\<forall>r<n. (\<Sum>l<nat nr. unat (account attr l r)) = unat (nrPages attr (nat nr + r)) \<longrightarrow>
          (\<forall>l<nat nr. account attr' l r = account attr l r)) \<and>
       (\<forall>k. bit (managedMask attr) k \<longrightarrow> bit (managedMask attr') k)"
  using \<open>n \<le> 18\<close>
proof (induction n)
  case (Suc n)
  let ?a = "fold (\<lambda>r a. calibrate_remote nr info r a) [0..<n] attr"
  note st = calibrate_remote_step [OF nr, of n _ info ?a, OF _ refl]
  from Suc have n: "n < 18" by simp
  from Suc have ih: "\<forall>r<n. account_ok nr r ?a" "nrPages ?a = nrPages attr"
    "\<forall>r\<ge>n. \<forall>l. account ?a l r = account attr l r"
    "\<forall>r<n. (\<Sum>l<nat nr. unat (account attr l r)) = unat (nrPages attr (nat nr + r)) \<longrightarrow>
       (\<forall>l<nat nr. account ?a l r = account attr l r)"
    "\<forall>k. bit (managedMask attr) k \<longrightarrow> bit (managedMask ?a) k"
    by (simp_all add: Let_def)
  have eq: "fold (\<lambda>r a. calibrate_remote nr info r a) [0..<Suc n] attr = calibrate_remote nr info n ?a" by simp
  show ?case
    unfolding Let_def eq using ih st(1,3) [OF n] st(2,4,5,6) [OF n]
    by (auto simp: less_Suc_eq)
qed simp

lemma CalibratePairAccount_gen:
  assumes nr: "0 < nr" "nr \<le> 8" and attr': "attr' = CalibratePairAccount nr info attr"
  shows "\<forall>r<18. account_ok nr r attr'"
    and "\<forall>r<18. (\<Sum>l<nat nr. unat (account attr l r)) = unat (nrPages attr (nat nr + r)) \<longrightarrow>
      (\<forall>l<nat nr. account attr' l r = account attr l r)"
    and "nrPages attr' = nrPages attr"
    and "\<forall>k. bit (managedMask attr') k \<longrightarrow> k < nat nr"
    and "\<forall>k<nat nr. bit (managedMask attr) k \<longrightarrow> bit (managedMask attr') k"
proof -
  have tw: "takeWhile (\<lambda>r. \<not> nr + int r \<ge> int 26) [0..<18] = [0..<18]"
    using nr by (subst takeWhile_eq_all_conv) auto
  let ?a = "fold (\<lambda>r a. calibrate_remote nr info r a) [0..<18] attr"
  have eq: "attr' = ?a\<lparr>pa_managedLocalState := (pa_managedLocalState ?a)\<lparr>
      ml_managedLocalMask := managedMask ?a AND BuildAllLocalNumaMask nr\<rparr>\<rparr>"
    using nr unfolding attr' CalibratePairAccount_def tw by (simp add: Let_def)
  note loop = calibrate_loop [OF nr order_refl, where info = info and attr = attr, unfolded Let_def]
  show "\<forall>r<18. account_ok nr r attr'" using loop nr by (auto simp: eq account_ok_def bit_and_iff)
  show "\<forall>r<18. (\<Sum>l<nat nr. unat (account attr l r)) = unat (nrPages attr (nat nr + r)) \<longrightarrow>
      (\<forall>l<nat nr. account attr' l r = account attr l r)" using loop by (simp add: eq)
  show "nrPages attr' = nrPages attr" using loop by (simp add: eq)
  show "\<forall>k. bit (managedMask attr') k \<longrightarrow> k < nat nr" by (simp add: eq bit_and_iff)
  show "\<forall>k<nat nr. bit (managedMask attr) k \<longrightarrow> bit (managedMask attr') k"
    using loop nr by (simp add: eq bit_and_iff)
qed

section \<open>Properties\<close>

text \<open>C36. Calibration makes the Pair account of a process agree with its resident pages: for every remote node the
  entries of the local nodes add up to the pages resident there, entries beyond the local nodes of the machine are zero, the
  account mask names exactly the non-zero entries, and they belong to managed nodes.\<close>

theorem CalibratePairAccount_balanced:
  assumes "0 < nr" and "nr \<le> 8" and "r < 18"
  shows "account_ok nr r (CalibratePairAccount nr info attr)"
  using CalibratePairAccount_gen(1) [OF assms(1,2) refl] assms(3) by blast

theorem CalibratePairAccount_balanced_witness:
  "account_ok 2 3 (CalibratePairAccount 2 \<lparr>ri_privateSize = (\<lambda>_ _. 0), ri_sharedSize = (\<lambda>_. 7),
     ri_usedInfo = (\<lambda>_. \<lparr>ru_size = 0, ru_used = 0, ru_ifUsedFreshed = False\<rparr>),
     ri_privateUsedInfo = (\<lambda>_ _. \<lparr>ru_size = 0, ru_used = 0, ru_ifUsedFreshed = False\<rparr>)\<rparr>
     (ProcessAttr_zero\<lparr>pa_walkPage := \<lparr>wp_nrPage = 12, wp_nrPages = (\<lambda>_. 12)\<rparr>\<rparr>))"
  by (rule CalibratePairAccount_balanced) simp_all

text \<open>Calibration does not touch what is right already: a column of the account whose sum is the resident page
  count keeps every entry, the page counts are not changed, and no managed node of the machine is lost.\<close>

lemma CalibratePairAccount_keeps:
  assumes "0 < nr" and "nr \<le> 8" and "attr' = CalibratePairAccount nr info attr"
  shows "(\<forall>r<18. (\<Sum>l<nat nr. unat (account attr l r)) = unat (nrPages attr (nat nr + r)) \<longrightarrow>
      (\<forall>l<nat nr. account attr' l r = account attr l r)) \<and> nrPages attr' = nrPages attr \<and>
    (\<forall>k<nat nr. bit (managedMask attr) k \<longrightarrow> bit (managedMask attr') k)"
  using CalibratePairAccount_gen [OF assms] by blast

end
