(* ===== verification/Pair_Flow.thy ===== *)
theory Pair_Flow
  imports Smap_Prelude
begin

text \<open>
  The maximum-flow step of the Pair assignment, \<^verbatim>\<open>plugins/smap/src/user/manage/manage_pair.c\<close>
  lines 412 to 463: a breadth-first search for an augmenting path in the residual matrix of a
  28-node network (source, 8 local nodes, 18 remote nodes, sink), and the loop that augments
  along such paths until there is none.

  The interface the callers rely on is the locale \<open>flow_solver\<close>: the loop keeps the sum of
  every pair of opposite residuals and the residual sum of every inner node, and leaves the least
  possible residual at the source. Its interpretation on \<open>CompletePairRequestFlow\<close> is the proof
  of the search and of the loop.
\<close>

abbreviation (input) PAIR_FLOW_SOURCE :: nat where "PAIR_FLOW_SOURCE \<equiv> 0"
abbreviation (input) PAIR_FLOW_LOCAL_BASE :: nat where "PAIR_FLOW_LOCAL_BASE \<equiv> 1"
abbreviation (input) PAIR_FLOW_REMOTE_BASE :: nat where "PAIR_FLOW_REMOTE_BASE \<equiv> 9"
abbreviation (input) PAIR_FLOW_SINK :: nat where "PAIR_FLOW_SINK \<equiv> 27"
abbreviation (input) PAIR_FLOW_NODE_COUNT :: nat where "PAIR_FLOW_NODE_COUNT \<equiv> 28"

type_synonym residual = "nat \<Rightarrow> nat \<Rightarrow> nat"

section \<open>Breadth-first search\<close>

record bfs =
  bfs_parent :: "nat \<Rightarrow> int"
  bfs_visited :: "nat \<Rightarrow> bool"
  bfs_queue :: "nat list"

text \<open>
  The inner loop over \<open>next\<close>, with its early return when the sink is found. The queue holds the
  entries from \<^verbatim>\<open>head\<close> to \<^verbatim>\<open>tail\<close>.
\<close>

fun scan_next :: "residual \<Rightarrow> nat \<Rightarrow> nat list \<Rightarrow> bfs \<Rightarrow> bool \<times> bfs" where
  "scan_next residual current [] st = (False, st)"
| "scan_next residual current (next # ns) st =
     (if bfs_visited st next \<or> residual current next = 0 then scan_next residual current ns st
      else
        let st = st\<lparr>bfs_parent := (bfs_parent st)(next := int current),
                    bfs_visited := (bfs_visited st)(next := True)\<rparr>
        in if next = PAIR_FLOW_SINK then (True, st)
           else scan_next residual current ns (st\<lparr>bfs_queue := bfs_queue st @ [next]\<rparr>))"

definition unvisited :: "bfs \<Rightarrow> nat" where
  "unvisited st = card {i. i < PAIR_FLOW_NODE_COUNT \<and> \<not> bfs_visited st i}"

lemma scan_next_measure:
  "set ns \<subseteq> {..<28} \<Longrightarrow> scan_next residual current ns st = (False, st') \<Longrightarrow>
   unvisited st' + length (bfs_queue st') = unvisited st + length (bfs_queue st)"
proof (induction residual current ns st rule: scan_next.induct)
  case (2 residual current "next" ns st)
  show ?case
  proof (cases "bfs_visited st next \<or> residual current next = 0 \<or> next = 27")
    case True
    with 2 show ?thesis by (auto simp: Let_def split: if_splits)
  next
    case False
    let ?A = "{i. i < 28 \<and> \<not> bfs_visited st i}"
    let ?st = "st\<lparr>bfs_parent := (bfs_parent st)(next := int current),
      bfs_visited := (bfs_visited st)(next := True), bfs_queue := bfs_queue st @ [next]\<rparr>"
    have "{i. i < 28 \<and> \<not> bfs_visited ?st i} = ?A - {next}" by auto
    moreover have "next \<in> ?A" using 2(3) False by auto
    moreover have "finite ?A" by simp
    ultimately have "Suc (unvisited ?st) = unvisited st"
      unfolding unvisited_def by (simp only: card_Suc_Diff1)
    moreover have "unvisited st' + length (bfs_queue st') = unvisited ?st + length (bfs_queue ?st)"
      using 2 False by (simp add: Let_def)
    ultimately show ?thesis by simp
  qed
qed simp

lemma scan_next_less:
  assumes "bfs_queue st = current # queue"
    and "(False, st') = scan_next residual current [0..<28] (st\<lparr>bfs_queue := queue\<rparr>)"
  shows "unvisited st' + length (bfs_queue st') < Suc (unvisited st + length queue)"
  using scan_next_measure [OF _ assms(2) [symmetric]] assms(1) by (simp add: lessThan_atLeast0 unvisited_def)

function search :: "residual \<Rightarrow> bfs \<Rightarrow> bool \<times> bfs" where
  "search residual st =
     (case bfs_queue st of
        [] \<Rightarrow> (False, st)
      | current # queue \<Rightarrow>
          (case scan_next residual current [0..<PAIR_FLOW_NODE_COUNT] (st\<lparr>bfs_queue := queue\<rparr>) of
             (found, st) \<Rightarrow> if found then (True, st) else search residual st))"
  by pat_completeness auto
termination
  by (relation "measure (\<lambda>(residual, st). unvisited st + length (bfs_queue st))") (auto dest: scan_next_less)

declare search.simps [simp del]

definition FindPairRequestAugmentingPath :: "residual \<Rightarrow> (nat \<Rightarrow> int) \<Rightarrow> bool \<times> (nat \<Rightarrow> int)" where
  "FindPairRequestAugmentingPath residual parent =
     (case search residual \<lparr>bfs_parent = parent(PAIR_FLOW_SOURCE := -1),
        bfs_visited = (\<lambda>_. False)(PAIR_FLOW_SOURCE := True), bfs_queue = [PAIR_FLOW_SOURCE]\<rparr> of
      (found, st) \<Rightarrow> (found, bfs_parent st))"

section \<open>Augmentation\<close>

text \<open>
  The edges met by \<^verbatim>\<open>for (node = PAIR_FLOW_SINK; node != PAIR_FLOW_SOURCE; node = parent[node])\<close>;
  \<open>None\<close> when the walk does not reach the source within \<open>fuel\<close> steps. A walk without repetition
  has at most 27 edges.
\<close>

fun parent_edges :: "nat \<Rightarrow> (nat \<Rightarrow> int) \<Rightarrow> nat \<Rightarrow> (nat \<times> nat) list option" where
  "parent_edges fuel parent node =
     (if node = PAIR_FLOW_SOURCE then Some []
      else case fuel of
        0 \<Rightarrow> None
      | Suc fuel \<Rightarrow>
          map_option (\<lambda>es. (nat (parent node), node) # es) (parent_edges fuel parent (nat (parent node))))"

declare parent_edges.simps [simp del]

definition augment_edge :: "nat \<Rightarrow> nat \<times> nat \<Rightarrow> residual \<Rightarrow> residual" where
  "augment_edge augment e residual =
     (let previous = fst e; node = snd e;
          residual = residual(previous := (residual previous)(node := sub64 (residual previous node) augment))
      in residual(node := (residual node)(previous := add64 (residual node previous) augment)))"

definition bottleneck :: "residual \<Rightarrow> (nat \<times> nat) list \<Rightarrow> nat" where
  "bottleneck residual es = fold (\<lambda>e augment. min augment (residual (fst e) (snd e))) es UINT64_MAX"

section \<open>Correctness of the search\<close>

text \<open>A chain is a walk along the parents, without repetition, over positive residuals, to the source.\<close>

fun chain :: "residual \<Rightarrow> (nat \<Rightarrow> int) \<Rightarrow> nat list \<Rightarrow> bool" where
  "chain r par [] = False"
| "chain r par [v] = (v = 0)"
| "chain r par (v # u # p) = (v \<noteq> 0 \<and> par v = int u \<and> r u v > 0 \<and> v \<notin> set (u # p) \<and> chain r par (u # p))"

lemma chain_parent_upd: "x \<notin> set p \<Longrightarrow> chain r (par(x := y)) p = chain r par p"
  by (induction r par p rule: chain.induct) auto

lemma chain_distinct: "chain r par p \<Longrightarrow> distinct p \<and> p \<noteq> [] \<and> last p = 0"
  by (induction r par p rule: chain.induct) auto

definition search_inv :: "residual \<Rightarrow> bfs \<Rightarrow> bool" where
  "search_inv r st \<longleftrightarrow>
     bfs_visited st 0 \<and>
     (\<forall>v. bfs_visited st v \<longrightarrow> v < 28 \<and> (\<exists>p. chain r (bfs_parent st) (v # p) \<and> set p \<subseteq> {u. bfs_visited st u})) \<and>
     set (bfs_queue st) \<subseteq> {u. bfs_visited st u}"

lemma search_inv_visit:
  assumes inv: "search_inv r st" and cur: "bfs_visited st cur" and new: "\<not> bfs_visited st x" "r cur x > 0" "x < 28"
  shows "search_inv r (st\<lparr>bfs_parent := (bfs_parent st)(x := int cur), bfs_visited := (bfs_visited st)(x := True)\<rparr>)"
    (is "search_inv r ?st")
proof -
  have x0: "x \<noteq> 0" using inv new(1) by (metis search_inv_def)
  have old: "\<exists>p. chain r ((bfs_parent st)(x := int cur)) (v # p) \<and> set p \<subseteq> {u. bfs_visited st u}"
    if "bfs_visited st v" for v
  proof -
    from inv that obtain p where p: "chain r (bfs_parent st) (v # p)" "set p \<subseteq> {u. bfs_visited st u}"
      by (auto simp: search_inv_def)
    then have "x \<notin> set (v # p)" using that new(1) by auto
    then show ?thesis using p chain_parent_upd [of x "v # p" r "bfs_parent st" "int cur"] by auto
  qed
  from old [OF cur] obtain p where p: "chain r ((bfs_parent st)(x := int cur)) (cur # p)" "set p \<subseteq> {u. bfs_visited st u}"
    by blast
  then have "chain r ((bfs_parent st)(x := int cur)) (x # cur # p)"
    using new cur x0 by auto
  moreover have "set (cur # p) \<subseteq> {u. bfs_visited ?st u}" using p cur by auto
  ultimately have newc: "\<exists>p. chain r (bfs_parent ?st) (x # p) \<and> set p \<subseteq> {u. bfs_visited ?st u}"
    by (intro exI [of _ "cur # p"] conjI) (simp_all del: chain.simps)
  have oldc: "\<exists>p. chain r (bfs_parent ?st) (v # p) \<and> set p \<subseteq> {u. bfs_visited ?st u}" if "bfs_visited st v" for v
  proof -
    from old [OF that] obtain p where "chain r ((bfs_parent st)(x := int cur)) (v # p)" "set p \<subseteq> {u. bfs_visited st u}"
      by blast
    then show ?thesis by (intro exI [of _ p] conjI) (auto simp del: chain.simps)
  qed
  have "v < 28 \<and> (\<exists>p. chain r (bfs_parent ?st) (v # p) \<and> set p \<subseteq> {u. bfs_visited ?st u})" if "bfs_visited ?st v" for v
    using that inv new(3) newc oldc [of v] by (cases "v = x") (auto simp: search_inv_def simp del: chain.simps)
  then show ?thesis using inv by (auto simp: search_inv_def simp del: chain.simps)
qed

text \<open>What the inner loop has done when it is left.\<close>

definition scan_post :: "residual \<Rightarrow> nat \<Rightarrow> nat list \<Rightarrow> bfs \<Rightarrow> bool \<Rightarrow> bfs \<Rightarrow> bool" where
  "scan_post r cur ns st found st' \<longleftrightarrow>
     search_inv r st' \<and> (\<forall>v. bfs_visited st v \<longrightarrow> bfs_visited st' v) \<and>
     set (bfs_queue st) \<subseteq> set (bfs_queue st') \<and>
     (if found then bfs_visited st' 27
      else bfs_visited st' 27 = bfs_visited st 27 \<and> (\<forall>v \<in> set ns. r cur v > 0 \<longrightarrow> bfs_visited st' v) \<and>
           (\<forall>v. bfs_visited st' v \<longrightarrow> bfs_visited st v \<or> v \<in> set (bfs_queue st')))"

lemma scan_next_post:
  assumes "search_inv r st" and "bfs_visited st cur" and "set ns \<subseteq> {..<28}" and "scan_next r cur ns st = (found, st')"
  shows "scan_post r cur ns st found st'"
  using assms
proof (induction r cur ns st rule: scan_next.induct)
  case (2 r cur x ns st)
  let ?st1 = "st\<lparr>bfs_parent := (bfs_parent st)(x := int cur), bfs_visited := (bfs_visited st)(x := True)\<rparr>"
  let ?st2 = "?st1\<lparr>bfs_queue := bfs_queue ?st1 @ [x]\<rparr>"
  show ?case
  proof (cases "bfs_visited st x \<or> r cur x = 0")
    case True
    then have "scan_post r cur ns st found st'" using 2 by auto
    with True show ?thesis by (auto simp: scan_post_def split: if_splits)
  next
    case False
    then have inv1: "search_inv r ?st1" using 2 by (intro search_inv_visit) auto
    show ?thesis
    proof (cases "x = 27")
      case True
      with False 2(6) have "found" "st' = ?st1" by (auto simp: Let_def)
      with inv1 True show ?thesis by (simp add: scan_post_def)
    next
      case x27: False
      have inv2: "search_inv r ?st2" using inv1 by (auto simp: search_inv_def)
      have "scan_post r cur ns ?st2 found st'"
        using 2 False x27 inv2 by (intro 2(2) [OF _ refl x27]) (auto simp: Let_def)
      with x27 show ?thesis by (auto simp: scan_post_def split: if_splits)
    qed
  qed
qed (simp add: scan_post_def)

text \<open>The outer loop: every node that has left the queue has all its successors visited.\<close>

definition explored :: "residual \<Rightarrow> bfs \<Rightarrow> bool" where
  "explored r st \<longleftrightarrow> (\<forall>u v. bfs_visited st u \<and> u \<notin> set (bfs_queue st) \<and> v < 28 \<and> r u v > 0 \<longrightarrow> bfs_visited st v)"

lemma search_correct:
  assumes "search_inv r st" and "explored r st" and "\<not> bfs_visited st 27" and "search r st = (found, st')"
  shows "search_inv r st' \<and> (if found then bfs_visited st' 27
    else \<not> bfs_visited st' 27 \<and> (\<forall>u v. bfs_visited st' u \<and> v < 28 \<and> r u v > 0 \<longrightarrow> bfs_visited st' v))"
  using assms
proof (induction r st rule: search.induct)
  case (1 r st)
  show ?case
  proof (cases "bfs_queue st")
    case Nil
    with 1 show ?thesis by (auto simp: search.simps [of r st] explored_def)
  next
    case (Cons cur queue)
    obtain f st1 where sc: "scan_next r cur [0..<28] (st\<lparr>bfs_queue := queue\<rparr>) = (f, st1)" by force
    have "search_inv r (st\<lparr>bfs_queue := queue\<rparr>)" and "bfs_visited (st\<lparr>bfs_queue := queue\<rparr>) cur"
      using 1(2) Cons by (auto simp: search_inv_def)
    from scan_next_post [OF this _ sc]
    have post: "scan_post r cur [0..<28] (st\<lparr>bfs_queue := queue\<rparr>) f st1" by (simp add: lessThan_atLeast0)
    show ?thesis
    proof (cases f)
      case True
      with Cons sc 1(5) have "found" "st' = st1" by (auto simp: search.simps [of r st])
      with True post show ?thesis by (simp add: scan_post_def)
    next
      case False
      have rec: "search r st1 = (found, st')" using Cons sc False 1(5) by (simp add: search.simps [of r st])
      have p: "search_inv r st1" "bfs_visited st1 27 = bfs_visited st 27"
        "\<forall>v<28. r cur v > 0 \<longrightarrow> bfs_visited st1 v" "\<forall>v. bfs_visited st v \<longrightarrow> bfs_visited st1 v"
        "\<forall>v. bfs_visited st1 v \<longrightarrow> bfs_visited st v \<or> v \<in> set (bfs_queue st1)" "set queue \<subseteq> set (bfs_queue st1)"
        using post False by (auto simp: scan_post_def)
      have "explored r st1"
        unfolding explored_def
      proof (intro allI impI)
        fix u v assume uv: "bfs_visited st1 u \<and> u \<notin> set (bfs_queue st1) \<and> v < 28 \<and> 0 < r u v"
        show "bfs_visited st1 v"
        proof (cases "u = cur")
          case False
          with uv p(5,6) Cons have "bfs_visited st u \<and> u \<notin> set (bfs_queue st)" by auto
          then have "bfs_visited st v" using 1(3) uv by (auto simp: explored_def)
          then show ?thesis using p(4) by simp
        qed (use uv p(3) in auto)
      qed
      moreover have "\<not> bfs_visited st1 27" using p(2) 1(4) by simp
      ultimately show ?thesis by (intro 1(1) [OF Cons sc [symmetric] False p(1) _ _ rec])
    qed
  qed
qed

lemma FindPairRequestAugmentingPath_correct:
  assumes "FindPairRequestAugmentingPath r par = (found, par')"
  shows "if found then \<exists>p. chain r par' (27 # p) \<and> set (27 # p) \<subseteq> {..<28}
    else \<exists>V \<subseteq> {..<28}. 0 \<in> V \<and> 27 \<notin> V \<and> (\<forall>u \<in> V. \<forall>v. v < 28 \<and> v \<notin> V \<longrightarrow> r u v = 0)"
proof -
  let ?st = "\<lparr>bfs_parent = par(0 := -1), bfs_visited = (\<lambda>_. False)(0 := True), bfs_queue = [0]\<rparr>"
  obtain st' where s: "search r ?st = (found, st')" and par': "par' = bfs_parent st'"
    using assms by (auto simp: FindPairRequestAugmentingPath_def split: prod.splits)
  have "search_inv r ?st" by (auto simp: search_inv_def intro: exI [of _ "[]"])
  moreover have "explored r ?st" by (auto simp: explored_def)
  ultimately have c: "search_inv r st' \<and> (if found then bfs_visited st' 27
    else \<not> bfs_visited st' 27 \<and> (\<forall>u v. bfs_visited st' u \<and> v < 28 \<and> r u v > 0 \<longrightarrow> bfs_visited st' v))"
    by (rule search_correct) (use s in auto)
  show ?thesis
  proof (cases found)
    case True
    with c obtain p where p: "chain r par' (27 # p)" "set p \<subseteq> {u. bfs_visited st' u}"
      by (auto simp: search_inv_def par' simp del: chain.simps)
    moreover have "{u. bfs_visited st' u} \<subseteq> {..<28}" using c by (auto simp: search_inv_def)
    ultimately show ?thesis using True by (auto simp del: chain.simps)
  next
    case False
    let ?V = "{u. bfs_visited st' u}"
    have cl: "\<not> bfs_visited st' 27" "\<And>u v. bfs_visited st' u \<Longrightarrow> v < 28 \<Longrightarrow> 0 < r u v \<Longrightarrow> bfs_visited st' v"
      using c False by auto
    have "?V \<subseteq> {..<28}" "0 \<in> ?V" using c by (auto simp: search_inv_def simp del: chain.simps)
    moreover have "\<forall>u \<in> ?V. \<forall>v. v < 28 \<and> v \<notin> ?V \<longrightarrow> r u v = 0" using cl(2) by fastforce
    ultimately show ?thesis using False cl(1) by (simp only: if_False) blast
  qed
qed

section \<open>Correctness of the augmentation\<close>

lemma parent_edges_chain:
  assumes "chain r par p" and "length p \<le> Suc fuel"
  shows "parent_edges fuel par (hd p) = Some (zip (tl p) p)"
  using assms
proof (induction r par p arbitrary: fuel rule: chain.induct)
  case (3 r par v u p)
  then obtain f where f: "fuel = Suc f" by (cases fuel) auto
  then have "parent_edges f par u = Some (zip p (u # p))" using 3(1) [of f] 3(2,3) by simp
  then show ?case using f 3(2) by (simp add: parent_edges.simps [of "Suc f" par v])
qed (auto simp: parent_edges.simps)

definition row_sum :: "residual \<Rightarrow> nat \<Rightarrow> nat" where
  "row_sum r u = (\<Sum>v<28. r u v)"

lemma bottleneck_fold:
  "fold (\<lambda>e augment. min augment (residual (fst e) (snd e))) es a = b \<Longrightarrow>
   b \<le> a \<and> (\<forall>e \<in> set es. b \<le> residual (fst e) (snd e)) \<and> (b = a \<or> (\<exists>e \<in> set es. b = residual (fst e) (snd e)))"
  for residual :: residual
proof (induction es arbitrary: a)
  case (Cons e es)
  from Cons.IH [of "min a (residual (fst e) (snd e))"] Cons.prems show ?case
    by (auto simp: min_def split: if_splits)
qed simp

lemma bottleneck_le: "e \<in> set es \<Longrightarrow> bottleneck r es \<le> r (fst e) (snd e)"
  using bottleneck_fold [of r es UINT64_MAX "bottleneck r es"] by (simp add: bottleneck_def)

lemma chain_positive: "chain r par p \<Longrightarrow> e \<in> set (zip (tl p) p) \<Longrightarrow> 0 < r (fst e) (snd e)"
  by (induction r par p rule: chain.induct) auto

lemma bottleneck_pos: "(\<And>e. e \<in> set es \<Longrightarrow> 0 < r (fst e) (snd e)) \<Longrightarrow> 0 < bottleneck r es"
  using bottleneck_fold [of r es UINT64_MAX "bottleneck r es"] by (auto simp: bottleneck_def)

text \<open>
  The path of a successful search, and what augmenting along it does to the residuals that leave the
  source: whatever the other values are, the residual of its first edge shrinks.
\<close>

lemma found_path:
  assumes "FindPairRequestAugmentingPath r par = (True, par')"
  shows "\<exists>p. chain r par' p \<and> hd p = 27 \<and> set p \<subseteq> {..<28} \<and> parent_edges 28 par' 27 = Some (zip (tl p) p)"
proof -
  from FindPairRequestAugmentingPath_correct [OF assms] obtain p
    where p: "chain r par' (27 # p)" "set (27 # p) \<subseteq> {..<28}" by auto
  have "card (set (27 # p)) \<le> card {..<28::nat}" using p(2) by (intro card_mono) auto
  then have "length (27 # p) \<le> 28" using chain_distinct [OF p(1)] distinct_card [of "27 # p"] by simp
  then have "parent_edges 28 par' 27 = Some (zip (tl (27 # p)) (27 # p))" using parent_edges_chain [OF p(1), of 28] by simp
  with p show ?thesis by (intro exI [of _ "27 # p"]) (simp del: chain.simps)
qed

lemma augment_edge_other: "x \<noteq> fst e \<Longrightarrow> x \<noteq> snd e \<Longrightarrow> augment_edge a e r x = r x"
  by (simp add: augment_edge_def Let_def)

lemma augment_source:
  assumes "distinct p" and "2 \<le> length p" and "last p = 0"
  shows "\<exists>x \<in> set p. (0, x) \<in> set (zip (tl p) p) \<and>
    fold (augment_edge a) (zip (tl p) p) r 0 = (r 0)(x := sub64 (r 0 x) a)"
  using assms
proof (induction p arbitrary: r)
  case (Cons v p)
  then obtain u q where p: "p = u # q" by (cases p) auto
  show ?case
  proof (cases q)
    case Nil
    with Cons.prems p have "u = 0" "v \<noteq> 0" by auto
    then show ?thesis using p Nil by (auto simp: augment_edge_def Let_def fun_eq_iff)
  next
    case (Cons w q')
    then have "0 \<in> set q" using Cons.prems(3) p last_in_set [of q] by simp
    moreover have "u \<notin> set q" "v \<notin> set q" using Cons.prems(1) p by auto
    ultimately have nz: "u \<noteq> 0" "v \<noteq> 0" by metis+
    obtain x where x: "x \<in> set p" "(0, x) \<in> set (zip (tl p) p)"
      "fold (augment_edge a) (zip (tl p) p) (augment_edge a (u, v) r) 0 =
        (augment_edge a (u, v) r 0)(x := sub64 (augment_edge a (u, v) r 0 x) a)"
    proof -
      have "distinct p" "2 \<le> length p" "last p = 0" using Cons.prems p Cons by auto
      from Cons.IH [OF this, of "augment_edge a (u, v) r"] show ?thesis using that by blast
    qed
    moreover have "augment_edge a (u, v) r 0 = r 0" using nz by (simp add: augment_edge_other)
    moreover have "zip (tl (v # p)) (v # p) = (u, v) # zip (tl p) p" using p by simp
    ultimately show ?thesis by (intro bexI [of _ x]) simp_all
  qed
qed simp

lemma sub64_decreases:
  assumes "0 < a" and "a \<le> x" and "a < 2 ^ 64"
  shows "sub64 x a < x"
proof (cases "x < 2 ^ 64")
  case True
  with assms show ?thesis by (simp add: sub64_eq)
next
  case False
  then show ?thesis using sub64_less [of x a] by linarith
qed

lemma augment_decreases:
  assumes "FindPairRequestAugmentingPath r par = (True, par')" and "parent_edges 28 par' 27 = Some es"
  shows "row_sum (fold (augment_edge (bottleneck r es)) es r) 0 < row_sum r 0"
proof -
  from found_path [OF assms(1)] assms(2) obtain p where p: "chain r par' p" "hd p = 27" "set p \<subseteq> {..<28}"
    and es: "es = zip (tl p) p" by auto
  let ?a = "bottleneck r es"
  note d = chain_distinct [OF p(1)]
  have "2 \<le> length p" using d p(2) by (cases p; cases "tl p") auto
  with d obtain x where x: "x \<in> set p" "(0, x) \<in> set es" "fold (augment_edge ?a) es r 0 = (r 0)(x := sub64 (r 0 x) ?a)"
    using augment_source [of p ?a r] unfolding es by blast
  have "0 < ?a" "?a < 2 ^ 64"
    using chain_positive [OF p(1)] bottleneck_fold [of r es UINT64_MAX ?a] es
    by (auto simp: bottleneck_def intro: bottleneck_pos [unfolded bottleneck_def])
  moreover have "?a \<le> r 0 x" using bottleneck_le [OF x(2), of r] by simp
  ultimately have "sub64 (r 0 x) ?a < r 0 x" by (intro sub64_decreases)
  then show ?thesis using x p(3) unfolding row_sum_def x(3) by (intro sum_strict_mono_ex1) auto
qed

text \<open>
  The loop. The walk along the parents always succeeds (\<open>found_path\<close>), so the branch \<open>None\<close> is never
  taken; the residual that leaves the source bounds the number of rounds.
\<close>

function CompletePairRequestFlow :: "residual \<Rightarrow> (nat \<Rightarrow> int) \<Rightarrow> residual" where
  "CompletePairRequestFlow residual parent =
     (case FindPairRequestAugmentingPath residual parent of
        (found, parent) \<Rightarrow>
          if found then
            case parent_edges PAIR_FLOW_NODE_COUNT parent PAIR_FLOW_SINK of
              None \<Rightarrow> residual
            | Some es \<Rightarrow> CompletePairRequestFlow (fold (augment_edge (bottleneck residual es)) es residual) parent
          else residual)"
  by pat_completeness auto
termination
  by (relation "measure (\<lambda>(residual, parent). row_sum residual 0)") (auto intro: augment_decreases [OF sym])

declare CompletePairRequestFlow.simps [simp del]

text \<open>The sum of every pair of opposite residuals fits a 64-bit value.\<close>

definition bounded :: "residual \<Rightarrow> bool" where
  "bounded r \<longleftrightarrow> (\<forall>u v. r u v + r v u < 2 ^ 64)"

lemma augment_edge_eq:
  assumes "u \<noteq> v" and "a \<le> r u v" and "bounded r"
  shows "augment_edge a (u, v) r x y =
    (if (x, y) = (u, v) then r u v - a else if (x, y) = (v, u) then r v u + a else r x y)"
proof -
  have b: "r u v + r v u < 2 ^ 64" using assms(3) by (simp add: bounded_def)
  have "sub64 (r u v) a = r u v - a" using assms b by (intro sub64_eq) auto
  moreover have "add64 (r v u) a = r v u + a" using assms b by (intro add64_eq) auto
  ultimately show ?thesis using assms(1) by (auto simp: augment_edge_def Let_def)
qed

lemma augment_edge_pair:
  assumes "u \<noteq> v" and "a \<le> r u v" and "bounded r"
  shows "augment_edge a (u, v) r x y + augment_edge a (u, v) r y x = r x y + r y x"
  using assms by (auto simp: augment_edge_eq)

lemma augment_edge_bounded:
  "u \<noteq> v \<Longrightarrow> a \<le> r u v \<Longrightarrow> bounded r \<Longrightarrow> bounded (augment_edge a (u, v) r)"
  by (simp add: bounded_def [of "augment_edge a (u, v) r"] augment_edge_pair) (simp add: bounded_def)

lemma sum_upd_one:
  fixes f g :: "nat \<Rightarrow> nat"
  assumes "finite A" "k \<in> A" "\<And>x. x \<in> A \<Longrightarrow> x \<noteq> k \<Longrightarrow> g x = f x"
  shows "sum g A + f k = sum f A + g k"
proof -
  have "sum g A = g k + sum g (A - {k})" and "sum f A = f k + sum f (A - {k})"
    using assms(1,2) by (simp_all add: sum.remove)
  moreover have "sum g (A - {k}) = sum f (A - {k})" using assms(3) by (intro sum.cong) auto
  ultimately show ?thesis by simp
qed

lemma augment_edge_row:
  assumes "u \<noteq> v" and "a \<le> r u v" and "bounded r" and "u < 28" "v < 28"
  shows "row_sum (augment_edge a (u, v) r) x + (if x = u then a else 0) = row_sum r x + (if x = v then a else 0)"
proof -
  let ?r = "augment_edge a (u, v) r"
  note eq = augment_edge_eq [OF assms(1-3)]
  have "row_sum ?r u + r u v = row_sum r u + (r u v - a)"
    unfolding row_sum_def using assms eq sum_upd_one [of "{..<28}" v "?r u" "r u"] by auto
  moreover have "row_sum ?r v + r v u = row_sum r v + (r v u + a)"
    unfolding row_sum_def using assms eq sum_upd_one [of "{..<28}" u "?r v" "r v"] by auto
  moreover have "row_sum ?r x = row_sum r x" if "x \<noteq> u" "x \<noteq> v"
    using that unfolding row_sum_def by (intro sum.cong) (auto simp: eq)
  ultimately show ?thesis using assms(1,2) by auto
qed

text \<open>Augmenting by \<open>a\<close> along a chain moves \<open>a\<close> of residual from its last to its first node.\<close>

lemma augment_path:
  assumes "distinct p" and "p \<noteq> []" and "set p \<subseteq> {..<28}" and "bounded r"
    and "\<And>e. e \<in> set (zip (tl p) p) \<Longrightarrow> a \<le> r (fst e) (snd e)" and r': "r' = fold (augment_edge a) (zip (tl p) p) r"
  shows "bounded r' \<and> (\<forall>x y. r' x y + r' y x = r x y + r y x) \<and>
    (\<forall>x. row_sum r' x + (if x = last p then a else 0) = row_sum r x + (if x = hd p then a else 0))"
  using assms
proof (induction p arbitrary: r)
  case (Cons v p)
  show ?case
  proof (cases p)
    case Nil
    with Cons.prems show ?thesis by simp
  next
    case (Cons u q)
    let ?r1 = "augment_edge a (u, v) r"
    have uv: "u \<noteq> v" "u < 28" "v < 28" using Cons.prems(1,3) Cons by auto
    have a: "a \<le> r u v" using Cons.prems(5) [of "(u, v)"] Cons by simp
    note e = augment_edge_eq [OF uv(1) a Cons.prems(4)]
    have b1: "bounded ?r1" using uv a Cons.prems(4) by (intro augment_edge_bounded) auto
    have rest: "a \<le> ?r1 (fst e) (snd e)" if "e \<in> set (zip (tl p) p)" for e
    proof -
      obtain x y where xy: "e = (x, y)" by force
      have "x \<in> set p" "y \<in> set p" using that set_zip_leftD set_zip_rightD xy Cons by fastforce+
      then have "x \<noteq> v" "y \<noteq> v" using Cons.prems(1) by auto
      moreover have "e \<in> set (zip (tl (v # p)) (v # p))" using that Cons by simp
      then have "a \<le> r x y" using Cons.prems(5) [of e] xy by simp
      ultimately show ?thesis using \<open>e = (x, y)\<close> by (simp add: e)
    qed
    have r'1: "r' = fold (augment_edge a) (zip (tl p) p) ?r1" using Cons.prems(6) Cons by simp
    have IH: "bounded r' \<and> (\<forall>x y. r' x y + r' y x = ?r1 x y + ?r1 y x) \<and>
      (\<forall>x. row_sum r' x + (if x = last p then a else 0) = row_sum ?r1 x + (if x = hd p then a else 0))"
      using Cons.prems(1,3) Cons b1 rest r'1 by (intro Cons.IH) auto
    have "row_sum r' x + (if x = last (v # p) then a else 0) = row_sum r x + (if x = hd (v # p) then a else 0)" for x
      using IH augment_edge_row [OF uv(1) a Cons.prems(4) uv(2,3), of x] Cons by auto
    then show ?thesis using IH augment_edge_pair [OF uv(1) a Cons.prems(4)] by auto
  qed
qed simp

section \<open>Correctness of the loop\<close>

text \<open>
  Two residual matrices belong to the same network when they agree on the capacity of every pair of
  opposite edges and on the balance of every inner node: they differ by a flow from source to sink.
\<close>

definition same_network :: "residual \<Rightarrow> residual \<Rightarrow> bool" where
  "same_network r r' \<longleftrightarrow> (\<forall>u v. r' u v + r' v u = r u v + r v u) \<and>
     (\<forall>u. u \<noteq> PAIR_FLOW_SOURCE \<and> u \<noteq> PAIR_FLOW_SINK \<longrightarrow> row_sum r' u = row_sum r u)"

lemma same_network_refl [simp]: "same_network r r"
  by (simp add: same_network_def)

lemma same_network_trans: "same_network a b \<Longrightarrow> same_network b c \<Longrightarrow> same_network a c"
  by (simp add: same_network_def)

lemma same_network_sym: "same_network a b \<Longrightarrow> same_network b a"
  by (simp add: same_network_def)

lemma same_network_bounded: "same_network r r' \<Longrightarrow> bounded r = bounded r'"
  by (simp add: same_network_def bounded_def)

text \<open>A cut without outgoing residual bounds the residual of the source in the whole network.\<close>

lemma closed_cut_least:
  assumes V: "V \<subseteq> {..<28}" "0 \<in> V" "27 \<notin> V" and cut: "\<forall>u \<in> V. \<forall>v. v < 28 \<and> v \<notin> V \<longrightarrow> r u v = 0"
    and net: "same_network r r'"
  shows "row_sum r 0 \<le> row_sum r' 0"
proof -
  have fin: "finite V" using V(1) finite_subset by blast
  have double: "2 * (\<Sum>u\<in>V. \<Sum>v\<in>V. s u v) = (\<Sum>u\<in>V. \<Sum>v\<in>V. s u v + s v u)" for s :: residual
    using sum.swap [of "\<lambda>u v. s u v" V V] by (simp add: sum.distrib)
  have "(\<Sum>u\<in>V. row_sum r u) = (\<Sum>u\<in>V. \<Sum>v\<in>V. r u v)"
    unfolding row_sum_def using V(1) cut by (intro sum.cong sum.mono_neutral_right) auto
  also have "\<dots> = (\<Sum>u\<in>V. \<Sum>v\<in>V. r' u v)"
    using double [of r] double [of r'] net by (simp add: same_network_def)
  also have "\<dots> \<le> (\<Sum>u\<in>V. row_sum r' u)"
    unfolding row_sum_def using V(1) by (intro sum_mono sum_mono2) auto
  finally have le: "(\<Sum>u\<in>V. row_sum r u) \<le> (\<Sum>u\<in>V. row_sum r' u)" .
  have "(\<Sum>u\<in>V - {0}. row_sum r' u) = (\<Sum>u\<in>V - {0}. row_sum r u)"
    using V(3) net by (intro sum.cong) (auto simp: same_network_def)
  with le show ?thesis using fin V(2) by (simp add: sum.remove)
qed

text \<open>One round of the loop: the edges of the path exist and the source loses residual.\<close>

lemma augment_round:
  assumes "FindPairRequestAugmentingPath r par = (True, par')" and "bounded r"
  shows "\<exists>es. parent_edges 28 par' 27 = Some es \<and> same_network r (fold (augment_edge (bottleneck r es)) es r)"
proof -
  from found_path [OF assms(1)] obtain p where p: "chain r par' p" "hd p = 27" "set p \<subseteq> {..<28}"
    and e: "parent_edges 28 par' 27 = Some (zip (tl p) p)" by auto
  let ?a = "bottleneck r (zip (tl p) p)"
  define r' where "r' = fold (augment_edge ?a) (zip (tl p) p) r"
  note d = chain_distinct [OF p(1)]
  have ap: "bounded r' \<and> (\<forall>x y. r' x y + r' y x = r x y + r y x) \<and>
    (\<forall>x. row_sum r' x + (if x = last p then ?a else 0) = row_sum r x + (if x = hd p then ?a else 0))"
    using d p(3) assms(2) bottleneck_le by (intro augment_path [OF _ _ _ _ _ r'_def]) blast+
  have row: "row_sum r' x + (if x = 0 then ?a else 0) = row_sum r x + (if x = 27 then ?a else 0)" for x
    using ap d p(2) by auto
  have "row_sum r' u = row_sum r u" if "u \<noteq> 0" "u \<noteq> 27" for u using row [of u] that by simp
  then have "same_network r r'" unfolding same_network_def using ap by blast
  with e show ?thesis unfolding r'_def by blast
qed

lemma CompletePairRequestFlow_correct:
  assumes "bounded r"
  shows "same_network r (CompletePairRequestFlow r par) \<and>
    (\<forall>r'. same_network r r' \<longrightarrow> row_sum (CompletePairRequestFlow r par) 0 \<le> row_sum r' 0)"
  using assms
proof (induction r par rule: CompletePairRequestFlow.induct)
  case (1 r par)
  obtain found par' where f: "FindPairRequestAugmentingPath r par = (found, par')" by force
  show ?case
  proof (cases found)
    case True
    with augment_round [of r par par'] f 1(2) obtain es where es: "parent_edges 28 par' 27 = Some es"
      and net: "same_network r (fold (augment_edge (bottleneck r es)) es r)" by auto
    let ?r = "fold (augment_edge (bottleneck r es)) es r"
    have eq: "CompletePairRequestFlow r par = CompletePairRequestFlow ?r par'"
      using f True es by (simp add: CompletePairRequestFlow.simps [of r par])
    have "same_network ?r (CompletePairRequestFlow ?r par') \<and>
      (\<forall>r'. same_network ?r r' \<longrightarrow> row_sum (CompletePairRequestFlow ?r par') 0 \<le> row_sum r' 0)"
      using 1(2) same_network_bounded [OF net] by (intro 1(1) [OF f [symmetric] True es]) simp
    then show ?thesis unfolding eq using net same_network_trans same_network_sym by blast
  next
    case False
    with FindPairRequestAugmentingPath_correct [OF f] obtain V
      where V: "V \<subseteq> {..<28}" "0 \<in> V" "27 \<notin> V" "\<forall>u \<in> V. \<forall>v. v < 28 \<and> v \<notin> V \<longrightarrow> r u v = 0" by auto
    have "CompletePairRequestFlow r par = r" using f False by (simp add: CompletePairRequestFlow.simps [of r par])
    then show ?thesis using closed_cut_least [OF V] by simp
  qed
qed

section \<open>The interface\<close>

locale flow_solver =
  fixes solve :: "residual \<Rightarrow> residual"
  assumes network: "bounded r \<Longrightarrow> same_network r (solve r)"
    and least: "bounded r \<Longrightarrow> same_network r r' \<Longrightarrow> row_sum (solve r) 0 \<le> row_sum r' 0"
begin

lemma inner_row: "bounded r \<Longrightarrow> u \<noteq> 0 \<Longrightarrow> u \<noteq> 27 \<Longrightarrow> row_sum (solve r) u = row_sum r u"
  using network by (simp add: same_network_def)

lemma pair_sum: "bounded r \<Longrightarrow> solve r u v + solve r v u = r u v + r v u"
  using network by (simp add: same_network_def)

lemma no_edge: "bounded r \<Longrightarrow> r u v = 0 \<Longrightarrow> r v u = 0 \<Longrightarrow> solve r u v = 0"
  using pair_sum [of r u v] by simp

end

interpretation request_flow: flow_solver "\<lambda>r. CompletePairRequestFlow r parent" for parent
  using CompletePairRequestFlow_correct by unfold_locales blast+

section \<open>Properties\<close>

text \<open>C3. The augmenting loop ends and computes a maximum flow: it keeps the capacity of every pair of opposite edges
  and the balance of every inner node, and no other flow of the same network leaves less residual at the source.\<close>

theorem CompletePairRequestFlow_maximal:
  assumes "bounded r"
  shows "same_network r (CompletePairRequestFlow r parent) \<and>
    (\<forall>r'. same_network r r' \<longrightarrow> row_sum (CompletePairRequestFlow r parent) 0 \<le> row_sum r' 0)"
  using request_flow.network [OF assms] request_flow.least [OF assms] by blast

theorem CompletePairRequestFlow_maximal_witness:
  "same_network (\<lambda>u v. if (u, v) = (0, 1) \<or> (u, v) = (1, 27) then 5 else 0)
     (CompletePairRequestFlow (\<lambda>u v. if (u, v) = (0, 1) \<or> (u, v) = (1, 27) then 5 else 0) (\<lambda>_. 0))"
proof -
  have "bounded (\<lambda>u v. if (u, v) = (0, 1) \<or> (u, v) = (1, 27) then 5 else 0)" by (auto simp: bounded_def)
  from CompletePairRequestFlow_maximal [OF this] show ?thesis by blast
qed

end
