(* ===== verification/Pair_Network.thy ===== *)
theory Pair_Network
  imports Pair_Flow
begin

text \<open>
  What a solved flow network says about page requests. A matrix of requests that extends a baseline
  within the pages of the local nodes and the demands of the remote nodes (\<open>feasible\<close>) is a flow of
  the network \<open>request_network\<close>; solving the network gives a feasible matrix again, one that assigns
  as many pages as any feasible matrix does. The lemmas hold for every solver that meets the
  contract \<open>flow_solver\<close>.
\<close>

type_synonym matrix = "nat \<Rightarrow> nat \<Rightarrow> nat"

text \<open>
  A feasible extension of the baseline \<open>b\<close>: only active pairs get more, no pair more than a
  32-bit count, no local node gives more than it has left, no remote node gets more than its
  effective request.
\<close>

definition feasible ::
  "nat \<Rightarrow> (nat \<Rightarrow> nat \<Rightarrow> bool) \<Rightarrow> matrix \<Rightarrow> (nat \<Rightarrow> nat) \<Rightarrow> (nat \<Rightarrow> nat) \<Rightarrow> matrix \<Rightarrow> bool" where
  "feasible n act b rem0 eff q \<longleftrightarrow>
     (\<forall>l r. b l r \<le> q l r \<and> (if act l r then q l r \<le> UINT32_MAX else q l r = b l r)) \<and>
     (\<forall>l<n. (\<Sum>r<18. q l r - b l r) \<le> rem0 l) \<and> (\<forall>r<18. (\<Sum>l<n. q l r) \<le> eff r)"

definition request_network ::
  "nat \<Rightarrow> (nat \<Rightarrow> nat \<Rightarrow> bool) \<Rightarrow> matrix \<Rightarrow> (nat \<Rightarrow> nat) \<Rightarrow> (nat \<Rightarrow> nat) \<Rightarrow> matrix \<Rightarrow> residual" where
  "request_network n act b rem0 eff q u v =
     (if u = 0 then if 1 \<le> v \<and> v \<le> n then rem0 (v - 1) - (\<Sum>r<18. q (v - 1) r - b (v - 1) r) else 0
      else if u < 9 then
        if v = 0 then if u \<le> n then \<Sum>r<18. q (u - 1) r - b (u - 1) r else 0
        else if 9 \<le> v \<and> v < 27 \<and> act (u - 1) (v - 9) then UINT32_MAX - q (u - 1) (v - 9) else 0
      else if u < 27 then
        if v = 27 then eff (u - 9) - (\<Sum>l<n. q l (u - 9))
        else if 1 \<le> v \<and> v < 9 \<and> act (v - 1) (u - 9) then q (v - 1) (u - 9) - b (v - 1) (u - 9) else 0
      else if u = 27 then if 9 \<le> v \<and> v < 27 then \<Sum>l<n. q l (v - 9) - b l (v - 9) else 0
      else 0)"

section \<open>Capacities and balances of the network\<close>

text \<open>The nodes are the source, the local nodes \<open>1 + l\<close>, the remote nodes \<open>9 + r\<close> and the sink.\<close>

lemma node_cases:
  obtains "u = (0::nat)" | l where "l < 8" "u = 1 + l" | r where "r < 18" "u = 9 + r" | "u = 27" | "28 \<le> u"
proof -
  consider "u = 0" | "1 \<le> u \<and> u < 9" | "9 \<le> u \<and> u < 27" | "u = 27" | "28 \<le> u" by linarith
  then show ?thesis
  proof cases
    case 2
    then have "u - 1 < 8" "u = 1 + (u - 1)" by auto
    then show ?thesis by (rule that(2))
  next
    case 3
    then have "u - 9 < 18" "u = 9 + (u - 9)" by auto
    then show ?thesis by (rule that(3))
  qed (use that in auto)
qed

lemma sum_nodes: "(\<Sum>v<28. f v) = f 0 + (\<Sum>l<8. f (1 + l)) + (\<Sum>r<18. f (9 + r)) + f 27" for f :: "nat \<Rightarrow> nat"
  by (simp add: eval_nat_numeral lessThan_Suc)

lemma request_network_simps [simp]:
  "request_network n act b rem0 eff q 0 0 = 0"
  "n \<le> 8 \<Longrightarrow> l < 8 \<Longrightarrow> request_network n act b rem0 eff q 0 (Suc l) = (if l < n then rem0 l - (\<Sum>r<18. q l r - b l r) else 0)"
  "n \<le> 8 \<Longrightarrow> request_network n act b rem0 eff q 0 (9 + r) = 0"
  "n \<le> 8 \<Longrightarrow> request_network n act b rem0 eff q 0 27 = 0"
  "l < 8 \<Longrightarrow> request_network n act b rem0 eff q (Suc l) 0 = (if l < n then \<Sum>r<18. q l r - b l r else 0)"
  "l < 8 \<Longrightarrow> k < 8 \<Longrightarrow> request_network n act b rem0 eff q (Suc l) (Suc k) = 0"
  "l < 8 \<Longrightarrow> r < 18 \<Longrightarrow> request_network n act b rem0 eff q (Suc l) (9 + r) = (if act l r then UINT32_MAX - q l r else 0)"
  "l < 8 \<Longrightarrow> request_network n act b rem0 eff q (Suc l) 27 = 0"
  "r < 18 \<Longrightarrow> request_network n act b rem0 eff q (9 + r) 0 = 0"
  "r < 18 \<Longrightarrow> l < 8 \<Longrightarrow> request_network n act b rem0 eff q (9 + r) (Suc l) = (if act l r then q l r - b l r else 0)"
  "r < 18 \<Longrightarrow> k < 18 \<Longrightarrow> request_network n act b rem0 eff q (9 + r) (9 + k) = 0"
  "r < 18 \<Longrightarrow> request_network n act b rem0 eff q (9 + r) 27 = eff r - (\<Sum>l<n. q l r)"
  "request_network n act b rem0 eff q 27 0 = 0"
  "l < 8 \<Longrightarrow> request_network n act b rem0 eff q 27 (Suc l) = 0"
  "r < 18 \<Longrightarrow> request_network n act b rem0 eff q 27 (9 + r) = (\<Sum>l<n. q l r - b l r)"
  "request_network n act b rem0 eff q 27 27 = 0"
  "28 \<le> u \<Longrightarrow> request_network n act b rem0 eff q u v = 0"
  "n \<le> 8 \<Longrightarrow> 28 \<le> v \<Longrightarrow> request_network n act b rem0 eff q u v = 0"
  by (auto simp: request_network_def)

lemma sum_lift: "(\<Sum>l<8. if l < n then f l else 0) = (\<Sum>l<n. f l)" if "n \<le> 8" for n and f :: "nat \<Rightarrow> nat"
proof -
  have "{..<8} \<inter> {l. l < n} = {..<n}" using that by auto
  then show ?thesis by (simp add: sum.If_cases)
qed

lemma feasible_sum_flow:
  assumes "feasible n act b rem0 eff q"
  shows "(\<Sum>l<n. q l r - b l r) + (\<Sum>l<n. b l r) = (\<Sum>l<n. q l r)"
  using assms by (simp add: feasible_def sum.distrib [symmetric])

lemma feasible_flow_act:
  "feasible n act b rem0 eff q \<Longrightarrow> (if act l r then q l r - b l r else 0) = q l r - b l r"
  by (simp add: feasible_def)

lemma feasible_pair:
  "feasible n act b rem0 eff q \<Longrightarrow> b l r \<le> q l r \<and> (if act l r then q l r \<le> UINT32_MAX else q l r = b l r)"
  by (simp add: feasible_def)

lemma feasible_u32: "feasible n act b rem0 eff q \<Longrightarrow> b l r \<le> UINT32_MAX \<Longrightarrow> q l r \<le> UINT32_MAX"
  using feasible_pair [of n act b rem0 eff q l r] by (cases "act l r") simp_all

text \<open>Capacity of a pair of opposite edges and balance of an inner node, whatever the requests are.\<close>

definition edge_capacity :: "nat \<Rightarrow> (nat \<Rightarrow> nat \<Rightarrow> bool) \<Rightarrow> matrix \<Rightarrow> (nat \<Rightarrow> nat) \<Rightarrow> (nat \<Rightarrow> nat) \<Rightarrow> residual" where
  "edge_capacity n act b rem0 eff u v =
     (if u = 0 \<and> 1 \<le> v \<and> v \<le> n then rem0 (v - 1)
      else if 1 \<le> u \<and> u < 9 \<and> 9 \<le> v \<and> v < 27 \<and> act (u - 1) (v - 9) then UINT32_MAX - b (u - 1) (v - 9)
      else if 9 \<le> u \<and> u < 27 \<and> v = 27 then eff (u - 9) - (\<Sum>l<n. b l (u - 9))
      else 0)"

lemma request_network_pair:
  assumes n: "n \<le> 8" and feas: "feasible n act b rem0 eff q"
  shows "request_network n act b rem0 eff q u v + request_network n act b rem0 eff q v u =
    edge_capacity n act b rem0 eff u v + edge_capacity n act b rem0 eff v u"
proof -
  have loc: "(\<Sum>r<18. q l r - b l r) \<le> rem0 l" if "l < n" for l using feas that by (simp add: feasible_def)
  have rmt: "(\<Sum>l<n. q l r) \<le> eff r" if "r < 18" for r using feas that by (simp add: feasible_def)
  have flow: "(\<Sum>l<n. q l r - b l r) + (eff r - (\<Sum>l<n. q l r)) = eff r - (\<Sum>l<n. b l r)" if "r < 18" for r
    using rmt [OF that] feasible_sum_flow [OF feas, of r] by simp
  have pair: "(UINT32_MAX - q l r) + (q l r - b l r) = UINT32_MAX - b l r" if "act l r" for l r
  proof -
    have "b l r \<le> q l r \<and> (if act l r then q l r \<le> UINT32_MAX else q l r = b l r)" using feas by (simp add: feasible_def)
    then show ?thesis using that by simp
  qed
  have flow': "(eff r - (\<Sum>l<n. q l r)) + (\<Sum>l<n. q l r - b l r) = eff r - (\<Sum>l<n. b l r)" if "r < 18" for r
    using flow [OF that] by simp
  have pair': "(q l r - b l r) + (UINT32_MAX - q l r) = UINT32_MAX - b l r" if "act l r" for l r
    using pair [OF that] by simp
  show ?thesis
    by (cases u rule: node_cases; cases v rule: node_cases)
      (use n loc flow flow' pair pair' in \<open>auto simp: edge_capacity_def\<close>)
qed

lemma row_sum_nodes:
  "row_sum r u = r u 0 + (\<Sum>l<8. r u (Suc l)) + (\<Sum>k<18. r u (9 + k)) + r u 27"
  by (simp add: row_sum_def sum_nodes)

lemma request_network_source:
  assumes "n \<le> 8"
  shows "row_sum (request_network n act b rem0 eff q) 0 = (\<Sum>l<n. rem0 l - (\<Sum>r<18. q l r - b l r))"
  using assms sum_lift [OF assms, of "\<lambda>l. rem0 l - (\<Sum>r<18. q l r - b l r)"] by (simp add: row_sum_nodes)

lemma request_network_local:
  assumes "n \<le> 8" and feas: "feasible n act b rem0 eff q" and "l < n"
  shows "row_sum (request_network n act b rem0 eff q) (Suc l) = (\<Sum>r<18. if act l r then UINT32_MAX - b l r else 0)"
proof -
  have le: "b l r \<le> q l r \<and> (if act l r then q l r \<le> UINT32_MAX else q l r = b l r)" for r
    using feas by (simp add: feasible_def)
  have "row_sum (request_network n act b rem0 eff q) (Suc l) =
      (\<Sum>r<18. q l r - b l r) + (\<Sum>r<18. if act l r then UINT32_MAX - q l r else 0)"
    using assms by (simp add: row_sum_nodes)
  also have "\<dots> = (\<Sum>r<18. if act l r then UINT32_MAX - b l r else 0)"
    unfolding sum.distrib [symmetric]
  proof (rule sum.cong [OF refl])
    fix r
    show "q l r - b l r + (if act l r then UINT32_MAX - q l r else 0) = (if act l r then UINT32_MAX - b l r else 0)"
      using le [of r] by (cases "act l r") auto
  qed
  finally show ?thesis .
qed

lemma request_network_remote:
  assumes "n \<le> 8" and act: "\<forall>l r. act l r \<longrightarrow> l < n \<and> r < 18" and feas: "feasible n act b rem0 eff q" and "r < 18"
  shows "row_sum (request_network n act b rem0 eff q) (9 + r) = eff r - (\<Sum>l<n. b l r)"
proof -
  have "(if act l r then q l r - b l r else 0) = (if l < n then q l r - b l r else 0)" for l
  proof (cases "act l r")
    case False
    then have "q l r - b l r = 0" using feasible_flow_act [OF feas, of l r] by simp
    with False show ?thesis by simp
  qed (use act in simp)
  then have "row_sum (request_network n act b rem0 eff q) (9 + r) = (\<Sum>l<n. q l r - b l r) + (eff r - (\<Sum>l<n. q l r))"
    using assms(1,4) sum_lift [OF assms(1), of "\<lambda>l. q l r - b l r"] by (simp add: row_sum_nodes)
  also have "\<dots> = eff r - (\<Sum>l<n. b l r)"
    using feasible_sum_flow [OF feas, of r] feas \<open>r < 18\<close> by (auto simp: feasible_def)
  finally show ?thesis .
qed

lemma request_network_idle:
  assumes "n \<le> 8" and "\<forall>l r. act l r \<longrightarrow> l < n \<and> r < 18" and "n \<le> l" and "l < 8"
  shows "row_sum (request_network n act b rem0 eff q) (Suc l) = 0"
proof -
  have "\<not> act l r" for r using assms(2,3) by (meson leD)
  then show ?thesis using assms(3,4) by (simp add: row_sum_nodes)
qed

lemma request_network_same:
  assumes n: "n \<le> 8" and act: "\<forall>l r. act l r \<longrightarrow> l < n \<and> r < 18"
    and q: "feasible n act b rem0 eff q" and p: "feasible n act b rem0 eff p"
  shows "same_network (request_network n act b rem0 eff q) (request_network n act b rem0 eff p)"
  unfolding same_network_def
proof (intro conjI allI impI)
  fix u v
  show "request_network n act b rem0 eff p u v + request_network n act b rem0 eff p v u =
      request_network n act b rem0 eff q u v + request_network n act b rem0 eff q v u"
    by (simp only: request_network_pair [OF n q] request_network_pair [OF n p])
next
  fix u :: nat
  assume u: "u \<noteq> 0 \<and> u \<noteq> 27"
  show "row_sum (request_network n act b rem0 eff p) u = row_sum (request_network n act b rem0 eff q) u"
  proof (cases u rule: node_cases)
    case (2 l)
    then show ?thesis
      using n act request_network_local [OF n q] request_network_local [OF n p] request_network_idle [OF n act]
      by (cases "l < n") simp_all
  next
    case (3 r)
    then show ?thesis using request_network_remote [OF n act q] request_network_remote [OF n act p] by simp
  next
    case 5
    then show ?thesis by (simp add: row_sum_def)
  qed (use u in auto)
qed

lemma request_network_bounded:
  assumes n: "n \<le> 8" and feas: "feasible n act b rem0 eff q"
    and "\<And>l. l < n \<Longrightarrow> rem0 l < 2 ^ 63" and "\<And>r. r < 18 \<Longrightarrow> eff r < 2 ^ 63"
  shows "bounded (request_network n act b rem0 eff q)"
proof -
  have "edge_capacity n act b rem0 eff u v < 2 ^ 63" for u v
  proof -
    have "rem0 (v - 1) < 2 ^ 63" if "1 \<le> v \<and> v \<le> n" using that by (intro assms(3)) auto
    moreover have "eff (u - 9) - (\<Sum>l<n. b l (u - 9)) < 2 ^ 63" if "9 \<le> u \<and> u < 27"
    proof -
      have "u - 9 < 18" using that by auto
      then show ?thesis by (intro less_imp_diff_less [OF assms(4)])
    qed
    ultimately show ?thesis by (simp add: edge_capacity_def less_imp_diff_less)
  qed
  then have "edge_capacity n act b rem0 eff u v + edge_capacity n act b rem0 eff v u < 2 ^ 63 + 2 ^ 63" for u v
    by (intro add_strict_mono)
  then show ?thesis unfolding bounded_def request_network_pair [OF n feas] by simp
qed

section \<open>The solved network\<close>

text \<open>The requests read off a residual matrix.\<close>

definition solved_requests :: "nat \<Rightarrow> matrix \<Rightarrow> residual \<Rightarrow> matrix" where
  "solved_requests n b res l r = (if l < n \<and> r < 18 then b l r + res (9 + r) (Suc l) else b l r)"

definition total_requests :: "nat \<Rightarrow> matrix \<Rightarrow> nat" where
  "total_requests n q = (\<Sum>l<n. \<Sum>r<18. q l r)"

text \<open>
  What a residual matrix of the same network looks like: \<open>res\<close> is a flow whose requests are
  \<open>solved_requests\<close>.
\<close>

lemma network_residual:
  assumes n: "n \<le> 8" and act: "\<forall>l r. act l r \<longrightarrow> l < n \<and> r < 18"
    and base: "\<And>l r. b l r \<le> UINT32_MAX" and q: "feasible n act b rem0 eff q"
    and net: "same_network (request_network n act b rem0 eff q) res"
  shows "l < n \<Longrightarrow> r < 18 \<Longrightarrow> \<not> act l r \<Longrightarrow> res (9 + r) (Suc l) = 0"
    and "l < n \<Longrightarrow> r < 18 \<Longrightarrow> act l r \<Longrightarrow> res (Suc l) (9 + r) + res (9 + r) (Suc l) = UINT32_MAX - b l r"
    and "l < n \<Longrightarrow> (\<Sum>r<18. res (9 + r) (Suc l)) = res (Suc l) 0"
    and "l < n \<Longrightarrow> res 0 (Suc l) + res (Suc l) 0 = rem0 l"
    and "r < 18 \<Longrightarrow> (\<Sum>l<n. res (9 + r) (Suc l)) + res (9 + r) 27 = eff r - (\<Sum>l<n. b l r)"
    and "row_sum res 0 = (\<Sum>l<n. res 0 (Suc l))"
proof -
  have pair: "res u v + res v u = edge_capacity n act b rem0 eff u v + edge_capacity n act b rem0 eff v u" for u v
    using net unfolding same_network_def request_network_pair [OF n q] by blast
  have row: "row_sum res u = row_sum (request_network n act b rem0 eff q) u" if "u \<noteq> 0" "u \<noteq> 27" for u
    using net that by (simp add: same_network_def)
  have none: "res u v = 0" if "edge_capacity n act b rem0 eff u v = 0" "edge_capacity n act b rem0 eff v u = 0" for u v
    using pair [of u v] that by simp
  have z: "res 0 0 = 0" "\<And>l. l < 8 \<Longrightarrow> \<not> l < n \<Longrightarrow> res 0 (Suc l) = 0" "\<And>r. r < 18 \<Longrightarrow> res 0 (9 + r) = 0" "res 0 27 = 0"
    "\<And>l k. l < 8 \<Longrightarrow> k < 8 \<Longrightarrow> res (Suc l) (Suc k) = 0" "\<And>l. l < 8 \<Longrightarrow> res (Suc l) 27 = 0"
    "\<And>r. r < 18 \<Longrightarrow> res (9 + r) 0 = 0" "\<And>r k. r < 18 \<Longrightarrow> k < 18 \<Longrightarrow> res (9 + r) (9 + k) = 0"
    "\<And>l r. l < 8 \<Longrightarrow> r < 18 \<Longrightarrow> \<not> act l r \<Longrightarrow> res (9 + r) (Suc l) = 0"
    "\<And>l r. l < 8 \<Longrightarrow> r < 18 \<Longrightarrow> \<not> act l r \<Longrightarrow> res (Suc l) (9 + r) = 0"
    using n by (auto intro!: none simp: edge_capacity_def)
  show "l < n \<Longrightarrow> r < 18 \<Longrightarrow> \<not> act l r \<Longrightarrow> res (9 + r) (Suc l) = 0" using z(9) n by simp
  have 2: "res (Suc l) (9 + r) + res (9 + r) (Suc l) = UINT32_MAX - b l r" if "l < n" "r < 18" "act l r" for l r
    using pair [of "Suc l" "9 + r"] that n by (simp add: edge_capacity_def)
  then show "l < n \<Longrightarrow> r < 18 \<Longrightarrow> act l r \<Longrightarrow> res (Suc l) (9 + r) + res (9 + r) (Suc l) = UINT32_MAX - b l r" .
  show "l < n \<Longrightarrow> res 0 (Suc l) + res (Suc l) 0 = rem0 l"
    using pair [of 0 "Suc l"] n by (simp add: edge_capacity_def)
  show "row_sum res 0 = (\<Sum>l<n. res 0 (Suc l))"
  proof -
    have "(\<Sum>l<8. res 0 (Suc l)) = (\<Sum>l<8. if l < n then res 0 (Suc l) else 0)"
      using z(2) by (intro sum.cong) auto
    then show ?thesis using z(1,3,4) sum_lift [OF n, of "\<lambda>l. res 0 (Suc l)"] by (simp add: row_sum_nodes)
  qed
  show "(\<Sum>r<18. res (9 + r) (Suc l)) = res (Suc l) 0" if l: "l < n"
  proof -
    have "row_sum res (Suc l) = res (Suc l) 0 + (\<Sum>r<18. res (Suc l) (9 + r))"
      using z(5,6) l n by (simp add: row_sum_nodes)
    moreover have "row_sum res (Suc l) = (\<Sum>r<18. if act l r then UINT32_MAX - b l r else 0)"
      using row [of "Suc l"] request_network_local [OF n q l] l n by simp
    moreover have "(\<Sum>r<18. if act l r then UINT32_MAX - b l r else 0) = (\<Sum>r<18. res (Suc l) (9 + r) + res (9 + r) (Suc l))"
      using 2 z(9,10) l n by (intro sum.cong) auto
    ultimately show ?thesis by (simp add: sum.distrib)
  qed
  show "(\<Sum>l<n. res (9 + r) (Suc l)) + res (9 + r) 27 = eff r - (\<Sum>l<n. b l r)" if r: "r < 18"
  proof -
    have "\<not> act l r" if "\<not> l < n" for l using act that by blast
    then have "(\<Sum>l<8. res (9 + r) (Suc l)) = (\<Sum>l<8. if l < n then res (9 + r) (Suc l) else 0)"
      using z(9) r by (intro sum.cong) auto
    then have "row_sum res (9 + r) = (\<Sum>l<n. res (9 + r) (Suc l)) + res (9 + r) 27"
      using z(7,8) r sum_lift [OF n, of "\<lambda>l. res (9 + r) (Suc l)"] by (simp add: row_sum_nodes)
    then show ?thesis using row [of "9 + r"] request_network_remote [OF n act q r] r by simp
  qed
qed

lemma solved_requests_feasible:
  assumes n: "n \<le> 8" and act: "\<forall>l r. act l r \<longrightarrow> l < n \<and> r < 18"
    and base: "\<And>l r. b l r \<le> UINT32_MAX" and q: "feasible n act b rem0 eff q"
    and net: "same_network (request_network n act b rem0 eff q) res"
  shows "feasible n act b rem0 eff (solved_requests n b res)"
    and "row_sum res 0 = (\<Sum>l<n. rem0 l - (\<Sum>r<18. solved_requests n b res l r - b l r))"
proof -
  note res = network_residual [OF n act base q net]
  let ?q = "solved_requests n b res"
  have flow: "(\<Sum>r<18. ?q l r - b l r) = res (Suc l) 0" if "l < n" for l
    using res(3) [OF that] that by (simp add: solved_requests_def)
  have pair: "b l r \<le> ?q l r \<and> (if act l r then ?q l r \<le> UINT32_MAX else ?q l r = b l r)" for l r
    using act res(1,2) [of l r] base [of l r] by (auto simp: solved_requests_def)
  have "(\<Sum>l<n. ?q l r) \<le> eff r" if "r < 18" for r
  proof -
    have "(\<Sum>l<n. b l r) \<le> (\<Sum>l<n. q l r)" using q by (intro sum_mono) (simp add: feasible_def)
    also have "\<dots> \<le> eff r" using q that by (simp add: feasible_def)
    finally have "(\<Sum>l<n. b l r) \<le> eff r" .
    moreover have "(\<Sum>l<n. ?q l r) = (\<Sum>l<n. b l r) + (\<Sum>l<n. res (9 + r) (Suc l))"
      using that by (simp add: solved_requests_def sum.distrib)
    ultimately show ?thesis using res(5) [OF that] by linarith
  qed
  moreover have "(\<Sum>r<18. ?q l r - b l r) \<le> rem0 l" if "l < n" for l
    unfolding flow [OF that] res(4) [OF that, symmetric] by (rule le_add2)
  ultimately show "feasible n act b rem0 eff ?q" unfolding feasible_def using pair by blast
  have "rem0 l - (\<Sum>r<18. ?q l r - b l r) = res 0 (Suc l)" if "l < n" for l
    using flow [OF that] res(4) [OF that] by simp
  then show "row_sum res 0 = (\<Sum>l<n. rem0 l - (\<Sum>r<18. ?q l r - b l r))" by (simp add: res(6))
qed

lemma feasible_total:
  assumes "feasible n act b rem0 eff p"
  shows "total_requests n p + (\<Sum>l<n. rem0 l - (\<Sum>r<18. p l r - b l r)) = (\<Sum>l<n. rem0 l) + total_requests n b"
proof -
  have "(\<Sum>r<18. p l r) + (rem0 l - (\<Sum>r<18. p l r - b l r)) = rem0 l + (\<Sum>r<18. b l r)" if "l < n" for l
  proof -
    have "(\<Sum>r<18. p l r - b l r) + (\<Sum>r<18. b l r) = (\<Sum>r<18. p l r)"
      using assms by (simp add: feasible_def sum.distrib [symmetric])
    moreover have "(\<Sum>r<18. p l r - b l r) \<le> rem0 l" using assms that by (simp add: feasible_def)
    ultimately show ?thesis by linarith
  qed
  then show ?thesis by (simp add: total_requests_def sum.distrib [symmetric])
qed

context flow_solver
begin

text \<open>Solving the network of a feasible matrix gives a feasible matrix with the largest total.\<close>

lemma solved_requests_maximal:
  assumes n: "n \<le> 8" and act: "\<forall>l r. act l r \<longrightarrow> l < n \<and> r < 18"
    and base: "\<And>l r. b l r \<le> UINT32_MAX" and q: "feasible n act b rem0 eff q"
    and rem0: "\<And>l. l < n \<Longrightarrow> rem0 l < 2 ^ 63" and eff: "\<And>r. r < 18 \<Longrightarrow> eff r < 2 ^ 63"
    and q': "q' = solved_requests n b (solve (request_network n act b rem0 eff q))"
  shows "feasible n act b rem0 eff q' \<and>
    (\<forall>p. feasible n act b rem0 eff p \<longrightarrow> total_requests n p \<le> total_requests n q')"
proof -
  let ?net = "request_network n act b rem0 eff"
  have b: "bounded (?net q)" by (rule request_network_bounded [OF n q rem0 eff])
  note solved = solved_requests_feasible [OF n act base q network [OF b], folded q']
  have "total_requests n p \<le> total_requests n q'" if p: "feasible n act b rem0 eff p" for p
  proof -
    have "row_sum (solve (?net q)) 0 \<le> row_sum (?net p) 0"
      by (rule least [OF b request_network_same [OF n act q p]])
    then have "(\<Sum>l<n. rem0 l - (\<Sum>r<18. q' l r - b l r)) \<le> (\<Sum>l<n. rem0 l - (\<Sum>r<18. p l r - b l r))"
      by (simp only: solved(2) request_network_source [OF n])
    then show ?thesis using feasible_total [OF p] feasible_total [OF solved(1)] by linarith
  qed
  then show ?thesis using solved(1) by blast
qed

end

end
