(* ===== verification/Pair_Request.thy ===== *)
theory Pair_Request
  imports Pair_Account Target_Config Pair_Network
begin

unbundle bit_operations_syntax

text \<open>
  The Pair requests of one process, \<^verbatim>\<open>plugins/smap/src/user/manage/manage_pair.c\<close> lines 186 to 409
  and 465 to 610: from the migrate-out configuration of a process and one calibrated snapshot of its
  pages, how many pages each pair of a local and a remote node is asked to hold.

  A page matrix (\<^verbatim>\<open>uint64_t [LOCAL_NUMA_NUM][REMOTE_NUMA_NUM]\<close>) is a function of the local and the
  remote index. The pointer arguments are values here, so the null checks have no counterpart.
\<close>

section \<open>Splitting pages by weight\<close>

definition PairRequestMulDiv :: "nat \<Rightarrow> nat \<Rightarrow> nat \<Rightarrow> nat" where
  "PairRequestMulDiv value weight t = (if t = 0 then 0 else value * weight div t mod 2 ^ 64)"

definition DistributePairRequestPages :: "nat \<Rightarrow> (nat \<Rightarrow> nat) \<Rightarrow> nat \<Rightarrow> (nat \<Rightarrow> nat) \<Rightarrow> nat \<Rightarrow> nat" where
  "DistributePairRequestPages pages weights count allocation =
     (let weightTotal = loop_sum weights [0..<count] 0;
          pages = min pages weightTotal;
          (allocation, allocated) =
            fold (\<lambda>i (allocation, allocated).
              let allocation = allocation(i := PairRequestMulDiv pages (weights i) weightTotal)
              in (allocation, add64 allocated (allocation i)))
            [0..<count] (allocation, 0);
          (allocation, allocated) =
            fold (\<lambda>i (allocation, allocated).
              if allocated < pages \<and> \<not> allocation i \<ge> weights i
              then (allocation(i := add64 (allocation i) 1), add64 allocated 1) else (allocation, allocated))
            [0..<count] (allocation, allocated)
      in allocation)"

section \<open>Aggregate request\<close>

fun validate_request_targets ::
  "ProcessTargetConfig \<Rightarrow> PairRequestContext \<Rightarrow> nat list \<Rightarrow> (nat \<Rightarrow> bool) \<Rightarrow> nat \<Rightarrow> errno + nat" where
  "validate_request_targets config context [] remoteSeen totalRatio = Inr totalRatio"
| "validate_request_targets config context (i # is) remoteSeen totalRatio =
     (case RemoteNidToIndex (rt_remoteNid (tc_targets config i)) (rc_nrLocalNuma context) of
        Inl e \<Rightarrow> Inl EINVAL
      | Inr remoteIndex \<Rightarrow>
          if remoteSeen remoteIndex then Inl EINVAL
          else
            let remoteSeen = remoteSeen(remoteIndex := True)
            in if tc_migrateMode config = MIG_RATIO_MODE then
                 if unat (rt_ratio (tc_targets config i)) > 100 then Inl EINVAL
                 else validate_request_targets config context is remoteSeen
                        (add64 totalRatio (unat (rt_ratio (tc_targets config i))))
               else if unat (rt_memSizeKB (tc_targets config i)) mod unat (rc_pageSizeKB context) \<noteq> 0 \<or>
                       unat (rt_memSizeKB (tc_targets config i)) div unat (rc_pageSizeKB context) > UINT32_MAX
               then Inl EINVAL
               else validate_request_targets config context is remoteSeen totalRatio)"

definition ValidatePairRequestInput :: "ProcessAttr \<Rightarrow> PairRequestContext \<Rightarrow> errno + unit" where
  "ValidatePairRequestInput attr context =
     (let config = pa_targetConfig attr
      in if rc_nrLocalNuma context \<le> 0 \<or> rc_nrLocalNuma context > int LOCAL_NUMA_NUM \<or> rc_pageSizeKB context = 0 \<or>
            rc_nrLocalNuma context + int REMOTE_NUMA_NUM > int MAX_NODES
         then Inl EINVAL
         else if tc_count config > REMOTE_NUMA_NUM \<or>
                 (tc_migrateMode config \<noteq> MIG_RATIO_MODE \<and> tc_migrateMode config \<noteq> MIG_MEMSIZE_MODE)
         then Inl EINVAL
         else case validate_request_targets config context [0..<tc_count config] (\<lambda>_. False) 0 of
                Inl e \<Rightarrow> Inl e
              | Inr totalRatio \<Rightarrow>
                  if tc_migrateMode config = MIG_RATIO_MODE \<and> totalRatio > 100 then Inl EINVAL else Inr ())"

definition BuildManagedTotalPages :: "ProcessAttr \<Rightarrow> int \<Rightarrow> nat" where
  "BuildManagedTotalPages attr nrLocalNuma =
     loop_sum (\<lambda>remote. unat (nrPages attr (nat nrLocalNuma + remote))) [0..<REMOTE_NUMA_NUM]
       (fold (\<lambda>local t. if InL1 (managedMask attr) (int local) then add64 t (unat (nrPages attr local)) else t)
         [0..<nat nrLocalNuma] 0)"

definition BuildRequestedRemotePages ::
  "ProcessAttr \<Rightarrow> PairRequestContext \<Rightarrow> PairRequestSummary \<Rightarrow> PairRequestSummary" where
  "BuildRequestedRemotePages attr context summary =
     (let config = pa_targetConfig attr
      in fold (\<lambda>i summary.
           case RemoteNidToIndex (rt_remoteNid (tc_targets config i)) (rc_nrLocalNuma context) of
             Inl e \<Rightarrow> summary
           | Inr remoteIndex \<Rightarrow>
               summary\<lparr>rs_requestedRemotePages := (rs_requestedRemotePages summary)(remoteIndex :=
                 (if tc_migrateMode config = MIG_RATIO_MODE
                  then PairRequestMulDiv (rs_managedTotalPages summary) (unat (rt_ratio (tc_targets config i))) 100
                  else unat (rt_memSizeKB (tc_targets config i)) div unat (rc_pageSizeKB context)))\<rparr>)
         [0..<tc_count config] summary)"

definition BuildEffectiveRemotePages ::
  "ProcessAttr \<Rightarrow> PairRequestContext \<Rightarrow> PairRequestSummary \<Rightarrow> PairRequestSummary" where
  "BuildEffectiveRemotePages attr context summary =
     (let baseline = (\<lambda>remote. min (unat (nrPages attr (nat (rc_nrLocalNuma context) + remote)))
            (rs_requestedRemotePages summary remote));
          (effective, remainingDemand, baselineTotal, demandTotal) =
            fold (\<lambda>remote (effective, remainingDemand, baselineTotal, demandTotal).
              let demand = sub64 (rs_requestedRemotePages summary remote) (baseline remote)
              in (effective(remote := baseline remote), remainingDemand(remote := demand),
                  add64 baselineTotal (baseline remote), add64 demandTotal demand))
            [0..<REMOTE_NUMA_NUM] (rs_effectiveRemotePages summary, (\<lambda>_. 0), 0, 0);
          availablePages = (if rs_managedTotalPages summary > baselineTotal
            then sub64 (rs_managedTotalPages summary) baselineTotal else 0);
          pagesToAllocate = min availablePages demandTotal;
          allocation = DistributePairRequestPages pagesToAllocate remainingDemand REMOTE_NUMA_NUM (\<lambda>_. 0)
      in summary\<lparr>rs_effectiveRemotePages :=
           fold (\<lambda>remote effective. effective(remote := add64 (effective remote) (allocation remote)))
             [0..<REMOTE_NUMA_NUM] effective\<rparr>)"

section \<open>Assignment to pairs\<close>

definition BuildEligiblePairMask :: "ProcessAttr \<Rightarrow> PairRequestContext \<Rightarrow> nat \<Rightarrow> u32" where
  "BuildEligiblePairMask attr context remote =
     managedMask attr AND rc_capacityLocalMask context remote AND (push_bit (nat (rc_nrLocalNuma context)) 1 - 1)"

definition preserve_remote :: "ProcessAttr \<Rightarrow> PairRequestContext \<Rightarrow> PairRequestSummary \<Rightarrow> nat \<Rightarrow> matrix \<Rightarrow> matrix" where
  "preserve_remote attr context summary remote pairRequests =
     (let n = nat (rc_nrLocalNuma context);
          eligibleMask = BuildEligiblePairMask attr context remote;
          (accounts, accountTotal) =
            fold (\<lambda>local (accounts, accountTotal).
              if \<not> InL1 eligibleMask (int local) then (accounts, accountTotal)
              else (accounts(local := unat (account attr local remote)),
                    add64 accountTotal (unat (account attr local remote))))
            [0..<n] ((\<lambda>_. 0), 0);
          target = rs_effectiveRemotePages summary remote;
          values = (if accountTotal \<le> target then accounts
                    else DistributePairRequestPages target accounts n (\<lambda>_. 0))
      in fold (\<lambda>local pairRequests. pairRequests(local := (pairRequests local)(remote := values local)))
           [0..<n] pairRequests)"

definition PreservePairAccounts ::
  "ProcessAttr \<Rightarrow> PairRequestContext \<Rightarrow> PairRequestSummary \<Rightarrow> matrix \<Rightarrow> matrix" where
  "PreservePairAccounts attr context summary pairRequests =
     fold (preserve_remote attr context summary) [0..<REMOTE_NUMA_NUM] pairRequests"

definition BuildLocalRemainingPages ::
  "ProcessAttr \<Rightarrow> PairRequestContext \<Rightarrow> matrix \<Rightarrow> (nat \<Rightarrow> nat) \<Rightarrow> nat \<Rightarrow> nat" where
  "BuildLocalRemainingPages attr context pairRequests remainingPages =
     fold (\<lambda>local remainingPages.
       let allocatablePages = loop_sum (\<lambda>remote. unat (account attr local remote)) [0..<REMOTE_NUMA_NUM]
             (unat (nrPages attr local));
           requestedPages = loop_sum (\<lambda>remote. pairRequests local remote) [0..<REMOTE_NUMA_NUM] 0
       in remainingPages(local := (if allocatablePages > requestedPages
            then sub64 allocatablePages requestedPages else 0)))
     [0..<nat (rc_nrLocalNuma context)] remainingPages"

definition BuildActivePairMask :: "ProcessAttr \<Rightarrow> PairRequestContext \<Rightarrow> nat \<Rightarrow> u32" where
  "BuildActivePairMask attr context remote = BuildEligiblePairMask attr context remote AND residentMask attr"

definition AllocateRemotePairRequest ::
  "ProcessAttr \<Rightarrow> PairRequestContext \<Rightarrow> nat \<Rightarrow> nat \<Rightarrow> matrix \<times> (nat \<Rightarrow> nat) \<Rightarrow> matrix \<times> (nat \<Rightarrow> nat)" where
  "AllocateRemotePairRequest attr context remote requestedPages st =
     (let (pairRequests, remainingPages) = st;
          n = nat (rc_nrLocalNuma context);
          activeMask = BuildActivePairMask attr context remote;
          (currentPages, weights) =
            fold (\<lambda>local (currentPages, weights).
              let currentPages = add64 currentPages (pairRequests local remote)
              in if \<not> InL1 activeMask (int local) \<or> nrPages attr local = 0 \<or> pairRequests local remote \<ge> UINT32_MAX
                 then (currentPages, weights)
                 else let pairRoom = sub64 UINT32_MAX (pairRequests local remote)
                      in (currentPages, weights(local := min (remainingPages local) pairRoom)))
            [0..<n] (0, (\<lambda>_. 0))
      in if currentPages \<ge> requestedPages then (pairRequests, remainingPages)
         else
           let allocation = DistributePairRequestPages (sub64 requestedPages currentPages) weights n (\<lambda>_. 0)
           in fold (\<lambda>local (pairRequests, remainingPages).
                (pairRequests(local := (pairRequests local)(remote := add64 (pairRequests local remote) (allocation local))),
                 remainingPages(local := sub64 (remainingPages local) (allocation local))))
              [0..<n] (pairRequests, remainingPages))"

text \<open>
  The loops of \<^verbatim>\<open>CompletePairRequestAllocation\<close> that fill the residual matrix; each returns
  \<^verbatim>\<open>-ERANGE\<close> when the requests are not an extension of the baseline. The state of the first is the
  matrix, \<^verbatim>\<open>localFlow\<close> and \<^verbatim>\<open>remoteFlow\<close>.
\<close>

definition pair_active :: "ProcessAttr \<Rightarrow> PairRequestContext \<Rightarrow> matrix \<Rightarrow> nat \<Rightarrow> nat \<Rightarrow> bool" where
  "pair_active attr context baseline local remote \<longleftrightarrow>
     InL1 (BuildActivePairMask attr context remote) (int local) \<and> unat (nrPages attr local) > 0 \<and>
     baseline local remote < UINT32_MAX"

definition set2 :: "nat \<Rightarrow> nat \<Rightarrow> nat \<Rightarrow> matrix \<Rightarrow> matrix" where
  "set2 i j v m = m(i := (m i)(j := v))"

fun fill_local_row ::
  "(nat \<Rightarrow> nat \<Rightarrow> bool) \<Rightarrow> matrix \<Rightarrow> matrix \<Rightarrow> nat \<Rightarrow> nat list \<Rightarrow>
   residual \<times> nat \<times> (nat \<Rightarrow> nat) \<Rightarrow> errno + residual \<times> nat \<times> (nat \<Rightarrow> nat)" where
  "fill_local_row active baseline pairRequests local [] st = Inr st"
| "fill_local_row active baseline pairRequests local (remote # rs) (residual, localFlow, remoteFlow) =
     (if pairRequests local remote < baseline local remote then Inl ERANGE
      else
        let flow = sub64 (pairRequests local remote) (baseline local remote)
        in if flow > 0 \<and> \<not> active local remote then Inl ERANGE
           else if \<not> active local remote
           then fill_local_row active baseline pairRequests local rs (residual, localFlow, remoteFlow)
           else
             let localNode = PAIR_FLOW_LOCAL_BASE + local;
                 remoteNode = PAIR_FLOW_REMOTE_BASE + remote
             in fill_local_row active baseline pairRequests local rs
                  (set2 remoteNode localNode flow
                     (set2 localNode remoteNode (sub64 UINT32_MAX (pairRequests local remote)) residual),
                   add64 localFlow flow, remoteFlow(remote := add64 (remoteFlow remote) flow)))"

fun fill_locals ::
  "(nat \<Rightarrow> nat \<Rightarrow> bool) \<Rightarrow> matrix \<Rightarrow> matrix \<Rightarrow> (nat \<Rightarrow> nat) \<Rightarrow> nat list \<Rightarrow>
   residual \<times> (nat \<Rightarrow> nat) \<Rightarrow> errno + residual \<times> (nat \<Rightarrow> nat)" where
  "fill_locals active baseline pairRequests remainingPages [] st = Inr st"
| "fill_locals active baseline pairRequests remainingPages (local # ls) (residual, remoteFlow) =
     (case fill_local_row active baseline pairRequests local [0..<REMOTE_NUMA_NUM] (residual, 0, remoteFlow) of
        Inl e \<Rightarrow> Inl e
      | Inr (residual, localFlow, remoteFlow) \<Rightarrow>
          let localNode = PAIR_FLOW_LOCAL_BASE + local
          in fill_locals active baseline pairRequests remainingPages ls
               (set2 localNode PAIR_FLOW_SOURCE localFlow
                  (set2 PAIR_FLOW_SOURCE localNode (remainingPages local) residual), remoteFlow))"

fun fill_remotes ::
  "nat \<Rightarrow> PairRequestSummary \<Rightarrow> matrix \<Rightarrow> (nat \<Rightarrow> nat) \<Rightarrow> nat list \<Rightarrow> residual \<Rightarrow> errno + residual" where
  "fill_remotes n summary pairRequests remoteFlow [] residual = Inr residual"
| "fill_remotes n summary pairRequests remoteFlow (remote # rs) residual =
     (let currentPages = loop_sum (\<lambda>local. pairRequests local remote) [0..<n] 0
      in if currentPages > rs_effectiveRemotePages summary remote then Inl ERANGE
         else
           let remoteNode = PAIR_FLOW_REMOTE_BASE + remote
           in fill_remotes n summary pairRequests remoteFlow rs
                (set2 PAIR_FLOW_SINK remoteNode (remoteFlow remote)
                   (set2 remoteNode PAIR_FLOW_SINK
                      (sub64 (rs_effectiveRemotePages summary remote) currentPages) residual)))"

definition CompletePairRequestAllocation ::
  "ProcessAttr \<Rightarrow> PairRequestContext \<Rightarrow> PairRequestSummary \<Rightarrow> matrix \<Rightarrow> matrix \<Rightarrow> (nat \<Rightarrow> nat) \<Rightarrow> errno + matrix" where
  "CompletePairRequestAllocation attr context summary baseline pairRequests remainingPages =
     (let n = nat (rc_nrLocalNuma context)
      in case fill_locals (pair_active attr context baseline) baseline pairRequests remainingPages [0..<n]
                ((\<lambda>_ _. 0), (\<lambda>_. 0)) of
           Inl e \<Rightarrow> Inl e
         | Inr (residual, remoteFlow) \<Rightarrow>
             case fill_remotes n summary pairRequests remoteFlow [0..<REMOTE_NUMA_NUM] residual of
               Inl e \<Rightarrow> Inl e
             | Inr residual \<Rightarrow>
                 let residual = CompletePairRequestFlow residual (\<lambda>_. 0)
                 in Inr (fold (\<lambda>local pairRequests.
                      fold (\<lambda>remote pairRequests.
                        set2 local remote (add64 (baseline local remote)
                          (residual (PAIR_FLOW_REMOTE_BASE + remote) (PAIR_FLOW_LOCAL_BASE + local))) pairRequests)
                      [0..<REMOTE_NUMA_NUM] pairRequests)
                    [0..<n] pairRequests))"

section \<open>The requested targets\<close>

fun build_unassigned :: "nat \<Rightarrow> matrix \<Rightarrow> nat list \<Rightarrow> PairRequestSummary \<Rightarrow> errno + PairRequestSummary" where
  "build_unassigned n pairRequests [] result = Inr result"
| "build_unassigned n pairRequests (remote # rs) result =
     (let assignedPages = loop_sum (\<lambda>local. pairRequests local remote) [0..<n] 0
      in if assignedPages > rs_effectiveRemotePages result remote then Inl ERANGE
         else build_unassigned n pairRequests rs
                (result\<lparr>rs_unassignedRequestedPages := (rs_unassignedRequestedPages result)(remote :=
                   sub64 (rs_effectiveRemotePages result remote) assignedPages)\<rparr>))"

definition requested_pairs :: "ProcessAttr \<Rightarrow> nat \<Rightarrow> matrix \<Rightarrow> (nat \<times> nat) list" where
  "requested_pairs attr n pairRequests =
     filter (\<lambda>(local, remote). unat (account attr local remote) > 0 \<or> pairRequests local remote > 0)
       (List.product [0..<n] [0..<REMOTE_NUMA_NUM])"

text \<open>
  Both nested loops at the end of \<^verbatim>\<open>BuildPairRequestedTargets\<close> visit the pairs in the same order and
  skip the same ones: \<open>requested_pairs\<close> lists the others. \<^verbatim>\<open>memcpy_s\<close> copies between arrays of one
  size and cannot fail.
\<close>

definition BuildPairRequestedTargets ::
  "ProcessAttr \<Rightarrow> PairRequestContext \<Rightarrow> nat \<Rightarrow> errno + PairTarget list \<times> PairRequestSummary" where
  "BuildPairRequestedTargets attr context targetCap =
     (case ValidatePairRequestInput attr context of
        Inl e \<Rightarrow> Inl e
      | Inr _ \<Rightarrow>
          let n = nat (rc_nrLocalNuma context);
              result = PairRequestSummary_zero\<lparr>rs_managedTotalPages := BuildManagedTotalPages attr (rc_nrLocalNuma context)\<rparr>;
              result = BuildRequestedRemotePages attr context result;
              result = BuildEffectiveRemotePages attr context result;
              baseline = PreservePairAccounts attr context result (\<lambda>_ _. 0);
              remainingPages = BuildLocalRemainingPages attr context baseline (\<lambda>_. 0);
              (pairRequests, remainingPages) =
                fold (\<lambda>remote. AllocateRemotePairRequest attr context remote (rs_effectiveRemotePages result remote))
                  [0..<REMOTE_NUMA_NUM] (baseline, remainingPages)
          in case CompletePairRequestAllocation attr context result baseline pairRequests remainingPages of
               Inl e \<Rightarrow> Inl e
             | Inr pairRequests \<Rightarrow>
                 case build_unassigned n pairRequests [0..<REMOTE_NUMA_NUM] result of
                   Inl e \<Rightarrow> Inl e
                 | Inr result \<Rightarrow>
                     if length (requested_pairs attr n pairRequests) > targetCap then Inl ENOSPC
                     else Inr (map (\<lambda>(local, remote).
                            \<lparr>pt_pid = pa_pid attr, pt_localNid = int local,
                             pt_remoteNid = rc_nrLocalNuma context + int remote,
                             pt_requestedPages = of_nat (pairRequests local remote), pt_targetPages = 0\<rparr>)
                          (requested_pairs attr n pairRequests), result))"

section \<open>The split is the reference split\<close>

lemma fold_fill:
  "fold (\<lambda>i (al, d). let al = al(i := f i) in (al, add64 d (al i))) is (al, d) =
    (\<lambda>i. if i \<in> set is then f i else al i, loop_sum f is d)"
  by (induction "is" arbitrary: al d) (auto simp: Let_def fun_eq_iff)

lemma fold_rest_hand_out:
  assumes "distinct is" and "d \<le> p" and "p < 2 ^ 64" and "\<And>i. i \<in> set is \<Longrightarrow> w i < 2 ^ 64"
    and "\<And>i. i \<in> set is \<Longrightarrow> elig i \<longleftrightarrow> \<not> al i \<ge> w i"
  shows "fold (\<lambda>i (al, d). if d < p \<and> \<not> al i \<ge> w i then (al(i := add64 (al i) 1), add64 d 1) else (al, d)) is (al, d) =
    hand_out elig p is (al, d)"
  using assms
proof (induction "is" arbitrary: al d)
  case (Cons i "is")
  show ?case
  proof (cases "d < p \<and> elig i")
    case True
    then have "al i < w i" using Cons.prems(5) by simp
    then have a: "add64 (al i) 1 = al i + 1" using Cons.prems(4) [of i] by (intro add64_eq) simp
    have d: "add64 d 1 = d + 1" using True Cons.prems(3) by (intro add64_eq) simp
    have "elig j \<longleftrightarrow> \<not> (al(i := al i + 1)) j \<ge> w j" if "j \<in> set is" for j
      using Cons.prems(1) Cons.prems(5) [of j] that by auto
    then have "fold (\<lambda>i (al, d). if d < p \<and> \<not> al i \<ge> w i then (al(i := add64 (al i) 1), add64 d 1) else (al, d)) is
        (al(i := al i + 1), d + 1) = hand_out elig p is (al(i := al i + 1), d + 1)"
      using Cons.prems True by (intro Cons.IH) auto
    with True \<open>al i < w i\<close> show ?thesis using a d by simp
  next
    case False
    with Cons show ?thesis by auto
  qed
qed simp

lemma DistributePairRequestPages_eq:
  assumes "(\<Sum>i<n. w i) < 2 ^ 64"
  shows "DistributePairRequestPages pages w n al i =
    (if i < n then apportion (min pages (\<Sum>i<n. w i)) w [0..<n] i else al i)"
proof -
  define W where "W = (\<Sum>i<n. w i)"
  define p where "p = min pages W"
  have WL: "sum_list (map w [0..<n]) = W" by (simp add: W_def sum_list_upt)
  have wle: "w i \<le> W" if "i < n" for i unfolding W_def using that by (intro member_le_sum) auto
  have share_le: "p * w i div W \<le> w i" for i by (rule apportion_share_le) (simp add: p_def)
  let ?f = "\<lambda>i. PairRequestMulDiv p (w i) W"
  have f: "?f i = p * w i div W" if "i < n" for i
    using share_le [of i] wle [OF that] assms by (cases "W = 0") (simp_all add: PairRequestMulDiv_def W_def)
  have sh: "loop_sum ?f [0..<n] 0 = shares p w [0..<n]"
  proof -
    have "map ?f [0..<n] = map (\<lambda>i. p * w i div W) [0..<n]" using f by (intro map_cong) auto
    then have "sum_list (map ?f [0..<n]) = shares p w [0..<n]" unfolding shares_def WL by (rule arg_cong)
    moreover have "shares p w [0..<n] < 2 ^ 64"
      using shares_le [of p w "[0..<n]"] assms by (simp add: p_def W_def)
    ultimately show ?thesis using loop_sum_eq [of 0 ?f "[0..<n]"] by simp
  qed
  let ?al = "\<lambda>i. if i \<in> set [0..<n] then ?f i else al i"
  let ?elig = "\<lambda>i. \<not> ?al i \<ge> w i"
  have loop1: "loop_sum w [0..<n] 0 = W" using assms by (simp add: W_def loop_sum_upt)
  have "DistributePairRequestPages pages w n al =
      fst (hand_out ?elig p [0..<n] (?al, shares p w [0..<n]))"
    unfolding DistributePairRequestPages_def loop1 Let_def p_def [symmetric]
      fold_fill [of ?f, unfolded Let_def] prod.case sh
    by (subst fold_rest_hand_out [where elig = ?elig])
      (use assms wle shares_le [of p w "[0..<n]"] in \<open>auto simp: p_def W_def split: prod.split intro: le_less_trans\<close>)
  then have eq: "DistributePairRequestPages pages w n al i =
      ?al i + of_bool (i \<in> set (take (p - shares p w [0..<n]) (filter ?elig [0..<n])))"
    by (simp add: hand_out_closed shares_le)
  have elig: "filter ?elig [0..<n] = filter (\<lambda>i. w i \<noteq> 0) [0..<n]" if "p < W"
    using apportion_below [OF that] f by (intro filter_cong) (auto simp: not_le)
  have rest: "shares p w [0..<n] = p" if "\<not> p < W"
  proof -
    have "p = W" using that by (simp add: p_def)
    then have "map (\<lambda>i. p * w i div W) [0..<n] = map w [0..<n]" using wle by (cases "W = 0") auto
    then have "shares p w [0..<n] = W" unfolding shares_def WL by (simp only: WL)
    then show ?thesis using \<open>p = W\<close> by simp
  qed
  have "?al i + of_bool (i \<in> set (take (p - shares p w [0..<n]) (filter ?elig [0..<n]))) =
      (if i < n then apportion p w [0..<n] i else al i)"
  proof (cases "p < W")
    case True
    then show ?thesis unfolding elig [OF True] apportion_def WL using f by (auto dest: in_set_takeD)
  next
    case False
    then show ?thesis using f by (simp add: apportion_def WL rest [OF False])
  qed
  then show ?thesis unfolding eq p_def W_def .
qed

text \<open>
  The contract the callers of the split rely on: all the pages that fit the weights are given out,
  and no entry gets more than its weight.
\<close>

locale page_split =
  fixes split :: "nat \<Rightarrow> (nat \<Rightarrow> nat) \<Rightarrow> nat \<Rightarrow> nat \<Rightarrow> nat"
  assumes split_sum: "(\<Sum>i<n. w i) < 2 ^ 64 \<Longrightarrow> (\<Sum>i<n. split p w n i) = min p (\<Sum>i<n. w i)"
    and split_le: "(\<Sum>i<n. w i) < 2 ^ 64 \<Longrightarrow> i < n \<Longrightarrow> split p w n i \<le> w i"
begin

lemma split_zero: "(\<Sum>i<n. w i) < 2 ^ 64 \<Longrightarrow> i < n \<Longrightarrow> w i = 0 \<Longrightarrow> split p w n i = 0"
  using split_le [of w n i p] by simp

lemma split_at_most: "(\<Sum>i<n. w i) < 2 ^ 64 \<Longrightarrow> (\<Sum>i<n. split p w n i) \<le> p"
  using split_sum [of w n p] by simp

lemma split_one_at_most: "(\<Sum>i<n. w i) < 2 ^ 64 \<Longrightarrow> i < n \<Longrightarrow> split p w n i \<le> p"
  using split_at_most [of w n p] member_le_sum [of i "{..<n}" "split p w n"] by simp

lemma split_all: "(\<Sum>i<n. w i) < 2 ^ 64 \<Longrightarrow> (\<Sum>i<n. w i) \<le> p \<Longrightarrow> i < n \<Longrightarrow> split p w n i = w i"
proof -
  assume w: "(\<Sum>i<n. w i) < 2 ^ 64" "(\<Sum>i<n. w i) \<le> p" and i: "i < n"
  have le: "split p w n j \<le> w j" if "j < n" for j using split_le [OF w(1) that] .
  have "(\<Sum>i<n. split p w n i) = (\<Sum>i<n. w i)" using split_sum [OF w(1), of p] w(2) by simp
  then show ?thesis using le i sum_strict_mono_ex1 [of "{..<n}" "split p w n" w] by (fastforce simp: nat_less_le)
qed

end

interpretation request_split: page_split "\<lambda>p w n. DistributePairRequestPages p w n (\<lambda>_. 0)"
proof
  fix w :: "nat \<Rightarrow> nat" and n p
  assume w: "(\<Sum>i<n. w i) < 2 ^ 64"
  let ?p = "min p (\<Sum>i<n. w i)"
  have "(\<Sum>i<n. DistributePairRequestPages p w n (\<lambda>_. 0) i) = (\<Sum>i<n. apportion ?p w [0..<n] i)"
    using DistributePairRequestPages_eq [OF w] by simp
  also have "\<dots> = ?p"
  proof (cases "(\<Sum>i<n. w i) = 0")
    case True
    then show ?thesis by (simp add: apportion_zero)
  next
    case False
    then have "0 < (\<Sum>i<n. w i)" by (rule neq0_conv [THEN iffD1])
    then show ?thesis using apportion_sum [of "[0..<n]" w ?p] unfolding sum_list_upt by simp
  qed
  finally show "(\<Sum>i<n. DistributePairRequestPages p w n (\<lambda>_. 0) i) = ?p" .
  fix i assume "i < n"
  then show "DistributePairRequestPages p w n (\<lambda>_. 0) i \<le> w i"
    using DistributePairRequestPages_eq [OF w] by (simp add: apportion_le_weight sum_list_upt)
qed

section \<open>Validation\<close>

definition target_ok :: "MigrateMode \<Rightarrow> u64 \<Rightarrow> ProcessRemoteTarget \<Rightarrow> bool" where
  "target_ok mode pageSizeKB t \<longleftrightarrow>
     (if mode = MIG_RATIO_MODE then unat (rt_ratio t) \<le> 100
      else unat (rt_memSizeKB t) mod unat pageSizeKB = 0 \<and> unat (rt_memSizeKB t) div unat pageSizeKB \<le> UINT32_MAX)"

lemma RemoteNidToIndex_Inr:
  "RemoteNidToIndex nid nr = Inr k \<longleftrightarrow> 0 < nr \<and> nr \<le> 8 \<and> k < 18 \<and> nid = nr + int k"
  by (auto simp: RemoteNidToIndex_def)

lemma RemoteNidToIndex_Inl:
  "0 < nr \<Longrightarrow> nr \<le> 8 \<Longrightarrow> RemoteNidToIndex nid nr = Inl e \<Longrightarrow> \<not> (nr \<le> nid \<and> nid < nr + 18)"
  by (auto simp: RemoteNidToIndex_def split: if_splits)

lemma validate_request_targets_eq:
  assumes nr: "0 < rc_nrLocalNuma ctx" "rc_nrLocalNuma ctx \<le> 8" and "t + 100 * length is < 2 ^ 64"
  shows "validate_request_targets c ctx is seen t =
    (if (\<forall>i \<in> set is. target_ok (tc_migrateMode c) (rc_pageSizeKB ctx) (tc_targets c i) \<and>
          (\<exists>k<18. rt_remoteNid (tc_targets c i) = rc_nrLocalNuma ctx + int k \<and> \<not> seen k)) \<and>
        distinct (map (\<lambda>i. rt_remoteNid (tc_targets c i)) is)
     then Inr (if tc_migrateMode c = MIG_RATIO_MODE then t + (\<Sum>i\<leftarrow>is. unat (rt_ratio (tc_targets c i))) else t)
     else Inl EINVAL)"
  using assms(3)
proof (induction "is" arbitrary: seen t)
  case (Cons i "is")
  let ?nid = "\<lambda>i. rt_remoteNid (tc_targets c i)" and ?r = "unat (rt_ratio (tc_targets c i))"
  show ?case
  proof (cases "RemoteNidToIndex (?nid i) (rc_nrLocalNuma ctx)")
    case (Inl e)
    then have "\<not> (\<exists>k<18. ?nid i = rc_nrLocalNuma ctx + int k)" using RemoteNidToIndex_Inl [OF nr] by fastforce
    then show ?thesis using Inl by auto
  next
    case (Inr k)
    then have k: "k < 18" "?nid i = rc_nrLocalNuma ctx + int k" by (auto simp: RemoteNidToIndex_Inr)
    show ?thesis
    proof (cases "seen k \<or> \<not> target_ok (tc_migrateMode c) (rc_pageSizeKB ctx) (tc_targets c i)")
      case True
      then show ?thesis using Inr k by (auto simp: target_ok_def Let_def)
    next
      case False
      let ?t = "if tc_migrateMode c = MIG_RATIO_MODE then t + ?r else t"
      have step: "validate_request_targets c ctx (i # is) seen t =
          validate_request_targets c ctx is (seen(k := True)) ?t"
        using False Inr Cons.prems by (auto simp: target_ok_def Let_def add64_eq)
      have ih: "validate_request_targets c ctx is (seen(k := True)) ?t =
        (if (\<forall>i \<in> set is. target_ok (tc_migrateMode c) (rc_pageSizeKB ctx) (tc_targets c i) \<and>
              (\<exists>j<18. ?nid i = rc_nrLocalNuma ctx + int j \<and> \<not> (seen(k := True)) j)) \<and> distinct (map ?nid is)
         then Inr (if tc_migrateMode c = MIG_RATIO_MODE then ?t + (\<Sum>i\<leftarrow>is. unat (rt_ratio (tc_targets c i))) else ?t)
         else Inl EINVAL)"
        using Cons.prems False by (intro Cons.IH) (auto simp: target_ok_def split: if_splits)
      have eq: "(\<exists>j'<18. ?nid j = rc_nrLocalNuma ctx + int j' \<and> \<not> (seen(k := True)) j') \<longleftrightarrow>
          (\<exists>j'<18. ?nid j = rc_nrLocalNuma ctx + int j' \<and> \<not> seen j') \<and> ?nid j \<noteq> ?nid i" for j
        unfolding k(2) by auto
      have cond: "((\<forall>i \<in> set is. target_ok (tc_migrateMode c) (rc_pageSizeKB ctx) (tc_targets c i) \<and>
              (\<exists>j<18. ?nid i = rc_nrLocalNuma ctx + int j \<and> \<not> (seen(k := True)) j)) \<and> distinct (map ?nid is)) \<longleftrightarrow>
          ((\<forall>i \<in> set (i # is). target_ok (tc_migrateMode c) (rc_pageSizeKB ctx) (tc_targets c i) \<and>
          (\<exists>k<18. ?nid i = rc_nrLocalNuma ctx + int k \<and> \<not> seen k)) \<and> distinct (map ?nid (i # is)))"
        unfolding eq using False k by (auto simp: image_iff)
      show ?thesis unfolding step ih cond by (rule if_cong [OF refl _ refl]) simp
    qed
  qed
qed simp

text \<open>What a valid request is, in terms of the list of configured targets.\<close>

definition request_input_ok :: "ProcessAttr \<Rightarrow> PairRequestContext \<Rightarrow> bool" where
  "request_input_ok attr ctx \<longleftrightarrow>
     0 < rc_nrLocalNuma ctx \<and> rc_nrLocalNuma ctx \<le> 8 \<and> rc_pageSizeKB ctx \<noteq> 0 \<and>
     tc_count (pa_targetConfig attr) \<le> 18 \<and> tc_migrateMode (pa_targetConfig attr) \<noteq> MIG_OTHER_MODE \<and>
     config_distinct (pa_targetConfig attr) \<and>
     list_all (\<lambda>t. rc_nrLocalNuma ctx \<le> rt_remoteNid t \<and> rt_remoteNid t < rc_nrLocalNuma ctx + 18 \<and>
       target_ok (tc_migrateMode (pa_targetConfig attr)) (rc_pageSizeKB ctx) t) (config_targets (pa_targetConfig attr)) \<and>
     (tc_migrateMode (pa_targetConfig attr) = MIG_RATIO_MODE \<longrightarrow>
       (\<Sum>t\<leftarrow>config_targets (pa_targetConfig attr). unat (rt_ratio t)) \<le> 100)"

lemma ValidatePairRequestInput_iff_gen:
  "ValidatePairRequestInput attr ctx = Inr () \<longleftrightarrow> request_input_ok attr ctx"
proof (cases "0 < rc_nrLocalNuma ctx \<and> rc_nrLocalNuma ctx \<le> 8 \<and> rc_pageSizeKB ctx \<noteq> 0 \<and>
    tc_count (pa_targetConfig attr) \<le> 18 \<and> tc_migrateMode (pa_targetConfig attr) \<noteq> MIG_OTHER_MODE")
  case True
  let ?c = "pa_targetConfig attr"
  have mode: "tc_migrateMode ?c = MIG_RATIO_MODE \<or> tc_migrateMode ?c = MIG_MEMSIZE_MODE"
    using True by (cases "tc_migrateMode ?c") auto
  have range: "(\<exists>k<18. nid = rc_nrLocalNuma ctx + int k) \<longleftrightarrow> rc_nrLocalNuma ctx \<le> nid \<and> nid < rc_nrLocalNuma ctx + 18" for nid
    by (auto intro: exI [of _ "nat (nid - rc_nrLocalNuma ctx)"])
  have v: "validate_request_targets ?c ctx [0..<tc_count ?c] (\<lambda>_. False) 0 =
    (if list_all (\<lambda>t. rc_nrLocalNuma ctx \<le> rt_remoteNid t \<and> rt_remoteNid t < rc_nrLocalNuma ctx + 18 \<and>
          target_ok (tc_migrateMode ?c) (rc_pageSizeKB ctx) t) (config_targets ?c) \<and> config_distinct ?c
     then Inr (if tc_migrateMode ?c = MIG_RATIO_MODE then \<Sum>t\<leftarrow>config_targets ?c. unat (rt_ratio t) else 0)
     else Inl EINVAL)"
    using True by (subst validate_request_targets_eq)
      (auto simp: range config_targets_def config_distinct_def list_all_iff comp_def)
  show ?thesis using True mode
    by (auto simp: ValidatePairRequestInput_def Let_def v request_input_ok_def)
next
  case False
  then show ?thesis
    by (cases "tc_migrateMode (pa_targetConfig attr)")
      (auto simp: ValidatePairRequestInput_def Let_def request_input_ok_def)
qed

lemma ValidatePairRequestInput_error: "\<not> request_input_ok attr ctx \<Longrightarrow> ValidatePairRequestInput attr ctx = Inl EINVAL"
proof -
  assume "\<not> request_input_ok attr ctx"
  then have "ValidatePairRequestInput attr ctx \<noteq> Inr ()" by (simp add: ValidatePairRequestInput_iff_gen)
  moreover have "validate_request_targets c ctx is seen t = Inl e \<Longrightarrow> e = EINVAL" for c "is" seen t e
    by (induction c ctx "is" seen t rule: validate_request_targets.induct) (auto simp: Let_def split: if_splits sum.splits)
  ultimately show ?thesis
    by (auto simp: ValidatePairRequestInput_def Let_def split: if_splits sum.splits)
qed

section \<open>The aggregate request\<close>

lemma sum_u32_less:
  fixes f :: "nat \<Rightarrow> u32"
  assumes "n \<le> 26"
  shows "(\<Sum>i<n. unat (f i)) \<le> 26 * UINT32_MAX"
proof -
  have "(\<Sum>i<n. unat (f i)) \<le> n * UINT32_MAX" by (rule sum_bounded_nat) simp
  then show ?thesis using assms by (simp add: order_trans)
qed

lemma fold_sum_if:
  assumes "(\<Sum>i<n. if P i then f i else 0) < 2 ^ 64"
  shows "fold (\<lambda>i t. if P i then add64 t (f i) else t) [0..<n] 0 = (\<Sum>i<n. if P i then f i else 0)"
  using assms by (induction n) (auto simp: add64_eq)

lemma BuildManagedTotalPages_eq:
  assumes "0 < nr" and "nr \<le> 8"
  shows "BuildManagedTotalPages attr nr =
      (\<Sum>l<nat nr. if InL1 (managedMask attr) (int l) then unat (nrPages attr l) else 0) +
      (\<Sum>r<18. unat (nrPages attr (nat nr + r)))"
    and "BuildManagedTotalPages attr nr \<le> 52 * UINT32_MAX"
proof -
  let ?a = "\<Sum>l<nat nr. if InL1 (managedMask attr) (int l) then unat (nrPages attr l) else 0"
  let ?b = "\<Sum>r<18. unat (nrPages attr (nat nr + r))"
  have "?a \<le> (\<Sum>l<nat nr. unat (nrPages attr l))" by (intro sum_mono) auto
  also have "\<dots> \<le> 26 * UINT32_MAX" using assms by (intro sum_u32_less) simp
  finally have a: "?a \<le> 26 * UINT32_MAX" .
  have b: "?b \<le> 26 * UINT32_MAX" by (intro sum_u32_less) simp
  have inner: "fold (\<lambda>l t. if InL1 (managedMask attr) (int l) then add64 t (unat (nrPages attr l)) else t) [0..<nat nr] 0 = ?a"
    using a by (intro fold_sum_if) simp
  have "BuildManagedTotalPages attr nr = ?a + sum_list (map (\<lambda>r. unat (nrPages attr (nat nr + r))) [0..<18])"
    unfolding BuildManagedTotalPages_def inner using a b by (intro loop_sum_eq) (simp only: sum_list_upt, simp)
  then show eq: "BuildManagedTotalPages attr nr = ?a + ?b" by (simp only: sum_list_upt)
  show "BuildManagedTotalPages attr nr \<le> 52 * UINT32_MAX" unfolding eq using a b by simp
qed

text \<open>The pages one configured target asks for, and the request of a remote node.\<close>

definition target_pages :: "ProcessAttr \<Rightarrow> PairRequestContext \<Rightarrow> nat \<Rightarrow> ProcessRemoteTarget \<Rightarrow> nat" where
  "target_pages attr ctx managedTotal t =
     (if tc_migrateMode (pa_targetConfig attr) = MIG_RATIO_MODE then managedTotal * unat (rt_ratio t) div 100
      else unat (rt_memSizeKB t) div unat (rc_pageSizeKB ctx))"

definition requested_pages :: "ProcessAttr \<Rightarrow> PairRequestContext \<Rightarrow> nat \<Rightarrow> nat \<Rightarrow> nat" where
  "requested_pages attr ctx managedTotal remote =
     (case FindProcessRemoteTarget (pa_targetConfig attr) (rc_nrLocalNuma ctx + int remote) of
        None \<Rightarrow> 0 | Some t \<Rightarrow> target_pages attr ctx managedTotal t)"

lemma target_pages_le:
  assumes "target_ok (tc_migrateMode (pa_targetConfig attr)) (rc_pageSizeKB ctx) t"
  shows "target_pages attr ctx m t \<le> max m UINT32_MAX"
proof (cases "tc_migrateMode (pa_targetConfig attr) = MIG_RATIO_MODE")
  case True
  then have "m * unat (rt_ratio t) \<le> m * 100" using assms by (simp add: target_ok_def)
  then have "m * unat (rt_ratio t) div 100 \<le> m * 100 div 100" by (rule div_le_mono)
  with True show ?thesis by (simp add: target_pages_def)
qed (use assms in \<open>auto simp: target_ok_def target_pages_def\<close>)

lemma input_target:
  assumes "request_input_ok attr ctx" and "i < tc_count (pa_targetConfig attr)"
  shows "\<exists>k<18. RemoteNidToIndex (rt_remoteNid (tc_targets (pa_targetConfig attr) i)) (rc_nrLocalNuma ctx) = Inr k \<and>
    rt_remoteNid (tc_targets (pa_targetConfig attr) i) = rc_nrLocalNuma ctx + int k \<and>
    target_ok (tc_migrateMode (pa_targetConfig attr)) (rc_pageSizeKB ctx) (tc_targets (pa_targetConfig attr) i)"
proof -
  let ?t = "tc_targets (pa_targetConfig attr) i"
  have "?t \<in> set (config_targets (pa_targetConfig attr))" using assms(2) by (auto simp: config_targets_def)
  then have t: "rc_nrLocalNuma ctx \<le> rt_remoteNid ?t" "rt_remoteNid ?t < rc_nrLocalNuma ctx + 18"
    "target_ok (tc_migrateMode (pa_targetConfig attr)) (rc_pageSizeKB ctx) ?t"
    "0 < rc_nrLocalNuma ctx" "rc_nrLocalNuma ctx \<le> 8"
    using assms(1) by (auto simp: request_input_ok_def list_all_iff)
  then show ?thesis
    by (intro exI [of _ "nat (rt_remoteNid ?t - rc_nrLocalNuma ctx)"]) (auto simp: RemoteNidToIndex_Inr)
qed

lemma requested_pages_le:
  assumes "request_input_ok attr ctx"
  shows "requested_pages attr ctx m r \<le> max m UINT32_MAX"
proof (cases "FindProcessRemoteTarget (pa_targetConfig attr) (rc_nrLocalNuma ctx + int r)")
  case (Some t)
  then obtain i where "i < tc_count (pa_targetConfig attr)" "t = tc_targets (pa_targetConfig attr) i"
    by (auto simp: FindProcessRemoteTarget_def find_Some_iff split: if_splits)
  with input_target [OF assms, of i] have "target_ok (tc_migrateMode (pa_targetConfig attr)) (rc_pageSizeKB ctx) t"
    by auto
  with Some show ?thesis by (simp add: requested_pages_def target_pages_le)
qed (simp add: requested_pages_def)

lemma fold_requested:
  assumes ok: "request_input_ok attr ctx" and k: "k \<le> tc_count (pa_targetConfig attr)" and m: "rs_managedTotalPages s < 2 ^ 57"
  shows "fold (\<lambda>i s. case RemoteNidToIndex (rt_remoteNid (tc_targets (pa_targetConfig attr) i)) (rc_nrLocalNuma ctx) of
        Inl e \<Rightarrow> s
      | Inr remoteIndex \<Rightarrow> s\<lparr>rs_requestedRemotePages := (rs_requestedRemotePages s)(remoteIndex :=
          (if tc_migrateMode (pa_targetConfig attr) = MIG_RATIO_MODE
           then PairRequestMulDiv (rs_managedTotalPages s) (unat (rt_ratio (tc_targets (pa_targetConfig attr) i))) 100
           else unat (rt_memSizeKB (tc_targets (pa_targetConfig attr) i)) div unat (rc_pageSizeKB ctx)))\<rparr>) [0..<k] s =
    s\<lparr>rs_requestedRemotePages := (\<lambda>r. case find (\<lambda>i. rt_remoteNid (tc_targets (pa_targetConfig attr) i) =
        rc_nrLocalNuma ctx + int r) [0..<k] of
      None \<Rightarrow> rs_requestedRemotePages s r
    | Some i \<Rightarrow> target_pages attr ctx (rs_managedTotalPages s) (tc_targets (pa_targetConfig attr) i))\<rparr>"
  using k
proof (induction k)
  case (Suc k)
  let ?c = "pa_targetConfig attr"
  let ?nid = "\<lambda>i. rt_remoteNid (tc_targets ?c i)"
  obtain x where x: "x < 18" "RemoteNidToIndex (?nid k) (rc_nrLocalNuma ctx) = Inr x" "?nid k = rc_nrLocalNuma ctx + int x"
    "target_ok (tc_migrateMode ?c) (rc_pageSizeKB ctx) (tc_targets ?c k)"
    using input_target [OF ok, of k] Suc.prems by auto
  have new: "find (\<lambda>i. ?nid i = rc_nrLocalNuma ctx + int x) [0..<k] = None"
  proof -
    have "\<forall>i j. i < j \<and> j < tc_count ?c \<longrightarrow> ?nid i \<noteq> ?nid j" using ok by (simp add: request_input_ok_def config_distinct_iff)
    then have "?nid i \<noteq> ?nid k" if "i < k" for i using that Suc.prems by (metis Suc_le_lessD)
    then show ?thesis unfolding x(3) by (auto simp: find_None_iff)
  qed
  have pages: "(if tc_migrateMode ?c = MIG_RATIO_MODE
      then PairRequestMulDiv (rs_managedTotalPages s) (unat (rt_ratio (tc_targets ?c k))) 100
      else unat (rt_memSizeKB (tc_targets ?c k)) div unat (rc_pageSizeKB ctx)) =
      target_pages attr ctx (rs_managedTotalPages s) (tc_targets ?c k)"
    using target_pages_le [OF x(4), of "rs_managedTotalPages s"] m
    by (auto simp: target_pages_def PairRequestMulDiv_def)
  have find: "find P [0..<Suc k] = (case find P [0..<k] of None \<Rightarrow> if P k then Some k else None | Some i \<Rightarrow> Some i)" for P
    by (auto simp: find_append split: option.split)
  have same: "(?nid k = rc_nrLocalNuma ctx + int r) = (r = x)" for r using x(3) by auto
  let ?F = "\<lambda>k r. case find (\<lambda>i. ?nid i = rc_nrLocalNuma ctx + int r) [0..<k] of None \<Rightarrow> rs_requestedRemotePages s r
    | Some i \<Rightarrow> target_pages attr ctx (rs_managedTotalPages s) (tc_targets ?c i)"
  have "?F (Suc k) = (?F k)(x := target_pages attr ctx (rs_managedTotalPages s) (tc_targets ?c k))"
    unfolding find same using new by (auto simp: fun_eq_iff split: option.split)
  moreover have "k \<le> tc_count ?c" using Suc.prems by simp
  ultimately show ?case using Suc.IH by (simp add: x(2) pages cong: if_cong)
qed simp

lemma BuildRequestedRemotePages_eq:
  assumes "request_input_ok attr ctx" and "rs_managedTotalPages s < 2 ^ 57" and "\<And>r. rs_requestedRemotePages s r = 0"
  shows "BuildRequestedRemotePages attr ctx s =
    s\<lparr>rs_requestedRemotePages := requested_pages attr ctx (rs_managedTotalPages s)\<rparr>"
proof -
  have "BuildRequestedRemotePages attr ctx s =
    s\<lparr>rs_requestedRemotePages := (\<lambda>r. case find (\<lambda>i. rt_remoteNid (tc_targets (pa_targetConfig attr) i) =
        rc_nrLocalNuma ctx + int r) [0..<tc_count (pa_targetConfig attr)] of
      None \<Rightarrow> rs_requestedRemotePages s r
    | Some i \<Rightarrow> target_pages attr ctx (rs_managedTotalPages s) (tc_targets (pa_targetConfig attr) i))\<rparr>"
    unfolding BuildRequestedRemotePages_def Let_def by (rule fold_requested [OF assms(1) order_refl assms(2)])
  also have "\<dots> = s\<lparr>rs_requestedRemotePages := requested_pages attr ctx (rs_managedTotalPages s)\<rparr>"
  proof -
    have "(case find (\<lambda>i. rt_remoteNid (tc_targets (pa_targetConfig attr) i) = rc_nrLocalNuma ctx + int r)
          [0..<tc_count (pa_targetConfig attr)] of None \<Rightarrow> rs_requestedRemotePages s r
        | Some i \<Rightarrow> target_pages attr ctx (rs_managedTotalPages s) (tc_targets (pa_targetConfig attr) i)) =
      requested_pages attr ctx (rs_managedTotalPages s) r" for r
      using assms(1) by (simp add: requested_pages_def FindProcessRemoteTarget_def request_input_ok_def assms(3) split: option.split)
    then show ?thesis by (simp cong: option.case_cong)
  qed
  finally show ?thesis .
qed

lemma fold_effective:
  assumes "(\<Sum>i<n. b i) < 2 ^ 64" and "(\<Sum>i<n. d i) < 2 ^ 64"
  shows "fold (\<lambda>i (eff, dem, bt, dt). (eff(i := b i), dem(i := d i), add64 bt (b i), add64 dt (d i))) [0..<n]
      (e0, d0, 0, 0) =
    (\<lambda>i. if i < n then b i else e0 i, \<lambda>i. if i < n then d i else d0 i, \<Sum>i<n. b i, \<Sum>i<n. d i)"
  using assms by (induction n) (auto simp: add64_eq fun_eq_iff)

lemma fold_add_range:
  "fold (\<lambda>i e. e(i := add64 (e i) (a i))) [0..<n] e = (\<lambda>i. if i < n then add64 (e i) (a i) else e i)"
  by (induction n) (auto simp: fun_eq_iff)

text \<open>
  The effective request of the remote nodes: at most what was asked for, at least what is already
  there and asked for, and in total all that was asked for as far as the managed pages reach.
\<close>

lemma BuildEffectiveRemotePages_gen:
  fixes ctx
  defines "n \<equiv> nat (rc_nrLocalNuma ctx)"
  assumes req: "\<And>r. r < 18 \<Longrightarrow> rs_requestedRemotePages s r \<le> 2 ^ 57" and m: "rs_managedTotalPages s \<le> 2 ^ 57"
    and base: "(\<Sum>r<18. min (unat (nrPages attr (n + r))) (rs_requestedRemotePages s r)) \<le> rs_managedTotalPages s"
    and s': "s' = BuildEffectiveRemotePages attr ctx s"
  shows "r < 18 \<Longrightarrow> rs_effectiveRemotePages s' r \<le> rs_requestedRemotePages s r"
    and "r < 18 \<Longrightarrow> min (unat (nrPages attr (n + r))) (rs_requestedRemotePages s r) \<le> rs_effectiveRemotePages s' r"
    and "(\<Sum>r<18. rs_effectiveRemotePages s' r) = min (rs_managedTotalPages s) (\<Sum>r<18. rs_requestedRemotePages s r)"
    and "rs_requestedRemotePages s' = rs_requestedRemotePages s"
    and "rs_managedTotalPages s' = rs_managedTotalPages s"
    and "rs_unassignedRequestedPages s' = rs_unassignedRequestedPages s"
proof -
  define b where "b = (\<lambda>r. min (unat (nrPages attr (n + r))) (rs_requestedRemotePages s r))"
  define d where "d = (\<lambda>r. rs_requestedRemotePages s r - b r)"
  define avail where "avail = rs_managedTotalPages s - (\<Sum>r<18. b r)"
  define W where "W = (\<Sum>r<18. d r)"
  define dem where "dem = (\<lambda>i. if i < 18 then d i else 0)"
  define al where "al = DistributePairRequestPages (min avail W) dem 18 (\<lambda>_. 0)"
  have "W \<le> 18 * 2 ^ 57" unfolding W_def by (rule sum_bounded_nat) (use req in \<open>auto simp: d_def intro: diff_le_self order_trans\<close>)
  then have W: "W < 2 ^ 64" by simp
  have B: "(\<Sum>r<18. b r) \<le> rs_managedTotalPages s" using base by (simp add: b_def)
  have sub: "sub64 (rs_requestedRemotePages s r) (b r) = d r" if "r < 18" for r
    using req [OF that] unfolding d_def by (intro sub64_eq) (auto simp: b_def)
  have bt: "(\<Sum>r<18. b r) < 2 ^ 64" using B m by simp
  have fold: "fold (\<lambda>r (eff, dem, bt, dt). let demand = sub64 (rs_requestedRemotePages s r) (b r)
        in (eff(r := b r), dem(r := demand), add64 bt (b r), add64 dt demand)) [0..<18]
      (rs_effectiveRemotePages s, \<lambda>_. 0, 0, 0) =
    (\<lambda>i. if i < 18 then b i else rs_effectiveRemotePages s i, dem, \<Sum>r<18. b r, W)"
  proof -
    have "fold (\<lambda>r (eff, dem, bt, dt). let demand = sub64 (rs_requestedRemotePages s r) (b r)
        in (eff(r := b r), dem(r := demand), add64 bt (b r), add64 dt demand)) [0..<18]
      (rs_effectiveRemotePages s, \<lambda>_. 0, 0, 0) =
      fold (\<lambda>r (eff, dem, bt, dt). (eff(r := b r), dem(r := d r), add64 bt (b r), add64 dt (d r))) [0..<18]
      (rs_effectiveRemotePages s, \<lambda>_. 0, 0, 0)"
      by (intro fold_cong) (auto simp: sub Let_def)
    then show ?thesis using fold_effective [OF bt W [unfolded W_def]] by (simp add: dem_def W_def)
  qed
  have availeq: "(if rs_managedTotalPages s > (\<Sum>r<18. b r) then sub64 (rs_managedTotalPages s) (\<Sum>r<18. b r) else 0) = avail"
    using m B by (auto simp: avail_def sub64_eq)
  have s1: "s' = s\<lparr>rs_effectiveRemotePages := \<lambda>i. if i < 18 then add64 (if i < 18 then b i else rs_effectiveRemotePages s i) (al i)
      else (if i < 18 then b i else rs_effectiveRemotePages s i)\<rparr>"
    unfolding s' BuildEffectiveRemotePages_def n_def [symmetric] Let_def b_def [symmetric] fold [unfolded Let_def] prod.case
      availeq al_def [symmetric] fold_add_range ..
  have demW: "(\<Sum>r<18. dem r) = W" by (simp add: W_def dem_def)
  have al_le: "al r \<le> d r" if "r < 18" for r
    using request_split.split_le [of dem 18 r "min avail W"] W that unfolding demW al_def by (simp add: dem_def)
  have al_sum: "(\<Sum>r<18. al r) = min avail W"
    using request_split.split_sum [of dem 18 "min avail W"] W unfolding demW al_def by simp
  have eff: "rs_effectiveRemotePages s' r = b r + al r" if "r < 18" for r
  proof -
    have "b r + d r = rs_requestedRemotePages s r" by (simp add: b_def d_def)
    then have "b r + al r < 2 ^ 64" using al_le [OF that] req [OF that] by simp
    then show ?thesis using that by (simp add: s1 add64_eq)
  qed
  show "r < 18 \<Longrightarrow> rs_effectiveRemotePages s' r \<le> rs_requestedRemotePages s r"
    using eff [of r] al_le [of r] by (simp add: b_def d_def)
  show "r < 18 \<Longrightarrow> min (unat (nrPages attr (n + r))) (rs_requestedRemotePages s r) \<le> rs_effectiveRemotePages s' r"
    using eff [of r] by (simp add: b_def)
  have "(\<Sum>r<18. rs_effectiveRemotePages s' r) = (\<Sum>r<18. b r) + min avail W"
    using eff al_sum by (simp add: sum.distrib)
  moreover have "(\<Sum>r<18. b r) + W = (\<Sum>r<18. rs_requestedRemotePages s r)"
    unfolding W_def by (simp add: sum.distrib [symmetric]) (simp add: b_def d_def)
  ultimately show "(\<Sum>r<18. rs_effectiveRemotePages s' r) = min (rs_managedTotalPages s) (\<Sum>r<18. rs_requestedRemotePages s r)"
    using B by (simp add: avail_def)
  show "rs_requestedRemotePages s' = rs_requestedRemotePages s" "rs_managedTotalPages s' = rs_managedTotalPages s"
    "rs_unassignedRequestedPages s' = rs_unassignedRequestedPages s"
    by (simp_all add: s1)
qed

section \<open>Preserving the accounts\<close>

lemma bit_all_local: "bit (2 ^ n - 1 :: u32) k \<longleftrightarrow> k < 32 \<and> k < n"
proof -
  have "2 ^ n - 1 = (Bit_Operations.mask n :: u32)" by (simp add: mask_eq_exp_minus_1)
  then show ?thesis by (simp add: bit_mask_iff)
qed

definition eligible :: "ProcessAttr \<Rightarrow> PairRequestContext \<Rightarrow> nat \<Rightarrow> nat \<Rightarrow> bool" where
  "eligible attr ctx l r \<longleftrightarrow> l < nat (rc_nrLocalNuma ctx) \<and> InL1 (managedMask attr) (int l) \<and>
     InL1 (rc_capacityLocalMask ctx r) (int l)"

lemma InL1_BuildEligiblePairMask:
  assumes "rc_nrLocalNuma ctx \<le> 8"
  shows "InL1 (BuildEligiblePairMask attr ctx r) (int l) \<longleftrightarrow> eligible attr ctx l r"
  using assms by (auto simp: BuildEligiblePairMask_def eligible_def bit_and_iff bit_all_local)

lemma InL1_BuildActivePairMask:
  assumes "rc_nrLocalNuma ctx \<le> 8"
  shows "InL1 (BuildActivePairMask attr ctx r) (int l) \<longleftrightarrow> eligible attr ctx l r \<and> InL1 (residentMask attr) (int l)"
proof -
  have "InL1 (BuildActivePairMask attr ctx r) (int l) \<longleftrightarrow>
      InL1 (BuildEligiblePairMask attr ctx r) (int l) \<and> InL1 (residentMask attr) (int l)"
    by (auto simp: BuildActivePairMask_def bit_and_iff)
  then show ?thesis by (simp only: InL1_BuildEligiblePairMask [OF assms])
qed

definition eligible_account :: "ProcessAttr \<Rightarrow> PairRequestContext \<Rightarrow> nat \<Rightarrow> nat \<Rightarrow> nat" where
  "eligible_account attr ctx r l = (if eligible attr ctx l r then unat (account attr l r) else 0)"

lemma eligible_account_sum:
  "rc_nrLocalNuma ctx \<le> 8 \<Longrightarrow> n \<le> nat (rc_nrLocalNuma ctx) \<Longrightarrow> (\<Sum>l<n. eligible_account attr ctx r l) \<le> 8 * UINT32_MAX"
  using sum_bounded_nat [of n "eligible_account attr ctx r" UINT32_MAX]
  by (fastforce simp: eligible_account_def intro: order_trans)

lemma fold_accounts:
  assumes "n \<le> nat (rc_nrLocalNuma ctx)" and "rc_nrLocalNuma ctx \<le> 8"
  shows "fold (\<lambda>l (accounts, t). if \<not> eligible attr ctx l r then (accounts, t)
      else (accounts(l := unat (account attr l r)), add64 t (unat (account attr l r)))) [0..<n] ((\<lambda>_. 0), 0) =
    (\<lambda>l. if l < n then eligible_account attr ctx r l else 0, \<Sum>l<n. eligible_account attr ctx r l)"
  using assms
proof (induction n)
  case (Suc n)
  have "add64 (\<Sum>l<n. eligible_account attr ctx r l) (unat (account attr n r)) =
      (\<Sum>l<n. eligible_account attr ctx r l) + unat (account attr n r)" if "eligible attr ctx n r"
    using eligible_account_sum [OF Suc.prems(2,1), of attr r] that by (intro add64_eq) (simp add: eligible_account_def)
  with Suc show ?case by (auto simp: fun_eq_iff less_Suc_eq eligible_account_def)
qed (simp add: fun_eq_iff)

lemma fold_set_rows:
  "fold (\<lambda>l q. q(l := (q l)(r := v l))) [0..<n] q = (\<lambda>l k. if l < n \<and> k = r then v l else q l k)"
  by (induction n) (auto simp: fun_eq_iff less_Suc_eq)

lemma preserve_remote_gen:
  fixes ctx
  defines "n \<equiv> nat (rc_nrLocalNuma ctx)"
  assumes "0 < rc_nrLocalNuma ctx" and nr: "rc_nrLocalNuma ctx \<le> 8"
  shows "\<exists>v. preserve_remote attr ctx s r q = (\<lambda>l k. if l < n \<and> k = r then v l else q l k) \<and>
    (\<forall>l<n. v l \<le> eligible_account attr ctx r l) \<and>
    (\<Sum>l<n. v l) = min (rs_effectiveRemotePages s r) (\<Sum>l<n. eligible_account attr ctx r l)"
proof -
  let ?a = "\<lambda>l. if l < n then eligible_account attr ctx r l else 0"
  let ?T = "\<Sum>l<n. eligible_account attr ctx r l" and ?e = "rs_effectiveRemotePages s r"
  define v where "v = (if ?T \<le> ?e then ?a else DistributePairRequestPages ?e ?a n (\<lambda>_. 0))"
  have small: "?T < 2 ^ 64" using eligible_account_sum [OF nr, of n attr r] by (simp add: n_def)
  have aT: "(\<Sum>l<n. ?a l) = ?T" by (intro sum.cong) auto
  have "preserve_remote attr ctx s r q = (\<lambda>l k. if l < n \<and> k = r then v l else q l k)"
    unfolding preserve_remote_def n_def [symmetric] Let_def InL1_BuildEligiblePairMask [OF nr]
      fold_accounts [OF order_refl nr, folded n_def] prod.case v_def [symmetric] fold_set_rows ..
  moreover have "v l \<le> eligible_account attr ctx r l" if "l < n" for l
    using request_split.split_le [of ?a n l ?e] small aT that by (auto simp: v_def)
  moreover have "(\<Sum>l<n. v l) = min ?e ?T"
    using request_split.split_sum [of ?a n ?e] small aT by (auto simp: v_def min_def)
  ultimately show ?thesis by blast
qed

text \<open>
  The preserved part of the requests: the accounts of the eligible pairs, scaled down to the
  effective request of a remote node when they exceed it.
\<close>

lemma PreservePairAccounts_gen:
  fixes ctx
  defines "n \<equiv> nat (rc_nrLocalNuma ctx)"
  assumes nr: "0 < rc_nrLocalNuma ctx" "rc_nrLocalNuma ctx \<le> 8"
    and b: "b = PreservePairAccounts attr ctx s (\<lambda>_ _. 0)"
  shows "b l r \<le> eligible_account attr ctx r l"
    and "\<not> (l < n \<and> r < 18) \<Longrightarrow> b l r = 0"
    and "r < 18 \<Longrightarrow> (\<Sum>l<n. b l r) = min (rs_effectiveRemotePages s r) (\<Sum>l<n. eligible_account attr ctx r l)"
proof -
  have inv: "(\<forall>l r. (l < n \<and> r < k \<longrightarrow> q l r \<le> eligible_account attr ctx r l) \<and> (\<not> (l < n \<and> r < k) \<longrightarrow> q l r = 0)) \<and>
      (\<forall>r<k. (\<Sum>l<n. q l r) = min (rs_effectiveRemotePages s r) (\<Sum>l<n. eligible_account attr ctx r l))"
    if "q = fold (preserve_remote attr ctx s) [0..<k] (\<lambda>_ _. 0)" for k q
    using that
  proof (induction k arbitrary: q)
    case (Suc k)
    define q0 where "q0 = fold (preserve_remote attr ctx s) [0..<k] (\<lambda>_ _. 0)"
    note IH = Suc.IH [OF q0_def]
    have "q = preserve_remote attr ctx s k q0" using Suc.prems by (simp add: q0_def)
    with preserve_remote_gen [OF nr, of attr s k q0] obtain v where v: "q = (\<lambda>l r. if l < n \<and> r = k then v l else q0 l r)"
      "\<forall>l<n. v l \<le> eligible_account attr ctx k l"
      "(\<Sum>l<n. v l) = min (rs_effectiveRemotePages s k) (\<Sum>l<n. eligible_account attr ctx k l)"
      unfolding n_def by auto
    have "(\<Sum>l<n. q l r) = (if r = k then \<Sum>l<n. v l else \<Sum>l<n. q0 l r)" for r
      unfolding v(1) by (cases "r = k") simp_all
    with IH v show ?case by (auto simp: less_Suc_eq)
  qed auto
  from inv [OF b [unfolded PreservePairAccounts_def]]
  show "b l r \<le> eligible_account attr ctx r l" "\<not> (l < n \<and> r < 18) \<Longrightarrow> b l r = 0"
    "r < 18 \<Longrightarrow> (\<Sum>l<n. b l r) = min (rs_effectiveRemotePages s r) (\<Sum>l<n. eligible_account attr ctx r l)"
    by (cases "l < n \<and> r < 18"; simp)+
qed

text \<open>The pages of a local node that the requests of its pairs may draw on.\<close>

definition allocatable :: "ProcessAttr \<Rightarrow> nat \<Rightarrow> nat" where
  "allocatable attr l = unat (nrPages attr l) + (\<Sum>r<18. unat (account attr l r))"

lemma allocatable_le: "allocatable attr l \<le> 27 * UINT32_MAX"
  using add_mono [OF unat_u32_le [of "nrPages attr l"] sum_u32_less [of 18 "account attr l"]] by (simp add: allocatable_def)

lemma fold_fun_upd: "fold (\<lambda>l f. f(l := v l)) [0..<n] f = (\<lambda>l. if l < n then v l else f l)"
  by (induction n) (auto simp: fun_eq_iff less_Suc_eq)

lemma BuildLocalRemainingPages_eq:
  assumes "\<And>l r. b l r \<le> unat (account attr l r)"
  shows "BuildLocalRemainingPages attr ctx b (\<lambda>_. 0) l =
    (if l < nat (rc_nrLocalNuma ctx) then allocatable attr l - (\<Sum>r<18. b l r) else 0)"
proof -
  have le: "(\<Sum>r<18. b l r) \<le> (\<Sum>r<18. unat (account attr l r))" for l by (intro sum_mono assms)
  have a: "loop_sum (\<lambda>r. unat (account attr l r)) [0..<18] (unat (nrPages attr l)) = allocatable attr l" for l
    using allocatable_le [of attr l] unfolding allocatable_def sum_list_upt [symmetric] by (intro loop_sum_eq) simp
  have b: "loop_sum (\<lambda>r. b l r) [0..<18] 0 = (\<Sum>r<18. b l r)" for l
    using le [of l] allocatable_le [of attr l] by (intro loop_sum_upt) (simp add: allocatable_def)
  have "sub64 (allocatable attr l) (\<Sum>r<18. b l r) = allocatable attr l - (\<Sum>r<18. b l r)" for l
    using le [of l] allocatable_le [of attr l] by (intro sub64_eq) (auto simp: allocatable_def)
  then show ?thesis
    unfolding BuildLocalRemainingPages_def Let_def a b fold_fun_upd by simp
qed

section \<open>Filling the requests\<close>

definition act_pair :: "ProcessAttr \<Rightarrow> PairRequestContext \<Rightarrow> matrix \<Rightarrow> nat \<Rightarrow> nat \<Rightarrow> bool" where
  "act_pair attr ctx b l r \<longleftrightarrow> l < nat (rc_nrLocalNuma ctx) \<and> r < 18 \<and> pair_active attr ctx b l r"

definition rem_start :: "ProcessAttr \<Rightarrow> matrix \<Rightarrow> nat \<Rightarrow> nat" where
  "rem_start attr b l = allocatable attr l - (\<Sum>r<18. b l r)"

definition alloc_ok ::
  "ProcessAttr \<Rightarrow> PairRequestContext \<Rightarrow> (nat \<Rightarrow> nat) \<Rightarrow> matrix \<Rightarrow> nat \<Rightarrow> matrix \<times> (nat \<Rightarrow> nat) \<Rightarrow> bool" where
  "alloc_ok attr ctx eff b k st \<longleftrightarrow>
     feasible (nat (rc_nrLocalNuma ctx)) (act_pair attr ctx b) b (rem_start attr b) eff (fst st) \<and>
     (\<forall>l<nat (rc_nrLocalNuma ctx). snd st l + (\<Sum>r<18. fst st l r - b l r) = rem_start attr b l) \<and>
     (\<forall>l r. k \<le> r \<longrightarrow> fst st l r = b l r)"

lemma fold_current_weights:
  assumes "(\<Sum>l<n. q l) < 2 ^ 64" and "\<And>l. l < n \<Longrightarrow> q l < 2 ^ 64"
  shows "fold (\<lambda>l (c, w). let c = add64 c (q l) in
      if \<not> A l \<or> B l \<or> q l \<ge> UINT32_MAX then (c, w)
      else let room = sub64 UINT32_MAX (q l) in (c, w(l := min (rem l) room))) [0..<n] (0, \<lambda>_. 0) =
    (\<Sum>l<n. q l, \<lambda>l. if l < n \<and> A l \<and> \<not> B l \<and> q l < UINT32_MAX then min (rem l) (UINT32_MAX - q l) else 0)"
  using assms
  by (induction n) (auto simp: add64_eq sub64_eq Let_def fun_eq_iff less_Suc_eq)

lemma fold_add_column:
  "fold (\<lambda>l (q, rem). (q(l := (q l)(k := add64 (q l k) (a l))), rem(l := sub64 (rem l) (a l)))) [0..<n] (q, rem) =
    (\<lambda>l r. if l < n \<and> r = k then add64 (q l r) (a l) else q l r, \<lambda>l. if l < n then sub64 (rem l) (a l) else rem l)"
  by (induction n) (auto simp: fun_eq_iff less_Suc_eq)

lemma AllocateRemotePairRequest_eq:
  fixes ctx
  defines "n \<equiv> nat (rc_nrLocalNuma ctx)"
  assumes nr: "rc_nrLocalNuma ctx \<le> 8" and q: "\<And>l. q l r \<le> UINT32_MAX"
    and rem: "\<And>l. l < n \<Longrightarrow> rem l < 2 ^ 64" and req: "req < 2 ^ 64"
  shows "\<exists>a. AllocateRemotePairRequest attr ctx r req (q, rem) =
      (\<lambda>l k. if l < n \<and> k = r then q l k + a l else q l k, \<lambda>l. if l < n then rem l - a l else rem l) \<and>
    (\<forall>l<n. a l \<le> rem l \<and> q l r + a l \<le> UINT32_MAX \<and> (a l > 0 \<longrightarrow> pair_active attr ctx q l r)) \<and>
    (\<Sum>l<n. a l) \<le> req - (\<Sum>l<n. q l r)"
proof -
  let ?A = "\<lambda>l. InL1 (BuildActivePairMask attr ctx r) (int l)" and ?B = "\<lambda>l. nrPages attr l = 0"
  let ?w = "\<lambda>l. if l < n \<and> ?A l \<and> \<not> ?B l \<and> q l r < UINT32_MAX then min (rem l) (UINT32_MAX - q l r) else 0"
  let ?c = "\<Sum>l<n. q l r"
  have n8: "n \<le> 8" using nr by (simp add: n_def)
  have "?c \<le> n * UINT32_MAX" by (rule sum_bounded_nat) (rule q)
  then have c: "?c < 2 ^ 64" using n8 by simp
  have "(\<Sum>l<n. ?w l) \<le> n * UINT32_MAX" by (rule sum_bounded_nat) auto
  then have w: "(\<Sum>l<n. ?w l) < 2 ^ 64" using n8 by simp
  have fold: "fold (\<lambda>l (c, w). let c = add64 c (q l r) in
      if \<not> ?A l \<or> ?B l \<or> q l r \<ge> UINT32_MAX then (c, w)
      else let room = sub64 UINT32_MAX (q l r) in (c, w(l := min (rem l) room))) [0..<n] (0, \<lambda>_. 0) = (?c, ?w)"
  proof (rule fold_current_weights [where q = "\<lambda>l. q l r" and A = ?A and B = ?B and rem = rem, OF c])
    show "q l r < 2 ^ 64" for l using q [of l] by simp
  qed
  show ?thesis
  proof (cases "?c \<ge> req")
    case True
    then have "AllocateRemotePairRequest attr ctx r req (q, rem) = (q, rem)"
      unfolding AllocateRemotePairRequest_def n_def [symmetric] Let_def prod.case fold [unfolded Let_def] by (rule if_P)
    then show ?thesis using q by (intro exI [of _ "\<lambda>_. 0"]) (auto simp: fun_eq_iff)
  next
    case False
    define a where "a = DistributePairRequestPages (req - ?c) ?w n (\<lambda>_. 0)"
    have sub: "sub64 req ?c = req - ?c" using False req by (intro sub64_eq) auto
    have al: "a l \<le> ?w l" if "l < n" for l unfolding a_def by (rule request_split.split_le [OF w that])
    have al2: "a l \<le> rem l" "q l r + a l \<le> UINT32_MAX" "a l > 0 \<longrightarrow> pair_active attr ctx q l r" if "l < n" for l
      using that q [of l] al [OF that] by (auto simp: pair_active_def unat_gt_0 split: if_splits)
    have "AllocateRemotePairRequest attr ctx r req (q, rem) =
      (\<lambda>l k. if l < n \<and> k = r then add64 (q l k) (a l) else q l k, \<lambda>l. if l < n then sub64 (rem l) (a l) else rem l)"
      unfolding AllocateRemotePairRequest_def n_def [symmetric] Let_def prod.case fold [unfolded Let_def]
        sub a_def [symmetric] fold_add_column using False by (rule if_not_P)
    also have "\<dots> = (\<lambda>l k. if l < n \<and> k = r then q l k + a l else q l k, \<lambda>l. if l < n then rem l - a l else rem l)"
    proof -
      have "add64 (q l r) (a l) = q l r + a l" "sub64 (rem l) (a l) = rem l - a l" if "l < n" for l
        using al2 [OF that] rem [OF that] by (auto intro!: add64_eq sub64_eq)
      then show ?thesis by (intro prod_eqI ext) (simp_all cong: if_cong)
    qed
    finally show ?thesis using al2 request_split.split_at_most [OF w, of "req - ?c"] a_def by blast
  qed
qed

lemma act_pair_cong:
  assumes "\<And>l. q l r = b l r"
  shows "l < nat (rc_nrLocalNuma ctx) \<Longrightarrow> r < 18 \<Longrightarrow> pair_active attr ctx q l r \<longleftrightarrow> act_pair attr ctx b l r"
  using assms by (simp add: act_pair_def pair_active_def)

lemma alloc_ok_step:
  fixes ctx
  defines "n \<equiv> nat (rc_nrLocalNuma ctx)"
  assumes nr: "rc_nrLocalNuma ctx \<le> 8" and b: "\<And>l r. b l r \<le> UINT32_MAX" and k: "k < 18"
    and eff: "\<And>r. r < 18 \<Longrightarrow> eff r < 2 ^ 64" and ok: "alloc_ok attr ctx eff b k (q, rem)"
  shows "alloc_ok attr ctx eff b (Suc k) (AllocateRemotePairRequest attr ctx k (eff k) (q, rem))"
proof -
  have feas: "\<And>l r. b l r \<le> q l r" "\<And>l r. if act_pair attr ctx b l r then q l r \<le> UINT32_MAX else q l r = b l r"
    "\<And>r. r < 18 \<Longrightarrow> (\<Sum>l<n. q l r) \<le> eff r"
    and rem: "\<And>l. l < n \<Longrightarrow> rem l + (\<Sum>r<18. q l r - b l r) = rem_start attr b l"
    and low: "\<And>l r. k \<le> r \<Longrightarrow> q l r = b l r"
    using ok by (auto simp: alloc_ok_def feasible_def n_def)
  have "rem l < 2 ^ 64" if "l < n" for l
    using rem [OF that] allocatable_le [of attr l] by (simp add: rem_start_def)
  moreover have "q l k \<le> UINT32_MAX" for l using low [of k l] b [of l k] by simp
  ultimately obtain a where eq: "AllocateRemotePairRequest attr ctx k (eff k) (q, rem) =
      (\<lambda>l r. if l < n \<and> r = k then q l r + a l else q l r, \<lambda>l. if l < n then rem l - a l else rem l)"
    and a: "\<And>l. l < n \<Longrightarrow> a l \<le> rem l \<and> q l k + a l \<le> UINT32_MAX \<and> (a l > 0 \<longrightarrow> pair_active attr ctx q l k)"
    and suma: "(\<Sum>l<n. a l) \<le> eff k - (\<Sum>l<n. q l k)"
    using AllocateRemotePairRequest_eq [OF nr, of q k rem "eff k" attr] eff [OF k] unfolding n_def by blast
  let ?q = "\<lambda>l r. if l < n \<and> r = k then q l r + a l else q l r"
  have act: "act_pair attr ctx b l k" if "l < n" "a l > 0" for l
    using a [OF that(1)] that act_pair_cong [of q k b l ctx attr] low k by (auto simp: n_def)
  have 1: "b l r \<le> ?q l r \<and> (if act_pair attr ctx b l r then ?q l r \<le> UINT32_MAX else ?q l r = b l r)" for l r
  proof (cases "l < n \<and> r = k")
    case True
    then have "a l = 0" if "\<not> act_pair attr ctx b l r" using act [of l] that by auto
    with True show ?thesis using feas(1) [of l r] feas(2) [of l r] a [of l] by auto
  next
    case False
    then show ?thesis using feas(1,2) by (simp only: if_False simp_thms)
  qed
  have flow: "(\<Sum>r<18. ?q l r - b l r) = (\<Sum>r<18. q l r - b l r) + a l" if "l < n" for l
    using sum_upd_one [of "{..<18}" k "\<lambda>r. ?q l r - b l r" "\<lambda>r. q l r - b l r"] k that low [of k l] by auto
  have 2: "(rem l - a l) + (\<Sum>r<18. ?q l r - b l r) = rem_start attr b l" if "l < n" for l
    using rem [OF that] a [OF that] flow [OF that] by simp
  have 3: "(\<Sum>l<n. ?q l r) \<le> eff r" if "r < 18" for r
    using feas(3) [OF that] suma by (cases "r = k") (auto simp: sum.distrib)
  have 4: "(\<Sum>r<18. ?q l r - b l r) \<le> rem_start attr b l" if "l < n" for l
    unfolding 2 [OF that, symmetric] by (rule le_add2)
  have 5: "?q l r = b l r" if "Suc k \<le> r" for l r using low [of r l] that by simp
  have 6: "(if l < n then rem l - a l else rem l) + (\<Sum>r<18. ?q l r - b l r) = rem_start attr b l" if "l < n" for l
    using 2 [OF that] that by (simp only: if_True)
  have "feasible n (act_pair attr ctx b) b (rem_start attr b) eff ?q"
    unfolding feasible_def by (intro conjI allI impI) (fact 1 [THEN conjunct1] 1 [THEN conjunct2] 4 3)+
  then show ?thesis
    unfolding alloc_ok_def eq fst_conv snd_conv n_def [symmetric] using 5 6 by blast
qed

lemma alloc_ok_loop:
  assumes nr: "rc_nrLocalNuma ctx \<le> 8" and b: "\<And>l r. b l r \<le> UINT32_MAX"
    and eff: "\<And>r. r < 18 \<Longrightarrow> eff r < 2 ^ 64" and ok: "alloc_ok attr ctx eff b 0 st" and "k \<le> 18"
  shows "alloc_ok attr ctx eff b k (fold (\<lambda>r. AllocateRemotePairRequest attr ctx r (eff r)) [0..<k] st)"
  using \<open>k \<le> 18\<close>
proof (induction k)
  case (Suc k)
  obtain q rem where f: "fold (\<lambda>r. AllocateRemotePairRequest attr ctx r (eff r)) [0..<k] st = (q, rem)" by force
  have "alloc_ok attr ctx eff b (Suc k) (AllocateRemotePairRequest attr ctx k (eff k) (q, rem))"
    by (rule alloc_ok_step [OF nr b _ eff]) (use Suc f in auto)
  then show ?case using f by simp
qed (use ok in simp)

section \<open>The network of the requests\<close>

lemma fill_local_row_eq:
  assumes "distinct rs" and "set rs \<subseteq> {..<18}" and "l < 8"
    and "\<And>r. r \<in> set rs \<Longrightarrow> b l r \<le> q l r \<and> (if act l r then q l r \<le> UINT32_MAX else q l r = b l r)"
    and "lf + (\<Sum>r\<leftarrow>rs. q l r - b l r) < 2 ^ 63" and "\<And>r. r \<in> set rs \<Longrightarrow> rf r < 2 ^ 63"
  shows "fill_local_row act b q l rs (res, lf, rf) =
    Inr (\<lambda>u v. if u = Suc l \<and> v - 9 \<in> set rs \<and> 9 \<le> v \<and> act l (v - 9) then UINT32_MAX - q l (v - 9)
               else if v = Suc l \<and> u - 9 \<in> set rs \<and> 9 \<le> u \<and> act l (u - 9) then q l (u - 9) - b l (u - 9)
               else res u v,
         lf + (\<Sum>r\<leftarrow>rs. q l r - b l r), \<lambda>r. if r \<in> set rs then rf r + (q l r - b l r) else rf r)"
  using assms
proof (induction rs arbitrary: res lf rf)
  case (Cons r rs)
  have r: "b l r \<le> q l r" "if act l r then q l r \<le> UINT32_MAX else q l r = b l r" using Cons.prems(4) [of r] by auto
  have flow: "sub64 (q l r) (b l r) = q l r - b l r" if "act l r" using r that by (intro sub64_eq) auto
  have flow0: "sub64 (q l r) (b l r) = 0" if "\<not> act l r" using r that by simp
  show ?case
  proof (cases "act l r")
    case False
    have "fill_local_row act b q l (r # rs) (res, lf, rf) = fill_local_row act b q l rs (res, lf, rf)"
      using r False flow0 by (simp add: Let_def)
    also have "\<dots> = Inr (\<lambda>u v. if u = Suc l \<and> v - 9 \<in> set rs \<and> 9 \<le> v \<and> act l (v - 9) then UINT32_MAX - q l (v - 9)
               else if v = Suc l \<and> u - 9 \<in> set rs \<and> 9 \<le> u \<and> act l (u - 9) then q l (u - 9) - b l (u - 9)
               else res u v,
         lf + (\<Sum>r\<leftarrow>rs. q l r - b l r), \<lambda>r. if r \<in> set rs then rf r + (q l r - b l r) else rf r)"
    proof (rule Cons.IH)
      show "lf + (\<Sum>r\<leftarrow>rs. q l r - b l r) < 2 ^ 63" using Cons.prems(5) by simp
    qed (use Cons.prems(1-4,6) in auto)
    finally show ?thesis using False r by (auto simp: fun_eq_iff)
  next
    case True
    have lf: "add64 lf (q l r - b l r) = lf + (q l r - b l r)" using Cons.prems(5) by (intro add64_eq) simp
    have rf: "add64 (rf r) (q l r - b l r) = rf r + (q l r - b l r)"
      using Cons.prems(6) [of r] r True by (intro add64_eq) simp
    have room: "sub64 UINT32_MAX (q l r) = UINT32_MAX - q l r" using r True by (intro sub64_eq) auto
    let ?res = "set2 (9 + r) (1 + l) (q l r - b l r) (set2 (1 + l) (9 + r) (UINT32_MAX - q l r) res)"
    let ?rf = "rf(r := rf r + (q l r - b l r))"
    have "fill_local_row act b q l (r # rs) (res, lf, rf) =
        fill_local_row act b q l rs (?res, lf + (q l r - b l r), ?rf)"
      using r True by (simp add: Let_def flow lf [symmetric] rf [symmetric] room not_less)
    also have "\<dots> = Inr (\<lambda>u v. if u = Suc l \<and> v - 9 \<in> set rs \<and> 9 \<le> v \<and> act l (v - 9) then UINT32_MAX - q l (v - 9)
               else if v = Suc l \<and> u - 9 \<in> set rs \<and> 9 \<le> u \<and> act l (u - 9) then q l (u - 9) - b l (u - 9)
               else ?res u v,
         (lf + (q l r - b l r)) + (\<Sum>r\<leftarrow>rs. q l r - b l r), \<lambda>r. if r \<in> set rs then ?rf r + (q l r - b l r) else ?rf r)"
    proof (rule Cons.IH)
      show "lf + (q l r - b l r) + (\<Sum>r\<leftarrow>rs. q l r - b l r) < 2 ^ 63" using Cons.prems(5) by (simp add: add.assoc)
      show "?rf k < 2 ^ 63" if "k \<in> set rs" for k using Cons.prems(1) Cons.prems(6) [of k] that by auto
    qed (use Cons.prems(1-4) in auto)
    also have "\<dots> = Inr (\<lambda>u v. if u = Suc l \<and> v - 9 \<in> set (r # rs) \<and> 9 \<le> v \<and> act l (v - 9) then UINT32_MAX - q l (v - 9)
               else if v = Suc l \<and> u - 9 \<in> set (r # rs) \<and> 9 \<le> u \<and> act l (u - 9) then q l (u - 9) - b l (u - 9)
               else res u v,
         lf + (\<Sum>r\<leftarrow>r # rs. q l r - b l r), \<lambda>k. if k \<in> set (r # rs) then rf k + (q l k - b l k) else rf k)"
    proof -
      have nine: "u = 9 + r \<longleftrightarrow> 9 \<le> u \<and> u - 9 = r" for u by auto
      show ?thesis
        using True Cons.prems(1,3) by (auto simp: fun_eq_iff set2_def nine)
    qed
    finally show ?thesis .
  qed
qed simp

text \<open>The residual matrix after the rows of the local nodes \<open>ls\<close>.\<close>

definition local_rows :: "(nat \<Rightarrow> nat \<Rightarrow> bool) \<Rightarrow> matrix \<Rightarrow> matrix \<Rightarrow> (nat \<Rightarrow> nat) \<Rightarrow> nat set \<Rightarrow> residual \<Rightarrow> residual" where
  "local_rows act b q rem L res u v =
     (if u = 0 \<and> 1 \<le> v \<and> v - 1 \<in> L then rem (v - 1)
      else if v = 0 \<and> 1 \<le> u \<and> u - 1 \<in> L then \<Sum>r<18. q (u - 1) r - b (u - 1) r
      else if 1 \<le> u \<and> u - 1 \<in> L \<and> 9 \<le> v \<and> v < 27 \<and> act (u - 1) (v - 9) then UINT32_MAX - q (u - 1) (v - 9)
      else if 1 \<le> v \<and> v - 1 \<in> L \<and> 9 \<le> u \<and> u < 27 \<and> act (v - 1) (u - 9) then q (v - 1) (u - 9) - b (v - 1) (u - 9)
      else res u v)"

lemma local_rows_insert:
  assumes "l < 8" and "L \<subseteq> {..<8}" and "l \<notin> L"
  shows "local_rows act b q rem L
      (set2 (1 + l) 0 (\<Sum>r<18. q l r - b l r) (set2 0 (1 + l) (rem l)
        (\<lambda>u v. if u = Suc l \<and> v - 9 \<in> set [0..<18] \<and> 9 \<le> v \<and> act l (v - 9) then UINT32_MAX - q l (v - 9)
          else if v = Suc l \<and> u - 9 \<in> set [0..<18] \<and> 9 \<le> u \<and> act l (u - 9) then q l (u - 9) - b l (u - 9)
          else res u v))) =
    local_rows act b q rem (insert l L) res"
proof -
  show ?thesis
  proof (intro ext)
    fix u v
    consider "u = Suc l" | "u \<noteq> Suc l" "v = Suc l" | "\<not> (1 \<le> u \<and> u - 1 = l)" "\<not> (1 \<le> v \<and> v - 1 = l)" by force
    then show "local_rows act b q rem L
      (set2 (1 + l) 0 (\<Sum>r<18. q l r - b l r) (set2 0 (1 + l) (rem l)
        (\<lambda>u v. if u = Suc l \<and> v - 9 \<in> set [0..<18] \<and> 9 \<le> v \<and> act l (v - 9) then UINT32_MAX - q l (v - 9)
          else if v = Suc l \<and> u - 9 \<in> set [0..<18] \<and> 9 \<le> u \<and> act l (u - 9) then q l (u - 9) - b l (u - 9)
          else res u v))) u v = local_rows act b q rem (insert l L) res u v"
    proof cases
      case 1
      have "v - 9 < 18 \<and> 9 \<le> v \<longleftrightarrow> 9 \<le> v \<and> v < 27" by auto
      with 1 assms show ?thesis by (cases "v = 0") (auto simp: local_rows_def set2_def)
    next
      case 2
      have "u - 9 < 18 \<and> 9 \<le> u \<longleftrightarrow> 9 \<le> u \<and> u < 27" by auto
      with 2 assms show ?thesis by (cases "u = 0") (auto simp: local_rows_def set2_def)
    next
      case 3
      then show ?thesis by (cases u; cases v) (auto simp: local_rows_def set2_def)
    qed
  qed
qed

lemma fill_locals_eq:
  assumes "distinct ls" and "set ls \<subseteq> {..<8}"
    and "\<And>l r. l \<in> set ls \<Longrightarrow> r < 18 \<Longrightarrow> b l r \<le> q l r \<and> (if act l r then q l r \<le> UINT32_MAX else q l r = b l r)"
    and "\<And>l. l \<in> set ls \<Longrightarrow> (\<Sum>r<18. q l r - b l r) < 2 ^ 63" and "\<And>r. r < 18 \<Longrightarrow> rf r + (\<Sum>l\<leftarrow>ls. q l r - b l r) < 2 ^ 63"
  shows "\<exists>rf'. fill_locals act b q rem ls (res, rf) = Inr (local_rows act b q rem (set ls) res, rf') \<and>
    (\<forall>r<18. rf' r = rf r + (\<Sum>l\<leftarrow>ls. q l r - b l r))"
  using assms
proof (induction ls arbitrary: res rf)
  case Nil
  then show ?case by (auto simp: local_rows_def fun_eq_iff)
next
  case (Cons l ls)
  let ?row = "\<lambda>u v. if u = Suc l \<and> v - 9 \<in> set [0..<18] \<and> 9 \<le> v \<and> act l (v - 9) then UINT32_MAX - q l (v - 9)
      else if v = Suc l \<and> u - 9 \<in> set [0..<18] \<and> 9 \<le> u \<and> act l (u - 9) then q l (u - 9) - b l (u - 9)
      else res u v"
  let ?rf = "\<lambda>r. if r \<in> set [0..<18] then rf r + (q l r - b l r) else rf r"
  have row: "fill_local_row act b q l [0..<18] (res, 0, rf) = Inr (?row, 0 + (\<Sum>r\<leftarrow>[0..<18]. q l r - b l r), ?rf)"
  proof (rule fill_local_row_eq)
    fix r :: nat
    assume "r \<in> set [0..<18]"
    then have r: "r < 18" by simp
    show "b l r \<le> q l r \<and> (if act l r then q l r \<le> UINT32_MAX else q l r = b l r)" using Cons.prems(3) [OF _ r] by simp
    show "rf r < 2 ^ 63" using Cons.prems(5) [OF r] by simp
  qed (use Cons.prems(2) Cons.prems(4) [of l] in \<open>auto simp: sum_list_upt\<close>)
  have "\<exists>rf'. fill_locals act b q rem ls (set2 (1 + l) 0 (\<Sum>r<18. q l r - b l r) (set2 0 (1 + l) (rem l) ?row), ?rf) =
      Inr (local_rows act b q rem (set ls) (set2 (1 + l) 0 (\<Sum>r<18. q l r - b l r) (set2 0 (1 + l) (rem l) ?row)), rf') \<and>
      (\<forall>r<18. rf' r = ?rf r + (\<Sum>l\<leftarrow>ls. q l r - b l r))"
  proof (rule Cons.IH)
    show "?rf r + (\<Sum>l\<leftarrow>ls. q l r - b l r) < 2 ^ 63" if "r < 18" for r
      using Cons.prems(5) [OF that] that by (simp add: add.assoc)
  qed (use Cons.prems(1-4) in auto)
  then obtain rf' where rf': "fill_locals act b q rem ls (set2 (1 + l) 0 (\<Sum>r<18. q l r - b l r) (set2 0 (1 + l) (rem l) ?row), ?rf) =
      Inr (local_rows act b q rem (set ls) (set2 (1 + l) 0 (\<Sum>r<18. q l r - b l r) (set2 0 (1 + l) (rem l) ?row)), rf')"
    "\<forall>r<18. rf' r = ?rf r + (\<Sum>l\<leftarrow>ls. q l r - b l r)" by blast
  have "local_rows act b q rem (set ls) (set2 (1 + l) 0 (\<Sum>r<18. q l r - b l r) (set2 0 (1 + l) (rem l) ?row)) =
      local_rows act b q rem (insert l (set ls)) res"
    using Cons.prems(1,2) by (intro local_rows_insert) auto
  then have "fill_locals act b q rem (l # ls) (res, rf) = Inr (local_rows act b q rem (set (l # ls)) res, rf')"
    using rf'(1) unfolding fill_locals.simps row sum.case prod.case Let_def add_0 sum_list_upt by simp
  then show ?case using rf'(2) by auto
qed

lemma fill_remotes_eq:
  assumes "distinct rs" and "set rs \<subseteq> {..<18}" and "\<And>r. r \<in> set rs \<Longrightarrow> (\<Sum>l<n. q l r) \<le> rs_effectiveRemotePages s r"
    and "\<And>r. r \<in> set rs \<Longrightarrow> rs_effectiveRemotePages s r < 2 ^ 64"
  shows "fill_remotes n s q rf rs res =
    Inr (\<lambda>u v. if v = 27 \<and> 9 \<le> u \<and> u - 9 \<in> set rs then rs_effectiveRemotePages s (u - 9) - (\<Sum>l<n. q l (u - 9))
               else if u = 27 \<and> 9 \<le> v \<and> v - 9 \<in> set rs then rf (v - 9) else res u v)"
  using assms
proof (induction rs arbitrary: res)
  case (Cons r rs)
  let ?e = "rs_effectiveRemotePages s"
  have c: "(\<Sum>l<n. q l r) \<le> ?e r" "?e r < 2 ^ 64" using Cons.prems(3,4) [of r] by auto
  then have sum: "loop_sum (\<lambda>l. q l r) [0..<n] 0 = (\<Sum>l<n. q l r)" by (intro loop_sum_upt) simp
  have sub: "sub64 (?e r) (\<Sum>l<n. q l r) = ?e r - (\<Sum>l<n. q l r)" using c by (intro sub64_eq)
  let ?res = "set2 27 (9 + r) (rf r) (set2 (9 + r) 27 (?e r - (\<Sum>l<n. q l r)) res)"
  have "fill_remotes n s q rf (r # rs) res = fill_remotes n s q rf rs ?res"
    using c by (simp add: Let_def sum sub)
  also have "\<dots> = Inr (\<lambda>u v. if v = 27 \<and> 9 \<le> u \<and> u - 9 \<in> set rs then ?e (u - 9) - (\<Sum>l<n. q l (u - 9))
               else if u = 27 \<and> 9 \<le> v \<and> v - 9 \<in> set rs then rf (v - 9) else ?res u v)"
    using Cons.prems by (intro Cons.IH) auto
  also have "\<dots> = Inr (\<lambda>u v. if v = 27 \<and> 9 \<le> u \<and> u - 9 \<in> set (r # rs) then ?e (u - 9) - (\<Sum>l<n. q l (u - 9))
               else if u = 27 \<and> 9 \<le> v \<and> v - 9 \<in> set (r # rs) then rf (v - 9) else res u v)"
  proof -
    have nine: "u = 9 + r \<longleftrightarrow> 9 \<le> u \<and> u - 9 = r" for u by auto
    show ?thesis using Cons.prems(2) by (auto simp: fun_eq_iff set2_def nine)
  qed
  finally show ?case .
qed simp

section \<open>Completing the assignment\<close>

lemma fill_network:
  assumes n: "n \<le> 8" and act: "\<And>l r. act' l r \<longleftrightarrow> l < n \<and> r < 18 \<and> act l r"
    and feas: "feasible n act' b rem0 eff q" and rem: "\<And>l. l < n \<Longrightarrow> rem l + (\<Sum>r<18. q l r - b l r) = rem0 l"
    and rf: "\<And>r. r < 18 \<Longrightarrow> rf r = (\<Sum>l<n. q l r - b l r)"
  shows "(\<lambda>u v. if v = 27 \<and> 9 \<le> u \<and> u - 9 \<in> {0..<18} then eff (u - 9) - (\<Sum>l<n. q l (u - 9))
      else if u = 27 \<and> 9 \<le> v \<and> v - 9 \<in> {0..<18} then rf (v - 9)
      else local_rows act b q rem {0..<n} (\<lambda>_ _. 0) u v) = request_network n act' b rem0 eff q"
proof (intro ext)
  have rem': "rem l = rem0 l - (\<Sum>r<18. q l r - b l r)" if "l < n" for l using rem [OF that] by simp
  fix u v
  show "(if v = 27 \<and> 9 \<le> u \<and> u - 9 \<in> {0..<18} then eff (u - 9) - (\<Sum>l<n. q l (u - 9))
      else if u = 27 \<and> 9 \<le> v \<and> v - 9 \<in> {0..<18} then rf (v - 9)
      else local_rows act b q rem {0..<n} (\<lambda>_ _. 0) u v) = request_network n act' b rem0 eff q u v"
    by (cases u rule: node_cases; cases v rule: node_cases)
      (use n in \<open>auto simp: local_rows_def act rem' rf\<close>)
qed

lemma fold_set_all:
  "fold (\<lambda>l q. fold (\<lambda>r q. set2 l r (f l r) q) [0..<m] q) [0..<n] q =
    (\<lambda>l r. if l < n \<and> r < m then f l r else q l r)"
proof -
  have inner: "fold (\<lambda>r q. set2 l r (f l r) q) [0..<m] q = (\<lambda>k r. if k = l \<and> r < m then f l r else q k r)" for l q
    by (induction m) (auto simp: set2_def fun_eq_iff less_Suc_eq)
  show ?thesis unfolding inner by (induction n) (auto simp: fun_eq_iff less_Suc_eq)
qed

definition best_extension :: "ProcessAttr \<Rightarrow> PairRequestContext \<Rightarrow> matrix \<Rightarrow> (nat \<Rightarrow> nat) \<Rightarrow> matrix \<Rightarrow> bool" where
  "best_extension attr ctx b eff q \<longleftrightarrow>
     feasible (nat (rc_nrLocalNuma ctx)) (act_pair attr ctx b) b (rem_start attr b) eff q \<and>
     (\<forall>p. feasible (nat (rc_nrLocalNuma ctx)) (act_pair attr ctx b) b (rem_start attr b) eff p \<longrightarrow>
       total_requests (nat (rc_nrLocalNuma ctx)) p \<le> total_requests (nat (rc_nrLocalNuma ctx)) q)"

text \<open>
  Completing a feasible assignment never fails, and assigns as many pages as any assignment could
  that extends the same baseline.
\<close>

lemma CompletePairRequestAllocation_gen:
  fixes ctx
  defines "n \<equiv> nat (rc_nrLocalNuma ctx)"
  assumes nr: "rc_nrLocalNuma ctx \<le> 8" and b: "\<And>l r. b l r \<le> UINT32_MAX"
    and eff: "\<And>r. r < 18 \<Longrightarrow> rs_effectiveRemotePages s r < 2 ^ 63"
    and ok: "alloc_ok attr ctx (rs_effectiveRemotePages s) b 18 (q, rem)"
  shows "\<exists>q'. CompletePairRequestAllocation attr ctx s b q rem = Inr q' \<and> best_extension attr ctx b (rs_effectiveRemotePages s) q'"
proof -
  let ?act = "pair_active attr ctx b" and ?act' = "act_pair attr ctx b" and ?eff = "rs_effectiveRemotePages s"
  have n: "n \<le> 8" using nr by (simp add: n_def)
  have act: "?act' l r \<longleftrightarrow> l < n \<and> r < 18 \<and> ?act l r" for l r by (simp add: act_pair_def n_def)
  have feas: "feasible n ?act' b (rem_start attr b) ?eff q"
    and rem: "\<And>l. l < n \<Longrightarrow> rem l + (\<Sum>r<18. q l r - b l r) = rem_start attr b l"
    using ok by (auto simp: alloc_ok_def n_def)
  have pair: "b l r \<le> q l r \<and> (if ?act' l r then q l r \<le> UINT32_MAX else q l r = b l r)" for l r
    using feas by (simp add: feasible_def)
  have start: "rem_start attr b l < 2 ^ 63" for l
    using allocatable_le [of attr l] by (simp add: rem_start_def less_imp_diff_less)
  have column: "(\<Sum>l<n. q l r - b l r) < 2 ^ 63" if "r < 18" for r
    using feasible_sum_flow [OF feas, of r] feas eff [OF that] that by (auto simp: feasible_def)
  have "\<exists>rf. fill_locals ?act b q rem [0..<n] (\<lambda>_ _. 0, \<lambda>_. 0) = Inr (local_rows ?act b q rem (set [0..<n]) (\<lambda>_ _. 0), rf) \<and>
      (\<forall>r<18. rf r = 0 + (\<Sum>l\<leftarrow>[0..<n]. q l r - b l r))"
  proof (rule fill_locals_eq)
    fix l r
    show "b l r \<le> q l r \<and> (if ?act l r then q l r \<le> UINT32_MAX else q l r = b l r)" if "l \<in> set [0..<n]" "r < 18"
      using pair [of l r] act [of l r] that by simp
    show "(\<Sum>r<18. q l r - b l r) < 2 ^ 63" if "l \<in> set [0..<n]"
      using rem [of l] start [of l] that by simp
    show "0 + (\<Sum>l\<leftarrow>[0..<n]. q l r - b l r) < 2 ^ 63" if "r < 18" using column [OF that] by (simp add: sum_list_upt)
  qed (use n in auto)
  then obtain rf where loc: "fill_locals ?act b q rem [0..<n] (\<lambda>_ _. 0, \<lambda>_. 0) = Inr (local_rows ?act b q rem {0..<n} (\<lambda>_ _. 0), rf)"
    and rf: "\<And>r. r < 18 \<Longrightarrow> rf r = (\<Sum>l<n. q l r - b l r)"
    by (auto simp: sum_list_upt)
  let ?net = "request_network n ?act' b (rem_start attr b) ?eff q"
  have "fill_remotes n s q rf [0..<18] (local_rows ?act b q rem {0..<n} (\<lambda>_ _. 0)) =
    Inr (\<lambda>u v. if v = 27 \<and> 9 \<le> u \<and> u - 9 \<in> set [0..<18] then ?eff (u - 9) - (\<Sum>l<n. q l (u - 9))
               else if u = 27 \<and> 9 \<le> v \<and> v - 9 \<in> set [0..<18] then rf (v - 9)
               else local_rows ?act b q rem {0..<n} (\<lambda>_ _. 0) u v)"
  proof (rule fill_remotes_eq)
    show "(\<Sum>l<n. q l r) \<le> ?eff r" if "r \<in> set [0..<18]" for r using feas that by (simp add: feasible_def)
    show "?eff r < 2 ^ 64" if "r \<in> set [0..<18]" for r using eff [of r] that by simp
  qed (auto simp: lessThan_atLeast0)
  also have "\<dots> = Inr ?net" unfolding set_upt using fill_network [OF n act feas rem rf] by (rule arg_cong)
  finally have rmt: "fill_remotes n s q rf [0..<18] (local_rows ?act b q rem {0..<n} (\<lambda>_ _. 0)) = Inr ?net" .
  define res where "res = CompletePairRequestFlow ?net (\<lambda>_. 0)"
  have best: "best_extension attr ctx b (rs_effectiveRemotePages s) (solved_requests n b res)"
    unfolding best_extension_def n_def [symmetric]
    by (rule request_flow.solved_requests_maximal [OF n _ b feas]) (use act start eff in \<open>auto simp: res_def\<close>)
  moreover have "CompletePairRequestAllocation attr ctx s b q rem =
      Inr (\<lambda>l r. if l < n \<and> r < 18 then add64 (b l r) (res (9 + r) (1 + l)) else q l r)"
    unfolding CompletePairRequestAllocation_def n_def [symmetric] Let_def loc sum.case prod.case rmt
      res_def [symmetric] fold_set_all ..
  moreover have "(\<lambda>l r. if l < n \<and> r < 18 then add64 (b l r) (res (9 + r) (1 + l)) else q l r) = solved_requests n b res"
  proof (intro ext)
    fix l r
    have le: "solved_requests n b res l r \<le> UINT32_MAX"
      using best b [of l r] feasible_u32 by (auto simp: best_extension_def)
    show "(if l < n \<and> r < 18 then add64 (b l r) (res (9 + r) (1 + l)) else q l r) = solved_requests n b res l r"
    proof (cases "l < n \<and> r < 18")
      case True
      then have "add64 (b l r) (res (9 + r) (1 + l)) = b l r + res (9 + r) (1 + l)"
        using le by (intro add64_eq) (simp add: solved_requests_def)
      with True show ?thesis by (simp add: solved_requests_def)
    next
      case False
      then have "\<not> ?act' l r" using act by blast
      then have "q l r = b l r" using pair [of l r] by simp
      then show ?thesis unfolding solved_requests_def if_not_P [OF False] .
    qed
  qed
  ultimately show ?thesis by auto
qed

section \<open>The requested targets of a process\<close>

lemma build_unassigned_eq:
  assumes "set rs \<subseteq> {..<18}" and "\<And>r. r < 18 \<Longrightarrow> (\<Sum>l<n. q l r) \<le> rs_effectiveRemotePages s r"
    and "\<And>r. r < 18 \<Longrightarrow> rs_effectiveRemotePages s r < 2 ^ 63"
  shows "build_unassigned n q rs s = Inr (s\<lparr>rs_unassignedRequestedPages :=
    \<lambda>r. if r \<in> set rs then rs_effectiveRemotePages s r - (\<Sum>l<n. q l r) else rs_unassignedRequestedPages s r\<rparr>)"
  using assms
proof (induction rs arbitrary: s)
  case (Cons r rs)
  let ?e = "rs_effectiveRemotePages s"
  have r: "(\<Sum>l<n. q l r) \<le> ?e r" "?e r < 2 ^ 63" using Cons.prems by auto
  then have sum: "loop_sum (\<lambda>l. q l r) [0..<n] 0 = (\<Sum>l<n. q l r)" by (intro loop_sum_upt) simp
  have sub: "sub64 (?e r) (\<Sum>l<n. q l r) = ?e r - (\<Sum>l<n. q l r)" using r by (intro sub64_eq) auto
  let ?s = "s\<lparr>rs_unassignedRequestedPages := (rs_unassignedRequestedPages s)(r := ?e r - (\<Sum>l<n. q l r))\<rparr>"
  have "build_unassigned n q (r # rs) s = build_unassigned n q rs ?s" using r by (simp add: Let_def sum sub)
  also have "\<dots> = Inr (?s\<lparr>rs_unassignedRequestedPages :=
    \<lambda>k. if k \<in> set rs then rs_effectiveRemotePages ?s k - (\<Sum>l<n. q l k) else rs_unassignedRequestedPages ?s k\<rparr>)"
    using Cons.prems by (intro Cons.IH) auto
  also have "\<dots> = Inr (s\<lparr>rs_unassignedRequestedPages := \<lambda>k. if k \<in> set (r # rs) then ?e k - (\<Sum>l<n. q l k)
      else rs_unassignedRequestedPages s k\<rparr>)"
  proof -
    have "(\<lambda>k. if k \<in> set rs then rs_effectiveRemotePages ?s k - (\<Sum>l<n. q l k) else rs_unassignedRequestedPages ?s k) =
      (\<lambda>k. if k \<in> set (r # rs) then ?e k - (\<Sum>l<n. q l k) else rs_unassignedRequestedPages s k)" by auto
    then show ?thesis by simp
  qed
  finally show ?case .
qed simp

text \<open>The target of a pair, as the last loop writes it.\<close>

definition pair_target :: "ProcessAttr \<Rightarrow> PairRequestContext \<Rightarrow> matrix \<Rightarrow> nat \<times> nat \<Rightarrow> PairTarget" where
  "pair_target attr ctx q = (\<lambda>(local, remote).
     \<lparr>pt_pid = pa_pid attr, pt_localNid = int local, pt_remoteNid = rc_nrLocalNuma ctx + int remote,
      pt_requestedPages = of_nat (q local remote), pt_targetPages = 0\<rparr>)"

text \<open>
  What a summary promises: the requests are the configured ones, the effective requests cover
  them as far as the managed pages reach, and every effective page is assigned or unassigned.
\<close>

definition summary_ok :: "ProcessAttr \<Rightarrow> PairRequestContext \<Rightarrow> matrix \<Rightarrow> PairRequestSummary \<Rightarrow> bool" where
  "summary_ok attr ctx q s \<longleftrightarrow>
     rs_managedTotalPages s = BuildManagedTotalPages attr (rc_nrLocalNuma ctx) \<and>
     (\<forall>r<18. rs_requestedRemotePages s r = requested_pages attr ctx (rs_managedTotalPages s) r \<and>
       rs_effectiveRemotePages s r \<le> rs_requestedRemotePages s r \<and>
       (\<Sum>l<nat (rc_nrLocalNuma ctx). q l r) + rs_unassignedRequestedPages s r = rs_effectiveRemotePages s r) \<and>
     (\<Sum>r<18. rs_effectiveRemotePages s r) = min (rs_managedTotalPages s) (\<Sum>r<18. rs_requestedRemotePages s r)"

text \<open>The preserved accounts of a process, on which its requests are built.\<close>

definition preserved :: "ProcessAttr \<Rightarrow> PairRequestContext \<Rightarrow> (nat \<Rightarrow> nat) \<Rightarrow> matrix \<Rightarrow> bool" where
  "preserved attr ctx eff b \<longleftrightarrow>
     (\<forall>l r. b l r \<le> eligible_account attr ctx r l) \<and>
     (\<forall>r<18. (\<Sum>l<nat (rc_nrLocalNuma ctx). b l r) =
       min (eff r) (\<Sum>l<nat (rc_nrLocalNuma ctx). eligible_account attr ctx r l))"

lemma preserved_u32: "preserved attr ctx eff b \<Longrightarrow> b l r \<le> UINT32_MAX"
proof -
  assume "preserved attr ctx eff b"
  then have "b l r \<le> eligible_account attr ctx r l" by (simp add: preserved_def)
  also have "\<dots> \<le> UINT32_MAX" by (simp add: eligible_account_def)
  finally show ?thesis .
qed

lemma effective_summary:
  assumes ok: "request_input_ok attr ctx"
    and s0: "s0 = BuildRequestedRemotePages attr ctx
      (PairRequestSummary_zero\<lparr>rs_managedTotalPages := BuildManagedTotalPages attr (rc_nrLocalNuma ctx)\<rparr>)"
    and s: "s = BuildEffectiveRemotePages attr ctx s0"
  shows "rs_managedTotalPages s = BuildManagedTotalPages attr (rc_nrLocalNuma ctx)"
    and "r < 18 \<Longrightarrow> rs_requestedRemotePages s r = requested_pages attr ctx (rs_managedTotalPages s) r"
    and "r < 18 \<Longrightarrow> rs_effectiveRemotePages s r \<le> rs_requestedRemotePages s r"
    and "r < 18 \<Longrightarrow> rs_effectiveRemotePages s r < 2 ^ 63"
    and "(\<Sum>r<18. rs_effectiveRemotePages s r) = min (rs_managedTotalPages s) (\<Sum>r<18. rs_requestedRemotePages s r)"
proof -
  let ?M = "BuildManagedTotalPages attr (rc_nrLocalNuma ctx)" and ?n = "nat (rc_nrLocalNuma ctx)"
  have nr: "0 < rc_nrLocalNuma ctx" "rc_nrLocalNuma ctx \<le> 8" using ok by (auto simp: request_input_ok_def)
  note M = BuildManagedTotalPages_eq [OF nr, of attr]
  have M57: "?M < 2 ^ 57" using M(2) by simp
  have s0': "s0 = PairRequestSummary_zero\<lparr>rs_managedTotalPages := ?M, rs_requestedRemotePages := requested_pages attr ctx ?M\<rparr>"
    unfolding s0 by (subst BuildRequestedRemotePages_eq [OF ok]) (use M57 in \<open>simp_all add: PairRequestSummary_zero_def\<close>)
  have req: "rs_requestedRemotePages s0 r \<le> 2 ^ 57" if "r < 18" for r
    using requested_pages_le [OF ok, of ?M r] M57 by (simp add: s0' max_def split: if_splits)
  have base: "(\<Sum>r<18. min (unat (nrPages attr (?n + r))) (rs_requestedRemotePages s0 r)) \<le> rs_managedTotalPages s0"
  proof -
    have "(\<Sum>r<18. min (unat (nrPages attr (?n + r))) (rs_requestedRemotePages s0 r)) \<le> (\<Sum>r<18. unat (nrPages attr (?n + r)))"
      by (intro sum_mono) simp
    also have "\<dots> \<le> ?M" by (simp add: M(1))
    finally show ?thesis by (simp add: s0')
  qed
  have m: "rs_managedTotalPages s0 \<le> 2 ^ 57" using M57 by (simp add: s0')
  note e = BuildEffectiveRemotePages_gen [OF req m base s]
  show "rs_managedTotalPages s = ?M" "r < 18 \<Longrightarrow> rs_requestedRemotePages s r = requested_pages attr ctx (rs_managedTotalPages s) r"
    using e(4,5) by (simp_all add: s0')
  show "r < 18 \<Longrightarrow> rs_effectiveRemotePages s r \<le> rs_requestedRemotePages s r" using e(1,4) by simp
  show "rs_effectiveRemotePages s r < 2 ^ 63" if "r < 18" using e(1) [of r] req [of r] that by simp
  show "(\<Sum>r<18. rs_effectiveRemotePages s r) = min (rs_managedTotalPages s) (\<Sum>r<18. rs_requestedRemotePages s r)"
    using e(3,4,5) by simp
qed

lemma BuildPairRequestedTargets_gen:
  assumes ok: "request_input_ok attr ctx"
  shows "\<exists>b q s. BuildPairRequestedTargets attr ctx cap =
      (if length (requested_pairs attr (nat (rc_nrLocalNuma ctx)) q) > cap then Inl ENOSPC
       else Inr (map (pair_target attr ctx q) (requested_pairs attr (nat (rc_nrLocalNuma ctx)) q), s)) \<and>
    summary_ok attr ctx q s \<and> preserved attr ctx (rs_effectiveRemotePages s) b \<and>
    best_extension attr ctx b (rs_effectiveRemotePages s) q"
proof -
  let ?n = "nat (rc_nrLocalNuma ctx)"
  have nr: "0 < rc_nrLocalNuma ctx" "rc_nrLocalNuma ctx \<le> 8" using ok by (auto simp: request_input_ok_def)
  have valid: "ValidatePairRequestInput attr ctx = Inr ()" using ok by (simp add: ValidatePairRequestInput_iff_gen)
  define s0 where "s0 = BuildRequestedRemotePages attr ctx
      (PairRequestSummary_zero\<lparr>rs_managedTotalPages := BuildManagedTotalPages attr (rc_nrLocalNuma ctx)\<rparr>)"
  define s1 where "s1 = BuildEffectiveRemotePages attr ctx s0"
  note s1 = effective_summary [OF ok s0_def s1_def]
  let ?e = "rs_effectiveRemotePages s1"
  define b where "b = PreservePairAccounts attr ctx s1 (\<lambda>_ _. 0)"
  note b = PreservePairAccounts_gen [OF nr b_def]
  have pres: "preserved attr ctx ?e b" using b(1,3) by (simp add: preserved_def)
  have b_acc: "b l r \<le> unat (account attr l r)" for l r
    using b(1) [of l r] by (auto simp: eligible_account_def intro: le_trans split: if_splits)
  define rem0 where "rem0 = BuildLocalRemainingPages attr ctx b (\<lambda>_. 0)"
  have rem0: "rem0 l = rem_start attr b l" if "l < ?n" for l
    using BuildLocalRemainingPages_eq [OF b_acc] that by (simp add: rem0_def rem_start_def)
  have "alloc_ok attr ctx ?e b 0 (b, rem0)"
    using b(3) preserved_u32 [OF pres] rem0 by (auto simp: alloc_ok_def feasible_def)
  then have loop: "alloc_ok attr ctx ?e b 18 (fold (\<lambda>r. AllocateRemotePairRequest attr ctx r (?e r)) [0..<18] (b, rem0))"
    using preserved_u32 [OF pres] less_trans [OF s1(4), of _ "2 ^ 64"] by (intro alloc_ok_loop [OF nr(2)]) auto
  obtain q0 rem where st: "fold (\<lambda>r. AllocateRemotePairRequest attr ctx r (?e r)) [0..<18] (b, rem0) = (q0, rem)" by force
  obtain q where q: "CompletePairRequestAllocation attr ctx s1 b q0 rem = Inr q" "best_extension attr ctx b ?e q"
    using CompletePairRequestAllocation_gen [OF nr(2) preserved_u32 [OF pres] s1(4) loop [unfolded st]] by blast
  have le: "(\<Sum>l<?n. q l r) \<le> ?e r" if "r < 18" for r
    using q(2) that by (auto simp: best_extension_def feasible_def)
  define s where "s = s1\<lparr>rs_unassignedRequestedPages :=
    \<lambda>r. if r \<in> set [0..<18] then ?e r - (\<Sum>l<?n. q l r) else rs_unassignedRequestedPages s1 r\<rparr>"
  have un: "build_unassigned ?n q [0..<18] s1 = Inr s"
    unfolding s_def using le s1(4) by (intro build_unassigned_eq) (auto simp: lessThan_atLeast0)
  have "BuildPairRequestedTargets attr ctx cap =
      (if length (requested_pairs attr ?n q) > cap then Inl ENOSPC
       else Inr (map (pair_target attr ctx q) (requested_pairs attr ?n q), s))"
    unfolding BuildPairRequestedTargets_def valid sum.case Let_def s0_def [symmetric] s1_def [symmetric] b_def [symmetric]
      rem0_def [symmetric] st prod.case q(1) un pair_target_def ..
  moreover have "summary_ok attr ctx q s"
    using s1(1,2,3,5) le by (simp add: summary_ok_def s_def)
  moreover have "rs_effectiveRemotePages s = ?e" by (simp add: s_def)
  ultimately show ?thesis using pres q(2) by metis
qed

section \<open>Properties\<close>

text \<open>C38. The split of pages by weight is the reference split: the rounded-down proportional share, and one more page
  each to the first entries until the rest is gone. All pages that fit the weights are given out and no entry gets
  more than its weight.\<close>

theorem DistributePairRequestPages_apportion:
  assumes "(\<Sum>i<n. w i) < 2 ^ 64"
  shows "(\<forall>i<n. DistributePairRequestPages pages w n (\<lambda>_. 0) i = apportion (min pages (\<Sum>i<n. w i)) w [0..<n] i \<and>
      DistributePairRequestPages pages w n (\<lambda>_. 0) i \<le> w i) \<and>
    (\<Sum>i<n. DistributePairRequestPages pages w n (\<lambda>_. 0) i) = min pages (\<Sum>i<n. w i)"
  using DistributePairRequestPages_eq [OF assms] request_split.split_sum [OF assms] request_split.split_le [OF assms] by simp

theorem DistributePairRequestPages_apportion_witness:
  "(\<Sum>i<3. DistributePairRequestPages 7 (\<lambda>i. i + 2) 3 (\<lambda>_. 0) i) = 7"
proof -
  have w: "(\<Sum>i<3. i + 2) = (9 :: nat)" by (simp add: eval_nat_numeral)
  have "(\<Sum>i<3. i + 2) < (2 ^ 64 :: nat)" unfolding w by simp
  from conjunct2 [OF DistributePairRequestPages_apportion [OF this, of 7]] show ?thesis unfolding w by simp
qed

text \<open>C2. For a valid request the assignment of pages to pairs always succeeds unless the target array is too small
  (it never reports \<^verbatim>\<open>-ERANGE\<close>); the summary it returns is exact: the effective requests are the configured ones as far as the
  managed pages reach, and every effective page is either assigned to a pair or counted as unassigned.\<close>

theorem BuildPairRequestedTargets_total:
  assumes "request_input_ok attr ctx"
  shows "\<exists>q s. BuildPairRequestedTargets attr ctx cap =
      (if length (requested_pairs attr (nat (rc_nrLocalNuma ctx)) q) > cap then Inl ENOSPC
       else Inr (map (pair_target attr ctx q) (requested_pairs attr (nat (rc_nrLocalNuma ctx)) q), s)) \<and>
    summary_ok attr ctx q s"
  using BuildPairRequestedTargets_gen [OF assms, of cap] by blast

theorem BuildPairRequestedTargets_total_witness:
  "\<exists>q s. summary_ok ProcessAttr_zero \<lparr>rc_nrLocalNuma = 2, rc_pageSizeKB = 4, rc_capacityLocalMask = (\<lambda>_. 3)\<rparr> q s"
proof -
  have "request_input_ok ProcessAttr_zero \<lparr>rc_nrLocalNuma = 2, rc_pageSizeKB = 4, rc_capacityLocalMask = (\<lambda>_. 3)\<rparr>"
    by (simp add: request_input_ok_def ProcessAttr_zero_def ProcessTargetConfig_zero_def config_distinct_def config_targets_def)
  from BuildPairRequestedTargets_total [OF this] show ?thesis by blast
qed

text \<open>C1. The assignment is the best one: it extends the preserved accounts, gives pages to active pairs only, takes from no
  local node more than it has and gives to no remote node more than its effective request, and no other such assignment gives
  out more pages in total.\<close>

theorem BuildPairRequestedTargets_optimal:
  assumes "BuildPairRequestedTargets attr ctx cap = Inr (targets, s)"
  shows "\<exists>b q. targets = map (pair_target attr ctx q) (requested_pairs attr (nat (rc_nrLocalNuma ctx)) q) \<and>
    preserved attr ctx (rs_effectiveRemotePages s) b \<and> best_extension attr ctx b (rs_effectiveRemotePages s) q"
proof -
  have "request_input_ok attr ctx"
    using assms by (auto simp: BuildPairRequestedTargets_def ValidatePairRequestInput_iff_gen [symmetric] split: sum.splits)
  from BuildPairRequestedTargets_gen [OF this, of cap] assms show ?thesis by (auto split: if_splits)
qed

theorem BuildPairRequestedTargets_optimal_witness:
  "\<exists>targets s b q. BuildPairRequestedTargets ProcessAttr_zero
      \<lparr>rc_nrLocalNuma = 2, rc_pageSizeKB = 4, rc_capacityLocalMask = (\<lambda>_. 3)\<rparr> 36 = Inr (targets, s) \<and>
    best_extension ProcessAttr_zero \<lparr>rc_nrLocalNuma = 2, rc_pageSizeKB = 4, rc_capacityLocalMask = (\<lambda>_. 3)\<rparr> b
      (rs_effectiveRemotePages s) q"
proof -
  let ?ctx = "\<lparr>rc_nrLocalNuma = 2, rc_pageSizeKB = 4, rc_capacityLocalMask = (\<lambda>_. 3)\<rparr>"
  have ok: "request_input_ok ProcessAttr_zero ?ctx"
    by (simp add: request_input_ok_def ProcessAttr_zero_def ProcessTargetConfig_zero_def config_distinct_def config_targets_def)
  have "length (requested_pairs ProcessAttr_zero (nat (rc_nrLocalNuma ?ctx)) q) \<le> 36" for q
    using length_filter_le [of "\<lambda>(l, r). unat (account ProcessAttr_zero l r) > 0 \<or> q l r > 0" "List.product [0..<2] [0..<18]"]
    by (simp add: requested_pairs_def)
  then have "\<not> length (requested_pairs ProcessAttr_zero (nat (rc_nrLocalNuma ?ctx)) q) > 36" for q by (simp add: not_less)
  then obtain targets s where r: "BuildPairRequestedTargets ProcessAttr_zero ?ctx 36 = Inr (targets, s)"
    using BuildPairRequestedTargets_gen [OF ok, of 36] by (auto simp only: if_False)
  from BuildPairRequestedTargets_optimal [OF this] r show ?thesis by blast
qed

text \<open>An invalid request is refused with \<^verbatim>\<open>-EINVAL\<close>: a bad node count or page size, too many targets, an unknown
  mode, a node named twice or out of range, ratios above 100 percent, or a size that is no 32-bit number of pages.\<close>

theorem BuildPairRequestedTargets_invalid:
  "BuildPairRequestedTargets attr ctx cap = Inl EINVAL \<longleftrightarrow> \<not> request_input_ok attr ctx"
proof (cases "request_input_ok attr ctx")
  case True
  from BuildPairRequestedTargets_gen [OF True, of cap] True show ?thesis by (auto split: if_splits)
next
  case False
  then have "ValidatePairRequestInput attr ctx = Inl EINVAL" by (rule ValidatePairRequestInput_error)
  with False show ?thesis by (simp add: BuildPairRequestedTargets_def)
qed

end
