(* ===== verification/Qsort.thy ===== *)
theory Qsort
  imports Smap_Prelude "HOL-Library.Multiset" "HOL-Library.Product_Lexorder"
begin

text \<open>
  The library function \<^verbatim>\<open>qsort\<close>, as an insertion sort by a comparison function. Where the comparison
  orders the elements by a key (the locale \<open>key_comparison\<close>), the result is sorted, it is a permutation of
  the argument, and on elements with different keys it does not depend on their order: any
  implementation of \<^verbatim>\<open>qsort\<close> returns the same.
\<close>

fun qsort_insert :: "('a \<Rightarrow> 'a \<Rightarrow> int) \<Rightarrow> 'a \<Rightarrow> 'a list \<Rightarrow> 'a list" where
  "qsort_insert cmp x [] = [x]"
| "qsort_insert cmp x (y # ys) = (if cmp x y \<le> 0 then x # y # ys else y # qsort_insert cmp x ys)"

definition qsort :: "('a \<Rightarrow> 'a \<Rightarrow> int) \<Rightarrow> 'a list \<Rightarrow> 'a list" where
  "qsort cmp xs = foldr (qsort_insert cmp) xs []"

lemma mset_qsort_insert [simp]: "mset (qsort_insert cmp x xs) = add_mset x (mset xs)"
  by (induction xs) auto

lemma mset_qsort [simp]: "mset (qsort cmp xs) = mset xs"
  unfolding qsort_def by (induction xs) auto

lemma set_qsort [simp]: "set (qsort cmp xs) = set xs"
  by (metis mset_qsort set_mset_mset)

lemma length_qsort [simp]: "length (qsort cmp xs) = length xs"
  by (metis mset_qsort size_mset)

locale key_comparison =
  fixes cmp :: "'a \<Rightarrow> 'a \<Rightarrow> int" and key :: "'a \<Rightarrow> 'k :: linorder"
  assumes cmp_key: "cmp x y \<le> 0 \<longleftrightarrow> key x \<le> key y"
begin

lemma sorted_qsort_insert: "sorted (map key xs) \<Longrightarrow> sorted (map key (qsort_insert cmp x xs))"
proof (induction xs)
  case (Cons y ys)
  have "key z \<ge> key y" if "z \<in> set (qsort_insert cmp x ys)" "\<not> key x \<le> key y" for z
  proof -
    have "z = x \<or> z \<in> set ys" using that(1) mset_qsort_insert [of cmp x ys] by (metis insert_iff set_mset_add_mset_insert set_mset_mset)
    then show ?thesis using that(2) Cons.prems by auto
  qed
  with Cons show ?case by (auto simp: cmp_key intro: order_trans)
qed simp

lemma sorted_qsort: "sorted (map key (qsort cmp xs))"
  unfolding qsort_def by (induction xs) (auto intro: sorted_qsort_insert)

lemma qsort_unique:
  assumes "mset xs = mset ys" and "distinct (map key xs)"
  shows "qsort cmp xs = qsort cmp ys"
proof (rule map_sorted_distinct_set_unique [of key])
  have d: "distinct (map key ys)" using assms by (metis mset_map mset_eq_imp_distinct_iff)
  show "distinct (map key (qsort cmp xs))" "distinct (map key (qsort cmp ys))"
    using assms(2) d by (metis mset_map mset_qsort mset_eq_imp_distinct_iff)+
  show "set (qsort cmp xs) = set (qsort cmp ys)" using assms(1) by (metis set_mset_mset set_qsort)
  show "inj_on key (set (qsort cmp xs) \<union> set (qsort cmp ys))"
    using assms \<open>set (qsort cmp xs) = set (qsort cmp ys)\<close> by (simp add: distinct_map)
qed (rule sorted_qsort)+

end

end
