(* ===== verification/Pair_Capacity.thy ===== *)
theory Pair_Capacity
  imports Pair_Request Qsort
begin

text \<open>
  Arbitration of the remote capacity between all processes,
  \<^verbatim>\<open>plugins/smap/src/user/manage/manage_pair.c\<close> lines 613 to 1040: the requests of every process are
  collected and sorted, the private capacity of each pair and the shared capacity of each remote node are
  given out in four phases, and the granted pages become the targets of the pairs.

  The contract of one phase is the locale \<open>capacity_phase\<close>. The \<^verbatim>\<open>process\<close> pointer of an entry is the
  process itself, the array of entries is a list, and a failing \<^verbatim>\<open>calloc\<close> is a Boolean argument. The
  sequence \<open>pm_attrs\<close> stands for the slots that \<^verbatim>\<open>PidSlotCollectRefs\<close> collects and
  \<^verbatim>\<open>PidSlotReleaseRefs\<close> releases.
\<close>

abbreviation (input) KIB :: nat where "KIB \<equiv> 1024"
abbreviation (input) MIB :: nat where "MIB \<equiv> 1048576"
abbreviation (input) MAX_PAIR_TARGET_COUNT :: nat where "MAX_PAIR_TARGET_COUNT \<equiv> 43200"

section \<open>Entries\<close>

record PairArbitrationEntry =
  ae_target :: PairTarget
  ae_process :: ProcessAttr
  ae_actualPages :: u32
  ae_privatePages :: u32
  ae_sharedPages :: u32

datatype PairCapacityPhase = PAIR_PRIVATE_BASELINE | PAIR_PRIVATE_REMAINDER | PAIR_SHARED_BASELINE | PAIR_SHARED_REMAINDER

definition ComparePairArbitrationEntry :: "PairArbitrationEntry \<Rightarrow> PairArbitrationEntry \<Rightarrow> int" where
  "ComparePairArbitrationEntry left right =
     (let lhs = ae_target left; rhs = ae_target right
      in if pt_pid lhs \<noteq> pt_pid rhs then if pt_pid lhs < pt_pid rhs then -1 else 1
         else if pt_localNid lhs \<noteq> pt_localNid rhs then if pt_localNid lhs < pt_localNid rhs then -1 else 1
         else if pt_remoteNid lhs \<noteq> pt_remoteNid rhs then if pt_remoteNid lhs < pt_remoteNid rhs then -1 else 1
         else 0)"

section \<open>One phase\<close>

definition PairCapacityDemand :: "PairArbitrationEntry \<Rightarrow> PairCapacityPhase \<Rightarrow> nat" where
  "PairCapacityDemand entry phase =
     (if pa_ignoreRemoteCapacity (ae_process entry) then 0
      else
        let requested = unat (pt_requestedPages (ae_target entry));
            baseline = min (unat (ae_actualPages entry)) requested;
            allocated = unat (ae_privatePages entry + ae_sharedPages entry)
        in case phase of
             PAIR_PRIVATE_BASELINE \<Rightarrow> baseline
           | PAIR_PRIVATE_REMAINDER \<Rightarrow> sub64 requested (unat (ae_privatePages entry))
           | PAIR_SHARED_BASELINE \<Rightarrow> if baseline > allocated then sub64 baseline allocated else 0
           | PAIR_SHARED_REMAINDER \<Rightarrow> sub64 requested allocated)"

definition PairMatchesCapacityPool :: "PairArbitrationEntry \<Rightarrow> int \<Rightarrow> int \<Rightarrow> bool" where
  "PairMatchesCapacityPool entry localNid remoteNid \<longleftrightarrow>
     pt_remoteNid (ae_target entry) = remoteNid \<and> (localNid < 0 \<or> pt_localNid (ae_target entry) = localNid)"

definition AddPairCapacityAllocation :: "PairArbitrationEntry \<Rightarrow> PairCapacityPhase \<Rightarrow> nat \<Rightarrow> PairArbitrationEntry" where
  "AddPairCapacityAllocation entry phase pages =
     (if phase = PAIR_PRIVATE_BASELINE \<or> phase = PAIR_PRIVATE_REMAINDER
      then entry\<lparr>ae_privatePages := ae_privatePages entry + of_nat pages\<rparr>
      else entry\<lparr>ae_sharedPages := ae_sharedPages entry + of_nat pages\<rparr>)"

definition phase_demand :: "int \<Rightarrow> int \<Rightarrow> PairCapacityPhase \<Rightarrow> PairArbitrationEntry \<Rightarrow> nat" where
  "phase_demand localNid remoteNid phase entry =
     (if PairMatchesCapacityPool entry localNid remoteNid then PairCapacityDemand entry phase else 0)"

fun phase_shares ::
  "int \<Rightarrow> int \<Rightarrow> PairCapacityPhase \<Rightarrow> nat \<Rightarrow> nat \<Rightarrow> PairArbitrationEntry list \<Rightarrow> nat \<Rightarrow> PairArbitrationEntry list \<times> nat" where
  "phase_shares localNid remoteNid phase pagesToAllocate totalDemand [] allocated = ([], allocated)"
| "phase_shares localNid remoteNid phase pagesToAllocate totalDemand (entry # es) allocated =
     (if \<not> PairMatchesCapacityPool entry localNid remoteNid then
        let (es, allocated) = phase_shares localNid remoteNid phase pagesToAllocate totalDemand es allocated
        in (entry # es, allocated)
      else
        let demand = PairCapacityDemand entry phase;
            pages = pagesToAllocate * demand div totalDemand mod 2 ^ 64;
            (es, allocated) = phase_shares localNid remoteNid phase pagesToAllocate totalDemand es (add64 allocated pages)
        in (AddPairCapacityAllocation entry phase pages # es, allocated))"

fun phase_rest ::
  "int \<Rightarrow> int \<Rightarrow> PairCapacityPhase \<Rightarrow> nat \<Rightarrow> PairArbitrationEntry list \<Rightarrow> nat \<Rightarrow> PairArbitrationEntry list \<times> nat" where
  "phase_rest localNid remoteNid phase pagesToAllocate [] allocated = ([], allocated)"
| "phase_rest localNid remoteNid phase pagesToAllocate (entry # es) allocated =
     (if \<not> allocated < pagesToAllocate then (entry # es, allocated)
      else if \<not> PairMatchesCapacityPool entry localNid remoteNid \<or> PairCapacityDemand entry phase = 0 then
        let (es, allocated) = phase_rest localNid remoteNid phase pagesToAllocate es allocated in (entry # es, allocated)
      else
        let (es, allocated) = phase_rest localNid remoteNid phase pagesToAllocate es (add64 allocated 1)
        in (AddPairCapacityAllocation entry phase 1 # es, allocated))"

definition AllocatePairCapacityPhase ::
  "PairArbitrationEntry list \<Rightarrow> int \<Rightarrow> int \<Rightarrow> nat \<Rightarrow> PairCapacityPhase \<Rightarrow> PairArbitrationEntry list \<times> nat" where
  "AllocatePairCapacityPhase entries localNid remoteNid capacity phase =
     (let totalDemand = fold (\<lambda>entry t. if \<not> PairMatchesCapacityPool entry localNid remoteNid then t
            else add64 t (PairCapacityDemand entry phase)) entries 0;
          pagesToAllocate = min capacity totalDemand
      in if pagesToAllocate = 0 then (entries, 0)
         else
           let (entries, allocated) = phase_shares localNid remoteNid phase pagesToAllocate totalDemand entries 0
           in phase_rest localNid remoteNid phase pagesToAllocate entries allocated)"

section \<open>The capacity snapshot\<close>

definition RemoteCapacityToPages :: "u64 \<Rightarrow> nat \<Rightarrow> errno + nat" where
  "RemoteCapacityToPages sizeMB pageSize =
     (if pageSize = 0 \<or> unat sizeMB > UINT64_MAX div MIB then Inl EOVERFLOW
      else Inr (unat sizeMB * MIB mod 2 ^ 64 div pageSize))"

fun snapshot_locals ::
  "RemoteNumaInfo \<Rightarrow> nat \<Rightarrow> nat \<Rightarrow> nat list \<Rightarrow> matrix \<times> (nat \<Rightarrow> nat) \<Rightarrow> errno + matrix \<times> (nat \<Rightarrow> nat)" where
  "snapshot_locals info pageSize remote [] st = Inr st"
| "snapshot_locals info pageSize remote (local # ls) (privatePages, totalPages) =
     (case RemoteCapacityToPages (ri_privateSize info local remote) pageSize of
        Inl e \<Rightarrow> Inl e
      | Inr pages \<Rightarrow>
          if pages > UINT64_MAX - totalPages remote then Inl EOVERFLOW
          else snapshot_locals info pageSize remote ls
                 (privatePages(local := (privatePages local)(remote := pages)),
                  totalPages(remote := add64 (totalPages remote) pages)))"

fun snapshot_remotes ::
  "RemoteNumaInfo \<Rightarrow> nat \<Rightarrow> nat \<Rightarrow> nat list \<Rightarrow> matrix \<times> (nat \<Rightarrow> nat) \<times> (nat \<Rightarrow> nat) \<Rightarrow>
   errno + matrix \<times> (nat \<Rightarrow> nat) \<times> (nat \<Rightarrow> nat)" where
  "snapshot_remotes info pageSize n [] st = Inr st"
| "snapshot_remotes info pageSize n (remote # rs) (privatePages, sharedPages, totalPages) =
     (case RemoteCapacityToPages (ri_sharedSize info remote) pageSize of
        Inl e \<Rightarrow> Inl e
      | Inr pages \<Rightarrow>
          case snapshot_locals info pageSize remote [0..<n] (privatePages, totalPages(remote := pages)) of
            Inl e \<Rightarrow> Inl e
          | Inr (privatePages, totalPages) \<Rightarrow>
              snapshot_remotes info pageSize n rs (privatePages, sharedPages(remote := pages), totalPages))"

definition BuildPairCapacitySnapshot :: "ProcessManager \<Rightarrow> errno + matrix \<times> (nat \<Rightarrow> nat) \<times> (nat \<Rightarrow> nat)" where
  "BuildPairCapacitySnapshot manager =
     (let pageSize = unat (pm_pageSize manager)
      in if pageSize = 0 \<or> pageSize mod KIB \<noteq> 0 then Inl EINVAL
         else snapshot_remotes (pm_remoteNumaInfo manager) pageSize (unat (pm_nrLocalNuma manager)) [0..<REMOTE_NUMA_NUM]
                ((\<lambda>_ _. 0), (\<lambda>_. 0), (\<lambda>_. 0)))"

definition BuildPairRequestContext ::
  "ProcessManager \<Rightarrow> matrix \<Rightarrow> (nat \<Rightarrow> nat) \<Rightarrow> ProcessAttr \<Rightarrow> PairRequestContext" where
  "BuildPairRequestContext manager privatePages sharedPages attr =
     \<lparr>rc_nrLocalNuma = int (unat (pm_nrLocalNuma manager)),
      rc_pageSizeKB = of_nat (unat (pm_pageSize manager) div KIB),
      rc_capacityLocalMask = (\<lambda>remote.
        if remote < REMOTE_NUMA_NUM then
          let m = fold (\<lambda>local m. if privatePages local remote > 0 then AddL1 m local else m)
                    [0..<unat (pm_nrLocalNuma manager)] 0;
              m = (if sharedPages remote > 0 then m OR managedMask attr else m)
          in if pa_ignoreRemoteCapacity attr then m OR managedMask attr else m
        else 0)\<rparr>"

section \<open>Collection and arbitration\<close>

definition make_entry :: "ProcessManager \<Rightarrow> ProcessAttr \<Rightarrow> PairTarget \<Rightarrow> PairArbitrationEntry" where
  "make_entry manager attr target =
     \<lparr>ae_target = target, ae_process = attr,
      ae_actualPages = account attr (nat (pt_localNid target))
        (nat (pt_remoteNid target - int (unat (pm_nrLocalNuma manager)))),
      ae_privatePages = 0, ae_sharedPages = 0\<rparr>"

definition skip_process :: "bool \<Rightarrow> ProcessAttr \<Rightarrow> bool" where
  "skip_process migrateOnly attr \<longleftrightarrow>
     pa_scanType attr \<noteq> NORMAL_SCAN \<or> pa_groupPolicyEnabled attr \<or> (migrateOnly \<and> pa_state attr \<noteq> PROC_MIGRATE)"

fun collect_requests ::
  "ProcessManager \<Rightarrow> matrix \<Rightarrow> (nat \<Rightarrow> nat) \<Rightarrow> nat \<Rightarrow> bool \<Rightarrow> ProcessAttr list \<Rightarrow> PairArbitrationEntry list \<Rightarrow>
   errno + PairArbitrationEntry list" where
  "collect_requests manager privatePages sharedPages entryCap migrateOnly [] entries = Inr entries"
| "collect_requests manager privatePages sharedPages entryCap migrateOnly (attr # attrs) entries =
     (if skip_process migrateOnly attr
      then collect_requests manager privatePages sharedPages entryCap migrateOnly attrs entries
      else
        case BuildPairRequestedTargets attr (BuildPairRequestContext manager privatePages sharedPages attr)
               (LOCAL_NUMA_NUM * REMOTE_NUMA_NUM) of
          Inl e \<Rightarrow> Inl e
        | Inr (processTargets, summary) \<Rightarrow>
            if length processTargets > entryCap - length entries then Inl ENOSPC
            else collect_requests manager privatePages sharedPages entryCap migrateOnly attrs
                   (entries @ map (make_entry manager attr) processTargets))"

definition CollectAllPairRequests ::
  "ProcessManager \<Rightarrow> matrix \<Rightarrow> (nat \<Rightarrow> nat) \<Rightarrow> nat \<Rightarrow> bool \<Rightarrow> errno + PairArbitrationEntry list" where
  "CollectAllPairRequests manager privatePages sharedPages entryCap migrateOnly =
     (case collect_requests manager privatePages sharedPages entryCap migrateOnly (pm_attrs manager) [] of
        Inl e \<Rightarrow> Inl e
      | Inr entries \<Rightarrow> Inr (if length entries > 1 then qsort ComparePairArbitrationEntry entries else entries))"

definition arbitrate_private :: "nat \<Rightarrow> matrix \<Rightarrow> nat \<Rightarrow> nat \<Rightarrow> PairArbitrationEntry list \<Rightarrow> PairArbitrationEntry list" where
  "arbitrate_private n privateCapacity remote local entries =
     (let remoteNid = int (n + remote);
          (entries, used) = AllocatePairCapacityPhase entries (int local) remoteNid (privateCapacity local remote) PAIR_PRIVATE_BASELINE
      in fst (AllocatePairCapacityPhase entries (int local) remoteNid (sub64 (privateCapacity local remote) used)
                PAIR_PRIVATE_REMAINDER))"

definition arbitrate_shared :: "nat \<Rightarrow> (nat \<Rightarrow> nat) \<Rightarrow> nat \<Rightarrow> PairArbitrationEntry list \<Rightarrow> PairArbitrationEntry list" where
  "arbitrate_shared n sharedCapacity remote entries =
     (let remoteNid = int (n + remote);
          (entries, used) = AllocatePairCapacityPhase entries (-1) remoteNid (sharedCapacity remote) PAIR_SHARED_BASELINE
      in fst (AllocatePairCapacityPhase entries (-1) remoteNid (sub64 (sharedCapacity remote) used) PAIR_SHARED_REMAINDER))"

definition ArbitrateAllPairCapacity ::
  "PairArbitrationEntry list \<Rightarrow> nat \<Rightarrow> matrix \<Rightarrow> (nat \<Rightarrow> nat) \<Rightarrow> PairArbitrationEntry list" where
  "ArbitrateAllPairCapacity entries n privateCapacity sharedCapacity =
     (let entries = map (\<lambda>entry. if pa_ignoreRemoteCapacity (ae_process entry)
            then entry\<lparr>ae_privatePages := pt_requestedPages (ae_target entry)\<rparr> else entry) entries
      in fold (\<lambda>remote entries.
           arbitrate_shared n sharedCapacity remote
             (fold (arbitrate_private n privateCapacity remote) [0..<n] entries))
         [0..<REMOTE_NUMA_NUM] entries)"

section \<open>Publication\<close>

definition publish_entry :: "PairArbitrationEntry \<Rightarrow> PairArbitrationEntry" where
  "publish_entry entry =
     entry\<lparr>ae_target := (ae_target entry)\<lparr>pt_targetPages := ae_privatePages entry + ae_sharedPages entry\<rparr>\<rparr>"

fun publish_usage :: "nat \<Rightarrow> PairArbitrationEntry \<Rightarrow> matrix \<times> (nat \<Rightarrow> nat) \<Rightarrow> matrix \<times> (nat \<Rightarrow> nat)" where
  "publish_usage n entry (privateUsed, totalUsed) =
     (let remote = nat (pt_remoteNid (ae_target entry) - int n);
          local = nat (pt_localNid (ae_target entry))
      in (privateUsed(local := (privateUsed local)(remote := add64 (privateUsed local remote) (unat (ae_actualPages entry)))),
          totalUsed(remote := add64 (totalUsed remote) (unat (ae_actualPages entry)))))"

definition PublishPairCapacityResult ::
  "ProcessManager \<Rightarrow> PairArbitrationEntry list \<Rightarrow> matrix \<Rightarrow> (nat \<Rightarrow> nat) \<Rightarrow> ProcessManager \<times> PairArbitrationEntry list" where
  "PublishPairCapacityResult manager entries privateCapacity totalCapacity =
     (let (privateUsed, totalUsed) =
            fold (publish_usage (unat (pm_nrLocalNuma manager))) entries ((\<lambda>_ _. 0), (\<lambda>_. 0));
          info = pm_remoteNumaInfo manager
      in (manager\<lparr>pm_remoteNumaInfo := info\<lparr>
            ri_usedInfo := (\<lambda>remote. if remote < REMOTE_NUMA_NUM
              then \<lparr>ru_size = of_nat (totalCapacity remote), ru_used = of_nat (totalUsed remote), ru_ifUsedFreshed = True\<rparr>
              else ri_usedInfo info remote),
            ri_privateUsedInfo := (\<lambda>local remote. if local < LOCAL_NUMA_NUM \<and> remote < REMOTE_NUMA_NUM
              then \<lparr>ru_size = of_nat (privateCapacity local remote), ru_used = of_nat (privateUsed local remote),
                    ru_ifUsedFreshed = True\<rparr>
              else ri_privateUsedInfo info local remote)\<rparr>\<rparr>,
          map publish_entry entries))"

definition BuildPairArbitrationSnapshotLocked ::
  "ProcessManager \<Rightarrow> nat \<Rightarrow> bool \<Rightarrow> errno + PairArbitrationEntry list \<times> matrix \<times> (nat \<Rightarrow> nat)" where
  "BuildPairArbitrationSnapshotLocked manager entryCap migrateOnly =
     (case BuildPairCapacitySnapshot manager of
        Inl e \<Rightarrow> Inl e
      | Inr (privateCapacity, sharedCapacity, totalCapacity) \<Rightarrow>
          case CollectAllPairRequests manager privateCapacity sharedCapacity entryCap migrateOnly of
            Inl e \<Rightarrow> Inl e
          | Inr entries \<Rightarrow>
              Inr (ArbitrateAllPairCapacity entries (unat (pm_nrLocalNuma manager)) privateCapacity sharedCapacity,
                   privateCapacity, totalCapacity))"

definition BuildAllPairTargets :: "bool \<Rightarrow> ProcessManager \<Rightarrow> nat \<Rightarrow> (errno + PairTarget list) \<times> ProcessManager" where
  "BuildAllPairTargets callocFails manager targetCap =
     (if pm_nrLocalNuma manager = 0 \<or> unat (pm_nrLocalNuma manager) > LOCAL_NUMA_NUM \<or> targetCap > MAX_PAIR_TARGET_COUNT
      then (Inl EINVAL, manager)
      else if targetCap > 0 \<and> callocFails then (Inl ENOMEM, manager)
      else
        case BuildPairArbitrationSnapshotLocked manager targetCap False of
          Inl e \<Rightarrow> (Inl e, manager)
        | Inr (entries, privateCapacity, totalCapacity) \<Rightarrow>
            let (manager, entries) = PublishPairCapacityResult manager entries privateCapacity totalCapacity
            in (Inr (map ae_target entries), manager))"

text \<open>The first entry of every process in the sorted sequence.\<close>

definition first_of_pid :: "PairArbitrationEntry list \<Rightarrow> nat \<Rightarrow> bool" where
  "first_of_pid entries i \<longleftrightarrow> i = 0 \<or> pt_pid (ae_target (entries ! i)) \<noteq> pt_pid (ae_target (entries ! (i - 1)))"

definition plan_of_entry :: "nat \<Rightarrow> PairArbitrationEntry \<Rightarrow> PairPlan" where
  "plan_of_entry n entry =
     \<lparr>pl_pid = pt_pid (ae_target entry), pl_localNid = pt_localNid (ae_target entry),
      pl_remoteNid = pt_remoteNid (ae_target entry), pl_remoteIndex = pt_remoteNid (ae_target entry) - int n,
      pl_targetPages = pt_targetPages (ae_target entry), pl_actualPages = ae_actualPages entry,
      pl_demotePages = 0, pl_promotePages = 0, pl_swapPages = 0\<rparr>"

definition BuildAllPairPlanInputsForState ::
  "bool \<Rightarrow> ProcessManager \<Rightarrow> nat \<Rightarrow> nat \<Rightarrow> bool \<Rightarrow> (errno + PairPlan list \<times> PairPidBudget list) \<times> ProcessManager" where
  "BuildAllPairPlanInputsForState callocFails manager planCap pidBudgetCap migrateOnly =
     (if pm_nrLocalNuma manager = 0 \<or> unat (pm_nrLocalNuma manager) > LOCAL_NUMA_NUM \<or> planCap > MAX_PAIR_TARGET_COUNT
      then (Inl EINVAL, manager)
      else if planCap > 0 \<and> callocFails then (Inl ENOMEM, manager)
      else
        case BuildPairArbitrationSnapshotLocked manager planCap migrateOnly of
          Inl e \<Rightarrow> (Inl e, manager)
        | Inr (entries, privateCapacity, totalCapacity) \<Rightarrow>
            let firsts = filter (first_of_pid entries) [0..<length entries]
            in if length firsts > pidBudgetCap then (Inl ENOSPC, manager)
               else
                 let (manager, entries) = PublishPairCapacityResult manager entries privateCapacity totalCapacity
                 in (Inr (map (plan_of_entry (unat (pm_nrLocalNuma manager))) entries,
                       map (\<lambda>i. \<lparr>pb_pid = pt_pid (ae_target (entries ! i)),
                                 pb_maxMigratePages = ucast (wp_nrPage (pa_walkPage (ae_process (entries ! i)))),
                                 pb_plannedPages = 0\<rparr>) firsts), manager))"

definition BuildAllPairPlanInputs ::
  "bool \<Rightarrow> ProcessManager \<Rightarrow> nat \<Rightarrow> nat \<Rightarrow> (errno + PairPlan list \<times> PairPidBudget list) \<times> ProcessManager" where
  "BuildAllPairPlanInputs callocFails manager planCap pidBudgetCap =
     BuildAllPairPlanInputsForState callocFails manager planCap pidBudgetCap False"

section \<open>The order of the entries\<close>

definition entry_key :: "PairArbitrationEntry \<Rightarrow> int \<times> int \<times> int" where
  "entry_key e = (pt_pid (ae_target e), pt_localNid (ae_target e), pt_remoteNid (ae_target e))"

interpretation entry_order: key_comparison ComparePairArbitrationEntry entry_key
  by unfold_locales (auto simp: ComparePairArbitrationEntry_def entry_key_def Let_def)

section \<open>One phase gives out what it can\<close>

text \<open>What a phase expects of the entries of its pool: the earlier phases left the grants within the request.\<close>

definition entry_ready :: "PairCapacityPhase \<Rightarrow> PairArbitrationEntry \<Rightarrow> bool" where
  "entry_ready phase e \<longleftrightarrow> pa_ignoreRemoteCapacity (ae_process e) \<or>
     (case phase of
        PAIR_PRIVATE_BASELINE \<Rightarrow> ae_privatePages e = 0 \<and> ae_sharedPages e = 0
      | PAIR_PRIVATE_REMAINDER \<Rightarrow> unat (ae_privatePages e) \<le> unat (pt_requestedPages (ae_target e)) \<and> ae_sharedPages e = 0
      | _ \<Rightarrow> unat (ae_privatePages e) + unat (ae_sharedPages e) \<le> unat (pt_requestedPages (ae_target e)))"

lemma unat_grants:
  assumes "unat (ae_privatePages e) + unat (ae_sharedPages e) \<le> unat (pt_requestedPages (ae_target e))"
  shows "unat (ae_privatePages e + ae_sharedPages e) = unat (ae_privatePages e) + unat (ae_sharedPages e)"
  using assms by (rule unat_plus_bounded)

text \<open>The demand of an entry is within what is missing of its request.\<close>

lemma demand_bound:
  assumes "entry_ready phase e" and "\<not> pa_ignoreRemoteCapacity (ae_process e)"
  shows "unat (ae_privatePages e) + unat (ae_sharedPages e) + PairCapacityDemand e phase \<le>
    unat (pt_requestedPages (ae_target e))"
proof (cases phase)
  case PAIR_SHARED_BASELINE
  then have g: "unat (ae_privatePages e) + unat (ae_sharedPages e) \<le> unat (pt_requestedPages (ae_target e))"
    using assms by (simp add: entry_ready_def)
  have "sub64 (min (unat (ae_actualPages e)) (unat (pt_requestedPages (ae_target e)))) (unat (ae_privatePages e + ae_sharedPages e)) =
      min (unat (ae_actualPages e)) (unat (pt_requestedPages (ae_target e))) - unat (ae_privatePages e + ae_sharedPages e)"
    if "min (unat (ae_actualPages e)) (unat (pt_requestedPages (ae_target e))) > unat (ae_privatePages e + ae_sharedPages e)"
    using that by (intro sub64_eq) (auto simp: min_def)
  then show ?thesis using g assms(2) PAIR_SHARED_BASELINE unat_grants [OF g]
    by (auto simp: PairCapacityDemand_def Let_def)
next
  case PAIR_SHARED_REMAINDER
  then have g: "unat (ae_privatePages e) + unat (ae_sharedPages e) \<le> unat (pt_requestedPages (ae_target e))"
    using assms by (simp add: entry_ready_def)
  then show ?thesis using assms(2) PAIR_SHARED_REMAINDER unat_grants [OF g]
    by (simp add: PairCapacityDemand_def Let_def sub64_eq)
qed (use assms in \<open>auto simp: entry_ready_def PairCapacityDemand_def Let_def sub64_eq\<close>)

lemma demand_ignore [simp]: "pa_ignoreRemoteCapacity (ae_process e) \<Longrightarrow> PairCapacityDemand e phase = 0"
  by (simp add: PairCapacityDemand_def)

lemma AddPairCapacityAllocation_frame [simp]:
  "ae_target (AddPairCapacityAllocation e phase x) = ae_target e"
  "ae_process (AddPairCapacityAllocation e phase x) = ae_process e"
  "ae_actualPages (AddPairCapacityAllocation e phase x) = ae_actualPages e"
  "PairMatchesCapacityPool (AddPairCapacityAllocation e phase x) l r = PairMatchesCapacityPool e l r"
  by (simp_all add: AddPairCapacityAllocation_def PairMatchesCapacityPool_def)

lemma AddPairCapacityAllocation_0 [simp]: "AddPairCapacityAllocation e phase 0 = e"
  by (simp add: AddPairCapacityAllocation_def)

lemma AddPairCapacityAllocation_twice:
  "AddPairCapacityAllocation (AddPairCapacityAllocation e phase x) phase y = AddPairCapacityAllocation e phase (x + y)"
  by (simp add: AddPairCapacityAllocation_def add.assoc)

lemma add_grants:
  assumes "unat (ae_privatePages e) + unat (ae_sharedPages e) + x \<le> unat (pt_requestedPages (ae_target e))"
  shows "unat (ae_privatePages (AddPairCapacityAllocation e phase x)) =
      unat (ae_privatePages e) + (if phase = PAIR_PRIVATE_BASELINE \<or> phase = PAIR_PRIVATE_REMAINDER then x else 0)"
    and "unat (ae_sharedPages (AddPairCapacityAllocation e phase x)) =
      unat (ae_sharedPages e) + (if phase = PAIR_PRIVATE_BASELINE \<or> phase = PAIR_PRIVATE_REMAINDER then 0 else x)"
proof -
  have "x \<le> unat (pt_requestedPages (ae_target e))" using assms by linarith
  then have x: "x \<le> UINT32_MAX" "unat (of_nat x :: u32) = x" by (auto dest: le_u32 intro: unat_of_nat_u32)
  have "unat (ae_privatePages e + of_nat x) = unat (ae_privatePages e) + x"
    using unat_plus_bounded [of "ae_privatePages e" "of_nat x" "pt_requestedPages (ae_target e)"] assms x(2) by simp
  moreover have "unat (ae_sharedPages e + of_nat x) = unat (ae_sharedPages e) + x"
    using unat_plus_bounded [of "ae_sharedPages e" "of_nat x" "pt_requestedPages (ae_target e)"] assms x(2) by simp
  ultimately show "unat (ae_privatePages (AddPairCapacityAllocation e phase x)) =
      unat (ae_privatePages e) + (if phase = PAIR_PRIVATE_BASELINE \<or> phase = PAIR_PRIVATE_REMAINDER then x else 0)"
    "unat (ae_sharedPages (AddPairCapacityAllocation e phase x)) =
      unat (ae_sharedPages e) + (if phase = PAIR_PRIVATE_BASELINE \<or> phase = PAIR_PRIVATE_REMAINDER then 0 else x)"
    by (simp_all add: AddPairCapacityAllocation_def)
qed

text \<open>A grant below the demand leaves a demand.\<close>

lemma demand_after:
  assumes ready: "entry_ready phase e" and ign: "\<not> pa_ignoreRemoteCapacity (ae_process e)" and x: "x \<le> PairCapacityDemand e phase"
    and e': "e' = AddPairCapacityAllocation e phase x"
  shows "PairCapacityDemand e' phase =
    (if phase = PAIR_PRIVATE_BASELINE then PairCapacityDemand e phase else PairCapacityDemand e phase - x)"
proof -
  have b: "unat (ae_privatePages e) + unat (ae_sharedPages e) + x \<le> unat (pt_requestedPages (ae_target e))"
    using demand_bound [OF ready ign] x by linarith
  note g = add_grants [OF b, where phase = phase, folded e']
  have f: "ae_target e' = ae_target e" "ae_process e' = ae_process e" "ae_actualPages e' = ae_actualPages e"
    by (simp_all add: e')
  have s: "unat (ae_privatePages e' + ae_sharedPages e') = unat (ae_privatePages e) + unat (ae_sharedPages e) + x"
  proof -
    have "unat (ae_privatePages e') + unat (ae_sharedPages e') = unat (ae_privatePages e) + unat (ae_sharedPages e) + x"
      using g by auto
    then show ?thesis using b unat_plus_bounded [of "ae_privatePages e'" "ae_sharedPages e'" "pt_requestedPages (ae_target e)"] by simp
  qed
  have s0: "unat (ae_privatePages e + ae_sharedPages e) = unat (ae_privatePages e) + unat (ae_sharedPages e)"
    using b by (intro unat_grants) simp
  note sub = sub64_eq
  show ?thesis
  proof (cases phase)
    case PAIR_SHARED_BASELINE
    let ?m = "min (unat (ae_actualPages e)) (unat (pt_requestedPages (ae_target e)))"
    have m: "?m < 2 ^ 64" by (simp add: min_def)
    have d: "PairCapacityDemand e phase = ?m - (unat (ae_privatePages e) + unat (ae_sharedPages e))"
      "PairCapacityDemand e' phase = ?m - (unat (ae_privatePages e) + unat (ae_sharedPages e) + x)"
      using PAIR_SHARED_BASELINE ign m by (auto simp: PairCapacityDemand_def Let_def f s s0 sub64_eq)
    then show ?thesis using PAIR_SHARED_BASELINE by simp
  next
    case PAIR_SHARED_REMAINDER
    have r: "unat (pt_requestedPages (ae_target e)) < 2 ^ 64" by simp
    have d: "PairCapacityDemand e phase = unat (pt_requestedPages (ae_target e)) - (unat (ae_privatePages e) + unat (ae_sharedPages e))"
      "PairCapacityDemand e' phase = unat (pt_requestedPages (ae_target e)) - (unat (ae_privatePages e) + unat (ae_sharedPages e) + x)"
      using PAIR_SHARED_REMAINDER ign b r by (auto simp: PairCapacityDemand_def Let_def f s s0 sub64_eq)
    then show ?thesis using PAIR_SHARED_REMAINDER by simp
  next
    case PAIR_PRIVATE_BASELINE
    then show ?thesis using ign by (simp add: PairCapacityDemand_def Let_def f)
  next
    case PAIR_PRIVATE_REMAINDER
    have r: "unat (pt_requestedPages (ae_target e)) < 2 ^ 64" by simp
    have "PairCapacityDemand e phase = unat (pt_requestedPages (ae_target e)) - unat (ae_privatePages e)"
      "PairCapacityDemand e' phase = unat (pt_requestedPages (ae_target e)) - (unat (ae_privatePages e) + x)"
      using PAIR_PRIVATE_REMAINDER ign b r g(1) by (auto simp: PairCapacityDemand_def Let_def f sub64_eq)
    then show ?thesis using PAIR_PRIVATE_REMAINDER by simp
  qed
qed

text \<open>The entries that get one page of the rest: the first \<open>k\<close> eligible ones.\<close>

fun mark_first :: "('a \<Rightarrow> bool) \<Rightarrow> nat \<Rightarrow> 'a list \<Rightarrow> bool list" where
  "mark_first elig k [] = []"
| "mark_first elig k (x # xs) = (if k > 0 \<and> elig x then True # mark_first elig (k - 1) xs else False # mark_first elig k xs)"

lemma length_mark_first [simp]: "length (mark_first elig k xs) = length xs"
  by (induction elig k xs rule: mark_first.induct) auto

lemma mark_first_elig: "i < length xs \<Longrightarrow> mark_first elig k xs ! i \<Longrightarrow> elig (xs ! i)"
  by (induction elig k xs arbitrary: i rule: mark_first.induct) (auto simp: nth_Cons split: if_splits nat.splits)

lemma sum_mark_first: "sum_list (map of_bool (mark_first elig k xs)) = (min k (length (filter elig xs)) :: nat)"
  by (induction elig k xs rule: mark_first.induct) auto

lemma mark_first_0: "mark_first elig 0 xs = replicate (length xs) False"
  by (induction xs) auto

lemma phase_shares_eq:
  assumes "P \<le> W" and "\<And>e. e \<in> set es \<Longrightarrow> phase_demand l r phase e < 2 ^ 64"
    and "a + (\<Sum>e\<leftarrow>es. P * phase_demand l r phase e div W) < 2 ^ 64"
  shows "phase_shares l r phase P W es a =
    (map (\<lambda>e. AddPairCapacityAllocation e phase (P * phase_demand l r phase e div W)) es,
     a + (\<Sum>e\<leftarrow>es. P * phase_demand l r phase e div W))"
  using assms
proof (induction es arbitrary: a)
  case (Cons e es)
  let ?x = "P * phase_demand l r phase e div W"
  have "?x \<le> phase_demand l r phase e" using Cons.prems(1) by (rule apportion_share_le)
  also have "\<dots> < 2 ^ 64" using Cons.prems(2) by simp
  finally have x: "?x mod 2 ^ 64 = ?x" by simp
  have a: "add64 a ?x = a + ?x" using Cons.prems(3) by (intro add64_eq) simp
  have "phase_shares l r phase P W es (a + ?x) =
    (map (\<lambda>e. AddPairCapacityAllocation e phase (P * phase_demand l r phase e div W)) es,
     a + ?x + (\<Sum>e\<leftarrow>es. P * phase_demand l r phase e div W))"
    using Cons.prems by (intro Cons.IH) (auto simp: add.assoc)
  then show ?case
    using x a by (cases "PairMatchesCapacityPool e l r") (simp_all add: Let_def phase_demand_def add.assoc)
qed simp

lemma phase_rest_eq:
  assumes "a \<le> P" and "P < 2 ^ 64"
  shows "phase_rest l r phase P es a =
    (map2 (\<lambda>e m. AddPairCapacityAllocation e phase (of_bool m)) es (mark_first (\<lambda>e. phase_demand l r phase e \<noteq> 0) (P - a) es),
     a + sum_list (map of_bool (mark_first (\<lambda>e. phase_demand l r phase e \<noteq> 0) (P - a) es)))"
  using assms
proof (induction es arbitrary: a)
  case (Cons e es)
  show ?case
  proof (cases "a < P")
    case False
    then have "a = P" using Cons.prems by simp
    have "map2 (\<lambda>e m. AddPairCapacityAllocation e phase (of_bool m)) xs (replicate (length xs) False) = xs" for xs
      by (induction xs) auto
    then show ?thesis using \<open>a = P\<close> by (simp add: mark_first_0)
  next
    case True
    then obtain k where k: "P - a = Suc k" "P - Suc a = k" by (metis Suc_diff_Suc)
    have a: "add64 a 1 = a + 1" using True Cons.prems(2) by (intro add64_eq) simp
    show ?thesis
    proof (cases "phase_demand l r phase e = 0")
      case D: True
      have "phase_rest l r phase P (e # es) a =
          (let (es, a) = phase_rest l r phase P es a in (e # es, a))"
        using True D by (auto simp: phase_demand_def split: if_splits)
      then show ?thesis using Cons.IH [OF Cons.prems] True D by simp
    next
      case D: False
      then have "phase_rest l r phase P (e # es) a =
          (let (es, a) = phase_rest l r phase P es (a + 1) in (AddPairCapacityAllocation e phase 1 # es, a))"
        using True a by (auto simp: phase_demand_def split: if_splits)
      then show ?thesis using Cons.IH [of "a + 1"] Cons.prems True D k by simp
    qed
  qed
qed simp

lemma fold_total_demand:
  assumes "t + (\<Sum>e\<leftarrow>es. phase_demand l r phase e) < 2 ^ 64"
  shows "fold (\<lambda>e t. if \<not> PairMatchesCapacityPool e l r then t else add64 t (PairCapacityDemand e phase)) es t =
    t + (\<Sum>e\<leftarrow>es. phase_demand l r phase e)"
  using assms by (induction es arbitrary: t) (auto simp: phase_demand_def add64_eq)

lemma phase_demand_u32:
  assumes "PairMatchesCapacityPool e l r \<Longrightarrow> entry_ready phase e"
  shows "phase_demand l r phase e \<le> UINT32_MAX"
proof (cases "PairMatchesCapacityPool e l r \<and> \<not> pa_ignoreRemoteCapacity (ae_process e)")
  case True
  then have "phase_demand l r phase e \<le> unat (pt_requestedPages (ae_target e))"
    using demand_bound [of phase e] assms by (simp add: phase_demand_def)
  then show ?thesis by (rule le_u32)
qed (auto simp: phase_demand_def)

text \<open>
  The contract of a phase: every entry of the pool gets at most its demand, and in total all of the
  capacity is given out, or all of the demand is met.
\<close>

locale capacity_phase =
  fixes allocate :: "PairArbitrationEntry list \<Rightarrow> int \<Rightarrow> int \<Rightarrow> nat \<Rightarrow> PairCapacityPhase \<Rightarrow> PairArbitrationEntry list \<times> nat"
  assumes phase_grant: "\<forall>e \<in> set es. PairMatchesCapacityPool e l r \<longrightarrow> entry_ready phase e \<Longrightarrow> length es < 2 ^ 32 \<Longrightarrow>
    \<exists>xs. allocate es l r cap phase = (map2 (\<lambda>e x. AddPairCapacityAllocation e phase x) es xs, sum_list xs) \<and>
      length xs = length es \<and> list_all2 (\<lambda>e x. x \<le> phase_demand l r phase e) es xs \<and>
      sum_list xs = min cap (\<Sum>e\<leftarrow>es. phase_demand l r phase e)"

lemma phase_shares_bound:
  fixes d :: "'a \<Rightarrow> nat"
  assumes "W = (\<Sum>e\<leftarrow>es. d e)" and "P \<le> W"
  shows "(\<Sum>e\<leftarrow>es. P * d e div W) \<le> P"
  using apportion_floor_le [of d es W P] assms(1) by simp

interpretation pair_phase: capacity_phase AllocatePairCapacityPhase
proof
  fix es l r phase cap
  assume ready: "\<forall>e \<in> set es. PairMatchesCapacityPool e l r \<longrightarrow> entry_ready phase e" and len: "length es < 2 ^ 32"
  let ?d = "phase_demand l r phase"
  define W where "W = (\<Sum>e\<leftarrow>es. ?d e)"
  define P where "P = min cap W"
  have d32: "?d e \<le> UINT32_MAX" if "e \<in> set es" for e using phase_demand_u32 ready that by blast
  have "W \<le> length es * UINT32_MAX" unfolding W_def using d32 by (induction es) (auto simp: add_mono)
  also have "\<dots> \<le> 2 ^ 32 * UINT32_MAX" using len by (intro mult_le_mono1) simp
  finally have W64: "W < 2 ^ 64" by simp
  have PW: "P \<le> W" by (simp add: P_def)
  have total: "fold (\<lambda>e t. if \<not> PairMatchesCapacityPool e l r then t else add64 t (PairCapacityDemand e phase)) es 0 = W"
    using fold_total_demand [of 0 l r phase es] W64 by (simp add: W_def)
  show "\<exists>xs. AllocatePairCapacityPhase es l r cap phase = (map2 (\<lambda>e x. AddPairCapacityAllocation e phase x) es xs, sum_list xs) \<and>
      length xs = length es \<and> list_all2 (\<lambda>e x. x \<le> ?d e) es xs \<and> sum_list xs = min cap (\<Sum>e\<leftarrow>es. ?d e)"
  proof (cases "P = 0")
    case True
    have "map2 (\<lambda>e x. AddPairCapacityAllocation e phase x) xs (replicate (length xs) 0) = xs" for xs
      by (induction xs) auto
    then show ?thesis using True total
      by (intro exI [of _ "replicate (length es) 0"])
        (simp add: AllocatePairCapacityPhase_def Let_def P_def W_def list_all2_conv_all_nth)
  next
    case False
    let ?x = "\<lambda>e. P * ?d e div W"
    define S where "S = (\<Sum>e\<leftarrow>es. ?x e)"
    have S: "S \<le> P" unfolding S_def using W_def PW by (rule phase_shares_bound)
    define es1 where "es1 = map (\<lambda>e. AddPairCapacityAllocation e phase (?x e)) es"
    define ms where "ms = mark_first (\<lambda>e. ?d e \<noteq> 0) (P - S) es1"
    have len_ms: "length ms = length es" by (simp add: ms_def es1_def)
    have "phase_shares l r phase P W es 0 = (es1, S)"
      using phase_shares_eq [OF PW, of es l r phase 0] d32 S W64 PW by (fastforce simp: es1_def S_def)
    then have eq: "AllocatePairCapacityPhase es l r cap phase =
        (map2 (\<lambda>e m. AddPairCapacityAllocation e phase (of_bool m)) es1 ms, S + sum_list (map of_bool ms))"
      using phase_rest_eq [OF S, of l r phase es1] W64 PW False
      by (simp add: AllocatePairCapacityPhase_def Let_def total P_def [symmetric] ms_def)
    have elig: "?d (AddPairCapacityAllocation e phase (?x e)) \<noteq> 0 \<longleftrightarrow> ?d e \<noteq> 0" if "e \<in> set es" "P < W" for e
    proof (cases "PairMatchesCapacityPool e l r \<and> \<not> pa_ignoreRemoteCapacity (ae_process e)")
      case True
      then have "?x e \<le> PairCapacityDemand e phase" using apportion_share_le [OF PW, of "?d e"] by (simp add: phase_demand_def)
      from demand_after [OF _ _ this refl] True ready that(1)
      have "?d (AddPairCapacityAllocation e phase (?x e)) = (if phase = PAIR_PRIVATE_BASELINE then ?d e else ?d e - ?x e)"
        by (simp add: phase_demand_def)
      then show ?thesis using apportion_below [OF that(2), of "?d e"] by auto
    qed (auto simp: phase_demand_def)
    have full: "S = P" if "\<not> P < W"
    proof -
      have "P = W" using that PW by simp
      then show ?thesis using False by (simp add: S_def W_def)
    qed
    have rest: "sum_list (map of_bool ms) = P - S"
    proof (cases "P < W")
      case True
      have "length (filter (\<lambda>e. ?d e \<noteq> 0) es1) = length (filter (\<lambda>e. ?d e \<noteq> 0) es)"
        using elig [OF _ True] by (simp add: es1_def filter_map comp_def cong: filter_cong)
      moreover have "P \<le> S + length (filter (\<lambda>e. ?d e \<noteq> 0) es)"
        unfolding S_def using True by (intro apportion_rest) (auto simp: W_def)
      ultimately show ?thesis unfolding ms_def sum_mark_first by simp
    next
      case W: False
      then show ?thesis using full by (simp add: ms_def mark_first_0 sum_list_replicate)
    qed
    define xs where "xs = map2 (\<lambda>e m. ?x e + of_bool m) es ms"
    have len_xs: "length xs = length es" by (simp add: xs_def len_ms)
    have "map2 (\<lambda>e m. AddPairCapacityAllocation e phase (of_bool m)) es1 ms = map2 (\<lambda>e x. AddPairCapacityAllocation e phase x) es xs"
      by (rule nth_equalityI) (auto simp: es1_def xs_def len_ms AddPairCapacityAllocation_twice)
    moreover have "sum_list xs = P"
    proof -
      have "sum_list xs = S + sum_list (map of_bool ms)"
        unfolding xs_def S_def using len_ms[symmetric] by (induction es ms rule: list_induct2) auto
      then show ?thesis using rest S by simp
    qed
    moreover have "list_all2 (\<lambda>e x. x \<le> ?d e) es xs"
    proof (intro list_all2_all_nthI)
      fix i assume i: "i < length es"
      have x: "xs ! i = ?x (es ! i) + of_bool (ms ! i)" using i by (simp add: xs_def len_ms)
      show "xs ! i \<le> ?d (es ! i)"
      proof (cases "ms ! i")
        case True
        have "P - S > 0" using True i by (cases "P - S") (auto simp: ms_def es1_def mark_first_0)
        then have "P < W" using full by (cases "P < W") auto
        moreover have "?d (es1 ! i) \<noteq> 0" using mark_first_elig [of i es1 "\<lambda>e. ?d e \<noteq> 0" "P - S"] True i by (simp add: ms_def es1_def)
        ultimately have "?d (es ! i) > 0" using elig [of "es ! i"] i by (simp add: es1_def)
        then have "?x (es ! i) < ?d (es ! i)" using apportion_below [OF \<open>P < W\<close>] by blast
        then show ?thesis using x True by simp
      next
        case False
        then show ?thesis using x apportion_share_le [OF PW, of "?d (es ! i)"] by simp
      qed
    qed (simp add: len_xs)
    ultimately show ?thesis using eq rest S len_xs by (intro exI [of _ xs]) (auto simp: P_def W_def)
  qed
qed

section \<open>Pools\<close>

definition in_pool :: "int \<Rightarrow> int \<Rightarrow> PairArbitrationEntry \<Rightarrow> bool" where
  "in_pool l r e \<longleftrightarrow> PairMatchesCapacityPool e l r \<and> \<not> pa_ignoreRemoteCapacity (ae_process e)"

definition is_private :: "PairCapacityPhase \<Rightarrow> bool" where
  "is_private phase \<longleftrightarrow> phase = PAIR_PRIVATE_BASELINE \<or> phase = PAIR_PRIVATE_REMAINDER"

definition phase_pages :: "PairCapacityPhase \<Rightarrow> PairArbitrationEntry \<Rightarrow> nat" where
  "phase_pages phase e = (if is_private phase then unat (ae_privatePages e) else unat (ae_sharedPages e))"

definition pool_pages :: "PairCapacityPhase \<Rightarrow> int \<Rightarrow> int \<Rightarrow> PairArbitrationEntry list \<Rightarrow> nat" where
  "pool_pages phase l r es = (\<Sum>e\<leftarrow>es. if in_pool l r e then phase_pages phase e else 0)"

text \<open>What a phase may change of an entry: the grant of its kind, in its pool, within the request.\<close>

definition same_entry :: "PairArbitrationEntry \<Rightarrow> PairArbitrationEntry \<Rightarrow> bool" where
  "same_entry e e' \<longleftrightarrow> ae_target e' = ae_target e \<and> ae_process e' = ae_process e \<and> ae_actualPages e' = ae_actualPages e"

definition granted :: "PairCapacityPhase \<Rightarrow> int \<Rightarrow> int \<Rightarrow> PairArbitrationEntry \<Rightarrow> PairArbitrationEntry \<Rightarrow> bool" where
  "granted phase l r e e' \<longleftrightarrow> same_entry e e' \<and>
     (if in_pool l r e
      then unat (ae_privatePages e') + unat (ae_sharedPages e') \<le> unat (pt_requestedPages (ae_target e)) \<and>
           (if is_private phase then ae_sharedPages e' = ae_sharedPages e else ae_privatePages e' = ae_privatePages e)
      else e' = e)"

lemma in_pool_same: "same_entry e e' \<Longrightarrow> in_pool l r e' = in_pool l r e"
  by (simp add: same_entry_def in_pool_def PairMatchesCapacityPool_def)

lemma granted_trans: "granted phase l r e e' \<Longrightarrow> is_private phase = is_private phase' \<Longrightarrow> granted phase' l r e' e'' \<Longrightarrow> granted phase l r e e''"
  by (auto simp: granted_def same_entry_def in_pool_def PairMatchesCapacityPool_def split: if_splits)

lemma add_granted:
  assumes ready: "PairMatchesCapacityPool e l r \<Longrightarrow> entry_ready phase e" and x: "x \<le> phase_demand l r phase e"
  shows "granted phase l r e (AddPairCapacityAllocation e phase x)"
    and "in_pool l r e \<Longrightarrow> phase_pages phase (AddPairCapacityAllocation e phase x) = phase_pages phase e + x"
    and "\<not> in_pool l r e \<Longrightarrow> x = 0"
proof -
  have same: "same_entry e (AddPairCapacityAllocation e phase x)" by (simp add: same_entry_def)
  have b: "unat (ae_privatePages e) + unat (ae_sharedPages e) + x \<le> unat (pt_requestedPages (ae_target e))" if "in_pool l r e"
    using demand_bound [of phase e] ready x that by (auto simp: in_pool_def phase_demand_def)
  show x0: "\<not> in_pool l r e \<Longrightarrow> x = 0" using x by (auto simp: in_pool_def phase_demand_def split: if_splits)
  show "in_pool l r e \<Longrightarrow> phase_pages phase (AddPairCapacityAllocation e phase x) = phase_pages phase e + x"
    using add_grants [OF b, of phase] by (auto simp: phase_pages_def is_private_def)
  show "granted phase l r e (AddPairCapacityAllocation e phase x)"
  proof (cases "in_pool l r e")
    case True
    have "unat (ae_privatePages (AddPairCapacityAllocation e phase x)) + unat (ae_sharedPages (AddPairCapacityAllocation e phase x)) =
        unat (ae_privatePages e) + unat (ae_sharedPages e) + x"
      using add_grants [OF b [OF True], of phase] by auto
    then show ?thesis using b [OF True] same True
      by (auto simp: granted_def is_private_def AddPairCapacityAllocation_def)
  qed (use x0 same in \<open>simp add: granted_def\<close>)
qed

lemma list_all2_map2:
  assumes "list_all2 P xs ys" and "\<And>x y. x \<in> set xs \<Longrightarrow> P x y \<Longrightarrow> Q x (f x y)"
  shows "list_all2 Q xs (map2 f xs ys)"
  using assms by (induction rule: list_all2_induct) auto

lemma sum_map2:
  assumes "list_all2 P xs ys" and "\<And>x y. x \<in> set xs \<Longrightarrow> P x y \<Longrightarrow> g (f x y) = h x + (y :: nat)"
  shows "sum_list (map g (map2 f xs ys)) = sum_list (map h xs) + sum_list ys"
  using assms by (induction rule: list_all2_induct) auto

lemma sum_eq_all:
  assumes "list_all2 (\<lambda>x y. y \<le> d x) xs ys" and "sum_list ys = (\<Sum>x\<leftarrow>xs. d x :: nat)"
  shows "list_all2 (\<lambda>x y. y = d x) xs ys"
  using assms
proof (induction rule: list_all2_induct)
  case (Cons x xs y ys)
  have "sum_list ys \<le> (\<Sum>x\<leftarrow>xs. d x)" using Cons(2) by (induction rule: list_all2_induct) (auto intro: add_mono)
  with Cons show ?case by auto
qed simp

lemma list_all2_set2D: "list_all2 P xs ys \<Longrightarrow> y \<in> set ys \<Longrightarrow> \<exists>x \<in> set xs. P x y"
  by (induction rule: list_all2_induct) auto

context capacity_phase
begin

lemma one_phase:
  assumes ready: "\<forall>e \<in> set es. PairMatchesCapacityPool e l r \<longrightarrow> entry_ready phase e" and len: "length es < 2 ^ 32"
    and res: "allocate es l r cap phase = (es', used)"
  shows "list_all2 (granted phase l r) es es'"
    and "used = min cap (\<Sum>e\<leftarrow>es. phase_demand l r phase e)"
    and "pool_pages phase l r es' = pool_pages phase l r es + used"
    and "used = (\<Sum>e\<leftarrow>es. phase_demand l r phase e) \<Longrightarrow>
      list_all2 (\<lambda>e e'. in_pool l r e \<longrightarrow> phase_pages phase e' = phase_pages phase e + phase_demand l r phase e) es es'"
proof -
  let ?add = "\<lambda>e x. AddPairCapacityAllocation e phase x"
  from phase_grant [OF ready len, of cap] res obtain xs where es': "es' = map2 ?add es xs" and used: "used = sum_list xs"
    and le: "list_all2 (\<lambda>e x. x \<le> phase_demand l r phase e) es xs"
    and sum: "sum_list xs = min cap (\<Sum>e\<leftarrow>es. phase_demand l r phase e)" by auto
  have ready': "PairMatchesCapacityPool e l r \<Longrightarrow> entry_ready phase e" if "e \<in> set es" for e using ready that by blast
  show "list_all2 (granted phase l r) es es'"
    unfolding es' using le by (rule list_all2_map2) (rule add_granted(1) [OF ready'])
  show "used = min cap (\<Sum>e\<leftarrow>es. phase_demand l r phase e)" using used sum by simp
  show "pool_pages phase l r es' = pool_pages phase l r es + used"
    unfolding pool_pages_def es' used
  proof (rule sum_map2 [OF le])
    fix e x assume e: "e \<in> set es" "x \<le> phase_demand l r phase e"
    have "in_pool l r (?add e x) = in_pool l r e" by (rule in_pool_same) (simp add: same_entry_def)
    then show "(if in_pool l r (?add e x) then phase_pages phase (?add e x) else 0) = (if in_pool l r e then phase_pages phase e else 0) + x"
      using add_granted(2,3) [OF ready' [OF e(1)] e(2)] by auto
  qed
  assume "used = (\<Sum>e\<leftarrow>es. phase_demand l r phase e)"
  then have "list_all2 (\<lambda>e x. x = phase_demand l r phase e) es xs" using used le by (intro sum_eq_all) simp_all
  then show "list_all2 (\<lambda>e e'. in_pool l r e \<longrightarrow> phase_pages phase e' = phase_pages phase e + phase_demand l r phase e) es es'"
    unfolding es' by (rule list_all2_map2) (use add_granted(2) [OF ready'] in simp)
qed

text \<open>
  A baseline phase followed by the remainder phase of the same pool: the grants stay within the
  capacity, and capacity is left only when every request of the pool is met.
\<close>

lemma two_phases:
  assumes phases: "(phase, phase') = (PAIR_PRIVATE_BASELINE, PAIR_PRIVATE_REMAINDER) \<or>
      (phase, phase') = (PAIR_SHARED_BASELINE, PAIR_SHARED_REMAINDER)"
    and ready: "\<forall>e \<in> set es. PairMatchesCapacityPool e l r \<longrightarrow> entry_ready phase e" and len: "length es < 2 ^ 32"
    and start: "pool_pages phase l r es = 0" and cap: "cap < 2 ^ 64"
    and res1: "allocate es l r cap phase = (es1, used)" and res2: "allocate es1 l r (sub64 cap used) phase' = (es2, used')"
  shows "list_all2 (granted phase l r) es es2" and "pool_pages phase l r es2 \<le> cap"
    and "pool_pages phase l r es2 = cap \<or>
      (\<forall>e \<in> set es2. in_pool l r e \<longrightarrow>
        unat (ae_privatePages e) + unat (ae_sharedPages e) = unat (pt_requestedPages (ae_target e)))"
proof -
  note one = one_phase [OF ready len res1]
  have kind: "is_private phase' = is_private phase" using phases by (auto simp: is_private_def)
  have pages: "phase_pages phase' = phase_pages phase" by (simp add: phase_pages_def kind fun_eq_iff)
  have len1: "length es1 < 2 ^ 32" using one(1) len by (simp add: list_all2_lengthD)
  have used: "used \<le> cap" using one(2) by simp
  then have sub: "sub64 cap used = cap - used" using cap by (intro sub64_eq)
  have ready1: "\<forall>e \<in> set es1. PairMatchesCapacityPool e l r \<longrightarrow> entry_ready phase' e"
  proof (intro ballI impI)
    fix e1 assume e1: "e1 \<in> set es1" "PairMatchesCapacityPool e1 l r"
    then obtain e where e: "e \<in> set es" "granted phase l r e e1" using list_all2_set2D [OF one(1)] by blast
    have "PairMatchesCapacityPool e l r" "ae_process e1 = ae_process e" "ae_target e1 = ae_target e"
      using e(2) e1(2) by (auto simp: granted_def same_entry_def PairMatchesCapacityPool_def)
    then show "entry_ready phase' e1" using e ready phases
      by (auto simp: granted_def entry_ready_def in_pool_def is_private_def split: if_splits)
  qed
  note two = one_phase [OF ready1 len1 res2]
  show "list_all2 (granted phase l r) es es2"
    using one(1) two(1) by (rule list_all2_trans [rotated]) (rule granted_trans [OF _ kind [symmetric]])
  have total: "pool_pages phase l r es2 = used + used'"
  proof -
    have "pool_pages phase' = pool_pages phase" by (intro ext) (simp only: pool_pages_def pages)
    then show ?thesis using one(3) two(3) start by simp
  qed
  have le: "used' \<le> cap - used" using two(2) sub by simp
  show "pool_pages phase l r es2 \<le> cap" using total le used by simp
  show "pool_pages phase l r es2 = cap \<or>
      (\<forall>e \<in> set es2. in_pool l r e \<longrightarrow>
        unat (ae_privatePages e) + unat (ae_sharedPages e) = unat (pt_requestedPages (ae_target e)))"
  proof (cases "used' = (\<Sum>e\<leftarrow>es1. phase_demand l r phase' e)")
    case True
    have "unat (ae_privatePages e2) + unat (ae_sharedPages e2) = unat (pt_requestedPages (ae_target e2))"
      if e2: "e2 \<in> set es2" "in_pool l r e2" for e2
    proof -
      obtain e1 where e1: "e1 \<in> set es1" "granted phase' l r e1 e2"
        "in_pool l r e1 \<longrightarrow> phase_pages phase' e2 = phase_pages phase' e1 + phase_demand l r phase' e1"
      proof -
        have "list_all2 (\<lambda>e1 e2. granted phase' l r e1 e2 \<and>
            (in_pool l r e1 \<longrightarrow> phase_pages phase' e2 = phase_pages phase' e1 + phase_demand l r phase' e1)) es1 es2"
          using two(1) two(4) [OF True] by (simp add: list_all2_conv_all_nth)
        from list_all2_set2D [OF this e2(1)] show ?thesis using that by blast
      qed
      have same: "same_entry e1 e2" and pool: "in_pool l r e1"
        using e1(2) e2(2) in_pool_same [of e1 e2 l r] by (auto simp: granted_def)
      then have m: "PairMatchesCapacityPool e1 l r" "\<not> pa_ignoreRemoteCapacity (ae_process e1)" by (auto simp: in_pool_def)
      have rdy: "entry_ready phase' e1" using ready1 e1(1) m(1) by blast
      have "unat (ae_privatePages e1) + unat (ae_sharedPages e1) + PairCapacityDemand e1 phase' = unat (pt_requestedPages (ae_target e1))"
        using phases
      proof (elim disjE)
        assume "(phase, phase') = (PAIR_PRIVATE_BASELINE, PAIR_PRIVATE_REMAINDER)"
        then show ?thesis using rdy m(2) by (simp add: entry_ready_def PairCapacityDemand_def Let_def sub64_eq)
      next
        assume p: "(phase, phase') = (PAIR_SHARED_BASELINE, PAIR_SHARED_REMAINDER)"
        then have g: "unat (ae_privatePages e1) + unat (ae_sharedPages e1) \<le> unat (pt_requestedPages (ae_target e1))"
          using rdy m(2) by (simp add: entry_ready_def)
        show ?thesis using p g m(2) unat_grants [OF g] by (simp add: PairCapacityDemand_def Let_def sub64_eq)
      qed
      then show ?thesis using e1(2,3) pool same m
        by (auto simp: granted_def same_entry_def phase_pages_def phase_demand_def split: if_splits)
    qed
    then show ?thesis by blast
  next
    case False
    then have "used' = cap - used" using two(2) sub by (auto simp: min_def split: if_splits)
    then show ?thesis using total used by simp
  qed
qed

end

section \<open>Arbitration\<close>

text \<open>
  The state of the arbitration when the private pools \<open>D\<close> and the shared pools \<open>S\<close> have been given out:
  grants are within the requests, pools not reached yet are empty, and every pool that was reached is
  within its capacity and exhausted unless the requests it serves are met.
\<close>

definition pool_served :: "PairCapacityPhase \<Rightarrow> int \<Rightarrow> int \<Rightarrow> nat \<Rightarrow> PairArbitrationEntry list \<Rightarrow> bool" where
  "pool_served phase l r cap es \<longleftrightarrow> pool_pages phase l r es \<le> cap \<and>
     (pool_pages phase l r es = cap \<or>
      (\<forall>e \<in> set es. in_pool l r e \<longrightarrow>
        unat (ae_privatePages e) + (if is_private phase then 0 else unat (ae_sharedPages e)) = unat (pt_requestedPages (ae_target e))))"

definition entry_ok :: "PairArbitrationEntry \<Rightarrow> bool" where
  "entry_ok e \<longleftrightarrow>
     (if pa_ignoreRemoteCapacity (ae_process e)
      then ae_privatePages e = pt_requestedPages (ae_target e) \<and> ae_sharedPages e = 0
      else unat (ae_privatePages e) + unat (ae_sharedPages e) \<le> unat (pt_requestedPages (ae_target e)))"

definition arbitration_inv ::
  "nat \<Rightarrow> matrix \<Rightarrow> (nat \<Rightarrow> nat) \<Rightarrow> (nat \<times> nat) set \<Rightarrow> nat set \<Rightarrow> PairArbitrationEntry list \<Rightarrow> PairArbitrationEntry list \<Rightarrow> bool" where
  "arbitration_inv n pc sc D S es0 es \<longleftrightarrow>
     list_all2 same_entry es0 es \<and> (\<forall>e \<in> set es. entry_ok e) \<and>
     (\<forall>e \<in> set es. \<forall>l r. (l, r) \<notin> D \<and> in_pool (int l) (int (n + r)) e \<longrightarrow> ae_privatePages e = 0) \<and>
     (\<forall>e \<in> set es. \<forall>r. r \<notin> S \<and> in_pool (-1) (int (n + r)) e \<longrightarrow> ae_sharedPages e = 0) \<and>
     (\<forall>(l, r) \<in> D. pool_served PAIR_PRIVATE_BASELINE (int l) (int (n + r)) (pc l r) es) \<and>
     (\<forall>r \<in> S. pool_served PAIR_SHARED_BASELINE (-1) (int (n + r)) (sc r) es)"

lemma in_pool_shared: "in_pool (int l) r e \<Longrightarrow> in_pool (-1) r e"
  by (simp add: in_pool_def PairMatchesCapacityPool_def)

lemma in_pool_disjoint:
  "in_pool (int l') (int (n + r')) e \<Longrightarrow> (l', r') \<noteq> (l, r) \<Longrightarrow> \<not> in_pool (int l) (int (n + r)) e"
  "in_pool (-1) (int (n + r')) e \<Longrightarrow> r' \<noteq> r \<Longrightarrow> \<not> in_pool k (int (n + r)) e"
  by (auto simp: in_pool_def PairMatchesCapacityPool_def)

text \<open>A step that does not touch the grants a pool is judged by leaves the pool as it is.\<close>

lemma sum_list_all2:
  "list_all2 P xs ys \<Longrightarrow> (\<And>x y. P x y \<Longrightarrow> f y = g x) \<Longrightarrow> sum_list (map f ys) = (sum_list (map g xs) :: nat)"
  by (induction rule: list_all2_induct) auto

lemma pool_served_keep:
  assumes step: "list_all2 P es es'" and same: "\<And>e e'. P e e' \<Longrightarrow> same_entry e e'"
    and keep: "\<And>e e'. P e e' \<Longrightarrow> in_pool l r e \<Longrightarrow> ae_privatePages e' = ae_privatePages e \<and>
      (is_private phase \<or> ae_sharedPages e' = ae_sharedPages e)"
    and ok: "pool_served phase l r cap es"
  shows "pool_served phase l r cap es'"
proof -
  have pool: "in_pool l r e' = in_pool l r e" if "P e e'" for e e' using in_pool_same [OF same [OF that]] .
  have pages: "pool_pages phase l r es' = pool_pages phase l r es"
    unfolding pool_pages_def
    by (rule sum_list_all2 [OF step]) (use pool keep in \<open>auto simp: phase_pages_def\<close>)
  have "unat (ae_privatePages e') + (if is_private phase then 0 else unat (ae_sharedPages e')) = unat (pt_requestedPages (ae_target e'))"
    if full: "\<forall>e \<in> set es. in_pool l r e \<longrightarrow>
        unat (ae_privatePages e) + (if is_private phase then 0 else unat (ae_sharedPages e)) = unat (pt_requestedPages (ae_target e))"
      and e': "e' \<in> set es'" "in_pool l r e'" for e'
  proof -
    obtain e where e: "e \<in> set es" "P e e'" using list_all2_set2D [OF step e'(1)] by blast
    then have "in_pool l r e" "ae_target e' = ae_target e" using pool e'(2) same by (auto simp: same_entry_def)
    then show ?thesis using full e keep [OF e(2)] by auto
  qed
  then show ?thesis using ok pages by (auto simp: pool_served_def)
qed

lemma arbitrate_private_inv:
  assumes inv: "arbitration_inv n pc sc D S es0 es" and new: "(l, r) \<notin> D" "r \<notin> S"
    and len: "length es < 2 ^ 32" and cap: "pc l r < 2 ^ 64"
  shows "arbitration_inv n pc sc (insert (l, r) D) S es0 (arbitrate_private n pc r l es)"
proof -
  let ?r = "int (n + r)" and ?l = "int l"
  obtain es1 used where r1: "AllocatePairCapacityPhase es ?l ?r (pc l r) PAIR_PRIVATE_BASELINE = (es1, used)" by force
  obtain es2 used' where r2: "AllocatePairCapacityPhase es1 ?l ?r (sub64 (pc l r) used) PAIR_PRIVATE_REMAINDER = (es2, used')" by force
  have eq: "arbitrate_private n pc r l es = es2" unfolding arbitrate_private_def Let_def r1 prod.case r2 by simp
  have zero: "ae_privatePages e = 0" "ae_sharedPages e = 0" if "e \<in> set es" "in_pool ?l ?r e" for e
    using inv new that in_pool_shared [OF that(2)] unfolding arbitration_inv_def by blast+
  have ready: "\<forall>e \<in> set es. PairMatchesCapacityPool e ?l ?r \<longrightarrow> entry_ready PAIR_PRIVATE_BASELINE e"
    using zero by (auto simp: entry_ready_def in_pool_def)
  have start: "pool_pages PAIR_PRIVATE_BASELINE ?l ?r es = 0"
    using zero by (auto simp: pool_pages_def phase_pages_def is_private_def)
  note two = pair_phase.two_phases [OF disjI1 [OF refl] ready len start cap r1 r2]
  have g: "list_all2 (granted PAIR_PRIVATE_BASELINE ?l ?r) es es2" by (rule two(1))
  have origin: "\<exists>e \<in> set es. granted PAIR_PRIVATE_BASELINE ?l ?r e e'" if "e' \<in> set es2" for e'
    using list_all2_set2D [OF g that] .
  have same: "same_entry e e'" if "granted PAIR_PRIVATE_BASELINE ?l ?r e e'" for e e' using that by (simp add: granted_def)
  have shared0: "ae_sharedPages e' = 0" if e': "e' \<in> set es2" "in_pool ?l ?r e'" for e'
  proof -
    obtain e where e: "e \<in> set es" "granted PAIR_PRIVATE_BASELINE ?l ?r e e'" using origin [OF e'(1)] by blast
    then show ?thesis using zero(2) [OF e(1)] in_pool_same [OF same [OF e(2)]] e'(2) by (simp add: granted_def is_private_def)
  qed
  have "list_all2 same_entry es0 es2"
    using inv g same unfolding arbitration_inv_def
    by (auto intro: list_all2_trans [of same_entry "granted PAIR_PRIVATE_BASELINE ?l ?r" same_entry] simp: same_entry_def)
  moreover have "entry_ok e'" if e': "e' \<in> set es2" for e'
  proof -
    obtain e where e: "e \<in> set es" "granted PAIR_PRIVATE_BASELINE ?l ?r e e'" using origin [OF e'(1)] by blast
    moreover have "entry_ok e" using inv e(1) by (simp add: arbitration_inv_def)
    ultimately show ?thesis
      by (auto simp: granted_def entry_ok_def same_entry_def in_pool_def split: if_splits)
  qed
  moreover have "ae_privatePages e' = 0" if e': "e' \<in> set es2" "(l', r') \<notin> insert (l, r) D" "in_pool (int l') (int (n + r')) e'" for e' l' r'
  proof -
    obtain e where e: "e \<in> set es" "granted PAIR_PRIVATE_BASELINE ?l ?r e e'" using origin [OF e'(1)] by blast
    have p: "in_pool (int l') (int (n + r')) e" using e'(3) in_pool_same [OF same [OF e(2)]] by simp
    then have "\<not> in_pool ?l ?r e" using in_pool_disjoint(1) e'(2) by blast
    then have "e' = e" using e(2) by (simp add: granted_def)
    then show ?thesis using inv e(1) p e'(2) by (auto simp: arbitration_inv_def)
  qed
  moreover have "ae_sharedPages e' = 0" if e': "e' \<in> set es2" "r' \<notin> S" "in_pool (-1) (int (n + r')) e'" for e' r'
  proof -
    obtain e where e: "e \<in> set es" "granted PAIR_PRIVATE_BASELINE ?l ?r e e'" using origin [OF e'(1)] by blast
    have "in_pool (-1) (int (n + r')) e" using e'(3) in_pool_same [OF same [OF e(2)]] by simp
    then have "ae_sharedPages e = 0" using inv e(1) e'(2) by (auto simp: arbitration_inv_def)
    then show ?thesis using e(2) by (auto simp: granted_def is_private_def split: if_splits)
  qed
  moreover have "pool_served PAIR_PRIVATE_BASELINE ?l ?r (pc l r) es2"
    using two(2,3) shared0 by (auto simp: pool_served_def is_private_def)
  moreover have "pool_served PAIR_PRIVATE_BASELINE (int l') (int (n + r')) (pc l' r') es2" if "(l', r') \<in> D" for l' r'
  proof (rule pool_served_keep [OF g same])
    show "pool_served PAIR_PRIVATE_BASELINE (int l') (int (n + r')) (pc l' r') es" using inv that by (auto simp: arbitration_inv_def)
    show "ae_privatePages e' = ae_privatePages e \<and> (is_private PAIR_PRIVATE_BASELINE \<or> ae_sharedPages e' = ae_sharedPages e)"
      if "granted PAIR_PRIVATE_BASELINE ?l ?r e e'" "in_pool (int l') (int (n + r')) e" for e e'
      using that in_pool_disjoint(1) [OF that(2)] \<open>(l', r') \<in> D\<close> new(1) by (metis granted_def)
  qed
  moreover have "pool_served PAIR_SHARED_BASELINE (-1) (int (n + r')) (sc r') es2" if "r' \<in> S" for r'
  proof (rule pool_served_keep [OF g same])
    show "pool_served PAIR_SHARED_BASELINE (-1) (int (n + r')) (sc r') es" using inv that by (auto simp: arbitration_inv_def)
    show "ae_privatePages e' = ae_privatePages e \<and> (is_private PAIR_SHARED_BASELINE \<or> ae_sharedPages e' = ae_sharedPages e)"
      if "granted PAIR_PRIVATE_BASELINE ?l ?r e e'" "in_pool (-1) (int (n + r')) e" for e e'
      using that in_pool_disjoint(2) [OF that(2)] \<open>r' \<in> S\<close> new(2) by (metis granted_def)
  qed
  ultimately show ?thesis unfolding eq arbitration_inv_def by blast
qed

lemma arbitrate_shared_inv:
  assumes inv: "arbitration_inv n pc sc D S es0 es" and new: "r \<notin> S" and len: "length es < 2 ^ 32" and cap: "sc r < 2 ^ 64"
  shows "arbitration_inv n pc sc D (insert r S) es0 (arbitrate_shared n sc r es)"
proof -
  let ?r = "int (n + r)"
  let ?G = "granted PAIR_SHARED_BASELINE (-1) ?r"
  obtain es1 used where r1: "AllocatePairCapacityPhase es (-1) ?r (sc r) PAIR_SHARED_BASELINE = (es1, used)" by force
  obtain es2 used' where r2: "AllocatePairCapacityPhase es1 (-1) ?r (sub64 (sc r) used) PAIR_SHARED_REMAINDER = (es2, used')" by force
  have eq: "arbitrate_shared n sc r es = es2" unfolding arbitrate_shared_def Let_def r1 prod.case r2 by simp
  have ok: "entry_ok e" if "e \<in> set es" for e using inv that by (simp add: arbitration_inv_def)
  have zero: "ae_sharedPages e = 0" if "e \<in> set es" "in_pool (-1) ?r e" for e
    using inv new that unfolding arbitration_inv_def by blast
  have ready: "\<forall>e \<in> set es. PairMatchesCapacityPool e (-1) ?r \<longrightarrow> entry_ready PAIR_SHARED_BASELINE e"
    using ok by (fastforce simp: entry_ready_def entry_ok_def split: if_splits)
  have start: "pool_pages PAIR_SHARED_BASELINE (-1) ?r es = 0"
    using zero by (auto simp: pool_pages_def phase_pages_def is_private_def)
  note two = pair_phase.two_phases [OF disjI2 [OF refl] ready len start cap r1 r2]
  have origin: "\<exists>e \<in> set es. ?G e e'" if "e' \<in> set es2" for e' using list_all2_set2D [OF two(1) that] .
  have same: "same_entry e e'" and priv: "ae_privatePages e' = ae_privatePages e" if "?G e e'" for e e'
    using that by (auto simp: granted_def is_private_def split: if_splits)
  have "list_all2 same_entry es0 es2"
    using inv two(1) same unfolding arbitration_inv_def
    by (auto intro: list_all2_trans [of same_entry ?G same_entry] simp: same_entry_def)
  moreover have "entry_ok e'" if e': "e' \<in> set es2" for e'
  proof -
    obtain e where e: "e \<in> set es" "?G e e'" using origin [OF e'] by blast
    then show ?thesis using ok [OF e(1)] by (auto simp: granted_def entry_ok_def same_entry_def in_pool_def split: if_splits)
  qed
  moreover have "ae_privatePages e' = 0" if e': "e' \<in> set es2" "(l', r') \<notin> D" "in_pool (int l') (int (n + r')) e'" for e' l' r'
  proof -
    obtain e where e: "e \<in> set es" "?G e e'" using origin [OF e'(1)] by blast
    have "in_pool (int l') (int (n + r')) e" using e'(3) in_pool_same [OF same [OF e(2)]] by simp
    then have "ae_privatePages e = 0" using inv e(1) e'(2) unfolding arbitration_inv_def by blast
    then show ?thesis using priv [OF e(2)] by simp
  qed
  moreover have "ae_sharedPages e' = 0" if e': "e' \<in> set es2" "r' \<notin> insert r S" "in_pool (-1) (int (n + r')) e'" for e' r'
  proof -
    obtain e where e: "e \<in> set es" "?G e e'" using origin [OF e'(1)] by blast
    have p: "in_pool (-1) (int (n + r')) e" using e'(3) in_pool_same [OF same [OF e(2)]] by simp
    then have "\<not> in_pool (-1) ?r e" using in_pool_disjoint(2) e'(2) by blast
    then have "e' = e" using e(2) by (simp add: granted_def)
    then show ?thesis using inv e(1) p e'(2) unfolding arbitration_inv_def by blast
  qed
  moreover have "pool_served PAIR_SHARED_BASELINE (-1) ?r (sc r) es2"
    using two(2,3) by (auto simp: pool_served_def is_private_def)
  moreover have "pool_served PAIR_PRIVATE_BASELINE (int l') (int (n + r')) (pc l' r') es2" if "(l', r') \<in> D" for l' r'
  proof (rule pool_served_keep [OF two(1) same])
    show "pool_served PAIR_PRIVATE_BASELINE (int l') (int (n + r')) (pc l' r') es" using inv that by (auto simp: arbitration_inv_def)
  qed (use priv in \<open>auto simp: is_private_def\<close>)
  moreover have "pool_served PAIR_SHARED_BASELINE (-1) (int (n + r')) (sc r') es2" if "r' \<in> S" for r'
  proof (rule pool_served_keep [OF two(1) same])
    show "pool_served PAIR_SHARED_BASELINE (-1) (int (n + r')) (sc r') es" using inv that by (auto simp: arbitration_inv_def)
    show "ae_privatePages e' = ae_privatePages e \<and> (is_private PAIR_SHARED_BASELINE \<or> ae_sharedPages e' = ae_sharedPages e)"
      if "?G e e'" "in_pool (-1) (int (n + r')) e" for e e'
      using that in_pool_disjoint(2) [OF that(2)] \<open>r' \<in> S\<close> new by (metis granted_def)
  qed
  ultimately show ?thesis unfolding eq arbitration_inv_def by blast
qed

lemma arbitration_inv_length: "arbitration_inv n pc sc D S es0 es \<Longrightarrow> length es = length es0"
  by (auto simp: arbitration_inv_def dest: list_all2_lengthD)

lemma arbitrate_remote_inv:
  assumes inv: "arbitration_inv n pc sc D S es0 es" and new: "\<And>l. (l, r) \<notin> D" "r \<notin> S" and len: "length es0 < 2 ^ 32"
    and cap: "\<And>l. pc l r < 2 ^ 64" "sc r < 2 ^ 64"
  shows "arbitration_inv n pc sc (D \<union> {..<n} \<times> {r}) (insert r S) es0
    (arbitrate_shared n sc r (fold (arbitrate_private n pc r) [0..<n] es))"
proof -
  have loop: "arbitration_inv n pc sc (D \<union> {..<k} \<times> {r}) S es0 (fold (arbitrate_private n pc r) [0..<k] es)" for k
  proof (induction k)
    case (Suc k)
    have "arbitration_inv n pc sc (insert (k, r) (D \<union> {..<k} \<times> {r})) S es0
        (arbitrate_private n pc r k (fold (arbitrate_private n pc r) [0..<k] es))"
      using Suc new len cap arbitration_inv_length [OF Suc] by (intro arbitrate_private_inv) auto
    moreover have "insert (k, r) (D \<union> {..<k} \<times> {r}) = D \<union> {..<Suc k} \<times> {r}" by (auto simp: less_Suc_eq)
    ultimately show ?case by simp
  qed (use inv in simp)
  show ?thesis
    using loop [of n] new(2) len cap(2) arbitration_inv_length [OF loop [of n]] by (intro arbitrate_shared_inv) auto
qed

text \<open>
  Arbitration: starting from entries without grants, the grants of every pool are within its capacity, and
  capacity is left over only where every request is met.
\<close>

definition arbitrated :: "nat \<Rightarrow> matrix \<Rightarrow> (nat \<Rightarrow> nat) \<Rightarrow> PairArbitrationEntry list \<Rightarrow> PairArbitrationEntry list \<Rightarrow> bool" where
  "arbitrated n pc sc es es' \<longleftrightarrow>
     list_all2 same_entry es es' \<and> (\<forall>e \<in> set es'. entry_ok e) \<and>
     (\<forall>l<n. \<forall>r<18. pool_served PAIR_PRIVATE_BASELINE (int l) (int (n + r)) (pc l r) es') \<and>
     (\<forall>r<18. pool_served PAIR_SHARED_BASELINE (-1) (int (n + r)) (sc r) es')"

lemma ArbitrateAllPairCapacity_gen:
  assumes fresh: "\<forall>e \<in> set es. ae_privatePages e = 0 \<and> ae_sharedPages e = 0" and len: "length es < 2 ^ 32"
    and cap: "\<And>l r. pc l r < 2 ^ 64" "\<And>r. sc r < 2 ^ 64"
  shows "arbitrated n pc sc es (ArbitrateAllPairCapacity es n pc sc)"
proof -
  let ?start = "map (\<lambda>e. if pa_ignoreRemoteCapacity (ae_process e)
      then e\<lparr>ae_privatePages := pt_requestedPages (ae_target e)\<rparr> else e) es"
  let ?step = "\<lambda>r es. arbitrate_shared n sc r (fold (arbitrate_private n pc r) [0..<n] es)"
  have start: "arbitration_inv n pc sc {} {} es ?start"
    using fresh
    by (auto simp: arbitration_inv_def list_all2_conv_all_nth same_entry_def entry_ok_def in_pool_def
        PairMatchesCapacityPool_def split: if_splits)
  have "arbitration_inv n pc sc ({..<n} \<times> {..<k}) {..<k} es (fold ?step [0..<k] ?start)" for k
  proof (induction k)
    case (Suc k)
    have "arbitration_inv n pc sc ({..<n} \<times> {..<k} \<union> {..<n} \<times> {k}) (insert k {..<k}) es (?step k (fold ?step [0..<k] ?start))"
      using Suc len cap by (intro arbitrate_remote_inv) auto
    moreover have "{..<n} \<times> {..<k} \<union> {..<n} \<times> {k} = {..<n} \<times> {..<Suc k}" by (auto simp: less_Suc_eq)
    ultimately show ?case by (simp add: lessThan_Suc)
  qed (use start in simp)
  from this [of 18] have "arbitration_inv n pc sc ({..<n} \<times> {..<18}) {..<18} es (ArbitrateAllPairCapacity es n pc sc)"
    unfolding ArbitrateAllPairCapacity_def Let_def .
  then show ?thesis unfolding arbitrated_def arbitration_inv_def by blast
qed

section \<open>The snapshot of the capacities\<close>

text \<open>The pages of a capacity given in MiB.\<close>

definition capacity_pages :: "u64 \<Rightarrow> nat \<Rightarrow> nat" where
  "capacity_pages sizeMB pageSize = unat sizeMB * MIB div pageSize"

lemma RemoteCapacityToPages_Inr:
  "RemoteCapacityToPages sizeMB pageSize = Inr p \<Longrightarrow> p = capacity_pages sizeMB pageSize \<and> p < 2 ^ 64"
proof -
  assume res: "RemoteCapacityToPages sizeMB pageSize = Inr p"
  then have "unat sizeMB \<le> UINT64_MAX div MIB" by (simp add: RemoteCapacityToPages_def split: if_splits)
  then have le: "unat sizeMB * MIB \<le> UINT64_MAX div MIB * MIB" by (rule mult_le_mono1)
  then have lt: "unat sizeMB * MIB < 2 ^ 64" by simp
  then have p: "p = capacity_pages sizeMB pageSize" using res by (simp add: RemoteCapacityToPages_def capacity_pages_def split: if_splits)
  moreover have "capacity_pages sizeMB pageSize \<le> unat sizeMB * MIB" by (simp add: capacity_pages_def)
  ultimately show ?thesis using lt by simp
qed

lemma snapshot_locals_Inr:
  assumes "snapshot_locals info ps r ls (pc, tc) = Inr (pc', tc')" and "distinct ls" and "tc r < 2 ^ 64"
  shows "(\<forall>l \<in> set ls. pc' l r = capacity_pages (ri_privateSize info l r) ps \<and> pc' l r < 2 ^ 64) \<and>
    (\<forall>l k. k \<noteq> r \<or> l \<notin> set ls \<longrightarrow> pc' l k = pc l k) \<and> (\<forall>k. k \<noteq> r \<longrightarrow> tc' k = tc k) \<and>
    tc' r = tc r + (\<Sum>l\<leftarrow>ls. capacity_pages (ri_privateSize info l r) ps) \<and> tc' r < 2 ^ 64"
  using assms
proof (induction info ps r ls "(pc, tc)" arbitrary: pc tc rule: snapshot_locals.induct)
  case (2 info ps r l ls pc tc)
  from 2(2) obtain p where p: "RemoteCapacityToPages (ri_privateSize info l r) ps = Inr p" "\<not> p > UINT64_MAX - tc r"
    and rec: "snapshot_locals info ps r ls (pc(l := (pc l)(r := p)), tc(r := add64 (tc r) p)) = Inr (pc', tc')"
    by (auto split: sum.splits if_splits)
  have add: "add64 (tc r) p = tc r + p" and lt: "tc r + p < 2 ^ 64" using p(2) 2(4) by (auto intro!: add64_eq)
  have "(\<forall>l' \<in> set ls. pc' l' r = capacity_pages (ri_privateSize info l' r) ps \<and> pc' l' r < 2 ^ 64) \<and>
    (\<forall>l' k. k \<noteq> r \<or> l' \<notin> set ls \<longrightarrow> pc' l' k = (pc(l := (pc l)(r := p))) l' k) \<and> (\<forall>k. k \<noteq> r \<longrightarrow> tc' k = (tc(r := add64 (tc r) p)) k) \<and>
    tc' r = (tc(r := add64 (tc r) p)) r + (\<Sum>l\<leftarrow>ls. capacity_pages (ri_privateSize info l r) ps) \<and> tc' r < 2 ^ 64"
    using 2(3) add lt by (intro 2(1) [OF p(1) p(2) rec]) auto
  then show ?case using RemoteCapacityToPages_Inr [OF p(1)] 2(3) add by auto
qed simp

lemma snapshot_remotes_Inr:
  assumes "snapshot_remotes info ps n rs (pc, sc, tc) = Inr (pc', sc', tc')" and "distinct rs"
  shows "(\<forall>r \<in> set rs. sc' r = capacity_pages (ri_sharedSize info r) ps \<and> sc' r < 2 ^ 64 \<and>
      (\<forall>l<n. pc' l r = capacity_pages (ri_privateSize info l r) ps \<and> pc' l r < 2 ^ 64) \<and>
      tc' r = sc' r + (\<Sum>l<n. pc' l r) \<and> tc' r < 2 ^ 64) \<and>
    (\<forall>l r. r \<notin> set rs \<or> \<not> l < n \<longrightarrow> pc' l r = pc l r) \<and> (\<forall>r. r \<notin> set rs \<longrightarrow> sc' r = sc r \<and> tc' r = tc r)"
  using assms
proof (induction info ps n rs "(pc, sc, tc)" arbitrary: pc sc tc rule: snapshot_remotes.induct)
  case (2 info ps n r rs pc sc tc)
  from 2(2) obtain p pc1 tc1 where p: "RemoteCapacityToPages (ri_sharedSize info r) ps = Inr p"
    and loc: "snapshot_locals info ps r [0..<n] (pc, tc(r := p)) = Inr (pc1, tc1)"
    and rec: "snapshot_remotes info ps n rs (pc1, sc(r := p), tc1) = Inr (pc', sc', tc')"
    by (auto split: sum.splits)
  have "(\<forall>l \<in> set [0..<n]. pc1 l r = capacity_pages (ri_privateSize info l r) ps \<and> pc1 l r < 2 ^ 64) \<and>
    (\<forall>l k. k \<noteq> r \<or> l \<notin> set [0..<n] \<longrightarrow> pc1 l k = pc l k) \<and> (\<forall>k. k \<noteq> r \<longrightarrow> tc1 k = (tc(r := p)) k) \<and>
    tc1 r = (tc(r := p)) r + (\<Sum>l\<leftarrow>[0..<n]. capacity_pages (ri_privateSize info l r) ps) \<and> tc1 r < 2 ^ 64"
    using RemoteCapacityToPages_Inr [OF p] by (intro snapshot_locals_Inr [OF loc]) auto
  then have l: "\<forall>l<n. pc1 l r = capacity_pages (ri_privateSize info l r) ps \<and> pc1 l r < 2 ^ 64"
    "\<forall>l k. k \<noteq> r \<or> \<not> l < n \<longrightarrow> pc1 l k = pc l k" "\<forall>k. k \<noteq> r \<longrightarrow> tc1 k = tc k"
    "tc1 r = p + (\<Sum>l<n. capacity_pages (ri_privateSize info l r) ps)" "tc1 r < 2 ^ 64"
    unfolding Ball_def set_upt atLeastLessThan_iff sum_list_upt fun_upd_same
    by (blast, blast, metis fun_upd_other, blast, blast)
  have d: "r \<notin> set rs" "distinct rs" using 2(3) by auto
  note ih = 2(1) [OF p loc refl rec d(2)]
  have s: "(\<Sum>l<n. pc1 l r) = (\<Sum>l<n. capacity_pages (ri_privateSize info l r) ps)" using l(1) by simp
  have new: "sc' r = p" "tc' r = tc1 r" "pc' la r = pc1 la r" for la using ih d(1) by simp_all
  have "sc' r = capacity_pages (ri_sharedSize info r) ps \<and> sc' r < 2 ^ 64 \<and>
      (\<forall>l<n. pc' l r = capacity_pages (ri_privateSize info l r) ps \<and> pc' l r < 2 ^ 64) \<and>
      tc' r = sc' r + (\<Sum>l<n. pc' l r) \<and> tc' r < 2 ^ 64"
    unfolding new s using RemoteCapacityToPages_Inr [OF p] l(1,4,5) by blast
  moreover have "pc' la k = pc la k" if "k \<notin> set (r # rs) \<or> \<not> la < n" for la k
  proof (cases "k = r")
    case True
    with that l(2) show ?thesis by (simp add: new)
  next
    case False
    then have "k \<notin> set rs \<or> \<not> la < n" using that by simp
    then have "pc' la k = pc1 la k" using ih by blast
    with False l(2) show ?thesis by simp
  qed
  moreover have "sc' k = sc k \<and> tc' k = tc k" if "k \<notin> set (r # rs)" for k using ih l(3) that by simp
  ultimately show ?case using conjunct1 [OF ih] unfolding list.set ball_simps by blast
qed simp

lemma BuildPairCapacitySnapshot_gen:
  assumes "BuildPairCapacitySnapshot manager = Inr (pc, sc, tc)"
  shows "r < 18 \<Longrightarrow> sc r = capacity_pages (ri_sharedSize (pm_remoteNumaInfo manager) r) (unat (pm_pageSize manager))"
    and "r < 18 \<Longrightarrow> l < unat (pm_nrLocalNuma manager) \<Longrightarrow>
      pc l r = capacity_pages (ri_privateSize (pm_remoteNumaInfo manager) l r) (unat (pm_pageSize manager))"
    and "r < 18 \<Longrightarrow> tc r = sc r + (\<Sum>l<unat (pm_nrLocalNuma manager). pc l r) \<and> tc r < 2 ^ 64"
    and "pc l r < 2 ^ 64" and "sc r < 2 ^ 64"
proof -
  let ?info = "pm_remoteNumaInfo manager" and ?ps = "unat (pm_pageSize manager)" and ?n = "unat (pm_nrLocalNuma manager)"
  have "snapshot_remotes ?info ?ps ?n [0..<18] ((\<lambda>_ _. 0), (\<lambda>_. 0), (\<lambda>_. 0)) = Inr (pc, sc, tc)"
    using assms by (simp add: BuildPairCapacitySnapshot_def Let_def split: if_splits)
  from snapshot_remotes_Inr [OF this distinct_upt]
  have all: "\<forall>r<18. sc r = capacity_pages (ri_sharedSize ?info r) ?ps \<and> sc r < 2 ^ 64 \<and>
      (\<forall>l<?n. pc l r = capacity_pages (ri_privateSize ?info l r) ?ps \<and> pc l r < 2 ^ 64) \<and>
      tc r = sc r + (\<Sum>l<?n. pc l r) \<and> tc r < 2 ^ 64" "\<forall>l r. \<not> r < 18 \<or> \<not> l < ?n \<longrightarrow> pc l r = 0" "\<forall>r. \<not> r < 18 \<longrightarrow> sc r = 0"
    unfolding Ball_def set_upt atLeastLessThan_iff by blast+
  show "r < 18 \<Longrightarrow> sc r = capacity_pages (ri_sharedSize ?info r) ?ps" using all(1) by blast
  show "r < 18 \<Longrightarrow> l < ?n \<Longrightarrow> pc l r = capacity_pages (ri_privateSize ?info l r) ?ps" using all(1) by blast
  show "r < 18 \<Longrightarrow> tc r = sc r + (\<Sum>l<?n. pc l r) \<and> tc r < 2 ^ 64" using all(1) by blast
  have "(0 :: nat) < 2 ^ 64" by simp
  then show "pc l r < 2 ^ 64" "sc r < 2 ^ 64" using all by metis+
qed


section \<open>The collected requests\<close>

abbreviation request_result ::
  "ProcessManager \<Rightarrow> matrix \<Rightarrow> (nat \<Rightarrow> nat) \<Rightarrow> ProcessAttr \<Rightarrow> errno + PairTarget list \<times> PairRequestSummary" where
  "request_result m pc sc attr \<equiv> BuildPairRequestedTargets attr (BuildPairRequestContext m pc sc attr) (LOCAL_NUMA_NUM * REMOTE_NUMA_NUM)"

definition requests_of :: "ProcessManager \<Rightarrow> matrix \<Rightarrow> (nat \<Rightarrow> nat) \<Rightarrow> ProcessAttr \<Rightarrow> PairArbitrationEntry list" where
  "requests_of m pc sc attr =
     (case request_result m pc sc attr of Inl _ \<Rightarrow> [] | Inr (ts, _) \<Rightarrow> map (make_entry m attr) ts)"

lemma collect_requests_iff:
  assumes "length acc \<le> cap"
  shows "collect_requests m pc sc cap mo attrs acc = Inr es \<longleftrightarrow>
    (\<forall>a \<in> set attrs. \<not> skip_process mo a \<longrightarrow> (\<exists>x. request_result m pc sc a = Inr x)) \<and> length es \<le> cap \<and>
    es = acc @ concat (map (requests_of m pc sc) (filter (\<lambda>a. \<not> skip_process mo a) attrs))"
  using assms
proof (induction attrs arbitrary: acc)
  case (Cons a attrs)
  show ?case
  proof (cases "skip_process mo a")
    case False
    show ?thesis
    proof (cases "request_result m pc sc a")
      case (Inr x)
      obtain ts s where x: "x = (ts, s)" by force
      have r: "requests_of m pc sc a = map (make_entry m a) ts" using Inr x by (simp add: requests_of_def)
      show ?thesis
      proof (cases "length ts > cap - length acc")
        case True
        then show ?thesis using False Inr x r by auto
      next
        case fits: False
        then have "length (acc @ map (make_entry m a) ts) \<le> cap" using Cons.prems by simp
        from Cons.IH [OF this] show ?thesis using False Inr x r fits by simp
      qed
    qed (use False in auto)
  qed (use Cons in simp)
qed auto

text \<open>Every entry of a process names one of its pairs, with no pages granted yet.\<close>

definition entry_of :: "ProcessManager \<Rightarrow> ProcessAttr \<Rightarrow> PairArbitrationEntry \<Rightarrow> bool" where
  "entry_of m attr e \<longleftrightarrow> ae_process e = attr \<and> pt_pid (ae_target e) = pa_pid attr \<and> pt_targetPages (ae_target e) = 0 \<and>
     ae_privatePages e = 0 \<and> ae_sharedPages e = 0 \<and>
     (\<exists>l<unat (pm_nrLocalNuma m). \<exists>r<18. pt_localNid (ae_target e) = int l \<and>
        pt_remoteNid (ae_target e) = int (unat (pm_nrLocalNuma m) + r) \<and> ae_actualPages e = account attr l r)"

lemma request_result_shape:
  assumes "request_result m pc sc attr = Inr (ts, s)"
  obtains q where "ts = map (pair_target attr (BuildPairRequestContext m pc sc attr) q) (requested_pairs attr (unat (pm_nrLocalNuma m)) q)"
proof -
  let ?ctx = "BuildPairRequestContext m pc sc attr"
  have "ValidatePairRequestInput attr ?ctx = Inr ()"
    using assms by (auto simp: BuildPairRequestedTargets_def split: sum.splits)
  then have "request_input_ok attr ?ctx" by (simp add: ValidatePairRequestInput_iff_gen)
  from BuildPairRequestedTargets_gen [OF this, of "LOCAL_NUMA_NUM * REMOTE_NUMA_NUM"] assms that show ?thesis
    by (auto simp: BuildPairRequestContext_def split: if_splits)
qed

lemma distinct_requested_pairs: "distinct (requested_pairs attr n q)"
  by (simp add: requested_pairs_def distinct_product)

lemma set_requested_pairs: "(l, r) \<in> set (requested_pairs attr n q) \<Longrightarrow> l < n \<and> r < 18"
  by (auto simp: requested_pairs_def)

lemma requests_of_entries:
  "e \<in> set (requests_of m pc sc attr) \<Longrightarrow> entry_of m attr e"
  "distinct (map entry_key (requests_of m pc sc attr))"
proof -
  have "(\<forall>e \<in> set (requests_of m pc sc attr). entry_of m attr e) \<and> distinct (map entry_key (requests_of m pc sc attr))"
  proof (cases "request_result m pc sc attr")
    case (Inr x)
    obtain ts s where x: "x = (ts, s)" by force
    let ?n = "unat (pm_nrLocalNuma m)"
    let ?c = "BuildPairRequestContext m pc sc attr"
    obtain q where ts: "ts = map (pair_target attr ?c q) (requested_pairs attr ?n q)"
      using request_result_shape Inr x by metis
    have nr: "rc_nrLocalNuma ?c = int ?n" by (simp add: BuildPairRequestContext_def)
    have r: "requests_of m pc sc attr = map (\<lambda>p. make_entry m attr (pair_target attr ?c q p)) (requested_pairs attr ?n q)"
      using Inr x ts by (simp add: requests_of_def)
    have "entry_of m attr (make_entry m attr (pair_target attr ?c q (l, k)))" if "(l, k) \<in> set (requested_pairs attr ?n q)" for l k
      using set_requested_pairs [OF that] by (auto simp: entry_of_def make_entry_def pair_target_def nr)
    moreover have "inj_on (\<lambda>p. entry_key (make_entry m attr (pair_target attr ?c q p))) (set (requested_pairs attr ?n q))"
      by (auto simp: inj_on_def entry_key_def make_entry_def pair_target_def nr)
    ultimately show ?thesis unfolding r by (auto simp: distinct_map distinct_requested_pairs comp_def)
  qed (simp add: requests_of_def)
  then show "e \<in> set (requests_of m pc sc attr) \<Longrightarrow> entry_of m attr e"
    "distinct (map entry_key (requests_of m pc sc attr))" by blast+
qed

lemma requests_of_distinct:
  "distinct (map pa_pid attrs) \<Longrightarrow> distinct (map entry_key (concat (map (requests_of m pc sc) attrs)))"
proof (induction attrs)
  case (Cons a attrs)
  have "entry_key e \<noteq> entry_key e'" if "e \<in> set (requests_of m pc sc a)" "b \<in> set attrs" "e' \<in> set (requests_of m pc sc b)" for e e' b
  proof -
    have "pt_pid (ae_target e) = pa_pid a" "pt_pid (ae_target e') = pa_pid b"
      using that requests_of_entries(1) by (auto simp: entry_of_def)
    moreover have "pa_pid a \<noteq> pa_pid b" using Cons.prems that(2) by auto
    ultimately show ?thesis by (simp add: entry_key_def)
  qed
  then have "entry_key ` set (requests_of m pc sc a) \<inter> entry_key ` set (concat (map (requests_of m pc sc) attrs)) = {}"
    by fastforce
  then show ?case using Cons requests_of_entries(2) [of m pc sc a] by simp
qed simp

definition collected :: "ProcessManager \<Rightarrow> matrix \<Rightarrow> (nat \<Rightarrow> nat) \<Rightarrow> bool \<Rightarrow> PairArbitrationEntry list" where
  "collected m pc sc mo = concat (map (requests_of m pc sc) (filter (\<lambda>a. \<not> skip_process mo a) (pm_attrs m)))"

lemma CollectAllPairRequests_iff:
  "CollectAllPairRequests m pc sc cap mo = Inr es \<longleftrightarrow>
    (\<forall>a \<in> set (pm_attrs m). \<not> skip_process mo a \<longrightarrow> (\<exists>x. request_result m pc sc a = Inr x)) \<and>
    length (collected m pc sc mo) \<le> cap \<and> es = qsort ComparePairArbitrationEntry (collected m pc sc mo)"
proof -
  have short: "qsort ComparePairArbitrationEntry xs = xs" if "\<not> length xs > 1" for xs
    using that by (cases xs) (auto simp: qsort_def)
  have "CollectAllPairRequests m pc sc cap mo = Inr es \<longleftrightarrow>
      (\<exists>es0. collect_requests m pc sc cap mo (pm_attrs m) [] = Inr es0 \<and> es = qsort ComparePairArbitrationEntry es0)"
    using short by (auto simp: CollectAllPairRequests_def split: sum.splits)
  moreover have "length ([] :: PairArbitrationEntry list) \<le> cap" by simp
  ultimately show ?thesis by (auto simp: collect_requests_iff collected_def)
qed

lemma collected_entries:
  assumes "CollectAllPairRequests m pc sc cap mo = Inr es"
  shows "length es \<le> cap" and "sorted (map entry_key es)" and
    "e \<in> set es \<Longrightarrow> \<exists>a \<in> set (pm_attrs m). \<not> skip_process mo a \<and> entry_of m a e"
  using assms entry_order.sorted_qsort
  by (auto simp: CollectAllPairRequests_iff collected_def dest: requests_of_entries(1))

text \<open>The order in which the processes are visited does not matter.\<close>

lemma BuildPairRequestContext_attrs: "BuildPairRequestContext (m\<lparr>pm_attrs := as\<rparr>) = BuildPairRequestContext m"
  unfolding BuildPairRequestContext_def by (simp cong: if_cong)

lemma requests_of_attrs: "requests_of (m\<lparr>pm_attrs := as\<rparr>) = requests_of m"
proof -
  have "make_entry (m\<lparr>pm_attrs := as\<rparr>) = make_entry m" by (intro ext) (simp add: make_entry_def)
  then show ?thesis unfolding requests_of_def BuildPairRequestContext_attrs by (simp only:)
qed

lemma CollectAllPairRequests_order:
  assumes perm: "mset as = mset (pm_attrs m)" and dist: "distinct (map pa_pid (pm_attrs m))"
    and res: "CollectAllPairRequests m pc sc cap mo = Inr es"
  shows "CollectAllPairRequests (m\<lparr>pm_attrs := as\<rparr>) pc sc cap mo = Inr es"
proof -
  let ?m = "m\<lparr>pm_attrs := as\<rparr>"
  have set: "set as = set (pm_attrs m)" using perm by (metis set_mset_mset)
  have mset: "mset (collected m pc sc mo) = mset (collected ?m pc sc mo)"
    unfolding collected_def requests_of_attrs mset_concat map_map comp_def
    by (simp add: sum_mset_sum_list [symmetric] perm)
  moreover have "distinct (map entry_key (collected m pc sc mo))"
    unfolding collected_def by (rule requests_of_distinct) (use dist in \<open>simp add: distinct_map_filter\<close>)
  ultimately have "qsort ComparePairArbitrationEntry (collected m pc sc mo) = qsort ComparePairArbitrationEntry (collected ?m pc sc mo)"
    by (rule entry_order.qsort_unique)
  moreover have "length (collected m pc sc mo) = length (collected ?m pc sc mo)" using mset by (metis size_mset)
  ultimately show ?thesis using res by (simp add: CollectAllPairRequests_iff set BuildPairRequestContext_attrs)
qed


section \<open>The arbitrated snapshot\<close>

lemma BuildPairArbitrationSnapshotLocked_gen:
  assumes res: "BuildPairArbitrationSnapshotLocked m cap mo = Inr (es', pc, tc)" and cap: "cap < 2 ^ 32"
  obtains sc es where "BuildPairCapacitySnapshot m = Inr (pc, sc, tc)" and "CollectAllPairRequests m pc sc cap mo = Inr es"
    and "arbitrated (unat (pm_nrLocalNuma m)) pc sc es es'"
proof -
  from res obtain sc es where s: "BuildPairCapacitySnapshot m = Inr (pc, sc, tc)"
    and c: "CollectAllPairRequests m pc sc cap mo = Inr es"
    and a: "es' = ArbitrateAllPairCapacity es (unat (pm_nrLocalNuma m)) pc sc"
    by (auto simp: BuildPairArbitrationSnapshotLocked_def split: sum.splits)
  have "length es < 2 ^ 32" using collected_entries(1) [OF c] cap by linarith
  moreover have "\<forall>e \<in> set es. ae_privatePages e = 0 \<and> ae_sharedPages e = 0"
    using collected_entries(3) [OF c] by (auto simp: entry_of_def)
  ultimately have "arbitrated (unat (pm_nrLocalNuma m)) pc sc es es'"
    unfolding a using BuildPairCapacitySnapshot_gen(4,5) [OF s] by (intro ArbitrateAllPairCapacity_gen)
  with s c that show ?thesis by blast
qed

lemma pool_pages_locals:
  assumes "\<forall>e \<in> set es. \<exists>l<n. pt_localNid (ae_target e) = int l"
  shows "pool_pages phase (-1) R es = (\<Sum>l<n. pool_pages phase (int l) R es)"
  using assms
proof (induction es)
  case (Cons e es)
  obtain k where k: "k < n" "pt_localNid (ae_target e) = int k" using Cons.prems by auto
  have "(\<Sum>l<n. if in_pool (int l) R e then phase_pages phase e else 0) =
      (\<Sum>l<n. if l = k then (if in_pool (-1) R e then phase_pages phase e else 0) else 0)"
    by (intro sum.cong) (auto simp: in_pool_def PairMatchesCapacityPool_def k)
  also have "\<dots> = (if in_pool (-1) R e then phase_pages phase e else 0)" using k(1) by simp
  finally show ?case using Cons by (simp add: pool_pages_def sum.distrib)
qed (simp add: pool_pages_def)

lemma arbitrated_remote:
  assumes "arbitrated n pc sc es es'" and "r < 18" and "\<forall>e \<in> set es'. \<exists>l<n. pt_localNid (ae_target e) = int l"
  shows "(\<Sum>e\<leftarrow>es'. if in_pool (-1) (int (n + r)) e then unat (ae_privatePages e + ae_sharedPages e) else 0) \<le>
    sc r + (\<Sum>l<n. pc l r)"
proof -
  have ok: "unat (ae_privatePages e + ae_sharedPages e) = unat (ae_privatePages e) + unat (ae_sharedPages e)"
    if "e \<in> set es'" "in_pool (-1) (int (n + r)) e" for e
    using assms(1) that by (intro unat_grants) (auto simp: arbitrated_def entry_ok_def in_pool_def)
  have "(\<Sum>e\<leftarrow>es'. if in_pool (-1) (int (n + r)) e then unat (ae_privatePages e + ae_sharedPages e) else 0) =
      pool_pages PAIR_SHARED_BASELINE (-1) (int (n + r)) es' + pool_pages PAIR_PRIVATE_BASELINE (-1) (int (n + r)) es'"
    unfolding pool_pages_def sum_list_addf [symmetric]
    by (intro arg_cong [where f = sum_list] map_cong) (auto simp: ok phase_pages_def is_private_def)
  also have "\<dots> \<le> sc r + (\<Sum>l<n. pc l r)"
    unfolding pool_pages_locals [OF assms(3), of PAIR_PRIVATE_BASELINE] using assms(1,2)
    by (intro add_mono sum_mono) (auto simp: arbitrated_def pool_served_def)
  finally show ?thesis .
qed

lemma list_all2_same_set:
  assumes "list_all2 same_entry es es'" and "e' \<in> set es'"
  obtains e where "e \<in> set es" and "same_entry e e'"
  using assms by (metis in_set_conv_nth list_all2_conv_all_nth)

section \<open>The published usage\<close>

lemma PublishPairCapacityResult_frame [simp]:
  "snd (PublishPairCapacityResult m es pc tc) = map publish_entry es"
  "pm_attrs (fst (PublishPairCapacityResult m es pc tc)) = pm_attrs m"
  "pm_nrLocalNuma (fst (PublishPairCapacityResult m es pc tc)) = pm_nrLocalNuma m"
  "pm_pageSize (fst (PublishPairCapacityResult m es pc tc)) = pm_pageSize m"
  by (simp_all add: PublishPairCapacityResult_def Let_def split: prod.splits)












section \<open>Properties\<close>

abbreviation managed_processes :: "ProcessManager \<Rightarrow> bool \<Rightarrow> ProcessAttr list" where
  "managed_processes m mo \<equiv> filter (\<lambda>a. \<not> skip_process mo a) (pm_attrs m)"

lemma BuildAllPairTargets_cases:
  assumes "BuildAllPairTargets f m cap = (Inr ts, m')"
  obtains es pc tc where "BuildPairArbitrationSnapshotLocked m cap False = Inr (es, pc, tc)" and "cap \<le> 43200"
    and "ts = map (ae_target \<circ> publish_entry) es" and "m' = fst (PublishPairCapacityResult m es pc tc)"
proof -
  have cap: "cap \<le> 43200" using assms by (simp add: BuildAllPairTargets_def split: if_splits)
  obtain es pc tc where s: "BuildPairArbitrationSnapshotLocked m cap False = Inr (es, pc, tc)"
    and r: "(Inr ts :: errno + PairTarget list, m') = (let (m, es) = PublishPairCapacityResult m es pc tc in (Inr (map ae_target es), m))"
    using assms by (auto simp: BuildAllPairTargets_def split: if_splits sum.splits)
  have "ts = map ae_target (snd (PublishPairCapacityResult m es pc tc))" "m' = fst (PublishPairCapacityResult m es pc tc)"
    using r by (auto simp only: Let_def case_prod_beta prod.inject sum.inject)
  then show ?thesis using that [OF s cap] by simp
qed


lemma BuildAllPairTargets_entries:
  assumes "BuildPairArbitrationSnapshotLocked m cap mo = Inr (es', pc, tc)" and "cap \<le> 43200" and "e \<in> set es'"
  shows "\<exists>a \<in> set (managed_processes m mo). ae_process e = a \<and> pt_pid (ae_target e) = pa_pid a"
    and "\<exists>l<unat (pm_nrLocalNuma m). pt_localNid (ae_target e) = int l"
    and "entry_ok e" and "pt_targetPages (ae_target e) = 0"
proof -
  have c: "cap < 2 ^ 32" using assms(2) by simp
  obtain sc es where s: "CollectAllPairRequests m pc sc cap mo = Inr es" "arbitrated (unat (pm_nrLocalNuma m)) pc sc es es'"
    by (rule BuildPairArbitrationSnapshotLocked_gen [OF assms(1) c])
  obtain e0 where e0: "e0 \<in> set es" "same_entry e0 e" using s(2) assms(3) list_all2_same_set by (metis arbitrated_def)
  from collected_entries(3) [OF s(1) e0(1)] obtain a where a: "a \<in> set (pm_attrs m)" "\<not> skip_process mo a" "entry_of m a e0" by blast
  then show "\<exists>a \<in> set (managed_processes m mo). ae_process e = a \<and> pt_pid (ae_target e) = pa_pid a"
    "\<exists>l<unat (pm_nrLocalNuma m). pt_localNid (ae_target e) = int l" "pt_targetPages (ae_target e) = 0"
    using e0(2) by (auto simp: entry_of_def same_entry_def)
  show "entry_ok e" using s(2) assms(3) by (simp add: arbitrated_def)
qed

lemma snapshot_locals_succeeds:
  assumes "distinct ls" and "ps \<noteq> 0" and "\<forall>l \<in> set ls. unat (ri_privateSize info l r) \<le> UINT64_MAX div MIB"
    and "tc r + (\<Sum>l\<leftarrow>ls. capacity_pages (ri_privateSize info l r) ps) < 2 ^ 64"
  shows "\<exists>st. snapshot_locals info ps r ls (pc, tc) = Inr st"
  using assms
proof (induction ls arbitrary: pc tc)
  case (Cons l ls)
  let ?p = "unat (ri_privateSize info l r) * MIB mod 2 ^ 64 div ps"
  have res: "RemoteCapacityToPages (ri_privateSize info l r) ps = Inr ?p" using Cons.prems by (simp add: RemoteCapacityToPages_def)
  then have p: "?p = capacity_pages (ri_privateSize info l r) ps" using RemoteCapacityToPages_Inr by blast
  have sum: "tc r + ?p + (\<Sum>l\<leftarrow>ls. capacity_pages (ri_privateSize info l r) ps) < 2 ^ 64"
    unfolding p using Cons.prems(4) by (simp add: add.assoc)
  then have add: "add64 (tc r) ?p = tc r + ?p" "\<not> ?p > UINT64_MAX - tc r" by (auto intro!: add64_eq)
  have "\<exists>st. snapshot_locals info ps r ls (pc(l := (pc l)(r := ?p)), tc(r := tc r + ?p)) = Inr st"
    using Cons.prems sum by (intro Cons.IH) auto
  then show ?case unfolding snapshot_locals.simps res sum.case if_not_P [OF add(2)] add(1) .
qed simp

lemma snapshot_remotes_succeeds:
  assumes "ps \<noteq> 0" and "\<forall>r \<in> set rs. unat (ri_sharedSize info r) + (\<Sum>l<n. unat (ri_privateSize info l r)) \<le> UINT64_MAX div MIB"
  shows "\<exists>pc' sc' tc'. snapshot_remotes info ps n rs (pc, sc, tc) = Inr (pc', sc', tc')"
  using assms
proof (induction rs arbitrary: pc sc tc)
  case (Cons r rs)
  let ?S = "unat (ri_sharedSize info r)" and ?P = "\<lambda>l. unat (ri_privateSize info l r)"
  have le: "?S + (\<Sum>l<n. ?P l) \<le> UINT64_MAX div MIB" using Cons.prems by simp
  have P: "\<forall>l \<in> set [0..<n]. ?P l \<le> UINT64_MAX div MIB"
  proof
    fix l
    assume "l \<in> set [0..<n]"
    then have "?P l \<le> (\<Sum>l<n. ?P l)" by (intro member_le_sum) auto
    then show "?P l \<le> UINT64_MAX div MIB" using le by linarith
  qed
  let ?p = "?S * MIB mod 2 ^ 64 div ps"
  have res: "RemoteCapacityToPages (ri_sharedSize info r) ps = Inr ?p" using Cons.prems le by (simp add: RemoteCapacityToPages_def)
  then have p: "?p = capacity_pages (ri_sharedSize info r) ps" using RemoteCapacityToPages_Inr by blast
  have cap: "capacity_pages s ps \<le> unat s * MIB" for s by (simp add: capacity_pages_def)
  have "?p + (\<Sum>l<n. capacity_pages (ri_privateSize info l r) ps) \<le> ?S * MIB + (\<Sum>l<n. ?P l * MIB)"
    unfolding p by (intro add_mono sum_mono cap)
  also have "\<dots> = (?S + (\<Sum>l<n. ?P l)) * MIB" by (simp only: sum_distrib_right distrib_right)
  also have "\<dots> \<le> UINT64_MAX div MIB * MIB" by (rule mult_le_mono1 [OF le])
  also have "\<dots> < 2 ^ 64" by simp
  finally have "(tc(r := ?p)) r + (\<Sum>l\<leftarrow>[0..<n]. capacity_pages (ri_privateSize info l r) ps) < 2 ^ 64"
    by (simp only: fun_upd_same sum_list_upt)
  from snapshot_locals_succeeds [where ls = "[0..<n]" and tc = "tc(r := ?p)", OF distinct_upt Cons.prems(1) P this]
  obtain pc1 tc1 where "snapshot_locals info ps r [0..<n] (pc, tc(r := ?p)) = Inr (pc1, tc1)" by fastforce
  then show ?case using Cons unfolding snapshot_remotes.simps res sum.case by simp
qed simp

lemma request_input_ok_context:
  "request_input_ok a (BuildPairRequestContext m pc sc a) \<longleftrightarrow> request_input_ok a (BuildPairRequestContext m (\<lambda>_ _. 0) (\<lambda>_. 0) a)"
  by (simp add: request_input_ok_def BuildPairRequestContext_def)

lemma request_result_succeeds:
  assumes "request_input_ok a (BuildPairRequestContext m pc sc a)" and "unat (pm_nrLocalNuma m) \<le> 8"
  shows "\<exists>x. request_result m pc sc a = Inr x" and "length (requests_of m pc sc a) \<le> 144"
proof -
  let ?n = "unat (pm_nrLocalNuma m)" and ?c = "BuildPairRequestContext m pc sc a"
  have n: "nat (rc_nrLocalNuma ?c) = ?n" by (simp add: BuildPairRequestContext_def)
  have len: "length (requested_pairs a ?n q) \<le> 144" for q
    using length_filter_le [of "\<lambda>(l, r). unat (account a l r) > 0 \<or> q l r > 0" "List.product [0..<?n] [0..<18]"] assms(2)
    by (simp add: requested_pairs_def)
  then have fits: "\<not> length (requested_pairs a ?n q) > LOCAL_NUMA_NUM * REMOTE_NUMA_NUM" for q by (simp add: not_less)
  from BuildPairRequestedTargets_gen [OF assms(1), of "LOCAL_NUMA_NUM * REMOTE_NUMA_NUM"] obtain q s where
    "request_result m pc sc a = Inr (map (pair_target a ?c q) (requested_pairs a ?n q), s)"
    unfolding n if_not_P [OF fits] by blast
  then show "\<exists>x. request_result m pc sc a = Inr x" "length (requests_of m pc sc a) \<le> 144"
    using len by (simp_all add: requests_of_def)
qed

lemma BuildPairArbitrationSnapshotLocked_succeeds:
  assumes nr: "pm_nrLocalNuma m \<noteq> 0" "unat (pm_nrLocalNuma m) \<le> 8"
    and page: "pm_pageSize m \<noteq> 0" "unat (pm_pageSize m) mod KIB = 0"
    and size: "\<forall>r<18. unat (ri_sharedSize (pm_remoteNumaInfo m) r) +
        (\<Sum>l<unat (pm_nrLocalNuma m). unat (ri_privateSize (pm_remoteNumaInfo m) l r)) \<le> UINT64_MAX div MIB"
    and ok: "\<forall>a \<in> set (managed_processes m mo). request_input_ok a (BuildPairRequestContext m (\<lambda>_ _. 0) (\<lambda>_. 0) a)"
    and cap: "144 * length (managed_processes m mo) \<le> cap"
  shows "\<exists>es pc tc. BuildPairArbitrationSnapshotLocked m cap mo = Inr (es, pc, tc)"
proof -
  have ps: "unat (pm_pageSize m) \<noteq> 0" using page(1) by (simp add: unat_eq_0)
  obtain pc sc tc where snap: "BuildPairCapacitySnapshot m = Inr (pc, sc, tc)"
  proof -
    have "\<forall>r \<in> set [0..<18]. unat (ri_sharedSize (pm_remoteNumaInfo m) r) +
        (\<Sum>l<unat (pm_nrLocalNuma m). unat (ri_privateSize (pm_remoteNumaInfo m) l r)) \<le> UINT64_MAX div MIB"
      using size by simp
    from snapshot_remotes_succeeds [OF ps this] obtain pc sc tc where
      "snapshot_remotes (pm_remoteNumaInfo m) (unat (pm_pageSize m)) (unat (pm_nrLocalNuma m)) [0..<18]
         ((\<lambda>_ _. 0), (\<lambda>_. 0), (\<lambda>_. 0)) = Inr (pc, sc, tc)" by blast
    then have "BuildPairCapacitySnapshot m = Inr (pc, sc, tc)" using page(2) ps by (simp add: BuildPairCapacitySnapshot_def Let_def)
    then show ?thesis by (rule that)
  qed
  have ok': "request_input_ok a (BuildPairRequestContext m pc sc a)" if "a \<in> set (managed_processes m mo)" for a
    using ok that request_input_ok_context by blast
  have "length (collected m pc sc mo) = (\<Sum>a\<leftarrow>managed_processes m mo. length (requests_of m pc sc a))"
    by (simp add: collected_def length_concat comp_def)
  also have "\<dots> \<le> (\<Sum>a\<leftarrow>managed_processes m mo. 144)"
    using request_result_succeeds(2) [OF ok' nr(2)] by (intro sum_list_mono) blast
  also have "\<dots> \<le> cap" using cap by (simp add: sum_list_triv)
  finally have "CollectAllPairRequests m pc sc cap mo = Inr (qsort ComparePairArbitrationEntry (collected m pc sc mo))"
    using request_result_succeeds(1) [OF ok' nr(2)] by (auto simp: CollectAllPairRequests_iff)
  then show ?thesis using snap by (auto simp: BuildPairArbitrationSnapshotLocked_def)
qed

lemma BuildAllPairTargets_succeeds:
  assumes "pm_nrLocalNuma m \<noteq> 0" "unat (pm_nrLocalNuma m) \<le> 8" and "cap \<le> MAX_PAIR_TARGET_COUNT"
    and "\<exists>es pc tc. BuildPairArbitrationSnapshotLocked m cap False = Inr (es, pc, tc)"
  shows "\<exists>ts m'. BuildAllPairTargets False m cap = (Inr ts, m')"
  using assms by (auto simp: BuildAllPairTargets_def Let_def not_less split: prod.split)

text \<open>A machine with one local node, 2 MiB of shared capacity on its first remote node and two processes that
  each want half of their 1000 pages there.\<close>

definition demo_attr :: "int \<Rightarrow> ProcessAttr" where
  "demo_attr pid = ProcessAttr_zero\<lparr>pa_pid := pid, pa_scanType := NORMAL_SCAN,
     pa_targetConfig := \<lparr>tc_migrateMode = MIG_RATIO_MODE, tc_count = 1,
       tc_targets = (\<lambda>_. \<lparr>rt_remoteNid = 1, rt_ratio = 50, rt_memSizeKB = 0\<rparr>)\<rparr>,
     pa_managedLocalState := ManagedLocalState_zero\<lparr>ml_managedLocalMask := 1\<rparr>,
     pa_walkPage := \<lparr>wp_nrPage = 1000, wp_nrPages = (\<lambda>n. if n = 0 then 990 else if n = 1 then 10 else 0)\<rparr>,
     pa_strategyAttr := \<lparr>sa_initRemoteMemRatio = (\<lambda>_ _. 0), sa_memSize = (\<lambda>_ _. 0), sa_l2RemoteMemRatio = (\<lambda>_ _. 0),
        sa_l3RemoteMemRatio = (\<lambda>_ _. 0), sa_allocRemoteNrPages = (\<lambda>_ _. 0), sa_nrMigratePages = (\<lambda>_ _. 0),
        sa_remoteNrPagesAfterMigrate = (\<lambda>l r. if l = 0 \<and> r = 0 then 10 else 0),
        sa_ubBwRestrict = (\<lambda>_. UB_BW_NORMAL)\<rparr>\<rparr>"

definition demo_manager :: ProcessManager where
  "demo_manager = \<lparr>pm_attrs = [demo_attr 7, demo_attr 3], pm_nrLocalNuma = 1, pm_pageSize = 4096, pm_migPeriod = 0,
     pm_remoteNumaInfo = \<lparr>ri_privateSize = (\<lambda>_ _. 0), ri_sharedSize = (\<lambda>r. if r = 0 then 2 else 0),
       ri_usedInfo = (\<lambda>_. \<lparr>ru_size = 0, ru_used = 0, ru_ifUsedFreshed = False\<rparr>),
       ri_privateUsedInfo = (\<lambda>_ _. \<lparr>ru_size = 0, ru_used = 0, ru_ifUsedFreshed = False\<rparr>)\<rparr>\<rparr>"

lemma demo_manager_simps [simp]:
  "pm_nrLocalNuma demo_manager = 1" "pm_pageSize demo_manager = 4096" "pm_attrs demo_manager = [demo_attr 7, demo_attr 3]"
  "ri_privateSize (pm_remoteNumaInfo demo_manager) l r = 0"
  "ri_sharedSize (pm_remoteNumaInfo demo_manager) r = (if r = 0 then 2 else 0)"
  by (simp_all add: demo_manager_def)

lemma demo_attr_simps [simp]:
  "skip_process False (demo_attr pid) = False" "pa_pid (demo_attr pid) = pid" "pa_ignoreRemoteCapacity (demo_attr pid) = False"
  "unat (account (demo_attr pid) l r) = (if l = 0 \<and> r = 0 then 10 else 0)"
  by (simp_all add: demo_attr_def skip_process_def ProcessAttr_zero_def)

lemma demo_request_ok:
  "request_input_ok (demo_attr pid) (BuildPairRequestContext demo_manager (\<lambda>_ _. 0) (\<lambda>_. 0) (demo_attr pid))"
  by (simp add: request_input_ok_def BuildPairRequestContext_def demo_attr_def ProcessAttr_zero_def config_targets_def
      config_distinct_def target_ok_def)

lemma demo_targets: "\<exists>ts m'. BuildAllPairTargets False demo_manager 43200 = (Inr ts, m')"
proof (rule BuildAllPairTargets_succeeds)
  show "\<exists>es pc tc. BuildPairArbitrationSnapshotLocked demo_manager 43200 False = Inr (es, pc, tc)"
    by (rule BuildPairArbitrationSnapshotLocked_succeeds) (simp_all add: demo_request_ok)
qed simp_all

text \<open>The pids that arbitration exempts from the configured capacity.\<close>

definition exempt :: "ProcessManager \<Rightarrow> int set" where
  "exempt m = pa_pid ` {a \<in> set (pm_attrs m). pa_ignoreRemoteCapacity a}"

lemma publish_target: "unat (pt_targetPages (ae_target (publish_entry e))) = unat (ae_privatePages e + ae_sharedPages e)"
  "pt_remoteNid (ae_target (publish_entry e)) = pt_remoteNid (ae_target e)" "pt_pid (ae_target (publish_entry e)) = pt_pid (ae_target e)"
  "pt_requestedPages (ae_target (publish_entry e)) = pt_requestedPages (ae_target e)"
  by (simp_all add: publish_entry_def)

text \<open>C4. The capacity of the remote nodes is respected: no pair gets more pages than it requested, and on every remote
  node the targets of the processes that are subject to the capacity add up to at most its shared capacity and its private
  capacities, converted from MiB to pages. A process that asked to ignore the capacity does not consume any: its pairs get
  exactly the pages they requested.\<close>

theorem BuildAllPairTargets_capacity:
  assumes "BuildAllPairTargets f m cap = (Inr ts, m')"
  shows "(\<forall>t \<in> set ts. unat (pt_targetPages t) \<le> unat (pt_requestedPages t)) \<and>
    (distinct (map pa_pid (pm_attrs m)) \<longrightarrow> (\<forall>t \<in> set ts. pt_pid t \<in> exempt m \<longrightarrow> pt_targetPages t = pt_requestedPages t)) \<and>
    (\<forall>r<18. (\<Sum>t\<leftarrow>ts. if pt_remoteNid t = int (unat (pm_nrLocalNuma m) + r) \<and> pt_pid t \<notin> exempt m then unat (pt_targetPages t) else 0) \<le>
      capacity_pages (ri_sharedSize (pm_remoteNumaInfo m) r) (unat (pm_pageSize m)) +
      (\<Sum>l<unat (pm_nrLocalNuma m). capacity_pages (ri_privateSize (pm_remoteNumaInfo m) l r) (unat (pm_pageSize m))))"
proof -
  obtain es' pc tc where s: "BuildPairArbitrationSnapshotLocked m cap False = Inr (es', pc, tc)" "cap \<le> 43200"
    and ts: "ts = map (ae_target \<circ> publish_entry) es'" by (rule BuildAllPairTargets_cases [OF assms])
  note e = BuildAllPairTargets_entries [OF s]
  have c: "cap < 2 ^ 32" using s(2) by simp
  obtain sc es where snap: "BuildPairCapacitySnapshot m = Inr (pc, sc, tc)" and arb: "arbitrated (unat (pm_nrLocalNuma m)) pc sc es es'"
    by (rule BuildPairArbitrationSnapshotLocked_gen [OF s(1) c])
  have within: "unat (ae_privatePages x + ae_sharedPages x) \<le> unat (pt_requestedPages (ae_target x))" if "x \<in> set es'" for x
    using e(3) [OF that] unat_grants [of x] by (auto simp: entry_ok_def split: if_splits)
  have "(\<Sum>t\<leftarrow>ts. if pt_remoteNid t = int (unat (pm_nrLocalNuma m) + r) \<and> pt_pid t \<notin> exempt m then unat (pt_targetPages t) else 0) \<le>
      sc r + (\<Sum>l<unat (pm_nrLocalNuma m). pc l r)" if r: "r < 18" for r
  proof -
    let ?R = "int (unat (pm_nrLocalNuma m) + r)"
    have pool: "in_pool (-1) ?R x" if "x \<in> set es'" "pt_remoteNid (ae_target x) = ?R" "pt_pid (ae_target x) \<notin> exempt m" for x
      using e(1) [OF that(1)] that(2,3) by (auto simp: in_pool_def PairMatchesCapacityPool_def exempt_def)
    have "(\<Sum>t\<leftarrow>ts. if pt_remoteNid t = ?R \<and> pt_pid t \<notin> exempt m then unat (pt_targetPages t) else 0) \<le>
        (\<Sum>x\<leftarrow>es'. if in_pool (-1) ?R x then unat (ae_privatePages x + ae_sharedPages x) else 0)"
      unfolding ts map_map comp_def publish_target using pool by (intro sum_list_mono) auto
    also have "\<dots> \<le> sc r + (\<Sum>l<unat (pm_nrLocalNuma m). pc l r)" using arbitrated_remote [OF arb r] e(2) by blast
    finally show ?thesis .
  qed
  moreover have "\<forall>t \<in> set ts. unat (pt_targetPages t) \<le> unat (pt_requestedPages t)"
    using within by (auto simp: ts publish_target)
  moreover have "pt_targetPages t = pt_requestedPages t"
    if dist: "distinct (map pa_pid (pm_attrs m))" and t: "t \<in> set ts" "pt_pid t \<in> exempt m" for t
  proof -
    obtain x where x: "x \<in> set es'" "t = ae_target (publish_entry x)" using t(1) by (auto simp: ts)
    have "pa_ignoreRemoteCapacity (ae_process x)"
      using e(1) [OF x(1)] t(2) dist by (auto simp: x(2) publish_entry_def exempt_def dest: inj_onD simp: distinct_map)
    then show ?thesis using e(3) [OF x(1)] by (simp add: x(2) publish_entry_def entry_ok_def)
  qed
  ultimately show ?thesis using BuildPairCapacitySnapshot_gen(1,2) [OF snap] by simp
qed

theorem BuildAllPairTargets_capacity_witness:
  "\<exists>ts m'. BuildAllPairTargets False demo_manager 43200 = (Inr ts, m') \<and>
    (\<Sum>t\<leftarrow>ts. if pt_remoteNid t = 1 then unat (pt_targetPages t) else 0) \<le> 512"
proof -
  obtain ts m' where r: "BuildAllPairTargets False demo_manager 43200 = (Inr ts, m')" using demo_targets by blast
  have "exempt demo_manager = {}" by (auto simp: exempt_def)
  with BuildAllPairTargets_capacity [OF r] have "(\<Sum>t\<leftarrow>ts. if pt_remoteNid t = 1 then unat (pt_targetPages t) else 0) \<le> 512"
    by (auto simp: capacity_pages_def dest: spec [of _ 0])
  with r show ?thesis by blast
qed



text \<open>C6. The result does not depend on the order in which the processes are listed: any order of the same processes
  (with different pids) gives the same targets in the same order, and the same published usage.\<close>

theorem BuildAllPairTargets_order:
  assumes "mset attrs = mset (pm_attrs m)" and "distinct (map pa_pid (pm_attrs m))"
    and "BuildAllPairTargets f m cap = (Inr ts, m')"
  shows "BuildAllPairTargets f (m\<lparr>pm_attrs := attrs\<rparr>) cap = (Inr ts, m'\<lparr>pm_attrs := attrs\<rparr>)"
proof -
  let ?m = "m\<lparr>pm_attrs := attrs\<rparr>"
  obtain es' pc tc where s: "BuildPairArbitrationSnapshotLocked m cap False = Inr (es', pc, tc)"
    and ts: "ts = map (ae_target \<circ> publish_entry) es'" and m': "m' = fst (PublishPairCapacityResult m es' pc tc)"
    by (rule BuildAllPairTargets_cases [OF assms(3)])
  have snap: "BuildPairCapacitySnapshot ?m = BuildPairCapacitySnapshot m" unfolding BuildPairCapacitySnapshot_def by (simp cong: if_cong)
  have "BuildPairArbitrationSnapshotLocked ?m cap False = Inr (es', pc, tc)"
    using s CollectAllPairRequests_order [OF assms(1,2)]
    by (auto simp: BuildPairArbitrationSnapshotLocked_def snap split: sum.splits)
  moreover have "PublishPairCapacityResult ?m es' pc tc = (m'\<lparr>pm_attrs := attrs\<rparr>, map publish_entry es')"
    unfolding m' by (simp add: PublishPairCapacityResult_def Let_def split: prod.splits)
  ultimately show ?thesis using assms(3) by (simp add: BuildAllPairTargets_def ts split: if_splits)
qed

theorem BuildAllPairTargets_order_witness:
  "\<exists>ts m'. BuildAllPairTargets False (demo_manager\<lparr>pm_attrs := [demo_attr 3, demo_attr 7]\<rparr>) 43200 =
    (Inr ts, m'\<lparr>pm_attrs := [demo_attr 3, demo_attr 7]\<rparr>) \<and> BuildAllPairTargets False demo_manager 43200 = (Inr ts, m')"
proof -
  obtain ts m' where r: "BuildAllPairTargets False demo_manager 43200 = (Inr ts, m')" using demo_targets by blast
  have "mset [demo_attr 3, demo_attr 7] = mset (pm_attrs demo_manager)" "distinct (map pa_pid (pm_attrs demo_manager))" by simp_all
  from BuildAllPairTargets_order [OF this r] r show ?thesis by blast
qed


text \<open>C5. Arbitration is safe and wastes nothing: starting from requests without grants, no entry is changed but for its
  grants, every grant is within its request (and equal to it for a process that ignores the capacity), the private grants of a
  pair and the shared grants of a remote node are within their capacities, and a capacity is left over only where every request
  for it is met.\<close>

theorem ArbitrateAllPairCapacity_served:
  assumes "\<forall>e \<in> set es. ae_privatePages e = 0 \<and> ae_sharedPages e = 0" and "length es < 2 ^ 32"
    and "\<forall>l r. pc l r < 2 ^ 64" and "\<forall>r. sc r < 2 ^ 64"
  shows "list_all2 same_entry es (ArbitrateAllPairCapacity es n pc sc) \<and>
    (\<forall>e \<in> set (ArbitrateAllPairCapacity es n pc sc). entry_ok e) \<and>
    (\<forall>l<n. \<forall>r<18. pool_served PAIR_PRIVATE_BASELINE (int l) (int (n + r)) (pc l r) (ArbitrateAllPairCapacity es n pc sc)) \<and>
    (\<forall>r<18. pool_served PAIR_SHARED_BASELINE (-1) (int (n + r)) (sc r) (ArbitrateAllPairCapacity es n pc sc))"
  unfolding arbitrated_def [symmetric]
  by (rule ArbitrateAllPairCapacity_gen [OF assms(1,2) assms(3) [rule_format] assms(4) [rule_format]])

theorem ArbitrateAllPairCapacity_served_witness:
  "let es = map (make_entry demo_manager (demo_attr 7)) [\<lparr>pt_pid = 7, pt_localNid = 0, pt_remoteNid = 1, pt_requestedPages = 500, pt_targetPages = 0\<rparr>]
   in pool_pages PAIR_SHARED_BASELINE (-1) 1 (ArbitrateAllPairCapacity es 1 (\<lambda>_ _. 0) (\<lambda>_. 300)) \<le> 300"
proof -
  let ?es = "map (make_entry demo_manager (demo_attr 7)) [\<lparr>pt_pid = 7, pt_localNid = 0, pt_remoteNid = 1, pt_requestedPages = 500, pt_targetPages = 0\<rparr>]"
  have "\<forall>e \<in> set ?es. ae_privatePages e = 0 \<and> ae_sharedPages e = 0" by (simp add: make_entry_def)
  from ArbitrateAllPairCapacity_served [OF this, of "\<lambda>_ _. 0" "\<lambda>_. 300" 1]
  have "\<forall>r<18. pool_served PAIR_SHARED_BASELINE (-1) (int (1 + r)) 300 (ArbitrateAllPairCapacity ?es 1 (\<lambda>_ _. 0) (\<lambda>_. 300))"
    by simp
  from this [rule_format, of 0] show ?thesis by (simp only: pool_served_def Let_def) simp
qed

end
