(* ===== verification/Pair_Plan.thy ===== *)
theory Pair_Plan
  imports Pair_Capacity
begin

text \<open>
  Migration plans of the pairs, \<^verbatim>\<open>plugins/smap/src/user/strategy/migration.c\<close> lines 89 to 430: the
  difference between target and actual pages of every pair becomes a number of pages to demote or to
  promote, limited by the budget of the process and by the safe free pages of the local node.

  The counts of free pages that \<^verbatim>\<open>GetNrFreePagesByNode\<close> and \<^verbatim>\<open>GetNrFreeHugePagesByNode\<close> read from the
  kernel are arguments, a failing \<^verbatim>\<open>malloc\<close> is a Boolean argument. The staged copies of plans, budgets
  and context are the values the function works on, and only a successful call returns them.
\<close>

abbreviation (input) MAX_4K_PROCESSES_CNT :: nat where "MAX_4K_PROCESSES_CNT \<equiv> 300"

section \<open>Operations\<close>

definition CollectNodeFreeSnapshot :: "(nat \<Rightarrow> u64) \<Rightarrow> (nat \<Rightarrow> u64) \<Rightarrow> bool \<Rightarrow> int \<Rightarrow> errno + PairPlanContext" where
  "CollectNodeFreeSnapshot nrFreePages nrFreeHugePages hugePage nrLocalNuma =
     (if nrLocalNuma \<le> 0 \<or> nrLocalNuma > int LOCAL_NUMA_NUM \<or> nrLocalNuma + int REMOTE_NUMA_NUM > int MAX_NODES then Inl EINVAL
      else Inr \<lparr>pc_nrLocalNuma = nrLocalNuma,
        pc_freePages = (\<lambda>nid. if nid < nat nrLocalNuma then if hugePage then nrFreeHugePages nid else nrFreePages nid else 0),
        pc_safetyReservePages = (\<lambda>_. 0), pc_plannedPages = (\<lambda>_. 0)\<rparr>)"

definition ComparePairPlan :: "PairPlan \<Rightarrow> PairPlan \<Rightarrow> int" where
  "ComparePairPlan lhs rhs =
     (if pl_pid lhs \<noteq> pl_pid rhs then if pl_pid lhs < pl_pid rhs then -1 else 1
      else if pl_localNid lhs \<noteq> pl_localNid rhs then if pl_localNid lhs < pl_localNid rhs then -1 else 1
      else if pl_remoteNid lhs \<noteq> pl_remoteNid rhs then if pl_remoteNid lhs < pl_remoteNid rhs then -1 else 1
      else 0)"

fun find_budget :: "int \<Rightarrow> PairPidBudget list \<Rightarrow> nat \<Rightarrow> nat option \<Rightarrow> errno + nat" where
  "find_budget pid [] i found = (case found of None \<Rightarrow> Inl ENOENT | Some k \<Rightarrow> Inr k)"
| "find_budget pid (b # bs) i found =
     (if pb_pid b \<noteq> pid then find_budget pid bs (Suc i) found
      else if found \<noteq> None then Inl EINVAL
      else find_budget pid bs (Suc i) (Some i))"

definition FindPairPidBudget :: "PairPidBudget list \<Rightarrow> int \<Rightarrow> errno + nat" where
  "FindPairPidBudget pidBudgets pid = find_budget pid pidBudgets 0 None"

definition IsPairPlanDirectionValid :: "PairPlan \<Rightarrow> bool" where
  "IsPairPlanDirectionValid plan \<longleftrightarrow>
     (if pl_demotePages plan > 0 \<and> pl_promotePages plan > 0 then False
      else if pl_targetPages plan > pl_actualPages plan then
        pl_promotePages plan = 0 \<and> pl_demotePages plan \<le> pl_targetPages plan - pl_actualPages plan
      else if pl_actualPages plan > pl_targetPages plan then
        pl_demotePages plan = 0 \<and> pl_promotePages plan \<le> pl_actualPages plan - pl_targetPages plan
      else pl_demotePages plan = 0 \<and> pl_promotePages plan = 0)"

definition budgets_valid :: "PairPidBudget list \<Rightarrow> bool" where
  "budgets_valid pidBudgets \<longleftrightarrow>
     list_all (\<lambda>i. \<not> pb_plannedPages (pidBudgets ! i) > pb_maxMigratePages (pidBudgets ! i) \<and>
       list_all (\<lambda>j. pb_pid (pidBudgets ! i) \<noteq> pb_pid (pidBudgets ! j)) [Suc i..<length pidBudgets]) [0..<length pidBudgets]"

definition plan_valid :: "int \<Rightarrow> PairPlan \<Rightarrow> bool" where
  "plan_valid nrLocalNuma plan \<longleftrightarrow>
     \<not> (pl_localNid plan < 0 \<or> pl_localNid plan \<ge> nrLocalNuma \<or> pl_remoteIndex plan < 0 \<or>
        pl_remoteIndex plan \<ge> int REMOTE_NUMA_NUM \<or> pl_remoteNid plan \<noteq> nrLocalNuma + pl_remoteIndex plan \<or>
        pl_remoteNid plan \<ge> int MAX_NODES)"

text \<open>The pages of a local node that may still be promoted to it.\<close>

definition safe_free :: "PairPlanContext \<Rightarrow> nat \<Rightarrow> nat" where
  "safe_free context destination =
     (let freePages = unat (pc_freePages context destination);
          reservePages = unat (pc_safetyReservePages context destination);
          plannedPages = unat (pc_plannedPages context destination)
      in if freePages \<le> reservePages \<or> sub64 freePages reservePages \<le> plannedPages then 0
         else sub64 (sub64 freePages reservePages) plannedPages)"

definition plan_one :: "PairPlanContext \<Rightarrow> PairPidBudget \<Rightarrow> PairPlan \<Rightarrow> PairPlan \<times> PairPlanContext \<times> nat" where
  "plan_one context budget plan =
     (let plan = plan\<lparr>pl_demotePages := 0, pl_promotePages := 0, pl_swapPages := 0\<rparr>;
          demote = (pl_actualPages plan < pl_targetPages plan);
          requestedPages = (if demote then unat (pl_targetPages plan - pl_actualPages plan)
            else unat (pl_actualPages plan - pl_targetPages plan));
          pidRemaining = sub64 (unat (pb_maxMigratePages budget)) (unat (pb_plannedPages budget));
          migratePages = min requestedPages pidRemaining;
          destination = nat (pl_localNid plan)
      in if pl_actualPages plan = pl_targetPages plan then (plan, context, 0)
         else if demote then (plan\<lparr>pl_demotePages := of_nat migratePages\<rparr>, context, migratePages)
         else
           let migratePages = min migratePages (safe_free context destination)
           in (plan\<lparr>pl_promotePages := of_nat migratePages\<rparr>,
               context\<lparr>pc_plannedPages := (pc_plannedPages context)(destination :=
                 pc_plannedPages context destination + of_nat migratePages)\<rparr>, migratePages))"

fun plan_pairs ::
  "PairPlan option \<Rightarrow> PairPlan list \<Rightarrow> PairPlanContext \<Rightarrow> PairPidBudget list \<Rightarrow>
   errno + PairPlan list \<times> PairPlanContext \<times> PairPidBudget list" where
  "plan_pairs previous [] context pidBudgets = Inr ([], context, pidBudgets)"
| "plan_pairs previous (plan # rest) context pidBudgets =
     (if \<not> plan_valid (pc_nrLocalNuma context) plan \<or>
         (case previous of None \<Rightarrow> False | Some p \<Rightarrow> ComparePairPlan p plan = 0)
      then Inl EINVAL
      else
        case FindPairPidBudget pidBudgets (pl_pid plan) of
          Inl e \<Rightarrow> Inl e
        | Inr k \<Rightarrow>
            let budget = pidBudgets ! k;
                (plan, context, migratePages) = plan_one context budget plan;
                pidBudgets = pidBudgets[k := budget\<lparr>pb_plannedPages := pb_plannedPages budget + of_nat migratePages\<rparr>]
            in case plan_pairs (Some plan) rest context pidBudgets of
                 Inl e \<Rightarrow> Inl e
               | Inr (plans, context, pidBudgets) \<Rightarrow> Inr (plan # plans, context, pidBudgets))"

text \<open>
  A pair whose actual pages are its target \<^verbatim>\<open>continue\<close>s before the budget is touched: it migrates no
  pages, and adding 0 to its budget leaves the budget as it is.
\<close>

definition BuildPairPlans ::
  "bool \<Rightarrow> PairPlan list \<Rightarrow> PairPlanContext \<Rightarrow> PairPidBudget list \<Rightarrow> nat \<Rightarrow>
   errno + PairPlan list \<times> PairPlanContext \<times> PairPidBudget list" where
  "BuildPairPlans mallocFails inputs context pidBudgets planCap =
     (if length inputs > planCap \<or> length inputs > MAX_PAIR_TARGET_COUNT \<or> length pidBudgets > MAX_4K_PROCESSES_CNT \<or>
         pc_nrLocalNuma context \<le> 0 \<or> pc_nrLocalNuma context > int LOCAL_NUMA_NUM \<or>
         pc_nrLocalNuma context + int REMOTE_NUMA_NUM > int MAX_NODES \<or> (length inputs > 0 \<and> length pidBudgets = 0)
      then Inl EINVAL
      else if length inputs = 0 then Inr ([], context, pidBudgets)
      else if mallocFails then Inl ENOMEM
      else if \<not> budgets_valid pidBudgets then Inl EINVAL
      else plan_pairs None (qsort ComparePairPlan inputs) context pidBudgets)"

section \<open>The order of the plans\<close>

definition plan_key :: "PairPlan \<Rightarrow> int \<times> int \<times> int" where
  "plan_key p = (pl_pid p, pl_localNid p, pl_remoteNid p)"

interpretation plan_order: key_comparison ComparePairPlan plan_key
  by unfold_locales (auto simp: ComparePairPlan_def plan_key_def)

lemma ComparePairPlan_0: "ComparePairPlan p p' = 0 \<longleftrightarrow> plan_key p = plan_key p'"
  by (auto simp: ComparePairPlan_def plan_key_def)

section \<open>Budgets\<close>

text \<open>What the check of the budgets accepts: one budget per pid, none exceeded.\<close>

definition budgets_ok :: "PairPidBudget list \<Rightarrow> bool" where
  "budgets_ok bs \<longleftrightarrow> distinct (map pb_pid bs) \<and> (\<forall>b \<in> set bs. pb_plannedPages b \<le> pb_maxMigratePages b)"

lemma budgets_valid_iff: "budgets_valid bs \<longleftrightarrow> budgets_ok bs"
proof -
  have "distinct (map pb_pid bs) \<longleftrightarrow> (\<forall>i<length bs. \<forall>j. i < j \<and> j < length bs \<longrightarrow> pb_pid (bs ! i) \<noteq> pb_pid (bs ! j))"
    unfolding distinct_conv_nth by (auto simp: not_less) (metis linorder_neqE_nat)
  then show ?thesis
    unfolding budgets_valid_def budgets_ok_def list_all_iff all_set_conv_all_nth [of bs] set_upt
    by (auto simp: not_less Suc_le_eq)
qed

lemma find_budget_absent: "pid \<notin> pb_pid ` set bs \<Longrightarrow> find_budget pid bs i found = (case found of None \<Rightarrow> Inl ENOENT | Some k \<Rightarrow> Inr k)"
  by (induction bs arbitrary: i) auto

lemma find_budget_eq:
  assumes "distinct (map pb_pid bs)" and "k < length bs" and "pb_pid (bs ! k) = pid"
  shows "find_budget pid bs i None = Inr (i + k)"
  using assms
proof (induction bs arbitrary: i k)
  case (Cons b bs)
  show ?case
  proof (cases k)
    case 0
    then have "pid \<notin> pb_pid ` set bs" using Cons.prems by auto
    then show ?thesis using 0 Cons.prems find_budget_absent by simp
  next
    case (Suc j)
    then have "bs ! j \<in> set bs" using Cons.prems(2) by simp
    then have "pb_pid b \<noteq> pid" using Cons.prems Suc by auto
    then show ?thesis using Suc Cons by simp
  qed
qed simp

lemma FindPairPidBudget_eq:
  assumes "distinct (map pb_pid bs)"
  shows "FindPairPidBudget bs pid = Inr k \<longleftrightarrow> k < length bs \<and> pb_pid (bs ! k) = pid"
    and "FindPairPidBudget bs pid = Inl e \<longleftrightarrow> e = ENOENT \<and> pid \<notin> pb_pid ` set bs"
proof -
  have found: "FindPairPidBudget bs pid = Inr j" if "j < length bs" "pb_pid (bs ! j) = pid" for j
    using find_budget_eq [OF assms that, of 0] by (simp add: FindPairPidBudget_def)
  have "(FindPairPidBudget bs pid = Inr k \<longleftrightarrow> k < length bs \<and> pb_pid (bs ! k) = pid) \<and>
      (FindPairPidBudget bs pid = Inl e \<longleftrightarrow> e = ENOENT \<and> pid \<notin> pb_pid ` set bs)"
  proof (cases "pid \<in> pb_pid ` set bs")
    case True
    then obtain j where j: "j < length bs" "pb_pid (bs ! j) = pid" by (metis imageE in_set_conv_nth)
    show ?thesis using found [OF j] found [of k] True j by auto
  next
    case False
    then have "pb_pid (bs ! k) \<noteq> pid" if "k < length bs" using that by auto
    with False show ?thesis using find_budget_absent [OF False, of 0 None] by (auto simp: FindPairPidBudget_def)
  qed
  then show "FindPairPidBudget bs pid = Inr k \<longleftrightarrow> k < length bs \<and> pb_pid (bs ! k) = pid"
    "FindPairPidBudget bs pid = Inl e \<longleftrightarrow> e = ENOENT \<and> pid \<notin> pb_pid ` set bs" by blast+
qed

section \<open>One pair\<close>

definition gap :: "PairPlan \<Rightarrow> nat" where
  "gap p = (if pl_actualPages p < pl_targetPages p then unat (pl_targetPages p) - unat (pl_actualPages p)
     else unat (pl_actualPages p) - unat (pl_targetPages p))"

definition planned :: "PairPlan \<Rightarrow> nat" where
  "planned p = unat (pl_demotePages p) + unat (pl_promotePages p)"

definition destination :: "PairPlan \<Rightarrow> nat" where
  "destination p = nat (pl_localNid p)"

text \<open>The plan of a pair differs from its input in the page counts only, and goes towards the target.\<close>

definition plan_of :: "PairPlan \<Rightarrow> PairPlan \<Rightarrow> bool" where
  "plan_of p p' \<longleftrightarrow> p' = p\<lparr>pl_demotePages := pl_demotePages p', pl_promotePages := pl_promotePages p', pl_swapPages := 0\<rparr> \<and>
     IsPairPlanDirectionValid p'"

lemma safe_free_eq:
  "safe_free c d = unat (pc_freePages c d) - unat (pc_safetyReservePages c d) - unat (pc_plannedPages c d)"
proof -
  have "sub64 (unat (pc_freePages c d)) (unat (pc_safetyReservePages c d)) = unat (pc_freePages c d) - unat (pc_safetyReservePages c d)"
    if "\<not> unat (pc_freePages c d) \<le> unat (pc_safetyReservePages c d)" using that by (intro sub64_eq) auto
  moreover have "sub64 (unat (pc_freePages c d) - unat (pc_safetyReservePages c d)) (unat (pc_plannedPages c d)) =
      unat (pc_freePages c d) - unat (pc_safetyReservePages c d) - unat (pc_plannedPages c d)"
    if "\<not> unat (pc_freePages c d) - unat (pc_safetyReservePages c d) \<le> unat (pc_plannedPages c d)"
    using that by (intro sub64_eq) (auto intro: le_less_trans [OF diff_le_self])
  ultimately show ?thesis unfolding safe_free_def Let_def
    by (cases "unat (pc_freePages c d) \<le> unat (pc_safetyReservePages c d)") auto
qed

lemma unat_word_diff: "a \<le> b \<Longrightarrow> unat (b - a :: 'a :: len word) = unat b - unat a"
  by (simp add: unat_sub)

lemma plan_one_gen:
  assumes res: "plan_one c b p = (p', c', x)" and ok: "pb_plannedPages b \<le> pb_maxMigratePages b"
  shows "plan_of p p'" and "planned p' = x"
    and "x \<le> unat (pb_maxMigratePages b) - unat (pb_plannedPages b)"
    and "unat (pl_promotePages p') \<le> safe_free c (destination p)"
    and "c' = c\<lparr>pc_plannedPages := (pc_plannedPages c)(destination p := pc_plannedPages c (destination p) + of_nat (unat (pl_promotePages p')))\<rparr>"
    and "x = gap p \<or> x = unat (pb_maxMigratePages b) - unat (pb_plannedPages b) \<or>
      pl_actualPages p > pl_targetPages p \<and> x = safe_free c (destination p)"
proof -
  let ?rem = "unat (pb_maxMigratePages b) - unat (pb_plannedPages b)"
  have rem: "sub64 (unat (pb_maxMigratePages b)) (unat (pb_plannedPages b)) = ?rem"
    using ok by (intro sub64_eq) (auto simp: word_le_nat_alt)
  have "unat v - unat w \<le> UINT32_MAX" for v w :: u32 by (rule le_trans [OF diff_le_self unat_u32_le])
  then have g: "gap p \<le> UINT32_MAX" unfolding gap_def by presburger
  have u: "unat (of_nat y :: u32) = y" if "y \<le> gap p" for y using that g by (intro unat_of_nat_u32) linarith
  consider "pl_actualPages p = pl_targetPages p" | "pl_actualPages p < pl_targetPages p" | "pl_actualPages p > pl_targetPages p"
    by (rule linorder_cases)
  then have "plan_of p p' \<and> planned p' = x \<and> x \<le> ?rem \<and> unat (pl_promotePages p') \<le> safe_free c (destination p) \<and>
    c' = c\<lparr>pc_plannedPages := (pc_plannedPages c)(destination p := pc_plannedPages c (destination p) + of_nat (unat (pl_promotePages p')))\<rparr> \<and>
    (x = gap p \<or> x = ?rem \<or> pl_actualPages p > pl_targetPages p \<and> x = safe_free c (destination p))"
  proof cases
    case 1
    with res show ?thesis by (auto simp: plan_one_def plan_of_def planned_def gap_def IsPairPlanDirectionValid_def)
  next
    case 2
    then have gap: "unat (pl_targetPages p - pl_actualPages p) = gap p" by (simp add: gap_def unat_word_diff)
    have "plan_one c b p = (p\<lparr>pl_demotePages := of_nat (min (gap p) ?rem), pl_promotePages := 0, pl_swapPages := 0\<rparr>, c, min (gap p) ?rem)"
      unfolding plan_one_def Let_def using 2 by (simp add: gap rem less_imp_neq)
    then have x: "x = min (gap p) ?rem" and p': "p' = p\<lparr>pl_demotePages := of_nat x, pl_promotePages := 0, pl_swapPages := 0\<rparr>" and "c' = c"
      using res by auto
    moreover have "(of_nat x :: u32) \<le> pl_targetPages p - pl_actualPages p" using x u [of x] gap by (simp add: word_le_nat_alt)
    ultimately show ?thesis using 2 u [of x] by (auto simp: plan_of_def planned_def IsPairPlanDirectionValid_def)
  next
    case 3
    then have gap: "unat (pl_actualPages p - pl_targetPages p) = gap p" by (simp add: gap_def unat_word_diff)
    let ?x = "min (min (gap p) ?rem) (safe_free c (destination p))"
    have "plan_one c b p = (p\<lparr>pl_demotePages := 0, pl_promotePages := of_nat ?x, pl_swapPages := 0\<rparr>,
        c\<lparr>pc_plannedPages := (pc_plannedPages c)(destination p := pc_plannedPages c (destination p) + of_nat ?x)\<rparr>, ?x)"
      unfolding plan_one_def Let_def destination_def using 3 by (simp add: gap rem not_less less_imp_le less_imp_neq [THEN not_sym])
    then have x: "x = ?x"
      and p': "p' = p\<lparr>pl_demotePages := 0, pl_promotePages := of_nat x, pl_swapPages := 0\<rparr>"
      and c': "c' = c\<lparr>pc_plannedPages := (pc_plannedPages c)(destination p := pc_plannedPages c (destination p) + of_nat x)\<rparr>"
      using res by auto
    have xg: "x \<le> gap p" using x by simp
    have "(of_nat x :: u32) \<le> pl_actualPages p - pl_targetPages p" using u [OF xg] xg gap by (simp add: word_le_nat_alt)
    then have "plan_of p p'" using 3 by (auto simp: plan_of_def p' IsPairPlanDirectionValid_def)
    moreover have "unat (pl_promotePages p') = x" "planned p' = x" using u [OF xg] by (simp_all add: p' planned_def)
    ultimately show ?thesis using 3 x c' by (auto simp: min_def)
  qed
  then show "plan_of p p'" "planned p' = x" "x \<le> ?rem" "unat (pl_promotePages p') \<le> safe_free c (destination p)"
    "c' = c\<lparr>pc_plannedPages := (pc_plannedPages c)(destination p := pc_plannedPages c (destination p) + of_nat (unat (pl_promotePages p')))\<rparr>"
    "x = gap p \<or> x = ?rem \<or> pl_actualPages p > pl_targetPages p \<and> x = safe_free c (destination p)" by blast+
qed


section \<open>All pairs\<close>

definition charged :: "int \<Rightarrow> PairPlan list \<Rightarrow> nat" where
  "charged pid ps = (\<Sum>p\<leftarrow>ps. if pl_pid p = pid then planned p else 0)"

definition promoted :: "nat \<Rightarrow> PairPlan list \<Rightarrow> nat" where
  "promoted l ps = (\<Sum>p\<leftarrow>ps. if destination p = l then unat (pl_promotePages p) else 0)"

text \<open>The budgets after the pages of \<open>ps\<close> have been charged to them.\<close>

definition budgets_charged :: "PairPidBudget list \<Rightarrow> PairPlan list \<Rightarrow> PairPidBudget list \<Rightarrow> bool" where
  "budgets_charged bs ps bs' \<longleftrightarrow> list_all2 (\<lambda>b b'. pb_pid b' = pb_pid b \<and> pb_maxMigratePages b' = pb_maxMigratePages b \<and>
     unat (pb_plannedPages b') = unat (pb_plannedPages b) + charged (pb_pid b) ps \<and>
     unat (pb_plannedPages b') \<le> unat (pb_maxMigratePages b')) bs bs'"

definition context_charged :: "PairPlanContext \<Rightarrow> PairPlan list \<Rightarrow> PairPlanContext \<Rightarrow> bool" where
  "context_charged c ps c' \<longleftrightarrow> pc_nrLocalNuma c' = pc_nrLocalNuma c \<and> pc_freePages c' = pc_freePages c \<and>
     pc_safetyReservePages c' = pc_safetyReservePages c \<and>
     (\<forall>l. unat (pc_plannedPages c' l) = unat (pc_plannedPages c l) + promoted l ps \<and> promoted l ps \<le> safe_free c l)"

text \<open>Why a plan may stop short of its target.\<close>

definition plan_limited :: "PairPlanContext \<Rightarrow> PairPidBudget list \<Rightarrow> PairPlan \<Rightarrow> bool" where
  "plan_limited c bs p \<longleftrightarrow> planned p = gap p \<or>
     (\<exists>b \<in> set bs. pb_pid b = pl_pid p \<and> pb_plannedPages b = pb_maxMigratePages b) \<or>
     pl_actualPages p > pl_targetPages p \<and> safe_free c (destination p) = 0"

lemma plan_of_ids:
  assumes "plan_of p p'"
  shows "pl_pid p' = pl_pid p" "pl_localNid p' = pl_localNid p" "pl_remoteNid p' = pl_remoteNid p" "pl_remoteIndex p' = pl_remoteIndex p"
    "pl_targetPages p' = pl_targetPages p" "pl_actualPages p' = pl_actualPages p" "gap p' = gap p" "destination p' = destination p"
    "plan_key p' = plan_key p" "plan_valid n p' = plan_valid n p" "pl_swapPages p' = 0"
proof -
  obtain d r where "p' = p\<lparr>pl_demotePages := d, pl_promotePages := r, pl_swapPages := 0\<rparr>" using assms unfolding plan_of_def by blast
  then show "pl_pid p' = pl_pid p" "pl_localNid p' = pl_localNid p" "pl_remoteNid p' = pl_remoteNid p" "pl_remoteIndex p' = pl_remoteIndex p"
    "pl_targetPages p' = pl_targetPages p" "pl_actualPages p' = pl_actualPages p" "gap p' = gap p" "destination p' = destination p"
    "plan_key p' = plan_key p" "plan_valid n p' = plan_valid n p" "pl_swapPages p' = 0"
    by (simp_all add: gap_def destination_def plan_key_def plan_valid_def)
qed

lemma unat_add_le: "unat (a :: u64) + x \<le> unat (b :: u64) \<Longrightarrow> unat (a + of_nat x) = unat a + x"
  using unat_plus_bounded [of a "of_nat x" b] unat_of_nat_u64 [of x] le_u64 [of x b] by simp

lemma charge_budget:
  assumes bs: "budgets_ok bs" and k: "k < length bs" and x: "x \<le> unat (pb_maxMigratePages (bs ! k)) - unat (pb_plannedPages (bs ! k))"
    and p: "pl_pid p = pb_pid (bs ! k)" "planned p = x"
  shows "budgets_charged bs [p] (bs[k := (bs ! k)\<lparr>pb_plannedPages := pb_plannedPages (bs ! k) + of_nat x\<rparr>])"
proof -
  have le: "unat (pb_plannedPages b) \<le> unat (pb_maxMigratePages b)" if "b \<in> set bs" for b
    using bs that by (simp add: budgets_ok_def word_le_nat_alt)
  have "unat (pb_plannedPages (bs ! k)) + x \<le> unat (pb_maxMigratePages (bs ! k))" using x le [of "bs ! k"] k by simp
  note u = unat_add_le [OF this] this
  have other: "pb_pid (bs ! i) \<noteq> pl_pid p" if "i < length bs" "i \<noteq> k" for i
    using bs that k p(1) by (auto simp: budgets_ok_def distinct_conv_nth)
  show ?thesis
    unfolding budgets_charged_def list_all2_conv_all_nth
  proof (intro conjI allI impI)
    fix i
    assume i: "i < length bs"
    let ?b' = "bs[k := (bs ! k)\<lparr>pb_plannedPages := pb_plannedPages (bs ! k) + of_nat x\<rparr>] ! i"
    show "pb_pid ?b' = pb_pid (bs ! i)" "pb_maxMigratePages ?b' = pb_maxMigratePages (bs ! i)"
      using i by (cases "i = k"; simp)+
    show "unat (pb_plannedPages ?b') = unat (pb_plannedPages (bs ! i)) + charged (pb_pid (bs ! i)) [p]"
      using i u(1) p other [OF i] by (cases "i = k") (auto simp: charged_def)
    show "unat (pb_plannedPages ?b') \<le> unat (pb_maxMigratePages ?b')"
      using i u le [of "bs ! i"] by (cases "i = k") auto
  qed simp
qed

lemma budgets_charged_ok: "budgets_ok bs \<Longrightarrow> budgets_charged bs ps bs' \<Longrightarrow> budgets_ok bs'"
proof -
  assume bs: "budgets_ok bs" and ch: "budgets_charged bs ps bs'"
  have "map pb_pid bs' = map pb_pid bs" using ch
    by (auto simp: budgets_charged_def list_all2_conv_all_nth intro: nth_equalityI)
  then show ?thesis using bs ch
    by (auto simp: budgets_ok_def budgets_charged_def list_all2_conv_all_nth in_set_conv_nth word_le_nat_alt)
qed

lemma budgets_charged_trans:
  assumes "budgets_charged bs [p] bs1" and "budgets_charged bs1 ps bs2"
  shows "budgets_charged bs (p # ps) bs2"
  using assms by (auto simp: budgets_charged_def list_all2_conv_all_nth charged_def)

lemma budgets_charged_full:
  assumes ch: "budgets_charged bs ps bs'" and "b \<in> set bs" and full: "pb_plannedPages b = pb_maxMigratePages b"
  shows "\<exists>b' \<in> set bs'. pb_pid b' = pb_pid b \<and> pb_plannedPages b' = pb_maxMigratePages b'"
proof -
  obtain k where k: "k < length bs" "b = bs ! k" using assms(2) by (auto simp: in_set_conv_nth)
  have len: "length bs' = length bs" and r: "pb_pid (bs' ! k) = pb_pid b" "pb_maxMigratePages (bs' ! k) = pb_maxMigratePages b"
    "unat (pb_plannedPages (bs' ! k)) = unat (pb_plannedPages b) + charged (pb_pid b) ps"
    "unat (pb_plannedPages (bs' ! k)) \<le> unat (pb_maxMigratePages (bs' ! k))"
    using ch k by (auto simp: budgets_charged_def list_all2_conv_all_nth)
  have "unat (pb_plannedPages (bs' ! k)) = unat (pb_maxMigratePages (bs' ! k))" using r full by simp
  then have "pb_plannedPages (bs' ! k) = pb_maxMigratePages (bs' ! k)" by (simp add: word_unat_eq_iff)
  then show ?thesis using k len r(1) by (intro bexI [of _ "bs' ! k"]) simp_all
qed

lemma charge_context:
  assumes "x \<le> safe_free c (destination p)" and "unat (pl_promotePages p) = x"
  shows "context_charged c [p] (c\<lparr>pc_plannedPages := (pc_plannedPages c)(destination p := pc_plannedPages c (destination p) + of_nat x)\<rparr>)"
proof (cases "x = 0")
  case False
  then have "unat (pc_plannedPages c (destination p)) + x \<le> unat (pc_freePages c (destination p))"
    using assms(1) unfolding safe_free_eq by linarith
  from unat_add_le [OF this] assms show ?thesis by (auto simp: context_charged_def promoted_def)
qed (use assms in \<open>simp add: context_charged_def promoted_def\<close>)

lemma context_charged_trans:
  assumes "context_charged c [p] c1" and "context_charged c1 ps c2"
  shows "context_charged c (p # ps) c2"
proof -
  have p: "promoted l (p # ps) = promoted l [p] + promoted l ps" for l by (simp add: promoted_def)
  have step: "unat (pc_plannedPages c1 l) = unat (pc_plannedPages c l) + promoted l [p]" "promoted l [p] \<le> safe_free c l"
    and f: "pc_freePages c1 = pc_freePages c" "pc_safetyReservePages c1 = pc_safetyReservePages c" for l
    using assms(1) by (simp_all add: context_charged_def)
  have "safe_free c1 l = safe_free c l - promoted l [p]" for l unfolding safe_free_eq f step(1) by simp
  then have "promoted l [p] + promoted l ps \<le> safe_free c l" for l
    using assms(2) step(2) [of l] unfolding context_charged_def by (metis le_add_diff_inverse nat_add_left_cancel_le)
  then show ?thesis using assms unfolding context_charged_def p by simp
qed


lemma context_charged_exhausted:
  "context_charged c ps c' \<Longrightarrow> safe_free c l = 0 \<Longrightarrow> safe_free c' l = 0"
  by (simp add: context_charged_def safe_free_eq)

lemma plan_limited_mono:
  assumes "plan_limited c bs p" and "context_charged c ps c'" and "budgets_charged bs ps' bs'"
  shows "plan_limited c' bs' p"
  using assms(1) context_charged_exhausted [OF assms(2)] budgets_charged_full [OF assms(3)]
  unfolding plan_limited_def by metis

lemma plan_one_limited:
  assumes bs: "budgets_ok bs" and k: "k < length bs" "pb_pid (bs ! k) = pl_pid p"
    and res: "plan_one c (bs ! k) p = (p', c1, x)"
  shows "plan_of p p'" "planned p' = x" "context_charged c [p'] c1"
    and "budgets_charged bs [p'] (bs[k := (bs ! k)\<lparr>pb_plannedPages := pb_plannedPages (bs ! k) + of_nat x\<rparr>])"
    and "plan_limited c1 (bs[k := (bs ! k)\<lparr>pb_plannedPages := pb_plannedPages (bs ! k) + of_nat x\<rparr>]) p'"
proof -
  let ?b = "(bs ! k)\<lparr>pb_plannedPages := pb_plannedPages (bs ! k) + of_nat x\<rparr>"
  have ok: "pb_plannedPages (bs ! k) \<le> pb_maxMigratePages (bs ! k)" using bs k(1) by (simp add: budgets_ok_def)
  note one = plan_one_gen [OF res ok]
  show p: "plan_of p p'" "planned p' = x" by (rule one)+
  note ids = plan_of_ids [OF p(1)]
  show ctx: "context_charged c [p'] c1"
    unfolding one(5) using charge_context [of "unat (pl_promotePages p')" c p'] one(4) by (simp add: ids)
  show bud: "budgets_charged bs [p'] (bs[k := ?b])"
    using charge_budget [OF bs k(1) one(3)] p(2) k(2) by (simp add: ids)
  consider "x = gap p" | "x = unat (pb_maxMigratePages (bs ! k)) - unat (pb_plannedPages (bs ! k))"
    | "pl_actualPages p > pl_targetPages p" "x = safe_free c (destination p)" using one(6) by blast
  then show "plan_limited c1 (bs[k := ?b]) p'"
  proof cases
    case 1
    then show ?thesis by (simp add: plan_limited_def ids p(2))
  next
    case 2
    then have "unat (pb_plannedPages (bs ! k)) + x = unat (pb_maxMigratePages (bs ! k))" using ok by (simp add: word_le_nat_alt)
    then have "pb_plannedPages ?b = pb_maxMigratePages ?b"
      using unat_add_le [of "pb_plannedPages (bs ! k)" x "pb_maxMigratePages (bs ! k)"] by (simp add: word_unat_eq_iff)
    moreover have "?b \<in> set (bs[k := ?b])" using k(1) by (simp add: set_update_memI)
    moreover have "pb_pid ?b = pl_pid p'" using k(2) by (simp add: ids)
    ultimately show ?thesis unfolding plan_limited_def by blast
  next
    case 3
    have "pl_demotePages p' = 0" using p(1) 3(1) by (auto simp: plan_of_def IsPairPlanDirectionValid_def ids split: if_splits)
    then have "promoted (destination p) [p'] = safe_free c (destination p)"
      using p(2) 3(2) by (simp add: promoted_def planned_def ids)
    then have "safe_free c1 (destination p) = 0"
      using ctx unfolding context_charged_def safe_free_eq by (metis diff_diff_left diff_self_eq_0)
    then show ?thesis using 3(1) by (simp add: plan_limited_def ids)
  qed
qed

lemma plan_pairs_gen:
  assumes "plan_pairs prev ps c bs = Inr (ps', c', bs')" and "budgets_ok bs"
  shows "list_all2 plan_of ps ps' \<and> list_all (plan_valid (pc_nrLocalNuma c)) ps' \<and> budgets_charged bs ps' bs' \<and>
    context_charged c ps' c' \<and> (\<forall>p \<in> set ps'. plan_limited c' bs' p)"
  using assms
proof (induction ps arbitrary: prev c bs ps')
  case Nil
  then show ?case
    by (auto simp: budgets_charged_def context_charged_def charged_def promoted_def budgets_ok_def word_le_nat_alt list_all2_conv_all_nth)
next
  case (Cons p ps)
  have dist: "distinct (map pb_pid bs)" using Cons.prems(2) by (simp add: budgets_ok_def)
  from Cons.prems(1) obtain k where valid: "plan_valid (pc_nrLocalNuma c) p" and k: "FindPairPidBudget bs (pl_pid p) = Inr k"
    by (auto split: if_splits sum.splits)
  obtain p' c1 x where one: "plan_one c (bs ! k) p = (p', c1, x)" by (metis prod_cases3)
  let ?bs = "bs[k := (bs ! k)\<lparr>pb_plannedPages := pb_plannedPages (bs ! k) + of_nat x\<rparr>]"
  from Cons.prems(1) obtain qs where rec: "plan_pairs (Some p') ps c1 ?bs = Inr (qs, c', bs')" and ps': "ps' = p' # qs"
    by (auto simp: k one Let_def split: if_splits sum.splits)
  have kk: "k < length bs" "pb_pid (bs ! k) = pl_pid p" using k FindPairPidBudget_eq(1) [OF dist] by auto
  note lim = plan_one_limited [OF Cons.prems(2) kk one]
  note ih = Cons.IH [OF rec budgets_charged_ok [OF Cons.prems(2) lim(4)]]
  have nr: "pc_nrLocalNuma c1 = pc_nrLocalNuma c" using lim(3) by (simp add: context_charged_def)
  have "plan_limited c' bs' p'" using ih by (intro plan_limited_mono [OF lim(5)]) auto
  then show ?case
    using ih lim(1) valid budgets_charged_trans [OF lim(4)] context_charged_trans [OF lim(3)]
    by (simp add: ps' nr plan_of_ids(10) [OF lim(1)])
qed

text \<open>When planning succeeds.\<close>

lemma plan_pairs_succeeds:
  assumes "budgets_ok bs" and "distinct (map plan_key ps)" and "\<forall>p \<in> set ps. plan_valid (pc_nrLocalNuma c) p \<and> pl_pid p \<in> pb_pid ` set bs"
    and "\<forall>q. prev = Some q \<longrightarrow> plan_key q \<notin> plan_key ` set ps"
  shows "\<exists>r. plan_pairs prev ps c bs = Inr r"
  using assms
proof (induction ps arbitrary: prev c bs)
  case (Cons p ps)
  have dist: "distinct (map pb_pid bs)" using Cons.prems(1) by (simp add: budgets_ok_def)
  obtain k where kk: "k < length bs" "pb_pid (bs ! k) = pl_pid p" using Cons.prems(3) by (auto simp: in_set_conv_nth)
  then have k: "FindPairPidBudget bs (pl_pid p) = Inr k" using FindPairPidBudget_eq(1) [OF dist] by blast
  obtain p' c1 x where one: "plan_one c (bs ! k) p = (p', c1, x)" by (metis prod_cases3)
  let ?bs = "bs[k := (bs ! k)\<lparr>pb_plannedPages := pb_plannedPages (bs ! k) + of_nat x\<rparr>]"
  note lim = plan_one_limited [OF Cons.prems(1) kk one]
  have pids: "map pb_pid ?bs = map pb_pid bs" using kk(1) by (simp add: map_update list_update_same_conv)
  then have "pb_pid ` set ?bs = pb_pid ` set bs" by (metis set_map)
  moreover have "pc_nrLocalNuma c1 = pc_nrLocalNuma c" using lim(3) by (simp add: context_charged_def)
  moreover have "plan_key p' = plan_key p" using plan_of_ids [OF lim(1)] by simp
  ultimately have "\<exists>r. plan_pairs (Some p') ps c1 ?bs = Inr r"
    using Cons.prems by (intro Cons.IH budgets_charged_ok [OF Cons.prems(1) lim(4)]) auto
  moreover have "\<not> (case prev of None \<Rightarrow> False | Some q \<Rightarrow> ComparePairPlan q p = 0)"
    using Cons.prems(4) by (auto simp: ComparePairPlan_0 split: option.split)
  ultimately show ?case using Cons.prems(3) by (auto simp: k one Let_def)
qed auto

lemma plan_pairs_distinct:
  assumes "plan_pairs prev ps c bs = Inr r" and "sorted (map plan_key ps)" and "budgets_ok bs"
    and "\<forall>q. prev = Some q \<longrightarrow> (\<forall>p \<in> set ps. plan_key q \<le> plan_key p)"
  shows "distinct (map plan_key ps) \<and> (\<forall>q. prev = Some q \<longrightarrow> plan_key q \<notin> plan_key ` set ps) \<and>
    (\<forall>p \<in> set ps. plan_valid (pc_nrLocalNuma c) p \<and> pl_pid p \<in> pb_pid ` set bs)"
  using assms
proof (induction ps arbitrary: prev c bs r)
  case (Cons p ps)
  have dist: "distinct (map pb_pid bs)" using Cons.prems(3) by (simp add: budgets_ok_def)
  from Cons.prems(1) obtain k where valid: "plan_valid (pc_nrLocalNuma c) p" and k: "FindPairPidBudget bs (pl_pid p) = Inr k"
    and new: "\<not> (case prev of None \<Rightarrow> False | Some q \<Rightarrow> ComparePairPlan q p = 0)"
    by (auto split: if_splits sum.splits)
  obtain p' c1 x where one: "plan_one c (bs ! k) p = (p', c1, x)" by (metis prod_cases3)
  let ?bs = "bs[k := (bs ! k)\<lparr>pb_plannedPages := pb_plannedPages (bs ! k) + of_nat x\<rparr>]"
  from Cons.prems(1) obtain r' where rec: "plan_pairs (Some p') ps c1 ?bs = Inr r'"
    by (auto simp: k one Let_def split: if_splits sum.splits)
  have kk: "k < length bs" "pb_pid (bs ! k) = pl_pid p" using k FindPairPidBudget_eq(1) [OF dist] by auto
  note lim = plan_one_limited [OF Cons.prems(3) kk one]
  have key: "plan_key p' = plan_key p" using plan_of_ids [OF lim(1)] by simp
  have "map pb_pid ?bs = map pb_pid bs" using kk(1) by (simp add: map_update list_update_same_conv)
  then have img: "pb_pid ` set ?bs = pb_pid ` set bs" by (metis set_map)
  have nr: "pc_nrLocalNuma c1 = pc_nrLocalNuma c" using lim(3) by (simp add: context_charged_def)
  have "distinct (map plan_key ps) \<and> (\<forall>q. Some p' = Some q \<longrightarrow> plan_key q \<notin> plan_key ` set ps) \<and>
    (\<forall>p \<in> set ps. plan_valid (pc_nrLocalNuma c1) p \<and> pl_pid p \<in> pb_pid ` set ?bs)"
    using Cons.prems(2) key by (intro Cons.IH [OF rec _ budgets_charged_ok [OF Cons.prems(3) lim(4)]]) auto
  then have tl: "distinct (map plan_key ps)" "plan_key p \<notin> plan_key ` set ps"
    "\<forall>p \<in> set ps. plan_valid (pc_nrLocalNuma c) p \<and> pl_pid p \<in> pb_pid ` set bs"
    unfolding img nr key [symmetric] by blast+
  have "plan_key q \<noteq> plan_key p \<and> plan_key q \<notin> plan_key ` set ps" if "prev = Some q" for q
  proof -
    have "plan_key q \<noteq> plan_key p" using that new by (simp add: ComparePairPlan_0)
    moreover have "plan_key q \<le> plan_key p" using that Cons.prems(4) by simp
    ultimately have lt: "plan_key q < plan_key p" by (rule le_neq_trans [rotated])
    have "plan_key p \<le> plan_key y" if "y \<in> set ps" for y using Cons.prems(2) that by simp
    then have "plan_key q \<noteq> plan_key y" if "y \<in> set ps" for y using lt that less_le_trans by (metis less_irrefl)
    then show ?thesis using \<open>plan_key q \<noteq> plan_key p\<close> by blast
  qed
  moreover have "pl_pid p \<in> pb_pid ` set bs" using kk by (metis image_eqI nth_mem)
  ultimately show ?case using tl valid unfolding list.map distinct.simps list.set set_map image_insert ball_simps by blast
qed auto


lemma BuildPairPlans_gen:
  assumes "BuildPairPlans mf inputs c bs cap = Inr (ps, c', bs')" and "inputs \<noteq> []"
  shows "budgets_ok bs" and "list_all2 plan_of (qsort ComparePairPlan inputs) ps" and "list_all (plan_valid (pc_nrLocalNuma c)) ps"
    and "budgets_charged bs ps bs'" and "context_charged c ps c'" and "p \<in> set ps \<Longrightarrow> plan_limited c' bs' p"
    and "sorted_wrt (<) (map plan_key ps)"
proof -
  have run: "plan_pairs None (qsort ComparePairPlan inputs) c bs = Inr (ps, c', bs')" and valid: "budgets_valid bs"
    using assms by (auto simp: BuildPairPlans_def split: if_splits)
  show ok: "budgets_ok bs" using valid by (simp add: budgets_valid_iff)
  note g = plan_pairs_gen [OF run ok]
  show l: "list_all2 plan_of (qsort ComparePairPlan inputs) ps" and "list_all (plan_valid (pc_nrLocalNuma c)) ps"
    "budgets_charged bs ps bs'" "context_charged c ps c'" "p \<in> set ps \<Longrightarrow> plan_limited c' bs' p"
    using g by auto
  have keys: "map plan_key ps = map plan_key (qsort ComparePairPlan inputs)"
    using l by (auto simp: list_all2_conv_all_nth plan_of_ids intro: nth_equalityI)
  have "distinct (map plan_key (qsort ComparePairPlan inputs))"
    using plan_pairs_distinct [OF run plan_order.sorted_qsort ok] by simp
  then show "sorted_wrt (<) (map plan_key ps)"
    unfolding keys using plan_order.sorted_qsort by (simp add: strict_sorted_iff)
qed

lemma BuildPairPlans_iff:
  "(\<exists>r. BuildPairPlans False inputs c bs cap = Inr r) \<longleftrightarrow>
    length inputs \<le> cap \<and> length inputs \<le> MAX_PAIR_TARGET_COUNT \<and> length bs \<le> MAX_4K_PROCESSES_CNT \<and>
    0 < pc_nrLocalNuma c \<and> pc_nrLocalNuma c \<le> 8 \<and>
    (inputs = [] \<or> budgets_ok bs \<and> distinct (map plan_key inputs) \<and>
      (\<forall>p \<in> set inputs. plan_valid (pc_nrLocalNuma c) p \<and> pl_pid p \<in> pb_pid ` set bs))"
proof -
  let ?wf = "budgets_ok bs \<and> distinct (map plan_key inputs) \<and>
      (\<forall>p \<in> set inputs. plan_valid (pc_nrLocalNuma c) p \<and> pl_pid p \<in> pb_pid ` set bs)"
  have dist: "distinct (map plan_key (qsort ComparePairPlan inputs)) \<longleftrightarrow> distinct (map plan_key inputs)"
    by (metis mset_map mset_qsort mset_eq_imp_distinct_iff)
  have run: "(\<exists>r. plan_pairs None (qsort ComparePairPlan inputs) c bs = Inr r) \<and> budgets_ok bs \<longleftrightarrow> ?wf"
    using plan_pairs_succeeds [of bs "qsort ComparePairPlan inputs" c None]
      plan_pairs_distinct [of None "qsort ComparePairPlan inputs" c bs, OF _ plan_order.sorted_qsort] dist
    by auto
  show ?thesis
  proof (cases "inputs = []")
    case True
    then show ?thesis by (auto simp: BuildPairPlans_def)
  next
    case False
    have "bs = [] \<Longrightarrow> \<not> ?wf" using False by (cases inputs) auto
    then show ?thesis using False run
      by (auto simp: BuildPairPlans_def budgets_valid_iff)
  qed
qed

section \<open>Properties\<close>

text \<open>C11. Plans are safe: every plan goes from the actual pages towards the target of its pair and not past it, no process
  plans more pages than its budget, no local node receives more pages than it has free beyond its reserve and what was planned
  before, and the budgets and the context are charged with exactly the planned pages. A plan stops short of its target only
  where the budget of the process or the free pages of the local node are used up.\<close>

theorem BuildPairPlans_safe:
  assumes "BuildPairPlans mf inputs c bs cap = Inr (ps, c', bs')" and "inputs \<noteq> []"
  shows "list_all2 plan_of (qsort ComparePairPlan inputs) ps \<and> budgets_charged bs ps bs' \<and> context_charged c ps c' \<and>
    (\<forall>p \<in> set ps. plan_limited c' bs' p)"
  using BuildPairPlans_gen [OF assms] by blast

text \<open>A process with 100 pages of budget, 70 pages too many on one remote node and 60 too few on another.\<close>

definition demo_plans :: "PairPlan list" where
  "demo_plans = [\<lparr>pl_pid = 7, pl_localNid = 0, pl_remoteNid = 2, pl_remoteIndex = 1, pl_targetPages = 60, pl_actualPages = 0,
       pl_demotePages = 0, pl_promotePages = 0, pl_swapPages = 0\<rparr>,
     \<lparr>pl_pid = 7, pl_localNid = 0, pl_remoteNid = 1, pl_remoteIndex = 0, pl_targetPages = 10, pl_actualPages = 80,
       pl_demotePages = 0, pl_promotePages = 0, pl_swapPages = 0\<rparr>]"

definition demo_budgets :: "PairPidBudget list" where
  "demo_budgets = [\<lparr>pb_pid = 7, pb_maxMigratePages = 100, pb_plannedPages = 0\<rparr>]"

definition demo_context :: PairPlanContext where
  "demo_context = \<lparr>pc_nrLocalNuma = 1, pc_freePages = (\<lambda>_. 50), pc_safetyReservePages = (\<lambda>_. 0), pc_plannedPages = (\<lambda>_. 0)\<rparr>"

lemma demo_plans_succeed: "\<exists>ps c' bs'. BuildPairPlans False demo_plans demo_context demo_budgets 100 = Inr (ps, c', bs')"
proof -
  have ok: "budgets_ok demo_budgets" by (simp add: demo_budgets_def budgets_ok_def)
  have "\<exists>r. plan_pairs None (qsort ComparePairPlan demo_plans) demo_context demo_budgets = Inr r"
    by (rule plan_pairs_succeeds [OF ok])
      (auto simp: qsort_def demo_plans_def demo_context_def demo_budgets_def ComparePairPlan_def plan_key_def plan_valid_def)
  then show ?thesis using ok
    by (auto simp: BuildPairPlans_def demo_plans_def demo_context_def demo_budgets_def budgets_valid_iff)
qed

theorem BuildPairPlans_safe_witness:
  "\<exists>ps c' bs'. BuildPairPlans False demo_plans demo_context demo_budgets 100 = Inr (ps, c', bs') \<and> promoted 0 ps \<le> 50 \<and> charged 7 ps \<le> 100"
proof -
  obtain ps c' bs' where r: "BuildPairPlans False demo_plans demo_context demo_budgets 100 = Inr (ps, c', bs')" using demo_plans_succeed by blast
  have "demo_plans \<noteq> []" by (simp add: demo_plans_def)
  from BuildPairPlans_safe [OF r this] have "budgets_charged demo_budgets ps bs'" "context_charged demo_context ps c'" by auto
  then have "promoted 0 ps \<le> 50" "charged 7 ps \<le> 100"
    by (auto simp: context_charged_def safe_free_eq demo_context_def budgets_charged_def demo_budgets_def list_all2_Cons1)
  with r show ?thesis by blast
qed

text \<open>Planning fails exactly on malformed input: with memory available it succeeds if and only if the counts are within
  bounds and, unless there is nothing to plan, every process has exactly one budget that is not exceeded yet and every input names a
  different pair of a local and a remote node of the machine.\<close>

theorem BuildPairPlans_succeeds_iff:
  "(\<exists>r. BuildPairPlans False inputs c bs cap = Inr r) \<longleftrightarrow>
    length inputs \<le> cap \<and> length inputs \<le> MAX_PAIR_TARGET_COUNT \<and> length bs \<le> MAX_4K_PROCESSES_CNT \<and>
    0 < pc_nrLocalNuma c \<and> pc_nrLocalNuma c \<le> 8 \<and>
    (inputs = [] \<or> budgets_ok bs \<and> distinct (map plan_key inputs) \<and>
      (\<forall>p \<in> set inputs. plan_valid (pc_nrLocalNuma c) p \<and> pl_pid p \<in> pb_pid ` set bs))"
  by (rule BuildPairPlans_iff)


theorem BuildPairPlans_succeeds_iff_witness: "\<exists>r. BuildPairPlans False demo_plans demo_context demo_budgets 100 = Inr r"
  unfolding BuildPairPlans_succeeds_iff
  by (simp add: demo_plans_def demo_context_def demo_budgets_def budgets_ok_def plan_key_def plan_valid_def)

end
