(* ===== verification/Swap_Count.thy ===== *)
theory Swap_Count
  imports Pair_Plan
begin

text \<open>
  How many cold local pages of a pair are worth exchanging for hot remote pages,
  \<^verbatim>\<open>plugins/smap/src/user/strategy/migration.c\<close> lines 151 to 222. A frequency histogram is a function from
  the bucket (the access frequency of a page) to a number of pages. The two-pointer loop of the code is shown
  to end and to compute the largest number of exchanges of a colder local page for a hotter remote one, taken
  from the cold end of the local and the hot end of the remote histogram.
\<close>

abbreviation (input) FREQ_BUCKETS_SIZE :: nat where "FREQ_BUCKETS_SIZE \<equiv> 256"

section \<open>Swappable pages\<close>

type_synonym buckets = "nat \<Rightarrow> nat"

fun consume_steps :: "bool \<Rightarrow> nat list \<Rightarrow> buckets \<Rightarrow> nat \<Rightarrow> buckets" where
  "consume_steps highestFirst [] buckets pages = buckets"
| "consume_steps highestFirst (step # steps) buckets pages =
     (if \<not> pages > 0 then buckets
      else
        let bucket = (if highestFirst then FREQ_BUCKETS_SIZE - 1 - step else step);
            consumed = min (buckets bucket) pages
        in consume_steps highestFirst steps (buckets(bucket := sub64 (buckets bucket) consumed)) (sub64 pages consumed))"

definition ConsumeBucketPages :: "buckets \<Rightarrow> nat \<Rightarrow> bool \<Rightarrow> buckets" where
  "ConsumeBucketPages buckets pages highestFirst = consume_steps highestFirst [0..<FREQ_BUCKETS_SIZE] buckets pages"

function skip_local :: "buckets \<Rightarrow> nat \<Rightarrow> nat \<Rightarrow> nat" where
  "skip_local localBuckets localBucket remoteBucket =
     (if localBucket < remoteBucket \<and> localBuckets localBucket = 0
      then skip_local localBuckets (localBucket + 1) remoteBucket else localBucket)"
  by auto
termination by (relation "measure (\<lambda>(_, i, j). j - i)") auto

function skip_remote :: "buckets \<Rightarrow> nat \<Rightarrow> nat \<Rightarrow> nat" where
  "skip_remote remoteBuckets localBucket remoteBucket =
     (if localBucket < remoteBucket \<and> remoteBuckets remoteBucket = 0
      then skip_remote remoteBuckets localBucket (remoteBucket - 1) else remoteBucket)"
  by auto
termination by (relation "measure (\<lambda>(_, i, j). j - i)") auto

declare skip_local.simps [simp del] skip_remote.simps [simp del]

lemma skip_local_props:
  "i \<le> skip_local b i j" "skip_local b i j \<le> max i j" "i \<le> k \<Longrightarrow> k < skip_local b i j \<Longrightarrow> b k = 0"
  "skip_local b i j < j \<Longrightarrow> b (skip_local b i j) \<noteq> 0"
proof -
  have "i \<le> skip_local b i j \<and> skip_local b i j \<le> max i j \<and> (\<forall>k. i \<le> k \<and> k < skip_local b i j \<longrightarrow> b k = 0) \<and>
    (skip_local b i j < j \<longrightarrow> b (skip_local b i j) \<noteq> 0)"
  proof (induction b i j rule: skip_local.induct)
    case (1 b i j)
    show ?case
    proof (cases "i < j \<and> b i = 0")
      case True
      then have "skip_local b i j = skip_local b (i + 1) j" by (subst skip_local.simps) simp
      moreover have "b k = 0" if "i \<le> k" "k < skip_local b (i + 1) j" for k
        using 1 True that by (cases "k = i") auto
      ultimately show ?thesis using 1 True by (auto simp: max_def)
    next
      case False
      then have "skip_local b i j = i" unfolding skip_local.simps [of b i j] by (rule if_not_P)
      then show ?thesis using False by auto
    qed
  qed
  then show "i \<le> skip_local b i j" "skip_local b i j \<le> max i j" "i \<le> k \<Longrightarrow> k < skip_local b i j \<Longrightarrow> b k = 0"
    "skip_local b i j < j \<Longrightarrow> b (skip_local b i j) \<noteq> 0" by blast+
qed

lemma skip_remote_props:
  "skip_remote b i j \<le> j" "skip_remote b i j \<ge> min i j" "skip_remote b i j < k \<Longrightarrow> k \<le> j \<Longrightarrow> b k = 0"
  "i < skip_remote b i j \<Longrightarrow> b (skip_remote b i j) \<noteq> 0"
proof -
  have "skip_remote b i j \<le> j \<and> skip_remote b i j \<ge> min i j \<and> (\<forall>k. skip_remote b i j < k \<and> k \<le> j \<longrightarrow> b k = 0) \<and>
    (i < skip_remote b i j \<longrightarrow> b (skip_remote b i j) \<noteq> 0)"
  proof (induction b i j rule: skip_remote.induct)
    case (1 b i j)
    show ?case
    proof (cases "i < j \<and> b j = 0")
      case True
      then have "skip_remote b i j = skip_remote b i (j - 1)" by (subst skip_remote.simps) simp
      moreover have "b k = 0" if "skip_remote b i (j - 1) < k" "k \<le> j" for k
        using 1 True that by (cases "k = j") auto
      ultimately show ?thesis using 1 True by (auto simp: min_def split: if_splits)
    next
      case False
      then have "skip_remote b i j = j" unfolding skip_remote.simps [of b i j] by (rule if_not_P)
      then show ?thesis using False by auto
    qed
  qed
  then show "skip_remote b i j \<le> j" "skip_remote b i j \<ge> min i j" "skip_remote b i j < k \<Longrightarrow> k \<le> j \<Longrightarrow> b k = 0"
    "i < skip_remote b i j \<Longrightarrow> b (skip_remote b i j) \<noteq> 0" by blast+
qed

text \<open>The two pointers meet: every round empties a bucket that a pointer stands on, and the next round moves past it.\<close>

function pair_buckets :: "buckets \<Rightarrow> buckets \<Rightarrow> nat \<Rightarrow> nat \<Rightarrow> nat \<Rightarrow> nat" where
  "pair_buckets localBuckets remoteBuckets localBucket remoteBucket swappable =
     (if \<not> localBucket < remoteBucket then swappable
      else
        let l = skip_local localBuckets localBucket remoteBucket;
            r = skip_remote remoteBuckets l remoteBucket
        in if l \<ge> r then swappable
           else
             let paired = min (localBuckets l) (remoteBuckets r)
             in pair_buckets (localBuckets(l := sub64 (localBuckets l) paired)) (remoteBuckets(r := sub64 (remoteBuckets r) paired))
                  l r (add64 swappable paired))"
  by auto
termination
proof (relation "measure (\<lambda>(lb, rb, i, j, _). 2 * (j - i) + of_bool (lb i \<noteq> 0) + of_bool (rb j \<noteq> 0))", goal_cases)
  case (2 lb rb i j acc l r paired)
  have l: "i \<le> l" "l < j" using skip_local_props(1) [of i lb j] skip_remote_props(1) [of rb l j] 2 by auto
  have r: "r \<le> j" "l < r" using skip_remote_props(1) [of rb l j] 2 by auto
  have nz: "lb l \<noteq> 0" "rb r \<noteq> 0" using skip_local_props(4) [of lb i j] skip_remote_props(4) [of l rb j] 2 l r by auto
  have one: "sub64 (lb l) paired = 0 \<or> sub64 (rb r) paired = 0" using 2 by (auto simp: min_def)
  have "2 * (r - l) + of_bool (lb l \<noteq> 0) + of_bool (rb r \<noteq> 0) \<le> 2 * (j - i) + of_bool (lb i \<noteq> 0) + (of_bool (rb j \<noteq> 0) :: nat)"
    using l r nz by (cases "l = i"; cases "r = j") auto
  then show ?case using one nz r(2) by (auto simp: of_bool_def split: if_splits)
qed simp

declare pair_buckets.simps [simp del]

definition has_scan_data :: "ProcessAttr \<Rightarrow> nat \<Rightarrow> nat \<Rightarrow> bool" where
  "has_scan_data process localNid remoteNid \<longleftrightarrow>
     \<not> (\<not> sc_hasActcData (pa_scanAttr process) localNid \<or> \<not> sc_hasActcData (pa_scanAttr process) remoteNid \<or>
        sc_actcLen (pa_scanAttr process) localNid = 0 \<or> sc_actcLen (pa_scanAttr process) remoteNid = 0)"

abbreviation freqBuckets :: "ProcessAttr \<Rightarrow> nat \<Rightarrow> buckets" where
  "freqBuckets process nid \<equiv> (\<lambda>bucket. if bucket < FREQ_BUCKETS_SIZE
     then unat (ac_freqBuckets (sc_actCount (pa_scanAttr process) nid) bucket) else 0)"

definition CountPairSwapPages :: "ProcessAttr \<Rightarrow> nat \<Rightarrow> nat \<Rightarrow> nat \<Rightarrow> nat \<Rightarrow> nat" where
  "CountPairSwapPages process localNid remoteNid localSelected remoteSelected =
     (if \<not> has_scan_data process localNid remoteNid then 0
      else
        let localBuckets = ConsumeBucketPages (freqBuckets process localNid) localSelected False;
            remoteBuckets = ConsumeBucketPages (freqBuckets process remoteNid) remoteSelected True
        in pair_buckets localBuckets remoteBuckets 0 (FREQ_BUCKETS_SIZE - 1) 0)"

definition CalcPairRemoteGuaranteeExtraSwap :: "ProcessAttr \<Rightarrow> PairPlan \<Rightarrow> nat \<Rightarrow> nat \<Rightarrow> nat \<Rightarrow> nat \<Rightarrow> nat" where
  "CalcPairRemoteGuaranteeExtraSwap process plan localSelected remoteSelected baseSwapPages remainingSwapBudget =
     (let localNid = nat (pl_localNid plan); remoteNid = nat (pl_remoteNid plan); scan = pa_scanAttr process
      in if \<not> has_scan_data process localNid remoteNid then 0
         else
           let localAfterBase = add64 localSelected baseSwapPages;
               remoteAfterBase = add64 remoteSelected baseSwapPages;
               remoteGuarantee = unat (ac_remoteHotNum (sc_actCount scan remoteNid))
           in if remoteAfterBase \<ge> remoteGuarantee then 0
              else
                let localRemaining = (if unat (sc_actcLen scan localNid) > localAfterBase
                      then sub64 (unat (sc_actcLen scan localNid)) localAfterBase else 0);
                    remoteRemaining = (if unat (sc_actcLen scan remoteNid) > remoteAfterBase
                      then sub64 (unat (sc_actcLen scan remoteNid)) remoteAfterBase else 0);
                    missingHotPages = sub64 remoteGuarantee remoteAfterBase
                in min (min missingHotPages localRemaining) (min remoteRemaining remainingSwapBudget))"


section \<open>What the two pointers count\<close>

text \<open>The pages up to a frequency, and the pages above it.\<close>

definition colder :: "buckets \<Rightarrow> nat \<Rightarrow> nat" where
  "colder b k = (\<Sum>i\<le>k. b i)"

definition hotter :: "nat \<Rightarrow> buckets \<Rightarrow> nat \<Rightarrow> nat" where
  "hotter N b k = (\<Sum>j \<in> {k<..<N}. b j)"

lemma sum_upd_diff:
  fixes f :: "'a \<Rightarrow> nat"
  assumes "finite A" and "p \<le> f x"
  shows "sum (f(x := f x - p)) A + (if x \<in> A then p else 0) = sum f A"
proof (cases "x \<in> A")
  case True
  have "sum (f(x := f x - p)) (A - {x}) = sum f (A - {x})" by (intro sum.cong) auto
  then have "sum (f(x := f x - p)) A = f x - p + sum f (A - {x})" using sum.remove [OF assms(1) True, of "f(x := f x - p)"] by simp
  moreover have "sum f A = f x + sum f (A - {x})" using assms(1) True by (rule sum.remove)
  ultimately show ?thesis using True assms(2) by simp
next
  case False
  then have "sum (f(x := f x - p)) A = sum f A" by (intro sum.cong) auto
  then show ?thesis using False by simp
qed

lemma colder_upd: "p \<le> b x \<Longrightarrow> colder (b(x := b x - p)) k + (if x \<le> k then p else 0) = colder b k"
  using sum_upd_diff [of "{..k}" p b x] by (simp add: colder_def)

lemma hotter_upd: "p \<le> b x \<Longrightarrow> hotter N (b(x := b x - p)) k + (if k < x \<and> x < N then p else 0) = hotter N b k"
  using sum_upd_diff [of "{k<..<N}" p b x] by (simp add: hotter_def)

lemma pair_buckets_stop:
  assumes "\<forall>k<l. lb k = 0" and "\<forall>k. r < k \<and> k < N \<longrightarrow> rb k = 0" and "r \<le> l"
  shows "min (colder lb k) (hotter N rb k) = (0 :: nat)"
proof (cases "k < l")
  case True
  then have "colder lb k = 0" using assms(1) by (simp add: colder_def)
  then show ?thesis by simp
next
  case False
  then have "hotter N rb k = 0" using assms(2,3) by (simp add: hotter_def)
  then show ?thesis by simp
qed

definition swap_value :: "nat \<Rightarrow> buckets \<Rightarrow> buckets \<Rightarrow> nat \<Rightarrow> nat" where
  "swap_value N lb rb k = min (colder lb k) (hotter N rb k)"

lemma swap_value_upd:
  assumes "p \<le> lb l" "p \<le> rb r" "l < r" "r < N" "\<forall>k<l. lb k = 0" "\<forall>k. r < k \<and> k < N \<longrightarrow> rb k = 0"
  shows "swap_value N lb rb k = (if l \<le> k \<and> k < r then swap_value N (lb(l := lb l - p)) (rb(r := rb r - p)) k + p else 0)"
    and "\<not> (l \<le> k \<and> k < r) \<Longrightarrow> swap_value N (lb(l := lb l - p)) (rb(r := rb r - p)) k = 0"
proof -
  note c = colder_upd [of p lb l, OF assms(1), of k] and h = hotter_upd [of p rb r, OF assms(2), of N k]
  have z: "colder lb k = 0" if "k < l" using assms(5) that by (simp add: colder_def)
  have z': "hotter N rb k = 0" if "r \<le> k" using assms(6) that by (simp add: hotter_def)
  show "swap_value N lb rb k = (if l \<le> k \<and> k < r then swap_value N (lb(l := lb l - p)) (rb(r := rb r - p)) k + p else 0)"
    using c h z z' assms(3,4) by (auto simp: swap_value_def split: if_splits)
  show "\<not> (l \<le> k \<and> k < r) \<Longrightarrow> swap_value N (lb(l := lb l - p)) (rb(r := rb r - p)) k = 0"
    using c h z z' by (auto simp: swap_value_def split: if_splits)
qed

lemma pair_buckets_best:
  assumes "\<forall>k<i. lb k = 0" and "\<forall>k. j < k \<and> k < N \<longrightarrow> rb k = 0" and "j < N" and "acc + sum lb {..<N} < 2 ^ 64"
    and "\<forall>k. rb k < 2 ^ 64"
  shows "(\<forall>k<N. acc + swap_value N lb rb k \<le> pair_buckets lb rb i j acc) \<and> (\<exists>k<N. acc + swap_value N lb rb k = pair_buckets lb rb i j acc)"
  using assms
proof (induction lb rb i j acc rule: pair_buckets.induct)
  case (1 lb rb i j acc)
  let ?l = "skip_local lb i j"
  let ?r = "skip_remote rb ?l j"
  have lz: "\<forall>k<?l. lb k = 0" if "i < j" using 1(2) skip_local_props(3) [of i _ lb j] by (metis not_less)
  have rz: "\<forall>k. ?r < k \<and> k < N \<longrightarrow> rb k = 0" if "i < j" using 1(3) skip_remote_props(3) [of rb ?l j] by (metis not_less)
  show ?case
  proof (cases "i < j \<and> ?l < ?r")
    case False
    then have v: "pair_buckets lb rb i j acc = acc" by (subst pair_buckets.simps) (auto simp: Let_def)
    have "swap_value N lb rb k = 0" for k
    proof (cases "i < j")
      case True
      then show ?thesis unfolding swap_value_def using False by (intro pair_buckets_stop [OF lz rz]) auto
    next
      case False
      then show ?thesis unfolding swap_value_def by (intro pair_buckets_stop [OF 1(2,3)]) auto
    qed
    then show ?thesis using 1(4) unfolding v by auto
  next
    case True
    let ?p = "min (lb ?l) (rb ?r)"
    let ?lb = "lb(?l := lb ?l - ?p)" and ?rb = "rb(?r := rb ?r - ?p)"
    have r: "?r < N" using skip_remote_props(1) [of rb ?l j] 1(4) by simp
    then have "?l < N" using True by simp
    then have lle: "lb ?l \<le> sum lb {..<N}" by (intro member_le_sum) auto
    have sub: "sub64 (lb ?l) ?p = lb ?l - ?p" "sub64 (rb ?r) ?p = rb ?r - ?p"
      using lle 1(5,6) by (auto intro!: sub64_eq)
    have sum: "sum ?lb {..<N} + ?p = sum lb {..<N}" using sum_upd_diff [of "{..<N}" ?p lb ?l] \<open>?l < N\<close> by simp
    then have add: "add64 acc ?p = acc + ?p" "acc + ?p + sum ?lb {..<N} < 2 ^ 64" using 1(5) by (auto intro!: add64_eq)
    have v: "pair_buckets lb rb i j acc = pair_buckets ?lb ?rb ?l ?r (acc + ?p)"
      using True by (subst pair_buckets.simps) (simp add: Let_def sub add(1))
    have ih: "(\<forall>k<N. acc + ?p + swap_value N ?lb ?rb k \<le> pair_buckets ?lb ?rb ?l ?r (acc + ?p)) \<and>
      (\<exists>k<N. acc + ?p + swap_value N ?lb ?rb k = pair_buckets ?lb ?rb ?l ?r (acc + ?p))"
    proof (rule 1(1) [OF _ refl refl _ refl, unfolded sub add(1)])
      show "\<forall>k<?l. ?lb k = 0" using lz True by simp
      show "\<forall>k. ?r < k \<and> k < N \<longrightarrow> ?rb k = 0" using rz True by simp
      show "\<forall>k. ?rb k < 2 ^ 64" using 1(6) by (auto intro: le_less_trans [OF diff_le_self])
    qed (use True r add(2) in auto)
    note upd = swap_value_upd [of ?p lb ?l rb ?r N, OF _ _ _ r]
    have u1: "swap_value N lb rb k = (if ?l \<le> k \<and> k < ?r then swap_value N ?lb ?rb k + ?p else 0)" for k
      by (rule upd(1)) (use True lz rz in auto)
    have u2: "\<not> (?l \<le> k \<and> k < ?r) \<Longrightarrow> swap_value N ?lb ?rb k = 0" for k
      by (rule upd(2)) (use True lz rz in auto)
    have le: "\<forall>k<N. acc + swap_value N lb rb k \<le> pair_buckets lb rb i j acc"
    proof (intro allI impI)
      fix k
      assume "k < N"
      with ih have "acc + ?p + swap_value N ?lb ?rb k \<le> pair_buckets lb rb i j acc" unfolding v by blast
      then show "acc + swap_value N lb rb k \<le> pair_buckets lb rb i j acc" unfolding u1 by auto
    qed
    obtain k where k: "k < N" "acc + ?p + swap_value N ?lb ?rb k = pair_buckets lb rb i j acc" using ih unfolding v by blast
    have "\<exists>k<N. acc + swap_value N lb rb k = pair_buckets lb rb i j acc"
    proof (cases "?l \<le> k \<and> k < ?r")
      case inside: True
      have "acc + swap_value N lb rb k = pair_buckets lb rb i j acc" using k(2) unfolding u1 [of k] if_P [OF inside] by simp
      with k(1) show ?thesis by blast
    next
      case outside: False
      have "pair_buckets lb rb i j acc = acc + ?p" using k(2) u2 [OF outside] by simp
      moreover have "acc + swap_value N lb rb ?l \<ge> acc + ?p" using True unfolding u1 [of ?l] by simp
      ultimately show ?thesis using le \<open>?l < N\<close> by (metis le_antisym)
    qed
    with le show ?thesis by blast
  qed
qed


section \<open>Pages already selected\<close>

lemma sum_head: "s \<le> k \<Longrightarrow> (\<Sum>i \<in> {s..k}. f i) = f s + (\<Sum>i \<in> {Suc s..k}. f i :: nat)"
  by (simp add: sum.atLeast_Suc_atMost)

lemma consume_steps_cold:
  assumes "s \<le> N" and "\<forall>i. b i < 2 ^ 64" and "p < 2 ^ 64"
  shows "colder (consume_steps False [s..<N] b p) k =
    colder b k - min p (\<Sum>i \<in> {s..min k (N - 1)}. if N = 0 then 0 else b i)"
  using assms
proof (induction "N - s" arbitrary: s b p)
  case 0
  then have "N = s" by simp
  then show ?case by (cases "s = 0") auto
next
  case (Suc d)
  then have s: "s < N" "[s..<N] = s # [Suc s..<N]" by (auto simp: upt_conv_Cons)
  show ?case
  proof (cases "p > 0")
    case True
    let ?c = "min (b s) p"
    let ?b = "b(s := b s - ?c)"
    have sub: "sub64 (b s) ?c = b s - ?c" "sub64 p ?c = p - ?c" using Suc.prems by (auto intro!: sub64_eq)
    have ih: "colder (consume_steps False [Suc s..<N] ?b (p - ?c)) k =
        colder ?b k - min (p - ?c) (\<Sum>i \<in> {Suc s..min k (N - 1)}. if N = 0 then 0 else ?b i)"
      using Suc.prems Suc.hyps(2) by (intro Suc.hyps(1)) (auto intro: le_less_trans [OF diff_le_self])
    have rest: "(\<Sum>i \<in> {Suc s..min k (N - 1)}. if N = 0 then 0 else ?b i) = (\<Sum>i \<in> {Suc s..min k (N - 1)}. b i)"
      using s(1) by (intro sum.cong) auto
    have all: "(\<Sum>i \<in> {s..min k (N - 1)}. if N = 0 then 0 else b i) = (if s \<le> k then b s + (\<Sum>i \<in> {Suc s..min k (N - 1)}. b i) else 0)"
      using s(1) by (auto simp: sum_head)
    have step: "consume_steps False [s..<N] b p = consume_steps False [Suc s..<N] ?b (p - ?c)"
      unfolding s(2) using True sub by (simp add: Let_def)
    have c: "colder ?b k + (if s \<le> k then ?c else 0) = colder b k" using colder_upd [of ?c b s k] by simp
    show ?thesis
    proof (cases "s \<le> k")
      case True
      have "colder b k - min p (b s + S) = colder ?b k - min (p - ?c) S" for S using c True by (auto simp: min_def split: if_splits)
      then show ?thesis unfolding step ih rest all using True by simp
    next
      case False
      then show ?thesis unfolding step ih rest all using c by simp
    qed
  qed (simp add: s(2))
qed

definition reflect :: "buckets \<Rightarrow> buckets" where
  "reflect b i = (if i < 256 then b (255 - i) else b i)"

lemma reflect_reflect [simp]: "reflect (reflect b) = b"
  by (auto simp: reflect_def fun_eq_iff)

lemma reflect_upd: "x < 256 \<Longrightarrow> reflect (b(x := v)) = (reflect b)(255 - x := v)"
  by (auto simp: reflect_def fun_eq_iff)

lemma consume_steps_reflect:
  "\<forall>s \<in> set steps. s < 256 \<Longrightarrow> consume_steps True steps b p = reflect (consume_steps False steps (reflect b) p)"
proof (induction steps arbitrary: b p)
  case (Cons s steps)
  have "reflect b s = b (255 - s)" using Cons.prems by (simp add: reflect_def)
  moreover have "reflect (b(255 - s := v)) = (reflect b)(s := v)" for v using Cons.prems reflect_upd [of "255 - s" b v] by simp
  ultimately show ?case using Cons by (simp add: Let_def)
qed simp

lemma hotter_reflect: "k < 255 \<Longrightarrow> hotter 256 b k = colder (reflect b) (254 - k)"
  unfolding hotter_def colder_def reflect_def
  by (rule sum.reindex_bij_witness [of _ "\<lambda>i. 255 - i" "\<lambda>j. 255 - j"]) auto

lemma ConsumeBucketPages_cold:
  assumes "\<forall>i. b i < 2 ^ 64" and "p < 2 ^ 64" and "k < 256"
  shows "colder (ConsumeBucketPages b p False) k = colder b k - p"
proof -
  have "(\<Sum>i \<in> {0..min k (256 - 1)}. if (256 :: nat) = 0 then 0 else b i) = colder b k"
    using assms(3) by (auto simp: colder_def atLeast0AtMost min_def)
  then show ?thesis
    using consume_steps_cold [of 0 256 b p k] assms unfolding ConsumeBucketPages_def by simp
qed

lemma ConsumeBucketPages_hot:
  assumes "\<forall>i. b i < 2 ^ 64" and "p < 2 ^ 64" and "k < 256"
  shows "hotter 256 (ConsumeBucketPages b p True) k = hotter 256 b k - p"
proof (cases "k < 255")
  case True
  have r: "ConsumeBucketPages b p True = reflect (ConsumeBucketPages (reflect b) p False)"
    unfolding ConsumeBucketPages_def by (rule consume_steps_reflect) simp
  have "colder (ConsumeBucketPages (reflect b) p False) (254 - k) = colder (reflect b) (254 - k) - p"
    using assms by (intro ConsumeBucketPages_cold) (auto simp: reflect_def)
  then show ?thesis unfolding hotter_reflect [OF True] r reflect_reflect .
next
  case False
  then have "{k<..<256} = {}" by auto
  then show ?thesis by (simp add: hotter_def)
qed

lemma consume_steps_le: "\<forall>i. b i < 2 ^ 64 \<Longrightarrow> p < 2 ^ 64 \<Longrightarrow> consume_steps hf steps b p i \<le> b i"
proof (induction steps arbitrary: b p)
  case (Cons s steps)
  let ?x = "if hf then 255 - s else s"
  let ?c = "min (b ?x) p"
  have sub: "sub64 (b ?x) ?c = b ?x - ?c" "sub64 p ?c = p - ?c" using Cons.prems by (auto intro!: sub64_eq)
  have "consume_steps hf steps (b(?x := b ?x - ?c)) (p - ?c) i \<le> (b(?x := b ?x - ?c)) i"
    using Cons.prems by (intro Cons.IH) (auto intro: le_less_trans [OF diff_le_self])
  also have "\<dots> \<le> b i" by simp
  finally show ?case using sub by (cases hf) (simp_all add: Let_def)
qed simp

text \<open>The number of worthwhile exchanges: the largest number of pages such that for some frequency there are that many local
  pages up to it and that many remote pages above it, beyond the pages already selected.\<close>

definition swap_pages :: "buckets \<Rightarrow> buckets \<Rightarrow> nat \<Rightarrow> nat \<Rightarrow> nat" where
  "swap_pages lb rb localSelected remoteSelected =
     Max ((\<lambda>k. min (colder lb k - localSelected) (hotter 256 rb k - remoteSelected)) ` {..<256})"

lemma CountPairSwapPages_eq:
  assumes "localSelected < 2 ^ 64" and "remoteSelected < 2 ^ 64"
  shows "CountPairSwapPages a l r localSelected remoteSelected =
    (if has_scan_data a l r then swap_pages (freqBuckets a l) (freqBuckets a r) localSelected remoteSelected else 0)"
proof (cases "has_scan_data a l r")
  case True
  have b: "\<forall>i. freqBuckets a n i < 2 ^ 64" for n by simp
  let ?lb = "ConsumeBucketPages (freqBuckets a l) localSelected False"
  let ?rb = "ConsumeBucketPages (freqBuckets a r) remoteSelected True"
  have le: "?lb i \<le> freqBuckets a l i" "?rb i \<le> freqBuckets a r i" for i
    unfolding ConsumeBucketPages_def by (rule consume_steps_le [OF b]; rule assms)+
  have "sum ?lb {..<256} \<le> (\<Sum>i<(256 :: nat). UINT32_MAX)"
  proof (rule sum_mono)
    fix i :: nat
    have "freqBuckets a l i \<le> UINT32_MAX" by simp
    then show "?lb i \<le> UINT32_MAX" using le(1) [of i] by (rule le_trans [rotated])
  qed
  then have sum: "0 + sum ?lb {..<256} < 2 ^ 64" by simp
  have rb: "\<forall>k. ?rb k < 2 ^ 64" using le(2) b [of r] by (meson le_less_trans)
  have val: "swap_value 256 ?lb ?rb k = min (colder (freqBuckets a l) k - localSelected) (hotter 256 (freqBuckets a r) k - remoteSelected)"
    if "k < 256" for k
    unfolding swap_value_def ConsumeBucketPages_cold [OF b assms(1) that] ConsumeBucketPages_hot [OF b assms(2) that] ..
  have best: "(\<forall>k<256. 0 + swap_value 256 ?lb ?rb k \<le> pair_buckets ?lb ?rb 0 255 0) \<and>
      (\<exists>k<256. 0 + swap_value 256 ?lb ?rb k = pair_buckets ?lb ?rb 0 255 0)"
    using sum rb by (intro pair_buckets_best) auto
  have "pair_buckets ?lb ?rb 0 255 0 = swap_pages (freqBuckets a l) (freqBuckets a r) localSelected remoteSelected"
    unfolding swap_pages_def
  proof (rule Max_eqI [symmetric])
    show "pair_buckets ?lb ?rb 0 255 0 \<in>
        (\<lambda>k. min (colder (freqBuckets a l) k - localSelected) (hotter 256 (freqBuckets a r) k - remoteSelected)) ` {..<256}"
    proof -
      obtain k where k: "k < 256" "swap_value 256 ?lb ?rb k = pair_buckets ?lb ?rb 0 255 0" using best by auto
      show ?thesis unfolding k(2) [symmetric] val [OF k(1)] using k(1) by (intro imageI) simp
    qed
  qed (use best val in auto)
  then show ?thesis using True by (simp add: CountPairSwapPages_def)
qed (simp add: CountPairSwapPages_def)


section \<open>Properties\<close>

text \<open>C12. The two-pointer count of swappable pages ends and is exact: it is the largest number of pages such that, for some
  frequency, that many local pages have at most this frequency and that many remote pages a higher one, leaving out the coldest local
  and hottest remote pages that are already selected for migration.\<close>

theorem CountPairSwapPages_best:
  assumes "localSelected < 2 ^ 64" and "remoteSelected < 2 ^ 64"
  shows "CountPairSwapPages process localNid remoteNid localSelected remoteSelected =
    (if has_scan_data process localNid remoteNid
     then Max ((\<lambda>f. min ((\<Sum>i\<le>f. freqBuckets process localNid i) - localSelected)
                         ((\<Sum>j\<in>{f<..<256}. freqBuckets process remoteNid j) - remoteSelected)) ` {..<256})
     else 0)"
  unfolding CountPairSwapPages_eq [OF assms] swap_pages_def colder_def hotter_def ..

text \<open>Ten local pages of frequency 0 and five remote pages of frequency 3.\<close>

definition demo_scan :: ProcessAttr where
  "demo_scan = ProcessAttr_zero\<lparr>pa_scanAttr := \<lparr>sc_actcLen = (\<lambda>_. 10), sc_actcData = (\<lambda>_. Some []),
     sc_actCount = (\<lambda>nid. ActCount_zero\<lparr>
       ac_freqBuckets := (\<lambda>f. if nid = 0 \<and> f = 0 then 10 else if nid = 1 \<and> f = 3 then 5 else 0)\<rparr>),
     sc_selectedBuckets = (\<lambda>_ _. 0)\<rparr>\<rparr>"

theorem CountPairSwapPages_best_witness: "CountPairSwapPages demo_scan 0 1 2 1 = 4"
proof -
  have d: "has_scan_data demo_scan 0 1" by (simp add: has_scan_data_def demo_scan_def)
  have fb: "freqBuckets demo_scan 0 = (\<lambda>f. if f = 0 then 10 else 0)" "freqBuckets demo_scan 1 = (\<lambda>f. if f = 3 then 5 else 0)"
    by (auto simp: demo_scan_def fun_eq_iff)
  have c: "(\<Sum>i\<le>f. if i = 0 then 10 else 0) = (10 :: nat)" for f :: nat by (simp add: sum.delta)
  have h: "(\<Sum>j\<in>{f<..<256}. if j = 3 then 5 else 0) = (if f < 3 then 5 else 0 :: nat)" for f :: nat by (simp add: sum.delta)
  have v: "(\<lambda>f :: nat. min (10 - 2) ((if f < 3 then 5 else 0) - 1)) = (\<lambda>f. if f < 3 then 4 else 0 :: nat)" by auto
  have "Max ((\<lambda>f :: nat. if f < 3 then 4 else 0 :: nat) ` {..<256}) = 4"
    by (rule Max_eqI) (auto simp: image_iff intro!: exI [of _ 0])
  then show ?thesis
    using CountPairSwapPages_best [of 2 1 demo_scan 0 1] d unfolding fb c h v by simp
qed

end
