(* ===== verification/Pair_Swap.thy ===== *)
theory Pair_Swap
  imports Swap_Count
begin

text \<open>
  Swap plans and the application of the plans, \<^verbatim>\<open>plugins/smap/src/user/strategy/migration.c\<close> lines 224 to
  295 and 431 to 597: how the exchanges of a pair are planned and charged, and how the plans become the
  migration matrices of the processes.

  \<^verbatim>\<open>GetProcessAttr\<close> is the search of a pid in the sequence of managed processes; the reference it
  takes is released at the end of each iteration. A stage of \<^verbatim>\<open>ApplyPairPlansForState\<close> refers to its process
  by the position in that sequence.
\<close>

abbreviation (input) PAGESIZE_2M :: nat where "PAGESIZE_2M \<equiv> 2097152"

section \<open>Swap plans\<close>

definition IsOnlyLocalForRemote :: "PairPlan list \<Rightarrow> nat \<Rightarrow> bool" where
  "IsOnlyLocalForRemote plans current \<longleftrightarrow>
     (let plan = plans ! current
      in length (filter (\<lambda>p. \<not> (pl_pid p \<noteq> pl_pid plan \<or> pl_remoteNid p \<noteq> pl_remoteNid plan \<or>
           (pl_targetPages p = 0 \<and> pl_actualPages p = 0 \<and> pl_demotePages p = 0 \<and> pl_promotePages p = 0))) plans) = 1)"

definition swap_plan_invalid :: "ProcessManager \<Rightarrow> PairPlanContext \<Rightarrow> PairPidBudget list \<Rightarrow> PairPlan \<Rightarrow> bool" where
  "swap_plan_invalid manager context pidBudgets plan \<longleftrightarrow>
     (case FindPairPidBudget pidBudgets (pl_pid plan) of
        Inl _ \<Rightarrow> True
      | Inr budgetIndex \<Rightarrow>
          (case GetProcessAttr manager (pl_pid plan) of None \<Rightarrow> True | Some process \<Rightarrow> pa_groupPolicyEnabled process) \<or>
          pl_localNid plan < 0 \<or> pl_localNid plan \<ge> pc_nrLocalNuma context \<or> pl_remoteNid plan < pc_nrLocalNuma context \<or>
          pl_remoteNid plan \<ge> int MAX_NODES \<or> \<not> IsPairPlanDirectionValid plan \<or>
          pb_plannedPages (pidBudgets ! budgetIndex) > pb_maxMigratePages (pidBudgets ! budgetIndex))"

definition selected_pages :: "PairPlan list \<Rightarrow> int \<Rightarrow> nat \<Rightarrow> nat" where
  "selected_pages plans pid =
     fold (\<lambda>p selectedFrom.
       if pl_pid p = pid then
         let selectedFrom = selectedFrom(nat (pl_localNid p) := add64 (selectedFrom (nat (pl_localNid p))) (unat (pl_demotePages p)))
         in selectedFrom(nat (pl_remoteNid p) := add64 (selectedFrom (nat (pl_remoteNid p))) (unat (pl_promotePages p)))
       else selectedFrom) plans (\<lambda>_. 0)"

definition swap_local_free :: "PairPlanContext \<Rightarrow> nat \<Rightarrow> nat" where
  "swap_local_free context nid =
     (let freePages = unat (pc_freePages context nid);
          reservePages = unat (pc_safetyReservePages context nid);
          safeCapacity = (if freePages > reservePages then sub64 freePages reservePages else 0)
      in if safeCapacity > unat (pc_plannedPages context nid) then sub64 safeCapacity (unat (pc_plannedPages context nid)) else 0)"

definition swap_pages_of ::
  "ProcessAttr \<Rightarrow> PairPlan \<Rightarrow> PairPlanContext \<Rightarrow> PairPidBudget \<Rightarrow> (nat \<Rightarrow> nat) \<Rightarrow> nat" where
  "swap_pages_of process plan context budget selectedFrom =
     (let localNid = nat (pl_localNid plan); remoteNid = nat (pl_remoteNid plan);
          localFree = swap_local_free context localNid;
          pidRemaining = sub64 (unat (pb_maxMigratePages budget)) (unat (pb_plannedPages budget));
          swapLimit = min (min localFree (pidRemaining div 2)) UINT32_MAX;
          swapPages = min (CountPairSwapPages process localNid remoteNid (selectedFrom localNid) (selectedFrom remoteNid)) swapLimit;
          extraSwapPages = CalcPairRemoteGuaranteeExtraSwap process plan (selectedFrom localNid) (selectedFrom remoteNid)
            swapPages (sub64 swapLimit swapPages)
      in add64 swapPages extraSwapPages)"

definition swap_skipped :: "forbidden \<Rightarrow> ProcessAttr \<Rightarrow> PairPlan list \<Rightarrow> nat \<Rightarrow> bool" where
  "swap_skipped g process plans i \<longleftrightarrow>
     (let plan = plans ! i
      in \<not> pa_enableSwap process \<or> IsNodeForbidden (nat (pl_remoteNid plan)) g \<or> \<not> IsOnlyLocalForRemote plans i \<or>
         (pl_targetPages plan = 0 \<and> pl_demotePages plan = 0 \<and> pl_promotePages plan = 0))"

type_synonym swap_state = "int \<times> (nat \<Rightarrow> nat) \<times> PairPlan list \<times> PairPlanContext \<times> PairPidBudget list"

fun swap_step :: "ProcessManager \<Rightarrow> forbidden \<Rightarrow> nat \<Rightarrow> swap_state \<Rightarrow> swap_state" where
  "swap_step manager g i (currentPid, selectedFrom, plans, context, pidBudgets) =
     (let plan = (plans ! i)\<lparr>pl_swapPages := 0\<rparr>; plans = plans[i := plan];
          selectedFrom = (if currentPid \<noteq> pl_pid plan then selected_pages plans (pl_pid plan) else selectedFrom);
          currentPid = pl_pid plan
      in case (GetProcessAttr manager (pl_pid plan), FindPairPidBudget pidBudgets (pl_pid plan)) of
           (Some process, Inr k) \<Rightarrow>
             if swap_skipped g process plans i then (currentPid, selectedFrom, plans, context, pidBudgets)
             else
               let localNid = nat (pl_localNid plan); remoteNid = nat (pl_remoteNid plan);
                   swapPages = swap_pages_of process plan context (pidBudgets ! k) selectedFrom;
                   selectedFrom = selectedFrom(localNid := add64 (selectedFrom localNid) swapPages);
                   selectedFrom = selectedFrom(remoteNid := add64 (selectedFrom remoteNid) swapPages)
               in (currentPid, selectedFrom, plans[i := plan\<lparr>pl_swapPages := of_nat swapPages\<rparr>],
                   context\<lparr>pc_plannedPages := (pc_plannedPages context)(localNid := pc_plannedPages context localNid + of_nat swapPages)\<rparr>,
                   pidBudgets[k := (pidBudgets ! k)\<lparr>pb_plannedPages := pb_plannedPages (pidBudgets ! k) + of_nat (swapPages * 2)\<rparr>])
         | _ \<Rightarrow> (currentPid, selectedFrom, plans, context, pidBudgets))"

text \<open>
  The last case of \<open>swap_step\<close> does not arise: the first loop has refused every plan whose process or
  budget is missing. \<^verbatim>\<open>memset_s\<close> clears an array of its own size and cannot fail.
\<close>

definition BuildPairSwapPlans ::
  "ProcessManager \<Rightarrow> forbidden \<Rightarrow> PairPlan list \<Rightarrow> PairPlanContext \<Rightarrow> PairPidBudget list \<Rightarrow>
   errno + PairPlan list \<times> PairPlanContext \<times> PairPidBudget list" where
  "BuildPairSwapPlans manager g plans context pidBudgets =
     (if length plans > MAX_PAIR_TARGET_COUNT \<or> length pidBudgets > MAX_4K_PROCESSES_CNT \<or>
         (length plans > 0 \<and> length pidBudgets = 0)
      then Inl EINVAL
      else if list_ex (swap_plan_invalid manager context pidBudgets) plans then Inl EINVAL
      else
        let (_, _, plans, context, pidBudgets) =
              fold (swap_step manager g) [0..<length plans] (-1, (\<lambda>_. 0), plans, context, pidBudgets)
        in Inr (plans, context, pidBudgets))"

section \<open>Application of the plans\<close>

record PairPlanMatrixStage =
  ms_process :: nat
  ms_pairSeen :: "nat \<Rightarrow> nat \<Rightarrow> bool"
  ms_nrMigratePages :: "nat \<Rightarrow> nat \<Rightarrow> u32"

fun FindPairPlanMatrixStage :: "ProcessManager \<Rightarrow> PairPlanMatrixStage list \<Rightarrow> int \<Rightarrow> nat option" where
  "FindPairPlanMatrixStage manager [] pid = None"
| "FindPairPlanMatrixStage manager (stage # stages) pid =
     (if pa_pid (pm_attrs manager ! ms_process stage) = pid then Some 0
      else map_option Suc (FindPairPlanMatrixStage manager stages pid))"

definition apply_one :: "PairPlan \<Rightarrow> PairPlanMatrixStage \<Rightarrow> PairPlanMatrixStage" where
  "apply_one plan stage =
     (let l = nat (pl_localNid plan); r = nat (pl_remoteNid plan); m = ms_nrMigratePages stage;
          m = m(l := (m l)(r := pl_demotePages plan + pl_swapPages plan));
          m = m(r := (m r)(l := pl_promotePages plan + pl_swapPages plan))
      in stage\<lparr>ms_pairSeen := (ms_pairSeen stage)(l := (ms_pairSeen stage l)(nat (pl_remoteIndex plan) := True)),
               ms_nrMigratePages := m\<rparr>)"

fun apply_plans :: "ProcessManager \<Rightarrow> PairPlan list \<Rightarrow> PairPlanMatrixStage list \<Rightarrow> errno + PairPlanMatrixStage list" where
  "apply_plans manager [] stages = Inr stages"
| "apply_plans manager (plan # plans) stages =
     (case FindPairPlanMatrixStage manager stages (pl_pid plan) of
        None \<Rightarrow> Inl EINVAL
      | Some s \<Rightarrow>
          if \<not> plan_valid (int (unat (pm_nrLocalNuma manager))) plan \<or>
             ms_pairSeen (stages ! s) (nat (pl_localNid plan)) (nat (pl_remoteIndex plan)) \<or> \<not> IsPairPlanDirectionValid plan
          then Inl EINVAL
          else if unat (pl_demotePages plan) > UINT32_MAX - unat (pl_swapPages plan) \<or>
                  unat (pl_promotePages plan) > UINT32_MAX - unat (pl_swapPages plan)
          then Inl EOVERFLOW
          else apply_plans manager plans (stages[s := apply_one plan (stages ! s)]))"

definition publish_stage :: "PairPlanMatrixStage \<Rightarrow> ProcessAttr list \<Rightarrow> ProcessAttr list" where
  "publish_stage stage attrs =
     attrs[ms_process stage := (attrs ! ms_process stage)\<lparr>pa_strategyAttr :=
       (pa_strategyAttr (attrs ! ms_process stage))\<lparr>sa_nrMigratePages := ms_nrMigratePages stage\<rparr>\<rparr>]"

definition migrating :: "ProcessAttr \<Rightarrow> bool" where
  "migrating process \<longleftrightarrow> \<not> (pa_scanType process \<noteq> NORMAL_SCAN \<or> pa_groupPolicyEnabled process \<or> pa_state process \<noteq> PROC_MIGRATE)"

definition ApplyPairPlansForState :: "bool \<Rightarrow> ProcessManager \<Rightarrow> PairPlan list \<Rightarrow> errno + ProcessManager" where
  "ApplyPairPlansForState callocFails manager plans =
     (if length plans > MAX_PAIR_TARGET_COUNT then Inl EINVAL
      else if callocFails then Inl ENOMEM
      else if pm_nrLocalNuma manager \<le> 0 \<or> unat (pm_nrLocalNuma manager) > LOCAL_NUMA_NUM then Inl EINVAL
      else
        let ks = filter (\<lambda>k. migrating (pm_attrs manager ! k)) [0..<length (pm_attrs manager)];
            stages = map (\<lambda>k. \<lparr>ms_process = k, ms_pairSeen = (\<lambda>_ _. False), ms_nrMigratePages = (\<lambda>_ _. 0)\<rparr>) ks
        in if length ks > MAX_4K_PROCESSES_CNT then Inl EOVERFLOW
           else case apply_plans manager plans stages of
                  Inl e \<Rightarrow> Inl e
                | Inr stages \<Rightarrow> Inr (manager\<lparr>pm_attrs := fold publish_stage stages (pm_attrs manager)\<rparr>))"

text \<open>
  The argument \<open>allocFails\<close> of \<open>BuildAllPairPlans\<close> tells which of the allocations of the call fail: its own arrays
  and those of the three functions it calls. With \<^verbatim>\<open>planCap\<close> 0 the array of inputs is the null pointer, which
  \<^verbatim>\<open>BuildAllPairPlanInputsForState\<close> refuses.
\<close>

definition BuildAllPairPlans ::
  "(nat \<Rightarrow> bool) \<Rightarrow> (nat \<Rightarrow> u64) \<Rightarrow> (nat \<Rightarrow> u64) \<Rightarrow> forbidden \<Rightarrow> ProcessManager \<Rightarrow> nat \<Rightarrow> (errno + PairPlan list) \<times> ProcessManager" where
  "BuildAllPairPlans allocFails nrFreePages nrFreeHugePages g manager planCap =
     (if planCap > MAX_PAIR_TARGET_COUNT then (Inl EINVAL, manager)
      else if allocFails 0 then (Inl ENOMEM, manager)
      else if planCap = 0 then (Inl EINVAL, manager)
      else
        case CollectNodeFreeSnapshot nrFreePages nrFreeHugePages (unat (pm_pageSize manager) = PAGESIZE_2M)
               (int (unat (pm_nrLocalNuma manager))) of
          Inl e \<Rightarrow> (Inl e, manager)
        | Inr context \<Rightarrow>
            case BuildAllPairPlanInputsForState (allocFails 1) manager planCap MAX_4K_PROCESSES_CNT True of
              (Inl e, manager) \<Rightarrow> (Inl e, manager)
            | (Inr (inputs, pidBudgets), manager) \<Rightarrow>
                let inputs = filter (\<lambda>input. \<not> IsNodeForbidden (nat (pl_remoteNid input)) g) inputs
                in case BuildPairPlans (allocFails 2) inputs context pidBudgets planCap of
                     Inl e \<Rightarrow> (Inl e, manager)
                   | Inr (stagedPlans, context, pidBudgets) \<Rightarrow>
                       case BuildPairSwapPlans manager g stagedPlans context pidBudgets of
                         Inl e \<Rightarrow> (Inl e, manager)
                       | Inr (stagedPlans, context, pidBudgets) \<Rightarrow>
                           case ApplyPairPlansForState (allocFails 3) manager stagedPlans of
                             Inl e \<Rightarrow> (Inl e, manager)
                           | Inr manager \<Rightarrow> (Inr stagedPlans, manager))"


section \<open>Swap plans are safe\<close>

lemma swap_local_free_eq: "swap_local_free c l = safe_free c l"
proof -
  let ?f = "unat (pc_freePages c l)" and ?r = "unat (pc_safetyReservePages c l)"
  have "sub64 ?f ?r = ?f - ?r" if "?f > ?r" using that by (intro sub64_eq) auto
  then have cap: "(if ?f > ?r then sub64 ?f ?r else 0) = ?f - ?r" by auto
  have "?f - ?r < 2 ^ 64" by (auto intro: le_less_trans [OF diff_le_self])
  then show ?thesis unfolding swap_local_free_def Let_def cap safe_free_eq by (auto simp: sub64_eq not_less)
qed

lemma CalcPairRemoteGuaranteeExtraSwap_le: "CalcPairRemoteGuaranteeExtraSwap a p ls rs base budget \<le> budget"
  unfolding CalcPairRemoteGuaranteeExtraSwap_def Let_def by (auto intro: min.coboundedI2)

lemma swap_pages_of_le:
  assumes "pb_plannedPages b \<le> pb_maxMigratePages b"
  shows "swap_pages_of a p c b sel \<le> safe_free c (destination p)"
    and "2 * swap_pages_of a p c b sel \<le> unat (pb_maxMigratePages b) - unat (pb_plannedPages b)"
    and "swap_pages_of a p c b sel \<le> UINT32_MAX"
proof -
  let ?rem = "unat (pb_maxMigratePages b) - unat (pb_plannedPages b)"
  have rem: "sub64 (unat (pb_maxMigratePages b)) (unat (pb_plannedPages b)) = ?rem"
    using assms by (intro sub64_eq) (auto simp: word_le_nat_alt)
  define lim where "lim = min (min (safe_free c (destination p)) (?rem div 2)) UINT32_MAX"
  obtain x e where v: "swap_pages_of a p c b sel = add64 (min x lim) e" and e: "e \<le> sub64 lim (min x lim)"
    unfolding swap_pages_of_def Let_def rem swap_local_free_eq destination_def [symmetric] lim_def [symmetric]
    using CalcPairRemoteGuaranteeExtraSwap_le by blast
  have l32: "lim \<le> UINT32_MAX" by (simp add: lim_def)
  have "sub64 lim (min x lim) = lim - min x lim" using l32 by (intro sub64_eq) auto
  then have "min x lim + e \<le> lim" using e by simp
  moreover from this l32 have "add64 (min x lim) e = min x lim + e" by (intro add64_eq) simp
  ultimately have le: "swap_pages_of a p c b sel \<le> lim" using v by simp
  then show "swap_pages_of a p c b sel \<le> safe_free c (destination p)" "swap_pages_of a p c b sel \<le> UINT32_MAX"
    by (simp_all add: lim_def)
  have "swap_pages_of a p c b sel \<le> ?rem div 2" using le by (simp add: lim_def)
  then show "2 * swap_pages_of a p c b sel \<le> ?rem" by linarith
qed

definition swapped_by :: "int \<Rightarrow> PairPlan list \<Rightarrow> nat" where
  "swapped_by pid ps = (\<Sum>p\<leftarrow>ps. if pl_pid p = pid then unat (pl_swapPages p) else 0)"

definition swapped_at :: "nat \<Rightarrow> PairPlan list \<Rightarrow> nat" where
  "swapped_at l ps = (\<Sum>p\<leftarrow>ps. if destination p = l then unat (pl_swapPages p) else 0)"

definition swap_only :: "PairPlan \<Rightarrow> PairPlan \<Rightarrow> bool" where
  "swap_only p p' \<longleftrightarrow> p' = p\<lparr>pl_swapPages := pl_swapPages p'\<rparr>"

definition budgets_swapped :: "PairPidBudget list \<Rightarrow> PairPlan list \<Rightarrow> PairPidBudget list \<Rightarrow> bool" where
  "budgets_swapped bs ps bs' \<longleftrightarrow> list_all2 (\<lambda>b b'. pb_pid b' = pb_pid b \<and> pb_maxMigratePages b' = pb_maxMigratePages b \<and>
     unat (pb_plannedPages b') = unat (pb_plannedPages b) + 2 * swapped_by (pb_pid b) ps \<and>
     unat (pb_plannedPages b') \<le> unat (pb_maxMigratePages b')) bs bs'"

definition context_swapped :: "PairPlanContext \<Rightarrow> PairPlan list \<Rightarrow> PairPlanContext \<Rightarrow> bool" where
  "context_swapped c ps c' \<longleftrightarrow> pc_nrLocalNuma c' = pc_nrLocalNuma c \<and> pc_freePages c' = pc_freePages c \<and>
     pc_safetyReservePages c' = pc_safetyReservePages c \<and>
     (\<forall>l. unat (pc_plannedPages c' l) = unat (pc_plannedPages c l) + swapped_at l ps \<and> swapped_at l ps \<le> safe_free c l)"

text \<open>A swap is planned only for a process that allows it, on an enabled remote node that no other local node of the process
  uses.\<close>

definition swap_allowed :: "ProcessManager \<Rightarrow> forbidden \<Rightarrow> PairPlan list \<Rightarrow> nat \<Rightarrow> bool" where
  "swap_allowed m g ps i \<longleftrightarrow> (\<exists>a. GetProcessAttr m (pl_pid (ps ! i)) = Some a \<and> pa_enableSwap a) \<and>
     \<not> IsNodeForbidden (nat (pl_remoteNid (ps ! i))) g \<and> IsOnlyLocalForRemote ps i"

lemma swap_only_ids:
  assumes "swap_only p p'"
  shows "pl_pid p' = pl_pid p" "pl_localNid p' = pl_localNid p" "pl_remoteNid p' = pl_remoteNid p" "pl_remoteIndex p' = pl_remoteIndex p"
    "pl_targetPages p' = pl_targetPages p" "pl_actualPages p' = pl_actualPages p" "pl_demotePages p' = pl_demotePages p"
    "pl_promotePages p' = pl_promotePages p" "destination p' = destination p" "plan_valid n p' = plan_valid n p"
    "planned p' = planned p" "plan_key p' = plan_key p" "IsPairPlanDirectionValid p' = IsPairPlanDirectionValid p"
proof -
  obtain s where "p' = p\<lparr>pl_swapPages := s\<rparr>" using assms unfolding swap_only_def by blast
  then show "pl_pid p' = pl_pid p" "pl_localNid p' = pl_localNid p" "pl_remoteNid p' = pl_remoteNid p" "pl_remoteIndex p' = pl_remoteIndex p"
    "pl_targetPages p' = pl_targetPages p" "pl_actualPages p' = pl_actualPages p" "pl_demotePages p' = pl_demotePages p"
    "pl_promotePages p' = pl_promotePages p" "destination p' = destination p" "plan_valid n p' = plan_valid n p"
    "planned p' = planned p" "plan_key p' = plan_key p" "IsPairPlanDirectionValid p' = IsPairPlanDirectionValid p"
    by (simp_all add: destination_def plan_valid_def planned_def plan_key_def IsPairPlanDirectionValid_def)
qed

lemma IsOnlyLocalForRemote_cong:
  assumes "list_all2 swap_only ps ps'" and "i < length ps"
  shows "IsOnlyLocalForRemote ps' i = IsOnlyLocalForRemote ps i"
proof -
  have f: "length (filter P ps') = length (filter P ps)" if "\<And>p p'. swap_only p p' \<Longrightarrow> P p' = P p" for P
    using assms(1) that by (induction rule: list_all2_induct) auto
  have i: "swap_only (ps ! i) (ps' ! i)" using assms by (simp add: list_all2_conv_all_nth)
  show ?thesis unfolding IsOnlyLocalForRemote_def Let_def
    by (subst f) (auto simp: swap_only_ids [OF i] swap_only_ids)
qed

text \<open>What one iteration does to the plans, the context and the budgets.\<close>

lemma swap_step_effect:
  assumes bs: "budgets_ok bs" and k: "FindPairPidBudget bs (pl_pid (ps ! i)) = Inr k" and i: "i < length ps"
    and res: "swap_step m g i (cur, sel, ps, c, bs) = (cur', sel', ps', c', bs')"
  obtains x where "ps' = ps[i := (ps ! i)\<lparr>pl_swapPages := of_nat x\<rparr>]" and "x \<le> UINT32_MAX" and "x \<le> safe_free c (destination (ps ! i))"
    and "2 * x \<le> unat (pb_maxMigratePages (bs ! k)) - unat (pb_plannedPages (bs ! k))"
    and "c' = c\<lparr>pc_plannedPages := (pc_plannedPages c)(destination (ps ! i) := pc_plannedPages c (destination (ps ! i)) + of_nat x)\<rparr>"
    and "bs' = bs[k := (bs ! k)\<lparr>pb_plannedPages := pb_plannedPages (bs ! k) + of_nat (x * 2)\<rparr>]"
    and "x \<noteq> 0 \<Longrightarrow> swap_allowed m g (ps[i := (ps ! i)\<lparr>pl_swapPages := 0\<rparr>]) i"
proof -
  let ?p = "(ps ! i)\<lparr>pl_swapPages := 0\<rparr>"
  let ?ps = "ps[i := ?p]"
  have kk: "k < length bs" "pb_pid (bs ! k) = pl_pid (ps ! i)" using k bs FindPairPidBudget_eq(1) by (auto simp: budgets_ok_def)
  have ok: "pb_plannedPages (bs ! k) \<le> pb_maxMigratePages (bs ! k)" using bs kk(1) by (simp add: budgets_ok_def)
  show ?thesis
  proof (cases "\<exists>a. GetProcessAttr m (pl_pid (ps ! i)) = Some a \<and> \<not> swap_skipped g a ?ps i")
    case False
    have "ps' = ?ps" "c' = c" "bs' = bs"
      using res False k i by (auto simp: Let_def split: option.splits if_splits)
    then show ?thesis by (intro that [of 0]) auto
  next
    case True
    then obtain a where a: "GetProcessAttr m (pl_pid (ps ! i)) = Some a" "\<not> swap_skipped g a ?ps i" by blast
    obtain s where r: "ps' = ?ps[i := ?p\<lparr>pl_swapPages := of_nat (swap_pages_of a ?p c (bs ! k) s)\<rparr>]"
      "c' = c\<lparr>pc_plannedPages := (pc_plannedPages c)(destination ?p := pc_plannedPages c (destination ?p) + of_nat (swap_pages_of a ?p c (bs ! k) s))\<rparr>"
      "bs' = bs[k := (bs ! k)\<lparr>pb_plannedPages := pb_plannedPages (bs ! k) + of_nat (swap_pages_of a ?p c (bs ! k) s * 2)\<rparr>]"
      using res a k i by (auto simp: Let_def destination_def)
    note le = swap_pages_of_le [OF ok, where a = a and p = ?p and c = c and sel = s]
    have d: "destination ?p = destination (ps ! i)" by (simp add: destination_def)
    have al: "swap_allowed m g ?ps i" using a i by (auto simp: swap_allowed_def swap_skipped_def Let_def)
    show ?thesis by (rule that [of "swap_pages_of a ?p c (bs ! k) s"]) (use r le al i d in auto)
  qed
qed


lemma swap_only_trans: "swap_only p p' \<Longrightarrow> swap_only p (p'\<lparr>pl_swapPages := s\<rparr>)"
proof -
  assume "swap_only p p'"
  then obtain t where "p' = p\<lparr>pl_swapPages := t\<rparr>" unfolding swap_only_def by blast
  then show ?thesis by (simp add: swap_only_def)
qed

lemma swap_only_upd: "swap_only p p" "swap_only p (p\<lparr>pl_swapPages := s\<rparr>)" "swap_only (p\<lparr>pl_swapPages := t\<rparr>) (p\<lparr>pl_swapPages := s\<rparr>)"
  by (simp_all add: swap_only_def)

lemma swap_only_update:
  assumes "list_all2 swap_only ps0 ps" and "swap_only (ps0 ! k) p" and "k < length ps"
  shows "list_all2 swap_only ps0 (ps[k := p])"
  unfolding list_all2_conv_all_nth
proof (intro conjI allI impI)
  fix i
  assume "i < length ps0"
  then show "swap_only (ps0 ! i) (ps[k := p] ! i)" using assms by (cases "i = k") (simp_all add: list_all2_conv_all_nth)
qed (use assms in \<open>simp add: list_all2_lengthD\<close>)

lemma swap_only_list: "list_all2 swap_only ps ps"
  by (simp add: list.rel_refl swap_only_upd)

lemma swap_budget:
  assumes ch: "budgets_swapped bs ps bs1" and ok: "budgets_ok bs1" and k: "k < length bs1" "pb_pid (bs1 ! k) = pl_pid p"
    and x: "2 * unat (pl_swapPages p) \<le> unat (pb_maxMigratePages (bs1 ! k)) - unat (pb_plannedPages (bs1 ! k))"
  shows "budgets_swapped bs (ps @ [p]) (bs1[k := (bs1 ! k)\<lparr>pb_plannedPages := pb_plannedPages (bs1 ! k) + of_nat (unat (pl_swapPages p) * 2)\<rparr>])"
proof -
  let ?x = "unat (pl_swapPages p) * 2"
  have le: "unat (pb_plannedPages (bs1 ! k)) \<le> unat (pb_maxMigratePages (bs1 ! k))"
    using ok k(1) by (simp add: budgets_ok_def word_le_nat_alt)
  then have "unat (pb_plannedPages (bs1 ! k)) + ?x \<le> unat (pb_maxMigratePages (bs1 ! k))" using x by linarith
  note u = this unat_add_le [OF this]
  have "pb_pid (bs1 ! i) \<noteq> pb_pid (bs1 ! k)" if "i < length bs1" "i \<noteq> k" for i
    using ok that k(1) by (simp add: budgets_ok_def distinct_conv_nth)
  then have other: "pb_pid (bs1 ! i) \<noteq> pl_pid p" if "i < length bs1" "i \<noteq> k" for i using that unfolding k(2) .
  have s: "swapped_by pid (ps @ [p]) = swapped_by pid ps + (if pl_pid p = pid then unat (pl_swapPages p) else 0)" for pid
    by (simp add: swapped_by_def)
  show ?thesis
    unfolding budgets_swapped_def list_all2_conv_all_nth
  proof (intro conjI allI impI)
    show "length bs = length (bs1[k := (bs1 ! k)\<lparr>pb_plannedPages := pb_plannedPages (bs1 ! k) + of_nat ?x\<rparr>])"
      using ch by (simp add: budgets_swapped_def list_all2_lengthD)
    fix i
    assume "i < length bs"
    let ?b' = "bs1[k := (bs1 ! k)\<lparr>pb_plannedPages := pb_plannedPages (bs1 ! k) + of_nat ?x\<rparr>] ! i"
    have i: "i < length bs1" and old: "pb_pid (bs1 ! i) = pb_pid (bs ! i)" "pb_maxMigratePages (bs1 ! i) = pb_maxMigratePages (bs ! i)"
      "unat (pb_plannedPages (bs1 ! i)) = unat (pb_plannedPages (bs ! i)) + 2 * swapped_by (pb_pid (bs ! i)) ps"
      "unat (pb_plannedPages (bs1 ! i)) \<le> unat (pb_maxMigratePages (bs1 ! i))"
      using ch \<open>i < length bs\<close> by (auto simp: budgets_swapped_def list_all2_conv_all_nth)
    show "pb_pid ?b' = pb_pid (bs ! i)" "pb_maxMigratePages ?b' = pb_maxMigratePages (bs ! i)" using i old by (cases "i = k"; simp)+
    show "unat (pb_plannedPages ?b') = unat (pb_plannedPages (bs ! i)) + 2 * swapped_by (pb_pid (bs ! i)) (ps @ [p])"
    proof (cases "i = k")
      case True
      have "unat (pb_plannedPages ?b') = unat (pb_plannedPages (bs1 ! k)) + ?x" using True k(1) u(2) by simp
      then show ?thesis using True k(2) old by (simp add: s)
    next
      case False
      then show ?thesis using other [OF i] old by (simp add: s)
    qed
    show "unat (pb_plannedPages ?b') \<le> unat (pb_maxMigratePages ?b')" using i old(4) u by (cases "i = k") auto
  qed
qed

lemma budgets_swapped_ok: "budgets_ok bs \<Longrightarrow> budgets_swapped bs ps bs' \<Longrightarrow> budgets_ok bs' \<and> map pb_pid bs' = map pb_pid bs"
proof -
  assume bs: "budgets_ok bs" and ch: "budgets_swapped bs ps bs'"
  have "map pb_pid bs' = map pb_pid bs" using ch
    by (auto simp: budgets_swapped_def list_all2_conv_all_nth intro: nth_equalityI)
  then show ?thesis using bs ch
    by (auto simp: budgets_ok_def budgets_swapped_def list_all2_conv_all_nth in_set_conv_nth word_le_nat_alt)
qed

lemma swap_context:
  assumes ch: "context_swapped c ps c1" and x: "unat (pl_swapPages p) \<le> safe_free c1 (destination p)"
  shows "context_swapped c (ps @ [p]) (c1\<lparr>pc_plannedPages := (pc_plannedPages c1)(destination p :=
    pc_plannedPages c1 (destination p) + of_nat (unat (pl_swapPages p)))\<rparr>)"
proof -
  let ?x = "unat (pl_swapPages p)" and ?d = "destination p"
  have s: "swapped_at l (ps @ [p]) = swapped_at l ps + (if ?d = l then ?x else 0)" for l by (simp add: swapped_at_def)
  have old: "unat (pc_plannedPages c1 l) = unat (pc_plannedPages c l) + swapped_at l ps" "swapped_at l ps \<le> safe_free c l"
    and f: "pc_freePages c1 = pc_freePages c" "pc_safetyReservePages c1 = pc_safetyReservePages c" "pc_nrLocalNuma c1 = pc_nrLocalNuma c" for l
    using ch by (simp_all add: context_swapped_def)
  have free: "safe_free c1 l = safe_free c l - swapped_at l ps" for l unfolding safe_free_eq f old(1) by simp
  have "unat (pc_plannedPages c1 ?d + of_nat ?x) = unat (pc_plannedPages c1 ?d) + ?x"
  proof (cases "?x = 0")
    case False
    then have "unat (pc_plannedPages c1 ?d) + ?x \<le> unat (pc_freePages c1 ?d)" using x unfolding safe_free_eq by linarith
    then show ?thesis by (rule unat_add_le)
  qed (simp add: unat_eq_0)
  moreover have "swapped_at ?d ps + ?x \<le> safe_free c ?d" using x old(2) [of ?d] unfolding free by linarith
  ultimately show ?thesis using old f unfolding context_swapped_def s by auto
qed

text \<open>The loop invariant: the first \<open>k\<close> plans have their swap pages and are charged for.\<close>

definition swap_inv ::
  "ProcessManager \<Rightarrow> forbidden \<Rightarrow> PairPlan list \<Rightarrow> PairPlanContext \<Rightarrow> PairPidBudget list \<Rightarrow> nat \<Rightarrow> swap_state \<Rightarrow> bool" where
  "swap_inv m g ps0 c0 bs0 k = (\<lambda>(cur, sel, ps, c, bs).
     list_all2 swap_only ps0 ps \<and> budgets_swapped bs0 (take k ps) bs \<and> context_swapped c0 (take k ps) c \<and>
     (\<forall>i<k. pl_swapPages (ps ! i) \<noteq> 0 \<longrightarrow> swap_allowed m g ps i))"

lemma swap_allowed_cong:
  assumes "list_all2 swap_only ps ps'" and "i < length ps"
  shows "swap_allowed m g ps' i = swap_allowed m g ps i"
proof -
  have i: "swap_only (ps ! i) (ps' ! i)" using assms by (simp add: list_all2_conv_all_nth)
  show ?thesis unfolding swap_allowed_def IsOnlyLocalForRemote_cong [OF assms] swap_only_ids [OF i] ..
qed

lemma swap_step_inv:
  assumes inv: "swap_inv m g ps0 c0 bs0 k st" and k: "k < length ps0" and bs0: "budgets_ok bs0"
    and pid: "pl_pid (ps0 ! k) \<in> pb_pid ` set bs0"
  shows "swap_inv m g ps0 c0 bs0 (Suc k) (swap_step m g k st)"
proof -
  obtain cur sel ps c bs where st: "st = (cur, sel, ps, c, bs)" by (metis prod_cases5)
  obtain cur' sel' ps' c' bs' where st': "swap_step m g k st = (cur', sel', ps', c', bs')" by (metis prod_cases5)
  have same: "list_all2 swap_only ps0 ps" and b: "budgets_swapped bs0 (take k ps) bs" and cx: "context_swapped c0 (take k ps) c"
    and al: "\<forall>i<k. pl_swapPages (ps ! i) \<noteq> 0 \<longrightarrow> swap_allowed m g ps i"
    using inv by (simp_all add: st swap_inv_def)
  have len: "length ps = length ps0" using same by (simp add: list_all2_lengthD)
  have ok: "budgets_ok bs" and pids: "map pb_pid bs = map pb_pid bs0" using budgets_swapped_ok [OF bs0 b] by auto
  have p: "swap_only (ps0 ! k) (ps ! k)" using same k by (simp add: list_all2_conv_all_nth)
  have "pl_pid (ps ! k) \<in> pb_pid ` set bs" using pid pids by (metis set_map swap_only_ids(1) [OF p])
  then obtain j where j': "j < length bs" "pb_pid (bs ! j) = pl_pid (ps ! k)" by (metis imageE in_set_conv_nth)
  then have j: "FindPairPidBudget bs (pl_pid (ps ! k)) = Inr j" "j < length bs" "pb_pid (bs ! j) = pl_pid (ps ! k)"
    using FindPairPidBudget_eq(1) ok by (simp_all add: budgets_ok_def)
  have kl: "k < length ps" using k len by simp
  from swap_step_effect [OF ok j(1) kl st' [unfolded st]] obtain x where
    ps': "ps' = ps[k := (ps ! k)\<lparr>pl_swapPages := of_nat x\<rparr>]" and x: "x \<le> UINT32_MAX" "x \<le> safe_free c (destination (ps ! k))"
    "2 * x \<le> unat (pb_maxMigratePages (bs ! j)) - unat (pb_plannedPages (bs ! j))"
    and c': "c' = c\<lparr>pc_plannedPages := (pc_plannedPages c)(destination (ps ! k) := pc_plannedPages c (destination (ps ! k)) + of_nat x)\<rparr>"
    and bs': "bs' = bs[j := (bs ! j)\<lparr>pb_plannedPages := pb_plannedPages (bs ! j) + of_nat (x * 2)\<rparr>]"
    and new: "x \<noteq> 0 \<Longrightarrow> swap_allowed m g (ps[k := (ps ! k)\<lparr>pl_swapPages := 0\<rparr>]) k" by blast
  let ?p = "(ps ! k)\<lparr>pl_swapPages := of_nat x\<rparr>"
  have u: "unat (pl_swapPages ?p) = x" using unat_of_nat_u32 [OF x(1)] by simp
  have take: "take (Suc k) ps' = take k ps @ [?p]" using kl by (simp add: ps' take_Suc_conv_app_nth)
  have d: "destination ?p = destination (ps ! k)" "pl_pid ?p = pl_pid (ps ! k)" by (simp_all add: destination_def)
  have l2: "list_all2 swap_only ps ps'" "list_all2 swap_only ps0 ps'"
    unfolding ps' by (rule swap_only_update; rule swap_only_list same swap_only_upd swap_only_trans [OF p] kl)+
  have "budgets_swapped bs0 (take (Suc k) ps') bs'"
    unfolding take bs' using swap_budget [OF b ok j(2), of ?p] j(3) x(3) unfolding u d by simp
  moreover have "context_swapped c0 (take (Suc k) ps') c'"
    unfolding take c' using swap_context [OF cx, of ?p] x(2) unfolding u d by simp
  moreover have "swap_allowed m g ps' i" if i: "i < Suc k" "pl_swapPages (ps' ! i) \<noteq> 0" for i
  proof (cases "i = k")
    case False
    then have "swap_allowed m g ps i" using al i by (simp add: ps')
    then show ?thesis using swap_allowed_cong [OF l2(1), of i] i kl by simp
  next
    case True
    then have "x \<noteq> 0" using i kl by (cases "x = 0") (auto simp: ps')
    have "list_all2 swap_only (ps[k := (ps ! k)\<lparr>pl_swapPages := 0\<rparr>]) (ps[k := (ps ! k)\<lparr>pl_swapPages := 0\<rparr>, k := ?p])"
      using kl by (intro swap_only_update swap_only_list) (simp_all add: swap_only_upd)
    then have "list_all2 swap_only (ps[k := (ps ! k)\<lparr>pl_swapPages := 0\<rparr>]) ps'" by (simp add: ps')
    from swap_allowed_cong [OF this, of k] show ?thesis using new [OF \<open>x \<noteq> 0\<close>] kl True by simp
  qed
  ultimately show ?thesis using l2(2) by (simp add: swap_inv_def st')
qed

lemma BuildPairSwapPlans_gen:
  assumes res: "BuildPairSwapPlans m g ps c bs = Inr (ps', c', bs')" and ok: "budgets_ok bs"
  shows "list_all2 swap_only ps ps'" and "budgets_swapped bs ps' bs'" and "context_swapped c ps' c'"
    and "i < length ps' \<Longrightarrow> pl_swapPages (ps' ! i) \<noteq> 0 \<Longrightarrow> swap_allowed m g ps' i"
proof -
  obtain cur sel where run: "fold (swap_step m g) [0..<length ps] (-1, (\<lambda>_. 0), ps, c, bs) = (cur, sel, ps', c', bs')"
    and valid: "\<not> list_ex (swap_plan_invalid m c bs) ps"
    using res by (auto simp: BuildPairSwapPlans_def Let_def split: if_splits prod.splits)
  have pid: "pl_pid (ps ! k) \<in> pb_pid ` set bs" if "k < length ps" for k
  proof -
    have "ps ! k \<in> set ps" using that by simp
    then have "\<not> swap_plan_invalid m c bs (ps ! k)" using valid by (simp add: list_ex_iff)
    then obtain j where "FindPairPidBudget bs (pl_pid (ps ! k)) = Inr j"
      by (cases "FindPairPidBudget bs (pl_pid (ps ! k))") (auto simp: swap_plan_invalid_def)
    then show ?thesis using FindPairPidBudget_eq(1) ok by (metis budgets_ok_def image_eqI nth_mem)
  qed
  have start: "swap_inv m g ps c bs 0 (-1, (\<lambda>_. 0), ps, c, bs)"
    using ok by (auto simp: swap_inv_def budgets_swapped_def context_swapped_def swapped_by_def swapped_at_def budgets_ok_def
        word_le_nat_alt list_all2_conv_all_nth swap_only_def)
  have "swap_inv m g ps c bs k (fold (swap_step m g) [0..<k] (-1, (\<lambda>_. 0), ps, c, bs))" if "k \<le> length ps" for k
    using that by (induction k) (use start swap_step_inv [OF _ _ ok pid] in auto)
  from this [of "length ps"] have inv: "swap_inv m g ps c bs (length ps) (cur, sel, ps', c', bs')" unfolding run by simp
  then have "length ps' = length ps" by (auto simp: swap_inv_def list_all2_lengthD)
  then show "list_all2 swap_only ps ps'" "budgets_swapped bs ps' bs'" "context_swapped c ps' c'"
    "i < length ps' \<Longrightarrow> pl_swapPages (ps' ! i) \<noteq> 0 \<Longrightarrow> swap_allowed m g ps' i"
    using inv by (auto simp: swap_inv_def)
qed


section \<open>The applied plans\<close>

text \<open>The migration matrix that the plans of a process describe.\<close>

definition plan_matrix :: "PairPlan list \<Rightarrow> int \<Rightarrow> (nat \<Rightarrow> nat \<Rightarrow> u32) \<Rightarrow> nat \<Rightarrow> nat \<Rightarrow> u32" where
  "plan_matrix ps pid = fold (\<lambda>p m. if pl_pid p = pid
     then ms_nrMigratePages (apply_one p \<lparr>ms_process = 0, ms_pairSeen = (\<lambda>_ _. False), ms_nrMigratePages = m\<rparr>) else m) ps"

lemma FindPairPlanMatrixStage_Some:
  "FindPairPlanMatrixStage m stages pid = Some s \<Longrightarrow>
    s < length stages \<and> pa_pid (pm_attrs m ! ms_process (stages ! s)) = pid \<and>
    (\<forall>j. j < s \<longrightarrow> pa_pid (pm_attrs m ! ms_process (stages ! j)) \<noteq> pid)"
proof (induction stages arbitrary: s)
  case (Cons st stages)
  show ?case
  proof (cases "pa_pid (pm_attrs m ! ms_process st) = pid")
    case False
    then obtain s' where "s = Suc s'" "FindPairPlanMatrixStage m stages pid = Some s'" using Cons.prems by auto
    then show ?thesis using Cons.IH [of s'] False by (auto simp: less_Suc_eq_0_disj)
  qed (use Cons.prems in auto)
qed simp

lemma apply_one_frame [simp]: "ms_process (apply_one p st) = ms_process st"
  by (simp add: apply_one_def Let_def)

lemma apply_one_matrix:
  "ms_nrMigratePages (apply_one p st) =
    ms_nrMigratePages (apply_one p \<lparr>ms_process = 0, ms_pairSeen = (\<lambda>_ _. False), ms_nrMigratePages = ms_nrMigratePages st\<rparr>)"
  by (simp add: apply_one_def Let_def)

lemma apply_plans_Inr:
  assumes "apply_plans m ps stages = Inr stages'" and "distinct (map (\<lambda>st. pa_pid (pm_attrs m ! ms_process st)) stages)"
  shows "map ms_process stages' = map ms_process stages \<and>
    (\<forall>s<length stages. ms_nrMigratePages (stages' ! s) =
      plan_matrix ps (pa_pid (pm_attrs m ! ms_process (stages ! s))) (ms_nrMigratePages (stages ! s)))"
  using assms
proof (induction ps arbitrary: stages)
  case (Cons p ps)
  let ?pid = "\<lambda>st. pa_pid (pm_attrs m ! ms_process st)"
  from Cons.prems(1) obtain s where s: "FindPairPlanMatrixStage m stages (pl_pid p) = Some s"
    and rec: "apply_plans m ps (stages[s := apply_one p (stages ! s)]) = Inr stages'"
    by (auto split: option.splits if_splits)
  let ?st = "stages[s := apply_one p (stages ! s)]"
  note sl = FindPairPlanMatrixStage_Some [OF s]
  have pr: "map ms_process ?st = map ms_process stages" using sl by (simp add: map_update list_update_same_conv)
  have pids: "map ?pid sts = map (\<lambda>k. pa_pid (pm_attrs m ! k)) (map ms_process sts)" for sts by simp
  have "map ?pid ?st = map ?pid stages" unfolding pids pr ..
  then have ih: "map ms_process stages' = map ms_process ?st" "\<forall>i<length ?st. ms_nrMigratePages (stages' ! i) =
      plan_matrix ps (?pid (?st ! i)) (ms_nrMigratePages (?st ! i))" using Cons.IH [OF rec] Cons.prems(2) by auto
  have "ms_nrMigratePages (stages' ! i) = plan_matrix (p # ps) (?pid (stages ! i)) (ms_nrMigratePages (stages ! i))"
    if i: "i < length stages" for i
  proof (cases "i = s")
    case True
    then show ?thesis using ih(2) i sl apply_one_matrix [of p "stages ! s"] by (simp add: plan_matrix_def)
  next
    case False
    then have "?pid (stages ! i) \<noteq> ?pid (stages ! s)" using nth_eq_iff_index_eq [OF Cons.prems(2), of i s] i sl by simp
    then have "pl_pid p \<noteq> ?pid (stages ! i)" using sl by simp
    then show ?thesis using ih(2) i False by (simp add: plan_matrix_def)
  qed
  then show ?case using ih(1) pr by simp
qed (simp add: plan_matrix_def)

lemma publish_stage_length [simp]: "length (publish_stage st attrs) = length attrs"
  by (simp add: publish_stage_def)

lemma fold_publish_nth:
  assumes "distinct (map ms_process stages)" and "k < length attrs"
  shows "fold publish_stage stages attrs ! k =
    (case find (\<lambda>st. ms_process st = k) stages of None \<Rightarrow> attrs ! k
     | Some st \<Rightarrow> (attrs ! k)\<lparr>pa_strategyAttr := (pa_strategyAttr (attrs ! k))\<lparr>sa_nrMigratePages := ms_nrMigratePages st\<rparr>\<rparr>)"
  using assms
proof (induction stages arbitrary: attrs)
  case (Cons st stages)
  have none: "find (\<lambda>s. ms_process s = k) stages = None" if "ms_process st = k"
  proof -
    have "k \<notin> ms_process ` set stages" using Cons.prems(1) that by simp
    then show ?thesis by (auto simp: find_None_iff)
  qed
  have "publish_stage st attrs ! k = (if ms_process st = k
      then (attrs ! k)\<lparr>pa_strategyAttr := (pa_strategyAttr (attrs ! k))\<lparr>sa_nrMigratePages := ms_nrMigratePages st\<rparr>\<rparr> else attrs ! k)"
    using Cons.prems(2) by (simp add: publish_stage_def)
  then show ?case using Cons none by (auto split: option.split)
qed simp

definition with_matrix :: "ProcessAttr \<Rightarrow> (nat \<Rightarrow> nat \<Rightarrow> u32) \<Rightarrow> ProcessAttr" where
  "with_matrix a M = a\<lparr>pa_strategyAttr := (pa_strategyAttr a)\<lparr>sa_nrMigratePages := M\<rparr>\<rparr>"

lemma ApplyPairPlansForState_gen:
  assumes res: "ApplyPairPlansForState f m ps = Inr m'" and dist: "distinct (map pa_pid (pm_attrs m))"
  shows "m' = m\<lparr>pm_attrs := map (\<lambda>a. if migrating a then with_matrix a (plan_matrix ps (pa_pid a) (\<lambda>_ _. 0)) else a) (pm_attrs m)\<rparr>"
proof -
  let ?attrs = "pm_attrs m"
  let ?ks = "filter (\<lambda>k. migrating (?attrs ! k)) [0..<length ?attrs]"
  let ?init = "\<lambda>k. \<lparr>ms_process = k, ms_pairSeen = (\<lambda>_ _. False), ms_nrMigratePages = (\<lambda>_ _. 0)\<rparr>"
  from res obtain stages where ap: "apply_plans m ps (map ?init ?ks) = Inr stages"
    and m': "m' = m\<lparr>pm_attrs := fold publish_stage stages ?attrs\<rparr>"
    by (auto simp: ApplyPairPlansForState_def Let_def split: if_splits sum.splits)
  have "distinct (map (\<lambda>k. pa_pid (?attrs ! k)) ?ks)"
  proof -
    have "i = j" if "i < length ?attrs" "j < length ?attrs" "pa_pid (?attrs ! i) = pa_pid (?attrs ! j)" for i j
      using nth_eq_iff_index_eq [OF dist, of i j] that by simp
    then show ?thesis by (auto simp: distinct_map inj_on_def)
  qed
  then have "distinct (map (\<lambda>st. pa_pid (?attrs ! ms_process st)) (map ?init ?ks))" by (simp add: comp_def)
  from apply_plans_Inr [OF ap this] have pr: "map ms_process stages = ?ks"
    and mat: "\<forall>s<length ?ks. ms_nrMigratePages (stages ! s) = plan_matrix ps (pa_pid (?attrs ! (?ks ! s))) (\<lambda>_ _. 0)"
    by (auto simp: comp_def)
  have len: "length stages = length ?ks" using pr by (metis length_map)
  have "fold publish_stage stages ?attrs ! k =
      (if migrating (?attrs ! k) then with_matrix (?attrs ! k) (plan_matrix ps (pa_pid (?attrs ! k)) (\<lambda>_ _. 0)) else ?attrs ! k)"
    if k: "k < length ?attrs" for k
  proof -
    have nth: "fold publish_stage stages ?attrs ! k = (case find (\<lambda>st. ms_process st = k) stages of None \<Rightarrow> ?attrs ! k
        | Some st \<Rightarrow> with_matrix (?attrs ! k) (ms_nrMigratePages st))"
      unfolding with_matrix_def using pr k by (intro fold_publish_nth) simp_all
    show ?thesis
    proof (cases "find (\<lambda>st. ms_process st = k) stages")
      case None
      then have "k \<notin> set (map ms_process stages)" by (auto simp: find_None_iff)
      then have "\<not> migrating (?attrs ! k)" using k unfolding pr by simp
      then show ?thesis using nth None by simp
    next
      case (Some st)
      then obtain s where s: "s < length stages" "stages ! s = st" "ms_process st = k" by (auto simp: find_Some_iff)
      then have ks: "?ks ! s = k" using pr by (metis nth_map)
      then have "migrating (?attrs ! k)" using s len nth_mem [of s ?ks] by simp
      moreover have "ms_nrMigratePages st = plan_matrix ps (pa_pid (?attrs ! k)) (\<lambda>_ _. 0)" using mat s len ks by metis
      ultimately show ?thesis using nth Some by simp
    qed
  qed
  moreover have "length (fold publish_stage sts attrs) = length attrs" for sts attrs
    by (induction sts arbitrary: attrs) simp_all
  ultimately have "fold publish_stage stages ?attrs =
      map (\<lambda>a. if migrating a then with_matrix a (plan_matrix ps (pa_pid a) (\<lambda>_ _. 0)) else a) ?attrs"
    by (intro nth_equalityI) simp_all
  then show ?thesis using m' by simp
qed


section \<open>Properties\<close>

text \<open>C13. Swap plans are safe: they change nothing but the swap pages, an exchange of pages is charged twice to the budget of its
  process and once to its local node, no budget and no local node is overdrawn, and pages are exchanged only for a process that enables it,
  on a remote node that is not disabled and that only one local node of the process uses.\<close>

theorem BuildPairSwapPlans_safe:
  assumes "BuildPairSwapPlans m g ps c bs = Inr (ps', c', bs')" and "budgets_ok bs"
  shows "list_all2 swap_only ps ps' \<and> budgets_swapped bs ps' bs' \<and> context_swapped c ps' c' \<and>
    (\<forall>i<length ps'. pl_swapPages (ps' ! i) \<noteq> 0 \<longrightarrow> swap_allowed m g ps' i)"
  using BuildPairSwapPlans_gen [OF assms] by blast

text \<open>The process of \<open>demo_scan\<close>, with swapping enabled, and one plan of it.\<close>

definition swap_demo_manager :: ProcessManager where
  "swap_demo_manager = demo_manager\<lparr>pm_attrs := [demo_scan\<lparr>pa_pid := 7, pa_enableSwap := True\<rparr>]\<rparr>"

definition swap_demo_plan :: PairPlan where
  "swap_demo_plan = \<lparr>pl_pid = 7, pl_localNid = 0, pl_remoteNid = 1, pl_remoteIndex = 0, pl_targetPages = 10, pl_actualPages = 10,
     pl_demotePages = 0, pl_promotePages = 0, pl_swapPages = 0\<rparr>"

lemma swap_demo_succeeds:
  "\<exists>ps c bs. BuildPairSwapPlans swap_demo_manager (\<lambda>_. 0) [swap_demo_plan] demo_context demo_budgets = Inr (ps, c, bs)"
proof -
  have "\<not> swap_plan_invalid swap_demo_manager demo_context demo_budgets swap_demo_plan"
    by (simp add: swap_plan_invalid_def swap_demo_plan_def demo_budgets_def FindPairPidBudget_def GetProcessAttr_def
        swap_demo_manager_def demo_context_def IsPairPlanDirectionValid_def demo_scan_def ProcessAttr_zero_def)
  then show ?thesis by (auto simp: BuildPairSwapPlans_def demo_budgets_def Let_def split: prod.split)
qed

theorem BuildPairSwapPlans_safe_witness:
  "\<exists>ps c bs. BuildPairSwapPlans swap_demo_manager (\<lambda>_. 0) [swap_demo_plan] demo_context demo_budgets = Inr (ps, c, bs) \<and>
    2 * swapped_by 7 ps \<le> 100 \<and> swapped_at 0 ps \<le> 50"
proof -
  obtain ps c bs where r: "BuildPairSwapPlans swap_demo_manager (\<lambda>_. 0) [swap_demo_plan] demo_context demo_budgets = Inr (ps, c, bs)"
    using swap_demo_succeeds by blast
  have "budgets_ok demo_budgets" by (simp add: budgets_ok_def demo_budgets_def)
  from BuildPairSwapPlans_safe [OF r this] have "budgets_swapped demo_budgets ps bs" "context_swapped demo_context ps c" by auto
  then have "2 * swapped_by 7 ps \<le> 100" "swapped_at 0 ps \<le> 50"
    by (auto simp: context_swapped_def safe_free_eq demo_context_def budgets_swapped_def demo_budgets_def list_all2_Cons1)
  with r show ?thesis by blast
qed

end
