(* ===== verification/Pair_Cycle.thy ===== *)
theory Pair_Cycle
  imports Pair_Swap
begin

text \<open>
  One planning cycle as a whole: the plan inputs that arbitration publishes are well formed, so that the
  later stages of \<^verbatim>\<open>BuildAllPairPlans\<close> accept them, and what the cycle writes into the migration matrices
  respects the free pages of the local nodes and the limits of the processes.
\<close>

section \<open>First entries of sorted sequences\<close>

lemma firsts_strict:
  fixes f :: "nat \<Rightarrow> 'a :: linorder"
  assumes mono: "\<And>i j. i \<le> j \<Longrightarrow> j < n \<Longrightarrow> f i \<le> f j"
  shows "sorted_wrt (<) (map f (filter (\<lambda>i. i = 0 \<or> f i \<noteq> f (i - 1)) [0..<n]))"
proof -
  have "f i < f j" if "i < j" "j < n" "j = 0 \<or> f j \<noteq> f (j - 1)" for i j
  proof -
    have "f i \<le> f (j - 1)" "f (j - 1) \<le> f j" using mono that(1,2) by auto
    with that(1,3) show ?thesis by (metis le_less_trans not_less_zero order_le_imp_less_or_eq)
  qed
  then show ?thesis unfolding sorted_wrt_map
    by (intro sorted_wrt_mono_rel [OF _ sorted_wrt_filter [OF sorted_wrt_upt]]) auto
qed

lemma firsts_cover:
  assumes "k < n"
  shows "f k \<in> set (map f (filter (\<lambda>i. i = 0 \<or> f i \<noteq> f (i - 1)) [0..<n]))"
  using assms
proof (induction k)
  case (Suc k)
  show ?case
  proof (cases "f (Suc k) = f k")
    case True
    then show ?thesis using Suc by simp
  next
    case False
    then show ?thesis using Suc.prems by auto
  qed
qed auto

section \<open>The plan inputs\<close>

definition inputs_ok :: "ProcessManager \<Rightarrow> bool \<Rightarrow> PairPlan list \<Rightarrow> PairPidBudget list \<Rightarrow> bool" where
  "inputs_ok m mo ins bs \<longleftrightarrow> budgets_ok bs \<and> distinct (map plan_key ins) \<and>
     (\<forall>p \<in> set ins. plan_valid (int (unat (pm_nrLocalNuma m))) p \<and> pl_pid p \<in> pb_pid ` set bs \<and>
        pl_pid p \<in> pa_pid ` set (managed_processes m mo)) \<and>
     (\<forall>b \<in> set bs. pb_plannedPages b = 0 \<and>
        (\<exists>a \<in> set (managed_processes m mo). pb_pid b = pa_pid a \<and> pb_maxMigratePages b = ucast (wp_nrPage (pa_walkPage a))))"

lemma arbitrated_keys:
  assumes "list_all2 same_entry es es'"
  shows "map entry_key es' = map entry_key es"
  using assms by (auto simp: list_all2_conv_all_nth same_entry_def entry_key_def intro: nth_equalityI)

lemma BuildAllPairPlanInputsForState_cases:
  assumes "BuildAllPairPlanInputsForState f m cap bcap mo = (Inr (ins, bs), m')"
  obtains es pc tc where "BuildPairArbitrationSnapshotLocked m cap mo = Inr (es, pc, tc)" and "cap \<le> 43200"
    and "m' = fst (PublishPairCapacityResult m es pc tc)" and "0 < unat (pm_nrLocalNuma m)" and "unat (pm_nrLocalNuma m) \<le> 8"
    and "ins = map (\<lambda>e. plan_of_entry (unat (pm_nrLocalNuma m)) (publish_entry e)) es"
    and "bs = map (\<lambda>i. \<lparr>pb_pid = pt_pid (ae_target (es ! i)), pb_maxMigratePages = ucast (wp_nrPage (pa_walkPage (ae_process (es ! i)))),
        pb_plannedPages = 0\<rparr>) (filter (first_of_pid es) [0..<length es])" and "length bs \<le> bcap"
proof -
  have cap: "cap \<le> 43200" and nr: "0 < unat (pm_nrLocalNuma m)" "unat (pm_nrLocalNuma m) \<le> 8"
    using assms by (auto simp: BuildAllPairPlanInputsForState_def unat_gt_0 split: if_splits)
  obtain es pc tc where s: "BuildPairArbitrationSnapshotLocked m cap mo = Inr (es, pc, tc)"
    and len: "length (filter (first_of_pid es) [0..<length es]) \<le> bcap"
    and r: "(Inr (ins, bs) :: errno + PairPlan list \<times> PairPidBudget list, m') =
      (let (m, es1) = PublishPairCapacityResult m es pc tc
       in (Inr (map (plan_of_entry (unat (pm_nrLocalNuma m))) es1,
         map (\<lambda>i. \<lparr>pb_pid = pt_pid (ae_target (es1 ! i)), pb_maxMigratePages = ucast (wp_nrPage (pa_walkPage (ae_process (es1 ! i)))),
           pb_plannedPages = 0\<rparr>) (filter (first_of_pid es) [0..<length es])), m))"
    using assms by (auto simp: BuildAllPairPlanInputsForState_def Let_def split: if_splits sum.splits)
  have m': "m' = fst (PublishPairCapacityResult m es pc tc)"
    and ins: "ins = map (plan_of_entry (unat (pm_nrLocalNuma m))) (map publish_entry es)"
    and bs: "bs = map (\<lambda>i. \<lparr>pb_pid = pt_pid (ae_target (map publish_entry es ! i)),
        pb_maxMigratePages = ucast (wp_nrPage (pa_walkPage (ae_process (map publish_entry es ! i)))), pb_plannedPages = 0\<rparr>)
        (filter (first_of_pid es) [0..<length es])"
    using r PublishPairCapacityResult_frame(1,3) [of m es pc tc] by (auto simp only: Let_def case_prod_beta prod.inject sum.inject)
  have bs': "bs = map (\<lambda>i. \<lparr>pb_pid = pt_pid (ae_target (es ! i)), pb_maxMigratePages = ucast (wp_nrPage (pa_walkPage (ae_process (es ! i)))),
        pb_plannedPages = 0\<rparr>) (filter (first_of_pid es) [0..<length es])"
    unfolding bs by (intro map_cong refl) (simp add: publish_entry_def)
  show ?thesis by (rule that [OF s cap m' nr _ bs']) (use ins len bs' in \<open>simp_all add: comp_def\<close>)
qed

lemma managed_collected:
  assumes "BuildPairArbitrationSnapshotLocked m cap mo = Inr (es', pc, tc)" and "cap \<le> 43200" and dist: "distinct (map pa_pid (pm_attrs m))"
  shows "sorted (map entry_key es')" and "distinct (map entry_key es')" and "length es' \<le> cap"
    and "e \<in> set es' \<Longrightarrow> \<exists>l<unat (pm_nrLocalNuma m). \<exists>r<18. pt_localNid (ae_target e) = int l \<and>
        pt_remoteNid (ae_target e) = int (unat (pm_nrLocalNuma m) + r)"
proof -
  have c: "cap < 2 ^ 32" using assms(2) by simp
  obtain sc es where s: "CollectAllPairRequests m pc sc cap mo = Inr es" "arbitrated (unat (pm_nrLocalNuma m)) pc sc es es'"
    by (rule BuildPairArbitrationSnapshotLocked_gen [OF assms(1) c])
  have l2: "list_all2 same_entry es es'" using s(2) by (simp add: arbitrated_def)
  note keys = arbitrated_keys [OF l2]
  show "sorted (map entry_key es')" "length es' \<le> cap"
    using collected_entries(1,2) [OF s(1)] list_all2_lengthD [OF l2] unfolding keys by auto
  have "distinct (map entry_key (collected m pc sc mo))"
    unfolding collected_def by (rule requests_of_distinct) (use dist in \<open>simp add: distinct_map_filter\<close>)
  then show "distinct (map entry_key es')"
    unfolding keys using s(1) by (simp add: CollectAllPairRequests_iff) (metis mset_map mset_qsort mset_eq_imp_distinct_iff)
  assume "e \<in> set es'"
  then obtain e0 where e0: "e0 \<in> set es" "same_entry e0 e" using list_all2_same_set [OF l2] by blast
  then obtain a where "entry_of m a e0" using collected_entries(3) [OF s(1) e0(1)] by blast
  then show "\<exists>l<unat (pm_nrLocalNuma m). \<exists>r<18. pt_localNid (ae_target e) = int l \<and>
        pt_remoteNid (ae_target e) = int (unat (pm_nrLocalNuma m) + r)"
    using e0(2) unfolding entry_of_def same_entry_def by metis
qed

lemma plan_valid_entry:
  assumes "l < n" "r < 18" "n \<le> 8" "pt_localNid (ae_target e) = int l" "pt_remoteNid (ae_target e) = int (n + r)"
  shows "plan_valid (int n) (plan_of_entry n (publish_entry e))"
  using assms by (simp add: plan_valid_def plan_of_entry_def publish_entry_def)

lemma plan_inputs_ok:
  assumes res: "BuildAllPairPlanInputsForState f m cap bcap mo = (Inr (ins, bs), m')" and dist: "distinct (map pa_pid (pm_attrs m))"
  shows "inputs_ok m mo ins bs" and "length ins \<le> cap" and "length bs \<le> bcap" and "0 < unat (pm_nrLocalNuma m)" "unat (pm_nrLocalNuma m) \<le> 8"
    and "pm_attrs m' = pm_attrs m" "pm_nrLocalNuma m' = pm_nrLocalNuma m"
proof -
  let ?n = "unat (pm_nrLocalNuma m)"
  obtain es pc tc where s: "BuildPairArbitrationSnapshotLocked m cap mo = Inr (es, pc, tc)" "cap \<le> 43200"
    and m': "m' = fst (PublishPairCapacityResult m es pc tc)" and nr: "0 < ?n" "?n \<le> 8"
    and ins: "ins = map (\<lambda>e. plan_of_entry ?n (publish_entry e)) es"
    and bs: "bs = map (\<lambda>i. \<lparr>pb_pid = pt_pid (ae_target (es ! i)), pb_maxMigratePages = ucast (wp_nrPage (pa_walkPage (ae_process (es ! i)))),
        pb_plannedPages = 0\<rparr>) (filter (first_of_pid es) [0..<length es])" and len: "length bs \<le> bcap"
    by (rule BuildAllPairPlanInputsForState_cases [OF res])
  note e = managed_collected [OF s dist] and proc = BuildAllPairTargets_entries(1) [OF s]
  show "0 < ?n" "?n \<le> 8" "length bs \<le> bcap" "pm_attrs m' = pm_attrs m" "pm_nrLocalNuma m' = pm_nrLocalNuma m"
    using nr len m' by simp_all
  show "length ins \<le> cap" using e(3) by (simp add: ins)
  let ?pid = "\<lambda>i. pt_pid (ae_target (es ! i))"
  have first: "first_of_pid es = (\<lambda>i. i = 0 \<or> ?pid i \<noteq> ?pid (i - 1))" by (simp add: first_of_pid_def fun_eq_iff)
  have pid_le: "pt_pid (ae_target x) \<le> pt_pid (ae_target y)" if "entry_key x \<le> entry_key y" for x y
    using that by (auto simp: entry_key_def less_eq_prod_def)
  have mono: "?pid i \<le> ?pid j" if "i \<le> j" "j < length es" for i j
    using sorted_nth_mono [OF e(1), of i j] that by (intro pid_le) simp
  have pids: "map pb_pid bs = map ?pid (filter (first_of_pid es) [0..<length es])" by (simp add: bs comp_def)
  have "distinct (map pb_pid bs)"
    unfolding pids first using firsts_strict [of "length es" ?pid] mono by (simp add: strict_sorted_iff)
  then have ok: "budgets_ok bs" by (auto simp: budgets_ok_def bs)
  have key: "plan_key (plan_of_entry ?n (publish_entry x)) = entry_key x" for x
    by (simp add: plan_key_def plan_of_entry_def publish_entry_def entry_key_def)
  have "distinct (map plan_key ins)" using e(2) by (simp add: ins comp_def key)
  moreover have "plan_valid (int ?n) p \<and> pl_pid p \<in> pb_pid ` set bs \<and> pl_pid p \<in> pa_pid ` set (managed_processes m mo)" if p: "p \<in> set ins" for p
  proof -
    obtain x where x: "x \<in> set es" "p = plan_of_entry ?n (publish_entry x)" using p by (auto simp: ins)
    then obtain k where k: "k < length es" "x = es ! k" by (auto simp: in_set_conv_nth)
    have "?pid k \<in> set (map pb_pid bs)" unfolding pids first by (rule firsts_cover [OF k(1)])
    then have "pl_pid p \<in> pb_pid ` set bs" by (simp add: x(2) k(2) plan_of_entry_def publish_entry_def)
    moreover have "pl_pid p \<in> pa_pid ` set (managed_processes m mo)"
      using proc [OF x(1)] by (auto simp: x(2) plan_of_entry_def publish_entry_def)
    moreover have "plan_valid (int ?n) p"
      unfolding x(2) using e(4) [OF x(1)] nr(2) plan_valid_entry by blast
    ultimately show ?thesis by blast
  qed
  moreover have "pb_plannedPages b = 0 \<and>
      (\<exists>a \<in> set (managed_processes m mo). pb_pid b = pa_pid a \<and> pb_maxMigratePages b = ucast (wp_nrPage (pa_walkPage a)))" if b: "b \<in> set bs" for b
  proof -
    obtain i where i: "i < length es" "b = \<lparr>pb_pid = ?pid i, pb_maxMigratePages = ucast (wp_nrPage (pa_walkPage (ae_process (es ! i)))),
        pb_plannedPages = 0\<rparr>" using b by (auto simp: bs)
    then show ?thesis using proc [of "es ! i"] by fastforce
  qed
  ultimately show "inputs_ok m mo ins bs" using ok unfolding inputs_ok_def by blast
qed


section \<open>The cycle\<close>

abbreviation free_pages :: "(nat \<Rightarrow> u64) \<Rightarrow> (nat \<Rightarrow> u64) \<Rightarrow> ProcessManager \<Rightarrow> nat \<Rightarrow> u64" where
  "free_pages nf nh m \<equiv> (if unat (pm_pageSize m) = PAGESIZE_2M then nh else nf)"

lemma CollectNodeFreeSnapshot_Inr:
  assumes "CollectNodeFreeSnapshot nf nh (unat (pm_pageSize m) = PAGESIZE_2M) n = Inr c"
  shows "pc_nrLocalNuma c = n" "0 < n" "n \<le> 8" "pc_safetyReservePages c l = 0" "pc_plannedPages c l = 0"
    "pc_freePages c l = (if l < nat n then free_pages nf nh m l else 0)"
  using assms by (auto simp: CollectNodeFreeSnapshot_def split: if_splits)

lemma BuildAllPairPlans_cases:
  assumes "BuildAllPairPlans af nf nh g m cap = (Inr ps, m')"
  obtains c0 ins bs m1 ps1 c1 bs1 c2 bs2 where
    "CollectNodeFreeSnapshot nf nh (unat (pm_pageSize m) = PAGESIZE_2M) (int (unat (pm_nrLocalNuma m))) = Inr c0"
    and "BuildAllPairPlanInputsForState (af 1) m cap 300 True = (Inr (ins, bs), m1)"
    and "BuildPairPlans (af 2) (filter (\<lambda>input. \<not> IsNodeForbidden (nat (pl_remoteNid input)) g) ins) c0 bs cap = Inr (ps1, c1, bs1)"
    and "BuildPairSwapPlans m1 g ps1 c1 bs1 = Inr (ps, c2, bs2)" and "ApplyPairPlansForState (af 3) m1 ps = Inr m'"
proof -
  let ?snap = "CollectNodeFreeSnapshot nf nh (unat (pm_pageSize m) = PAGESIZE_2M) (int (unat (pm_nrLocalNuma m)))"
  have run: "(case ?snap of Inl e \<Rightarrow> (Inl e, m) | Inr context \<Rightarrow>
      case BuildAllPairPlanInputsForState (af 1) m cap 300 True of (Inl e, m) \<Rightarrow> (Inl e, m)
      | (Inr (inputs, pidBudgets), m) \<Rightarrow>
        case BuildPairPlans (af 2) (filter (\<lambda>input. \<not> IsNodeForbidden (nat (pl_remoteNid input)) g) inputs) context pidBudgets cap of
          Inl e \<Rightarrow> (Inl e, m)
        | Inr (stagedPlans, context, pidBudgets) \<Rightarrow>
          case BuildPairSwapPlans m g stagedPlans context pidBudgets of Inl e \<Rightarrow> (Inl e, m)
          | Inr (stagedPlans, context, pidBudgets) \<Rightarrow>
            case ApplyPairPlansForState (af 3) m stagedPlans of Inl e \<Rightarrow> (Inl e, m) | Inr m \<Rightarrow> (Inr stagedPlans, m)) = (Inr ps, m')"
    using assms unfolding BuildAllPairPlans_def Let_def by (simp split: if_splits)
  obtain c0 where c0: "?snap = Inr c0" using run by (cases ?snap) simp_all
  obtain r m1 where i1: "BuildAllPairPlanInputsForState (af 1) m cap 300 True = (r, m1)" by force
  note r1 = run [unfolded c0 sum.case i1 prod.case]
  obtain ins bs where r: "r = Inr (ins, bs)" using r1 by (cases r) auto
  note r2 = r1 [unfolded r sum.case prod.case]
  let ?plans = "BuildPairPlans (af 2) (filter (\<lambda>input. \<not> IsNodeForbidden (nat (pl_remoteNid input)) g) ins) c0 bs cap"
  obtain ps1 c1 bs1 where p1: "?plans = Inr (ps1, c1, bs1)" using r2 by (cases ?plans) auto
  note r3 = r2 [unfolded p1 sum.case prod.case]
  obtain ps2 c2 bs2 where p2: "BuildPairSwapPlans m1 g ps1 c1 bs1 = Inr (ps2, c2, bs2)"
    using r3 by (cases "BuildPairSwapPlans m1 g ps1 c1 bs1") auto
  note r4 = r3 [unfolded p2 sum.case prod.case]
  obtain m2 where m2: "ApplyPairPlansForState (af 3) m1 ps2 = Inr m2"
    using r4 by (cases "ApplyPairPlansForState (af 3) m1 ps2") auto
  have "ps2 = ps" "m2 = m'" using r4 by (simp_all add: m2)
  then show ?thesis using that [OF c0 i1 [unfolded r] p1] p2 m2 by simp
qed

lemma swap_only_sums:
  assumes "list_all2 swap_only ps ps'"
  shows "promoted l ps' = promoted l ps" "charged pid ps' = charged pid ps" "pl_pid ` set ps' = pl_pid ` set ps"
proof -
  have "promoted l ps' = promoted l ps \<and> charged pid ps' = charged pid ps \<and> pl_pid ` set ps' = pl_pid ` set ps"
    using assms
  proof (induction rule: list_all2_induct)
    case (Cons p ps p' ps')
    then show ?case using swap_only_ids [OF Cons(1)] by (simp add: promoted_def charged_def)
  qed simp
  then show "promoted l ps' = promoted l ps" "charged pid ps' = charged pid ps" "pl_pid ` set ps' = pl_pid ` set ps" by blast+
qed

lemma sums_absent:
  assumes "pid \<notin> pl_pid ` set ps"
  shows "charged pid ps = 0" "swapped_by pid ps = 0"
proof -
  have zero: "(\<Sum>p\<leftarrow>ps. if pl_pid p = pid then f p else 0) = (0 :: nat)" for f
    using assms by (induction ps) simp_all
  show "charged pid ps = 0" "swapped_by pid ps = 0" unfolding charged_def swapped_by_def by (rule zero)+
qed

lemma plan_of_pids: "list_all2 plan_of ps ps' \<Longrightarrow> pl_pid ` set ps' = pl_pid ` set ps"
proof (induction rule: list_all2_induct)
  case (Cons p ps p' ps')
  then show ?case using plan_of_ids(1) [OF Cons(1)] by simp
qed simp

lemma plan_of_remote: "list_all2 plan_of ps ps' \<Longrightarrow> p' \<in> set ps' \<Longrightarrow> \<exists>p \<in> set ps. plan_of p p'"
  by (induction rule: list_all2_induct) auto

lemma swap_only_remote: "list_all2 swap_only ps ps' \<Longrightarrow> p' \<in> set ps' \<Longrightarrow> \<exists>p \<in> set ps. swap_only p p'"
  by (induction rule: list_all2_induct) auto

lemma two_stage_budget:
  assumes "budgets_charged bs ps bs1" and "budgets_swapped bs1 ps' bs2" and "b \<in> set bs" and "pb_plannedPages b = 0"
  shows "charged (pb_pid b) ps + 2 * swapped_by (pb_pid b) ps' \<le> unat (pb_maxMigratePages b)"
proof -
  obtain k where k: "k < length bs" "b = bs ! k" using assms(3) by (auto simp: in_set_conv_nth)
  have 1: "length bs1 = length bs" "pb_pid (bs1 ! k) = pb_pid b" "pb_maxMigratePages (bs1 ! k) = pb_maxMigratePages b"
    "unat (pb_plannedPages (bs1 ! k)) = charged (pb_pid b) ps"
    using assms(1,4) k by (auto simp: budgets_charged_def list_all2_conv_all_nth)
  have "unat (pb_plannedPages (bs2 ! k)) = unat (pb_plannedPages (bs1 ! k)) + 2 * swapped_by (pb_pid (bs1 ! k)) ps'"
    "unat (pb_plannedPages (bs2 ! k)) \<le> unat (pb_maxMigratePages (bs2 ! k))" "pb_maxMigratePages (bs2 ! k) = pb_maxMigratePages (bs1 ! k)"
    using assms(2) k 1(1) by (auto simp: budgets_swapped_def list_all2_conv_all_nth)
  then show ?thesis using 1 by simp
qed

lemma two_stage_context:
  assumes "context_charged c ps c1" and "context_swapped c1 ps' c2"
  shows "promoted l ps + swapped_at l ps' \<le> safe_free c l"
proof -
  have "safe_free c1 l = safe_free c l - promoted l ps" "promoted l ps \<le> safe_free c l"
    using assms(1) by (simp_all add: context_charged_def safe_free_eq)
  moreover have "swapped_at l ps' \<le> safe_free c1 l" using assms(2) by (simp add: context_swapped_def)
  ultimately show ?thesis by linarith
qed

lemma unat_ucast_u64 [simp]: "unat (ucast (w :: u32) :: u64) = unat w"
proof -
  have "take_bit 64 (unat w) = unat w" by (rule take_bit_nat_eq_self) simp
  then show ?thesis by (simp add: unsigned_ucast_eq)
qed

text \<open>The stages of a cycle, put together.\<close>

lemma cycle_safe:
  assumes snap: "CollectNodeFreeSnapshot nf nh (unat (pm_pageSize m) = PAGESIZE_2M) (int (unat (pm_nrLocalNuma m))) = Inr c0"
    and ins: "inputs_ok m True ins bs"
    and plans: "BuildPairPlans f (filter (\<lambda>input. \<not> IsNodeForbidden (nat (pl_remoteNid input)) g) ins) c0 bs cap = Inr (ps1, c1, bs1)"
    and swaps: "BuildPairSwapPlans m1 g ps1 c1 bs1 = Inr (ps, c2, bs2)" and dist: "distinct (map pa_pid (pm_attrs m))"
  shows "l < unat (pm_nrLocalNuma m) \<Longrightarrow> promoted l ps + swapped_at l ps \<le> unat (free_pages nf nh m l)"
    and "a \<in> set (pm_attrs m) \<Longrightarrow> charged (pa_pid a) ps + 2 * swapped_by (pa_pid a) ps \<le> unat (wp_nrPage (pa_walkPage a))"
    and "p \<in> set ps \<Longrightarrow> \<not> IsNodeForbidden (nat (pl_remoteNid p)) g \<and> IsPairPlanDirectionValid p"
    and "list_all2 swap_only ps1 ps" and "p \<in> set ps1 \<Longrightarrow> pl_swapPages p = 0"
proof -
  let ?ins = "filter (\<lambda>input. \<not> IsNodeForbidden (nat (pl_remoteNid input)) g) ins"
  show l2: "list_all2 swap_only ps1 ps"
  proof (cases "?ins = []")
    case True
    then have "ps1 = []" using plans by (auto simp: BuildPairPlans_def split: if_splits)
    then show ?thesis using swaps by (simp add: BuildPairSwapPlans_def split: if_splits)
  next
    case False
    then show ?thesis using BuildPairPlans_gen(1,4) [OF plans False] budgets_charged_ok BuildPairSwapPlans_gen(1) [OF swaps] by blast
  qed
  show "p \<in> set ps1 \<Longrightarrow> pl_swapPages p = 0"
  proof (cases "?ins = []")
    case True
    then have "ps1 = []" using plans by (auto simp: BuildPairPlans_def split: if_splits)
    then show "p \<in> set ps1 \<Longrightarrow> pl_swapPages p = 0" by simp
  next
    case False
    from BuildPairPlans_gen(2) [OF plans False] show "p \<in> set ps1 \<Longrightarrow> pl_swapPages p = 0"
      using plan_of_remote plan_of_ids(11) by blast
  qed
  have main: "(l < unat (pm_nrLocalNuma m) \<longrightarrow> promoted l ps + swapped_at l ps \<le> unat (free_pages nf nh m l)) \<and>
    (a \<in> set (pm_attrs m) \<longrightarrow> charged (pa_pid a) ps + 2 * swapped_by (pa_pid a) ps \<le> unat (wp_nrPage (pa_walkPage a))) \<and>
    (p \<in> set ps \<longrightarrow> \<not> IsNodeForbidden (nat (pl_remoteNid p)) g \<and> IsPairPlanDirectionValid p)"
  proof (cases "?ins = []")
    case True
    then have "ps1 = []" using plans by (auto simp: BuildPairPlans_def split: if_splits)
    then have "ps = []" using l2 by simp
    then show ?thesis by (simp add: promoted_def swapped_at_def charged_def swapped_by_def)
  next
    case False
    note g1 = BuildPairPlans_gen [OF plans False]
    have ok1: "budgets_ok bs1" using budgets_charged_ok [OF g1(1) g1(4)] .
    note g2 = BuildPairSwapPlans_gen [OF swaps ok1] and sums = swap_only_sums [OF l2]
    have "promoted l ps + swapped_at l ps \<le> unat (free_pages nf nh m l)" if "l < unat (pm_nrLocalNuma m)"
    proof -
      have "safe_free c0 l = unat (free_pages nf nh m l)"
        using CollectNodeFreeSnapshot_Inr(4-6) [OF snap, of l] that by (simp add: safe_free_eq)
      then show ?thesis using two_stage_context [OF g1(5) g2(3), of l] sums(1) by simp
    qed
    moreover have "charged (pa_pid a) ps + 2 * swapped_by (pa_pid a) ps \<le> unat (wp_nrPage (pa_walkPage a))" if a: "a \<in> set (pm_attrs m)"
    proof (cases "pa_pid a \<in> pl_pid ` set ps")
      case False
      then show ?thesis by (simp add: sums_absent)
    next
      case True
      then have "pa_pid a \<in> pl_pid ` set ?ins" using plan_of_pids [OF g1(2)] by (simp add: sums(3))
      then obtain b where b: "b \<in> set bs" "pb_pid b = pa_pid a" using ins by (auto simp: inputs_ok_def)
      then obtain a' where a': "a' \<in> set (pm_attrs m)" "pa_pid a' = pa_pid a" "pb_maxMigratePages b = ucast (wp_nrPage (pa_walkPage a'))"
        "pb_plannedPages b = 0" using ins by (auto simp: inputs_ok_def)
      have "a' = a" using dist a' a by (auto simp: distinct_map inj_on_def)
      then show ?thesis using two_stage_budget [OF g1(4) g2(2) b(1) a'(4)] a'(3) b(2) sums(2) by simp
    qed
    moreover have "\<not> IsNodeForbidden (nat (pl_remoteNid p)) g \<and> IsPairPlanDirectionValid p" if pin: "p \<in> set ps"
    proof -
      obtain q where q: "q \<in> set ps1" "swap_only q p" using swap_only_remote [OF l2 pin] by blast
      obtain i where i: "i \<in> set ?ins" "plan_of i q" using plan_of_remote [OF g1(2) q(1)] by auto
      show ?thesis using i plan_of_ids [OF i(2)] swap_only_ids [OF q(2)] by (auto simp: plan_of_def)
    qed
    ultimately show ?thesis by blast
  qed
  then show "l < unat (pm_nrLocalNuma m) \<Longrightarrow> promoted l ps + swapped_at l ps \<le> unat (free_pages nf nh m l)"
    "a \<in> set (pm_attrs m) \<Longrightarrow> charged (pa_pid a) ps + 2 * swapped_by (pa_pid a) ps \<le> unat (wp_nrPage (pa_walkPage a))"
    "p \<in> set ps \<Longrightarrow> \<not> IsNodeForbidden (nat (pl_remoteNid p)) g \<and> IsPairPlanDirectionValid p" by blast+
qed


section \<open>The matrices\<close>

lemma plan_matrix_Cons:
  "plan_matrix (p # ps) pid M = plan_matrix ps pid (if pl_pid p = pid
     then (let l = nat (pl_localNid p); r = nat (pl_remoteNid p); M = M(l := (M l)(r := pl_demotePages p + pl_swapPages p))
           in M(r := (M r)(l := pl_promotePages p + pl_swapPages p))) else M)"
  by (simp add: plan_matrix_def apply_one_def Let_def)

definition at_pair :: "int \<Rightarrow> nat \<Rightarrow> nat \<Rightarrow> PairPlan \<Rightarrow> bool" where
  "at_pair pid l r p \<longleftrightarrow> pl_pid p = pid \<and> pl_localNid p = int l \<and> pl_remoteNid p = int r"

lemma plan_valid_range: "plan_valid (int n) p \<Longrightarrow> 0 \<le> pl_localNid p \<and> pl_localNid p < int n \<and> int n \<le> pl_remoteNid p"
  by (auto simp: plan_valid_def)

lemma plan_matrix_absent:
  assumes "\<forall>p \<in> set ps. plan_valid (int n) p \<and> \<not> at_pair pid l r p" and "l < n" and "n \<le> r"
  shows "plan_matrix ps pid M l r = M l r \<and> plan_matrix ps pid M r l = M r l"
  using assms(1)
proof (induction ps arbitrary: M)
  case (Cons p ps)
  have p: "plan_valid (int n) p" "\<not> at_pair pid l r p" and ps: "\<forall>p \<in> set ps. plan_valid (int n) p \<and> \<not> at_pair pid l r p"
    using Cons.prems by simp_all
  note rg = plan_valid_range [OF p(1)]
  show ?case
    unfolding plan_matrix_Cons using Cons.IH [OF ps] p(2) rg assms(2,3)
    by (auto simp: Let_def at_pair_def nat_eq_iff)
qed (simp add: plan_matrix_def)

lemma plan_matrix_at:
  assumes "\<forall>p \<in> set ps. plan_valid (int n) p" and "distinct (map plan_key ps)" and "p \<in> set ps"
  shows "plan_matrix ps (pl_pid p) M (nat (pl_localNid p)) (nat (pl_remoteNid p)) = pl_demotePages p + pl_swapPages p \<and>
    plan_matrix ps (pl_pid p) M (nat (pl_remoteNid p)) (nat (pl_localNid p)) = pl_promotePages p + pl_swapPages p"
  using assms
proof (induction ps arbitrary: M)
  case (Cons q ps)
  note rg = plan_valid_range [OF Cons.prems(1) [rule_format, OF Cons.prems(3)]]
  show ?case
  proof (cases "p \<in> set ps")
    case True
    then show ?thesis unfolding plan_matrix_Cons using Cons.IH [of "if pl_pid q = pl_pid p then _ else _"] Cons.prems by simp
  next
    case False
    then have q: "q = p" using Cons.prems(3) by simp
    let ?l = "nat (pl_localNid p)" and ?r = "nat (pl_remoteNid p)"
    have abs: "\<forall>x \<in> set ps. plan_valid (int n) x \<and> \<not> at_pair (pl_pid p) ?l ?r x"
    proof
      fix x
      assume x: "x \<in> set ps"
      have "plan_key p \<notin> plan_key ` set ps" using Cons.prems(2) q by simp
      then have "plan_key x \<noteq> plan_key p" using x by (metis image_eqI)
      then show "plan_valid (int n) x \<and> \<not> at_pair (pl_pid p) ?l ?r x" using Cons.prems(1) x rg by (auto simp: at_pair_def plan_key_def)
    qed
    have lr: "?l < n" "n \<le> ?r" using rg by auto
    then show ?thesis unfolding plan_matrix_Cons q
      using plan_matrix_absent [OF abs lr] by (simp add: Let_def)
  qed
qed simp

lemma apply_plans_succeeds:
  assumes "\<forall>p \<in> set ps. plan_valid (int (unat (pm_nrLocalNuma m))) p \<and> IsPairPlanDirectionValid p \<and>
      unat (pl_demotePages p) + unat (pl_swapPages p) \<le> UINT32_MAX \<and> unat (pl_promotePages p) + unat (pl_swapPages p) \<le> UINT32_MAX \<and>
      (\<exists>s. FindPairPlanMatrixStage m stages (pl_pid p) = Some s \<and> \<not> ms_pairSeen (stages ! s) (nat (pl_localNid p)) (nat (pl_remoteIndex p)))"
    and "distinct (map plan_key ps)"
  shows "\<exists>stages'. apply_plans m ps stages = Inr stages'"
  using assms
proof (induction ps arbitrary: stages)
  case (Cons p ps)
  obtain s where s: "FindPairPlanMatrixStage m stages (pl_pid p) = Some s"
    "\<not> ms_pairSeen (stages ! s) (nat (pl_localNid p)) (nat (pl_remoteIndex p))" using Cons.prems(1) by auto
  have sl: "s < length stages" using FindPairPlanMatrixStage_Some [OF s(1)] by blast
  let ?st = "stages[s := apply_one p (stages ! s)]"
  have find: "FindPairPlanMatrixStage m (sts[s := apply_one p (sts ! s)]) pid = FindPairPlanMatrixStage m sts pid" if "s < length sts" for sts pid s
    using that
  proof (induction sts arbitrary: s)
    case (Cons x sts)
    then show ?case by (cases s) simp_all
  qed simp
  have "\<exists>stages'. apply_plans m ps ?st = Inr stages'"
  proof (rule Cons.IH)
    show "distinct (map plan_key ps)" using Cons.prems(2) by simp
    show "\<forall>q \<in> set ps. plan_valid (int (unat (pm_nrLocalNuma m))) q \<and> IsPairPlanDirectionValid q \<and>
      unat (pl_demotePages q) + unat (pl_swapPages q) \<le> UINT32_MAX \<and> unat (pl_promotePages q) + unat (pl_swapPages q) \<le> UINT32_MAX \<and>
      (\<exists>t. FindPairPlanMatrixStage m ?st (pl_pid q) = Some t \<and> \<not> ms_pairSeen (?st ! t) (nat (pl_localNid q)) (nat (pl_remoteIndex q)))"
    proof
      fix q
      assume q: "q \<in> set ps"
      have vp: "plan_valid (int (unat (pm_nrLocalNuma m))) p" and vq: "plan_valid (int (unat (pm_nrLocalNuma m))) q"
        using Cons.prems(1) q by simp_all
      obtain t where t: "FindPairPlanMatrixStage m stages (pl_pid q) = Some t"
        "\<not> ms_pairSeen (stages ! t) (nat (pl_localNid q)) (nat (pl_remoteIndex q))" using Cons.prems(1) q by auto
      have "\<not> ms_pairSeen (?st ! t) (nat (pl_localNid q)) (nat (pl_remoteIndex q))"
      proof (cases "t = s")
        case True
        have "pl_pid q = pl_pid p" using FindPairPlanMatrixStage_Some [OF t(1)] FindPairPlanMatrixStage_Some [OF s(1)] True by simp
        moreover have "plan_key p \<notin> plan_key ` set ps" using Cons.prems(2) by simp
        then have "plan_key q \<noteq> plan_key p" using q by (metis image_eqI)
        ultimately have "nat (pl_localNid q) \<noteq> nat (pl_localNid p) \<or> nat (pl_remoteIndex q) \<noteq> nat (pl_remoteIndex p)"
          using vp vq by (auto simp: plan_key_def plan_valid_def)
        then show ?thesis using t(2) True sl by (auto simp: apply_one_def Let_def)
      qed (use t(2) in simp)
      then show "plan_valid (int (unat (pm_nrLocalNuma m))) q \<and> IsPairPlanDirectionValid q \<and>
        unat (pl_demotePages q) + unat (pl_swapPages q) \<le> UINT32_MAX \<and> unat (pl_promotePages q) + unat (pl_swapPages q) \<le> UINT32_MAX \<and>
        (\<exists>t. FindPairPlanMatrixStage m ?st (pl_pid q) = Some t \<and> \<not> ms_pairSeen (?st ! t) (nat (pl_localNid q)) (nat (pl_remoteIndex q)))"
        using Cons.prems(1) q t(1) find [OF sl] by simp
    qed
  qed
  moreover have "plan_valid (int (unat (pm_nrLocalNuma m))) p" "IsPairPlanDirectionValid p"
    "\<not> unat (pl_demotePages p) > UINT32_MAX - unat (pl_swapPages p)" "\<not> unat (pl_promotePages p) > UINT32_MAX - unat (pl_swapPages p)"
    using Cons.prems(1) by auto
  ultimately show ?case using s by simp
qed simp


section \<open>A cycle succeeds\<close>

lemma swapped_member: "p \<in> set ps \<Longrightarrow> planned p + 2 * unat (pl_swapPages p) \<le> charged (pl_pid p) ps + 2 * swapped_by (pl_pid p) ps"
proof (induction ps)
  case (Cons q ps)
  show ?case
  proof (cases "p \<in> set ps")
    case True
    then show ?thesis using Cons by (simp add: charged_def swapped_by_def)
  next
    case False
    then show ?thesis using Cons.prems by (auto simp: charged_def swapped_by_def)
  qed
qed simp

lemma GetProcessAttr_managed:
  assumes "distinct (map pa_pid (pm_attrs m))" and "a \<in> set (pm_attrs m)"
  shows "GetProcessAttr m (pa_pid a) = Some a"
proof -
  obtain x where x: "GetProcessAttr m (pa_pid a) = Some x"
    using assms(2) by (cases "GetProcessAttr m (pa_pid a)") (auto simp: GetProcessAttr_def find_None_iff)
  then have "x \<in> set (pm_attrs m)" "pa_pid x = pa_pid a" by (auto simp: GetProcessAttr_def find_Some_iff)
  then have "x = a" using assms by (auto simp: distinct_map inj_on_def)
  with x show ?thesis by simp
qed

lemma swap_plans_succeed:
  assumes plans: "BuildPairPlans f ins c bs cap = Inr (ps, c1, bs1)" and ne: "ins \<noteq> []" and dist: "distinct (map pa_pid (pm_attrs m))"
    and procs: "\<forall>p \<in> set ins. pl_pid p \<in> pa_pid ` set (managed_processes m True)"
  shows "\<exists>r. BuildPairSwapPlans m g ps c1 bs1 = Inr r"
proof -
  note g1 = BuildPairPlans_gen [OF plans ne]
  have ok1: "budgets_ok bs1" by (rule budgets_charged_ok [OF g1(1,4)])
  have iff: "length ins \<le> MAX_PAIR_TARGET_COUNT" "length bs \<le> MAX_4K_PROCESSES_CNT" "0 < pc_nrLocalNuma c" "pc_nrLocalNuma c \<le> 8"
    using plans by (auto simp: BuildPairPlans_def split: if_splits)
  have len: "length ps = length ins" "length bs1 = length bs"
    using list_all2_lengthD [OF g1(2)] list_all2_lengthD [OF g1(4) [unfolded budgets_charged_def]] by simp_all
  have nr: "pc_nrLocalNuma c1 = pc_nrLocalNuma c" using g1(5) by (simp add: context_charged_def)
  have "map pb_pid bs1 = map pb_pid bs"
    using g1(4) by (auto simp: budgets_charged_def list_all2_conv_all_nth intro: nth_equalityI)
  then have pids: "pb_pid ` set bs1 = pb_pid ` set bs" by (metis set_map)
  have run: "plan_pairs None (qsort ComparePairPlan ins) c bs = Inr (ps, c1, bs1)"
    using plans ne by (auto simp: BuildPairPlans_def split: if_splits)
  have bud: "\<forall>p \<in> set ins. pl_pid p \<in> pb_pid ` set bs"
    using plan_pairs_distinct [OF run plan_order.sorted_qsort g1(1)] by simp
  have "\<not> swap_plan_invalid m c1 bs1 p" if p: "p \<in> set ps" for p
  proof -
    obtain q where q: "q \<in> set ins" "plan_of q p" using plan_of_remote [OF g1(2) p] by auto
    note ids = plan_of_ids [OF q(2)]
    obtain a where a: "a \<in> set (pm_attrs m)" "\<not> skip_process True a" "pl_pid q = pa_pid a" using procs q(1) by auto
    have ga: "GetProcessAttr m (pl_pid p) = Some a" using GetProcessAttr_managed [OF dist a(1)] a(3) ids(1) by simp
    have "pl_pid p \<in> pb_pid ` set bs1" using bud q(1) ids(1) pids by simp
    then obtain k where k: "k < length bs1" "pb_pid (bs1 ! k) = pl_pid p" by (metis imageE in_set_conv_nth)
    then have fk: "FindPairPidBudget bs1 (pl_pid p) = Inr k" using FindPairPidBudget_eq(1) ok1 by (simp add: budgets_ok_def)
    have "pb_plannedPages (bs1 ! k) \<le> pb_maxMigratePages (bs1 ! k)" using ok1 k(1) by (simp add: budgets_ok_def)
    moreover have "plan_valid (pc_nrLocalNuma c) p" using g1(3) p by (simp add: list_all_iff)
    moreover have "IsPairPlanDirectionValid p" using q(2) by (simp add: plan_of_def)
    moreover have "\<not> pa_groupPolicyEnabled a" using a(2) by (simp add: skip_process_def)
    ultimately show ?thesis by (auto simp: swap_plan_invalid_def fk ga nr plan_valid_def not_less)
  qed
  then have valid: "\<not> list_ex (swap_plan_invalid m c1 bs1) ps" by (simp add: list_ex_iff)
  have "bs1 \<noteq> []" using bud ne pids by (cases ins) auto
  then show ?thesis using iff(1,2) len valid
    by (auto simp: BuildPairSwapPlans_def Let_def split: prod.split)
qed

lemma FindPairPlanMatrixStage_exists:
  "pid \<in> (\<lambda>st. pa_pid (pm_attrs m ! ms_process st)) ` set stages \<Longrightarrow> \<exists>s. FindPairPlanMatrixStage m stages pid = Some s"
  by (induction stages) auto

lemma apply_succeeds:
  assumes "length ps \<le> MAX_PAIR_TARGET_COUNT" and nr: "0 < unat (pm_nrLocalNuma m)" "unat (pm_nrLocalNuma m) \<le> 8"
    and len: "length (pm_attrs m) \<le> MAX_4K_PROCESSES_CNT" and key: "distinct (map plan_key ps)"
    and ps: "\<forall>p \<in> set ps. plan_valid (int (unat (pm_nrLocalNuma m))) p \<and> IsPairPlanDirectionValid p \<and>
      pl_pid p \<in> pa_pid ` set (managed_processes m True) \<and>
      unat (pl_demotePages p) + unat (pl_swapPages p) \<le> UINT32_MAX \<and> unat (pl_promotePages p) + unat (pl_swapPages p) \<le> UINT32_MAX"
  shows "\<exists>m'. ApplyPairPlansForState False m ps = Inr m'"
proof -
  let ?ks = "filter (\<lambda>k. migrating (pm_attrs m ! k)) [0..<length (pm_attrs m)]"
  let ?stages = "map (\<lambda>k. \<lparr>ms_process = k, ms_pairSeen = (\<lambda>_ _. False), ms_nrMigratePages = (\<lambda>_ _. 0)\<rparr>) ?ks"
  have "length ?ks \<le> length (pm_attrs m)" using length_filter_le [of _ "[0..<length (pm_attrs m)]"] by simp
  then have ks: "length ?ks \<le> 300" using len by simp
  have "\<exists>s. FindPairPlanMatrixStage m ?stages (pl_pid p) = Some s \<and>
      \<not> ms_pairSeen (?stages ! s) (nat (pl_localNid p)) (nat (pl_remoteIndex p))" if p: "p \<in> set ps" for p
  proof -
    obtain a where a: "a \<in> set (pm_attrs m)" "\<not> skip_process True a" "pl_pid p = pa_pid a" using ps p by auto
    then obtain k where k: "k < length (pm_attrs m)" "pm_attrs m ! k = a" by (auto simp: in_set_conv_nth)
    have "migrating a" using a(2) by (simp add: migrating_def skip_process_def)
    then have "pl_pid p \<in> (\<lambda>st. pa_pid (pm_attrs m ! ms_process st)) ` set ?stages" using k a(3) by force
    from FindPairPlanMatrixStage_exists [OF this] obtain s where s: "FindPairPlanMatrixStage m ?stages (pl_pid p) = Some s" by blast
    then have "s < length ?stages" using FindPairPlanMatrixStage_Some by blast
    then show ?thesis using s by auto
  qed
  then have "\<exists>stages'. apply_plans m ps ?stages = Inr stages'" using ps key by (intro apply_plans_succeeds) auto
  then show ?thesis using assms(1) nr ks
    by (auto simp: ApplyPairPlansForState_def Let_def unat_gt_0 not_less word_le_nat_alt)
qed

lemma cycle_succeeds:
  assumes dist: "distinct (map pa_pid (pm_attrs m))" and len: "length (pm_attrs m) \<le> MAX_4K_PROCESSES_CNT"
    and cap: "0 < cap" "cap \<le> MAX_PAIR_TARGET_COUNT"
    and inputs: "BuildAllPairPlanInputsForState False m cap MAX_4K_PROCESSES_CNT True = (Inr (ins, bs), m1)"
  shows "\<exists>ps m'. BuildAllPairPlans (\<lambda>_. False) nf nh g m cap = (Inr ps, m')"
proof -
  let ?n = "unat (pm_nrLocalNuma m)"
  let ?ins = "filter (\<lambda>input. \<not> IsNodeForbidden (nat (pl_remoteNid input)) g) ins"
  note i = plan_inputs_ok [OF inputs dist]
  have n: "0 < ?n" "?n \<le> 8" by (rule i)+
  obtain c0 where c0: "CollectNodeFreeSnapshot nf nh (unat (pm_pageSize m) = PAGESIZE_2M) (int ?n) = Inr c0"
    using n by (simp add: CollectNodeFreeSnapshot_def del: of_nat_unat)
  have nr0: "pc_nrLocalNuma c0 = int ?n" by (rule CollectNodeFreeSnapshot_Inr(1) [OF c0])
  have "distinct (map plan_key ?ins)" using i(1) by (simp add: inputs_ok_def distinct_map_filter)
  moreover have "length ?ins \<le> cap" using i(2) length_filter_le le_trans by blast
  ultimately have "\<exists>r. BuildPairPlans False ?ins c0 bs cap = Inr r"
    unfolding BuildPairPlans_iff using i(1,3) cap n nr0 by (auto simp: inputs_ok_def simp del: of_nat_unat)
  then obtain ps1 c1 bs1 where p1: "BuildPairPlans False ?ins c0 bs cap = Inr (ps1, c1, bs1)" by auto
  have dist1: "distinct (map pa_pid (pm_attrs m1))" using dist i(6) by simp
  have man: "managed_processes m1 True = managed_processes m True" using i(6) by simp
  obtain ps c2 bs2 where p2: "BuildPairSwapPlans m1 g ps1 c1 bs1 = Inr (ps, c2, bs2)"
  proof (cases "?ins = []")
    case True
    then have "ps1 = []" "length bs1 \<le> 300" using p1 i(3) by (auto simp: BuildPairPlans_def split: if_splits)
    then show ?thesis using that by (simp add: BuildPairSwapPlans_def)
  next
    case False
    have "\<forall>p \<in> set ?ins. pl_pid p \<in> pa_pid ` set (managed_processes m1 True)" unfolding man using i(1) by (simp add: inputs_ok_def)
    from swap_plans_succeed [OF p1 False dist1 this] that show ?thesis by auto
  qed
  note safe = cycle_safe [OF c0 i(1) p1 p2 dist]
  have "\<exists>m'. ApplyPairPlansForState False m1 ps = Inr m'"
  proof (cases "?ins = []")
    case True
    then have "ps1 = []" using p1 by (auto simp: BuildPairPlans_def split: if_splits)
    then have "ps = []" using safe(4) by simp
    then show ?thesis using apply_succeeds [of "[]" m1] n i(6,7) len by simp
  next
    case False
    note g1 = BuildPairPlans_gen [OF p1 False]
    have keys: "map plan_key ps = map plan_key ps1"
      using safe(4) by (auto simp: list_all2_conv_all_nth swap_only_ids(12) intro: nth_equalityI)
    show ?thesis
    proof (rule apply_succeeds)
      have "length ps = length ?ins" using list_all2_lengthD [OF g1(2)] list_all2_lengthD [OF safe(4)] by simp
      then show "length ps \<le> MAX_PAIR_TARGET_COUNT" using \<open>length ?ins \<le> cap\<close> cap(2) by simp
      show "0 < unat (pm_nrLocalNuma m1)" "unat (pm_nrLocalNuma m1) \<le> 8" "length (pm_attrs m1) \<le> MAX_4K_PROCESSES_CNT" using n i(6,7) len by simp_all
      show "distinct (map plan_key ps)" unfolding keys using g1(7) by (simp add: strict_sorted_iff)
      show "\<forall>p \<in> set ps. plan_valid (int (unat (pm_nrLocalNuma m1))) p \<and> IsPairPlanDirectionValid p \<and>
        pl_pid p \<in> pa_pid ` set (managed_processes m1 True) \<and>
        unat (pl_demotePages p) + unat (pl_swapPages p) \<le> UINT32_MAX \<and> unat (pl_promotePages p) + unat (pl_swapPages p) \<le> UINT32_MAX"
      proof
        fix p
        assume p: "p \<in> set ps"
        obtain q where q: "q \<in> set ps1" "swap_only q p" using swap_only_remote [OF safe(4) p] by blast
        obtain i0 where i0: "i0 \<in> set ?ins" "plan_of i0 q" using plan_of_remote [OF g1(2) q(1)] by auto
        have pid: "pl_pid p = pl_pid i0" using swap_only_ids(1) [OF q(2)] plan_of_ids(1) [OF i0(2)] by simp
        then have in_m: "pl_pid p \<in> pa_pid ` set (managed_processes m True)" using i0(1) i(1) by (simp add: inputs_ok_def)
        then obtain a where a: "a \<in> set (pm_attrs m)" "pl_pid p = pa_pid a" by auto
        have "planned p + 2 * unat (pl_swapPages p) \<le> unat (wp_nrPage (pa_walkPage a))"
          using swapped_member [OF p] safe(2) [OF a(1)] a(2) by simp
        then have "planned p + 2 * unat (pl_swapPages p) \<le> UINT32_MAX" by (rule le_u32)
        moreover have "plan_valid (int ?n) p" using g1(3) q swap_only_ids(10) [OF q(2)] nr0 by (simp add: list_all_iff)
        ultimately show "plan_valid (int (unat (pm_nrLocalNuma m1))) p \<and> IsPairPlanDirectionValid p \<and>
          pl_pid p \<in> pa_pid ` set (managed_processes m1 True) \<and>
          unat (pl_demotePages p) + unat (pl_swapPages p) \<le> UINT32_MAX \<and> unat (pl_promotePages p) + unat (pl_swapPages p) \<le> UINT32_MAX"
          using safe(3) [OF p] in_m i(6,7) by (simp add: planned_def)
      qed
    qed
  qed
  then obtain m' where p3: "ApplyPairPlansForState False m1 ps = Inr m'" by blast
  have "BuildAllPairPlans (\<lambda>_. False) nf nh g m cap = (Inr ps, m')"
    unfolding BuildAllPairPlans_def Let_def c0 inputs sum.case prod.case p1 p2 p3 using cap by simp
  then show ?thesis by blast
qed


section \<open>A small machine\<close>

text \<open>The inputs of a cycle can be collected when every migrating process has a valid configuration.\<close>

lemma plan_inputs_succeed:
  assumes dist: "distinct (map pa_pid (pm_attrs m))" and nr: "0 < unat (pm_nrLocalNuma m)" "unat (pm_nrLocalNuma m) \<le> 8"
    and cap: "cap \<le> MAX_PAIR_TARGET_COUNT" and bcap: "length (managed_processes m mo) \<le> bcap"
    and snap: "BuildPairArbitrationSnapshotLocked m cap mo = Inr (es, pc, tc)"
  shows "\<exists>ins bs m'. BuildAllPairPlanInputsForState False m cap bcap mo = (Inr (ins, bs), m')"
proof -
  let ?pid = "\<lambda>i. pt_pid (ae_target (es ! i))"
  let ?firsts = "filter (first_of_pid es) [0..<length es]"
  note e = managed_collected [OF snap cap dist] and proc = BuildAllPairTargets_entries(1) [OF snap cap]
  have first: "first_of_pid es = (\<lambda>i. i = 0 \<or> ?pid i \<noteq> ?pid (i - 1))" by (simp add: first_of_pid_def fun_eq_iff)
  have "pt_pid (ae_target x) \<le> pt_pid (ae_target y)" if "entry_key x \<le> entry_key y" for x y
    using that by (auto simp: entry_key_def less_eq_prod_def)
  then have mono: "?pid i \<le> ?pid j" if "i \<le> j" "j < length es" for i j
    using sorted_nth_mono [OF e(1), of i j] that by simp
  have "distinct (map ?pid ?firsts)"
    unfolding first using firsts_strict [of "length es" ?pid] mono by (simp add: strict_sorted_iff)
  then have "length ?firsts = card (set (map ?pid ?firsts))" using distinct_card [of "map ?pid ?firsts"] by simp
  also have "\<dots> \<le> card (pa_pid ` set (managed_processes m mo))"
  proof (rule card_mono)
    show "set (map ?pid ?firsts) \<subseteq> pa_pid ` set (managed_processes m mo)" using proc by fastforce
  qed simp
  also have "\<dots> \<le> length (managed_processes m mo)" by (rule le_trans [OF card_image_le card_length]) simp
  finally have "\<not> length ?firsts > bcap" using bcap by simp
  then show ?thesis using nr cap snap
    by (auto simp: BuildAllPairPlanInputsForState_def Let_def unat_gt_0 not_less split: prod.split)
qed

text \<open>The machine of \<open>demo_manager\<close> with both processes migrating.\<close>

definition cycle_manager :: ProcessManager where
  "cycle_manager = demo_manager\<lparr>pm_attrs := [(demo_attr 7)\<lparr>pa_state := PROC_MIGRATE\<rparr>, (demo_attr 3)\<lparr>pa_state := PROC_MIGRATE\<rparr>]\<rparr>"

lemma cycle_manager_simps [simp]:
  "pm_nrLocalNuma cycle_manager = 1" "pm_pageSize cycle_manager = 4096"
  "pm_attrs cycle_manager = [(demo_attr 7)\<lparr>pa_state := PROC_MIGRATE\<rparr>, (demo_attr 3)\<lparr>pa_state := PROC_MIGRATE\<rparr>]"
  "pm_remoteNumaInfo cycle_manager = pm_remoteNumaInfo demo_manager"
  by (simp_all add: cycle_manager_def)

lemma cycle_inputs: "\<exists>ins bs m'. BuildAllPairPlanInputsForState False cycle_manager 43200 300 True = (Inr (ins, bs), m')"
proof -
  have ok: "request_input_ok ((demo_attr pid)\<lparr>pa_state := PROC_MIGRATE\<rparr>)
      (BuildPairRequestContext cycle_manager (\<lambda>_ _. 0) (\<lambda>_. 0) ((demo_attr pid)\<lparr>pa_state := PROC_MIGRATE\<rparr>))" for pid
    by (simp add: request_input_ok_def BuildPairRequestContext_def demo_attr_def ProcessAttr_zero_def config_targets_def
        config_distinct_def target_ok_def)
  have len: "length (managed_processes cycle_manager True) \<le> 2" using length_filter_le [of _ "pm_attrs cycle_manager"] by simp
  have "\<exists>es pc tc. BuildPairArbitrationSnapshotLocked cycle_manager 43200 True = Inr (es, pc, tc)"
    by (rule BuildPairArbitrationSnapshotLocked_succeeds) (use len ok in auto)
  then obtain es pc tc where s: "BuildPairArbitrationSnapshotLocked cycle_manager 43200 True = Inr (es, pc, tc)" by blast
  show ?thesis by (rule plan_inputs_succeed [OF _ _ _ _ _ s]) (use len in auto)
qed

lemma cycle_demo: "\<exists>ps m'. BuildAllPairPlans (\<lambda>_. False) (\<lambda>_. 50) (\<lambda>_. 0) (\<lambda>_. 0) cycle_manager 43200 = (Inr ps, m')"
proof -
  obtain ins bs m1 where "BuildAllPairPlanInputsForState False cycle_manager 43200 300 True = (Inr (ins, bs), m1)" using cycle_inputs by blast
  then show ?thesis by (intro cycle_succeeds) simp_all
qed

section \<open>Properties\<close>

text \<open>C8. One cycle is safe end to end: the pages that all plans together bring to a local node, promoted or exchanged, are at most its
  free pages; the pages that the plans of a process move are at most the pages of the process; no plan concerns a disabled remote
  node, and every plan goes towards its target.\<close>

theorem BuildAllPairPlans_safe:
  assumes "BuildAllPairPlans allocFails nf nh g m cap = (Inr ps, m')" and "distinct (map pa_pid (pm_attrs m))"
  shows "(\<forall>l<unat (pm_nrLocalNuma m). promoted l ps + swapped_at l ps \<le> unat (free_pages nf nh m l)) \<and>
    (\<forall>a \<in> set (pm_attrs m). charged (pa_pid a) ps + 2 * swapped_by (pa_pid a) ps \<le> unat (wp_nrPage (pa_walkPage a))) \<and>
    (\<forall>p \<in> set ps. \<not> IsNodeForbidden (nat (pl_remoteNid p)) g \<and> IsPairPlanDirectionValid p)"
proof -
  obtain c0 ins bs m1 ps1 c1 bs1 c2 bs2 where
    snap: "CollectNodeFreeSnapshot nf nh (unat (pm_pageSize m) = PAGESIZE_2M) (int (unat (pm_nrLocalNuma m))) = Inr c0"
    and ins: "BuildAllPairPlanInputsForState (allocFails 1) m cap 300 True = (Inr (ins, bs), m1)"
    and plans: "BuildPairPlans (allocFails 2) (filter (\<lambda>input. \<not> IsNodeForbidden (nat (pl_remoteNid input)) g) ins) c0 bs cap = Inr (ps1, c1, bs1)"
    and swaps: "BuildPairSwapPlans m1 g ps1 c1 bs1 = Inr (ps, c2, bs2)" by (rule BuildAllPairPlans_cases [OF assms(1)])
  from cycle_safe [OF snap plan_inputs_ok(1) [OF ins assms(2)] plans swaps assms(2)] show ?thesis by blast
qed

theorem BuildAllPairPlans_safe_witness:
  "\<exists>ps m'. BuildAllPairPlans (\<lambda>_. False) (\<lambda>_. 50) (\<lambda>_. 0) (\<lambda>_. 0) cycle_manager 43200 = (Inr ps, m') \<and>
    promoted 0 ps + swapped_at 0 ps \<le> 50"
proof -
  obtain ps m' where r: "BuildAllPairPlans (\<lambda>_. False) (\<lambda>_. 50) (\<lambda>_. 0) (\<lambda>_. 0) cycle_manager 43200 = (Inr ps, m')"
    using cycle_demo by blast
  have "distinct (map pa_pid (pm_attrs cycle_manager))" by simp
  from BuildAllPairPlans_safe [OF r this] have "promoted 0 ps + swapped_at 0 ps \<le> 50" by (auto dest: spec [of _ 0])
  with r show ?thesis by blast
qed

text \<open>Planning and application react to a failing allocation with \<^verbatim>\<open>-ENOMEM\<close> or do not allocate at all.\<close>

lemma plans_alloc:
  "BuildPairPlans False ins c bs cap = Inr r \<Longrightarrow> BuildPairPlans True ins c bs cap \<in> {Inr r, Inl ENOMEM}"
  by (auto simp: BuildPairPlans_def split: if_splits)

lemma apply_alloc: "ApplyPairPlansForState False m ps = Inr m' \<Longrightarrow> ApplyPairPlansForState True m ps = Inl ENOMEM"
  by (auto simp: ApplyPairPlansForState_def split: if_splits)

lemma cycle_alloc:
  assumes ok: "BuildAllPairPlans (\<lambda>_. False) nf nh g m cap = (Inr ps, m')"
  shows "(\<exists>m'. BuildAllPairPlans allocFails nf nh g m cap = (Inr ps, m')) \<or>
    (\<exists>m'. BuildAllPairPlans allocFails nf nh g m cap = (Inl ENOMEM, m')) \<and> (\<exists>i < 4. allocFails i)"
proof -
  obtain c0 ins' bs' m1' ps1 c1 bs1 c2 bs2 where
    snap: "CollectNodeFreeSnapshot nf nh (unat (pm_pageSize m) = PAGESIZE_2M) (int (unat (pm_nrLocalNuma m))) = Inr c0"
    and ins': "BuildAllPairPlanInputsForState False m cap MAX_4K_PROCESSES_CNT True = (Inr (ins', bs'), m1')"
    and plans: "BuildPairPlans False (filter (\<lambda>input. \<not> IsNodeForbidden (nat (pl_remoteNid input)) g) ins') c0 bs' cap = Inr (ps1, c1, bs1)"
    and swaps: "BuildPairSwapPlans m1' g ps1 c1 bs1 = Inr (ps, c2, bs2)" and appl: "ApplyPairPlansForState False m1' ps = Inr m'"
    by (rule BuildAllPairPlans_cases [OF ok])
  have cap: "0 < cap" "cap \<le> MAX_PAIR_TARGET_COUNT" using ok by (auto simp: BuildAllPairPlans_def split: if_splits)
  have in1: "BuildAllPairPlanInputsForState True m cap MAX_4K_PROCESSES_CNT True = (Inl ENOMEM, m)"
    using ins' cap by (auto simp: BuildAllPairPlanInputsForState_def split: if_splits)
  note p2 = plans_alloc [OF plans] and p3 = apply_alloc [OF appl]
  show ?thesis
  proof (cases "\<exists>i < 4. allocFails i")
    case True
    show ?thesis
    proof (cases "allocFails 0 \<or> allocFails 1")
      case True
      then show ?thesis using cap \<open>\<exists>i < 4. allocFails i\<close> unfolding BuildAllPairPlans_def snap Let_def
        by (cases "allocFails 0") (simp_all add: in1)
    next
      case False
      have "\<exists>m'. BuildAllPairPlans allocFails nf nh g m cap \<in> {(Inr ps, m'), (Inl ENOMEM, m')}"
        using False cap p2 unfolding BuildAllPairPlans_def snap Let_def
        by (cases "allocFails 2"; cases "allocFails 3") (auto simp: ins' plans swaps appl p3)
      then show ?thesis using True by blast
    qed
  next
    case False
    then have "\<not> allocFails 0" "\<not> allocFails 1" "\<not> allocFails 2" "\<not> allocFails 3" by auto
    then show ?thesis using cap unfolding BuildAllPairPlans_def snap Let_def by (simp add: ins' plans swaps appl)
  qed
qed

text \<open>C9. A cycle completes unless memory runs out. Once the plan inputs of the migrating processes can be collected, planning,
  swap planning and the update of the migration matrices succeed, whatever nodes are disabled and however few pages are free; the
  only error of the call is \<^verbatim>\<open>-ENOMEM\<close>, and it returns that only if one of its four allocations fails. The processes are the same
  throughout the call: no other thread adds or removes one meanwhile.\<close>

theorem BuildAllPairPlans_completes:
  assumes "distinct (map pa_pid (pm_attrs m))" and "length (pm_attrs m) \<le> MAX_4K_PROCESSES_CNT"
    and "0 < cap" and "cap \<le> MAX_PAIR_TARGET_COUNT"
    and "BuildAllPairPlanInputsForState False m cap MAX_4K_PROCESSES_CNT True = (Inr (ins, bs), m1)"
  shows "case fst (BuildAllPairPlans allocFails nf nh g m cap) of Inr ps \<Rightarrow> True | Inl e \<Rightarrow> e = ENOMEM \<and> (\<exists>i < 4. allocFails i)"
proof -
  obtain ps m' where "BuildAllPairPlans (\<lambda>_. False) nf nh g m cap = (Inr ps, m')" using cycle_succeeds [OF assms] by blast
  from cycle_alloc [OF this, of allocFails] show ?thesis by (auto split: sum.splits)
qed

theorem BuildAllPairPlans_completes_witness:
  "\<exists>ps. fst (BuildAllPairPlans (\<lambda>_. False) (\<lambda>_. 0) (\<lambda>_. 0) (\<lambda>_. 1) cycle_manager 43200) = Inr ps"
proof -
  obtain ins bs m1 where r: "BuildAllPairPlanInputsForState False cycle_manager 43200 300 True = (Inr (ins, bs), m1)" using cycle_inputs by blast
  have "case fst (BuildAllPairPlans (\<lambda>_. False) (\<lambda>_. 0) (\<lambda>_. 0) (\<lambda>_. 1) cycle_manager 43200) of
      Inr ps \<Rightarrow> True | Inl e \<Rightarrow> e = ENOMEM \<and> (\<exists>i < (4 :: nat). False)"
    by (rule BuildAllPairPlans_completes [OF _ _ _ _ r]) simp_all
  then show ?thesis by (auto split: sum.splits)
qed

text \<open>C10. The plans reach the processes: after a cycle every migrating process has the matrix of its own plans and nothing else of the
  processes has changed; the matrix holds, for every plan, the demoted and exchanged pages from the local to the remote node and the
  promoted and exchanged pages the other way.\<close>

theorem BuildAllPairPlans_matrices:
  assumes "BuildAllPairPlans allocFails nf nh g m cap = (Inr ps, m')" and "distinct (map pa_pid (pm_attrs m))"
  shows "pm_attrs m' = map (\<lambda>a. if migrating a then with_matrix a (plan_matrix ps (pa_pid a) (\<lambda>_ _. 0)) else a) (pm_attrs m) \<and>
    (\<forall>p \<in> set ps.
      plan_matrix ps (pl_pid p) (\<lambda>_ _. 0) (nat (pl_localNid p)) (nat (pl_remoteNid p)) = pl_demotePages p + pl_swapPages p \<and>
      plan_matrix ps (pl_pid p) (\<lambda>_ _. 0) (nat (pl_remoteNid p)) (nat (pl_localNid p)) = pl_promotePages p + pl_swapPages p)"
proof -
  obtain c0 ins bs m1 ps1 c1 bs1 c2 bs2 where
    snap: "CollectNodeFreeSnapshot nf nh (unat (pm_pageSize m) = PAGESIZE_2M) (int (unat (pm_nrLocalNuma m))) = Inr c0"
    and ins: "BuildAllPairPlanInputsForState (allocFails 1) m cap 300 True = (Inr (ins, bs), m1)"
    and plans: "BuildPairPlans (allocFails 2) (filter (\<lambda>input. \<not> IsNodeForbidden (nat (pl_remoteNid input)) g) ins) c0 bs cap = Inr (ps1, c1, bs1)"
    and swaps: "BuildPairSwapPlans m1 g ps1 c1 bs1 = Inr (ps, c2, bs2)" and appl: "ApplyPairPlansForState (allocFails 3) m1 ps = Inr m'"
    by (rule BuildAllPairPlans_cases [OF assms(1)])
  note i = plan_inputs_ok [OF ins assms(2)]
  have attrs: "pm_attrs m' = map (\<lambda>a. if migrating a then with_matrix a (plan_matrix ps (pa_pid a) (\<lambda>_ _. 0)) else a) (pm_attrs m)"
    using ApplyPairPlansForState_gen [OF appl] assms(2) i(6) by simp
  have l2: "list_all2 swap_only ps1 ps" using cycle_safe(4) [OF snap i(1) plans swaps assms(2)] .
  have nr0: "pc_nrLocalNuma c0 = int (unat (pm_nrLocalNuma m))" by (rule CollectNodeFreeSnapshot_Inr(1) [OF snap])
  show ?thesis
  proof (cases "filter (\<lambda>input. \<not> IsNodeForbidden (nat (pl_remoteNid input)) g) ins = []")
    case True
    then have "ps1 = []" using plans by (auto simp: BuildPairPlans_def split: if_splits)
    then show ?thesis using l2 attrs by simp
  next
    case False
    note g1 = BuildPairPlans_gen [OF plans False]
    have keys: "map plan_key ps = map plan_key ps1"
      using l2 by (auto simp: list_all2_conv_all_nth swap_only_ids(12) intro: nth_equalityI)
    have "distinct (map plan_key ps)" unfolding keys using g1(7) by (simp add: strict_sorted_iff)
    moreover have "plan_valid (int (unat (pm_nrLocalNuma m))) p" if p: "p \<in> set ps" for p
    proof -
      obtain q where q: "q \<in> set ps1" "swap_only q p" using swap_only_remote [OF l2 p] by blast
      then show ?thesis using g1(3) swap_only_ids(10) [OF q(2)] nr0 by (simp add: list_all_iff)
    qed
    ultimately show ?thesis using attrs plan_matrix_at by blast
  qed
qed

theorem BuildAllPairPlans_matrices_witness:
  "\<exists>ps m'. BuildAllPairPlans (\<lambda>_. False) (\<lambda>_. 50) (\<lambda>_. 0) (\<lambda>_. 0) cycle_manager 43200 = (Inr ps, m') \<and>
    length (pm_attrs m') = 2"
proof -
  obtain ps m' where r: "BuildAllPairPlans (\<lambda>_. False) (\<lambda>_. 50) (\<lambda>_. 0) (\<lambda>_. 0) cycle_manager 43200 = (Inr ps, m')"
    using cycle_demo by blast
  have "distinct (map pa_pid (pm_attrs cycle_manager))" by simp
  from BuildAllPairPlans_matrices [OF r this] have "length (pm_attrs m') = 2" by simp
  with r show ?thesis by blast
qed

end
