(* ===== verification/Pid_Slots.thy ===== *)
theory Pid_Slots
  imports Smap_Prelude
begin

text \<open>
  The slot table of the managed processes (\<^verbatim>\<open>plugins/smap/src/user/manage/manage.c\<close>, lines 437 to
  628, and \<^verbatim>\<open>struct PidSlot\<close> of \<^verbatim>\<open>manage.h\<close>): an array of 300 slots with an atomic state, a pid, a
  pointer to the attributes of the process and a reference count. A process is registered in a
  free slot, is looked up by taking a reference on its slot, and is removed by taking back the
  reference of the table; the attributes are freed when the last reference goes.

  The first half models every operation as a function on the table, for calls that run one
  after the other; the second half models the same operations one atomic access at a time, and
  lets any number of threads interleave them.

  A pointer is an address. \<open>st_heap\<close> holds the attribute objects that are allocated, and
  \<open>st_fault\<close> records a \<^verbatim>\<open>free\<close> of an address that is not: a double free. A reference count is an
  \<^verbatim>\<open>int\<close> that is only stepped by one; it would take \<open>2 ^ 31\<close> references held at once to overflow
  it.
\<close>

section \<open>Slots, attribute objects and the table\<close>

definition MAX_PID_SLOTS :: nat where
  "MAX_PID_SLOTS = 300"

datatype PidSlotState = PID_SLOT_FREE | PID_SLOT_RESERVED | PID_SLOT_INUSE | PID_SLOT_REMOVING

record PidSlot =
  ps_state :: PidSlotState
  ps_pid :: int
  ps_attr :: "nat option"
  ps_refs :: int

text \<open>
  Of a \<^verbatim>\<open>ProcessAttr\<close> object the table reads the pid and frees the scan buffer: \<open>ao_actcData\<close> is
  the array of the \<^verbatim>\<open>MAX_NODES\<close> pointers into it.
\<close>

record AttrObject =
  ao_pid :: int
  ao_actcData :: "nat option list"

record SlotTable =
  st_slots :: "PidSlot list"
  st_heap :: "nat \<Rightarrow> AttrObject option"
  st_buffersFreed :: "nat list"
  st_fault :: bool

abbreviation slot :: "SlotTable \<Rightarrow> nat \<Rightarrow> PidSlot" where
  "slot t i \<equiv> st_slots t ! i"

definition upd_slot :: "nat \<Rightarrow> (PidSlot \<Rightarrow> PidSlot) \<Rightarrow> SlotTable \<Rightarrow> SlotTable" where
  "upd_slot i f t = t\<lparr>st_slots := (st_slots t)[i := f (slot t i)]\<rparr>"

section \<open>The operations\<close>

text \<open>
  \<^verbatim>\<open>AtomicIncrease\<close> and \<^verbatim>\<open>AtomicDecrease\<close> retry a compare-and-swap until it hits: the old value is
  returned, the new one is stored. Here they act on the reference count of a slot.
\<close>

definition AtomicIncrease :: "nat \<Rightarrow> int \<Rightarrow> SlotTable \<Rightarrow> int \<times> SlotTable" where
  "AtomicIncrease i v t = (ps_refs (slot t i), upd_slot i (\<lambda>s. s\<lparr>ps_refs := ps_refs s + v\<rparr>) t)"

definition AtomicDecrease :: "nat \<Rightarrow> int \<Rightarrow> SlotTable \<Rightarrow> int \<times> SlotTable" where
  "AtomicDecrease i v t = (ps_refs (slot t i), upd_slot i (\<lambda>s. s\<lparr>ps_refs := ps_refs s - v\<rparr>) t)"

text \<open>\<^verbatim>\<open>ResetActcData\<close> returns the buffer it frees, the first pointer that is not null, and the cleared array.\<close>

definition ResetActcData :: "nat option list \<Rightarrow> nat option \<times> nat option list" where
  "ResetActcData actcData =
     (Option.bind (find (\<lambda>p. p \<noteq> None) actcData) (\<lambda>p. p), map (\<lambda>_. None) actcData)"

definition FreeProceccesAttr :: "nat option \<Rightarrow> SlotTable \<Rightarrow> SlotTable" where
  "FreeProceccesAttr attr t =
     (case attr of
        None \<Rightarrow> t
      | Some a \<Rightarrow>
          (case st_heap t a of
             None \<Rightarrow> t\<lparr>st_fault := True\<rparr>
           | Some ob \<Rightarrow>
               (let buf = fst (ResetActcData (ao_actcData ob)) in
                t\<lparr>st_heap := (st_heap t)(a := None),
                  st_buffersFreed := (case buf of None \<Rightarrow> st_buffersFreed t | Some b \<Rightarrow> b # st_buffersFreed t)\<rparr>)))"

definition PidSlotInit :: "SlotTable \<Rightarrow> SlotTable" where
  "PidSlotInit t =
     t\<lparr>st_slots := replicate MAX_PID_SLOTS
        \<lparr>ps_state = PID_SLOT_FREE, ps_pid = 0, ps_attr = None, ps_refs = 0\<rparr>\<rparr>"

definition PidSlotTryReclaim :: "nat \<Rightarrow> SlotTable \<Rightarrow> SlotTable" where
  "PidSlotTryReclaim i t =
     (if ps_refs (slot t i) \<noteq> 0 then t
      else if ps_state (slot t i) \<noteq> PID_SLOT_REMOVING then t
      else
        (let t1 = upd_slot i (\<lambda>s. s\<lparr>ps_state := PID_SLOT_RESERVED\<rparr>) t;
             t2 = FreeProceccesAttr (ps_attr (slot t1 i)) t1 in
         upd_slot i (\<lambda>s. s\<lparr>ps_attr := None, ps_pid := 0, ps_state := PID_SLOT_FREE\<rparr>) t2))"

text \<open>\<^verbatim>\<open>attr->pid\<close>.\<close>

definition attr_pid :: "SlotTable \<Rightarrow> nat \<Rightarrow> int" where
  "attr_pid t a = (case st_heap t a of None \<Rightarrow> 0 | Some ob \<Rightarrow> ao_pid ob)"

fun slot_add :: "nat list \<Rightarrow> nat \<Rightarrow> SlotTable \<Rightarrow> nat option \<times> SlotTable" where
  "slot_add [] attr t = (None, t)"
| "slot_add (i # is) attr t =
     (if ps_state (slot t i) \<noteq> PID_SLOT_FREE then slot_add is attr t
      else (Some i,
        upd_slot i (\<lambda>s. s\<lparr>ps_pid := attr_pid t attr, ps_attr := Some attr, ps_refs := 1, ps_state := PID_SLOT_INUSE\<rparr>) t))"

text \<open>The index of the slot taken, or \<open>None\<close> for the result \<open>-1\<close>.\<close>

definition PidSlotAdd :: "nat \<Rightarrow> SlotTable \<Rightarrow> nat option \<times> SlotTable" where
  "PidSlotAdd attr t = slot_add [0..<MAX_PID_SLOTS] attr t"

text \<open>The release of one reference, which every operation below shares.\<close>

definition slot_release :: "nat \<Rightarrow> SlotTable \<Rightarrow> SlotTable" where
  "slot_release i t =
     (let (oldv, t1) = AtomicDecrease i 1 t in
      if oldv = 1 then PidSlotTryReclaim i t1 else t1)"

fun slot_remove :: "nat list \<Rightarrow> int \<Rightarrow> SlotTable \<Rightarrow> SlotTable" where
  "slot_remove [] pid t = t"
| "slot_remove (i # is) pid t =
     (if ps_pid (slot t i) \<noteq> pid then slot_remove is pid t
      else if ps_state (slot t i) \<noteq> PID_SLOT_INUSE then t
      else slot_release i (upd_slot i (\<lambda>s. s\<lparr>ps_state := PID_SLOT_REMOVING\<rparr>) t))"

definition PidSlotRemove :: "int \<Rightarrow> SlotTable \<Rightarrow> SlotTable" where
  "PidSlotRemove pid t = slot_remove [0..<MAX_PID_SLOTS] pid t"

definition PidSlotEmpty :: "SlotTable \<Rightarrow> bool" where
  "PidSlotEmpty t \<longleftrightarrow> list_all (\<lambda>i. ps_state (slot t i) \<noteq> PID_SLOT_INUSE) [0..<MAX_PID_SLOTS]"

fun slot_get :: "nat list \<Rightarrow> int \<Rightarrow> SlotTable \<Rightarrow> nat option \<times> SlotTable" where
  "slot_get [] pid t = (None, t)"
| "slot_get (i # is) pid t =
     (if ps_state (slot t i) \<noteq> PID_SLOT_INUSE \<or> ps_pid (slot t i) \<noteq> pid then slot_get is pid t
      else
        (let t1 = snd (AtomicIncrease i 1 t) in
         if ps_state (slot t1 i) \<noteq> PID_SLOT_INUSE then slot_get is pid (slot_release i t1)
         else (Some i, t1)))"

definition PidSlotGetRef :: "int \<Rightarrow> SlotTable \<Rightarrow> nat option \<times> SlotTable" where
  "PidSlotGetRef pid t = slot_get [0..<MAX_PID_SLOTS] pid t"

fun slot_collect :: "nat list \<Rightarrow> nat \<Rightarrow> nat list \<Rightarrow> SlotTable \<Rightarrow> nat list \<times> SlotTable" where
  "slot_collect [] cap arr t = (arr, t)"
| "slot_collect (i # is) cap arr t =
     (if \<not> length arr < cap then (arr, t)
      else if ps_state (slot t i) \<noteq> PID_SLOT_INUSE then slot_collect is cap arr t
      else
        (let t1 = snd (AtomicIncrease i 1 t) in
         if ps_state (slot t1 i) \<noteq> PID_SLOT_INUSE then slot_collect is cap arr (slot_release i t1)
         else slot_collect is cap (arr @ [i]) t1))"

definition PidSlotCollectRefs :: "nat \<Rightarrow> SlotTable \<Rightarrow> nat list \<times> SlotTable" where
  "PidSlotCollectRefs cap t = slot_collect [0..<MAX_PID_SLOTS] cap [] t"

fun PidSlotReleaseRefs :: "nat option list \<Rightarrow> SlotTable \<Rightarrow> SlotTable" where
  "PidSlotReleaseRefs [] t = t"
| "PidSlotReleaseRefs (s # arr) t =
     PidSlotReleaseRefs arr (case s of None \<Rightarrow> t | Some i \<Rightarrow> slot_release i t)"

fun slot_put :: "nat list \<Rightarrow> nat \<Rightarrow> SlotTable \<Rightarrow> SlotTable" where
  "slot_put [] attr t = t"
| "slot_put (i # is) attr t =
     (if ps_attr (slot t i) \<noteq> Some attr then slot_put is attr t else slot_release i t)"

definition PutProcessAttr :: "nat option \<Rightarrow> SlotTable \<Rightarrow> SlotTable" where
  "PutProcessAttr attr t = (case attr of None \<Rightarrow> t | Some a \<Rightarrow> slot_put [0..<MAX_PID_SLOTS] a t)"

definition PidSlotAttr :: "nat option \<Rightarrow> SlotTable \<Rightarrow> nat option" where
  "PidSlotAttr s t = Option.bind s (\<lambda>i. ps_attr (slot t i))"

text \<open>\<^verbatim>\<open>GetProcessAttr\<close> on the slot table: the attributes of a process, with one reference taken.\<close>

definition SlotGetProcessAttr :: "int \<Rightarrow> SlotTable \<Rightarrow> nat option \<times> SlotTable" where
  "SlotGetProcessAttr pid t = (let (s, t1) = PidSlotGetRef pid t in (PidSlotAttr s t1, t1))"

section \<open>The invariant of the table\<close>

text \<open>
  \<open>held i\<close> counts the references that callers hold on slot \<open>i\<close>. A slot in use has one more: the
  table's own. A slot that is being removed keeps its attributes as long as a caller holds it.
\<close>

definition owns :: "(nat \<Rightarrow> AttrObject option) \<Rightarrow> PidSlot \<Rightarrow> bool" where
  "owns heap s \<longleftrightarrow>
     (case ps_attr s of None \<Rightarrow> False | Some a \<Rightarrow> (case heap a of None \<Rightarrow> False | Some ob \<Rightarrow> ao_pid ob = ps_pid s))"

definition slot_ok :: "(nat \<Rightarrow> AttrObject option) \<Rightarrow> nat \<Rightarrow> PidSlot \<Rightarrow> bool" where
  "slot_ok heap h s \<longleftrightarrow>
     (case ps_state s of
        PID_SLOT_FREE \<Rightarrow> ps_pid s = 0 \<and> ps_attr s = None \<and> ps_refs s = 0 \<and> h = 0
      | PID_SLOT_RESERVED \<Rightarrow> False
      | PID_SLOT_INUSE \<Rightarrow> ps_refs s = 1 + int h \<and> owns heap s
      | PID_SLOT_REMOVING \<Rightarrow> ps_refs s = int h \<and> h > 0 \<and> owns heap s)"

definition table_inv :: "SlotTable \<Rightarrow> (nat \<Rightarrow> nat) \<Rightarrow> bool" where
  "table_inv t held \<longleftrightarrow>
     length (st_slots t) = MAX_PID_SLOTS \<and>
     (\<forall>i < MAX_PID_SLOTS. slot_ok (st_heap t) (held i) (slot t i)) \<and>
     (\<forall>i < MAX_PID_SLOTS. \<forall>j < MAX_PID_SLOTS. i \<noteq> j \<longrightarrow> ps_attr (slot t i) \<noteq> None \<longrightarrow>
        ps_attr (slot t i) \<noteq> ps_attr (slot t j)) \<and>
     (\<forall>i \<ge> MAX_PID_SLOTS. held i = 0) \<and> \<not> st_fault t"

named_theorems slot_simps \<open>the effect of one update on the slots and the heap\<close>

lemma slot_upd [slot_simps]:
  "i < length (st_slots t) \<Longrightarrow> slot (upd_slot i f t) j = (if j = i then f (slot t i) else slot t j)"
  by (simp add: upd_slot_def)

lemma upd_slot_frame [slot_simps]:
  "length (st_slots (upd_slot i f t)) = length (st_slots t)"
  "st_heap (upd_slot i f t) = st_heap t" "st_fault (upd_slot i f t) = st_fault t"
  by (simp_all add: upd_slot_def)

lemma upd_slot_twice [slot_simps]:
  "i < length (st_slots t) \<Longrightarrow> upd_slot i f (upd_slot i g t) = upd_slot i (f \<circ> g) t"
  by (simp add: upd_slot_def)

lemma table_inv_length: "table_inv t held \<Longrightarrow> length (st_slots t) = MAX_PID_SLOTS"
  by (simp add: table_inv_def)

lemma table_inv_slot: "table_inv t held \<Longrightarrow> i < MAX_PID_SLOTS \<Longrightarrow> slot_ok (st_heap t) (held i) (slot t i)"
  by (simp add: table_inv_def)

lemma owns_cases:
  assumes "owns heap s"
  obtains a ob where "ps_attr s = Some a" "heap a = Some ob" "ao_pid ob = ps_pid s"
  using assms by (auto simp: owns_def split: option.splits)

lemma owns_upd [simp]:
  "owns heap (s\<lparr>ps_refs := r\<rparr>) = owns heap s" "owns heap (s\<lparr>ps_state := st\<rparr>) = owns heap s"
  by (simp_all add: owns_def split: option.splits)

text \<open>An update of one slot that keeps its attributes and its place in the invariant.\<close>

lemma table_inv_upd:
  assumes inv: "table_inv t held" and i: "i < MAX_PID_SLOTS"
    and ok: "slot_ok (st_heap t) h (f (slot t i))"
    and attr: "ps_attr (f (slot t i)) = ps_attr (slot t i)"
  shows "table_inv (upd_slot i f t) (held(i := h))"
proof -
  have len: "i < length (st_slots t)" using inv i by (simp add: table_inv_def)
  show ?thesis using inv ok attr i unfolding table_inv_def by (auto simp: slot_simps len)
qed

lemma table_inv_held:
  assumes "table_inv t held" "0 < held i"
  shows "i < MAX_PID_SLOTS" "ps_state (slot t i) = PID_SLOT_INUSE \<or> ps_state (slot t i) = PID_SLOT_REMOVING"
    "owns (st_heap t) (slot t i)"
proof -
  show i: "i < MAX_PID_SLOTS" using assms by (metis table_inv_def not_le less_irrefl)
  from table_inv_slot [OF assms(1) i] assms(2)
  show "ps_state (slot t i) = PID_SLOT_INUSE \<or> ps_state (slot t i) = PID_SLOT_REMOVING" "owns (st_heap t) (slot t i)"
    by (auto simp: slot_ok_def split: PidSlotState.splits)
qed

lemma PidSlotInit_inv:
  assumes "\<not> st_fault t"
  shows "table_inv (PidSlotInit t) (\<lambda>_. 0)"
  using assms by (simp add: table_inv_def PidSlotInit_def slot_ok_def)

subsection \<open>Taking a reference\<close>

lemma increase_inv:
  assumes inv: "table_inv t held" and i: "i < MAX_PID_SLOTS" and st: "ps_state (slot t i) = PID_SLOT_INUSE"
  shows "table_inv (snd (AtomicIncrease i 1 t)) (held(i := held i + 1))"
  unfolding AtomicIncrease_def snd_conv
  by (rule table_inv_upd [OF inv i])
    (use table_inv_slot [OF inv i] st in \<open>simp_all add: slot_ok_def\<close>)

lemma increase_simps [slot_simps]:
  assumes "i < length (st_slots t)"
  shows "ps_state (slot (snd (AtomicIncrease i 1 t)) j) = ps_state (slot t j)"
    "ps_attr (slot (snd (AtomicIncrease i 1 t)) j) = ps_attr (slot t j)"
    "ps_pid (slot (snd (AtomicIncrease i 1 t)) j) = ps_pid (slot t j)"
    "st_heap (snd (AtomicIncrease i 1 t)) = st_heap t"
    "length (st_slots (snd (AtomicIncrease i 1 t))) = length (st_slots t)"
  using assms by (simp_all add: AtomicIncrease_def slot_simps)

subsection \<open>Giving a reference back\<close>

lemma reclaim_inv:
  assumes len: "length (st_slots t) = MAX_PID_SLOTS" and i: "i < MAX_PID_SLOTS"
    and st: "ps_state (slot t i) = PID_SLOT_REMOVING" and refs: "ps_refs (slot t i) = 0"
    and own: "ps_attr (slot t i) = Some a" "st_heap t a = Some ob"
    and others: "\<And>j. j < MAX_PID_SLOTS \<Longrightarrow> j \<noteq> i \<Longrightarrow> slot_ok (st_heap t) (held j) (slot t j)"
    and sep: "\<And>j k. j < MAX_PID_SLOTS \<Longrightarrow> k < MAX_PID_SLOTS \<Longrightarrow> j \<noteq> k \<Longrightarrow> ps_attr (slot t j) \<noteq> None \<Longrightarrow>
        ps_attr (slot t j) \<noteq> ps_attr (slot t k)"
    and rest: "\<And>j. j \<ge> MAX_PID_SLOTS \<Longrightarrow> held j = 0" "\<not> st_fault t"
  shows "table_inv (PidSlotTryReclaim i t) (held(i := 0))" (is "table_inv ?t _")
    and "st_heap (PidSlotTryReclaim i t) = (st_heap t)(a := None)"
    and "ps_state (slot (PidSlotTryReclaim i t) i) = PID_SLOT_FREE"
    and "j \<noteq> i \<Longrightarrow> slot (PidSlotTryReclaim i t) j = slot t j"
proof -
  have leni: "i < length (st_slots t)" using len i by simp
  have fr: "FreeProceccesAttr (Some a) u = u\<lparr>st_heap := (st_heap u)(a := None),
      st_buffersFreed := (case fst (ResetActcData (ao_actcData ob)) of None \<Rightarrow> st_buffersFreed u | Some b \<Rightarrow> b # st_buffersFreed u)\<rparr>"
    if "st_heap u a = Some ob" for u
    using that by (simp add: FreeProceccesAttr_def)
  have at: "ps_attr (slot (upd_slot i (\<lambda>s. s\<lparr>ps_state := PID_SLOT_RESERVED\<rparr>) t) i) = Some a"
    using own(1) by (simp add: slot_simps leni)
  have fields: "st_heap ?t = (st_heap t)(a := None)" "st_fault ?t = st_fault t"
    "st_slots ?t = (st_slots t)[i := (slot t i)\<lparr>ps_attr := None, ps_pid := 0, ps_state := PID_SLOT_FREE\<rparr>]"
    using st refs own(2) leni unfolding PidSlotTryReclaim_def Let_def at
    by (simp_all add: fr upd_slot_def)
  show "st_heap ?t = (st_heap t)(a := None)" by (rule fields)
  show "ps_state (slot ?t i) = PID_SLOT_FREE" using leni by (simp add: fields)
  show "j \<noteq> i \<Longrightarrow> slot ?t j = slot t j" using leni by (simp add: fields)
  have "slot_ok (st_heap ?t) ((held(i := 0)) j) (slot ?t j)" if j: "j < MAX_PID_SLOTS" for j
  proof (cases "j = i")
    case True
    then show ?thesis using leni refs by (simp add: fields slot_ok_def)
  next
    case False
    have "ps_attr (slot t j) \<noteq> Some a" using sep [OF i j] own(1) False by auto
    then show ?thesis using others [OF j False] False
      by (auto simp: fields slot_ok_def owns_def split: PidSlotState.splits option.splits)
  qed
  then show "table_inv ?t (held(i := 0))"
    using sep rest len leni unfolding table_inv_def by (auto simp: fields nth_list_update)
qed

lemma release_kept:
  assumes inv: "table_inv t held" and h: "0 < held i"
    and more: "ps_state (slot t i) = PID_SLOT_INUSE \<or> 1 < held i"
  shows "slot_release i t = upd_slot i (\<lambda>s. s\<lparr>ps_refs := ps_refs s - 1\<rparr>) t"
    and "table_inv (slot_release i t) (held(i := held i - 1))"
proof -
  note i = table_inv_held(1) [OF inv h]
  note ok = table_inv_slot [OF inv i]
  have two: "ps_refs (slot t i) \<noteq> 1"
    using ok h more by (auto simp: slot_ok_def split: PidSlotState.splits)
  then show eq: "slot_release i t = upd_slot i (\<lambda>s. s\<lparr>ps_refs := ps_refs s - 1\<rparr>) t"
    by (simp add: slot_release_def AtomicDecrease_def)
  show "table_inv (slot_release i t) (held(i := held i - 1))"
    unfolding eq by (rule table_inv_upd [OF inv i])
      (use ok h more in \<open>auto simp: slot_ok_def of_nat_diff split: PidSlotState.splits\<close>)
qed

lemma release_last:
  assumes inv: "table_inv t held" and st: "ps_state (slot t i) = PID_SLOT_REMOVING" and h: "held i = 1"
    and a: "ps_attr (slot t i) = Some a"
  shows "table_inv (slot_release i t) (held(i := held i - 1))"
    and "st_heap (slot_release i t) = (st_heap t)(a := None)"
    and "ps_state (slot (slot_release i t) i) = PID_SLOT_FREE"
    and "j \<noteq> i \<Longrightarrow> slot (slot_release i t) j = slot t j"
proof -
  have i: "i < MAX_PID_SLOTS" using table_inv_held(1) [OF inv, of i] h by simp
  have leni: "i < length (st_slots t)" using i table_inv_length [OF inv] by simp
  note ok = table_inv_slot [OF inv i]
  let ?t = "upd_slot i (\<lambda>s. s\<lparr>ps_refs := ps_refs s - 1\<rparr>) t"
  have one: "ps_refs (slot t i) = 1" using ok st h by (simp add: slot_ok_def)
  then have eq: "slot_release i t = PidSlotTryReclaim i ?t"
    by (simp add: slot_release_def AtomicDecrease_def)
  from ok st a obtain ob where ob: "st_heap t a = Some ob" by (auto simp: slot_ok_def elim: owns_cases)
  have len: "length (st_slots ?t) = MAX_PID_SLOTS" using table_inv_length [OF inv] by (simp add: slot_simps)
  have others: "slot_ok (st_heap ?t) (held j) (slot ?t j)" if "j < MAX_PID_SLOTS" "j \<noteq> i" for j
    using table_inv_slot [OF inv that(1)] that leni by (simp add: slot_simps)
  have sep: "ps_attr (slot ?t j) \<noteq> ps_attr (slot ?t k)"
    if "j < MAX_PID_SLOTS" "k < MAX_PID_SLOTS" "j \<noteq> k" "ps_attr (slot ?t j) \<noteq> None" for j k
    using inv that leni unfolding table_inv_def by (auto simp: slot_simps split: if_splits)
  have rest: "\<And>j. j \<ge> MAX_PID_SLOTS \<Longrightarrow> held j = 0" "\<not> st_fault ?t"
    using inv by (simp_all add: table_inv_def slot_simps)
  note r = reclaim_inv [OF len i _ _ _ _ others sep rest, of a ob]
  have st': "ps_state (slot ?t i) = PID_SLOT_REMOVING" "ps_refs (slot ?t i) = 0" "ps_attr (slot ?t i) = Some a"
    "st_heap ?t a = Some ob"
    using st one a ob leni by (simp_all add: slot_simps)
  show "table_inv (slot_release i t) (held(i := held i - 1))" using r(1) [OF st'] h by (simp add: eq)
  show "st_heap (slot_release i t) = (st_heap t)(a := None)" using r(2) [OF st'] by (simp add: eq slot_simps)
  show "ps_state (slot (slot_release i t) i) = PID_SLOT_FREE" using r(3) [OF st'] by (simp add: eq)
  show "j \<noteq> i \<Longrightarrow> slot (slot_release i t) j = slot t j" using r(4) [OF st'] leni by (simp add: eq slot_simps)
qed

text \<open>
  One release of a held reference, as the callers see it: the invariant is kept with one
  reference less, the other slots are not touched, and the attributes of any slot that is still
  held stay where they are.
\<close>

lemma release_inv:
  assumes inv: "table_inv t held" and h: "0 < held i"
  shows "table_inv (slot_release i t) (held(i := held i - 1))"
    and "j \<noteq> i \<Longrightarrow> slot (slot_release i t) j = slot t j"
    and "0 < (held(i := held i - 1)) j \<Longrightarrow> ps_attr (slot (slot_release i t) j) = ps_attr (slot t j)"
proof -
  note i = table_inv_held(1) [OF inv h]
  have leni: "i < length (st_slots t)" using i table_inv_length [OF inv] by simp
  obtain a where a: "ps_attr (slot t i) = Some a" using table_inv_held(3) [OF inv h] by (rule owns_cases)
  consider (kept) "ps_state (slot t i) = PID_SLOT_INUSE \<or> 1 < held i"
    | (last) "ps_state (slot t i) = PID_SLOT_REMOVING" "held i = 1"
    using table_inv_held(2) [OF inv h] h by linarith
  then have "table_inv (slot_release i t) (held(i := held i - 1)) \<and>
    (j \<noteq> i \<longrightarrow> slot (slot_release i t) j = slot t j) \<and>
    (0 < (held(i := held i - 1)) j \<longrightarrow> ps_attr (slot (slot_release i t) j) = ps_attr (slot t j))"
  proof cases
    case kept
    show ?thesis using release_kept(2) [OF inv h kept] leni by (simp add: release_kept(1) [OF inv h kept] slot_simps)
  next
    case last
    show ?thesis using release_last [OF inv last a] last by (auto simp del: One_nat_def)
  qed
  then show "table_inv (slot_release i t) (held(i := held i - 1))"
    and "j \<noteq> i \<Longrightarrow> slot (slot_release i t) j = slot t j"
    and "0 < (held(i := held i - 1)) j \<Longrightarrow> ps_attr (slot (slot_release i t) j) = ps_attr (slot t j)"
    by blast+
qed

subsection \<open>Registration\<close>

lemma slot_add_spec:
  "slot_add is attr t =
     (case find (\<lambda>i. ps_state (slot t i) = PID_SLOT_FREE) is of
        None \<Rightarrow> (None, t)
      | Some i \<Rightarrow> (Some i, upd_slot i (\<lambda>s. s\<lparr>ps_pid := attr_pid t attr, ps_attr := Some attr, ps_refs := 1,
                             ps_state := PID_SLOT_INUSE\<rparr>) t))"
  by (induction "is") auto

lemma find_Some_upt: "find P [0..<n] = Some i \<Longrightarrow> i < n \<and> P i"
  by (auto simp: find_Some_iff)

lemma find_None_upt: "find P [0..<n] = None \<longleftrightarrow> (\<forall>i<n. \<not> P i)"
  by (auto simp: find_None_iff)

lemma find_upt_first: "i < n \<Longrightarrow> P i \<Longrightarrow> \<forall>k<i. \<not> P k \<Longrightarrow> find P [0..<n] = Some i"
  unfolding find_Some_iff by (rule exI [of _ i]) simp

lemma find_upt_only:
  assumes "i < n" "P i" and only: "\<And>j. j < n \<Longrightarrow> P j \<Longrightarrow> j = i"
  shows "find P [0..<n] = Some i"
  using assms(1,2)
proof (rule find_upt_first)
  show "\<forall>k<i. \<not> P k" using only assms(1) by (metis less_trans less_irrefl)
qed

lemma add_inv:
  assumes inv: "table_inv t held" and live: "st_heap t attr = Some ob"
    and fresh: "\<forall>i < MAX_PID_SLOTS. ps_attr (slot t i) \<noteq> Some attr"
  shows "table_inv (snd (PidSlotAdd attr t)) held"
    and "0 < held j \<Longrightarrow> ps_attr (slot (snd (PidSlotAdd attr t)) j) = ps_attr (slot t j)"
proof -
  let ?f = "find (\<lambda>i. ps_state (slot t i) = PID_SLOT_FREE) [0..<MAX_PID_SLOTS]"
  have "table_inv (snd (PidSlotAdd attr t)) held \<and>
    (0 < held j \<longrightarrow> ps_attr (slot (snd (PidSlotAdd attr t)) j) = ps_attr (slot t j))"
  proof (cases ?f)
    case None
    then show ?thesis using inv by (simp add: PidSlotAdd_def slot_add_spec)
  next
    case (Some i)
    then have i: "i < MAX_PID_SLOTS" and st: "ps_state (slot t i) = PID_SLOT_FREE" using find_Some_upt by blast+
    have leni: "i < length (st_slots t)" using i table_inv_length [OF inv] by simp
    have h: "held i = 0" using table_inv_slot [OF inv i] st by (simp add: slot_ok_def)
    let ?t = "upd_slot i (\<lambda>s. s\<lparr>ps_pid := attr_pid t attr, ps_attr := Some attr, ps_refs := 1,
      ps_state := PID_SLOT_INUSE\<rparr>) t"
    have eq: "snd (PidSlotAdd attr t) = ?t" using Some by (simp add: PidSlotAdd_def slot_add_spec)
    have ok: "slot_ok (st_heap ?t) (held k) (slot ?t k)" if "k < MAX_PID_SLOTS" for k
      using table_inv_slot [OF inv that] live leni h
      by (cases "k = i") (simp_all add: slot_simps slot_ok_def owns_def attr_pid_def)
    have sep: "ps_attr (slot ?t j) \<noteq> ps_attr (slot ?t k)"
      if "j < MAX_PID_SLOTS" "k < MAX_PID_SLOTS" "j \<noteq> k" "ps_attr (slot ?t j) \<noteq> None" for j k
      using inv that fresh leni unfolding table_inv_def by (auto simp: slot_simps split: if_splits)
    have rest: "length (st_slots ?t) = MAX_PID_SLOTS" "\<not> st_fault ?t" "\<forall>j \<ge> MAX_PID_SLOTS. held j = 0"
      using inv by (simp_all add: table_inv_def slot_simps)
    have "table_inv ?t held" unfolding table_inv_def using ok sep rest by blast
    then show ?thesis using h leni by (auto simp: eq slot_simps)
  qed
  then show "table_inv (snd (PidSlotAdd attr t)) held"
    and "0 < held j \<Longrightarrow> ps_attr (slot (snd (PidSlotAdd attr t)) j) = ps_attr (slot t j)" by blast+
qed

subsection \<open>Removal\<close>

lemma slot_remove_spec:
  "slot_remove is pid t =
     (case find (\<lambda>i. ps_pid (slot t i) = pid) is of
        None \<Rightarrow> t
      | Some i \<Rightarrow> if ps_state (slot t i) \<noteq> PID_SLOT_INUSE then t
                 else slot_release i (upd_slot i (\<lambda>s. s\<lparr>ps_state := PID_SLOT_REMOVING\<rparr>) t))"
  by (induction "is") auto

text \<open>The compare-and-swap of a removal turns the reference of the table into one that is held by the caller.\<close>

lemma remove_mark:
  assumes inv: "table_inv t held" and i: "i < MAX_PID_SLOTS" and st: "ps_state (slot t i) = PID_SLOT_INUSE"
  shows "table_inv (upd_slot i (\<lambda>s. s\<lparr>ps_state := PID_SLOT_REMOVING\<rparr>) t) (held(i := held i + 1))"
  by (rule table_inv_upd [OF inv i])
    (use table_inv_slot [OF inv i] st in \<open>simp_all add: slot_ok_def\<close>)

lemma remove_inv:
  assumes inv: "table_inv t held"
  shows "table_inv (PidSlotRemove pid t) held"
    and "0 < held j \<Longrightarrow> ps_attr (slot (PidSlotRemove pid t) j) = ps_attr (slot t j)"
proof -
  let ?f = "find (\<lambda>i. ps_pid (slot t i) = pid) [0..<MAX_PID_SLOTS]"
  have "table_inv (PidSlotRemove pid t) held \<and>
    (0 < held j \<longrightarrow> ps_attr (slot (PidSlotRemove pid t) j) = ps_attr (slot t j))"
  proof (cases "?f = None \<or> (\<exists>i. ?f = Some i \<and> ps_state (slot t i) \<noteq> PID_SLOT_INUSE)")
    case True
    then have "PidSlotRemove pid t = t" by (auto simp: PidSlotRemove_def slot_remove_spec)
    then show ?thesis using inv by simp
  next
    case False
    then obtain i where f: "?f = Some i" and st: "ps_state (slot t i) = PID_SLOT_INUSE" by auto
    then have i: "i < MAX_PID_SLOTS" using find_Some_upt by blast
    have leni: "i < length (st_slots t)" using i table_inv_length [OF inv] by simp
    let ?t = "upd_slot i (\<lambda>s. s\<lparr>ps_state := PID_SLOT_REMOVING\<rparr>) t"
    have eq: "PidSlotRemove pid t = slot_release i ?t" using f st by (simp add: PidSlotRemove_def slot_remove_spec)
    have mark: "table_inv ?t (held(i := held i + 1))" by (rule remove_mark [OF inv i st])
    have pos: "0 < (held(i := held i + 1)) i" by simp
    have restore: "(held(i := held i + 1))(i := (held(i := held i + 1)) i - 1) = held" by (simp add: fun_eq_iff)
    note r = release_inv [OF mark pos, unfolded restore]
    show ?thesis using r(1) r(3) [of j] leni by (auto simp: eq slot_simps)
  qed
  then show "table_inv (PidSlotRemove pid t) held"
    and "0 < held j \<Longrightarrow> ps_attr (slot (PidSlotRemove pid t) j) = ps_attr (slot t j)" by blast+
qed

subsection \<open>Lookup and collection\<close>

text \<open>
  When no other thread runs, the second look at the state always agrees with the first, and the
  back-out branch is not taken.
\<close>

lemma slot_get_spec:
  assumes "\<forall>i \<in> set is. i < length (st_slots t)"
  shows "slot_get is pid t =
     (case find (\<lambda>i. ps_state (slot t i) = PID_SLOT_INUSE \<and> ps_pid (slot t i) = pid) is of
        None \<Rightarrow> (None, t) | Some i \<Rightarrow> (Some i, snd (AtomicIncrease i 1 t)))"
  using assms by (induction "is") (auto simp: Let_def slot_simps)

lemma get_inv:
  assumes inv: "table_inv t held"
  shows "table_inv (snd (PidSlotGetRef pid t))
      (case fst (PidSlotGetRef pid t) of None \<Rightarrow> held | Some i \<Rightarrow> held(i := held i + 1))"
    and "ps_attr (slot (snd (PidSlotGetRef pid t)) j) = ps_attr (slot t j)"
proof -
  let ?f = "find (\<lambda>i. ps_state (slot t i) = PID_SLOT_INUSE \<and> ps_pid (slot t i) = pid) [0..<MAX_PID_SLOTS]"
  have len: "\<forall>i \<in> set [0..<MAX_PID_SLOTS]. i < length (st_slots t)" using table_inv_length [OF inv] by simp
  have "table_inv (snd (PidSlotGetRef pid t))
      (case fst (PidSlotGetRef pid t) of None \<Rightarrow> held | Some i \<Rightarrow> held(i := held i + 1)) \<and>
    ps_attr (slot (snd (PidSlotGetRef pid t)) j) = ps_attr (slot t j)"
  proof (cases ?f)
    case None
    then show ?thesis using inv by (simp add: PidSlotGetRef_def slot_get_spec [OF len])
  next
    case (Some i)
    then have i: "i < MAX_PID_SLOTS" "ps_state (slot t i) = PID_SLOT_INUSE" using find_Some_upt by blast+
    then show ?thesis using increase_inv [OF inv i] table_inv_length [OF inv] Some
      by (simp add: PidSlotGetRef_def slot_get_spec [OF len] slot_simps)
  qed
  then show "table_inv (snd (PidSlotGetRef pid t))
      (case fst (PidSlotGetRef pid t) of None \<Rightarrow> held | Some i \<Rightarrow> held(i := held i + 1))"
    and "ps_attr (slot (snd (PidSlotGetRef pid t)) j) = ps_attr (slot t j)" by blast+
qed

definition held_add :: "nat list \<Rightarrow> (nat \<Rightarrow> nat) \<Rightarrow> nat \<Rightarrow> nat" where
  "held_add arr held = (\<lambda>i. held i + count_list arr i)"

definition held_sub :: "nat option list \<Rightarrow> (nat \<Rightarrow> nat) \<Rightarrow> nat \<Rightarrow> nat" where
  "held_sub arr held = (\<lambda>i. held i - count_list arr (Some i))"

lemma collect_inv:
  assumes "table_inv t held" and "\<forall>i \<in> set is. i < MAX_PID_SLOTS"
  shows "\<exists>new. fst (slot_collect is cap arr t) = arr @ new \<and>
    new = take (cap - length arr) (filter (\<lambda>i. ps_state (slot t i) = PID_SLOT_INUSE) is) \<and>
    table_inv (snd (slot_collect is cap arr t)) (held_add new held) \<and>
    (\<forall>j. ps_attr (slot (snd (slot_collect is cap arr t)) j) = ps_attr (slot t j))"
  using assms
proof (induction "is" arbitrary: arr t held)
  case (Cons i "is")
  have i: "i < MAX_PID_SLOTS" and len: "i < length (st_slots t)"
    using Cons.prems table_inv_length [OF Cons.prems(1)] by auto
  show ?case
  proof (cases "length arr < cap \<and> ps_state (slot t i) = PID_SLOT_INUSE")
    case True
    let ?t = "snd (AtomicIncrease i 1 t)"
    have inv: "table_inv ?t (held(i := held i + 1))" using increase_inv [OF Cons.prems(1) i] True by simp
    have "slot_collect (i # is) cap arr t = slot_collect is cap (arr @ [i]) ?t"
      using True len by (simp add: Let_def slot_simps)
    moreover obtain k where k: "cap - length arr = Suc k" "cap - length (arr @ [i]) = k"
      using True by (metis Suc_diff_Suc diff_Suc_Suc length_append_singleton)
    moreover have "held_add new (\<lambda>a. if a = i then Suc (held i) else held a) = held_add (i # new) held" for new
      by (simp add: held_add_def fun_eq_iff)
    ultimately show ?thesis
      using Cons.IH [OF inv, of "arr @ [i]"] Cons.prems(2) True len by (simp add: slot_simps)
  next
    case False
    then show ?thesis using Cons.IH [OF Cons.prems(1), of arr] Cons.prems
      by (cases "length arr < cap") (simp_all add: held_add_def)
  qed
qed (simp add: held_add_def)

subsection \<open>Release\<close>

lemma releases_inv:
  assumes "table_inv t held" and "\<forall>i. count_list arr (Some i) \<le> held i"
  shows "table_inv (PidSlotReleaseRefs arr t) (held_sub arr held) \<and>
    (\<forall>j. 0 < held_sub arr held j \<longrightarrow> ps_attr (slot (PidSlotReleaseRefs arr t) j) = ps_attr (slot t j))"
  using assms
proof (induction arr arbitrary: t held)
  case (Cons s arr)
  show ?case
  proof (cases s)
    case None
    have "count_list arr (Some i) \<le> held i" for i using Cons.prems(2) None by (simp add: spec [of _ i])
    then show ?thesis using Cons.IH [OF Cons.prems(1)] None by (simp add: held_sub_def)
  next
    case (Some i)
    have pos: "0 < held i" using spec [OF Cons.prems(2), of i] Some by simp
    note r = release_inv [OF Cons.prems(1) pos]
    have cnt: "\<forall>k. count_list arr (Some k) \<le> (held(i := held i - 1)) k"
    proof
      fix k show "count_list arr (Some k) \<le> (held(i := held i - 1)) k"
        using spec [OF Cons.prems(2), of k] Some by (auto split: if_splits)
    qed
    have sub: "held_sub arr (held(i := held i - 1)) = held_sub (s # arr) held"
      using Some by (auto simp: held_sub_def fun_eq_iff)
    have le: "held_sub (s # arr) held j \<le> (held(i := held i - 1)) j" for j
      unfolding sub [symmetric] by (simp add: held_sub_def)
    show ?thesis using Cons.IH [OF r(1) cnt] r(3) le Some unfolding sub by (auto simp: less_le_trans)
  qed
qed (simp add: held_sub_def)

lemma slot_put_spec:
  "slot_put is attr t =
     (case find (\<lambda>i. ps_attr (slot t i) = Some attr) is of None \<Rightarrow> t | Some i \<Rightarrow> slot_release i t)"
  by (induction "is") auto

lemma put_inv:
  assumes inv: "table_inv t held" and i: "ps_attr (slot t i) = Some a" and h: "0 < held i"
  shows "PutProcessAttr (Some a) t = slot_release i t"
proof -
  note lt = table_inv_held(1) [OF inv h]
  have "k = i" if "k < MAX_PID_SLOTS" "ps_attr (slot t k) = Some a" for k
    using inv that lt i unfolding table_inv_def by fastforce
  with lt i have "find (\<lambda>k. ps_attr (slot t k) = Some a) [0..<MAX_PID_SLOTS] = Some i"
    by (rule find_upt_only)
  then show ?thesis by (simp add: PutProcessAttr_def slot_put_spec)
qed

section \<open>The reference contract\<close>

text \<open>
  What a caller may rely on, stated over any table of counted references: a legal operation
  keeps the invariant, what is held is live, and an operation after which a reference is still
  held has not touched what it refers to. The caller's conclusion is about any sequence of
  operations of all callers, in any order: as long as a reference is held through the sequence,
  it refers to the same live object.
\<close>

fun legal_run :: "('op \<Rightarrow> 's \<Rightarrow> 's) \<Rightarrow> ('op \<Rightarrow> 's \<Rightarrow> bool) \<Rightarrow> 'op list \<Rightarrow> 's \<Rightarrow> bool" where
  "legal_run step legal [] s = True"
| "legal_run step legal (op # ops) s \<longleftrightarrow> legal op s \<and> legal_run step legal ops (step op s)"

fun during :: "('op \<Rightarrow> 's \<Rightarrow> 's) \<Rightarrow> ('s \<Rightarrow> bool) \<Rightarrow> 'op list \<Rightarrow> 's \<Rightarrow> bool" where
  "during step P [] s \<longleftrightarrow> P s"
| "during step P (op # ops) s \<longleftrightarrow> P s \<and> during step P ops (step op s)"

lemma during_start: "during step P ops s \<Longrightarrow> P s"
  by (cases ops) auto

lemma during_end: "during step P ops s \<Longrightarrow> P (fold step ops s)"
  by (induction ops arbitrary: s) auto

lemma legal_run_append:
  "legal_run step legal (ops @ ops') s \<longleftrightarrow> legal_run step legal ops s \<and> legal_run step legal ops' (fold step ops s)"
  by (induction ops arbitrary: s) auto

locale reference_table =
  fixes step :: "'op \<Rightarrow> 's \<Rightarrow> 's" and legal :: "'op \<Rightarrow> 's \<Rightarrow> bool" and inv :: "'s \<Rightarrow> bool"
    and held :: "'s \<Rightarrow> nat \<Rightarrow> nat" and attr :: "'s \<Rightarrow> nat \<Rightarrow> 'a option" and live :: "'s \<Rightarrow> 'a \<Rightarrow> bool"
  assumes step_inv: "inv s \<Longrightarrow> legal op s \<Longrightarrow> inv (step op s)"
    and held_live: "inv s \<Longrightarrow> 0 < held s i \<Longrightarrow> \<exists>a. attr s i = Some a \<and> live s a"
    and held_kept: "inv s \<Longrightarrow> legal op s \<Longrightarrow> 0 < held s i \<Longrightarrow> 0 < held (step op s) i \<Longrightarrow>
      attr (step op s) i = attr s i"
begin

lemma run_inv: "inv s \<Longrightarrow> legal_run step legal ops s \<Longrightarrow> inv (fold step ops s)"
  by (induction ops arbitrary: s) (auto intro: step_inv)

lemma run_kept:
  "inv s \<Longrightarrow> legal_run step legal ops s \<Longrightarrow> during step (\<lambda>s. 0 < held s i) ops s \<Longrightarrow>
   attr (fold step ops s) i = attr s i"
proof (induction ops arbitrary: s)
  case (Cons op ops)
  then have "inv (step op s)" "0 < held (step op s) i" by (auto intro: step_inv dest: during_start)
  with Cons held_kept show ?case by auto
qed simp

lemma run_live:
  assumes "inv s" "legal_run step legal ops s" "during step (\<lambda>s. 0 < held s i) ops s"
  shows "\<exists>a. attr s i = Some a \<and> attr (fold step ops s) i = Some a \<and> live (fold step ops s) a"
  using held_live [OF run_inv [OF assms(1,2)] during_end [OF assms(3)]] run_kept [OF assms] by metis

end

text \<open>The operations of the slot table, with the references the callers hold.\<close>

datatype SlotOp =
    Op_Alloc nat AttrObject
  | Op_Add nat
  | Op_Remove int
  | Op_GetRef int
  | Op_Collect nat
  | Op_Release "nat option list"
  | Op_Put nat

type_synonym slot_state = "SlotTable \<times> (nat \<Rightarrow> nat)"

definition put_slot :: "nat \<Rightarrow> SlotTable \<Rightarrow> nat option" where
  "put_slot a t = find (\<lambda>i. ps_attr (slot t i) = Some a) [0..<MAX_PID_SLOTS]"

fun slot_op :: "SlotOp \<Rightarrow> slot_state \<Rightarrow> slot_state" where
  "slot_op (Op_Alloc a ob) (t, held) = (t\<lparr>st_heap := (st_heap t)(a := Some ob)\<rparr>, held)"
| "slot_op (Op_Add a) (t, held) = (snd (PidSlotAdd a t), held)"
| "slot_op (Op_Remove pid) (t, held) = (PidSlotRemove pid t, held)"
| "slot_op (Op_GetRef pid) (t, held) =
     (snd (PidSlotGetRef pid t), case fst (PidSlotGetRef pid t) of None \<Rightarrow> held | Some i \<Rightarrow> held(i := held i + 1))"
| "slot_op (Op_Collect cap) (t, held) =
     (snd (PidSlotCollectRefs cap t), held_add (fst (PidSlotCollectRefs cap t)) held)"
| "slot_op (Op_Release arr) (t, held) = (PidSlotReleaseRefs arr t, held_sub arr held)"
| "slot_op (Op_Put a) (t, held) =
     (PutProcessAttr (Some a) t, case put_slot a t of None \<Rightarrow> held | Some i \<Rightarrow> held(i := held i - 1))"

text \<open>
  What the callers obey: an address handed out by the allocator is not in use, an object is
  registered once, and only references that are held are given back.
\<close>

fun slot_legal :: "SlotOp \<Rightarrow> slot_state \<Rightarrow> bool" where
  "slot_legal (Op_Alloc a ob) (t, held) \<longleftrightarrow> st_heap t a = None"
| "slot_legal (Op_Add a) (t, held) \<longleftrightarrow>
     st_heap t a \<noteq> None \<and> list_all (\<lambda>i. ps_attr (slot t i) \<noteq> Some a) [0..<MAX_PID_SLOTS]"
| "slot_legal (Op_Release arr) (t, held) \<longleftrightarrow> list_all (\<lambda>s. case s of None \<Rightarrow> True | Some i \<Rightarrow> count_list arr s \<le> held i) arr"
| "slot_legal (Op_Put a) (t, held) \<longleftrightarrow> (case put_slot a t of None \<Rightarrow> False | Some i \<Rightarrow> 0 < held i)"
| "slot_legal _ _ \<longleftrightarrow> True"

lemma release_legal:
  "slot_legal (Op_Release arr) (t, held) \<Longrightarrow> count_list arr (Some i) \<le> held i"
  by (cases "Some i \<in> set arr") (force simp: list_all_iff count_list_0_iff)+

lemma alloc_inv:
  assumes inv: "table_inv t held" and a: "st_heap t a = None"
  shows "table_inv (t\<lparr>st_heap := (st_heap t)(a := Some ob)\<rparr>) held"
proof -
  have "slot_ok ((st_heap t)(a := Some ob)) h s" if "slot_ok (st_heap t) h s" for h s
    using that a by (auto simp: slot_ok_def owns_def split: PidSlotState.splits option.splits)
  then show ?thesis using inv by (simp add: table_inv_def)
qed

lemma slot_op_correct:
  assumes inv: "table_inv t held" and legal: "slot_legal op (t, held)" and eq: "slot_op op (t, held) = (t', held')"
  shows "table_inv t' held' \<and> (0 < held i \<longrightarrow> 0 < held' i \<longrightarrow> ps_attr (slot t' i) = ps_attr (slot t i))"
proof (cases op)
  case (Op_Alloc a ob)
  then show ?thesis using alloc_inv [OF inv] legal eq by auto
next
  case (Op_Add a)
  then show ?thesis using add_inv [OF inv, of a] legal eq by (auto simp: list_all_iff)
next
  case (Op_Remove pid)
  then show ?thesis using remove_inv [OF inv] eq by auto
next
  case (Op_GetRef pid)
  then show ?thesis using get_inv [OF inv] eq by auto
next
  case (Op_Collect cap)
  then show ?thesis using collect_inv [OF inv, of "[0..<MAX_PID_SLOTS]" cap "[]"] eq
    by (auto simp: PidSlotCollectRefs_def)
next
  case (Op_Release arr)
  then show ?thesis using releases_inv [OF inv, of arr] release_legal [of arr t held] legal eq by auto
next
  case (Op_Put a)
  then obtain k where k: "put_slot a t = Some k" "0 < held k" using legal by (auto split: option.splits)
  then have "ps_attr (slot t k) = Some a" using find_Some_upt unfolding put_slot_def by blast
  then show ?thesis using put_inv [OF inv _ k(2)] release_inv [OF inv k(2)] k Op_Put eq by auto
qed

interpretation pid_slots: reference_table slot_op slot_legal "\<lambda>(t, held). table_inv t held" snd
  "\<lambda>(t, held) i. ps_attr (slot t i)" "\<lambda>(t, held) a. st_heap t a \<noteq> None"
proof unfold_locales
  fix s op i
  assume inv: "case s of (t, held) \<Rightarrow> table_inv t held" and legal: "slot_legal op s"
  obtain t held t' held' where s: "s = (t, held)" "slot_op op s = (t', held')" by (metis surj_pair)
  note c = slot_op_correct [of t held op t' held']
  show "case slot_op op s of (t, held) \<Rightarrow> table_inv t held" using c inv legal s by auto
  assume "0 < snd s i" "0 < snd (slot_op op s) i"
  then show "(case slot_op op s of (t, held) \<Rightarrow> \<lambda>i. ps_attr (slot t i)) i = (case s of (t, held) \<Rightarrow> \<lambda>i. ps_attr (slot t i)) i"
    using c inv legal s by auto
next
  fix s i
  assume "case s of (t, held) \<Rightarrow> table_inv t held" "0 < snd s i"
  then show "\<exists>a. (case s of (t, held) \<Rightarrow> \<lambda>i. ps_attr (slot t i)) i = Some a \<and>
      (case s of (t, held) \<Rightarrow> \<lambda>a. st_heap t a \<noteq> None) a"
    using table_inv_held(3) by (cases s) (force elim: owns_cases)
qed

section \<open>Properties of the table\<close>

text \<open>C32. A process that is held stays. Starting from the initial table, run any legal sequence of
  operations (allocations, registrations, removals, lookups, collections, releases), and then
  another one during which some caller always holds a reference on slot \<open>i\<close>: at the end the slot
  still points to the attributes it pointed to at the beginning, they have not been freed, and no
  address was freed twice on the way. In particular a removal in between does not free them.\<close>

theorem PidSlots_lifetime:
  fixes t0 :: SlotTable and ops ops' :: "SlotOp list"
  defines "s \<equiv> fold slot_op ops (PidSlotInit t0, \<lambda>_. 0)"
  assumes "\<not> st_fault t0"
    and "legal_run slot_op slot_legal (ops @ ops') (PidSlotInit t0, \<lambda>_. 0)"
    and "during slot_op (\<lambda>s. 0 < snd s i) ops' s"
  shows "\<exists>a. ps_attr (slot (fst s) i) = Some a \<and> ps_attr (slot (fst (fold slot_op ops' s)) i) = Some a \<and>
      st_heap (fst (fold slot_op ops' s)) a \<noteq> None \<and> \<not> st_fault (fst (fold slot_op ops' s))"
proof -
  have init: "case (PidSlotInit t0, \<lambda>_. 0) of (t, held) \<Rightarrow> table_inv t held"
    using PidSlotInit_inv [OF assms(2)] by simp
  have l: "legal_run slot_op slot_legal ops (PidSlotInit t0, \<lambda>_. 0)" "legal_run slot_op slot_legal ops' s"
    using assms(3) by (simp_all add: legal_run_append s_def)
  have inv: "case s of (t, held) \<Rightarrow> table_inv t held" unfolding s_def by (rule pid_slots.run_inv [OF init l(1)])
  have "\<not> st_fault (fst (fold slot_op ops' s))"
    using pid_slots.run_inv [OF inv l(2)] by (auto simp: table_inv_def split: prod.splits)
  then show ?thesis using pid_slots.run_live [OF inv l(2) assms(4)] by (simp add: case_prod_beta)
qed

text \<open>A run in which a process is looked up, removed while the reference is held, and released.\<close>

definition slots_empty :: SlotTable where
  "slots_empty = \<lparr>st_slots = [], st_heap = (\<lambda>_. None), st_buffersFreed = [], st_fault = False\<rparr>"

definition demo_object :: AttrObject where
  "demo_object = \<lparr>ao_pid = 7, ao_actcData = [None, Some 40, Some 44]\<rparr>"

lemma upt_slots: "[0..<MAX_PID_SLOTS] = 0 # [1..<MAX_PID_SLOTS]"
  by (simp add: MAX_PID_SLOTS_def upt_rec)

lemma demo_add:
  defines "t \<equiv> (PidSlotInit slots_empty)\<lparr>st_heap := (\<lambda>_. None)(100 := Some demo_object)\<rparr>"
  shows "snd (PidSlotAdd 100 t) =
    upd_slot 0 (\<lambda>s. s\<lparr>ps_pid := 7, ps_attr := Some 100, ps_refs := 1, ps_state := PID_SLOT_INUSE\<rparr>) t"
proof -
  have "ps_state (slot t 0) = PID_SLOT_FREE" "attr_pid t 100 = 7"
    by (simp_all add: t_def PidSlotInit_def MAX_PID_SLOTS_def attr_pid_def demo_object_def)
  then show ?thesis unfolding PidSlotAdd_def upt_slots by simp
qed

theorem PidSlots_lifetime_witness:
  "\<exists>a. ps_attr (slot (fst (fold slot_op [Op_Alloc 100 demo_object, Op_Add 100, Op_GetRef 7]
       (PidSlotInit slots_empty, \<lambda>_. 0))) 0) = Some a \<and>
     st_heap (fst (fold slot_op [Op_Remove 7]
       (fold slot_op [Op_Alloc 100 demo_object, Op_Add 100, Op_GetRef 7] (PidSlotInit slots_empty, \<lambda>_. 0)))) a \<noteq> None"
proof -
  let ?s0 = "(PidSlotInit slots_empty, \<lambda>_. 0) :: slot_state"
  let ?t = "(PidSlotInit slots_empty)\<lparr>st_heap := (\<lambda>_. None)(100 := Some demo_object)\<rparr>"
  let ?t1 = "upd_slot 0 (\<lambda>s. s\<lparr>ps_pid := 7, ps_attr := Some 100, ps_refs := 1, ps_state := PID_SLOT_INUSE\<rparr>) ?t"
  have len: "0 < length (st_slots (PidSlotInit slots_empty))" by (simp add: PidSlotInit_def MAX_PID_SLOTS_def)
  have h0: "st_heap (PidSlotInit slots_empty) = (\<lambda>_. None)" by (simp add: PidSlotInit_def slots_empty_def)
  have a0: "ps_attr (slot (PidSlotInit slots_empty) j) = None" if "j < MAX_PID_SLOTS" for j
    using that by (simp add: PidSlotInit_def)
  have s1: "slot_op (Op_Alloc 100 demo_object) ?s0 = (?t, \<lambda>_. 0)" by (simp add: h0)
  have s2: "slot_op (Op_Add 100) (?t, \<lambda>_. 0) = (?t1, \<lambda>_. 0)" using demo_add by simp
  have st1: "slot ?t1 0 = (slot ?t 0)\<lparr>ps_pid := 7, ps_attr := Some 100, ps_refs := 1, ps_state := PID_SLOT_INUSE\<rparr>"
    using len by (simp add: slot_simps)
  have g: "fst (PidSlotGetRef 7 ?t1) = Some 0"
    using len st1 by (simp add: PidSlotGetRef_def upt_slots Let_def slot_simps)
  have s3: "slot_op (Op_GetRef 7) (?t1, \<lambda>_. 0) = (snd (PidSlotGetRef 7 ?t1), (\<lambda>_. 0)(0 := 1))"
    by (simp add: g)
  have eq: "fold slot_op [Op_Alloc 100 demo_object, Op_Add 100, Op_GetRef 7] ?s0 =
      (snd (PidSlotGetRef 7 ?t1), (\<lambda>_. 0)(0 := 1))"
    unfolding fold_simps s1 s2 s3 ..
  have l1: "slot_legal (Op_Alloc 100 demo_object) ?s0" by (simp add: h0)
  have l2: "slot_legal (Op_Add 100) (?t, \<lambda>_. 0)" using a0 by (simp add: list_all_iff)
  have "legal_run slot_op slot_legal ([Op_Alloc 100 demo_object, Op_Add 100, Op_GetRef 7] @ [Op_Remove 7]) ?s0"
    unfolding append.simps legal_run.simps s1 s2 s3 using l1 l2 by simp
  moreover have "during slot_op (\<lambda>s. 0 < snd s 0) [Op_Remove 7]
      (fold slot_op [Op_Alloc 100 demo_object, Op_Add 100, Op_GetRef 7] ?s0)"
    unfolding eq by simp
  ultimately show ?thesis
    using PidSlots_lifetime [of slots_empty "[Op_Alloc 100 demo_object, Op_Add 100, Op_GetRef 7]" "[Op_Remove 7]" 0]
    by (auto simp: slots_empty_def)
qed




text \<open>A table with one process of pid 7 in slot 0, on which one caller holds a reference.\<close>

definition demo_table :: SlotTable where
  "demo_table = \<lparr>st_slots = \<lparr>ps_state = PID_SLOT_INUSE, ps_pid = 7, ps_attr = Some 100, ps_refs = 2\<rparr> #
       replicate 299 \<lparr>ps_state = PID_SLOT_FREE, ps_pid = 0, ps_attr = None, ps_refs = 0\<rparr>,
     st_heap = (\<lambda>_. None)(100 := Some demo_object), st_buffersFreed = [], st_fault = False\<rparr>"

lemma demo_table_slot:
  "i < MAX_PID_SLOTS \<Longrightarrow> slot demo_table i =
     (if i = 0 then \<lparr>ps_state = PID_SLOT_INUSE, ps_pid = 7, ps_attr = Some 100, ps_refs = 2\<rparr>
      else \<lparr>ps_state = PID_SLOT_FREE, ps_pid = 0, ps_attr = None, ps_refs = 0\<rparr>)"
  by (auto simp: demo_table_def MAX_PID_SLOTS_def nth_Cons')

lemma demo_table_inv: "table_inv demo_table (\<lambda>i. if i = 0 then 1 else 0)"
  unfolding table_inv_def
  by (auto simp: demo_table_slot slot_ok_def owns_def demo_object_def split: if_splits)
    (simp_all add: demo_table_def MAX_PID_SLOTS_def demo_object_def)


text \<open>C35. A lookup that succeeds returns the attributes registered under the pid, and the matching
  \<^verbatim>\<open>PutProcessAttr\<close> restores the table exactly; a lookup that finds no process in use with the pid
  returns null and changes nothing.\<close>

theorem GetProcessAttr_put:
  assumes inv: "table_inv t held"
  shows "case SlotGetProcessAttr pid t of
      (Some a, t') \<Rightarrow> (\<exists>i < MAX_PID_SLOTS. slot t i = (slot t i)\<lparr>ps_state := PID_SLOT_INUSE, ps_pid := pid, ps_attr := Some a\<rparr>) \<and>
        attr_pid t' a = pid \<and> st_heap t' a \<noteq> None \<and> PutProcessAttr (Some a) t' = t
    | (None, t') \<Rightarrow> t' = t \<and> (\<forall>i < MAX_PID_SLOTS. ps_state (slot t i) = PID_SLOT_INUSE \<longrightarrow> ps_pid (slot t i) \<noteq> pid)"
proof (cases "find (\<lambda>i. ps_state (slot t i) = PID_SLOT_INUSE \<and> ps_pid (slot t i) = pid) [0..<MAX_PID_SLOTS]")
  have len: "\<forall>i \<in> set [0..<MAX_PID_SLOTS]. i < length (st_slots t)" using table_inv_length [OF inv] by simp
  case None
  then have "SlotGetProcessAttr pid t = (None, t)"
    by (simp add: SlotGetProcessAttr_def PidSlotGetRef_def slot_get_spec [OF len] PidSlotAttr_def)
  then show ?thesis using None by (simp add: find_None_upt)
next
  have len: "\<forall>i \<in> set [0..<MAX_PID_SLOTS]. i < length (st_slots t)" using table_inv_length [OF inv] by simp
  case (Some i)
  then have i: "i < MAX_PID_SLOTS" and st: "ps_state (slot t i) = PID_SLOT_INUSE" and pid: "ps_pid (slot t i) = pid"
    using find_Some_upt by blast+
  have leni: "i < length (st_slots t)" using i len by simp
  let ?t = "snd (AtomicIncrease i 1 t)" and ?h = "held(i := held i + 1)"
  have own: "owns (st_heap t) (slot t i)" using table_inv_slot [OF inv i] st by (simp add: slot_ok_def)
  then obtain a ob where a: "ps_attr (slot t i) = Some a" and ob: "st_heap t a = Some ob" "ao_pid ob = ps_pid (slot t i)"
    by (rule owns_cases)
  have g: "SlotGetProcessAttr pid t = (Some a, ?t)"
    using Some a leni by (simp add: SlotGetProcessAttr_def PidSlotGetRef_def slot_get_spec [OF len] PidSlotAttr_def slot_simps)
  have inv': "table_inv ?t ?h" using increase_inv [OF inv i st] .
  have st': "ps_state (slot ?t i) = PID_SLOT_INUSE" "ps_attr (slot ?t i) = Some a" using st a leni by (simp_all add: slot_simps)
  have "PutProcessAttr (Some a) ?t = slot_release i ?t" using put_inv [OF inv' st'(2)] by simp
  also have "\<dots> = upd_slot i (\<lambda>s. s\<lparr>ps_refs := ps_refs s - 1\<rparr>) ?t" using release_kept(1) [OF inv', of i] st' by simp
  also have "\<dots> = t" using leni by (simp add: AtomicIncrease_def slot_simps o_def) (simp add: upd_slot_def)
  finally show ?thesis
    using g i st pid a ob leni by (simp add: attr_pid_def slot_simps) (metis PidSlot.surjective PidSlot.update_convs(1,2,3))
qed

theorem GetProcessAttr_put_witness:
  "PutProcessAttr (fst (SlotGetProcessAttr 7 demo_table)) (snd (SlotGetProcessAttr 7 demo_table)) = demo_table"
  using GetProcessAttr_put [OF demo_table_inv, of 7]
  by (auto simp: PutProcessAttr_def split: option.splits prod.splits)

text \<open>A process that was removed while a caller still holds it, and was registered again in a
  later slot, cannot be removed: the search of \<^verbatim>\<open>PidSlotRemove\<close> stops at the first slot with the
  pid, finds it in the state \<^verbatim>\<open>PID_SLOT_REMOVING\<close> and returns, while a lookup passes over that slot
  and still returns the process.\<close>

theorem PidSlotRemove_stops:
  assumes "i < j" and "j < MAX_PID_SLOTS" and len: "length (st_slots t) = MAX_PID_SLOTS"
    and i: "ps_pid (slot t i) = pid" "ps_state (slot t i) = PID_SLOT_REMOVING"
    and j: "ps_pid (slot t j) = pid" "ps_state (slot t j) = PID_SLOT_INUSE"
    and first: "\<forall>k < j. k \<noteq> i \<longrightarrow> ps_pid (slot t k) \<noteq> pid"
  shows "PidSlotRemove pid t = t \<and> fst (PidSlotGetRef pid (PidSlotRemove pid t)) = Some j"
proof -
  have "find (\<lambda>k. ps_pid (slot t k) = pid) [0..<MAX_PID_SLOTS] = Some i"
    using first assms(1,2) i(1) by (intro find_upt_first) auto
  then have r: "PidSlotRemove pid t = t" using i(2) by (simp add: PidSlotRemove_def slot_remove_spec)
  have l: "\<forall>k \<in> set [0..<MAX_PID_SLOTS]. k < length (st_slots t)" using len by simp
  have "find (\<lambda>k. ps_state (slot t k) = PID_SLOT_INUSE \<and> ps_pid (slot t k) = pid) [0..<MAX_PID_SLOTS] = Some j"
    using first assms(2) i j by (intro find_upt_first) auto
  then show ?thesis using slot_get_spec [OF l, of pid] by (simp add: r PidSlotGetRef_def)
qed

text \<open>A consistent table in which pid 7 was removed from slot 0 while held, and registered again in slot 1.\<close>

definition again_table :: SlotTable where
  "again_table = \<lparr>st_slots = \<lparr>ps_state = PID_SLOT_REMOVING, ps_pid = 7, ps_attr = Some 100, ps_refs = 1\<rparr> #
       \<lparr>ps_state = PID_SLOT_INUSE, ps_pid = 7, ps_attr = Some 200, ps_refs = 1\<rparr> #
       replicate 298 \<lparr>ps_state = PID_SLOT_FREE, ps_pid = 0, ps_attr = None, ps_refs = 0\<rparr>,
     st_heap = (\<lambda>_. None)(100 := Some demo_object, 200 := Some demo_object), st_buffersFreed = [], st_fault = False\<rparr>"

lemma again_table_slot:
  "i < MAX_PID_SLOTS \<Longrightarrow> slot again_table i =
     (if i = 0 then \<lparr>ps_state = PID_SLOT_REMOVING, ps_pid = 7, ps_attr = Some 100, ps_refs = 1\<rparr>
      else if i = 1 then \<lparr>ps_state = PID_SLOT_INUSE, ps_pid = 7, ps_attr = Some 200, ps_refs = 1\<rparr>
      else \<lparr>ps_state = PID_SLOT_FREE, ps_pid = 0, ps_attr = None, ps_refs = 0\<rparr>)"
  by (auto simp: again_table_def MAX_PID_SLOTS_def nth_Cons')

theorem PidSlotRemove_stops_witness:
  "table_inv again_table (\<lambda>i. if i = 0 then 1 else 0) \<and>
   PidSlotRemove 7 again_table = again_table \<and> fst (PidSlotGetRef 7 (PidSlotRemove 7 again_table)) = Some 1"
proof -
  have z: "0 < MAX_PID_SLOTS" "1 < MAX_PID_SLOTS" by (simp_all add: MAX_PID_SLOTS_def)
  have len: "length (st_slots again_table) = MAX_PID_SLOTS" by (simp add: again_table_def MAX_PID_SLOTS_def)
  have "slot_ok (st_heap again_table) (if i = 0 then 1 else 0) (slot again_table i)" if "i < MAX_PID_SLOTS" for i
    unfolding again_table_slot [OF that] by (simp add: slot_ok_def owns_def again_table_def demo_object_def)
  moreover have "ps_attr (slot again_table i) \<noteq> ps_attr (slot again_table j)"
    if "i < MAX_PID_SLOTS" "j < MAX_PID_SLOTS" "i \<noteq> j" "ps_attr (slot again_table i) \<noteq> None" for i j
    using that(3,4) unfolding again_table_slot [OF that(1)] again_table_slot [OF that(2)] by (simp split: if_splits)
  moreover have "\<not> st_fault again_table" by (simp add: again_table_def)
  ultimately have "table_inv again_table (\<lambda>i. if i = 0 then 1 else 0)"
    using len z unfolding table_inv_def by simp
  moreover have "PidSlotRemove 7 again_table = again_table \<and> fst (PidSlotGetRef 7 (PidSlotRemove 7 again_table)) = Some 1"
    by (rule PidSlotRemove_stops [OF _ z(2) len, of 0]) (simp_all add: again_table_slot z del: One_nat_def)
  ultimately show ?thesis by blast
qed

end
