(* ===== verification/Slot_Threads.thy ===== *)
theory Slot_Threads
  imports Pid_Slots
begin

text \<open>
  The slot table of \<open>Pid_Slots\<close> under concurrent calls. Every operation is cut into its accesses
  to shared memory (each atomic read, write or compare-and-swap, each plain read or write of a
  field of a slot), in the order the code makes them; a thread is a program counter, and the
  threads take their steps in any order. \<^verbatim>\<open>AtomicIncrease\<close> and \<^verbatim>\<open>AtomicDecrease\<close> are one step: their
  retry loop ends in one successful compare-and-swap.

  Two facts about every interleaving: at most one thread at a time owns a reserved slot, so the
  attributes of a slot are never freed by two threads and a slot is never filled by two; and the
  reference count can nevertheless be lost, because \<^verbatim>\<open>PidSlotAdd\<close> overwrites it.
\<close>

section \<open>Program counters\<close>

text \<open>What a thread does after it released a reference.\<close>

datatype Kont = K_Return | K_Get int nat | K_Collect nat nat | K_Release "nat option list"

datatype Pc =
    Idle
  | Add_Cas nat nat | Add_Pid nat nat | Add_Attr nat nat | Add_Refs nat nat | Add_Inuse nat nat
  | Rem_Pid int nat | Rem_Cas int nat
  | Get_State int nat | Get_Pid int nat | Get_Inc int nat | Get_Check int nat
  | Col_State nat nat | Col_Inc nat nat | Col_Check nat nat
  | Put_Attr nat nat
  | Rel_Next "nat option list"
  | Dec_Refs Kont nat
  | Rec_Refs Kont nat | Rec_Cas Kont nat | Rec_Free Kont nat | Rec_Attr Kont nat | Rec_Pid Kont nat | Rec_State Kont nat

text \<open>A loop over the slots goes on at the next index or leaves the loop at the last one.\<close>

definition next_slot :: "(nat \<Rightarrow> Pc) \<Rightarrow> nat \<Rightarrow> Pc" where
  "next_slot pc i = (if Suc i < MAX_PID_SLOTS then pc (Suc i) else Idle)"

definition next_collect :: "nat \<Rightarrow> nat \<Rightarrow> Pc" where
  "next_collect left i = (if Suc i < MAX_PID_SLOTS \<and> 0 < left then Col_State left (Suc i) else Idle)"

fun resume :: "Kont \<Rightarrow> nat \<Rightarrow> Pc" where
  "resume K_Return i = Idle"
| "resume (K_Get pid j) i = next_slot (Get_State pid) j"
| "resume (K_Collect left j) i = next_collect left j"
| "resume (K_Release arr) i = Rel_Next arr"

section \<open>One access of one thread\<close>

text \<open>
  \<open>pc_step\<close> returns the table, the next program counter and the slots on which the thread has
  obtained a reference with this step. In \<open>Add_Cas a i\<close> and its successors \<open>a\<close> is the address to
  register and \<open>i\<close> the slot; in \<open>Col_State left i\<close>, \<open>left\<close> is the room left in the caller's array.
\<close>

fun pc_step :: "Pc \<Rightarrow> SlotTable \<Rightarrow> SlotTable \<times> Pc \<times> nat list" where
  "pc_step Idle t = (t, Idle, [])"
| "pc_step (Add_Cas a i) t =
     (if ps_state (slot t i) = PID_SLOT_FREE then (upd_slot i (\<lambda>s. s\<lparr>ps_state := PID_SLOT_RESERVED\<rparr>) t, Add_Pid a i, [])
      else (t, next_slot (Add_Cas a) i, []))"
| "pc_step (Add_Pid a i) t = (upd_slot i (\<lambda>s. s\<lparr>ps_pid := attr_pid t a\<rparr>) t, Add_Attr a i, [])"
| "pc_step (Add_Attr a i) t = (upd_slot i (\<lambda>s. s\<lparr>ps_attr := Some a\<rparr>) t, Add_Refs a i, [])"
| "pc_step (Add_Refs a i) t = (upd_slot i (\<lambda>s. s\<lparr>ps_refs := 1\<rparr>) t, Add_Inuse a i, [])"
| "pc_step (Add_Inuse a i) t = (upd_slot i (\<lambda>s. s\<lparr>ps_state := PID_SLOT_INUSE\<rparr>) t, Idle, [])"
| "pc_step (Rem_Pid pid i) t =
     (t, if ps_pid (slot t i) = pid then Rem_Cas pid i else next_slot (Rem_Pid pid) i, [])"
| "pc_step (Rem_Cas pid i) t =
     (if ps_state (slot t i) = PID_SLOT_INUSE
      then (upd_slot i (\<lambda>s. s\<lparr>ps_state := PID_SLOT_REMOVING\<rparr>) t, Dec_Refs K_Return i, [])
      else (t, Idle, []))"
| "pc_step (Get_State pid i) t =
     (t, if ps_state (slot t i) = PID_SLOT_INUSE then Get_Pid pid i else next_slot (Get_State pid) i, [])"
| "pc_step (Get_Pid pid i) t =
     (t, if ps_pid (slot t i) = pid then Get_Inc pid i else next_slot (Get_State pid) i, [])"
| "pc_step (Get_Inc pid i) t = (snd (AtomicIncrease i 1 t), Get_Check pid i, [])"
| "pc_step (Get_Check pid i) t =
     (if ps_state (slot t i) = PID_SLOT_INUSE then (t, Idle, [i]) else (t, Dec_Refs (K_Get pid i) i, []))"
| "pc_step (Col_State left i) t =
     (t, if ps_state (slot t i) = PID_SLOT_INUSE then Col_Inc left i else next_collect left i, [])"
| "pc_step (Col_Inc left i) t = (snd (AtomicIncrease i 1 t), Col_Check left i, [])"
| "pc_step (Col_Check left i) t =
     (if ps_state (slot t i) = PID_SLOT_INUSE then (t, next_collect (left - 1) i, [i])
      else (t, Dec_Refs (K_Collect left i) i, []))"
| "pc_step (Put_Attr a i) t =
     (t, if ps_attr (slot t i) = Some a then Dec_Refs K_Return i else next_slot (Put_Attr a) i, [])"
| "pc_step (Rel_Next []) t = (t, Idle, [])"
| "pc_step (Rel_Next (None # arr)) t = (t, Rel_Next arr, [])"
| "pc_step (Rel_Next (Some i # arr)) t = (t, Dec_Refs (K_Release arr) i, [])"
| "pc_step (Dec_Refs k i) t =
     (snd (AtomicDecrease i 1 t), if fst (AtomicDecrease i 1 t) = 1 then Rec_Refs k i else resume k i, [])"
| "pc_step (Rec_Refs k i) t = (t, if ps_refs (slot t i) \<noteq> 0 then resume k i else Rec_Cas k i, [])"
| "pc_step (Rec_Cas k i) t =
     (if ps_state (slot t i) = PID_SLOT_REMOVING
      then (upd_slot i (\<lambda>s. s\<lparr>ps_state := PID_SLOT_RESERVED\<rparr>) t, Rec_Free k i, [])
      else (t, resume k i, []))"
| "pc_step (Rec_Free k i) t = (FreeProceccesAttr (ps_attr (slot t i)) t, Rec_Attr k i, [])"
| "pc_step (Rec_Attr k i) t = (upd_slot i (\<lambda>s. s\<lparr>ps_attr := None\<rparr>) t, Rec_Pid k i, [])"
| "pc_step (Rec_Pid k i) t = (upd_slot i (\<lambda>s. s\<lparr>ps_pid := 0\<rparr>) t, Rec_State k i, [])"
| "pc_step (Rec_State k i) t = (upd_slot i (\<lambda>s. s\<lparr>ps_state := PID_SLOT_FREE\<rparr>) t, resume k i, [])"

section \<open>Threads\<close>

text \<open>
  A system: the table, the program counter of every thread and the references each holds. A
  thread that is idle may call any operation; it registers an object it has just allocated, and
  gives back only references it holds.
\<close>

record SlotSystem =
  ss_table :: SlotTable
  ss_pc :: "nat \<Rightarrow> Pc"
  ss_held :: "nat \<Rightarrow> nat list"

definition call :: "nat \<Rightarrow> Pc \<Rightarrow> SlotSystem \<Rightarrow> SlotSystem" where
  "call th pc s = s\<lparr>ss_pc := (ss_pc s)(th := pc)\<rparr>"

definition thread_step :: "nat \<Rightarrow> SlotSystem \<Rightarrow> SlotSystem" where
  "thread_step th s =
     (let (t, pc, got) = pc_step (ss_pc s th) (ss_table s) in
      s\<lparr>ss_table := t, ss_pc := (ss_pc s)(th := pc), ss_held := (ss_held s)(th := got @ ss_held s th)\<rparr>)"

inductive sys_step :: "SlotSystem \<Rightarrow> SlotSystem \<Rightarrow> bool" where
  go: "ss_pc s th \<noteq> Idle \<Longrightarrow> sys_step s (thread_step th s)"
| add: "ss_pc s th = Idle \<Longrightarrow> st_heap (ss_table s) a = None \<Longrightarrow>
    sys_step s (call th (Add_Cas a 0) (s\<lparr>ss_table := (ss_table s)\<lparr>st_heap := (st_heap (ss_table s))(a := Some ob)\<rparr>\<rparr>))"
| remove: "ss_pc s th = Idle \<Longrightarrow> sys_step s (call th (Rem_Pid pid 0) s)"
| get: "ss_pc s th = Idle \<Longrightarrow> sys_step s (call th (Get_State pid 0) s)"
| collect: "ss_pc s th = Idle \<Longrightarrow> 0 < cap \<Longrightarrow> sys_step s (call th (Col_State cap 0) s)"
| release: "ss_pc s th = Idle \<Longrightarrow> i \<in> set (ss_held s th) \<Longrightarrow>
    sys_step s (call th (Rel_Next [Some i]) (s\<lparr>ss_held := (ss_held s)(th := remove1 i (ss_held s th))\<rparr>))"
| put: "ss_pc s th = Idle \<Longrightarrow> i \<in> set (ss_held s th) \<Longrightarrow> ps_attr (slot (ss_table s) i) = Some a \<Longrightarrow>
    sys_step s (call th (Put_Attr a 0) (s\<lparr>ss_held := (ss_held s)(th := remove1 i (ss_held s th))\<rparr>))"

definition sys_init :: SlotSystem where
  "sys_init = \<lparr>ss_table = PidSlotInit slots_empty, ss_pc = (\<lambda>_. Idle), ss_held = (\<lambda>_. [])\<rparr>"

inductive sys_reach :: "SlotSystem \<Rightarrow> bool" where
  init: "sys_reach sys_init"
| step: "sys_reach s \<Longrightarrow> sys_step s s' \<Longrightarrow> sys_reach s'"

section \<open>Ownership of a reserved slot\<close>

text \<open>The slot a thread owns: it took it from \<^verbatim>\<open>FREE\<close> or \<^verbatim>\<open>REMOVING\<close> to \<^verbatim>\<open>RESERVED\<close> and has not let go of it.\<close>

fun owned :: "Pc \<Rightarrow> nat option" where
  "owned (Add_Pid a i) = Some i" | "owned (Add_Attr a i) = Some i"
| "owned (Add_Refs a i) = Some i" | "owned (Add_Inuse a i) = Some i"
| "owned (Rec_Free k i) = Some i" | "owned (Rec_Attr k i) = Some i"
| "owned (Rec_Pid k i) = Some i" | "owned (Rec_State k i) = Some i"
| "owned _ = None"

fun kont_ok :: "Kont \<Rightarrow> bool" where
  "kont_ok K_Return \<longleftrightarrow> True"
| "kont_ok (K_Get pid j) \<longleftrightarrow> j < MAX_PID_SLOTS"
| "kont_ok (K_Collect left j) \<longleftrightarrow> j < MAX_PID_SLOTS"
| "kont_ok (K_Release arr) \<longleftrightarrow> (\<forall>i. Some i \<in> set arr \<longrightarrow> i < MAX_PID_SLOTS)"

fun pc_ok :: "Pc \<Rightarrow> bool" where
  "pc_ok Idle \<longleftrightarrow> True"
| "pc_ok (Add_Cas a i) \<longleftrightarrow> i < MAX_PID_SLOTS" | "pc_ok (Add_Pid a i) \<longleftrightarrow> i < MAX_PID_SLOTS"
| "pc_ok (Add_Attr a i) \<longleftrightarrow> i < MAX_PID_SLOTS" | "pc_ok (Add_Refs a i) \<longleftrightarrow> i < MAX_PID_SLOTS"
| "pc_ok (Add_Inuse a i) \<longleftrightarrow> i < MAX_PID_SLOTS"
| "pc_ok (Rem_Pid pid i) \<longleftrightarrow> i < MAX_PID_SLOTS" | "pc_ok (Rem_Cas pid i) \<longleftrightarrow> i < MAX_PID_SLOTS"
| "pc_ok (Get_State pid i) \<longleftrightarrow> i < MAX_PID_SLOTS" | "pc_ok (Get_Pid pid i) \<longleftrightarrow> i < MAX_PID_SLOTS"
| "pc_ok (Get_Inc pid i) \<longleftrightarrow> i < MAX_PID_SLOTS" | "pc_ok (Get_Check pid i) \<longleftrightarrow> i < MAX_PID_SLOTS"
| "pc_ok (Col_State n i) \<longleftrightarrow> i < MAX_PID_SLOTS" | "pc_ok (Col_Inc n i) \<longleftrightarrow> i < MAX_PID_SLOTS"
| "pc_ok (Col_Check n i) \<longleftrightarrow> i < MAX_PID_SLOTS"
| "pc_ok (Put_Attr a i) \<longleftrightarrow> i < MAX_PID_SLOTS"
| "pc_ok (Rel_Next arr) \<longleftrightarrow> (\<forall>i. Some i \<in> set arr \<longrightarrow> i < MAX_PID_SLOTS)"
| "pc_ok (Dec_Refs k i) \<longleftrightarrow> kont_ok k \<and> i < MAX_PID_SLOTS"
| "pc_ok (Rec_Refs k i) \<longleftrightarrow> kont_ok k \<and> i < MAX_PID_SLOTS" | "pc_ok (Rec_Cas k i) \<longleftrightarrow> kont_ok k \<and> i < MAX_PID_SLOTS"
| "pc_ok (Rec_Free k i) \<longleftrightarrow> kont_ok k \<and> i < MAX_PID_SLOTS" | "pc_ok (Rec_Attr k i) \<longleftrightarrow> kont_ok k \<and> i < MAX_PID_SLOTS"
| "pc_ok (Rec_Pid k i) \<longleftrightarrow> kont_ok k \<and> i < MAX_PID_SLOTS" | "pc_ok (Rec_State k i) \<longleftrightarrow> kont_ok k \<and> i < MAX_PID_SLOTS"

lemma resume_ok [simp]: "kont_ok k \<Longrightarrow> pc_ok (resume k i)" "owned (resume k i) = None"
  by (cases k; simp add: next_slot_def next_collect_def)+

lemma next_ok [simp]:
  "owned (next_slot (Add_Cas a) i) = None" "owned (next_slot (Rem_Pid pid) i) = None"
  "owned (next_slot (Get_State pid) i) = None" "owned (next_slot (Put_Attr a) i) = None"
  "owned (next_collect n i) = None"
  "pc_ok (next_slot (Add_Cas a) i)" "pc_ok (next_slot (Rem_Pid pid) i)"
  "pc_ok (next_slot (Get_State pid) i)" "pc_ok (next_slot (Put_Attr a) i)" "pc_ok (next_collect n i)"
  by (simp_all add: next_slot_def next_collect_def)

lemma free_frame [slot_simps]:
  "st_slots (FreeProceccesAttr a t) = st_slots t"
  by (simp add: FreeProceccesAttr_def Let_def split: option.splits)

lemma pc_step_ok:
  assumes "pc_ok pc" "pc_step pc t = (t', pc', got)" "length (st_slots t) = MAX_PID_SLOTS"
  shows "pc_ok pc' \<and> length (st_slots t') = MAX_PID_SLOTS \<and> (\<forall>i \<in> set got. i < MAX_PID_SLOTS)"
  using assms by (cases "(pc, t)" rule: pc_step.cases)
    (auto simp: slot_simps AtomicIncrease_def AtomicDecrease_def split: if_splits)

text \<open>What one access does to the states of the slots, in terms of what the thread owns before and after.\<close>

lemma pc_step_reserved:
  assumes "pc_ok pc" "pc_step pc t = (t', pc', got)" "length (st_slots t) = MAX_PID_SLOTS" "j < MAX_PID_SLOTS"
    and "owned pc = Some j \<Longrightarrow> ps_state (slot t j) = PID_SLOT_RESERVED"
  shows "(ps_state (slot t' j) = PID_SLOT_RESERVED \<longleftrightarrow>
      owned pc' = Some j \<or> ps_state (slot t j) = PID_SLOT_RESERVED \<and> owned pc \<noteq> Some j) \<and>
    (owned pc' = Some j \<longrightarrow> owned pc = Some j \<or> ps_state (slot t j) \<noteq> PID_SLOT_RESERVED)"
  using assms by (cases "(pc, t)" rule: pc_step.cases)
    (auto simp: slot_simps AtomicIncrease_def AtomicDecrease_def split: if_splits)

definition sys_ok :: "SlotSystem \<Rightarrow> bool" where
  "sys_ok s \<longleftrightarrow>
     length (st_slots (ss_table s)) = MAX_PID_SLOTS \<and> (\<forall>th. pc_ok (ss_pc s th)) \<and>
     (\<forall>th. \<forall>i \<in> set (ss_held s th). i < MAX_PID_SLOTS) \<and>
     (\<forall>i < MAX_PID_SLOTS. ps_state (slot (ss_table s) i) = PID_SLOT_RESERVED \<longleftrightarrow> (\<exists>th. owned (ss_pc s th) = Some i)) \<and>
     (\<forall>th th' i. owned (ss_pc s th) = Some i \<longrightarrow> owned (ss_pc s th') = Some i \<longrightarrow> th = th')"

lemma owned_less: "pc_ok pc \<Longrightarrow> owned pc = Some i \<Longrightarrow> i < MAX_PID_SLOTS"
  by (cases pc) auto

lemma sys_ok_go:
  assumes ok: "sys_ok s"
  shows "sys_ok (thread_step th s)"
proof -
  let ?t = "ss_table s" and ?pc = "ss_pc s"
  obtain t' pc' got where st: "pc_step (?pc th) ?t = (t', pc', got)" by (metis prod_cases3)
  have eq: "ss_table (thread_step th s) = t'" "ss_pc (thread_step th s) = ?pc(th := pc')"
    "ss_held (thread_step th s) = (ss_held s)(th := got @ ss_held s th)"
    by (simp_all add: thread_step_def st)
  have len: "length (st_slots ?t) = MAX_PID_SLOTS" and pok: "\<And>x. pc_ok (?pc x)"
    and res: "\<And>i. i < MAX_PID_SLOTS \<Longrightarrow> ps_state (slot ?t i) = PID_SLOT_RESERVED \<longleftrightarrow> (\<exists>x. owned (?pc x) = Some i)"
    and uniq: "\<And>x y i. owned (?pc x) = Some i \<Longrightarrow> owned (?pc y) = Some i \<Longrightarrow> x = y"
    and held: "\<And>x i. i \<in> set (ss_held s x) \<Longrightarrow> i < MAX_PID_SLOTS"
    using ok unfolding sys_ok_def by blast+
  note p = pc_step_ok [OF pok st len]
  have r: "(ps_state (slot t' j) = PID_SLOT_RESERVED \<longleftrightarrow>
      owned pc' = Some j \<or> ps_state (slot ?t j) = PID_SLOT_RESERVED \<and> owned (?pc th) \<noteq> Some j) \<and>
    (owned pc' = Some j \<longrightarrow> owned (?pc th) = Some j \<or> ps_state (slot ?t j) \<noteq> PID_SLOT_RESERVED)"
    if "j < MAX_PID_SLOTS" for j
    using pc_step_reserved [OF pok st len that] res [OF that] by blast
  have "ps_state (slot t' j) = PID_SLOT_RESERVED \<longleftrightarrow> (\<exists>x. owned ((?pc(th := pc')) x) = Some j)"
    if "j < MAX_PID_SLOTS" for j
  proof (cases "owned pc' = Some j")
    case True
    then have "owned ((?pc(th := pc')) th) = Some j" by simp
    then show ?thesis using r [OF that] True by blast
  next
    case False
    have "(\<exists>x. owned ((?pc(th := pc')) x) = Some j) \<longleftrightarrow> (\<exists>x. x \<noteq> th \<and> owned (?pc x) = Some j)"
      using False by (metis fun_upd_apply)
    also have "\<dots> \<longleftrightarrow> (\<exists>x. owned (?pc x) = Some j) \<and> owned (?pc th) \<noteq> Some j" using uniq by metis
    finally show ?thesis using r [OF that] res [OF that] False by blast
  qed
  moreover have "x = y" if xy: "owned ((?pc(th := pc')) x) = Some j" "owned ((?pc(th := pc')) y) = Some j" for x y j
  proof -
    have other: False if z: "z \<noteq> th" "owned (?pc z) = Some j" "owned pc' = Some j" for z
      using r [of j] res [of j] owned_less [OF pok z(2)] uniq [OF z(2), of th] z by blast
    show ?thesis using xy other uniq by (metis fun_upd_apply)
  qed
  moreover have "i < MAX_PID_SLOTS" if "i \<in> set (((ss_held s)(th := got @ ss_held s th)) x)" for i x
    using that p held by (auto simp: fun_upd_apply split: if_splits)
  moreover have "pc_ok ((?pc(th := pc')) x)" for x using p pok by simp
  ultimately show ?thesis using p unfolding sys_ok_def eq by blast
qed

lemma sys_ok_call:
  assumes ok: "sys_ok s" and idle: "ss_pc s th = Idle" and pc: "pc_ok pc" "owned pc = None"
    and s': "ss_pc s' = ss_pc s" "st_slots (ss_table s') = st_slots (ss_table s)"
    and held: "\<And>x i. i \<in> set (ss_held s' x) \<Longrightarrow> i \<in> set (ss_held s x)"
  shows "sys_ok (call th pc s')"
proof -
  have o: "owned (((ss_pc s)(th := pc)) x) = owned (ss_pc s x)" for x using idle pc(2) by simp
  show ?thesis using ok pc held unfolding sys_ok_def call_def
    by (simp add: s' o del: fun_upd_apply) (simp add: fun_upd_apply, blast)
qed

lemma sys_ok_step: "sys_step s s' \<Longrightarrow> sys_ok s \<Longrightarrow> sys_ok s'"
proof (induction rule: sys_step.induct)
  case (go s th)
  then show ?case by (simp add: sys_ok_go)
next
  case (release s th i)
  then have "i < MAX_PID_SLOTS" by (auto simp: sys_ok_def)
  then show ?case using release by (intro sys_ok_call) (auto dest: notin_set_remove1 in_set_remove1 [THEN iffD1] set_remove1_subset [THEN subsetD] split: if_splits)
next
  case (put s th i a)
  then show ?case by (intro sys_ok_call) (auto simp: MAX_PID_SLOTS_def dest: set_remove1_subset [THEN subsetD] split: if_splits)
qed (auto intro!: sys_ok_call simp: MAX_PID_SLOTS_def)

lemma sys_ok_reach: "sys_reach s \<Longrightarrow> sys_ok s"
proof (induction rule: sys_reach.induct)
  case init
  then show ?case by (simp add: sys_ok_def sys_init_def PidSlotInit_def)
qed (rule sys_ok_step)

text \<open>C33. In every interleaving of any number of threads, a reserved slot belongs to exactly one thread:
  the one that is filling it in \<^verbatim>\<open>PidSlotAdd\<close> or the one that is cleaning it up in
  \<^verbatim>\<open>PidSlotTryReclaim\<close>. So two threads never free the attributes of one slot at the same time, never
  fill a slot that is being cleaned up, and no slot stays reserved without a thread that will
  publish it.\<close>

theorem Slot_owner_unique:
  assumes "sys_reach s" and "i < MAX_PID_SLOTS"
  shows "if ps_state (slot (ss_table s) i) = PID_SLOT_RESERVED then \<exists>!th. owned (ss_pc s th) = Some i
    else \<forall>th. owned (ss_pc s th) \<noteq> Some i"
  using sys_ok_reach [OF assms(1)] assms(2) unfolding sys_ok_def by auto

section \<open>A lost reference\<close>

text \<open>Schedules: which thread moves, and the calls that idle threads make.\<close>

datatype Move = Go nat | Call_Add nat nat AttrObject | Call_Remove nat int | Call_Get nat int | Call_Release nat nat

fun move :: "Move \<Rightarrow> SlotSystem \<Rightarrow> SlotSystem option" where
  "move (Go th) s = (if ss_pc s th = Idle then None else Some (thread_step th s))"
| "move (Call_Add th a ob) s =
     (if ss_pc s th = Idle \<and> st_heap (ss_table s) a = None
      then Some (call th (Add_Cas a 0) (s\<lparr>ss_table := (ss_table s)\<lparr>st_heap := (st_heap (ss_table s))(a := Some ob)\<rparr>\<rparr>))
      else None)"
| "move (Call_Remove th pid) s = (if ss_pc s th = Idle then Some (call th (Rem_Pid pid 0) s) else None)"
| "move (Call_Get th pid) s = (if ss_pc s th = Idle then Some (call th (Get_State pid 0) s) else None)"
| "move (Call_Release th i) s =
     (if ss_pc s th = Idle \<and> i \<in> set (ss_held s th)
      then Some (call th (Rel_Next [Some i]) (s\<lparr>ss_held := (ss_held s)(th := remove1 i (ss_held s th))\<rparr>))
      else None)"

fun schedule :: "Move list \<Rightarrow> SlotSystem \<Rightarrow> SlotSystem option" where
  "schedule [] s = Some s"
| "schedule (m # ms) s = Option.bind (move m s) (schedule ms)"

lemma move_step: "move m s = Some s' \<Longrightarrow> sys_step s s'"
  by (cases m) (auto intro: sys_step.intros split: if_splits)

lemma schedule_reach: "sys_reach s \<Longrightarrow> schedule ms s = Some s' \<Longrightarrow> sys_reach s'"
proof (induction ms arbitrary: s)
  case (Cons m ms)
  from Cons.prems obtain s1 where "move m s = Some s1" "schedule ms s1 = Some s'"
    by (auto simp: bind_eq_Some_conv)
  with Cons show ?case by (blast intro: sys_reach.step move_step)
qed simp

text \<open>
  The states of the schedule: one slot changes, the program counters of three threads and what
  the third of them holds.
\<close>

definition other_slots :: "PidSlot list" where
  "other_slots = replicate 299 \<lparr>ps_state = PID_SLOT_FREE, ps_pid = 0, ps_attr = None, ps_refs = 0\<rparr>"

definition view :: "PidSlot \<Rightarrow> (nat \<Rightarrow> AttrObject option) \<Rightarrow> nat list \<Rightarrow> Pc \<Rightarrow> Pc \<Rightarrow> Pc \<Rightarrow> nat list \<Rightarrow> nat list \<Rightarrow> SlotSystem" where
  "view s heap freed p0 p1 p2 h1 h2 =
     \<lparr>ss_table = \<lparr>st_slots = s # other_slots, st_heap = heap, st_buffersFreed = freed, st_fault = False\<rparr>,
      ss_pc = (\<lambda>_. Idle)(0 := p0, 1 := p1, 2 := p2), ss_held = (\<lambda>_. [])(1 := h1, 2 := h2)\<rparr>"

lemma view_init: "sys_init = view (\<lparr>ps_state = PID_SLOT_FREE, ps_pid = 0, ps_attr = None, ps_refs = 0\<rparr>) (\<lambda>_. None) [] Idle Idle Idle [] []"
  by (simp add: view_def other_slots_def sys_init_def PidSlotInit_def slots_empty_def MAX_PID_SLOTS_def
      replicate_Suc [symmetric] fun_eq_iff del: replicate_Suc)

definition object9 :: AttrObject where
  "object9 = \<lparr>ao_pid = 9, ao_actcData = []\<rparr>"

text \<open>Thread 0 registers pid 7 in slot 0.\<close>

lemma phase1: "schedule (Call_Add 0 100 demo_object # replicate 5 (Go 0))
  (view (\<lparr>ps_state = PID_SLOT_FREE, ps_pid = 0, ps_attr = None, ps_refs = 0\<rparr>) (\<lambda>_. None) [] Idle Idle Idle [] []) =
  Some (view (\<lparr>ps_state = PID_SLOT_INUSE, ps_pid = 7, ps_attr = Some 100, ps_refs = 1\<rparr>) ((\<lambda>_. None)(100 := Some demo_object)) [] Idle Idle Idle [] [])"
  by (simp add: numeral_eq_Suc view_def thread_step_def call_def upd_slot_def AtomicIncrease_def AtomicDecrease_def
      FreeProceccesAttr_def ResetActcData_def attr_pid_def demo_object_def object9_def fun_eq_iff)

text \<open>Thread 1 looks pid 7 up, reads the state and the pid of slot 0, and is stopped before it takes its reference.\<close>

lemma phase2: "schedule ([Call_Get 1 7, Go 1, Go 1])
  (view (\<lparr>ps_state = PID_SLOT_INUSE, ps_pid = 7, ps_attr = Some 100, ps_refs = 1\<rparr>) ((\<lambda>_. None)(100 := Some demo_object)) [] Idle Idle Idle [] []) =
  Some (view (\<lparr>ps_state = PID_SLOT_INUSE, ps_pid = 7, ps_attr = Some 100, ps_refs = 1\<rparr>) ((\<lambda>_. None)(100 := Some demo_object)) [] Idle (Get_Inc 7 0) Idle [] [])"
  by (simp add: numeral_eq_Suc view_def thread_step_def call_def upd_slot_def AtomicIncrease_def AtomicDecrease_def
      FreeProceccesAttr_def ResetActcData_def attr_pid_def demo_object_def object9_def fun_eq_iff)

text \<open>Thread 0 removes pid 7: nobody holds the slot, so it is reclaimed.\<close>

lemma phase3: "schedule (Call_Remove 0 7 # replicate 9 (Go 0))
  (view (\<lparr>ps_state = PID_SLOT_INUSE, ps_pid = 7, ps_attr = Some 100, ps_refs = 1\<rparr>) ((\<lambda>_. None)(100 := Some demo_object)) [] Idle (Get_Inc 7 0) Idle [] []) =
  Some (view (\<lparr>ps_state = PID_SLOT_FREE, ps_pid = 0, ps_attr = None, ps_refs = 0\<rparr>) (\<lambda>_. None) [40] Idle (Get_Inc 7 0) Idle [] [])"
  by (simp add: numeral_eq_Suc view_def thread_step_def call_def upd_slot_def AtomicIncrease_def AtomicDecrease_def
      FreeProceccesAttr_def ResetActcData_def attr_pid_def demo_object_def object9_def fun_eq_iff)

text \<open>Thread 0 registers pid 9; it gets slot 0 again and is stopped before it sets the reference count.\<close>

lemma phase4: "schedule (Call_Add 0 200 object9 # replicate 3 (Go 0))
  (view (\<lparr>ps_state = PID_SLOT_FREE, ps_pid = 0, ps_attr = None, ps_refs = 0\<rparr>) (\<lambda>_. None) [40] Idle (Get_Inc 7 0) Idle [] []) =
  Some (view (\<lparr>ps_state = PID_SLOT_RESERVED, ps_pid = 9, ps_attr = Some 200, ps_refs = 0\<rparr>) ((\<lambda>_. None)(200 := Some object9)) [40] (Add_Refs 200 0) (Get_Inc 7 0) Idle [] [])"
  by (simp add: numeral_eq_Suc view_def thread_step_def call_def upd_slot_def AtomicIncrease_def AtomicDecrease_def
      FreeProceccesAttr_def ResetActcData_def attr_pid_def demo_object_def object9_def fun_eq_iff)

text \<open>Thread 1 takes its reference; thread 0 sets the count to one and publishes the slot; thread 1 finds it in use and returns it.\<close>

lemma phase5: "schedule ([Go 1, Go 0, Go 0, Go 1])
  (view (\<lparr>ps_state = PID_SLOT_RESERVED, ps_pid = 9, ps_attr = Some 200, ps_refs = 0\<rparr>) ((\<lambda>_. None)(200 := Some object9)) [40] (Add_Refs 200 0) (Get_Inc 7 0) Idle [] []) =
  Some (view (\<lparr>ps_state = PID_SLOT_INUSE, ps_pid = 9, ps_attr = Some 200, ps_refs = 1\<rparr>) ((\<lambda>_. None)(200 := Some object9)) [40] Idle Idle Idle [0] [])"
  by (simp add: numeral_eq_Suc view_def thread_step_def call_def upd_slot_def AtomicIncrease_def AtomicDecrease_def
      FreeProceccesAttr_def ResetActcData_def attr_pid_def demo_object_def object9_def fun_eq_iff)

text \<open>Thread 1 gives its reference back: the count is zero although the slot is in use.\<close>

lemma phase6: "schedule (Call_Release 1 0 # replicate 5 (Go 1))
  (view (\<lparr>ps_state = PID_SLOT_INUSE, ps_pid = 9, ps_attr = Some 200, ps_refs = 1\<rparr>) ((\<lambda>_. None)(200 := Some object9)) [40] Idle Idle Idle [0] []) =
  Some (view (\<lparr>ps_state = PID_SLOT_INUSE, ps_pid = 9, ps_attr = Some 200, ps_refs = 0\<rparr>) ((\<lambda>_. None)(200 := Some object9)) [40] Idle Idle Idle [] [])"
  by (simp add: numeral_eq_Suc view_def thread_step_def call_def upd_slot_def AtomicIncrease_def AtomicDecrease_def
      FreeProceccesAttr_def ResetActcData_def attr_pid_def demo_object_def object9_def fun_eq_iff)

text \<open>Thread 2 looks pid 9 up and holds slot 0.\<close>

lemma phase7: "schedule (Call_Get 2 9 # replicate 4 (Go 2))
  (view (\<lparr>ps_state = PID_SLOT_INUSE, ps_pid = 9, ps_attr = Some 200, ps_refs = 0\<rparr>) ((\<lambda>_. None)(200 := Some object9)) [40] Idle Idle Idle [] []) =
  Some (view (\<lparr>ps_state = PID_SLOT_INUSE, ps_pid = 9, ps_attr = Some 200, ps_refs = 1\<rparr>) ((\<lambda>_. None)(200 := Some object9)) [40] Idle Idle Idle [] [0])"
  by (simp add: numeral_eq_Suc view_def thread_step_def call_def upd_slot_def AtomicIncrease_def AtomicDecrease_def
      FreeProceccesAttr_def ResetActcData_def attr_pid_def demo_object_def object9_def fun_eq_iff)

text \<open>Thread 0 removes pid 9: the count drops to zero and the attributes that thread 2 uses are freed.\<close>

lemma phase8: "schedule (Call_Remove 0 9 # replicate 9 (Go 0))
  (view (\<lparr>ps_state = PID_SLOT_INUSE, ps_pid = 9, ps_attr = Some 200, ps_refs = 1\<rparr>) ((\<lambda>_. None)(200 := Some object9)) [40] Idle Idle Idle [] [0]) =
  Some (view (\<lparr>ps_state = PID_SLOT_FREE, ps_pid = 0, ps_attr = None, ps_refs = 0\<rparr>) (\<lambda>_. None) [40] Idle Idle Idle [] [0])"
  by (simp add: numeral_eq_Suc view_def thread_step_def call_def upd_slot_def AtomicIncrease_def AtomicDecrease_def
      FreeProceccesAttr_def ResetActcData_def attr_pid_def demo_object_def object9_def fun_eq_iff)

text \<open>The reference count can be lost. There is an interleaving of legal calls after which a thread
  holds a reference it obtained from \<^verbatim>\<open>PidSlotGetRef\<close> and has not given back, no call is running,
  and yet the slot is free and its attributes have been freed: a reader that took its reference
  between the reclaim of a slot and the \<^verbatim>\<open>EnvAtomicSet(&s->refs, 1)\<close> of the next \<^verbatim>\<open>PidSlotAdd\<close> was
  not counted.\<close>

theorem PidSlotAdd_loses_reference:
  "\<exists>s th i. sys_reach s \<and> (\<forall>x. ss_pc s x = Idle) \<and> i \<in> set (ss_held s th) \<and>
     ps_state (slot (ss_table s) i) = PID_SLOT_FREE \<and> ps_attr (slot (ss_table s) i) = None \<and>
     (\<forall>a. st_heap (ss_table s) a = None)"
proof -
  note reach = sys_reach.init [unfolded view_init]
  note r = schedule_reach [OF _ phase1] schedule_reach [OF _ phase2] schedule_reach [OF _ phase3]
    schedule_reach [OF _ phase4] schedule_reach [OF _ phase5] schedule_reach [OF _ phase6]
    schedule_reach [OF _ phase7] schedule_reach [OF _ phase8]
  let ?s = "view (\<lparr>ps_state = PID_SLOT_FREE, ps_pid = 0, ps_attr = None, ps_refs = 0\<rparr>) (\<lambda>_. None) [40] Idle Idle Idle [] [0]"
  have "sys_reach ?s" by (intro r reach)
  moreover have "(\<forall>x. ss_pc ?s x = Idle) \<and> 0 \<in> set (ss_held ?s 2) \<and>
     ps_state (slot (ss_table ?s) 0) = PID_SLOT_FREE \<and> ps_attr (slot (ss_table ?s) 0) = None \<and>
     (\<forall>a. st_heap (ss_table ?s) a = None)"
    by (simp add: view_def)
  ultimately show ?thesis by blast
qed

section \<open>A thread that runs alone\<close>

text \<open>
  \<open>alone pc t got t'\<close>: started at \<open>pc\<close>, a thread that is not interrupted reaches the end of its
  call with the references \<open>got\<close>, and leaves the table \<open>t'\<close>.
\<close>

inductive alone :: "Pc \<Rightarrow> SlotTable \<Rightarrow> nat list \<Rightarrow> SlotTable \<Rightarrow> bool" where
  idle: "alone Idle t [] t"
| access: "pc_step pc t = (t1, pc1, g) \<Longrightarrow> alone pc1 t1 g' t' \<Longrightarrow> pc \<noteq> Idle \<Longrightarrow> alone pc t (g @ g') t'"

lemma alone_quiet: "pc_step pc t = (t1, pc1, []) \<Longrightarrow> alone pc1 t1 g t' \<Longrightarrow> pc \<noteq> Idle \<Longrightarrow> alone pc t g t'"
  using alone.access [of pc t t1 pc1 "[]"] by simp

lemma alone_next:
  assumes "\<And>j. j < MAX_PID_SLOTS \<Longrightarrow> i < j \<Longrightarrow> j = Suc i \<Longrightarrow> alone (pc j) t g t'"
    and "\<not> Suc i < MAX_PID_SLOTS \<Longrightarrow> g = [] \<and> t' = t"
  shows "alone (next_slot pc i) t g t'"
  using assms alone.idle by (auto simp: next_slot_def)

lemma alone_release:
  assumes i: "i < length (st_slots t)" and rest: "alone (resume k i) (slot_release i t) g t'"
  shows "alone (Dec_Refs k i) t g t'"
proof (cases "ps_refs (slot t i) = 1")
  case False
  then have "slot_release i t = snd (AtomicDecrease i 1 t)" by (simp add: slot_release_def AtomicDecrease_def)
  with rest False show ?thesis by (intro alone_quiet [of "Dec_Refs k i"]) (simp_all add: AtomicDecrease_def)
next
  case True
  let ?t = "snd (AtomicDecrease i 1 t)"
  have r: "slot_release i t = PidSlotTryReclaim i ?t" using True by (simp add: slot_release_def AtomicDecrease_def)
  have refs: "ps_refs (slot ?t i) = 0" using True i by (simp add: AtomicDecrease_def slot_simps)
  have "alone (Rec_Cas k i) ?t g t'"
  proof (cases "ps_state (slot ?t i) = PID_SLOT_REMOVING")
    case False
    then have "PidSlotTryReclaim i ?t = ?t" by (simp add: PidSlotTryReclaim_def)
    with rest r False show ?thesis by (intro alone_quiet [of "Rec_Cas k i"]) simp_all
  next
    case st: True
    let ?t1 = "upd_slot i (\<lambda>s. s\<lparr>ps_state := PID_SLOT_RESERVED\<rparr>) ?t"
    let ?t2 = "FreeProceccesAttr (ps_attr (slot ?t1 i)) ?t1"
    let ?t3 = "upd_slot i (\<lambda>s. s\<lparr>ps_attr := None\<rparr>) ?t2"
    let ?t4 = "upd_slot i (\<lambda>s. s\<lparr>ps_pid := 0\<rparr>) ?t3"
    let ?t5 = "upd_slot i (\<lambda>s. s\<lparr>ps_state := PID_SLOT_FREE\<rparr>) ?t4"
    have len: "i < length (st_slots ?t2)" using i by (simp add: slot_simps AtomicDecrease_def)
    then have five: "PidSlotTryReclaim i ?t = ?t5"
      using refs st by (simp add: PidSlotTryReclaim_def Let_def slot_simps o_def)
    have "alone (Rec_State k i) ?t4 g t'" using rest [unfolded r five] by (intro alone_quiet [of "Rec_State k i"]) simp_all
    then have "alone (Rec_Pid k i) ?t3 g t'" by (intro alone_quiet [of "Rec_Pid k i"]) simp_all
    then have "alone (Rec_Attr k i) ?t2 g t'" by (intro alone_quiet [of "Rec_Attr k i"]) simp_all
    then have "alone (Rec_Free k i) ?t1 g t'" by (intro alone_quiet [of "Rec_Free k i"]) simp_all
    then show ?thesis using st by (intro alone_quiet [of "Rec_Cas k i"]) simp_all
  qed
  then have "alone (Rec_Refs k i) ?t g t'" using refs by (intro alone_quiet [of "Rec_Refs k i"]) simp_all
  then show ?thesis using True by (intro alone_quiet [of "Dec_Refs k i"]) (simp_all add: AtomicDecrease_def)
qed

lemma upt_slot: "i < MAX_PID_SLOTS \<Longrightarrow> [i..<MAX_PID_SLOTS] = i # [Suc i..<MAX_PID_SLOTS]"
  by (rule upt_conv_Cons)

lemma slot_induct [consumes 1, case_names slot]:
  assumes "i < MAX_PID_SLOTS" and "\<And>i. i < MAX_PID_SLOTS \<Longrightarrow> (Suc i < MAX_PID_SLOTS \<Longrightarrow> P (Suc i)) \<Longrightarrow> P i"
  shows "P i"
  using assms(1)
proof (induction "MAX_PID_SLOTS - i" arbitrary: i rule: less_induct)
  case less
  have "MAX_PID_SLOTS - Suc i < MAX_PID_SLOTS - i" using less.prems by linarith
  then show ?case using less.hyps [of "Suc i"] less.prems by (rule_tac assms(2))
qed

text \<open>The scan goes on with the next slot: a common step of the four searches.\<close>

lemma alone_skip:
  assumes "pc_step (pc i) t = (t, next_slot pc i, [])" "pc i \<noteq> Idle"
    and "Suc i < MAX_PID_SLOTS \<Longrightarrow> alone (pc (Suc i)) t g t'" "\<not> Suc i < MAX_PID_SLOTS \<Longrightarrow> g = [] \<and> t' = t"
  shows "alone (pc i) t g t'"
proof (rule alone_quiet [OF assms(1) _ assms(2)], rule alone_next)
  show "alone (pc j) t g t'" if "j < MAX_PID_SLOTS" "j = Suc i" for j using that assms(3) by simp
qed (use assms(4) in blast)

lemma alone_add: "i < MAX_PID_SLOTS \<Longrightarrow> length (st_slots t) = MAX_PID_SLOTS \<Longrightarrow>
  alone (Add_Cas a i) t [] (snd (slot_add [i..<MAX_PID_SLOTS] a t))"
proof (induction rule: slot_induct)
  case (slot i)
  show ?case
  proof (cases "ps_state (slot t i) = PID_SLOT_FREE")
    case False
    then show ?thesis using slot by - (rule alone_skip [of "Add_Cas a"], simp_all add: upt_slot [OF slot(1)])
  next
    case True
    let ?t1 = "upd_slot i (\<lambda>s. s\<lparr>ps_state := PID_SLOT_RESERVED\<rparr>) t"
    let ?t2 = "upd_slot i (\<lambda>s. s\<lparr>ps_pid := attr_pid t a\<rparr>) ?t1"
    let ?t3 = "upd_slot i (\<lambda>s. s\<lparr>ps_attr := Some a\<rparr>) ?t2"
    let ?t4 = "upd_slot i (\<lambda>s. s\<lparr>ps_refs := 1\<rparr>) ?t3"
    let ?t5 = "upd_slot i (\<lambda>s. s\<lparr>ps_state := PID_SLOT_INUSE\<rparr>) ?t4"
    have ap: "attr_pid ?t1 a = attr_pid t a" by (simp add: attr_pid_def slot_simps)
    have "snd (slot_add [i..<MAX_PID_SLOTS] a t) = ?t5"
      using True slot by (simp add: upt_slot [OF slot(1)] slot_simps o_def)
    moreover have "alone (Add_Inuse a i) ?t4 [] ?t5" by (rule alone_quiet [OF _ alone.idle]) simp_all
    then have "alone (Add_Refs a i) ?t3 [] ?t5" by (intro alone_quiet [of "Add_Refs a i"]) simp_all
    then have "alone (Add_Attr a i) ?t2 [] ?t5" by (intro alone_quiet [of "Add_Attr a i"]) simp_all
    then have "alone (Add_Pid a i) ?t1 [] ?t5" by (intro alone_quiet [of "Add_Pid a i"]) (simp_all add: ap)
    then have "alone (Add_Cas a i) t [] ?t5" using True by (intro alone_quiet [of "Add_Cas a i"]) simp_all
    ultimately show ?thesis by simp
  qed
qed

lemma alone_remove: "i < MAX_PID_SLOTS \<Longrightarrow> length (st_slots t) = MAX_PID_SLOTS \<Longrightarrow>
  alone (Rem_Pid pid i) t [] (slot_remove [i..<MAX_PID_SLOTS] pid t)"
proof (induction rule: slot_induct)
  case (slot i)
  let ?t' = "slot_remove [i..<MAX_PID_SLOTS] pid t"
  show ?case
  proof (cases "ps_pid (slot t i) = pid")
    case False
    then show ?thesis using slot by - (rule alone_skip [of "Rem_Pid pid"], simp_all add: upt_slot [OF slot(1)])
  next
    case pid: True
    have "alone (Rem_Cas pid i) t [] ?t'"
    proof (cases "ps_state (slot t i) = PID_SLOT_INUSE")
      case True
      have "alone (Dec_Refs K_Return i) (upd_slot i (\<lambda>s. s\<lparr>ps_state := PID_SLOT_REMOVING\<rparr>) t) [] ?t'"
        using True pid slot by - (rule alone_release, simp_all add: upt_slot [OF slot(1)] slot_simps alone.idle)
      then show ?thesis using True by (intro alone_quiet [of "Rem_Cas pid i"]) simp_all
    next
      case False
      then have "?t' = t" using pid by (simp add: upt_slot [OF slot(1)])
      then show ?thesis using False by - (rule alone_quiet [OF _ alone.idle], simp_all)
    qed
    then show ?thesis using pid by (intro alone_quiet [of "Rem_Pid pid i"]) simp_all
  qed
qed

lemma alone_get: "i < MAX_PID_SLOTS \<Longrightarrow> length (st_slots t) = MAX_PID_SLOTS \<Longrightarrow>
  alone (Get_State pid i) t (case fst (slot_get [i..<MAX_PID_SLOTS] pid t) of None \<Rightarrow> [] | Some j \<Rightarrow> [j])
    (snd (slot_get [i..<MAX_PID_SLOTS] pid t))"
proof (induction rule: slot_induct)
  case (slot i)
  let ?r = "slot_get [i..<MAX_PID_SLOTS] pid t"
  let ?g = "case fst ?r of None \<Rightarrow> [] | Some j \<Rightarrow> [j]"
  have skip: "alone (next_slot (Get_State pid) i) t ?g (snd ?r)" if "\<not> (ps_state (slot t i) = PID_SLOT_INUSE \<and> ps_pid (slot t i) = pid)"
    using that slot by - (rule alone_next, auto simp: upt_slot [OF slot(1)])
  show ?case
  proof (cases "ps_state (slot t i) = PID_SLOT_INUSE")
    case False
    then show ?thesis using skip by - (rule alone_quiet, simp_all)
  next
    case st: True
    have "alone (Get_Pid pid i) t ?g (snd ?r)"
    proof (cases "ps_pid (slot t i) = pid")
      case False
      then show ?thesis using skip by - (rule alone_quiet, simp_all)
    next
      case pid: True
      let ?t = "snd (AtomicIncrease i 1 t)"
      have r: "?r = (Some i, ?t)" using st pid slot by (simp add: upt_slot [OF slot(1)] Let_def slot_simps)
      have "ps_state (slot ?t i) = PID_SLOT_INUSE" using st slot by (simp add: slot_simps)
      then have "alone (Get_Check pid i) ?t ([i] @ []) ?t" by - (rule alone.access [OF _ alone.idle], simp_all)
      then have "alone (Get_Inc pid i) t [i] ?t" by (intro alone_quiet [of "Get_Inc pid i"]) simp_all
      then show ?thesis unfolding r using pid by (intro alone_quiet [of "Get_Pid pid i"]) simp_all
    qed
    then show ?thesis using st by (intro alone_quiet [of "Get_State pid i"]) simp_all
  qed
qed

lemma alone_put: "i < MAX_PID_SLOTS \<Longrightarrow> length (st_slots t) = MAX_PID_SLOTS \<Longrightarrow>
  alone (Put_Attr a i) t [] (slot_put [i..<MAX_PID_SLOTS] a t)"
proof (induction rule: slot_induct)
  case (slot i)
  show ?case
  proof (cases "ps_attr (slot t i) = Some a")
    case False
    then show ?thesis using slot by - (rule alone_skip [of "Put_Attr a"], simp_all add: upt_slot [OF slot(1)])
  next
    case True
    have "alone (Dec_Refs K_Return i) t [] (slot_put [i..<MAX_PID_SLOTS] a t)"
      using True slot by - (rule alone_release, simp_all add: upt_slot [OF slot(1)] alone.idle)
    then show ?thesis using True by (intro alone_quiet [of "Put_Attr a i"]) simp_all
  qed
qed

lemma release_length [slot_simps]: "length (st_slots (slot_release i t)) = length (st_slots t)"
  by (simp add: slot_release_def PidSlotTryReclaim_def AtomicDecrease_def Let_def slot_simps)

lemma alone_releases:
  assumes "\<forall>i. Some i \<in> set arr \<longrightarrow> i < length (st_slots t)"
  shows "alone (Rel_Next arr) t [] (PidSlotReleaseRefs arr t)"
  using assms
proof (induction arr arbitrary: t)
  case Nil
  show ?case by (rule alone_quiet [OF _ alone.idle]) simp_all
next
  case (Cons s arr)
  show ?case
  proof (cases s)
    case None
    then show ?thesis using Cons by (intro alone_quiet [of "Rel_Next (s # arr)"]) auto
  next
    case (Some i)
    have "alone (Dec_Refs (K_Release arr) i) t [] (PidSlotReleaseRefs arr (slot_release i t))"
      using Cons.IH [of "slot_release i t"] Cons.prems Some by (intro alone_release) (auto simp: slot_simps)
    then show ?thesis using Some by (intro alone_quiet [of "Rel_Next (s # arr)"]) simp_all
  qed
qed

lemma alone_collect: "i < MAX_PID_SLOTS \<Longrightarrow> length (st_slots t) = MAX_PID_SLOTS \<Longrightarrow> length arr < cap \<Longrightarrow>
  \<exists>new. fst (slot_collect [i..<MAX_PID_SLOTS] cap arr t) = arr @ new \<and>
    alone (Col_State (cap - length arr) i) t new (snd (slot_collect [i..<MAX_PID_SLOTS] cap arr t))"
proof (induction arbitrary: arr t rule: slot_induct)
  case (slot i)
  let ?left = "cap - length arr" and ?r = "slot_collect [i..<MAX_PID_SLOTS] cap arr t"
  have left: "0 < ?left" "cap - length (arr @ [i]) = ?left - 1" using slot.prems(2) by auto
  show ?case
  proof (cases "ps_state (slot t i) = PID_SLOT_INUSE")
    case False
    have "\<exists>new. fst ?r = arr @ new \<and> alone (next_collect ?left i) t new (snd ?r)"
      using slot False left by (auto simp: next_collect_def upt_slot [OF slot(1)] alone.idle)
    then obtain new where "fst ?r = arr @ new" "alone (next_collect ?left i) t new (snd ?r)" by blast
    then show ?thesis using False by - (rule exI [of _ new], rule conjI, assumption, rule alone_quiet, simp_all)
  next
    case True
    let ?t = "snd (AtomicIncrease i 1 t)"
    have st: "ps_state (slot ?t i) = PID_SLOT_INUSE" "length (st_slots ?t) = MAX_PID_SLOTS"
      using True slot by (simp_all add: slot_simps)
    have r: "?r = slot_collect [Suc i..<MAX_PID_SLOTS] cap (arr @ [i]) ?t"
      using True slot.prems st by (simp add: upt_slot [OF slot(1)] Let_def)
    have "\<exists>new. fst ?r = arr @ [i] @ new \<and> alone (next_collect (?left - 1) i) ?t new (snd ?r)"
    proof (cases "Suc i < MAX_PID_SLOTS \<and> 0 < ?left - 1")
      case True
      then show ?thesis using slot.IH [of ?t "arr @ [i]"] st(2) left unfolding r by (auto simp: next_collect_def)
    next
      case False
      then have "?r = (arr @ [i], ?t)" unfolding r by (cases "Suc i < MAX_PID_SLOTS") (auto simp: upt_slot)
      then show ?thesis using False by (auto simp: next_collect_def alone.idle)
    qed
    then obtain new where new: "fst ?r = arr @ [i] @ new" "alone (next_collect (?left - 1) i) ?t new (snd ?r)" by blast
    have "alone (Col_Check ?left i) ?t ([i] @ new) (snd ?r)"
      using st(1) by - (rule alone.access [OF _ new(2)], simp_all)
    then have "alone (Col_Inc ?left i) t ([i] @ new) (snd ?r)" by (intro alone_quiet [of "Col_Inc ?left i"]) simp_all
    then have "alone (Col_State ?left i) t ([i] @ new) (snd ?r)" using True by (intro alone_quiet [of "Col_State ?left i"]) simp_all
    with new(1) show ?thesis by blast
  qed
qed

lemma Slot_operations_alone_parts:
  assumes "length (st_slots t) = MAX_PID_SLOTS"
  shows "alone (Add_Cas a 0) t [] (snd (PidSlotAdd a t))"
    and "alone (Rem_Pid pid 0) t [] (PidSlotRemove pid t)"
    and "alone (Get_State pid 0) t (case fst (PidSlotGetRef pid t) of None \<Rightarrow> [] | Some i \<Rightarrow> [i]) (snd (PidSlotGetRef pid t))"
    and "0 < cap \<Longrightarrow> alone (Col_State cap 0) t (fst (PidSlotCollectRefs cap t)) (snd (PidSlotCollectRefs cap t))"
    and "alone (Put_Attr a 0) t [] (PutProcessAttr (Some a) t)"
    and "list_all (\<lambda>s. case s of None \<Rightarrow> True | Some i \<Rightarrow> i < MAX_PID_SLOTS) arr \<Longrightarrow> alone (Rel_Next arr) t [] (PidSlotReleaseRefs arr t)"
proof -
  have z: "0 < MAX_PID_SLOTS" by (simp add: MAX_PID_SLOTS_def)
  show "alone (Add_Cas a 0) t [] (snd (PidSlotAdd a t))" unfolding PidSlotAdd_def by (rule alone_add [OF z assms])
  show "alone (Rem_Pid pid 0) t [] (PidSlotRemove pid t)" unfolding PidSlotRemove_def by (rule alone_remove [OF z assms])
  show "alone (Get_State pid 0) t (case fst (PidSlotGetRef pid t) of None \<Rightarrow> [] | Some i \<Rightarrow> [i]) (snd (PidSlotGetRef pid t))"
    unfolding PidSlotGetRef_def by (rule alone_get [OF z assms])
  show "0 < cap \<Longrightarrow> alone (Col_State cap 0) t (fst (PidSlotCollectRefs cap t)) (snd (PidSlotCollectRefs cap t))"
    using alone_collect [OF z assms, of "[]" cap] unfolding PidSlotCollectRefs_def by auto
  show "alone (Put_Attr a 0) t [] (PutProcessAttr (Some a) t)"
    using alone_put [OF z assms] by (simp add: PutProcessAttr_def)
  show "alone (Rel_Next arr) t [] (PidSlotReleaseRefs arr t)"
    if "list_all (\<lambda>s. case s of None \<Rightarrow> True | Some i \<Rightarrow> i < MAX_PID_SLOTS) arr"
    using that assms by (intro alone_releases) (auto simp: list_all_iff)
qed

text \<open>The two models agree: every operation, run by one thread without interruption from its
  first access on, comes to an end with exactly the table and the references that the function
  modelling the whole operation computes.\<close>

theorem Slot_operations_alone:
  assumes "length (st_slots t) = MAX_PID_SLOTS" and "0 < cap"
    and "list_all (\<lambda>s. case s of None \<Rightarrow> True | Some i \<Rightarrow> i < MAX_PID_SLOTS) arr"
  shows "alone (Add_Cas a 0) t [] (snd (PidSlotAdd a t)) \<and>
    alone (Rem_Pid pid 0) t [] (PidSlotRemove pid t) \<and>
    alone (Get_State pid 0) t (case fst (PidSlotGetRef pid t) of None \<Rightarrow> [] | Some i \<Rightarrow> [i]) (snd (PidSlotGetRef pid t)) \<and>
    alone (Col_State cap 0) t (fst (PidSlotCollectRefs cap t)) (snd (PidSlotCollectRefs cap t)) \<and>
    alone (Put_Attr a 0) t [] (PutProcessAttr (Some a) t) \<and>
    alone (Rel_Next arr) t [] (PidSlotReleaseRefs arr t)"
  by (intro conjI Slot_operations_alone_parts [OF assms(1)] assms)

theorem Slot_operations_alone_witness:
  "alone (Rem_Pid 7 0) demo_table [] (PidSlotRemove 7 demo_table) \<and>
   alone (Rel_Next [None, Some 0]) demo_table [] (PidSlotReleaseRefs [None, Some 0] demo_table)"
proof -
  have len: "length (st_slots demo_table) = MAX_PID_SLOTS" by (simp add: demo_table_def MAX_PID_SLOTS_def)
  show ?thesis using Slot_operations_alone [OF len, of 1 "[None, Some 0]" _ 7] by (simp add: MAX_PID_SLOTS_def)
qed

theorem Slot_owner_unique_witness:
  "\<exists>!th. owned (ss_pc (view \<lparr>ps_state = PID_SLOT_RESERVED, ps_pid = 9, ps_attr = Some 200, ps_refs = 0\<rparr>
     ((\<lambda>_. None)(200 := Some object9)) [40] (Add_Refs 200 0) (Get_Inc 7 0) Idle [] []) th) = Some 0"
proof -
  note r = schedule_reach [OF _ phase1] schedule_reach [OF _ phase2] schedule_reach [OF _ phase3] schedule_reach [OF _ phase4]
  have "sys_reach (view \<lparr>ps_state = PID_SLOT_RESERVED, ps_pid = 9, ps_attr = Some 200, ps_refs = 0\<rparr>
     ((\<lambda>_. None)(200 := Some object9)) [40] (Add_Refs 200 0) (Get_Inc 7 0) Idle [] [])"
    by (intro r sys_reach.init [unfolded view_init])
  from Slot_owner_unique [OF this, of 0] show ?thesis
    by (simp add: MAX_PID_SLOTS_def) (simp add: view_def)
qed

end
