(* ===== verification/Target_Apply.thy ===== *)
theory Target_Apply
  imports Managed_Local
begin

text \<open>
  Putting a migrate-out target configuration into effect
  (\<^verbatim>\<open>plugins/smap/src/user/manage/manage_remote.c\<close>, lines 255 to 759, with
  \<^verbatim>\<open>CollectProcessCandidateObservation\<close>, \<^verbatim>\<open>SetBasicProcessConfig\<close> and \<^verbatim>\<open>SetMultiNumaConfig\<close> of
  \<^verbatim>\<open>manage.c\<close>): the request is applied to a copy of the process, which is published only when
  every step succeeded, or it is staged while the process is migrating and applied later.

  The global settings are the record \<open>Machine\<close>. A call that changes a process through a pointer
  and can fail returns the error, if any, and the process as it leaves it in either case. The
  observation of the operating system (CPU affinity, \<^verbatim>\<open>numa_maps\<close>) and the answer of the tracking
  driver to \<^verbatim>\<open>AccessIoctlAddPid\<close> are arguments. The write-back of the configuration file
  (\<^verbatim>\<open>SyncAllProcessConfig\<close>), whose result is only logged, and the log are left out. The
  64-bit counts of this part are words, whose arithmetic wraps around as the code's does.
\<close>

record Machine =
  mc_nrLocalNuma :: int
  mc_hugeMode :: bool
  mc_pageSizeNormal :: u32
  mc_pageSizeHuge :: u32

definition page_kb :: "Machine \<Rightarrow> u64" where
  "page_kb mc = ucast (if mc_hugeMode mc then mc_pageSizeHuge mc else mc_pageSizeNormal mc) div 1024"

definition KBToHugePage :: "Machine \<Rightarrow> u64 \<Rightarrow> u64" where
  "KBToHugePage mc memSize = memSize div (ucast (mc_pageSizeHuge mc) div 1024)"

definition KBToNormalPage :: "Machine \<Rightarrow> u64 \<Rightarrow> u64" where
  "KBToNormalPage mc memSize = memSize div (ucast (mc_pageSizeNormal mc) div 1024)"

definition InAttrL1 :: "ProcessAttr \<Rightarrow> nat \<Rightarrow> bool" where
  "InAttrL1 attr nid \<longleftrightarrow> InL1 (na_numaNodes (pa_numaAttr attr)) (int nid)"

definition AddAttrL2 :: "Machine \<Rightarrow> ProcessAttr \<Rightarrow> int \<Rightarrow> ProcessAttr" where
  "AddAttrL2 mc attr nid =
     attr\<lparr>pa_numaAttr := (pa_numaAttr attr)\<lparr>na_numaNodes :=
       AddL2ByNid (mc_nrLocalNuma mc) (na_numaNodes (pa_numaAttr attr)) nid\<rparr>\<rparr>"

text \<open>Writes to the matrices of the strategy.\<close>

definition put2 :: "nat \<Rightarrow> nat \<Rightarrow> 'a \<Rightarrow> (nat \<Rightarrow> nat \<Rightarrow> 'a) \<Rightarrow> nat \<Rightarrow> nat \<Rightarrow> 'a" where
  "put2 i j v m = m(i := (m i)(j := v))"

abbreviation on_strategy :: "(StrategyAttribute \<Rightarrow> StrategyAttribute) \<Rightarrow> ProcessAttr \<Rightarrow> ProcessAttr" where
  "on_strategy f attr \<equiv> attr\<lparr>pa_strategyAttr := f (pa_strategyAttr attr)\<rparr>"

definition set_memSize :: "nat \<Rightarrow> nat \<Rightarrow> u64 \<Rightarrow> ProcessAttr \<Rightarrow> ProcessAttr" where
  "set_memSize i j v = on_strategy (\<lambda>s. s\<lparr>sa_memSize := put2 i j v (sa_memSize s)\<rparr>)"

definition set_account :: "nat \<Rightarrow> nat \<Rightarrow> u32 \<Rightarrow> ProcessAttr \<Rightarrow> ProcessAttr" where
  "set_account i j v = on_strategy (\<lambda>s. s\<lparr>sa_remoteNrPagesAfterMigrate := put2 i j v (sa_remoteNrPagesAfterMigrate s)\<rparr>)"

definition set_ratio :: "nat \<Rightarrow> nat \<Rightarrow> int \<Rightarrow> ProcessAttr \<Rightarrow> ProcessAttr" where
  "set_ratio i j v = on_strategy (\<lambda>s. s\<lparr>sa_initRemoteMemRatio := put2 i j v (sa_initRemoteMemRatio s)\<rparr>)"

abbreviation memSize :: "ProcessAttr \<Rightarrow> nat \<Rightarrow> nat \<Rightarrow> u64" where
  "memSize attr \<equiv> sa_memSize (pa_strategyAttr attr)"

abbreviation locals :: "int \<Rightarrow> nat list" where
  "locals nrLocalNuma \<equiv> [0..<min (nat nrLocalNuma) LOCAL_NUMA_NUM]"

section \<open>Page targets of a single remote node\<close>

definition MigratePagesToRemote :: "Machine \<Rightarrow> ProcessAttr \<Rightarrow> nat \<Rightarrow> (nat \<Rightarrow> u64) \<Rightarrow> u64 \<Rightarrow> ProcessAttr" where
  "MigratePagesToRemote mc attr l2Index pagesPerNuma pages =
     fst (fold (\<lambda>i (attr, pagesToMigrate).
         if pagesToMigrate > 0 \<and> InAttrL1 attr i then
           let allocPages = min (pagesPerNuma i) pagesToMigrate in
           (set_memSize i l2Index (memSize attr i l2Index + allocPages * page_kb mc) attr, pagesToMigrate - allocPages)
         else (attr, pagesToMigrate))
       (locals (mc_nrLocalNuma mc)) (attr, pages))"

definition ClearSingleRemoteTarget :: "ProcessAttr \<Rightarrow> nat \<Rightarrow> int \<Rightarrow> ProcessAttr" where
  "ClearSingleRemoteTarget attr l2Index nrLocalNuma =
     fold (\<lambda>i attr. set_account i l2Index 0 (set_memSize i l2Index 0 attr)) (locals nrLocalNuma) attr"

text \<open>
  The last loop of the two account routines: what is left goes to the highest local node of the
  process.
\<close>

definition account_rest :: "nat \<Rightarrow> int \<Rightarrow> ProcessAttr \<times> u64 \<Rightarrow> ProcessAttr" where
  "account_rest l2Index nrLocalNuma = (\<lambda>(attr, nrLeft).
     if nrLeft > 0 then
       (case find (\<lambda>i. InAttrL1 attr i) (rev [0..<nat nrLocalNuma]) of
          None \<Rightarrow> attr
        | Some i \<Rightarrow> set_account i l2Index (account attr i l2Index + ucast nrLeft) attr)
     else attr)"

definition AccountExistingRemotePagesByOldAccount ::
  "ProcessAttr \<Rightarrow> nat \<Rightarrow> u64 \<Rightarrow> u64 \<Rightarrow> int \<Rightarrow> ProcessAttr" where
  "AccountExistingRemotePagesByOldAccount attr l2Index remotePages oldTotal nrLocalNuma =
     account_rest l2Index nrLocalNuma
       (fold (\<lambda>i (attr, nrLeft).
           if \<not> InAttrL1 attr i then (attr, nrLeft)
           else
             let oldPages = ucast (account attr i l2Index);
                 nrPages = (if oldTotal = 0 then 0 else remotePages * oldPages div oldTotal);
                 nrPages = (if nrPages > nrLeft then nrLeft else nrPages) in
             (set_account i l2Index (ucast nrPages) attr, nrLeft - nrPages))
         (locals nrLocalNuma) (attr, remotePages))"

definition AccountExistingRemotePagesByLocalPages ::
  "ProcessAttr \<Rightarrow> nat \<Rightarrow> (nat \<Rightarrow> u64) \<Rightarrow> u64 \<Rightarrow> int \<Rightarrow> ProcessAttr" where
  "AccountExistingRemotePagesByLocalPages attr l2Index pagesPerNuma remotePages nrLocalNuma =
     (let localTotal = fold (\<lambda>i t. if InAttrL1 attr i then t + pagesPerNuma i else t) (locals nrLocalNuma) 0 in
      account_rest l2Index nrLocalNuma
       (fold (\<lambda>i (attr, nrLeft).
           if \<not> InAttrL1 attr i then (attr, nrLeft)
           else
             let nrPages = (if localTotal > 0 then remotePages * pagesPerNuma i div localTotal else 0);
                 nrPages = (if nrPages > nrLeft then nrLeft else nrPages) in
             (set_account i l2Index (ucast nrPages) attr, nrLeft - nrPages))
         (locals nrLocalNuma) (attr, remotePages)))"

definition AccountExistingRemotePages ::
  "ProcessAttr \<Rightarrow> nat \<Rightarrow> (nat \<Rightarrow> u64) \<Rightarrow> u64 \<Rightarrow> int \<Rightarrow> ProcessAttr" where
  "AccountExistingRemotePages attr l2Index pagesPerNuma remotePages nrLocalNuma =
     (if remotePages = 0 then attr
      else
        let oldTotal = fold (\<lambda>i t. if InAttrL1 attr i then t + ucast (account attr i l2Index) else t) (locals nrLocalNuma) 0 in
        if oldTotal > 0 then AccountExistingRemotePagesByOldAccount attr l2Index remotePages oldTotal nrLocalNuma
        else AccountExistingRemotePagesByLocalPages attr l2Index pagesPerNuma remotePages nrLocalNuma)"

definition SetSingleRemoteTargetPages ::
  "Machine \<Rightarrow> ProcessAttr \<Rightarrow> nat \<Rightarrow> (nat \<Rightarrow> u64) \<Rightarrow> u64 \<Rightarrow> int \<Rightarrow> ProcessAttr" where
  "SetSingleRemoteTargetPages mc attr l2Index pagesPerNuma targetPages nrLocalNuma =
     (let (attr, nrLeft, lastLocal) =
        fold (\<lambda>i (attr, nrLeft, lastLocal).
            if nrLeft > 0 \<and> InAttrL1 attr i then
              let capacity = ucast (account attr i l2Index) + pagesPerNuma i;
                  nrPages = min capacity nrLeft in
              (set_memSize i l2Index (nrPages * page_kb mc) attr, nrLeft - nrPages, Some i)
            else (attr, nrLeft, lastLocal))
          (locals nrLocalNuma) (attr, targetPages, None) in
      case lastLocal of
        None \<Rightarrow> attr
      | Some i \<Rightarrow> if nrLeft > 0 then set_memSize i l2Index (memSize attr i l2Index + nrLeft * page_kb mc) attr else attr)"

definition RecallPagesFromRemote :: "Machine \<Rightarrow> ProcessAttr \<Rightarrow> nat \<Rightarrow> u64 \<Rightarrow> ProcessAttr" where
  "RecallPagesFromRemote mc attr l2Index pages =
     fst (fold (\<lambda>i (attr, pagesToRecall).
         if pagesToRecall > 0 \<and> InAttrL1 attr i then
           let existing = memSize attr i l2Index div page_kb mc;
               recallPages = min existing pagesToRecall in
           (set_memSize i l2Index (memSize attr i l2Index - recallPages * page_kb mc) attr, pagesToRecall - recallPages)
         else (attr, pagesToRecall))
       (rev [0..<nat (mc_nrLocalNuma mc)]) (attr, pages))"

definition set_migrateParam :: "nat \<Rightarrow> int \<Rightarrow> u64 \<Rightarrow> ProcessAttr \<Rightarrow> ProcessAttr" where
  "set_migrateParam i nid sz attr = attr\<lparr>pa_migrateParam := (pa_migrateParam attr)(i := \<lparr>mg_nid = nid, mg_memSize = sz\<rparr>)\<rparr>"

definition SetSingleRemoteNumaConfig ::
  "Machine \<Rightarrow> ProcessAttr \<Rightarrow> ProcessParam \<Rightarrow> int \<Rightarrow> (nat \<Rightarrow> u64) \<Rightarrow> errno + ProcessAttr" where
  "SetSingleRemoteNumaConfig mc attr param nrLocalNuma pagesPerNuma =
     (let np = pp_numaParam param 0; remoteNid = np_nid np in
      if remoteNid < nrLocalNuma \<or> remoteNid \<ge> nrLocalNuma + int REMOTE_NUMA_NUM then Inl EINVAL
      else
        let l2Index = nat (remoteNid - nrLocalNuma);
            targetPages = (if mc_hugeMode mc then KBToHugePage mc (np_memSize np) else KBToNormalPage mc (np_memSize np));
            remoteExistingPages = pagesPerNuma (nat remoteNid);
            attr = fold (\<lambda>i attr. set_ratio i l2Index (np_ratio np) attr) (locals nrLocalNuma) attr;
            attr = ClearSingleRemoteTarget attr l2Index nrLocalNuma;
            attr = AccountExistingRemotePages attr l2Index pagesPerNuma remoteExistingPages nrLocalNuma;
            attr = SetSingleRemoteTargetPages mc attr l2Index pagesPerNuma targetPages nrLocalNuma;
            attr = set_migrateParam 0 remoteNid (np_memSize np) attr
        in Inr (AddAttrL2 mc attr remoteNid))"

section \<open>The runtime fields of a configuration\<close>

definition ClearCompatibleProcessTargets :: "ProcessAttr \<Rightarrow> ProcessAttr" where
  "ClearCompatibleProcessTargets attr =
     attr\<lparr>pa_migrateParam := (\<lambda>i. if i < REMOTE_NUMA_NUM then \<lparr>mg_nid = -1, mg_memSize = 0\<rparr> else pa_migrateParam attr i),
          pa_strategyAttr := (pa_strategyAttr attr)
            \<lparr>sa_initRemoteMemRatio := (\<lambda>j i. if j < LOCAL_NUMA_NUM \<and> i < REMOTE_NUMA_NUM then 0
                else sa_initRemoteMemRatio (pa_strategyAttr attr) j i),
             sa_memSize := (\<lambda>j i. if j < LOCAL_NUMA_NUM \<and> i < REMOTE_NUMA_NUM then 0 else memSize attr j i),
             sa_allocRemoteNrPages := (\<lambda>j i. if j < LOCAL_NUMA_NUM \<and> i < REMOTE_NUMA_NUM then 0
                else sa_allocRemoteNrPages (pa_strategyAttr attr) j i),
             sa_l2RemoteMemRatio := (\<lambda>j i. if j < LOCAL_NUMA_NUM \<and> i < REMOTE_NUMA_NUM then 0
                else sa_l2RemoteMemRatio (pa_strategyAttr attr) j i),
             sa_l3RemoteMemRatio := (\<lambda>j i. if j < LOCAL_NUMA_NUM \<and> i < REMOTE_NUMA_NUM then 0
                else sa_l3RemoteMemRatio (pa_strategyAttr attr) j i),
             sa_nrMigratePages := (\<lambda>i j. if i < MAX_NODES \<and> j < MAX_NODES then 0
                else sa_nrMigratePages (pa_strategyAttr attr) i j)\<rparr>\<rparr>"

definition NumaParam_zero :: NumaParam where
  "NumaParam_zero = \<lparr>np_nid = 0, np_ratio = 0, np_memSize = 0, np_migrateMode = MIG_RATIO_MODE\<rparr>"

definition TargetConfigToProcessParam :: "ProcessAttr \<Rightarrow> ProcessTargetConfig \<Rightarrow> ProcessParam" where
  "TargetConfigToProcessParam attr config =
     \<lparr>pp_pid = pa_pid attr, pp_scanTime = 0, pp_duration = 0, pp_scanType = pa_scanType attr,
      pp_count = int (tc_count config),
      pp_numaParam = (\<lambda>i. if i < tc_count config then
          \<lparr>np_nid = rt_remoteNid (tc_targets config i), np_ratio = sint (rt_ratio (tc_targets config i)),
           np_memSize = rt_memSizeKB (tc_targets config i), np_migrateMode = tc_migrateMode config\<rparr>
        else NumaParam_zero),
      pp_targetConfigValid = False, pp_ignoreRemoteCapacity = False, pp_targetConfig = ProcessTargetConfig_zero\<rparr>"

definition SetMultiNumaConfig :: "Machine \<Rightarrow> ProcessAttr \<Rightarrow> ProcessParam \<Rightarrow> int \<Rightarrow> ProcessAttr" where
  "SetMultiNumaConfig mc attr param nrLocalNuma =
     fold (\<lambda>i attr.
         let np = pp_numaParam param i; remoteNid = np_nid np; l2Index = nat (remoteNid - nrLocalNuma);
             attr = set_migrateParam i remoteNid (np_memSize np) attr;
             attr = fold (\<lambda>j attr. set_ratio j l2Index (np_ratio np) attr) (locals nrLocalNuma) attr
         in AddAttrL2 mc attr remoteNid)
       [0..<nat (pp_count param)] attr"

definition UpdateProcessMigrateConfig ::
  "Machine \<Rightarrow> ProcessAttr \<Rightarrow> ProcessTargetConfig \<Rightarrow> ManagedLocalObservation \<Rightarrow> errno option \<times> ProcessAttr" where
  "UpdateProcessMigrateConfig mc attr config observation =
     (let nrLocalNuma = mc_nrLocalNuma mc;
          localNumaCnt = GetL1Count (na_numaNodes (pa_numaAttr attr));
          localRatio = (if tc_migrateMode config = MIG_RATIO_MODE
            then fold (\<lambda>i r. r - int (unat (rt_ratio (tc_targets config i)))) [0..<tc_count config] 100 else 100);
          attr = attr\<lparr>pa_migrateMode := tc_migrateMode config, pa_remoteNumaCnt := int (tc_count config),
                      pa_initLocalMemRatio := localRatio\<rparr>;
          attr = ClearCompatibleProcessTargets attr
      in if tc_count config = 0 then (None, attr)
         else
           let param = TargetConfigToProcessParam attr config in
           if tc_count config > 1 \<or> localNumaCnt > 1 then (None, SetMultiNumaConfig mc attr param nrLocalNuma)
           else if \<not> ob_residentValid observation then (Some EINVAL, attr)
           else (case SetSingleRemoteNumaConfig mc attr param nrLocalNuma (ob_numaPages observation) of
                   Inl e \<Rightarrow> (Some e, attr) | Inr attr \<Rightarrow> (None, attr)))"

definition IsZeroProcessTargetConfig :: "ProcessTargetConfig \<Rightarrow> bool" where
  "IsZeroProcessTargetConfig config \<longleftrightarrow>
     tc_count config = 0 \<or>
     list_all (\<lambda>i. if tc_migrateMode config = MIG_MEMSIZE_MODE then rt_memSizeKB (tc_targets config i) = 0
                   else rt_ratio (tc_targets config i) = 0) [0..<tc_count config]"

definition UpdateAutoRemoveRemoteEmptyFlag :: "ProcessAttr \<Rightarrow> ProcessTargetConfig \<Rightarrow> ProcessAttr" where
  "UpdateAutoRemoveRemoteEmptyFlag attr config =
     (if pa_groupPolicyEnabled attr then attr
      else if pa_scanType attr \<noteq> NORMAL_SCAN then attr\<lparr>pa_autoRemoveWhenRemoteEmpty := False\<rparr>
      else attr\<lparr>pa_autoRemoveWhenRemoteEmpty := IsZeroProcessTargetConfig config\<rparr>)"

definition BuildCandidateRemoteDrainNodes ::
  "Machine \<Rightarrow> ProcessTargetConfig \<Rightarrow> ManagedLocalObservation \<Rightarrow> u32" where
  "BuildCandidateRemoteDrainNodes mc config observation =
     (if \<not> ob_residentValid observation then 0
      else fold (\<lambda>r drainNodes.
          let remoteNid = mc_nrLocalNuma mc + int r in
          if ob_numaPages observation (nat remoteNid) = 0 \<or> FindProcessRemoteTarget config remoteNid \<noteq> None
          then drainNodes else AddL2ByNid (mc_nrLocalNuma mc) drainNodes remoteNid)
        [0..<REMOTE_NUMA_NUM] 0)"

section \<open>The transaction\<close>

definition PrepareProcessTargetCandidate ::
  "Machine \<Rightarrow> ProcessAttr \<Rightarrow> ProcessTargetConfig \<Rightarrow> ManagedLocalObservation \<Rightarrow> bool \<Rightarrow> errno option \<times> ProcessAttr" where
  "PrepareProcessTargetCandidate mc candidate config observation skipRemoteResidencyCheck =
     (case CopyProcessTargetConfig config of
        Inl e \<Rightarrow> (Some e, candidate)
      | Inr targetConfig \<Rightarrow>
          let drainNodes = (if skipRemoteResidencyCheck then 0 else BuildCandidateRemoteDrainNodes mc targetConfig observation);
              candidate = candidate\<lparr>pa_targetConfig := targetConfig\<rparr>
          in (case ApplyManagedLocalObservation (mc_nrLocalNuma mc) candidate observation True of
                Inl e \<Rightarrow> (Some e, candidate)
              | Inr candidate \<Rightarrow>
                  let candidate = candidate\<lparr>pa_numaAttr := (pa_numaAttr candidate)\<lparr>na_numaNodes :=
                        BuildManagedTrackingNodes (mc_nrLocalNuma mc) candidate OR drainNodes\<rparr>\<rparr>
                  in (case UpdateProcessMigrateConfig mc candidate targetConfig observation of
                        (Some e, candidate) \<Rightarrow> (Some e, candidate)
                      | (None, candidate) \<Rightarrow> (None, UpdateAutoRemoveRemoteEmptyFlag candidate targetConfig))))"

definition PublishProcessTargetCandidate :: "ProcessAttr \<Rightarrow> ProcessAttr \<Rightarrow> ProcessAttr" where
  "PublishProcessTargetCandidate attr candidate =
     attr\<lparr>pa_targetConfig := pa_targetConfig candidate, pa_migrateMode := pa_migrateMode candidate,
          pa_remoteNumaCnt := pa_remoteNumaCnt candidate, pa_initLocalMemRatio := pa_initLocalMemRatio candidate,
          pa_autoRemoveWhenRemoteEmpty := pa_autoRemoveWhenRemoteEmpty candidate,
          pa_ignoreRemoteCapacity := pa_ignoreRemoteCapacity candidate, pa_numaAttr := pa_numaAttr candidate,
          pa_managedLocalState := pa_managedLocalState candidate, pa_strategyAttr := pa_strategyAttr candidate,
          pa_isFirstScan := pa_isFirstScan candidate, pa_scanTime := pa_scanTime candidate,
          pa_migrateParam := (\<lambda>i. if i < REMOTE_NUMA_NUM then pa_migrateParam candidate i else pa_migrateParam attr i)\<rparr>"

text \<open>
  \<open>affinity\<close> is the answer of \<^verbatim>\<open>SetLocalNumaByCpu\<close>, \<open>resident\<close> the one of
  \<^verbatim>\<open>GetProcessNumaMapsObservation\<close>: the mask of local nodes with pages, and the pages per node.
\<close>

definition CollectProcessCandidateObservation ::
  "(errno + u32) \<Rightarrow> (errno + u32 \<times> (nat \<Rightarrow> u64)) \<Rightarrow> errno + ManagedLocalObservation" where
  "CollectProcessCandidateObservation affinity resident =
     (let observation = \<lparr>ob_affinityLocalMask = 0, ob_residentLocalMask = 0, ob_numaPages = (\<lambda>_. 0),
            ob_affinityValid = False, ob_affinitySampled = True, ob_residentValid = False\<rparr>;
          observation = (case affinity of Inl _ \<Rightarrow> observation
            | Inr aff \<Rightarrow> observation\<lparr>ob_affinityLocalMask := aff, ob_affinityValid := True\<rparr>);
          observation = (case resident of Inl _ \<Rightarrow> observation
            | Inr (m, pages) \<Rightarrow> observation\<lparr>ob_residentLocalMask := m, ob_numaPages := pages, ob_residentValid := True\<rparr>)
      in if \<not> ob_affinityValid observation \<and> \<not> ob_residentValid observation
         then (case affinity of Inl e \<Rightarrow> Inl e | Inr _ \<Rightarrow> Inr observation)
         else Inr observation)"

definition ApplyProcessTargetConfig ::
  "Machine \<Rightarrow> (errno + ManagedLocalObservation) \<Rightarrow> ProcessAttr \<Rightarrow> ProcessTargetConfig \<Rightarrow> bool \<Rightarrow> errno option \<times> ProcessAttr" where
  "ApplyProcessTargetConfig mc collected attr config skipRemoteResidencyCheck =
     (case collected of
        Inl e \<Rightarrow> (Some e, attr)
      | Inr observation \<Rightarrow>
          (case PrepareProcessTargetCandidate mc attr config observation skipRemoteResidencyCheck of
             (Some e, _) \<Rightarrow> (Some e, attr)
           | (None, candidate) \<Rightarrow> (None, PublishProcessTargetCandidate attr candidate)))"

definition StagePendingMigrationTargets ::
  "Machine \<Rightarrow> ProcessAttr \<Rightarrow> ProcessTargetConfig \<Rightarrow> bool \<Rightarrow> errno option \<times> ProcessAttr" where
  "StagePendingMigrationTargets mc attr config ignoreRemoteCapacity =
     (case (ValidateProcessTargetConfig (mc_hugeMode mc) config, CopyProcessTargetConfig config) of
        (Inr _, Inr targetConfig) \<Rightarrow>
          let tracking = attr\<lparr>pa_targetConfig := targetConfig\<rparr>;
              allLocalMask = BuildAllLocalNumaMask (mc_nrLocalNuma mc);
              fromNodes = na_numaNodes (pa_numaAttr attr) AND allLocalMask;
              tracking = (if managedMask tracking = 0
                then tracking\<lparr>pa_managedLocalState := (pa_managedLocalState tracking)\<lparr>ml_managedLocalMask :=
                       if fromNodes = 0 then allLocalMask else fromNodes\<rparr>\<rparr>
                else tracking)
          in (None, attr\<lparr>pa_pendingTargetConfig := targetConfig, pa_pendingTargetConfigValid := True,
                pa_pendingIgnoreRemoteCapacity := ignoreRemoteCapacity,
                pa_pendingTargetNumaNodes := BuildManagedTrackingNodes (mc_nrLocalNuma mc) tracking\<rparr>)
      | _ \<Rightarrow> (Some EINVAL, attr))"

definition ConfigureMigrationTargetsWithCapacityPolicy ::
  "Machine \<Rightarrow> (errno + ManagedLocalObservation) \<Rightarrow> ProcessAttr \<Rightarrow> ProcessTargetConfig \<Rightarrow> bool \<Rightarrow> bool \<Rightarrow>
   errno option \<times> ProcessAttr" where
  "ConfigureMigrationTargetsWithCapacityPolicy mc collected attr config ignoreRemoteCapacity skipRemoteResidencyCheck =
     (case (ValidateProcessTargetConfig (mc_hugeMode mc) config, CopyProcessTargetConfig config) of
        (Inr _, Inr targetConfig) \<Rightarrow>
          if pa_state attr = PROC_MIGRATE then StagePendingMigrationTargets mc attr targetConfig ignoreRemoteCapacity
          else (case ApplyProcessTargetConfig mc collected attr targetConfig skipRemoteResidencyCheck of
                  (None, attr) \<Rightarrow> (None, attr\<lparr>pa_ignoreRemoteCapacity := ignoreRemoteCapacity\<rparr>)
                | (Some e, attr) \<Rightarrow> (Some e, attr))
      | _ \<Rightarrow> (Some EINVAL, attr))"

definition ConfigureMigrationTargets ::
  "Machine \<Rightarrow> (errno + ManagedLocalObservation) \<Rightarrow> ProcessAttr \<Rightarrow> ProcessTargetConfig \<Rightarrow> errno option \<times> ProcessAttr" where
  "ConfigureMigrationTargets mc collected attr config =
     ConfigureMigrationTargetsWithCapacityPolicy mc collected attr config False False"

record AccessAddPidPayload =
  ap_pid :: int
  ap_numaNodes :: u32
  ap_scanTime :: u32
  ap_duration :: u32
  ap_type :: ScanType
  ap_pidType :: PidType

definition ApplyPendingMigrationTargets ::
  "Machine \<Rightarrow> (errno + ManagedLocalObservation) \<Rightarrow> (AccessAddPidPayload list \<Rightarrow> errno option) \<Rightarrow> ProcessAttr \<Rightarrow>
   errno option \<times> ProcessAttr" where
  "ApplyPendingMigrationTargets mc collected ioctl attr =
     (if \<not> pa_pendingTargetConfigValid attr then (None, attr)
      else
        (case collected of
           Inl e \<Rightarrow> (Some e, attr)
         | Inr observation \<Rightarrow>
             (case PrepareProcessTargetCandidate mc attr (pa_pendingTargetConfig attr) observation False of
                (Some e, _) \<Rightarrow> (Some e, attr)
              | (None, candidate) \<Rightarrow>
                  (case ioctl [\<lparr>ap_pid = pa_pid attr, ap_numaNodes = na_numaNodes (pa_numaAttr candidate),
                          ap_scanTime = pa_scanTime attr, ap_duration = pa_duration attr, ap_type = NORMAL_SCAN,
                          ap_pidType = pa_type attr\<rparr>] of
                     Some e \<Rightarrow> (Some e, attr)
                   | None \<Rightarrow>
                       (None, (PublishProcessTargetCandidate attr candidate)
                         \<lparr>pa_ignoreRemoteCapacity := pa_pendingIgnoreRemoteCapacity attr,
                          pa_pendingTargetConfig := ClearProcessTargetConfig, pa_pendingTargetConfigValid := False,
                          pa_pendingIgnoreRemoteCapacity := False, pa_pendingTargetNumaNodes := 0\<rparr>)))))"

definition IsZeroRemoteTargetConfig :: "Machine \<Rightarrow> ProcessParam \<Rightarrow> bool" where
  "IsZeroRemoteTargetConfig mc param =
     (case BuildProcessTargetConfigFromParam (mc_hugeMode mc) param of
        Inl _ \<Rightarrow> False | Inr config \<Rightarrow> IsZeroProcessTargetConfig config)"

definition SetBasicProcessConfig :: "ProcessAttr \<Rightarrow> ProcessParam \<Rightarrow> ProcessAttr" where
  "SetBasicProcessConfig attr param =
     attr\<lparr>pa_pid := pp_pid param, pa_duration := pp_duration param, pa_scanType := pp_scanType param,
          pa_isFirstScan := True, pa_enableSwap := True\<rparr>"

definition SetProcessConfig ::
  "Machine \<Rightarrow> (errno + ManagedLocalObservation) \<Rightarrow> ProcessAttr \<Rightarrow> ProcessParam \<Rightarrow> bool \<Rightarrow> errno option \<times> ProcessAttr" where
  "SetProcessConfig mc collected attr param skipRemoteResidencyCheck =
     (case BuildProcessTargetConfigFromParam (mc_hugeMode mc) param of
        Inl e \<Rightarrow> (Some e, attr)
      | Inr config \<Rightarrow>
          ConfigureMigrationTargetsWithCapacityPolicy mc collected (SetBasicProcessConfig attr param) config
            (pp_ignoreRemoteCapacity param) skipRemoteResidencyCheck)"

section \<open>Staged requests\<close>

text \<open>
  \<open>pend\<close> overwrites the staged request of a process. Preparing a candidate does not read it, so
  it commutes with every step of the preparation.
\<close>

definition pend :: "ProcessTargetConfig \<Rightarrow> bool \<Rightarrow> bool \<Rightarrow> u32 \<Rightarrow> ProcessAttr \<Rightarrow> ProcessAttr" where
  "pend c v g n attr = attr\<lparr>pa_pendingTargetConfig := c, pa_pendingTargetConfigValid := v,
     pa_pendingIgnoreRemoteCapacity := g, pa_pendingTargetNumaNodes := n\<rparr>"

named_theorems pend_simps \<open>the staged request commutes with the preparation\<close>

lemma pend_sel [pend_simps]:
  "pa_numaAttr (pend c v g n a) = pa_numaAttr a" "pa_strategyAttr (pend c v g n a) = pa_strategyAttr a"
  "pa_walkPage (pend c v g n a) = pa_walkPage a" "pa_managedLocalState (pend c v g n a) = pa_managedLocalState a"
  "pa_targetConfig (pend c v g n a) = pa_targetConfig a" "pa_pid (pend c v g n a) = pa_pid a"
  "pa_scanType (pend c v g n a) = pa_scanType a" "pa_groupPolicyEnabled (pend c v g n a) = pa_groupPolicyEnabled a"
  "pa_migrateParam (pend c v g n a) = pa_migrateParam a" "InAttrL1 (pend c v g n a) = InAttrL1 a"
  "pa_ignoreRemoteCapacity (pend c v g n a) = pa_ignoreRemoteCapacity a"
  by (simp_all add: pend_def InAttrL1_def fun_eq_iff)

lemma pend_set [pend_simps]:
  "set_memSize i j m (pend c v g n a) = pend c v g n (set_memSize i j m a)"
  "set_account i j p (pend c v g n a) = pend c v g n (set_account i j p a)"
  "set_ratio i j r (pend c v g n a) = pend c v g n (set_ratio i j r a)"
  "set_migrateParam i nid m (pend c v g n a) = pend c v g n (set_migrateParam i nid m a)"
  "AddAttrL2 mc (pend c v g n a) nid = pend c v g n (AddAttrL2 mc a nid)"
  "ClearCompatibleProcessTargets (pend c v g n a) = pend c v g n (ClearCompatibleProcessTargets a)"
  "UpdateAutoRemoveRemoteEmptyFlag (pend c v g n a) cfg = pend c v g n (UpdateAutoRemoveRemoteEmptyFlag a cfg)"
  "TargetConfigToProcessParam (pend c v g n a) cfg = TargetConfigToProcessParam a cfg"
  by (simp_all add: pend_def set_memSize_def set_account_def set_ratio_def set_migrateParam_def AddAttrL2_def
      ClearCompatibleProcessTargets_def UpdateAutoRemoveRemoteEmptyFlag_def TargetConfigToProcessParam_def cong: if_cong)

lemma pend_fold:
  assumes "\<And>i a. f i (pend c v g n a) = pend c v g n (f i a)"
  shows "fold f is (pend c v g n a) = pend c v g n (fold f is a)"
  using assms by (induction "is" arbitrary: a) simp_all

lemma pend_fold2:
  assumes "\<And>i a x. f i (pend c v g n a, x) = apfst (pend c v g n) (f i (a, x))"
  shows "fold f is (pend c v g n a, x) = apfst (pend c v g n) (fold f is (a, x))"
  using assms
proof (induction "is" arbitrary: a x)
  case (Cons i "is")
  then show ?case by (cases "f i (a, x)") simp
qed simp

lemma pend_account [pend_simps]:
  "account_rest r nr (apfst (pend c v g n) ax) = pend c v g n (account_rest r nr ax)"
  by (cases ax) (simp add: account_rest_def pend_simps split: option.splits)

lemma pend_existing [pend_simps]:
  "AccountExistingRemotePages (pend c v g n a) r pages k nr = pend c v g n (AccountExistingRemotePages a r pages k nr)"
proof -
  have "AccountExistingRemotePagesByOldAccount (pend c v g n a) r k t nr =
      pend c v g n (AccountExistingRemotePagesByOldAccount a r k t nr)" for t
    unfolding AccountExistingRemotePagesByOldAccount_def pend_account [symmetric]
    by (subst pend_fold2) (auto simp: pend_simps Let_def)
  moreover have "AccountExistingRemotePagesByLocalPages (pend c v g n a) r pages k nr =
      pend c v g n (AccountExistingRemotePagesByLocalPages a r pages k nr)"
    unfolding AccountExistingRemotePagesByLocalPages_def Let_def pend_account [symmetric] pend_sel
    by (subst pend_fold2) (auto simp: pend_simps Let_def)
  ultimately show ?thesis unfolding AccountExistingRemotePages_def Let_def pend_sel by simp
qed

lemma pend_single [pend_simps]:
  "SetSingleRemoteTargetPages mc (pend c v g n a) r pages k nr = pend c v g n (SetSingleRemoteTargetPages mc a r pages k nr)"
proof -
  have f: "fold f is (pend c v g n a, x, y) = apfst (pend c v g n) (fold f is (a, x, y))"
    if "\<And>i a x y. f i (pend c v g n a, x, y) = apfst (pend c v g n) (f i (a, x, y))" for f "is" x y
    using pend_fold2 [of f c v g n "is" a "(x, y)"] that by force
  show ?thesis unfolding SetSingleRemoteTargetPages_def
    by (subst f) (auto simp: pend_simps Let_def case_prod_beta split: option.splits)
qed

lemma pend_numa_config [pend_simps]:
  "SetSingleRemoteNumaConfig mc (pend c v g n a) param nr pages = map_sum id (pend c v g n) (SetSingleRemoteNumaConfig mc a param nr pages)"
  "SetMultiNumaConfig mc (pend c v g n a) param nr = pend c v g n (SetMultiNumaConfig mc a param nr)"
proof -
  have r: "fold (\<lambda>j. set_ratio j k q) is (pend c v g n a) = pend c v g n (fold (\<lambda>j. set_ratio j k q) is a)" for a k q "is"
    by (rule pend_fold) (simp add: pend_simps)
  have cl: "ClearSingleRemoteTarget (pend c v g n a) k nr = pend c v g n (ClearSingleRemoteTarget a k nr)" for a k
    unfolding ClearSingleRemoteTarget_def by (rule pend_fold) (simp add: pend_simps)
  show "SetSingleRemoteNumaConfig mc (pend c v g n a) param nr pages = map_sum id (pend c v g n) (SetSingleRemoteNumaConfig mc a param nr pages)"
    by (simp add: SetSingleRemoteNumaConfig_def Let_def r cl pend_simps)
  show "SetMultiNumaConfig mc (pend c v g n a) param nr = pend c v g n (SetMultiNumaConfig mc a param nr)"
    unfolding SetMultiNumaConfig_def by (rule pend_fold) (simp add: Let_def r pend_simps)
qed

lemma pend_observe [pend_simps]:
  "ApplyManagedLocalObservation nr (pend c v g n a) ob f = map_sum id (pend c v g n) (ApplyManagedLocalObservation nr a ob f)"
proof -
  have m: "(pend c v g n a)\<lparr>pa_managedLocalState := s\<rparr> = pend c v g n (a\<lparr>pa_managedLocalState := s\<rparr>)" for s
    by (simp add: pend_def)
  show ?thesis
    unfolding ApplyManagedLocalObservation_def Let_def BuildAccountLocalMask_def pend_sel m
    by (simp only: if_distrib [where f = "map_sum id (pend c v g n)"]
        prod.case_distrib [where h = "map_sum id (pend c v g n)"] map_sum.simps id_apply)
qed

lemma pend_tracking [pend_simps]: "BuildManagedTrackingNodes nr (pend c v g n a) = BuildManagedTrackingNodes nr a"
  by (simp add: BuildManagedTrackingNodes_def pend_sel)

lemma pend_update [pend_simps]:
  "UpdateProcessMigrateConfig mc (pend c v g n a) cfg ob = apsnd (pend c v g n) (UpdateProcessMigrateConfig mc a cfg ob)"
proof -
  have m: "(pend c v g n a)\<lparr>pa_migrateMode := m, pa_remoteNumaCnt := k, pa_initLocalMemRatio := r\<rparr> =
      pend c v g n (a\<lparr>pa_migrateMode := m, pa_remoteNumaCnt := k, pa_initLocalMemRatio := r\<rparr>)" for m k r
    by (simp add: pend_def)
  show ?thesis unfolding UpdateProcessMigrateConfig_def Let_def m pend_sel pend_set
    by (simp add: pend_numa_config split: sum.splits)
qed

lemma pend_prepare:
  "PrepareProcessTargetCandidate mc (pend c v g n a) cfg ob skip =
     apsnd (pend c v g n) (PrepareProcessTargetCandidate mc a cfg ob skip)"
proof -
  have t: "(pend c v g n a)\<lparr>pa_targetConfig := k\<rparr> = pend c v g n (a\<lparr>pa_targetConfig := k\<rparr>)" for k by (simp add: pend_def)
  have na: "(pend c v g n a)\<lparr>pa_numaAttr := k\<rparr> = pend c v g n (a\<lparr>pa_numaAttr := k\<rparr>)" for a k by (simp add: pend_def)
  show ?thesis unfolding PrepareProcessTargetCandidate_def Let_def t
    by (simp add: pend_simps na split: sum.splits option.splits prod.splits)
qed

lemma publish_pend:
  "PublishProcessTargetCandidate (pend c v g n a) (pend c' v' g' n' b) = pend c v g n (PublishProcessTargetCandidate a b)"
  by (simp add: PublishProcessTargetCandidate_def pend_def cong: if_cong)

lemma copy_config: "CopyProcessTargetConfig config = Inr config' \<Longrightarrow> config' = config"
  by (simp add: CopyProcessTargetConfig_def split: if_splits)

lemma stage_eq:
  assumes "StagePendingMigrationTargets mc attr config ign = (None, attr1)"
  shows "\<exists>n. attr1 = pend config True ign n attr"
  using assms
  by (auto simp: StagePendingMigrationTargets_def pend_def Let_def dest!: copy_config split: sum.splits if_splits)

lemma configure_cases:
  assumes "ConfigureMigrationTargetsWithCapacityPolicy mc collected attr config ign skip = (e, attr')"
  obtains (invalid) "e = Some EINVAL" "attr' = attr"
    | (stage) "pa_state attr = PROC_MIGRATE" "StagePendingMigrationTargets mc attr config ign = (e, attr')"
    | (direct) attr0 where "pa_state attr \<noteq> PROC_MIGRATE" "ApplyProcessTargetConfig mc collected attr config skip = (None, attr0)"
        "e = None" "attr' = attr0\<lparr>pa_ignoreRemoteCapacity := ign\<rparr>"
    | (failed) e0 where "pa_state attr \<noteq> PROC_MIGRATE" "ApplyProcessTargetConfig mc collected attr config skip = (Some e0, attr')"
        "e = Some e0"
proof (cases "\<exists>u. ValidateProcessTargetConfig (mc_hugeMode mc) config = Inr u \<and> CopyProcessTargetConfig config = Inr config")
  case False
  then have "e = Some EINVAL \<and> attr' = attr"
    using assms by (auto simp: ConfigureMigrationTargetsWithCapacityPolicy_def dest: copy_config split: sum.splits)
  then show ?thesis using invalid by blast
next
  case True
  then have eq: "(if pa_state attr = PROC_MIGRATE then StagePendingMigrationTargets mc attr config ign
      else (case ApplyProcessTargetConfig mc collected attr config skip of
              (None, attr) \<Rightarrow> (None, attr\<lparr>pa_ignoreRemoteCapacity := ign\<rparr>) | (Some e, attr) \<Rightarrow> (Some e, attr))) = (e, attr')"
    using assms by (auto simp: ConfigureMigrationTargetsWithCapacityPolicy_def)
  obtain e0 a0 where r: "ApplyProcessTargetConfig mc collected attr config skip = (e0, a0)" by (metis surj_pair)
  show ?thesis
  proof (cases "pa_state attr = PROC_MIGRATE")
    case True
    with eq stage show ?thesis by simp
  next
    case False
    show ?thesis
    proof (cases e0)
      case None
      then have "e = None" "attr' = a0\<lparr>pa_ignoreRemoteCapacity := ign\<rparr>" using eq r False by simp_all
      then show ?thesis using direct [OF False r [unfolded None]] by blast
    next
      case (Some x)
      then have "e = Some x" "attr' = a0" using eq r False by simp_all
      then show ?thesis using failed [OF False] r Some by simp
    qed
  qed
qed

section \<open>Properties of the transaction\<close>

lemma ConfigureMigrationTargets_atomic_parts:
  shows "ConfigureMigrationTargetsWithCapacityPolicy mc collected attr config ign skip = (Some e, attr') \<Longrightarrow> attr' = attr"
    and "ApplyPendingMigrationTargets mc collected ioctl attr = (Some e, attr') \<Longrightarrow> attr' = attr"
proof -
  assume "ConfigureMigrationTargetsWithCapacityPolicy mc collected attr config ign skip = (Some e, attr')"
  then show "attr' = attr"
  proof (cases rule: configure_cases)
    case stage
    then show ?thesis by (auto simp: StagePendingMigrationTargets_def Let_def split: sum.splits)
  next
    case (failed e0)
    then show ?thesis by (auto simp: ApplyProcessTargetConfig_def split: sum.splits prod.splits option.splits)
  qed simp_all
next
  assume "ApplyPendingMigrationTargets mc collected ioctl attr = (Some e, attr')"
  then show "attr' = attr"
    by (auto simp: ApplyPendingMigrationTargets_def split: sum.splits prod.splits option.splits if_splits)
qed

text \<open>C27. A configuration request is all or nothing: when it is refused, at whatever step (the validation,
  the observation of the process, the preparation of the candidate, the tracking driver), the
  process is left exactly as it was, both for a new request and for a staged one that is applied.\<close>

theorem ConfigureMigrationTargets_atomic:
  "(ConfigureMigrationTargetsWithCapacityPolicy mc collected attr config ign skip = (Some e, attr1) \<longrightarrow> attr1 = attr) \<and>
   (ApplyPendingMigrationTargets mc collected ioctl attr = (Some e, attr2) \<longrightarrow> attr2 = attr)"
  by (blast dest: ConfigureMigrationTargets_atomic_parts)

text \<open>C25. Staging a request loses nothing but the choice to skip the residency check. A request that arrives
  while the process is migrating is only recorded. Whatever has happened to the process until the staged
  request is applied, and whatever that look at the process finds, it has the outcome that the request,
  with the residency check, would have had if it had been made then: the same error, or the same process
  with the staged request cleared. A process that is already registered is also reported to the tracking
  driver, with the nodes of that outcome; when the driver refuses, the process stays as it is and the
  request stays staged. (Only the registration of a new process skips the residency check, and a new
  process is not migrating.)\<close>

theorem StagedTargets_equal_direct:
  assumes migrating: "pa_state attr = PROC_MIGRATE"
    and staged: "ConfigureMigrationTargetsWithCapacityPolicy mc collected attr config ign skip = (None, attr1)"
    and st: "pa_state later \<noteq> PROC_MIGRATE"
    and direct: "ConfigureMigrationTargetsWithCapacityPolicy mc found later config ign False = (e, attr2)"
    and now: "now = pend (pa_pendingTargetConfig attr1) (pa_pendingTargetConfigValid attr1) (pa_pendingIgnoreRemoteCapacity attr1)
      (pa_pendingTargetNumaNodes attr1) later"
  shows "ApplyPendingMigrationTargets mc found ioctl now =
    (case e of
       Some err \<Rightarrow> (Some err, now)
     | None \<Rightarrow>
         (case ioctl [\<lparr>ap_pid = pa_pid later, ap_numaNodes = na_numaNodes (pa_numaAttr attr2), ap_scanTime = pa_scanTime later,
             ap_duration = pa_duration later, ap_type = NORMAL_SCAN, ap_pidType = pa_type later\<rparr>] of
            Some err \<Rightarrow> (Some err, now)
          | None \<Rightarrow> (None, pend ClearProcessTargetConfig False False 0 attr2)))"
proof -
  from staged have "StagePendingMigrationTargets mc attr config ign = (None, attr1)"
    by (cases rule: configure_cases) (use migrating in auto)
  then obtain n where now': "now = pend config True ign n later" using stage_eq now by (force simp: pend_def)
  have valid: "\<exists>u. ValidateProcessTargetConfig (mc_hugeMode mc) config = Inr u \<and> CopyProcessTargetConfig config = Inr config"
    using staged unfolding ConfigureMigrationTargetsWithCapacityPolicy_def
    by (auto dest: copy_config split: sum.splits)
  have pending: "pa_pendingTargetConfigValid now" "pa_pendingTargetConfig now = config" "pa_pendingIgnoreRemoteCapacity now = ign"
    "pa_pid now = pa_pid later" "pa_scanTime now = pa_scanTime later" "pa_duration now = pa_duration later" "pa_type now = pa_type later"
    by (simp_all add: now' pend_def)
  have d: "(e, attr2) = (case ApplyProcessTargetConfig mc found later config False of
      (None, attr) \<Rightarrow> (None, attr\<lparr>pa_ignoreRemoteCapacity := ign\<rparr>) | (Some e, attr) \<Rightarrow> (Some e, attr))"
    using direct valid st by (auto simp: ConfigureMigrationTargetsWithCapacityPolicy_def)
  show ?thesis
  proof (cases found)
    case (Inl err)
    then show ?thesis using d by (simp add: ApplyProcessTargetConfig_def ApplyPendingMigrationTargets_def pending)
  next
    case (Inr ob)
    obtain e0 cand where p: "PrepareProcessTargetCandidate mc later config ob False = (e0, cand)" by (metis surj_pair)
    have p': "PrepareProcessTargetCandidate mc now config ob False = (e0, pend config True ign n cand)"
      unfolding now' pend_prepare p by simp
    show ?thesis
    proof (cases e0)
      case None
      then have a2: "e = None" "attr2 = (PublishProcessTargetCandidate later cand)\<lparr>pa_ignoreRemoteCapacity := ign\<rparr>"
        using d p Inr by (simp_all add: ApplyProcessTargetConfig_def)
      have nodes: "pa_numaAttr attr2 = pa_numaAttr cand" by (simp add: a2 PublishProcessTargetCandidate_def)
      have pub: "PublishProcessTargetCandidate now (pend config True ign n cand) =
          pend config True ign n (PublishProcessTargetCandidate later cand)" by (simp add: now' publish_pend)
      have clear: "(pend config True ign n (PublishProcessTargetCandidate later cand))
          \<lparr>pa_ignoreRemoteCapacity := ign, pa_pendingTargetConfig := ClearProcessTargetConfig, pa_pendingTargetConfigValid := False,
           pa_pendingIgnoreRemoteCapacity := False, pa_pendingTargetNumaNodes := 0\<rparr> = pend ClearProcessTargetConfig False False 0 attr2"
        by (simp add: a2 pend_def)
      show ?thesis unfolding ApplyPendingMigrationTargets_def Inr
        using None by (simp add: pending p' pub clear nodes a2(1) pend_sel split: option.splits)
    next
      case (Some e')
      then have "e = Some e'" using d p Inr by (simp add: ApplyProcessTargetConfig_def)
      then show ?thesis using Some by (simp add: Inr ApplyPendingMigrationTargets_def pending p')
    qed
  qed
qed

section \<open>The nodes a configured process is tracked on\<close>

abbreviation nodes :: "ProcessAttr \<Rightarrow> u32" where
  "nodes attr \<equiv> na_numaNodes (pa_numaAttr attr)"

text \<open>What the generation of the runtime fields leaves alone, apart from the node bitmap.\<close>

definition kept :: "ProcessAttr \<Rightarrow> ProcessTargetConfig \<times> ManagedLocalState \<times> int \<times> ProcessState" where
  "kept attr = (pa_targetConfig attr, pa_managedLocalState attr, pa_pid attr, pa_state attr)"

lemma kept_set [simp]:
  "kept (set_memSize i j m a) = kept a" "kept (set_account i j p a) = kept a" "kept (set_ratio i j r a) = kept a"
  "kept (set_migrateParam i nid m a) = kept a" "kept (AddAttrL2 mc a nid) = kept a"
  "kept (ClearCompatibleProcessTargets a) = kept a"
  by (simp_all add: kept_def set_memSize_def set_account_def set_ratio_def set_migrateParam_def AddAttrL2_def
      ClearCompatibleProcessTargets_def)

lemma nodes_set [simp]:
  "nodes (set_memSize i j m a) = nodes a" "nodes (set_account i j p a) = nodes a" "nodes (set_ratio i j r a) = nodes a"
  "nodes (set_migrateParam i nid m a) = nodes a" "nodes (AddAttrL2 mc a nid) = AddL2ByNid (mc_nrLocalNuma mc) (nodes a) nid"
  "nodes (ClearCompatibleProcessTargets a) = nodes a"
  by (simp_all add: set_memSize_def set_account_def set_ratio_def set_migrateParam_def AddAttrL2_def
      ClearCompatibleProcessTargets_def)

lemma fold_keeps: "(\<And>i a. F (f i a) = F a) \<Longrightarrow> F (fold f is a) = F a"
  by (induction "is" arbitrary: a) simp_all

lemma fold_keeps2: "(\<And>i a x. F (fst (f i (a, x))) = F a) \<Longrightarrow> F (fst (fold f is (a, x))) = F a"
proof (induction "is" arbitrary: a x)
  case (Cons i "is")
  then show ?case by (cases "f i (a, x)") (metis fold_simps(2) fst_conv)
qed simp

lemma account_keeps:
  assumes "\<And>i j p a. F (set_account i j p a) = F a"
  shows "F (AccountExistingRemotePages a r pages k nr) = F a"
proof -
  have rest: "F (account_rest r nr ax) = F (fst ax)" for ax
    using assms by (cases ax) (simp add: account_rest_def split: option.splits)
  show ?thesis
    unfolding AccountExistingRemotePages_def AccountExistingRemotePagesByOldAccount_def
      AccountExistingRemotePagesByLocalPages_def Let_def
    by (simp add: rest, intro conjI impI; rule fold_keeps2, simp add: assms)
qed

lemma target_pages_keeps:
  assumes "\<And>i j m a. F (set_memSize i j m a) = F a"
  shows "F (SetSingleRemoteTargetPages mc a r pages k nr) = F a"
proof -
  let ?f = "\<lambda>i (attr, nrLeft, lastLocal).
    if nrLeft > 0 \<and> InAttrL1 attr i then
      let capacity = ucast (account attr i r) + pages i; nrPages = min capacity nrLeft in
      (set_memSize i r (nrPages * page_kb mc) attr, nrLeft - nrPages, Some i)
    else (attr, nrLeft, lastLocal)"
  have "F (fst (fold ?f (locals nr) (a, k, None))) = F a"
    by (rule fold_keeps2) (auto simp: assms Let_def split: prod.splits)
  then show ?thesis
    unfolding SetSingleRemoteTargetPages_def by (auto simp: assms split: prod.splits option.splits)
qed

lemma UpdateProcessMigrateConfig_frame:
  assumes "UpdateProcessMigrateConfig mc a cfg ob = (None, a')"
  shows "kept a' = kept a"
    and "nodes a' = fold (\<lambda>i w. if True then AddL2ByNid (mc_nrLocalNuma mc) w (rt_remoteNid (tc_targets cfg i)) else w)
      [0..<tc_count cfg] (nodes a)"
proof -
  define b where "b = ClearCompatibleProcessTargets (a\<lparr>pa_migrateMode := tc_migrateMode cfg,
    pa_remoteNumaCnt := int (tc_count cfg), pa_initLocalMemRatio := (if tc_migrateMode cfg = MIG_RATIO_MODE
      then fold (\<lambda>i r. r - int (unat (rt_ratio (tc_targets cfg i)))) [0..<tc_count cfg] 100 else 100)\<rparr>)"
  let ?nr = "mc_nrLocalNuma mc" and ?p = "TargetConfigToProcessParam b cfg"
  have b: "kept b = kept a" "nodes b = nodes a" by (simp_all add: b_def) (simp add: kept_def)
  have ratio: "kept (fold (\<lambda>j. set_ratio j k q) is c) = kept c" "nodes (fold (\<lambda>j. set_ratio j k q) is c) = nodes c" for c k q "is"
    by (rule fold_keeps, simp)+
  have clear: "kept (ClearSingleRemoteTarget c k n) = kept c" "nodes (ClearSingleRemoteTarget c k n) = nodes c" for c k n
    unfolding ClearSingleRemoteTarget_def by (rule fold_keeps, simp)+
  have multi: "kept (SetMultiNumaConfig mc c ?p ?nr) = kept c \<and>
      nodes (SetMultiNumaConfig mc c ?p ?nr) =
        fold (\<lambda>i w. if True then AddL2ByNid ?nr w (rt_remoteNid (tc_targets cfg i)) else w) [0..<tc_count cfg] (nodes c)" for c
  proof -
    let ?f = "\<lambda>i attr. let np = pp_numaParam ?p i; remoteNid = np_nid np; l2Index = nat (remoteNid - ?nr);
      attr = set_migrateParam i remoteNid (np_memSize np) attr;
      attr = fold (\<lambda>j attr. set_ratio j l2Index (np_ratio np) attr) (locals ?nr) attr in AddAttrL2 mc attr remoteNid"
    have k: "kept (fold ?f is c) = kept c" for "is" by (rule fold_keeps) (simp add: Let_def ratio)
    have n: "nodes (fold ?f is c) = fold (\<lambda>i w. if True then AddL2ByNid ?nr w (rt_remoteNid (tc_targets cfg i)) else w) is (nodes c)"
      if "\<forall>i \<in> set is. i < tc_count cfg" for "is" c
      using that by (induction "is" arbitrary: c) (simp_all add: Let_def ratio TargetConfigToProcessParam_def)
    have cnt: "[0..<nat (pp_count ?p)] = [0..<tc_count cfg]" by (simp add: TargetConfigToProcessParam_def)
    show ?thesis unfolding SetMultiNumaConfig_def cnt using k n by simp
  qed
  have single: "kept c' = kept c \<and> nodes c' = AddL2ByNid ?nr (nodes c) (rt_remoteNid (tc_targets cfg 0))"
    if "SetSingleRemoteNumaConfig mc c ?p ?nr pages = Inr c'" "tc_count cfg = 1" for c c' pages
    using that by (auto simp: SetSingleRemoteNumaConfig_def Let_def ratio clear target_pages_keeps account_keeps
        TargetConfigToProcessParam_def split: if_splits)
  have u: "UpdateProcessMigrateConfig mc a cfg ob =
    (if tc_count cfg = 0 then (None, b)
     else if tc_count cfg > 1 \<or> GetL1Count (nodes a) > 1 then (None, SetMultiNumaConfig mc b ?p ?nr)
     else if \<not> ob_residentValid ob then (Some EINVAL, b)
     else (case SetSingleRemoteNumaConfig mc b ?p ?nr (ob_numaPages ob) of Inl e \<Rightarrow> (Some e, b) | Inr attr \<Rightarrow> (None, attr)))"
    unfolding UpdateProcessMigrateConfig_def Let_def b_def ..
  have "kept a' = kept a \<and> nodes a' = fold (\<lambda>i w. if True then AddL2ByNid ?nr w (rt_remoteNid (tc_targets cfg i)) else w)
      [0..<tc_count cfg] (nodes a)"
  proof (cases "tc_count cfg = 0 \<or> tc_count cfg > 1 \<or> GetL1Count (nodes a) > 1")
    case True
    then show ?thesis using assms b multi [of b] unfolding u by (auto split: if_splits)
  next
    case False
    then have one: "tc_count cfg = 1" by simp
    with assms False obtain c' where "SetSingleRemoteNumaConfig mc b ?p ?nr (ob_numaPages ob) = Inr c'" "c' = a'"
      unfolding u by (auto split: if_splits sum.splits)
    then show ?thesis using single [of b "ob_numaPages ob" c'] one b by simp
  qed
  then show "kept a' = kept a" and "nodes a' = fold (\<lambda>i w. if True then AddL2ByNid (mc_nrLocalNuma mc) w (rt_remoteNid (tc_targets cfg i)) else w)
      [0..<tc_count cfg] (nodes a)" by blast+
qed

lemma observation_only:
  assumes "ApplyManagedLocalObservation nr attr ob full = Inr attr'"
  shows "\<exists>s. attr' = attr\<lparr>pa_managedLocalState := s\<rparr>"
  using assms by (auto simp: ApplyManagedLocalObservation_def Let_def split: if_splits prod.splits)

lemma InAttrL2_or: "InAttrL2 nr (v OR w) m \<longleftrightarrow> InAttrL2 nr v m \<or> InAttrL2 nr w m"
  by (auto simp: InAttrL2_def InL2_iff bit_or_iff)

lemma InL1_or: "InL1 (v OR w) l \<longleftrightarrow> InL1 v l \<or> InL1 w l"
  by (auto simp: InL1_iff bit_or_iff)

lemma drain_nodes:
  assumes nr: "0 < mc_nrLocalNuma mc" "mc_nrLocalNuma mc \<le> 8"
  shows "\<not> InL1 (BuildCandidateRemoteDrainNodes mc config ob) l"
    and "mc_nrLocalNuma mc \<le> m \<Longrightarrow> m < mc_nrLocalNuma mc + 18 \<Longrightarrow>
      InAttrL2 (mc_nrLocalNuma mc) (BuildCandidateRemoteDrainNodes mc config ob) m \<longleftrightarrow>
      ob_residentValid ob \<and> ob_numaPages ob (nat m) \<noteq> 0 \<and> FindProcessRemoteTarget config m = None"
proof -
  let ?nr = "mc_nrLocalNuma mc"
  let ?P = "\<lambda>r. ob_numaPages ob (nat (?nr + int r)) \<noteq> 0 \<and> FindProcessRemoteTarget config (?nr + int r) = None"
  have eq: "BuildCandidateRemoteDrainNodes mc config ob = (if \<not> ob_residentValid ob then 0
      else fold (\<lambda>r w. if ?P r then AddL2ByNid ?nr w (?nr + int r) else w) [0..<18] 0)"
    unfolding BuildCandidateRemoteDrainNodes_def Let_def by (auto intro!: fold_cong)
  have z: "\<not> InL1 0 l" "\<not> InAttrL2 ?nr 0 m" by (simp_all add: InL1_iff InAttrL2_def InL2_iff)
  show "\<not> InL1 (BuildCandidateRemoteDrainNodes mc config ob) l"
    unfolding eq using z InL1_fold_AddL2 [OF nr, of "[0..<18]" ?P "\<lambda>r. ?nr + int r" 0 l] by auto
  assume m: "?nr \<le> m" "m < ?nr + 18"
  have "(\<exists>r \<in> set [0..<18]. ?P r \<and> ?nr + int r = m) \<longleftrightarrow> ?P (nat (m - ?nr))"
    using m by (auto intro!: bexI [of _ "nat (m - ?nr)"])
  then show "InAttrL2 ?nr (BuildCandidateRemoteDrainNodes mc config ob) m \<longleftrightarrow>
      ob_residentValid ob \<and> ob_numaPages ob (nat m) \<noteq> 0 \<and> FindProcessRemoteTarget config m = None"
    unfolding eq using z m InAttrL2_fold_AddL2 [OF nr m, of "[0..<18]" ?P "\<lambda>r. ?nr + int r" 0] by auto
qed

lemma FindProcessRemoteTarget_None:
  "tc_count config \<le> 18 \<Longrightarrow> FindProcessRemoteTarget config m = None \<longleftrightarrow>
     (\<forall>i < tc_count config. rt_remoteNid (tc_targets config i) \<noteq> m)"
  by (auto simp: FindProcessRemoteTarget_def find_None_iff)

definition remote_targets :: "int \<Rightarrow> ProcessTargetConfig \<Rightarrow> bool" where
  "remote_targets nr config \<longleftrightarrow> list_all (\<lambda>t. nr \<le> rt_remoteNid t \<and> rt_remoteNid t < nr + 18) (config_targets config)"

lemma Prepare_tracking:
  assumes res: "PrepareProcessTargetCandidate mc attr config ob skip = (None, attr')"
    and targets: "remote_targets (mc_nrLocalNuma mc) config"
  defines "nr \<equiv> mc_nrLocalNuma mc"
  shows "pa_targetConfig attr' = config" and "0 < nr" and "nr \<le> 8"
    and "InL1 (nodes attr') l \<longleftrightarrow> InL1 (managedMask attr') l \<and> l < nr"
    and "nr \<le> m \<Longrightarrow> m < nr + 18 \<Longrightarrow> InAttrL2 nr (nodes attr') m \<longleftrightarrow>
      FindProcessRemoteTarget config m \<noteq> None \<or> \<not> skip \<and> ob_residentValid ob \<and> ob_numaPages ob (nat m) \<noteq> 0 \<or>
      nrPages attr (nat m) \<noteq> 0 \<or> BuildAccountLocalMask nr attr (m - nr) \<noteq> 0 \<or>
      wp_nrPage (pa_walkPage attr) = 0 \<and> InAttrL2 nr (nodes attr) m"
proof -
  have copy: "CopyProcessTargetConfig config = Inr config"
    using res by (auto simp: PrepareProcessTargetCandidate_def dest: copy_config split: sum.splits)
  then have cnt: "tc_count config \<le> 18" by (auto simp: CopyProcessTargetConfig_def split: if_splits)
  let ?drain = "if skip then 0 else BuildCandidateRemoteDrainNodes mc config ob"
  let ?a = "attr\<lparr>pa_targetConfig := config\<rparr>"
  from res obtain b where obs: "ApplyManagedLocalObservation nr ?a ob True = Inr b"
    by (auto simp: PrepareProcessTargetCandidate_def copy nr_def Let_def split: sum.splits)
  let ?b = "b\<lparr>pa_numaAttr := (pa_numaAttr b)\<lparr>na_numaNodes := BuildManagedTrackingNodes nr b OR ?drain\<rparr>\<rparr>"
  from res obs obtain d where up: "UpdateProcessMigrateConfig mc ?b config ob = (None, d)"
      and d: "attr' = UpdateAutoRemoveRemoteEmptyFlag d config"
    by (auto simp: PrepareProcessTargetCandidate_def copy nr_def Let_def split: prod.splits option.splits)
  note st = ApplyManagedLocalObservation_state [OF obs] and fr = UpdateProcessMigrateConfig_frame [OF up]
  show nr: "0 < nr" "nr \<le> 8" by (fact st(1), fact st(2))
  obtain s where s: "b = ?a\<lparr>pa_managedLocalState := s\<rparr>" using observation_only [OF obs] by blast
  have auto: "kept attr' = kept d" "nodes attr' = nodes d"
    unfolding d by (simp_all add: UpdateAutoRemoveRemoteEmptyFlag_def kept_def)
  have kb: "pa_targetConfig b = config" "pa_walkPage b = pa_walkPage attr" "nodes b = nodes attr" by (simp_all add: s)
  have k: "kept attr' = kept b" using auto fr(1) by (simp add: kept_def)
  then show "pa_targetConfig attr' = config" using kb by (simp add: kept_def)
  have mm: "managedMask attr' = managedMask b" using k by (simp add: kept_def)
  have rt: "nr \<le> rt_remoteNid (tc_targets config i) \<and> rt_remoteNid (tc_targets config i) < nr + 18" if "i < tc_count config" for i
    using targets that by (simp add: remote_targets_def list_all_length nr_def)
  have n: "nodes attr' = fold (\<lambda>i w. if True then AddL2ByNid nr w (rt_remoteNid (tc_targets config i)) else w)
      [0..<tc_count config] (BuildManagedTrackingNodes nr b OR ?drain)"
    using auto(2) fr(2) by (simp add: nr_def)
  have dr1: "\<not> InL1 ?drain l" using drain_nodes(1) [of mc config ob l] nr by (simp add: nr_def InL1_iff)
  have "InL1 (nodes attr') l \<longleftrightarrow> InL1 (BuildManagedTrackingNodes nr b OR ?drain) l"
    unfolding n by (rule InL1_fold_AddL2 [OF nr]) (use rt in auto)
  then show "InL1 (nodes attr') l \<longleftrightarrow> InL1 (managedMask attr') l \<and> l < nr"
    using BuildManagedTrackingNodes_local_gen [OF nr, of b l] dr1 by (simp add: InL1_or mm)
  assume m: "nr \<le> m" "m < nr + 18"
  have dr2: "InAttrL2 nr ?drain m \<longleftrightarrow> \<not> skip \<and> ob_residentValid ob \<and> ob_numaPages ob (nat m) \<noteq> 0 \<and> FindProcessRemoteTarget config m = None"
    using drain_nodes(2) [of mc m config ob] nr m by (simp add: nr_def InAttrL2_def InL2_iff)
  have am: "ml_accountLocalMask (pa_managedLocalState b) (nat (m - nr)) = BuildAccountLocalMask nr attr (m - nr)"
    using st(4) [of "nat (m - nr)"] m by (simp add: BuildAccountLocalMask_def)
  have ft: "(\<exists>i \<in> set [0..<tc_count config]. True \<and> rt_remoteNid (tc_targets config i) = m) \<longleftrightarrow> FindProcessRemoteTarget config m \<noteq> None"
    using FindProcessRemoteTarget_None [OF cnt, of m] by auto
  have fm: "(\<exists>i < min (tc_count config) 18. rt_remoteNid (tc_targets config i) = m) \<longleftrightarrow> FindProcessRemoteTarget config m \<noteq> None"
    using FindProcessRemoteTarget_None [OF cnt, of m] cnt by auto
  have "InAttrL2 nr (nodes attr') m \<longleftrightarrow> InAttrL2 nr (BuildManagedTrackingNodes nr b OR ?drain) m \<or> FindProcessRemoteTarget config m \<noteq> None"
    unfolding n ft [symmetric] by (rule InAttrL2_fold_AddL2 [OF nr m]) (use rt in auto)
  then show "InAttrL2 nr (nodes attr') m \<longleftrightarrow>
      FindProcessRemoteTarget config m \<noteq> None \<or> \<not> skip \<and> ob_residentValid ob \<and> ob_numaPages ob (nat m) \<noteq> 0 \<or>
      nrPages attr (nat m) \<noteq> 0 \<or> BuildAccountLocalMask nr attr (m - nr) \<noteq> 0 \<or>
      wp_nrPage (pa_walkPage attr) = 0 \<and> InAttrL2 nr (nodes attr) m"
    unfolding InAttrL2_or BuildManagedTrackingNodes_remote_gen [OF nr m] kb fm am dr2 by blast
qed

text \<open>C24. After a request was put into effect, the process is tracked where it has to be. Its configuration is
  the requested one; the local nodes in its bitmap are exactly its managed local nodes of the
  machine; and a remote node is in the bitmap exactly when it is a target of the configuration,
  or holds pages of the process (observed now, unless the check is skipped, or in the last page
  walk), or has an entry in its Pair account, or was tracked before and there is no page walk yet.
  So a remote node that is no longer a target is tracked until its pages have come back.\<close>

theorem ConfigureMigrationTargets_tracking:
  assumes "ConfigureMigrationTargetsWithCapacityPolicy mc (Inr ob) attr config ign skip = (None, attr')"
    and "pa_state attr \<noteq> PROC_MIGRATE" and "remote_targets (mc_nrLocalNuma mc) config"
  defines "nr \<equiv> mc_nrLocalNuma mc"
  shows "pa_targetConfig attr' = config \<and> pa_ignoreRemoteCapacity attr' = ign \<and>
    (\<forall>l. InL1 (nodes attr') l \<longleftrightarrow> InL1 (managedMask attr') l \<and> l < nr) \<and>
    (\<forall>m. nr \<le> m \<and> m < nr + 18 \<longrightarrow> (InAttrL2 nr (nodes attr') m \<longleftrightarrow>
      FindProcessRemoteTarget config m \<noteq> None \<or> \<not> skip \<and> ob_residentValid ob \<and> ob_numaPages ob (nat m) \<noteq> 0 \<or>
      nrPages attr (nat m) \<noteq> 0 \<or> BuildAccountLocalMask nr attr (m - nr) \<noteq> 0 \<or>
      wp_nrPage (pa_walkPage attr) = 0 \<and> InAttrL2 nr (nodes attr) m))"
  using assms(1)
proof (cases rule: configure_cases)
  case (direct attr0)
  then obtain cand where p: "PrepareProcessTargetCandidate mc attr config ob skip = (None, cand)"
      and a0: "attr0 = PublishProcessTargetCandidate attr cand"
    by (auto simp: ApplyProcessTargetConfig_def split: prod.splits option.splits)
  note t = Prepare_tracking [OF p assms(3)]
  have "pa_targetConfig attr' = pa_targetConfig cand" "nodes attr' = nodes cand" "managedMask attr' = managedMask cand"
    "pa_ignoreRemoteCapacity attr' = ign"
    by (simp_all add: direct(4) a0 PublishProcessTargetCandidate_def)
  then show ?thesis using t(1,4,5) unfolding nr_def by simp
qed (use assms(2) in simp_all)

text \<open>When the machine and the observation are sound, a valid configuration without targets, or with several, is accepted.\<close>

lemma observe_succeeds:
  assumes "0 < nr" "nr \<le> 8" "ob_affinityValid ob \<or> ob_residentValid ob"
  shows "\<exists>a'. ApplyManagedLocalObservation nr a ob full = Inr a'"
proof -
  have c: "(\<not> ob_affinityValid ob \<and> \<not> ob_residentValid ob) = False" "(BuildAllLocalNumaMask nr = 0) = False" using assms by auto
  show ?thesis unfolding ApplyManagedLocalObservation_def Let_def c if_False case_prod_beta by blast
qed

lemma configure_succeeds:
  assumes nr: "0 < mc_nrLocalNuma mc" "mc_nrLocalNuma mc \<le> 8" and ob: "ob_affinityValid ob \<or> ob_residentValid ob"
    and valid: "valid_config (mc_hugeMode mc) config" and cnt: "tc_count config \<noteq> 1"
    and st: "pa_state attr \<noteq> PROC_MIGRATE"
  shows "\<exists>attr'. ConfigureMigrationTargetsWithCapacityPolicy mc (Inr ob) attr config ign skip = (None, attr')"
proof -
  have v: "ValidateProcessTargetConfig (mc_hugeMode mc) config = Inr ()" using valid by (simp add: ValidateProcessTargetConfig_iff_gen)
  have c: "CopyProcessTargetConfig config = Inr config"
    using valid by (cases "tc_migrateMode config") (auto simp: CopyProcessTargetConfig_def valid_config_def)
  have u: "\<exists>a'. UpdateProcessMigrateConfig mc a config ob = (None, a')" for a
    using cnt by (auto simp: UpdateProcessMigrateConfig_def Let_def)
  obtain b where b: "ApplyManagedLocalObservation (mc_nrLocalNuma mc) (attr\<lparr>pa_targetConfig := config\<rparr>) ob True = Inr b"
    using observe_succeeds [OF nr ob] by blast
  let ?b = "b\<lparr>pa_numaAttr := (pa_numaAttr b)\<lparr>na_numaNodes := BuildManagedTrackingNodes (mc_nrLocalNuma mc) b OR
    (if skip then 0 else BuildCandidateRemoteDrainNodes mc config ob)\<rparr>\<rparr>"
  obtain d where "UpdateProcessMigrateConfig mc ?b config ob = (None, d)" using u by blast
  then have "PrepareProcessTargetCandidate mc attr config ob skip = (None, UpdateAutoRemoveRemoteEmptyFlag d config)"
    by (simp add: PrepareProcessTargetCandidate_def c b Let_def)
  then show ?thesis using st by (simp add: ConfigureMigrationTargetsWithCapacityPolicy_def v c ApplyProcessTargetConfig_def)
qed

definition demo_machine :: Machine where
  "demo_machine = \<lparr>mc_nrLocalNuma = 2, mc_hugeMode = False, mc_pageSizeNormal = 4096, mc_pageSizeHuge = 2097152\<rparr>"

definition demo_observation :: ManagedLocalObservation where
  "demo_observation = \<lparr>ob_affinityLocalMask = 1, ob_residentLocalMask = 1, ob_numaPages = (\<lambda>_. 0)(0 := 50, 5 := 7),
     ob_affinityValid = True, ob_affinitySampled = True, ob_residentValid = True\<rparr>"

definition demo_request :: ProcessTargetConfig where
  "demo_request = \<lparr>tc_migrateMode = MIG_RATIO_MODE, tc_count = 2,
     tc_targets = (\<lambda>_. ProcessRemoteTarget_zero)
       (0 := \<lparr>rt_remoteNid = 2, rt_ratio = 20, rt_memSizeKB = 0\<rparr>, 1 := \<lparr>rt_remoteNid = 4, rt_ratio = 30, rt_memSizeKB = 0\<rparr>)\<rparr>"

lemma demo_request_targets:
  "config_targets demo_request = [\<lparr>rt_remoteNid = 2, rt_ratio = 20, rt_memSizeKB = 0\<rparr>, \<lparr>rt_remoteNid = 4, rt_ratio = 30, rt_memSizeKB = 0\<rparr>]"
  by (simp add: config_targets_def demo_request_def upt_rec numeral_2_eq_2)

lemma demo_request_valid: "valid_config (mc_hugeMode demo_machine) demo_request" "remote_targets (mc_nrLocalNuma demo_machine) demo_request"
  by (simp_all add: valid_config_def config_distinct_def demo_request_targets remote_targets_def)
    (simp_all add: demo_request_def demo_machine_def)

lemma demo_configure:
  assumes "pa_state attr \<noteq> PROC_MIGRATE"
  obtains attr' where "ConfigureMigrationTargetsWithCapacityPolicy demo_machine (Inr demo_observation) attr demo_request ign skip = (None, attr')"
  using configure_succeeds [of demo_machine demo_observation demo_request attr ign skip] assms demo_request_valid(1)
  by (auto simp: demo_machine_def demo_observation_def demo_request_def)

theorem ConfigureMigrationTargets_tracking_witness:
  "InAttrL2 2 (nodes (snd (ConfigureMigrationTargetsWithCapacityPolicy demo_machine (Inr demo_observation) ProcessAttr_zero
     demo_request False False))) 5"
proof -
  have st: "pa_state ProcessAttr_zero \<noteq> PROC_MIGRATE" by (simp add: ProcessAttr_zero_def)
  obtain a where a: "ConfigureMigrationTargetsWithCapacityPolicy demo_machine (Inr demo_observation) ProcessAttr_zero demo_request False False = (None, a)"
    using demo_configure [OF st] by blast
  have nr: "mc_nrLocalNuma demo_machine = 2" and ob: "ob_residentValid demo_observation" "ob_numaPages demo_observation 5 = 7"
    by (simp_all add: demo_machine_def demo_observation_def)
  note t = ConfigureMigrationTargets_tracking [OF a st demo_request_valid(2), unfolded nr]
  from t have "2 \<le> (5::int) \<and> 5 < 2 + (18::int) \<longrightarrow> (InAttrL2 2 (nodes a) 5 \<longleftrightarrow>
      FindProcessRemoteTarget demo_request 5 \<noteq> None \<or> \<not> False \<and> ob_residentValid demo_observation \<and> ob_numaPages demo_observation (nat 5) \<noteq> 0 \<or>
      nrPages ProcessAttr_zero (nat 5) \<noteq> 0 \<or> BuildAccountLocalMask 2 ProcessAttr_zero (5 - 2) \<noteq> 0 \<or>
      wp_nrPage (pa_walkPage ProcessAttr_zero) = 0 \<and> InAttrL2 2 (nodes ProcessAttr_zero) 5)" by blast
  then show ?thesis using a ob by simp
qed

theorem ConfigureMigrationTargets_atomic_witness:
  "ConfigureMigrationTargetsWithCapacityPolicy demo_machine (Inl EPERM) ProcessAttr_zero demo_request False False =
     (Some EPERM, ProcessAttr_zero)"
proof -
  have v: "ValidateProcessTargetConfig (mc_hugeMode demo_machine) demo_request = Inr ()"
    using demo_request_valid(1) by (simp add: ValidateProcessTargetConfig_iff_gen)
  have c: "CopyProcessTargetConfig demo_request = Inr demo_request" by (simp add: CopyProcessTargetConfig_def demo_request_def)
  have "fst (ConfigureMigrationTargetsWithCapacityPolicy demo_machine (Inl EPERM) ProcessAttr_zero demo_request False False) = Some EPERM"
    by (simp add: ConfigureMigrationTargetsWithCapacityPolicy_def v c ApplyProcessTargetConfig_def) (simp add: ProcessAttr_zero_def)
  then obtain a where a: "ConfigureMigrationTargetsWithCapacityPolicy demo_machine (Inl EPERM) ProcessAttr_zero demo_request False False = (Some EPERM, a)"
    by (cases "ConfigureMigrationTargetsWithCapacityPolicy demo_machine (Inl EPERM) ProcessAttr_zero demo_request False False") auto
  then show ?thesis using ConfigureMigrationTargets_atomic by metis
qed

text \<open>A request staged for a migrating process; it is applied to the idle process, with a driver that accepts and
  with one that refuses.\<close>

theorem StagedTargets_equal_direct_witness:
  "\<exists>attr1 attr2. ConfigureMigrationTargetsWithCapacityPolicy demo_machine (Inl EPERM) (ProcessAttr_zero\<lparr>pa_state := PROC_MIGRATE\<rparr>)
       demo_request True False = (None, attr1) \<and>
     ApplyPendingMigrationTargets demo_machine (Inr demo_observation) (\<lambda>_. None) (attr1\<lparr>pa_state := PROC_IDLE\<rparr>) = (None, attr2) \<and>
     ApplyPendingMigrationTargets demo_machine (Inr demo_observation) (\<lambda>_. Some EPERM) (attr1\<lparr>pa_state := PROC_IDLE\<rparr>) =
       (Some EPERM, attr1\<lparr>pa_state := PROC_IDLE\<rparr>)"
proof -
  let ?a = "ProcessAttr_zero\<lparr>pa_state := PROC_MIGRATE\<rparr>"
  have v: "ValidateProcessTargetConfig (mc_hugeMode demo_machine) demo_request = Inr ()"
    using demo_request_valid(1) by (simp add: ValidateProcessTargetConfig_iff_gen)
  have c: "CopyProcessTargetConfig demo_request = Inr demo_request" by (simp add: CopyProcessTargetConfig_def demo_request_def)
  obtain attr1 where s: "ConfigureMigrationTargetsWithCapacityPolicy demo_machine (Inl EPERM) ?a demo_request True False = (None, attr1)"
    by (simp add: ConfigureMigrationTargetsWithCapacityPolicy_def v c StagePendingMigrationTargets_def Let_def)
  then have "StagePendingMigrationTargets demo_machine ?a demo_request True = (None, attr1)"
    by (cases rule: configure_cases) auto
  then obtain n where a1: "attr1 = pend demo_request True True n ?a" using stage_eq by blast
  obtain attr2 where d: "ConfigureMigrationTargetsWithCapacityPolicy demo_machine (Inr demo_observation) (?a\<lparr>pa_state := PROC_IDLE\<rparr>) demo_request True False = (None, attr2)"
    using demo_configure [of "?a\<lparr>pa_state := PROC_IDLE\<rparr>" True False] by auto
  have "attr1\<lparr>pa_state := PROC_IDLE\<rparr> = pend (pa_pendingTargetConfig attr1) (pa_pendingTargetConfigValid attr1) (pa_pendingIgnoreRemoteCapacity attr1)
      (pa_pendingTargetNumaNodes attr1) (?a\<lparr>pa_state := PROC_IDLE\<rparr>)" by (simp add: a1 pend_def)
  note eq = StagedTargets_equal_direct [OF _ s _ d this]
  show ?thesis using eq [of "\<lambda>_. None"] eq [of "\<lambda>_. Some EPERM"] s by auto
qed

section \<open>Accounts of a single remote node\<close>

lemma account_set [simp]:
  "account (set_account i j p a) k r = (if k = i \<and> r = j then p else account a k r)"
  "account (set_memSize i j m a) = account a" "account (set_ratio i j q a) = account a"
  "account (set_migrateParam i nid m a) = account a" "account (AddAttrL2 mc a nid) = account a"
  by (auto simp: set_account_def set_memSize_def set_ratio_def set_migrateParam_def AddAttrL2_def put2_def)

lemma memSize_set [simp]:
  "memSize (set_memSize i j m a) k r = (if k = i \<and> r = j then m else memSize a k r)"
  "memSize (set_account i j p a) = memSize a" "memSize (set_ratio i j q a) = memSize a"
  "memSize (set_migrateParam i nid sz a) = memSize a" "memSize (AddAttrL2 mc a nid) = memSize a"
  by (auto simp: set_account_def set_memSize_def set_ratio_def set_migrateParam_def AddAttrL2_def put2_def)

lemma InAttrL1_set [simp]:
  "InAttrL1 (set_account i j p a) = InAttrL1 a" "InAttrL1 (set_memSize i j m a) = InAttrL1 a"
  "InAttrL1 (set_ratio i j q a) = InAttrL1 a" "InAttrL1 (set_migrateParam i nid sz a) = InAttrL1 a"
  by (simp_all add: InAttrL1_def fun_eq_iff)

text \<open>
  Both account routines hand the pages out along the local nodes of the process; whatever share
  \<open>g\<close> a node is offered, it takes at most what is left, so no page is lost or invented.
\<close>

definition hand_accounts :: "(ProcessAttr \<Rightarrow> nat \<Rightarrow> u64) \<Rightarrow> nat \<Rightarrow> nat list \<Rightarrow> ProcessAttr \<times> u64 \<Rightarrow> ProcessAttr \<times> u64" where
  "hand_accounts g r is = fold (\<lambda>i (attr, left).
     if \<not> InAttrL1 attr i then (attr, left)
     else let n = g attr i; n = (if n > left then left else n) in (set_account i r (ucast n) attr, left - n)) is"

lemma unat_u32_of_u64: "unat (w :: u64) \<le> UINT32_MAX \<Longrightarrow> unat (ucast w :: u32) = unat w"
  by (simp add: unsigned_ucast_eq take_bit_nat_eq_self)

lemma hand_accounts_sum:
  assumes "hand_accounts g r is (a, left) = (a', left')" "distinct is" "unat left \<le> UINT32_MAX"
  shows "(\<Sum>i\<leftarrow>filter (InAttrL1 a) is. unat (account a' i r)) + unat left' = unat left"
    and "\<And>k. k \<notin> set is \<or> \<not> InAttrL1 a k \<Longrightarrow> account a' k r = account a k r" and "InAttrL1 a' = InAttrL1 a"
    and "memSize a' = memSize a" and "unat left' \<le> unat left"
proof -
  have "(\<Sum>i\<leftarrow>filter (InAttrL1 a) is. unat (account a' i r)) + unat left' = unat left \<and>
    (\<forall>k. k \<notin> set is \<or> \<not> InAttrL1 a k \<longrightarrow> account a' k r = account a k r) \<and> InAttrL1 a' = InAttrL1 a \<and> memSize a' = memSize a \<and>
    unat left' \<le> unat left"
    using assms
  proof (induction "is" arbitrary: a left)
    case (Cons i "is")
    show ?case
    proof (cases "InAttrL1 a i")
      case False
      then have "hand_accounts g r is (a, left) = (a', left')" using Cons.prems(1) by (simp add: hand_accounts_def)
      with Cons.IH Cons.prems(2,3) False show ?thesis by auto
    next
      case True
      define n where "n = (if g a i > left then left else g a i)"
      let ?a = "set_account i r (ucast n) a"
      have n: "n \<le> left" by (auto simp: n_def)
      then have nn: "unat n \<le> unat left" "unat (left - n) = unat left - unat n" by (simp_all add: word_le_nat_alt unat_sub)
      have "hand_accounts g r is (?a, left - n) = (a', left')"
        using Cons.prems(1) True by (simp add: hand_accounts_def Let_def n_def)
      moreover have "unat (left - n) \<le> UINT32_MAX" using nn Cons.prems(3) by linarith
      ultimately have ih: "(\<Sum>i\<leftarrow>filter (InAttrL1 a) is. unat (account a' i r)) + unat left' = unat (left - n)"
        "\<forall>k. k \<notin> set is \<or> \<not> InAttrL1 a k \<longrightarrow> account a' k r = account ?a k r" "InAttrL1 a' = InAttrL1 a" "memSize a' = memSize a"
        "unat left' \<le> unat (left - n)"
        using Cons.IH [of ?a "left - n"] Cons.prems(2) by simp_all
      have "account a' i r = ucast n" using ih(2) Cons.prems(2) by simp
      moreover have "unat (ucast n :: u32) = unat n" using nn Cons.prems(3) by (intro unat_u32_of_u64) linarith
      ultimately show ?thesis using ih nn True by auto
    qed
  qed (simp add: hand_accounts_def)
  then show "(\<Sum>i\<leftarrow>filter (InAttrL1 a) is. unat (account a' i r)) + unat left' = unat left"
    and "\<And>k. k \<notin> set is \<or> \<not> InAttrL1 a k \<Longrightarrow> account a' k r = account a k r" and "InAttrL1 a' = InAttrL1 a"
    and "memSize a' = memSize a" and "unat left' \<le> unat left" by blast+
qed

lemma account_by_hand:
  "AccountExistingRemotePagesByOldAccount a r k t nr = account_rest r nr
     (hand_accounts (\<lambda>attr i. if t = 0 then 0 else k * ucast (account attr i r) div t) r (locals nr) (a, k))"
  "AccountExistingRemotePagesByLocalPages a r pages k nr = account_rest r nr
     (hand_accounts (\<lambda>attr i. let t = fold (\<lambda>i t. if InAttrL1 a i then t + pages i else t) (locals nr) 0 in
        if t > 0 then k * pages i div t else 0) r (locals nr) (a, k))"
  unfolding AccountExistingRemotePagesByOldAccount_def AccountExistingRemotePagesByLocalPages_def hand_accounts_def Let_def
  by (rule refl)+

lemma InAttrL1_less: "InAttrL1 a i \<Longrightarrow> i < 8"
  by (simp add: InAttrL1_def)

lemma sum_filter_zero:
  assumes "\<And>k. k \<in> set is \<Longrightarrow> \<not> P k \<Longrightarrow> f k = (0 :: nat)"
  shows "(\<Sum>i\<leftarrow>filter P is. f i) = (\<Sum>i\<leftarrow>is. f i)"
  using assms by (induction "is") auto

lemma sum_list_upd:
  assumes "distinct is" "i \<in> set is" "\<And>k. k \<noteq> i \<Longrightarrow> g k = f k" "g i = f i + (d :: nat)"
  shows "(\<Sum>k\<leftarrow>is. g k) = (\<Sum>k\<leftarrow>is. f k) + d"
proof -
  obtain xs ys where "is = xs @ i # ys" "i \<notin> set xs" using assms(2) by (metis split_list_first)
  moreover have "i \<notin> set ys" using calculation assms(1) by simp
  moreover have "sum_list (map g zs) = sum_list (map f zs)" if "i \<notin> set zs" for zs using that assms(3) by (metis map_cong)
  ultimately show ?thesis using assms(4) by simp
qed

lemma existing_account_sum:
  fixes pages :: "nat \<Rightarrow> u64"
  assumes nr: "0 < nr" "nr \<le> 8" and i0: "i0 < nat nr" "InAttrL1 a i0"
    and zero: "\<And>i. i < nat nr \<Longrightarrow> account a i r = 0" and k: "unat k \<le> UINT32_MAX"
  defines "a' \<equiv> AccountExistingRemotePages a r pages k nr"
  shows "(\<Sum>i\<leftarrow>[0..<nat nr]. unat (account a' i r)) = unat k" and "memSize a' = memSize a" and "InAttrL1 a' = InAttrL1 a"
proof -
  have loc: "locals nr = [0..<nat nr]" using nr by (simp add: min_def)
  have "(\<Sum>i\<leftarrow>[0..<nat nr]. unat (account a' i r)) = unat k \<and> memSize a' = memSize a \<and> InAttrL1 a' = InAttrL1 a"
  proof (cases "k = 0")
    case True
    then have "a' = a" by (simp add: a'_def AccountExistingRemotePages_def)
    moreover have "(\<Sum>i\<leftarrow>[0..<nat nr]. unat (account a i r)) = 0" using zero by simp
    ultimately show ?thesis using True by simp
  next
    case False
    have a'': "\<exists>g. a' = account_rest r nr (hand_accounts g r [0..<nat nr] (a, k))"
      using False unfolding a'_def AccountExistingRemotePages_def account_by_hand loc Let_def by auto
    then obtain g where a': "a' = account_rest r nr (hand_accounts g r [0..<nat nr] (a, k))" by blast
    obtain b left where h: "hand_accounts g r [0..<nat nr] (a, k) = (b, left)" by (metis surj_pair)
    note hs = hand_accounts_sum [OF h distinct_upt k]
    have z: "account b i r = 0" if "i < nat nr" "\<not> InAttrL1 a i" for i using hs(2) [of i] zero [of i] that by simp
    have "(\<Sum>i\<leftarrow>filter (InAttrL1 a) [0..<nat nr]. unat (account b i r)) = (\<Sum>i\<leftarrow>[0..<nat nr]. unat (account b i r))"
      by (rule sum_filter_zero) (use z in auto)
    then have S: "(\<Sum>i\<leftarrow>[0..<nat nr]. unat (account b i r)) + unat left = unat k" using hs(1) by simp
    show ?thesis
    proof (cases "left = 0")
      case True
      then show ?thesis using S hs by (simp add: a' h account_rest_def)
    next
      case False
      have "find (\<lambda>i. InAttrL1 b i) (rev [0..<nat nr]) \<noteq> None" using i0 hs(3) by (auto simp: find_None_iff)
      then obtain l where l: "find (\<lambda>i. InAttrL1 b i) (rev [0..<nat nr]) = Some l" by blast
      then have lt: "l < nat nr" by (auto simp: find_Some_iff rev_nth)
      have e: "a' = set_account l r (account b l r + ucast left) b"
        using False l by (simp add: a' h account_rest_def word_neq_0_conv [symmetric] word_gt_0)
      have "unat (account b l r) \<le> (\<Sum>i\<leftarrow>[0..<nat nr]. unat (account b i r))"
        using lt by (intro member_le_sum_list) simp_all
      then have "unat (account b l r) + unat left \<le> UINT32_MAX" using S k by linarith
      moreover have "unat (ucast left :: u32) = unat left" using hs(5) k by (intro unat_u32_of_u64) linarith
      ultimately have "unat (account b l r + ucast left) = unat (account b l r) + unat left"
        by (subst unat_word_ariths(1)) simp
      then have "(\<Sum>i\<leftarrow>[0..<nat nr]. unat (account a' i r)) = (\<Sum>i\<leftarrow>[0..<nat nr]. unat (account b i r)) + unat left"
        using lt by (intro sum_list_upd [of _ l]) (simp_all add: e)
      then show ?thesis using S hs by (simp add: e)
    qed
  qed
  then show "(\<Sum>i\<leftarrow>[0..<nat nr]. unat (account a' i r)) = unat k" and "memSize a' = memSize a" and "InAttrL1 a' = InAttrL1 a"
    by blast+
qed

text \<open>The sizes of the remote target, handed out along the local nodes of the process.\<close>

definition hand_sizes :: "u64 \<Rightarrow> (nat \<Rightarrow> u64) \<Rightarrow> nat \<Rightarrow> nat list \<Rightarrow> ProcessAttr \<times> u64 \<times> nat option \<Rightarrow> ProcessAttr \<times> u64 \<times> nat option" where
  "hand_sizes kb pages r is = fold (\<lambda>i (attr, left, ls0).
     if left > 0 \<and> InAttrL1 attr i then
       let capacity = ucast (account attr i r) + pages i; n = min capacity left in
       (set_memSize i r (n * kb) attr, left - n, Some i)
     else (attr, left, ls0)) is"

lemma hand_sizes_sum:
  assumes "hand_sizes kb pages r is (a, left, ls0) = (a', left', ls1)" "distinct is"
    and "unat left * unat kb < 2 ^ 64" and "\<forall>i \<in> set is. memSize a i r = 0"
  shows "(\<Sum>i\<leftarrow>is. unat (memSize a' i r)) + unat left' * unat kb = unat left * unat kb \<and>
    (\<forall>k. k \<notin> set is \<longrightarrow> memSize a' k r = memSize a k r) \<and> account a' = account a \<and>
    (ls1 = ls0 \<or> (\<exists>l \<in> set is. ls1 = Some l)) \<and> ((\<exists>i \<in> set is. InAttrL1 a i) \<longrightarrow> left > 0 \<longrightarrow> (\<exists>l \<in> set is. ls1 = Some l))"
  using assms
proof (induction "is" arbitrary: a left ls0)
  case (Cons i "is")
  show ?case
  proof (cases "left > 0 \<and> InAttrL1 a i")
    case False
    then have "hand_sizes kb pages r is (a, left, ls0) = (a', left', ls1)" using Cons.prems(1) by (auto simp: hand_sizes_def)
    then have ih: "(\<Sum>i\<leftarrow>is. unat (memSize a' i r)) + unat left' * unat kb = unat left * unat kb \<and>
      (\<forall>k. k \<notin> set is \<longrightarrow> memSize a' k r = memSize a k r) \<and> account a' = account a \<and>
      (ls1 = ls0 \<or> (\<exists>l \<in> set is. ls1 = Some l)) \<and> ((\<exists>i \<in> set is. InAttrL1 a i) \<longrightarrow> left > 0 \<longrightarrow> (\<exists>l \<in> set is. ls1 = Some l))"
      using Cons.IH [of a left ls0] Cons.prems by simp
    then have "memSize a' i r = 0" using Cons.prems by simp
    then show ?thesis using ih False by auto
  next
    case True
    define n where "n = min (ucast (account a i r) + pages i) left"
    let ?a = "set_memSize i r (n * kb) a"
    have "n \<le> left" by (simp add: n_def)
    then have nn: "unat n \<le> unat left" "unat (left - n) = unat left - unat n" by (simp_all add: word_le_nat_alt unat_sub)
    then have le: "unat n * unat kb \<le> unat left * unat kb" "unat (left - n) * unat kb + unat n * unat kb = unat left * unat kb"
      by (simp_all add: add_mult_distrib [symmetric])
    then have mul: "unat (n * kb) = unat n * unat kb" using Cons.prems(3) by (subst unat_word_ariths(2)) simp
    have "hand_sizes kb pages r is (?a, left - n, Some i) = (a', left', ls1)"
      using Cons.prems(1) True by (simp add: hand_sizes_def Let_def n_def)
    moreover have "unat (left - n) * unat kb < 2 ^ 64" using le Cons.prems(3) by linarith
    moreover have "\<forall>j \<in> set is. memSize ?a j r = 0" using Cons.prems(2,4) by auto
    ultimately have ih: "(\<Sum>i\<leftarrow>is. unat (memSize a' i r)) + unat left' * unat kb = unat (left - n) * unat kb"
      "\<forall>k. k \<notin> set is \<longrightarrow> memSize a' k r = memSize ?a k r" "account a' = account a"
      "ls1 = Some i \<or> (\<exists>l \<in> set is. ls1 = Some l)"
      using Cons.IH [of ?a "left - n" "Some i"] Cons.prems(2) by simp_all
    have "memSize a' i r = n * kb" using ih(2) Cons.prems(2) by simp
    then show ?thesis using ih mul le by auto
  qed
qed (simp add: hand_sizes_def)

lemma target_size_sum:
  fixes pages :: "nat \<Rightarrow> u64"
  assumes nr: "0 < nr" "nr \<le> 8" and i0: "i0 < nat nr" "InAttrL1 a i0"
    and zero: "\<And>i. i < nat nr \<Longrightarrow> memSize a i r = 0" and fits: "unat k * unat (page_kb mc) < 2 ^ 64"
  defines "a' \<equiv> SetSingleRemoteTargetPages mc a r pages k nr"
  shows "(\<Sum>i\<leftarrow>[0..<nat nr]. unat (memSize a' i r)) = unat k * unat (page_kb mc) \<and> account a' = account a"
proof -
  let ?kb = "page_kb mc"
  have loc: "locals nr = [0..<nat nr]" using nr by (simp add: min_def)
  obtain b left ls0 where h: "hand_sizes ?kb pages r [0..<nat nr] (a, k, None) = (b, left, ls0)" by (metis prod_cases3)
  have z: "hand_sizes ?kb pages r is (a, 0, l) = (a, 0, l)" for "is" l by (induction "is") (simp_all add: hand_sizes_def)
  have hs: "(\<Sum>i\<leftarrow>[0..<nat nr]. unat (memSize b i r)) + unat left * unat ?kb = unat k * unat ?kb" "account b = account a"
    "(\<exists>i \<in> set [0..<nat nr]. InAttrL1 a i) \<Longrightarrow> k > 0 \<Longrightarrow> (\<exists>l \<in> set [0..<nat nr]. ls0 = Some l)"
    using hand_sizes_sum [OF h distinct_upt fits] zero by simp_all
  have hs': "(\<Sum>i\<leftarrow>[0..<nat nr]. unat (memSize b i r)) + unat left * unat ?kb = unat k * unat ?kb" "account b = account a"
    "k > 0 \<Longrightarrow> \<exists>l \<in> set [0..<nat nr]. ls0 = Some l" "k = 0 \<Longrightarrow> b = a \<and> left = 0"
    using hs i0 h z [of "[0..<nat nr]" None] by fastforce+
  have a': "a' = (case ls0 of None \<Rightarrow> b | Some i \<Rightarrow> if left > 0 then set_memSize i r (memSize b i r + left * ?kb) b else b)"
    using h unfolding a'_def SetSingleRemoteTargetPages_def hand_sizes_def loc by simp
  show ?thesis
  proof (cases "left = 0")
    case True
    then show ?thesis using hs' by (simp add: a' split: option.splits)
  next
    case False
    then have "k > 0" using hs'(4) by (cases "k = 0") (auto simp: word_gt_0)
    then obtain l where l: "ls0 = Some l" "l < nat nr" using hs'(3) by auto
    have e: "a' = set_memSize l r (memSize b l r + left * ?kb) b" using l False by (simp add: a' word_gt_0)
    have lb: "unat left * unat ?kb < 2 ^ 64" using hs'(1) fits by linarith
    then have m: "unat (left * ?kb) = unat left * unat ?kb" by (subst unat_word_ariths(2)) simp
    have "unat (memSize b l r) \<le> (\<Sum>i\<leftarrow>[0..<nat nr]. unat (memSize b i r))" using l by (intro member_le_sum_list) simp_all
    then have "unat (memSize b l r) + unat left * unat ?kb < 2 ^ 64" using hs'(1) fits by linarith
    then have "unat (memSize b l r + left * ?kb) = unat (memSize b l r) + unat left * unat ?kb"
      by (subst unat_word_ariths(1)) (simp add: m)
    then have "(\<Sum>i\<leftarrow>[0..<nat nr]. unat (memSize a' i r)) = (\<Sum>i\<leftarrow>[0..<nat nr]. unat (memSize b i r)) + unat left * unat ?kb"
      using l by (intro sum_list_upd [of _ l]) (simp_all add: e)
    then show ?thesis using hs' by (simp add: e)
  qed
qed

lemma clear_single:
  assumes "0 < nr" "nr \<le> 8"
  shows "i < nat nr \<Longrightarrow> account (ClearSingleRemoteTarget a r nr) i r = 0 \<and> memSize (ClearSingleRemoteTarget a r nr) i r = 0"
    and "InAttrL1 (ClearSingleRemoteTarget a r nr) = InAttrL1 a"
proof -
  let ?f = "\<lambda>i attr. set_account i r 0 (set_memSize i r 0 attr)"
  have "account (fold ?f is a) k r = (if k \<in> set is then 0 else account a k r) \<and>
      memSize (fold ?f is a) k r = (if k \<in> set is then 0 else memSize a k r)" for "is" k
    by (induction "is" arbitrary: a) auto
  moreover have "locals nr = [0..<nat nr]" using assms by (simp add: min_def)
  ultimately show "i < nat nr \<Longrightarrow> account (ClearSingleRemoteTarget a r nr) i r = 0 \<and> memSize (ClearSingleRemoteTarget a r nr) i r = 0"
    by (simp add: ClearSingleRemoteTarget_def)
  show "InAttrL1 (ClearSingleRemoteTarget a r nr) = InAttrL1 a"
    unfolding ClearSingleRemoteTarget_def by (rule fold_keeps) simp
qed

lemma SetSingleRemoteNumaConfig_conserves_parts:
  assumes res: "SetSingleRemoteNumaConfig mc attr param nr pages = Inr attr'"
    and nr: "0 < nr" "nr \<le> 8" and i0: "i0 < nat nr" "InAttrL1 attr i0"
    and small: "unat (pages (nat (np_nid (pp_numaParam param 0)))) \<le> UINT32_MAX"
  defines "r \<equiv> nat (np_nid (pp_numaParam param 0) - nr)" and "sz \<equiv> unat (np_memSize (pp_numaParam param 0))"
  shows "(\<Sum>i\<leftarrow>[0..<nat nr]. unat (account attr' i r)) = unat (pages (nat (np_nid (pp_numaParam param 0))))"
    and "(\<Sum>i\<leftarrow>[0..<nat nr]. unat (memSize attr' i r)) = sz - sz mod unat (page_kb mc)"
proof -
  let ?np = "pp_numaParam param 0" and ?kb = "page_kb mc"
  let ?pages = "pages (nat (np_nid ?np))"
  define a1 where "a1 = fold (\<lambda>i attr. set_ratio i r (np_ratio ?np) attr) (locals nr) attr"
  define a2 where "a2 = ClearSingleRemoteTarget a1 r nr"
  define a3 where "a3 = AccountExistingRemotePages a2 r pages ?pages nr"
  define k where "k = np_memSize ?np div ?kb"
  have attr': "attr' = AddAttrL2 mc (set_migrateParam 0 (np_nid ?np) (np_memSize ?np) (SetSingleRemoteTargetPages mc a3 r pages k nr)) (np_nid ?np)"
    using res unfolding SetSingleRemoteNumaConfig_def Let_def a1_def a2_def a3_def r_def k_def page_kb_def KBToHugePage_def KBToNormalPage_def
    by (auto split: if_splits)
  have l1: "InAttrL1 a1 = InAttrL1 attr" unfolding a1_def by (rule fold_keeps) simp
  have l2: "InAttrL1 a2 i0" using i0(2) l1 clear_single(2) [OF nr] by (simp add: a2_def)
  have z: "account a2 i r = 0" "memSize a2 i r = 0" if "i < nat nr" for i using clear_single(1) [OF nr that] by (simp_all add: a2_def)
  note ex = existing_account_sum [OF nr i0(1) l2 z(1) small, of pages, folded a3_def]
  have l3: "InAttrL1 a3 i0" using l2 ex(3) by simp
  have z3: "memSize a3 i r = 0" if "i < nat nr" for i using z(2) [OF that] ex(2) by simp
  have kk: "unat k = sz div unat ?kb" by (simp add: k_def sz_def unat_div)
  then have kb: "unat k * unat ?kb = sz - sz mod unat ?kb" by (simp add: minus_mod_eq_div_mult)
  have "sz < 2 ^ 64" by (simp add: sz_def)
  then have fits: "unat k * unat ?kb < 2 ^ 64" using kb by linarith
  note ts = target_size_sum [OF nr i0(1) l3 z3 fits, of pages]
  show "(\<Sum>i\<leftarrow>[0..<nat nr]. unat (account attr' i r)) = unat ?pages" using ts ex(1) by (simp add: attr')
  show "(\<Sum>i\<leftarrow>[0..<nat nr]. unat (memSize attr' i r)) = sz - sz mod unat ?kb" using ts kb by (simp add: attr')
qed

text \<open>C26. A request for a single remote node conserves pages. For a process with a local node, after the
  runtime fields are generated, the account of that remote node over the local nodes adds up to
  the pages observed there (below \<open>2 ^ 32\<close>), and the memory sizes over the local nodes add up to
  the requested size rounded down to whole pages: every page is attributed to exactly one local
  node, whatever the proportions.\<close>

theorem SetSingleRemoteNumaConfig_conserves:
  assumes "SetSingleRemoteNumaConfig mc attr param nr pages = Inr attr'"
    and "0 < nr" "nr \<le> 8" "i0 < nat nr" "InAttrL1 attr i0"
    and "unat (pages (nat (np_nid (pp_numaParam param 0)))) \<le> UINT32_MAX"
  shows "(let np = pp_numaParam param 0; r = nat (np_nid np - nr); sz = unat (np_memSize np) in
    (\<Sum>i\<leftarrow>[0..<nat nr]. unat (account attr' i r)) = unat (pages (nat (np_nid np))) \<and>
    (\<Sum>i\<leftarrow>[0..<nat nr]. unat (memSize attr' i r)) = sz - sz mod unat (page_kb mc))"
  unfolding Let_def by (intro conjI SetSingleRemoteNumaConfig_conserves_parts [OF assms])

definition demo_param :: ProcessParam where
  "demo_param = (TargetConfigToProcessParam ProcessAttr_zero ProcessTargetConfig_zero)
     \<lparr>pp_count := 1, pp_numaParam := (\<lambda>_. NumaParam_zero)(0 := \<lparr>np_nid = 5, np_ratio = 0, np_memSize = 80, np_migrateMode = MIG_MEMSIZE_MODE\<rparr>)\<rparr>"

theorem SetSingleRemoteNumaConfig_conserves_witness:
  "\<exists>attr'. SetSingleRemoteNumaConfig demo_machine (ProcessAttr_zero\<lparr>pa_numaAttr := \<lparr>na_numaNodes = 1\<rparr>\<rparr>) demo_param 2
       (ob_numaPages demo_observation) = Inr attr' \<and>
     (\<Sum>i\<leftarrow>[0..<2]. unat (account attr' i 3)) = 7 \<and> (\<Sum>i\<leftarrow>[0..<2]. unat (memSize attr' i 3)) = 80"
proof -
  let ?a = "ProcessAttr_zero\<lparr>pa_numaAttr := \<lparr>na_numaNodes = 1\<rparr>\<rparr>"
  have np: "pp_numaParam demo_param 0 = \<lparr>np_nid = 5, np_ratio = 0, np_memSize = 80, np_migrateMode = MIG_MEMSIZE_MODE\<rparr>"
    by (simp add: demo_param_def)
  obtain a' where a': "SetSingleRemoteNumaConfig demo_machine ?a demo_param 2 (ob_numaPages demo_observation) = Inr a'"
    unfolding SetSingleRemoteNumaConfig_def Let_def np by simp
  have in1: "InAttrL1 ?a 0" by (simp add: InAttrL1_def InL1_iff)
  have kb: "unat (page_kb demo_machine) = 4" by (simp add: page_kb_def demo_machine_def)
  have p: "ob_numaPages demo_observation 5 = 7" by (simp add: demo_observation_def)
  have "unat (ob_numaPages demo_observation (nat (np_nid (pp_numaParam demo_param 0)))) \<le> UINT32_MAX" by (simp add: np p)
  note c = SetSingleRemoteNumaConfig_conserves [OF a' _ _ _ in1 this]
  show ?thesis using a' c kb p by (simp add: np Let_def)
qed

end
