(* ===== verification/Remote_State.thy ===== *)
theory Remote_State
  imports Target_Apply
begin

text \<open>
  The state of the remote nodes and of the processes that use them
  (\<^verbatim>\<open>plugins/smap/src/user/manage/manage_remote.c\<close>, lines 761 to 1392): the borrowed sizes and the
  wait for a memory return, the switch between migration and relocation, the relocation of all
  processes of one remote node to another, and the end of a migrate-out.

  Loops that wait for another thread read the shared state again and again: the state that the
  n-th look at it finds is an argument, a function of \<open>n\<close>, so a theorem about every such function
  is about everything the other threads may do meanwhile. Sleeping is left out.
\<close>

abbreviation nrl :: "ProcessManager \<Rightarrow> int" where
  "nrl manager \<equiv> uint (pm_nrLocalNuma manager)"

definition MBToPage :: "u32 \<Rightarrow> u64 \<Rightarrow> u64" where
  "MBToPage pageSize sizeMB = sizeMB * 1048576 div ucast pageSize"

section \<open>Borrowed sizes\<close>

text \<open>
  \<open>synced\<close> is the answer of \<^verbatim>\<open>SyncOneNumaConfig\<close>, which stores the size in the configuration file.
  The loop over the remote nodes recomputes the page counts of all of them.
\<close>

definition refresh_remote_size :: "u32 \<Rightarrow> nat \<Rightarrow> nat \<Rightarrow> RemoteNumaInfo \<Rightarrow> RemoteNumaInfo" where
  "refresh_remote_size pageSize nr j info =
     (let used = (ri_usedInfo info j)\<lparr>ru_ifUsedFreshed := False, ru_size := MBToPage pageSize (ri_sharedSize info j)\<rparr>;
          info = info\<lparr>ri_usedInfo := (ri_usedInfo info)(j := used)\<rparr>
      in fold (\<lambda>i info.
           let pages = MBToPage pageSize (ri_privateSize info i j);
               total = (ri_usedInfo info j)\<lparr>ru_size := ru_size (ri_usedInfo info j) + pages\<rparr>;
               private = (ri_privateUsedInfo info i j)\<lparr>ru_ifUsedFreshed := False, ru_size := pages\<rparr>
           in info\<lparr>ri_usedInfo := (ri_usedInfo info)(j := total),
                   ri_privateUsedInfo := put2 i j private (ri_privateUsedInfo info)\<rparr>)
         [0..<nr] info)"

definition SetRemoteNumaInfo :: "errno option \<Rightarrow> ProcessManager \<Rightarrow> int \<Rightarrow> int \<Rightarrow> u64 \<Rightarrow> errno option \<times> ProcessManager" where
  "SetRemoteNumaInfo synced manager srcNid destNid sizeMB =
     (case synced of
        Some _ \<Rightarrow> (Some EBADF, manager)
      | None \<Rightarrow>
          let column = nat (destNid - nrl manager); info = pm_remoteNumaInfo manager;
              info = (if srcNid = -1 then info\<lparr>ri_sharedSize := (ri_sharedSize info)(column := sizeMB)\<rparr>
                      else info\<lparr>ri_privateSize := put2 (nat srcNid) column sizeMB (ri_privateSize info)\<rparr>)
          in (None, manager\<lparr>pm_remoteNumaInfo :=
                fold (refresh_remote_size (pm_pageSize manager) (nat (nrl manager))) [0..<REMOTE_NUMA_NUM] info\<rparr>))"

section \<open>Waiting for a memory return\<close>

text \<open>
  The waiting loops look at the shared sizes under a lock. \<open>look n\<close> is what the n-th look finds; a
  function that looks returns its answer and the number of the next look.
\<close>

fun private_pass :: "nat list \<Rightarrow> nat \<Rightarrow> RemoteNumaInfo \<Rightarrow> bool option" where
  "private_pass [] column info = None"
| "private_pass (i # is) column info =
     (let usedInfo = ri_privateUsedInfo info i column in
      if \<not> ru_ifUsedFreshed usedInfo then None
      else if ru_used usedInfo > ru_size usedInfo then Some False
      else if is = [] then Some True
      else private_pass is column info)"

definition borrow_pass :: "nat \<Rightarrow> RemoteNumaInfo \<Rightarrow> bool option" where
  "borrow_pass column info =
     (let usedInfo = ri_usedInfo info column in
      if \<not> ru_ifUsedFreshed usedInfo then None else Some (\<not> ru_used usedInfo > ru_size usedInfo))"

text \<open>Up to \<open>count\<close> looks until one of them decides.\<close>

fun poll :: "(RemoteNumaInfo \<Rightarrow> bool option) \<Rightarrow> nat \<Rightarrow> (nat \<Rightarrow> RemoteNumaInfo) \<Rightarrow> nat \<Rightarrow> bool \<times> nat" where
  "poll pass 0 look n = (False, n)"
| "poll pass (Suc count) look n =
     (case pass (look n) of Some b \<Rightarrow> (b, Suc n) | None \<Rightarrow> poll pass count look (Suc n))"

definition CheckPrivateBorrowUsed :: "int \<Rightarrow> (nat \<Rightarrow> RemoteNumaInfo) \<Rightarrow> nat \<Rightarrow> int \<Rightarrow> bool \<times> nat" where
  "CheckPrivateBorrowUsed nrLocalNuma look n destNid =
     poll (private_pass [0..<nat nrLocalNuma] (nat (destNid - nrLocalNuma))) 20 look n"

definition CheckBorrowUsed :: "int \<Rightarrow> (nat \<Rightarrow> RemoteNumaInfo) \<Rightarrow> nat \<Rightarrow> int \<Rightarrow> bool \<times> nat" where
  "CheckBorrowUsed nrLocalNuma look n destNid = poll (borrow_pass (nat (destNid - nrLocalNuma))) 20 look n"

fun wait_ready :: "nat \<Rightarrow> int \<Rightarrow> (nat \<Rightarrow> RemoteNumaInfo) \<Rightarrow> nat \<Rightarrow> int \<Rightarrow> bool" where
  "wait_ready 0 nrLocalNuma look n destNid = False"
| "wait_ready (Suc nrWait) nrLocalNuma look n destNid =
     (let (ready, n') =
        (if ri_sharedSize (look n) (nat (destNid - nrLocalNuma)) > 0
         then CheckBorrowUsed nrLocalNuma look (Suc n) destNid
         else CheckPrivateBorrowUsed nrLocalNuma look (Suc n) destNid) in
      if ready then True else wait_ready nrWait nrLocalNuma look n' destNid)"

definition CheckReadyMigrateBack :: "bool \<Rightarrow> int \<Rightarrow> (nat \<Rightarrow> RemoteNumaInfo) \<Rightarrow> int \<Rightarrow> bool" where
  "CheckReadyMigrateBack noProcess nrLocalNuma look destNid =
     (if noProcess then True else wait_ready 60 nrLocalNuma look 0 destNid)"

section \<open>Process states\<close>

abbreviation (input) DISABLE_PROCESS_MIGRATE :: int where "DISABLE_PROCESS_MIGRATE \<equiv> 0"
abbreviation (input) ENABLE_PROCESS_MIGRATE :: int where "ENABLE_PROCESS_MIGRATE \<equiv> 1"

fun IsPidArrayStateChangeReady :: "ProcessManager \<Rightarrow> int list \<Rightarrow> int \<Rightarrow> bool" where
  "IsPidArrayStateChangeReady manager [] enable = True"
| "IsPidArrayStateChangeReady manager (pid # pidArr) enable =
     (case GetProcessAttr manager pid of
        None \<Rightarrow> IsPidArrayStateChangeReady manager pidArr enable
      | Some attr \<Rightarrow>
          if enable = DISABLE_PROCESS_MIGRATE \<and> pa_state attr \<noteq> PROC_IDLE \<and> pa_state attr \<noteq> PROC_MOVE then False
          else if enable = ENABLE_PROCESS_MIGRATE \<and> pa_state attr = PROC_BACK then False
          else IsPidArrayStateChangeReady manager pidArr enable)"

fun IsPidArrInState :: "ProcessManager \<Rightarrow> int list \<Rightarrow> ProcessState \<Rightarrow> bool" where
  "IsPidArrInState manager [] state = True"
| "IsPidArrInState manager (pid # pidArr) state =
     (case GetProcessAttr manager pid of
        None \<Rightarrow> IsPidArrInState manager pidArr state
      | Some attr \<Rightarrow> if pa_state attr \<noteq> state then False else IsPidArrInState manager pidArr state)"

fun update_first :: "('a \<Rightarrow> bool) \<Rightarrow> ('a \<Rightarrow> 'a) \<Rightarrow> 'a list \<Rightarrow> 'a list" where
  "update_first P f [] = []"
| "update_first P f (x # xs) = (if P x then f x # xs else x # update_first P f xs)"

definition SetPidArrState :: "int list \<Rightarrow> ProcessState \<Rightarrow> int \<Rightarrow> ProcessManager \<Rightarrow> ProcessManager" where
  "SetPidArrState pidArr state enable manager =
     fold (\<lambda>pid manager. manager\<lparr>pm_attrs := update_first (\<lambda>attr. pa_pid attr = pid)
         (\<lambda>attr. if enable = ENABLE_PROCESS_MIGRATE \<and> pa_state attr = PROC_MIGRATE then attr else attr\<lparr>pa_state := state\<rparr>)
         (pm_attrs manager)\<rparr>) pidArr manager"

definition IsAllL2NodePidInState :: "ProcessManager \<Rightarrow> ProcessState \<Rightarrow> int \<Rightarrow> bool" where
  "IsAllL2NodePidInState manager state l2Node \<longleftrightarrow>
     list_all (\<lambda>attr. EqualToAttrL2 (nrl manager) (nodes attr) l2Node \<longrightarrow> pa_state attr = state) (pm_attrs manager)"

text \<open>
  The check and the change of the states are separate: \<open>look n\<close> is what the n-th check sees, and
  \<open>found n\<close> the processes as they are when, after a successful n-th check, the states are set.
  The result is the attempt that succeeded and the processes after it.
\<close>

fun enable_attempts ::
  "(nat \<Rightarrow> ProcessManager) \<Rightarrow> (nat \<Rightarrow> ProcessManager) \<Rightarrow> int list \<Rightarrow> int \<Rightarrow> nat \<Rightarrow> nat \<Rightarrow> errno + nat \<times> ProcessManager" where
  "enable_attempts look found pidArr enable n retry =
     (if IsPidArrayStateChangeReady (look n) pidArr enable
      then Inr (n, SetPidArrState pidArr (if enable = ENABLE_PROCESS_MIGRATE then PROC_IDLE else PROC_MOVE) enable (found n))
      else (case retry of 0 \<Rightarrow> Inl ETIMEDOUT | Suc retry \<Rightarrow> enable_attempts look found pidArr enable (Suc n) retry))"

definition EnableProcessMigrate ::
  "(nat \<Rightarrow> ProcessManager) \<Rightarrow> (nat \<Rightarrow> ProcessManager) \<Rightarrow> int list \<Rightarrow> int \<Rightarrow> errno + nat \<times> ProcessManager" where
  "EnableProcessMigrate look found pidArr enable = enable_attempts look found pidArr enable 0 300"

definition IsRemoteNumaMigrateBackAllowed :: "ProcessManager \<Rightarrow> int \<Rightarrow> errno + bool" where
  "IsRemoteNumaMigrateBackAllowed manager nid =
     (if nid < nrl manager then Inl EINVAL
      else Inr (list_all (\<lambda>attr. EqualToAttrL2 (nrl manager) (nodes attr) nid \<longrightarrow> pa_state attr \<noteq> PROC_MOVE) (pm_attrs manager)))"

definition IsRemoteNumaMoveAllowed :: "ProcessManager \<Rightarrow> int \<Rightarrow> errno + bool" where
  "IsRemoteNumaMoveAllowed manager nid =
     (if nid < nrl manager then Inl EINVAL
      else Inr (list_all (\<lambda>attr. EqualToAttrL2 (nrl manager) (nodes attr) nid \<longrightarrow> pa_state attr = PROC_MOVE) (pm_attrs manager)))"

section \<open>Relocating a remote node\<close>

definition GetCurrentMaxNrPid :: "bool \<Rightarrow> nat" where
  "GetCurrentMaxNrPid hugeMode = (if hugeMode then 100 else 300)"

definition SetChangePidRemoteMsgPayload :: "ProcessManager \<Rightarrow> int \<Rightarrow> int \<Rightarrow> nat \<Rightarrow> AccessAddPidPayload list" where
  "SetChangePidRemoteMsgPayload manager srcNid destNid maxProcessCnt =
     take maxProcessCnt
       (map (\<lambda>attr. \<lparr>ap_pid = pa_pid attr, ap_numaNodes = SetL2ByNid (nrl manager) (nodes attr) destNid,
               ap_scanTime = pa_scanTime attr, ap_duration = pa_duration attr, ap_type = pa_scanType attr,
               ap_pidType = pa_type attr\<rparr>)
         (filter (\<lambda>attr. EqualToAttrL2 (nrl manager) (nodes attr) srcNid) (pm_attrs manager)))"

definition ChangePidRemoteMemoryByNuma :: "nat \<Rightarrow> nat \<Rightarrow> nat \<Rightarrow> ProcessAttr \<Rightarrow> ProcessAttr" where
  "ChangePidRemoteMemoryByNuma nrLocalNuma srcNode destNode attr =
     (let attr = fold (\<lambda>i attr.
            let attr = set_ratio i destNode (sa_initRemoteMemRatio (pa_strategyAttr attr) i srcNode) attr;
                attr = set_ratio i srcNode 0 attr;
                attr = set_memSize i destNode (memSize attr i srcNode) attr
            in set_memSize i srcNode 0 attr) [0..<nrLocalNuma] attr
      in fold (\<lambda>i attr.
           if mg_nid (pa_migrateParam attr i) = int (srcNode + nrLocalNuma)
           then attr\<lparr>pa_migrateParam := (pa_migrateParam attr)(i :=
                  (pa_migrateParam attr i)\<lparr>mg_nid := int (destNode + nrLocalNuma)\<rparr>)\<rparr>
           else attr) [0..<nat (pa_remoteNumaCnt attr)] attr)"

definition MoveProcessTargetConfig :: "int \<Rightarrow> int \<Rightarrow> ProcessAttr \<Rightarrow> ProcessAttr" where
  "MoveProcessTargetConfig srcNid destNid attr =
     (case FindProcessRemoteTarget (pa_targetConfig attr) srcNid of
        None \<Rightarrow> attr
      | Some srcTarget \<Rightarrow>
          let (ret, config) = MoveProcessRemoteTarget (pa_targetConfig attr) srcNid destNid
                (rt_memSizeKB srcTarget) (sint (rt_ratio srcTarget));
              config = (if ret = Inr () \<and> FindProcessRemoteTarget config srcNid \<noteq> None
                        then snd (RemoveProcessRemoteTarget config srcNid) else config)
          in attr\<lparr>pa_targetConfig := config, pa_remoteNumaCnt := int (tc_count config)\<rparr>)"

definition SetAttrL2 :: "int \<Rightarrow> ProcessAttr \<Rightarrow> int \<Rightarrow> ProcessAttr" where
  "SetAttrL2 nrLocalNuma attr nid = attr\<lparr>pa_numaAttr := (pa_numaAttr attr)\<lparr>na_numaNodes := SetL2ByNid nrLocalNuma (nodes attr) nid\<rparr>\<rparr>"

definition relocate_process :: "int \<Rightarrow> int \<Rightarrow> int \<Rightarrow> ProcessAttr \<Rightarrow> ProcessAttr" where
  "relocate_process nrLocalNuma srcNid destNid attr =
     (let srcNode = nat (srcNid - nrLocalNuma); destNode = nat (destNid - nrLocalNuma);
          attr = fold (\<lambda>j attr.
            let attr = set_account j destNode (account attr j destNode + account attr j srcNode) attr
            in set_account j srcNode 0 attr) [0..<nat nrLocalNuma] attr;
          attr = ChangePidRemoteMemoryByNuma (nat nrLocalNuma) srcNode destNode attr;
          attr = MoveProcessTargetConfig srcNid destNid attr
      in SetAttrL2 nrLocalNuma attr destNid)"

text \<open>\<open>ioctl\<close> is the tracking driver.\<close>

definition ChangePidRemoteByNuma ::
  "bool \<Rightarrow> (AccessAddPidPayload list \<Rightarrow> errno option) \<Rightarrow> ProcessManager \<Rightarrow> int \<Rightarrow> int \<Rightarrow> errno option \<times> ProcessManager" where
  "ChangePidRemoteByNuma hugeMode ioctl manager srcNid destNid =
     (let payload = SetChangePidRemoteMsgPayload manager srcNid destNid (GetCurrentMaxNrPid hugeMode) in
      if payload = [] then (None, manager)
      else (case ioctl payload of
              Some e \<Rightarrow> (Some e, manager)
            | None \<Rightarrow>
                (None, manager\<lparr>pm_attrs := map (\<lambda>attr.
                   if EqualToAttrL2 (nrl manager) (nodes attr) srcNid then relocate_process (nrl manager) srcNid destNid attr
                   else attr) (pm_attrs manager)\<rparr>)))"

section \<open>The end of a migrate-out\<close>

definition IsRemoteTargetMigOutDone :: "int \<Rightarrow> ProcessAttr \<Rightarrow> int \<Rightarrow> u64 \<Rightarrow> bool" where
  "IsRemoteTargetMigOutDone nrLocalNuma attr remoteNid targetPages =
     (if remoteNid < 0 \<or> remoteNid \<ge> int MAX_NODES then False
      else
        let remoteIdx = remoteNid - nrLocalNuma;
            accountedPages = (if remoteIdx \<ge> 0 \<and> remoteIdx < int REMOTE_NUMA_NUM
              then fold (\<lambda>l t. t + ucast (account attr l (nat remoteIdx))) [0..<LOCAL_NUMA_NUM] (0 :: u64) else 0);
            remotePages = ucast (nrPages attr (nat remoteNid))
        in if targetPages > 0 \<and> accountedPages = targetPages then True else remotePages = targetPages)"

definition GetRemoteTargetPages :: "Machine \<Rightarrow> ProcessAttr \<Rightarrow> int \<Rightarrow> u64 option" where
  "GetRemoteTargetPages mc attr remoteNid =
     map_option (\<lambda>i. KBToHugePage mc (mg_memSize (pa_migrateParam attr i)))
       (find (\<lambda>i. mg_nid (pa_migrateParam attr i) = remoteNid) [0..<nat (pa_remoteNumaCnt attr)])"

definition IsMultiNumaVm :: "ProcessAttr \<Rightarrow> bool" where
  "IsMultiNumaVm process \<longleftrightarrow> pa_type process = VM_TYPE \<and> (pa_remoteNumaCnt process > 1 \<or> GetL1Count (nodes process) > 1)"

text \<open>The result, the process with its swap flag, and the output parameter when it is set.\<close>

definition MigOutIsDone :: "Machine \<Rightarrow> ProcessAttr \<Rightarrow> bool \<times> ProcessAttr \<times> bool option" where
  "MigOutIsDone mc attr =
     (let attr = attr\<lparr>pa_enableSwap := False\<rparr> in
      if pa_pendingTargetConfigValid attr then (False, attr, Some (IsMultiNumaVm attr))
      else if IsMultiNumaVm attr then
        if list_all (\<lambda>i. IsRemoteTargetMigOutDone (mc_nrLocalNuma mc) attr (mg_nid (pa_migrateParam attr i))
              (KBToHugePage mc (mg_memSize (pa_migrateParam attr i)))) [0..<nat (pa_remoteNumaCnt attr)]
        then (True, attr\<lparr>pa_enableSwap := True\<rparr>, Some True) else (False, attr, Some True)
      else
        let l2Node = GetAttrL2 (mc_nrLocalNuma mc) (nodes attr) in
        if l2Node < mc_nrLocalNuma mc \<or> l2Node \<ge> int MAX_NODES then (False, attr, None)
        else (case GetRemoteTargetPages mc attr l2Node of
                None \<Rightarrow> (False, attr, None)
              | Some remoteNum \<Rightarrow>
                  if wp_nrPage (pa_walkPage attr) \<noteq> 0 \<and> IsRemoteTargetMigOutDone (mc_nrLocalNuma mc) attr l2Node remoteNum
                  then (True, attr\<lparr>pa_enableSwap := True\<rparr>, None) else (False, attr, None)))"

definition IsMemoryLow :: "ProcessManager \<Rightarrow> int \<Rightarrow> bool" where
  "IsMemoryLow manager pid = (case GetProcessAttr manager pid of None \<Rightarrow> False | Some process \<Rightarrow> pa_isLowMem process)"

section \<open>Sizes after an update\<close>

lemma put2_apply [simp]: "put2 i j v m a b = (if a = i \<and> b = j then v else m a b)"
  by (simp add: put2_def)

lemma refresh_one:
  "ri_sharedSize (refresh_remote_size ps nr j info) = ri_sharedSize info"
  "ri_privateSize (refresh_remote_size ps nr j info) = ri_privateSize info"
  "k \<noteq> j \<Longrightarrow> ri_usedInfo (refresh_remote_size ps nr j info) k = ri_usedInfo info k"
  "k \<noteq> j \<Longrightarrow> ri_privateUsedInfo (refresh_remote_size ps nr j info) i k = ri_privateUsedInfo info i k"
  "ri_usedInfo (refresh_remote_size ps nr j info) j =
     (ri_usedInfo info j)\<lparr>ru_ifUsedFreshed := False,
       ru_size := MBToPage ps (ri_sharedSize info j) + (\<Sum>i\<leftarrow>[0..<nr]. MBToPage ps (ri_privateSize info i j))\<rparr>"
  "i < nr \<Longrightarrow> ri_privateUsedInfo (refresh_remote_size ps nr j info) i j =
     (ri_privateUsedInfo info i j)\<lparr>ru_ifUsedFreshed := False, ru_size := MBToPage ps (ri_privateSize info i j)\<rparr>"
proof -
  define start where "start = info\<lparr>ri_usedInfo := (ri_usedInfo info)(j := (ri_usedInfo info j)
    \<lparr>ru_ifUsedFreshed := False, ru_size := MBToPage ps (ri_sharedSize info j)\<rparr>)\<rparr>"
  define f where "f = (\<lambda>i (info :: RemoteNumaInfo). let pages = MBToPage ps (ri_privateSize info i j);
      total = (ri_usedInfo info j)\<lparr>ru_size := ru_size (ri_usedInfo info j) + pages\<rparr>;
      private = (ri_privateUsedInfo info i j)\<lparr>ru_ifUsedFreshed := False, ru_size := pages\<rparr>
    in info\<lparr>ri_usedInfo := (ri_usedInfo info)(j := total), ri_privateUsedInfo := put2 i j private (ri_privateUsedInfo info)\<rparr>)"
  have eq: "refresh_remote_size ps nr j info = fold f [0..<nr] start"
    by (simp add: refresh_remote_size_def start_def f_def Let_def)
  have g: "ri_sharedSize (fold f [0..<n] start) = ri_sharedSize info \<and> ri_privateSize (fold f [0..<n] start) = ri_privateSize info \<and>
    (\<forall>k. k \<noteq> j \<longrightarrow> ri_usedInfo (fold f [0..<n] start) k = ri_usedInfo info k) \<and>
    (\<forall>i k. k \<noteq> j \<or> n \<le> i \<longrightarrow> ri_privateUsedInfo (fold f [0..<n] start) i k = ri_privateUsedInfo info i k) \<and>
    ri_usedInfo (fold f [0..<n] start) j = (ri_usedInfo info j)\<lparr>ru_ifUsedFreshed := False,
       ru_size := MBToPage ps (ri_sharedSize info j) + (\<Sum>i\<leftarrow>[0..<n]. MBToPage ps (ri_privateSize info i j))\<rparr> \<and>
    (\<forall>i<n. ri_privateUsedInfo (fold f [0..<n] start) i j =
       (ri_privateUsedInfo info i j)\<lparr>ru_ifUsedFreshed := False, ru_size := MBToPage ps (ri_privateSize info i j)\<rparr>)" for n
  proof (induction n)
    case 0
    show ?case by (simp add: start_def)
  next
    case (Suc n)
    then show ?case by (auto simp: f_def Let_def less_Suc_eq add.assoc)
  qed
  show "ri_sharedSize (refresh_remote_size ps nr j info) = ri_sharedSize info"
    "ri_privateSize (refresh_remote_size ps nr j info) = ri_privateSize info"
    "k \<noteq> j \<Longrightarrow> ri_usedInfo (refresh_remote_size ps nr j info) k = ri_usedInfo info k"
    "k \<noteq> j \<Longrightarrow> ri_privateUsedInfo (refresh_remote_size ps nr j info) i k = ri_privateUsedInfo info i k"
    "ri_usedInfo (refresh_remote_size ps nr j info) j =
       (ri_usedInfo info j)\<lparr>ru_ifUsedFreshed := False,
         ru_size := MBToPage ps (ri_sharedSize info j) + (\<Sum>i\<leftarrow>[0..<nr]. MBToPage ps (ri_privateSize info i j))\<rparr>"
    "i < nr \<Longrightarrow> ri_privateUsedInfo (refresh_remote_size ps nr j info) i j =
       (ri_privateUsedInfo info i j)\<lparr>ru_ifUsedFreshed := False, ru_size := MBToPage ps (ri_privateSize info i j)\<rparr>"
    unfolding eq using g [of nr] by blast+
qed

lemma refresh_all:
  fixes ps :: u32 and nr :: nat
  defines "info' \<equiv> \<lambda>n info. fold (refresh_remote_size ps nr) [0..<n] info"
  shows "ri_sharedSize (info' n info) = ri_sharedSize info \<and> ri_privateSize (info' n info) = ri_privateSize info \<and>
    (\<forall>j. ri_usedInfo (info' n info) j = (if j < n then (ri_usedInfo info j)\<lparr>ru_ifUsedFreshed := False,
       ru_size := MBToPage ps (ri_sharedSize info j) + (\<Sum>i\<leftarrow>[0..<nr]. MBToPage ps (ri_privateSize info i j))\<rparr>
       else ri_usedInfo info j)) \<and>
    (\<forall>j i. i < nr \<longrightarrow> ri_privateUsedInfo (info' n info) i j = (if j < n then (ri_privateUsedInfo info i j)
       \<lparr>ru_ifUsedFreshed := False, ru_size := MBToPage ps (ri_privateSize info i j)\<rparr> else ri_privateUsedInfo info i j))"
proof (induction n)
  case (Suc n)
  let ?x = "info' n info"
  have s: "info' (Suc n) info = refresh_remote_size ps nr n ?x" by (simp add: info'_def)
  show ?case
  proof (intro conjI allI impI)
    fix j show "ri_usedInfo (info' (Suc n) info) j = (if j < Suc n then (ri_usedInfo info j)\<lparr>ru_ifUsedFreshed := False,
       ru_size := MBToPage ps (ri_sharedSize info j) + (\<Sum>i\<leftarrow>[0..<nr]. MBToPage ps (ri_privateSize info i j))\<rparr>
       else ri_usedInfo info j)"
      using Suc by (cases "j = n") (auto simp: s refresh_one)
  next
    fix j i assume "i < nr"
    then show "ri_privateUsedInfo (info' (Suc n) info) i j = (if j < Suc n then (ri_privateUsedInfo info i j)
       \<lparr>ru_ifUsedFreshed := False, ru_size := MBToPage ps (ri_privateSize info i j)\<rparr> else ri_privateUsedInfo info i j)"
      using Suc by (cases "j = n") (auto simp: s refresh_one)
  qed (use Suc in \<open>simp_all add: s refresh_one\<close>)
qed (simp add: info'_def)

lemma SetRemoteNumaInfo_limits_parts:
  fixes manager :: ProcessManager
  defines "nr \<equiv> nat (nrl manager)" and "ps \<equiv> pm_pageSize manager"
  shows "SetRemoteNumaInfo (Some e) manager srcNid destNid sizeMB = (Some EBADF, manager)"
    and "SetRemoteNumaInfo None manager srcNid destNid sizeMB = (err, manager') \<Longrightarrow>
      (let info = pm_remoteNumaInfo manager'; column = nat (destNid - nrl manager) in
       err = None \<and> (if srcNid = -1 then ri_sharedSize info column = sizeMB else ri_privateSize info (nat srcNid) column = sizeMB) \<and>
       (\<forall>j < 18. \<not> ru_ifUsedFreshed (ri_usedInfo info j) \<and>
         ru_size (ri_usedInfo info j) = MBToPage ps (ri_sharedSize info j) + (\<Sum>i\<leftarrow>[0..<nr]. ru_size (ri_privateUsedInfo info i j)) \<and>
         (\<forall>i < nr. \<not> ru_ifUsedFreshed (ri_privateUsedInfo info i j) \<and>
           ru_size (ri_privateUsedInfo info i j) = MBToPage ps (ri_privateSize info i j))))"
proof -
  show "SetRemoteNumaInfo (Some e) manager srcNid destNid sizeMB = (Some EBADF, manager)" by (simp add: SetRemoteNumaInfo_def)
  assume res: "SetRemoteNumaInfo None manager srcNid destNid sizeMB = (err, manager')"
  let ?column = "nat (destNid - nrl manager)"
  define info0 where "info0 = (let info = pm_remoteNumaInfo manager in
    if srcNid = -1 then info\<lparr>ri_sharedSize := (ri_sharedSize info)(?column := sizeMB)\<rparr>
    else info\<lparr>ri_privateSize := put2 (nat srcNid) ?column sizeMB (ri_privateSize info)\<rparr>)"
  have eq: "err = None" "pm_remoteNumaInfo manager' = fold (refresh_remote_size ps nr) [0..<18] info0"
    using res by (auto simp: SetRemoteNumaInfo_def info0_def ps_def nr_def Let_def split: if_splits)
  note all = refresh_all [of ps nr 18 info0, folded eq(2)]
  have st: "if srcNid = -1 then ri_sharedSize info0 ?column = sizeMB else ri_privateSize info0 (nat srcNid) ?column = sizeMB"
    by (simp add: info0_def Let_def)
  have "(\<Sum>i\<leftarrow>[0..<nr]. ru_size (ri_privateUsedInfo (pm_remoteNumaInfo manager') i j)) =
      (\<Sum>i\<leftarrow>[0..<nr]. MBToPage ps (ri_privateSize info0 i j))" if "j < 18" for j
    using all that by (intro arg_cong [of _ _ sum_list] map_cong) auto
  then show "(let info = pm_remoteNumaInfo manager'; column = nat (destNid - nrl manager) in
       err = None \<and> (if srcNid = -1 then ri_sharedSize info column = sizeMB else ri_privateSize info (nat srcNid) column = sizeMB) \<and>
       (\<forall>j < 18. \<not> ru_ifUsedFreshed (ri_usedInfo info j) \<and>
         ru_size (ri_usedInfo info j) = MBToPage ps (ri_sharedSize info j) + (\<Sum>i\<leftarrow>[0..<nr]. ru_size (ri_privateUsedInfo info i j)) \<and>
         (\<forall>i < nr. \<not> ru_ifUsedFreshed (ri_privateUsedInfo info i j) \<and>
           ru_size (ri_privateUsedInfo info i j) = MBToPage ps (ri_privateSize info i j))))"
    using all st eq(1) unfolding Let_def by simp
qed

text \<open>C31. Setting the borrowed size of a remote node stores it, and afterwards the page limits of every remote
  node agree with the stored sizes: the limit of a local-remote pair is its private size in
  pages, and the limit of a remote node is its shared size and all its private sizes together.
  All usage figures are marked stale, so none taken before the change is compared with the new
  limits. When the size cannot be stored in the configuration, nothing changes.\<close>

theorem SetRemoteNumaInfo_limits:
  fixes manager :: ProcessManager
  defines "nr \<equiv> nat (nrl manager)" and "ps \<equiv> pm_pageSize manager"
  assumes "SetRemoteNumaInfo synced manager srcNid destNid sizeMB = (err, manager')"
  shows "if synced \<noteq> None then err = Some EBADF \<and> manager' = manager
    else (let info = pm_remoteNumaInfo manager'; column = nat (destNid - nrl manager) in
       err = None \<and> (if srcNid = -1 then ri_sharedSize info column = sizeMB else ri_privateSize info (nat srcNid) column = sizeMB) \<and>
       (\<forall>j < 18. \<not> ru_ifUsedFreshed (ri_usedInfo info j) \<and>
         ru_size (ri_usedInfo info j) = MBToPage ps (ri_sharedSize info j) + (\<Sum>i\<leftarrow>[0..<nr]. ru_size (ri_privateUsedInfo info i j)) \<and>
         (\<forall>i < nr. \<not> ru_ifUsedFreshed (ri_privateUsedInfo info i j) \<and>
           ru_size (ri_privateUsedInfo info i j) = MBToPage ps (ri_privateSize info i j))))"
proof (cases synced)
  case None
  then show ?thesis using SetRemoteNumaInfo_limits_parts(2) assms unfolding nr_def ps_def by simp
next
  case (Some e)
  then show ?thesis using SetRemoteNumaInfo_limits_parts(1) assms by simp
qed

text \<open>A machine with two local nodes and one process of pid 7 that uses the remote node 5.\<close>

definition state_demo :: ProcessManager where
  "state_demo = \<lparr>pm_attrs = [ProcessAttr_zero\<lparr>pa_pid := 7, pa_numaAttr := \<lparr>na_numaNodes = 2049\<rparr>\<rparr>], pm_nrLocalNuma = 2,
     pm_pageSize = 4096, pm_migPeriod = 0,
     pm_remoteNumaInfo = \<lparr>ri_privateSize = (\<lambda>_ _. 0), ri_sharedSize = (\<lambda>_. 0),
       ri_usedInfo = (\<lambda>_. \<lparr>ru_size = 0, ru_used = 0, ru_ifUsedFreshed = True\<rparr>),
       ri_privateUsedInfo = (\<lambda>_ _. \<lparr>ru_size = 0, ru_used = 0, ru_ifUsedFreshed = True\<rparr>)\<rparr>\<rparr>"

theorem SetRemoteNumaInfo_limits_witness:
  "ru_size (ri_usedInfo (pm_remoteNumaInfo (snd (SetRemoteNumaInfo None state_demo (-1) 5 100))) 3) =
     MBToPage 4096 (ri_sharedSize (pm_remoteNumaInfo (snd (SetRemoteNumaInfo None state_demo (-1) 5 100))) 3) +
     (\<Sum>i\<leftarrow>[0..<2]. ru_size (ri_privateUsedInfo (pm_remoteNumaInfo (snd (SetRemoteNumaInfo None state_demo (-1) 5 100))) i 3))"
proof -
  obtain e m where em: "SetRemoteNumaInfo None state_demo (-1) 5 100 = (e, m)" by (metis surj_pair)
  have "pm_pageSize state_demo = 4096" "nat (nrl state_demo) = 2" by (simp_all add: state_demo_def)
  then show ?thesis using SetRemoteNumaInfo_limits [OF em] by (simp add: em Let_def)
qed

section \<open>Soundness of the wait\<close>

lemma poll_True:
  "poll pass c look n = (b, n') \<Longrightarrow> n \<le> n' \<and> n' \<le> n + c \<and> (b \<longrightarrow> (\<exists>k. n \<le> k \<and> k < n' \<and> pass (look k) = Some True))"
proof (induction c arbitrary: n)
  case (Suc c)
  show ?case
  proof (cases "pass (look n)")
    case None
    then have "poll pass c look (Suc n) = (b, n')" using Suc.prems by simp
    from Suc.IH [OF this] show ?thesis by (auto intro: Suc_leD)
  next
    case (Some x)
    then show ?thesis using Suc.prems by auto
  qed
qed auto

lemma private_pass_True:
  "private_pass is column info = Some True \<Longrightarrow>
   \<forall>i \<in> set is. ru_ifUsedFreshed (ri_privateUsedInfo info i column) \<and>
     ru_used (ri_privateUsedInfo info i column) \<le> ru_size (ri_privateUsedInfo info i column)"
  by (induction "is" column info rule: private_pass.induct) (auto simp: Let_def split: if_splits)

lemma borrow_pass_True:
  "borrow_pass column info = Some True \<longleftrightarrow>
   ru_ifUsedFreshed (ri_usedInfo info column) \<and> ru_used (ri_usedInfo info column) \<le> ru_size (ri_usedInfo info column)"
  by (auto simp: borrow_pass_def Let_def)

lemma private_pass_fresh:
  "is \<noteq> [] \<Longrightarrow> \<forall>i \<in> set is. ru_ifUsedFreshed (ri_privateUsedInfo info i column) \<and>
     ru_used (ri_privateUsedInfo info i column) \<le> ru_size (ri_privateUsedInfo info i column) \<Longrightarrow>
   private_pass is column info = Some True"
  by (induction "is" column info rule: private_pass.induct) (auto simp: Let_def not_less)

definition returnable :: "int \<Rightarrow> bool \<Rightarrow> int \<Rightarrow> RemoteNumaInfo \<Rightarrow> bool" where
  "returnable nr shared destNid info \<longleftrightarrow>
     (let column = nat (destNid - nr); ok = (\<lambda>u. ru_ifUsedFreshed u \<and> ru_used u \<le> ru_size u) in
      if shared then ok (ri_usedInfo info column) else \<forall>i < nat nr. ok (ri_privateUsedInfo info i column))"

lemma wait_ready_sound:
  "wait_ready w nr look n destNid \<Longrightarrow>
   \<exists>s k. n \<le> s \<and> s < k \<and> k \<le> s + 20 \<and> k < n + w * 21 \<and>
     returnable nr (ri_sharedSize (look s) (nat (destNid - nr)) > 0) destNid (look k)"
proof (induction w arbitrary: n)
  case (Suc w)
  let ?sh = "ri_sharedSize (look n) (nat (destNid - nr)) > 0"
  let ?r = "if ?sh then CheckBorrowUsed nr look (Suc n) destNid else CheckPrivateBorrowUsed nr look (Suc n) destNid"
  obtain ready n' where r: "?r = (ready, n')" by (metis surj_pair)
  have p: "Suc n \<le> n' \<and> n' \<le> Suc n + 20 \<and>
      (ready \<longrightarrow> (\<exists>k. Suc n \<le> k \<and> k < n' \<and> returnable nr ?sh destNid (look k)))"
  proof (cases ?sh)
    case True
    then show ?thesis using poll_True [of _ 20 look "Suc n" ready n'] r
      by (fastforce simp: CheckBorrowUsed_def returnable_def borrow_pass_True Let_def)
  next
    case False
    then have "poll (private_pass [0..<nat nr] (nat (destNid - nr))) 20 look (Suc n) = (ready, n')"
      using r by (simp add: CheckPrivateBorrowUsed_def)
    from poll_True [OF this] show ?thesis using False private_pass_True
      by (fastforce simp: returnable_def Let_def)
  qed
  show ?case
  proof (cases ready)
    case True
    with p obtain k where "Suc n \<le> k" "k < n'" "returnable nr ?sh destNid (look k)" by blast
    then show ?thesis using p by (intro exI [of _ n] exI [of _ k]) auto
  next
    case False
    then have "wait_ready w nr look n' destNid" using Suc.prems r by simp
    from Suc.IH [OF this] obtain s k where "n' \<le> s" "s < k" "k \<le> s + 20" "k < n' + w * 21"
      "returnable nr (ri_sharedSize (look s) (nat (destNid - nr)) > 0) destNid (look k)" by blast
    then show ?thesis using p by (intro exI [of _ s] exI [of _ k]) auto
  qed
qed simp

lemma wait_ready_at_once:
  assumes "0 < nr" "returnable nr (ri_sharedSize (look 0) (nat (destNid - nr)) > 0) destNid (look 1)"
  shows "wait_ready (Suc w) nr look 0 destNid"
proof (cases "ri_sharedSize (look 0) (nat (destNid - nr)) > 0")
  case True
  then have "borrow_pass (nat (destNid - nr)) (look 1) = Some True" using assms(2) by (simp add: borrow_pass_True returnable_def Let_def)
  then show ?thesis using True by (simp add: CheckBorrowUsed_def numeral_eq_Suc)
next
  case False
  then have "private_pass [0..<nat nr] (nat (destNid - nr)) (look 1) = Some True"
    using assms by (intro private_pass_fresh) (auto simp: returnable_def Let_def)
  then show ?thesis using False by (simp add: CheckPrivateBorrowUsed_def numeral_eq_Suc)
qed

text \<open>C30. A memory return is declared ready at once when no process is managed. Otherwise the wait for it ends
  after at most 1260 looks at the sizes, and it only says yes on evidence: one of these looks found the
  usage figures freshly taken and within the limits (the limit of the remote node when it lends shared
  memory, the limits of all its local-remote pairs otherwise), whatever the other threads did meanwhile.
  Evidence is not missed: the wait says yes when it finds it at its first look at the figures.\<close>

theorem CheckReadyMigrateBack_sound:
  fixes look :: "nat \<Rightarrow> RemoteNumaInfo" and nr destNid :: int
  defines "evidence \<equiv> \<lambda>s k. returnable nr (ri_sharedSize (look s) (nat (destNid - nr)) > 0) destNid (look k)"
  shows "(CheckReadyMigrateBack noProcess nr look destNid \<longrightarrow>
      noProcess \<or> (\<exists>s k. s < k \<and> k \<le> s + 20 \<and> k < 1260 \<and> evidence s k)) \<and>
    (noProcess \<or> 0 < nr \<and> evidence 0 1 \<longrightarrow> CheckReadyMigrateBack noProcess nr look destNid)"
proof (intro conjI impI)
  assume "CheckReadyMigrateBack noProcess nr look destNid"
  then show "noProcess \<or> (\<exists>s k. s < k \<and> k \<le> s + 20 \<and> k < 1260 \<and> evidence s k)"
    using wait_ready_sound [of 60 nr look 0 destNid] by (auto simp: CheckReadyMigrateBack_def evidence_def split: if_splits)
next
  assume "noProcess \<or> 0 < nr \<and> evidence 0 1"
  moreover have "wait_ready 60 nr look 0 destNid" if "0 < nr" "evidence 0 1"
    using wait_ready_at_once [of nr look destNid 59] that by (simp add: evidence_def)
  ultimately show "CheckReadyMigrateBack noProcess nr look destNid" by (auto simp: CheckReadyMigrateBack_def)
qed

text \<open>Usage figures that are stale at the first two looks.\<close>

definition look_demo :: "nat \<Rightarrow> RemoteNumaInfo" where
  "look_demo n = (pm_remoteNumaInfo state_demo)\<lparr>ri_privateUsedInfo := (\<lambda>_ _. \<lparr>ru_size = 8, ru_used = 5, ru_ifUsedFreshed = (2 \<le> n)\<rparr>)\<rparr>"

theorem CheckReadyMigrateBack_sound_witness:
  "CheckReadyMigrateBack False 2 look_demo 5 \<and>
   (\<exists>s k. s < k \<and> k \<le> s + 20 \<and> k < (1260 :: nat) \<and> returnable 2 (ri_sharedSize (look_demo s) (nat (5 - 2)) > 0) 5 (look_demo k))"
proof -
  have "[0..<2] = [0, 1 :: nat]" by (simp add: upt_rec)
  then have pass: "private_pass [0..<2] 3 (look_demo (Suc 0)) = None" "private_pass [0..<2] 3 (look_demo (Suc (Suc 0))) = Some True"
    by (simp_all add: look_demo_def)
  have "poll (private_pass [0..<2] 3) (Suc (Suc 18)) look_demo (Suc 0) = (True, Suc (Suc (Suc 0)))"
    unfolding poll.simps pass option.case ..
  then have "CheckPrivateBorrowUsed 2 look_demo (Suc 0) 5 = (True, Suc (Suc (Suc 0)))" by (simp add: CheckPrivateBorrowUsed_def)
  moreover have "\<not> ri_sharedSize (look_demo 0) 3 > 0" by (simp add: look_demo_def state_demo_def)
  ultimately have "wait_ready (Suc w) 2 look_demo 0 5" for w by simp
  from this [of 59] have "CheckReadyMigrateBack False 2 look_demo 5" by (simp add: CheckReadyMigrateBack_def)
  moreover from this CheckReadyMigrateBack_sound [of False 2 look_demo 5]
  have "\<exists>s k. s < k \<and> k \<le> s + 20 \<and> k < (1260 :: nat) \<and> returnable 2 (ri_sharedSize (look_demo s) (nat (5 - 2)) > 0) 5 (look_demo k)"
    by simp
  ultimately show ?thesis ..
qed

section \<open>Enabling and disabling migration\<close>

lemma GetProcessAttr_Some:
  assumes "distinct (map pa_pid (pm_attrs manager))" "a \<in> set (pm_attrs manager)"
  shows "GetProcessAttr manager (pa_pid a) = Some a"
proof -
  have "find (\<lambda>x. pa_pid x = pa_pid a) xs = Some a" if "distinct (map pa_pid xs)" "a \<in> set xs" for xs
    using that by (induction xs) auto
  then show ?thesis using assms by (simp add: GetProcessAttr_def)
qed

lemma ready_iff:
  "IsPidArrayStateChangeReady manager pidArr enable \<longleftrightarrow>
   (\<forall>pid \<in> set pidArr. \<forall>a. GetProcessAttr manager pid = Some a \<longrightarrow>
      \<not> (enable = 0 \<and> pa_state a \<noteq> PROC_IDLE \<and> pa_state a \<noteq> PROC_MOVE) \<and> \<not> (enable = 1 \<and> pa_state a = PROC_BACK))"
  by (induction pidArr) (auto split: option.splits)

lemma update_first_map:
  "distinct (map key xs) \<Longrightarrow> update_first (\<lambda>x. key x = k) f xs = map (\<lambda>x. if key x = k then f x else x) xs"
proof (induction xs)
  case (Cons x xs)
  have "map (\<lambda>x. if key x = k then f x else x) xs = xs" if "key x = k"
    using Cons.prems that by (intro map_idI) (auto simp: image_iff)
  with Cons show ?case by auto
qed simp

definition set_state :: "ProcessState \<Rightarrow> int \<Rightarrow> ProcessAttr \<Rightarrow> ProcessAttr" where
  "set_state state enable attr = (if enable = 1 \<and> pa_state attr = PROC_MIGRATE then attr else attr\<lparr>pa_state := state\<rparr>)"

lemma set_state_simps [simp]:
  "pa_pid (set_state st en a) = pa_pid a" "pa_numaAttr (set_state st en a) = pa_numaAttr a"
  by (simp_all add: set_state_def)

text \<open>Setting the states of a list of pids changes exactly the processes with these pids.\<close>

lemma SetPidArrState_map:
  assumes "distinct (map pa_pid (pm_attrs manager))" and "state \<noteq> PROC_MIGRATE"
  shows "SetPidArrState pidArr state enable manager = manager\<lparr>pm_attrs :=
    map (\<lambda>a. if pa_pid a \<in> set pidArr then set_state state enable a else a) (pm_attrs manager)\<rparr>"
  using assms(1)
proof (induction pidArr arbitrary: manager)
  case Nil
  then show ?case by (simp add: SetPidArrState_def)
next
  case (Cons pid pidArr)
  let ?g = "set_state state enable"
  let ?m = "manager\<lparr>pm_attrs := map (\<lambda>a. if pa_pid a = pid then ?g a else a) (pm_attrs manager)\<rparr>"
  have "SetPidArrState (pid # pidArr) state enable manager = SetPidArrState pidArr state enable ?m"
    using update_first_map [OF Cons.prems, of pid ?g] by (simp add: SetPidArrState_def set_state_def [abs_def])
  moreover have "distinct (map pa_pid (pm_attrs ?m))" using Cons.prems by (simp add: comp_def if_distrib cong: if_cong)
  moreover have "?g (?g a) = ?g a" for a using assms(2) by (auto simp: set_state_def)
  ultimately show ?case using Cons.IH [of ?m] by auto
qed

declare enable_attempts.simps [simp del]

lemma enable_attempts_Suc:
  "\<not> IsPidArrayStateChangeReady (look n) pidArr enable \<Longrightarrow>
   enable_attempts look found pidArr enable n (Suc retry) = enable_attempts look found pidArr enable (Suc n) retry"
  by (subst enable_attempts.simps) simp

lemma enable_attempts_Inl:
  "enable_attempts look found pidArr enable n retry = Inl e \<Longrightarrow>
   e = ETIMEDOUT \<and> (\<forall>k. n \<le> k \<and> k \<le> n + retry \<longrightarrow> \<not> IsPidArrayStateChangeReady (look k) pidArr enable)"
proof (induction retry arbitrary: n)
  case 0
  then show ?case by (subst (asm) enable_attempts.simps) (auto split: if_splits dest: le_antisym)
next
  case (Suc retry)
  then have r: "\<not> IsPidArrayStateChangeReady (look n) pidArr enable" "enable_attempts look found pidArr enable (Suc n) retry = Inl e"
    by (subst (asm) (2) enable_attempts.simps, auto split: if_splits)+
  from Suc.IH [OF r(2)] r(1) show ?case by (metis add_Suc_shift le_antisym not_less_eq_eq)
qed

lemma enable_attempts_Inr:
  "enable_attempts look found pidArr enable n retry = Inr (k, m) \<Longrightarrow>
   k \<le> n + retry \<and> IsPidArrayStateChangeReady (look k) pidArr enable \<and>
   m = SetPidArrState pidArr (if enable = 1 then PROC_IDLE else PROC_MOVE) enable (found k)"
proof (induction retry arbitrary: n)
  case 0
  then show ?case by (subst (asm) enable_attempts.simps) (auto split: if_splits)
next
  case (Suc retry)
  show ?case
  proof (cases "IsPidArrayStateChangeReady (look n) pidArr enable")
    case True
    then show ?thesis using Suc.prems by (subst (asm) enable_attempts.simps) auto
  next
    case False
    then have "enable_attempts look found pidArr enable (Suc n) retry = Inr (k, m)"
      using Suc.prems by (simp add: enable_attempts_Suc)
    from Suc.IH [OF this] show ?thesis by simp
  qed
qed

lemma EnableProcessMigrate_disables_parts:
  fixes pidArr :: "int list"
  shows "EnableProcessMigrate look found pidArr 0 = Inl e \<Longrightarrow>
      e = ETIMEDOUT \<and> (\<forall>k \<le> 300. \<not> IsPidArrayStateChangeReady (look k) pidArr 0)"
    and "EnableProcessMigrate look found pidArr 0 = Inr (n, manager) \<Longrightarrow> found n = look n \<Longrightarrow>
      distinct (map pa_pid (pm_attrs (look n))) \<Longrightarrow> nrl (look n) \<le> nid \<Longrightarrow>
      (\<forall>a \<in> set (pm_attrs (look n)). EqualToAttrL2 (nrl (look n)) (nodes a) nid \<longrightarrow> pa_pid a \<in> set pidArr) \<Longrightarrow>
      n \<le> 300 \<and> (\<forall>a \<in> set (pm_attrs (look n)). pa_pid a \<in> set pidArr \<longrightarrow> pa_state a = PROC_IDLE \<or> pa_state a = PROC_MOVE) \<and>
      IsRemoteNumaMoveAllowed manager nid = Inr True \<and>
      (IsRemoteNumaMigrateBackAllowed manager nid = Inr True \<longleftrightarrow>
        (\<forall>a \<in> set (pm_attrs manager). \<not> EqualToAttrL2 (nrl manager) (nodes a) nid))"
proof -
  assume "EnableProcessMigrate look found pidArr 0 = Inl e"
  then show "e = ETIMEDOUT \<and> (\<forall>k \<le> 300. \<not> IsPidArrayStateChangeReady (look k) pidArr 0)"
    using enable_attempts_Inl [of look found pidArr 0 0 300] by (simp add: EnableProcessMigrate_def)
next
  assume res: "EnableProcessMigrate look found pidArr 0 = Inr (n, manager)" and same: "found n = look n"
    and dist: "distinct (map pa_pid (pm_attrs (look n)))" and nid: "nrl (look n) \<le> nid"
    and cover: "\<forall>a \<in> set (pm_attrs (look n)). EqualToAttrL2 (nrl (look n)) (nodes a) nid \<longrightarrow> pa_pid a \<in> set pidArr"
  from res have s: "n \<le> 300" "IsPidArrayStateChangeReady (look n) pidArr 0" "manager = SetPidArrState pidArr PROC_MOVE 0 (look n)"
    using enable_attempts_Inr [of look found pidArr 0 0 300 n manager] same by (simp_all add: EnableProcessMigrate_def)
  have m: "manager = (look n)\<lparr>pm_attrs := map (\<lambda>a. if pa_pid a \<in> set pidArr then set_state PROC_MOVE 0 a else a) (pm_attrs (look n))\<rparr>"
    using SetPidArrState_map [OF dist, of PROC_MOVE pidArr 0] by (simp add: s(3))
  have moved: "pa_state a = PROC_MOVE" if "a \<in> set (pm_attrs manager)" "EqualToAttrL2 (nrl manager) (nodes a) nid" for a
    using that cover by (auto simp: m set_state_def split: if_splits)
  have ready: "\<forall>a \<in> set (pm_attrs (look n)). pa_pid a \<in> set pidArr \<longrightarrow> pa_state a = PROC_IDLE \<or> pa_state a = PROC_MOVE"
    using s(2) GetProcessAttr_Some [OF dist] unfolding ready_iff by blast
  have nid': "\<not> nid < nrl manager" using nid by (simp add: m)
  show "n \<le> 300 \<and> (\<forall>a \<in> set (pm_attrs (look n)). pa_pid a \<in> set pidArr \<longrightarrow> pa_state a = PROC_IDLE \<or> pa_state a = PROC_MOVE) \<and>
      IsRemoteNumaMoveAllowed manager nid = Inr True \<and>
      (IsRemoteNumaMigrateBackAllowed manager nid = Inr True \<longleftrightarrow>
        (\<forall>a \<in> set (pm_attrs manager). \<not> EqualToAttrL2 (nrl manager) (nodes a) nid))"
    using s(1) ready moved nid' unfolding IsRemoteNumaMoveAllowed_def IsRemoteNumaMigrateBackAllowed_def list_all_iff
    by auto
qed

text \<open>C29. Disabling the migration of processes checks at most 301 times whether every listed process is idle or
  already relocating, and gives up with \<^verbatim>\<open>ETIMEDOUT\<close> only when none of the checks found it so. When it
  succeeds, and no process changed between the check and the change, then no listed process was
  migrating, and once all processes that use a remote node were listed, that node may be
  relocated, and its memory may not be returned as long as one of them uses it.\<close>

theorem EnableProcessMigrate_disables:
  fixes pidArr :: "int list"
  shows "case EnableProcessMigrate look found pidArr 0 of
      Inl e \<Rightarrow> e = ETIMEDOUT \<and> (\<forall>k \<le> 300. \<not> IsPidArrayStateChangeReady (look k) pidArr 0)
    | Inr (n, manager) \<Rightarrow> n \<le> 300 \<and>
        (found n = look n \<and> distinct (map pa_pid (pm_attrs (look n))) \<and> nrl (look n) \<le> nid \<and>
         (\<forall>a \<in> set (pm_attrs (look n)). EqualToAttrL2 (nrl (look n)) (nodes a) nid \<longrightarrow> pa_pid a \<in> set pidArr) \<longrightarrow>
         (\<forall>a \<in> set (pm_attrs (look n)). pa_pid a \<in> set pidArr \<longrightarrow> pa_state a = PROC_IDLE \<or> pa_state a = PROC_MOVE) \<and>
         IsRemoteNumaMoveAllowed manager nid = Inr True \<and>
         (IsRemoteNumaMigrateBackAllowed manager nid = Inr True \<longleftrightarrow>
           (\<forall>a \<in> set (pm_attrs manager). \<not> EqualToAttrL2 (nrl manager) (nodes a) nid)))"
proof (cases "EnableProcessMigrate look found pidArr 0")
  case (Inl e)
  then show ?thesis using EnableProcessMigrate_disables_parts(1) [OF Inl] by simp
next
  case (Inr r)
  obtain n manager where r: "r = (n, manager)" by (cases r)
  note res = Inr [unfolded r]
  have "n \<le> 300" using enable_attempts_Inr [of look found pidArr 0 0 300 n manager] res by (simp add: EnableProcessMigrate_def)
  then show ?thesis using EnableProcessMigrate_disables_parts(2) [OF res, of nid] unfolding res sum.case prod.case by blast
qed

theorem EnableProcessMigrate_disables_witness:
  "\<exists>m. EnableProcessMigrate (\<lambda>_. state_demo) (\<lambda>_. state_demo) [7] 0 = Inr (0, m) \<and> IsRemoteNumaMoveAllowed m 5 = Inr True"
proof -
  let ?m = "SetPidArrState [7] PROC_MOVE 0 state_demo"
  have r: "EnableProcessMigrate (\<lambda>_. state_demo) (\<lambda>_. state_demo) [7] 0 = Inr (0, ?m)"
    unfolding EnableProcessMigrate_def
    by (subst enable_attempts.simps) (simp add: GetProcessAttr_def state_demo_def ProcessAttr_zero_def)
  have "IsRemoteNumaMoveAllowed ?m 5 = Inr True"
    using EnableProcessMigrate_disables [where look = "\<lambda>_. state_demo" and found = "\<lambda>_. state_demo" and pidArr = "[7]" and nid = 5] unfolding r by (simp add: state_demo_def)
  with r show ?thesis by blast
qed

section \<open>Relocation of a remote node\<close>

lemma FindProcessRemoteTarget_Some:
  assumes "FindProcessRemoteTarget c nid = Some t"
  shows "\<exists>i < tc_count c. tc_targets c i = t \<and> rt_remoteNid t = nid" and "tc_count c \<le> 18"
proof -
  show "tc_count c \<le> 18" using assms by (auto simp: FindProcessRemoteTarget_def split: if_splits)
  obtain i where "find (\<lambda>i. rt_remoteNid (tc_targets c i) = nid) [0..<tc_count c] = Some i" "t = tc_targets c i"
    using assms by (auto simp: FindProcessRemoteTarget_def split: if_splits)
  then show "\<exists>i < tc_count c. tc_targets c i = t \<and> rt_remoteNid t = nid" by (auto simp: find_upt_bit)
qed

lemma nat_sint_u32: "0 \<le> sint w \<Longrightarrow> nat (sint w) = unat (w :: u32)"
proof -
  assume nn: "0 \<le> sint w"
  have "uint w = take_bit 32 (sint w)" using unsigned_of_int [of "sint w", where ?'b = 32 and ?'a = int] by simp
  also have "\<dots> = sint w" using nn sint_less [of w] by (simp add: take_bit_int_eq_self)
  finally show ?thesis by (metis nat_uint_eq)
qed

text \<open>A move of a whole target either succeeds or leaves the configuration as it was.\<close>

lemma move_all_fails:
  assumes dist: "config_distinct c" and t: "FindProcessRemoteTarget c src = Some t"
    and res: "MoveProcessRemoteTarget c src dest (rt_memSizeKB t) (sint (rt_ratio t)) = (Inl e, c')"
  shows "c' = c"
proof -
  obtain i where i: "i < tc_count c" "tc_targets c i = t" "rt_remoteNid t = src" using FindProcessRemoteTarget_Some(1) [OF t] by blast
  have s: "s = i" if "find_last_target c src = Some s" for s
    using find_last_target_Some [OF that] i dist unfolding config_distinct_iff by (metis linorder_neq_iff)
  have r: "nat (sint (rt_ratio t)) = unat (rt_ratio t)" if "\<not> sint (rt_ratio t) < 0"
    using that by (simp add: nat_sint_u32)
  have m: "snd (move_amount c src s d k) = c" if "fst (move_amount c src s d k) = Inl e" for s d k
    using that by (auto simp: move_amount_def Let_def split: if_splits)
  show ?thesis
    using res s i(2) r m unfolding MoveProcessRemoteTarget_def
    by (auto simp: Let_def split: if_splits option.splits) (metis fst_conv snd_conv)+
qed

lemma MoveProcessTargetConfig_amount:
  assumes dist: "config_distinct (pa_targetConfig a)" and ne: "src \<noteq> dest"
  defines "c \<equiv> pa_targetConfig a" and "c' \<equiv> pa_targetConfig (MoveProcessTargetConfig src dest a)"
  shows "config_amount c' src + config_amount c' dest = config_amount c src + config_amount c dest"
    and "n \<noteq> src \<Longrightarrow> n \<noteq> dest \<Longrightarrow> config_amount c' n = config_amount c n"
proof -
  have "config_amount c' src + config_amount c' dest = config_amount c src + config_amount c dest \<and>
    (n \<noteq> src \<longrightarrow> n \<noteq> dest \<longrightarrow> config_amount c' n = config_amount c n)"
  proof (cases "FindProcessRemoteTarget c src")
    case None
    then show ?thesis by (simp add: c'_def c_def MoveProcessTargetConfig_def)
  next
    case (Some t)
    obtain ret d where mv: "MoveProcessRemoteTarget c src dest (rt_memSizeKB t) (sint (rt_ratio t)) = (ret, d)" by (metis surj_pair)
    have c': "c' = (if ret = Inr () \<and> FindProcessRemoteTarget d src \<noteq> None then snd (RemoveProcessRemoteTarget d src) else d)"
      using Some mv by (simp add: c'_def c_def MoveProcessTargetConfig_def Let_def)
    obtain i where i: "i < tc_count c" "tc_targets c i = t" "rt_remoteNid t = src" using FindProcessRemoteTarget_Some(1) [OF Some] by blast
    have amt: "config_amount c src = target_amount (tc_migrateMode c) t"
      using config_amount_distinct [of c i src] dist i by (simp add: c_def)
    show ?thesis
    proof (cases ret)
      case (Inl e)
      then have "d = c" using move_all_fails [of c src t dest e d] dist Some mv by (simp add: c_def)
      then show ?thesis using Inl by (simp add: c')
    next
      case (Inr u)
      then have ok: "MoveProcessRemoteTarget c src dest (rt_memSizeKB t) (sint (rt_ratio t)) = (Inr (), d)" using mv by simp
      have nn: "0 \<le> sint (rt_ratio t)" using ok by (simp add: MoveProcessRemoteTarget_def split: if_splits)
      then have "nat (sint (rt_ratio t)) = unat (rt_ratio t)" by (rule nat_sint_u32)
      then have req: "move_requested c (rt_memSizeKB t) (sint (rt_ratio t)) = config_amount c src"
        by (simp add: move_requested_def amt target_amount_def)
      note g = MoveProcessRemoteTarget_gen [OF dist [folded c_def] ok refl, unfolded req]
      have rm: "config_amount c' k = (if k = src then 0 else config_amount d k)" if "FindProcessRemoteTarget d src \<noteq> None" for k
      proof -
        have "tc_count d \<le> 18" using that FindProcessRemoteTarget_Some(2) by blast
        then show ?thesis using RemoveProcessRemoteTarget_amount [of d src k] g that Inr by (simp add: c')
      qed
      show ?thesis
      proof (cases "FindProcessRemoteTarget d src = None")
        case True
        then show ?thesis using g [of src] g [of dest] g [of n] ne by (simp add: c')
      next
        case False
        then show ?thesis using rm [of src] rm [of dest] rm [of n] g [of src] g [of dest] g [of n] ne by simp
      qed
    qed
  qed
  then show "config_amount c' src + config_amount c' dest = config_amount c src + config_amount c dest"
    and "n \<noteq> src \<Longrightarrow> n \<noteq> dest \<Longrightarrow> config_amount c' n = config_amount c n" by blast+
qed

text \<open>A valid configuration of which no ratio is negative as a signed number can always be moved as a whole.\<close>

lemma two_of_sum:
  fixes f :: "'a \<Rightarrow> nat"
  assumes "i < length xs" "j < length xs" "i \<noteq> j"
  shows "f (xs ! i) + f (xs ! j) \<le> (\<Sum>x\<leftarrow>xs. f x)"
proof -
  have "f (xs ! i) + f (xs ! j) = (\<Sum>k\<in>{i, j}. f (xs ! k))" using assms(3) by simp
  also have "\<dots> \<le> (\<Sum>k\<in>{..<length xs}. f (xs ! k))" using assms by (intro sum_mono2) auto
  finally show ?thesis by (simp add: sum_list_sum_nth atLeast0LessThan)
qed

lemma move_all_succeeds:
  assumes v: "valid_config h c" and t: "FindProcessRemoteTarget c src = Some t" and r: "0 \<le> sint (rt_ratio t)" and ne: "src \<noteq> dest"
  shows "\<exists>d. MoveProcessRemoteTarget c src dest (rt_memSizeKB t) (sint (rt_ratio t)) = (Inr (), d)"
proof -
  let ?m = "target_amount (tc_migrateMode c) t"
  obtain i where i: "i < tc_count c" "tc_targets c i = t" "rt_remoteNid t = src" using FindProcessRemoteTarget_Some(1) [OF t] by blast
  have dist: "config_distinct c" and count: "tc_count c \<le> 18" and mode: "tc_migrateMode c \<noteq> MIG_OTHER_MODE" using v by (simp_all add: valid_config_def)
  have "find_last_target c src \<noteq> None" using i unfolding find_last_target_None by blast
  then obtain s where s: "find_last_target c src = Some s" by blast
  then have si: "s = i" using find_last_target_Some [OF s] i dist unfolding config_distinct_iff by (metis linorder_neq_iff)
  have amount: "(if tc_migrateMode c = MIG_RATIO_MODE then nat (sint (rt_ratio t)) else unat (rt_memSizeKB t)) = ?m"
    using r by (simp add: target_amount_def nat_sint_u32)
  have fits: "\<exists>d'. move_amount c src i d ?m = (Inr (), d')" if d: "find_last_target c dest = Some d" for d
  proof -
    have d': "d < tc_count c" "rt_remoteNid (tc_targets c d) = dest" using find_last_target_Some [OF d] by auto
    then have id: "i \<noteq> d" using i ne by auto
    show ?thesis
    proof (cases "tc_migrateMode c = MIG_RATIO_MODE")
      case True
      have "unat (rt_ratio (tc_targets c i)) + unat (rt_ratio (tc_targets c d)) \<le> 100"
        using two_of_sum [of i "config_targets c" d "\<lambda>t. unat (rt_ratio t)"] i(1) d'(1) id v True by (simp add: valid_config_def)
      then show ?thesis using True i(2) by (simp add: move_amount_def target_amount_def Let_def)
    next
      case False
      have small: "unat (rt_memSizeKB x) \<le> 2048 * UINT32_MAX + 2048" if "x \<in> set (config_targets c)" for x
      proof -
        have "unat (rt_memSizeKB x) div config_pageSizeKB h \<le> UINT32_MAX" using v False that by (auto simp: valid_config_def list_all_iff)
        moreover have "config_pageSizeKB h \<le> 2048" "0 < config_pageSizeKB h" by (simp_all add: config_pageSizeKB_def)
        ultimately have "unat (rt_memSizeKB x) < (UINT32_MAX + 1) * config_pageSizeKB h"
          by (metis Suc_eq_plus1 div_less_iff_less_mult le_imp_less_Suc)
        also have "\<dots> \<le> (UINT32_MAX + 1) * 2048" using \<open>config_pageSizeKB h \<le> 2048\<close> by (intro mult_le_mono2)
        finally show ?thesis by simp
      qed
      have "t \<in> set (config_targets c)" "tc_targets c d \<in> set (config_targets c)"
        using i d'(1) by (auto simp: config_targets_def)
      from small [OF this(1)] small [OF this(2)] show ?thesis using False i(2)
        by (simp add: move_amount_def target_amount_def Let_def)
    qed
  qed
  have src: "(if tc_migrateMode c = MIG_RATIO_MODE then unat (rt_ratio t) else unat (rt_memSizeKB t)) = ?m" by (simp add: target_amount_def)
  show ?thesis unfolding MoveProcessRemoteTarget_def s si Let_def option.case i(2) amount src
    using count ne mode r fits by (cases "tc_migrateMode c") (auto split: option.splits)
qed

text \<open>After the move the configuration asks for nothing on the source and for both amounts on the destination.\<close>

lemma MoveProcessTargetConfig_exact:
  assumes v: "valid_config h (pa_targetConfig a)" and r: "\<forall>t \<in> set (config_targets (pa_targetConfig a)). 0 \<le> sint (rt_ratio t)" and ne: "src \<noteq> dest"
  defines "c \<equiv> pa_targetConfig a" and "c' \<equiv> pa_targetConfig (MoveProcessTargetConfig src dest a)"
  shows "config_amount c' n = (if n = src then 0 else if n = dest then config_amount c dest + config_amount c src else config_amount c n)"
    and "FindProcessRemoteTarget c' src = None"
proof -
  have "config_amount c' src = 0 \<and> FindProcessRemoteTarget c' src = None"
  proof (cases "FindProcessRemoteTarget c src")
    case None
    have "tc_count c \<le> 18" using v by (simp add: c_def valid_config_def)
    then have "\<forall>i < tc_count c. rt_remoteNid (tc_targets c i) \<noteq> src"
      using None by (auto simp: FindProcessRemoteTarget_def find_None_iff)
    then have "config_amount c src = 0" by (rule config_amount_absent)
    then show ?thesis using None by (simp add: c'_def c_def MoveProcessTargetConfig_def)
  next
    case (Some t)
    obtain i where i: "i < tc_count c" "tc_targets c i = t" using FindProcessRemoteTarget_Some(1) [OF Some] by blast
    then have tin: "t \<in> set (config_targets c)" by (auto simp: config_targets_def)
    have r0: "0 \<le> sint (rt_ratio t)" using r tin by (simp add: c_def)
    have dist: "config_distinct c" using v by (simp add: c_def valid_config_def)
    obtain d where mv: "MoveProcessRemoteTarget c src dest (rt_memSizeKB t) (sint (rt_ratio t)) = (Inr (), d)"
      using move_all_succeeds [OF v [folded c_def] Some r0 ne] by blast
    have c': "c' = (if FindProcessRemoteTarget d src \<noteq> None then snd (RemoveProcessRemoteTarget d src) else d)"
      using Some mv by (simp add: c'_def c_def MoveProcessTargetConfig_def Let_def)
    have amt: "config_amount c src = target_amount (tc_migrateMode c) t"
      using config_amount_distinct [of c i src] dist i FindProcessRemoteTarget_Some(1) [OF Some] by auto
    have req: "move_requested c (rt_memSizeKB t) (sint (rt_ratio t)) = config_amount c src"
      using r0 by (simp add: move_requested_def amt target_amount_def nat_sint_u32)
    note g = MoveProcessRemoteTarget_gen [OF dist mv refl, unfolded req]
    show ?thesis
    proof (cases "FindProcessRemoteTarget d src = None")
      case True
      then show ?thesis using g [of src] by (simp add: c')
    next
      case False
      then have count: "tc_count d \<le> 18" using FindProcessRemoteTarget_Some(2) by blast
      have dd: "config_distinct d" using g by blast
      have "\<forall>t \<in> set (config_targets (snd (RemoveProcessRemoteTarget d src))). rt_remoteNid t \<noteq> src"
        using RemoveProcessRemoteTarget_filter(2) [OF count dd, of src] by simp
      then have "FindProcessRemoteTarget (snd (RemoveProcessRemoteTarget d src)) src = None"
        by (auto simp: FindProcessRemoteTarget_def find_None_iff config_targets_def)
      then show ?thesis using False RemoveProcessRemoteTarget_amount [OF count dd, of src src] by (simp add: c')
    qed
  qed
  then show "FindProcessRemoteTarget c' src = None" and "config_amount c' n =
      (if n = src then 0 else if n = dest then config_amount c dest + config_amount c src else config_amount c n)"
    using MoveProcessTargetConfig_amount [OF _ ne, of a] v by (auto simp: c_def c'_def valid_config_def)
qed

lemma fold_move_accounts:
  assumes "s \<noteq> d"
  defines "f \<equiv> \<lambda>j a. let a = set_account j d (account a j d + account a j s) a in set_account j s 0 a"
  shows "account (fold f [0..<n] a) j r = (if j < n then (if r = s then 0 else if r = d then account a j d + account a j s else account a j r)
    else account a j r)"
  using assms(1) by (induction n arbitrary: r) (auto simp: f_def Let_def less_Suc_eq)

abbreviation ratio_of :: "ProcessAttr \<Rightarrow> nat \<Rightarrow> nat \<Rightarrow> int" where
  "ratio_of attr \<equiv> sa_initRemoteMemRatio (pa_strategyAttr attr)"

lemma ratio_set [simp]:
  "ratio_of (set_ratio i j q a) k r = (if k = i \<and> r = j then q else ratio_of a k r)"
  "ratio_of (set_memSize i j m a) = ratio_of a" "ratio_of (set_account i j p a) = ratio_of a"
  by (auto simp: set_account_def set_memSize_def set_ratio_def put2_def)

lemma param_set [simp]:
  "pa_migrateParam (set_ratio i j q a) = pa_migrateParam a" "pa_migrateParam (set_memSize i j m a) = pa_migrateParam a"
  "pa_migrateParam (set_account i j p a) = pa_migrateParam a" "pa_remoteNumaCnt (set_ratio i j q a) = pa_remoteNumaCnt a"
  "pa_remoteNumaCnt (set_memSize i j m a) = pa_remoteNumaCnt a" "pa_remoteNumaCnt (set_account i j p a) = pa_remoteNumaCnt a"
  by (simp_all add: set_account_def set_memSize_def set_ratio_def)

text \<open>The sizes and ratios of the source become those of the destination, and the node parameters name the destination.\<close>

definition shifted :: "nat \<Rightarrow> nat \<Rightarrow> nat \<Rightarrow> (nat \<Rightarrow> nat \<Rightarrow> 'v :: zero) \<Rightarrow> (nat \<Rightarrow> nat \<Rightarrow> 'v) \<Rightarrow> bool" where
  "shifted n s d f f' \<longleftrightarrow> (\<forall>j r. f' j r = (if j < n then (if r = s then 0 else if r = d then f j s else f j r) else f j r))"

lemma ChangePidRemoteMemoryByNuma_moves:
  fixes a :: ProcessAttr and n :: nat
  assumes "s \<noteq> d"
  defines "a' \<equiv> ChangePidRemoteMemoryByNuma n s d a"
  shows "shifted n s d (memSize a) (memSize a')" and "shifted n s d (ratio_of a) (ratio_of a')"
    and "pa_migrateParam a' i = (if i < nat (pa_remoteNumaCnt a) \<and> mg_nid (pa_migrateParam a i) = int (s + n)
      then (pa_migrateParam a i)\<lparr>mg_nid := int (d + n)\<rparr> else pa_migrateParam a i)"
    and "pa_remoteNumaCnt a' = pa_remoteNumaCnt a"
proof -
  let ?f = "\<lambda>i attr. let attr = set_ratio i d (ratio_of attr i s) attr;
      attr = set_ratio i s 0 attr; attr = set_memSize i d (memSize attr i s) attr in set_memSize i s 0 attr"
  let ?g = "\<lambda>i attr. if mg_nid (pa_migrateParam attr i) = int (s + n)
       then attr\<lparr>pa_migrateParam := (pa_migrateParam attr)(i := (pa_migrateParam attr i)\<lparr>mg_nid := int (d + n)\<rparr>)\<rparr> else attr"
  define b where "b = fold ?f [0..<n] a"
  have sh: "shifted m s d (memSize a) (memSize (fold ?f [0..<m] a)) \<and> shifted m s d (ratio_of a) (ratio_of (fold ?f [0..<m] a))" for m
    using assms(1) by (induction m) (auto simp: shifted_def Let_def less_Suc_eq)
  have b: "pa_migrateParam b = pa_migrateParam a" "pa_remoteNumaCnt b = pa_remoteNumaCnt a"
    unfolding b_def by (rule fold_keeps, simp add: Let_def)+
  have a': "a' = fold ?g [0..<nat (pa_remoteNumaCnt a)] b"
    unfolding a'_def ChangePidRemoteMemoryByNuma_def b_def [symmetric] Let_def using b(2) by (simp add: b_def Let_def)
  have "memSize a' = memSize b" "ratio_of a' = ratio_of b" "pa_remoteNumaCnt a' = pa_remoteNumaCnt b"
    unfolding a' by (rule fold_keeps, simp)+
  then show "shifted n s d (memSize a) (memSize a')" and "shifted n s d (ratio_of a) (ratio_of a')" and "pa_remoteNumaCnt a' = pa_remoteNumaCnt a"
    using sh [of n] b by (simp_all add: b_def)
  have "pa_migrateParam (fold ?g [0..<m] b) i = (if i < m \<and> mg_nid (pa_migrateParam b i) = int (s + n)
      then (pa_migrateParam b i)\<lparr>mg_nid := int (d + n)\<rparr> else pa_migrateParam b i)" for m i
    by (induction m arbitrary: i) (auto simp: less_Suc_eq)
  then show "pa_migrateParam a' i = (if i < nat (pa_remoteNumaCnt a) \<and> mg_nid (pa_migrateParam a i) = int (s + n)
      then (pa_migrateParam a i)\<lparr>mg_nid := int (d + n)\<rparr> else pa_migrateParam a i)" unfolding a' b(1) .
qed

definition identity :: "ProcessAttr \<Rightarrow> int \<times> PidType \<times> ProcessState \<times> u32 \<times> u32 \<times> ScanType" where
  "identity a = (pa_pid a, pa_type a, pa_state a, pa_scanTime a, pa_duration a, pa_scanType a)"

lemma identity_set [simp]:
  "identity (set_memSize i j m a) = identity a" "identity (set_account i j p a) = identity a" "identity (set_ratio i j q a) = identity a"
  by (simp_all add: identity_def set_memSize_def set_account_def set_ratio_def)

lemma identity_migrateParam: "identity (a\<lparr>pa_migrateParam := g\<rparr>) = identity a"
  by (simp add: identity_def)

lemma config_set [simp]:
  "pa_targetConfig (set_memSize i j m a) = pa_targetConfig a" "pa_targetConfig (set_account i j p a) = pa_targetConfig a"
  "pa_targetConfig (set_ratio i j q a) = pa_targetConfig a"
  by (simp_all add: set_memSize_def set_account_def set_ratio_def)

lemma ChangePidRemoteMemoryByNuma_keeps:
  assumes "\<And>i j m a. F (set_memSize i j m a) = F a" "\<And>i j q a. F (set_ratio i j q a) = F a"
    and "\<And>g a. F (a\<lparr>pa_migrateParam := g\<rparr>) = F a"
  shows "F (ChangePidRemoteMemoryByNuma n s d a) = F a"
proof -
  let ?f = "\<lambda>i attr. let attr = set_ratio i d (sa_initRemoteMemRatio (pa_strategyAttr attr) i s) attr;
      attr = set_ratio i s 0 attr; attr = set_memSize i d (memSize attr i s) attr in set_memSize i s 0 attr"
  have "F (fold ?f [0..<n] a) = F a" by (rule fold_keeps) (simp add: assms Let_def)
  moreover have "F (fold (\<lambda>i attr. if mg_nid (pa_migrateParam attr i) = k
       then attr\<lparr>pa_migrateParam := (pa_migrateParam attr)(i := (pa_migrateParam attr i)\<lparr>mg_nid := v\<rparr>)\<rparr> else attr) is b) = F b" for k v "is" b
    by (rule fold_keeps) (simp add: assms)
  ultimately show ?thesis unfolding ChangePidRemoteMemoryByNuma_def Let_def by metis
qed

lemma relocate_process_spec:
  fixes a :: ProcessAttr
  assumes nr: "0 < nr" "nr \<le> 8" and src: "nr \<le> src" "src < nr + 18" and dest: "nr \<le> dest" "dest < nr + 18" and ne: "src \<noteq> dest"
  defines "a' \<equiv> relocate_process nr src dest a" and "s \<equiv> nat (src - nr)" and "d \<equiv> nat (dest - nr)"
  shows "identity a' = identity a" and "nodes a' = SetL2ByNid nr (nodes a) dest"
    and "j < nat nr \<Longrightarrow> account a' j r = (if r = s then 0 else if r = d then account a j d + account a j s else account a j r)"
    and "pa_targetConfig a' = pa_targetConfig (MoveProcessTargetConfig src dest a)"
    and "pa_remoteNumaCnt a' = pa_remoteNumaCnt (MoveProcessTargetConfig src dest a)"
    and "shifted (nat nr) s d (memSize a) (memSize a')" and "shifted (nat nr) s d (ratio_of a) (ratio_of a')"
    and "pa_migrateParam a' i = (if i < nat (pa_remoteNumaCnt a) \<and> mg_nid (pa_migrateParam a i) = src
      then (pa_migrateParam a i)\<lparr>mg_nid := dest\<rparr> else pa_migrateParam a i)"
proof -
  let ?f = "\<lambda>j a. let a = set_account j d (account a j d + account a j s) a in set_account j s 0 a"
  define b where "b = fold ?f [0..<nat nr] a"
  define c where "c = ChangePidRemoteMemoryByNuma (nat nr) s d b"
  have a': "a' = SetAttrL2 nr (MoveProcessTargetConfig src dest c) dest"
    by (simp add: a'_def relocate_process_def Let_def b_def c_def s_def d_def)
  have mv: "identity (MoveProcessTargetConfig src dest c) = identity c" "nodes (MoveProcessTargetConfig src dest c) = nodes c"
    "pa_strategyAttr (MoveProcessTargetConfig src dest c) = pa_strategyAttr c"
    "pa_migrateParam (MoveProcessTargetConfig src dest c) = pa_migrateParam c"
    by (simp_all add: MoveProcessTargetConfig_def identity_def Let_def split: option.splits prod.splits)
  have c: "identity c = identity b" "nodes c = nodes b" "account c = account b" "pa_targetConfig c = pa_targetConfig b"
    unfolding c_def using ChangePidRemoteMemoryByNuma_keeps [where F = identity] ChangePidRemoteMemoryByNuma_keeps [where F = nodes]
      ChangePidRemoteMemoryByNuma_keeps [where F = account] ChangePidRemoteMemoryByNuma_keeps [where F = pa_targetConfig]
    by (simp_all add: identity_migrateParam)
  have b: "identity b = identity a" "nodes b = nodes a" "pa_targetConfig b = pa_targetConfig a" "memSize b = memSize a" "ratio_of b = ratio_of a"
    "pa_migrateParam b = pa_migrateParam a" "pa_remoteNumaCnt b = pa_remoteNumaCnt a"
    unfolding b_def by (rule fold_keeps, simp add: Let_def)+
  have sd: "s \<noteq> d" using src dest ne by (simp add: s_def d_def)
  note mem = ChangePidRemoteMemoryByNuma_moves [OF sd, of "nat nr" b, folded c_def, unfolded b]
  have tc: "pa_targetConfig (MoveProcessTargetConfig src dest x) = pa_targetConfig (MoveProcessTargetConfig src dest y) \<and>
      (pa_remoteNumaCnt x = pa_remoteNumaCnt y \<longrightarrow>
       pa_remoteNumaCnt (MoveProcessTargetConfig src dest x) = pa_remoteNumaCnt (MoveProcessTargetConfig src dest y))"
    if "pa_targetConfig x = pa_targetConfig y" for x y
    using that by (simp add: MoveProcessTargetConfig_def Let_def split: option.splits prod.splits)
  show "identity a' = identity a" using mv c b by (simp add: a' SetAttrL2_def identity_def)
  show "nodes a' = SetL2ByNid nr (nodes a) dest" using mv c b by (simp add: a' SetAttrL2_def)
  show "pa_targetConfig a' = pa_targetConfig (MoveProcessTargetConfig src dest a)"
    "pa_remoteNumaCnt a' = pa_remoteNumaCnt (MoveProcessTargetConfig src dest a)"
    using tc [of c a] c b mem(4) by (simp_all add: a' SetAttrL2_def)
  show "shifted (nat nr) s d (memSize a) (memSize a')" "shifted (nat nr) s d (ratio_of a) (ratio_of a')"
    using mem(1,2) mv by (simp_all add: a' SetAttrL2_def)
  have "int (s + nat nr) = src" "int (d + nat nr) = dest" using nr src dest by (simp_all add: s_def d_def)
  then show "pa_migrateParam a' i = (if i < nat (pa_remoteNumaCnt a) \<and> mg_nid (pa_migrateParam a i) = src
      then (pa_migrateParam a i)\<lparr>mg_nid := dest\<rparr> else pa_migrateParam a i)"
    using mem(3) [of i] mv by (simp add: a' SetAttrL2_def)
  assume "j < nat nr"
  then show "account a' j r = (if r = s then 0 else if r = d then account a j d + account a j s else account a j r)"
    using fold_move_accounts [OF sd, of "nat nr" a j] mv c by (simp add: a' SetAttrL2_def b_def)
qed

lemma SetL2ByNid_Equal:
  assumes "0 < nr" "nr \<le> 8" "nr \<le> dest" "dest < nr + 18"
  shows "EqualToAttrL2 nr (SetL2ByNid nr w dest) n \<longleftrightarrow> n = dest"
  using SetL2ByNid_GetAttrL2_gen(1) [OF assms, of w] assms
  by (auto simp: EqualToAttrL2_def EqualToL2_def GetAttrL2_def l2_offset_def)

text \<open>
  What a relocation does to a process: the node bitmap, the accounts (added up), the sizes and ratios of the pairs (those of the
  source replace those of the destination), the node parameters, and the target configuration. A configuration
  can be moved when it is valid and no ratio in it is negative as a signed number; if it has a target on the source, the
  number of remote nodes is the number of targets afterwards.
\<close>

definition relocated :: "bool \<Rightarrow> int \<Rightarrow> int \<Rightarrow> int \<Rightarrow> ProcessAttr \<Rightarrow> ProcessAttr \<Rightarrow> bool" where
  "relocated huge nr src dest a a' \<longleftrightarrow>
     (let s = nat (src - nr); d = nat (dest - nr); c = pa_targetConfig a; c' = pa_targetConfig a' in
      pa_pid a' = pa_pid a \<and> pa_state a' = pa_state a \<and> GetAttrL2 nr (nodes a') = dest \<and> \<not> EqualToAttrL2 nr (nodes a') src \<and>
      (\<forall>l. InL1 (nodes a') l \<longleftrightarrow> InL1 (nodes a) l) \<and>
      (\<forall>j < nat nr. \<forall>r. account a' j r = (if r = s then 0 else if r = d then account a j d + account a j s else account a j r)) \<and>
      shifted (nat nr) s d (memSize a) (memSize a') \<and> shifted (nat nr) s d (ratio_of a) (ratio_of a') \<and>
      (\<forall>i. pa_migrateParam a' i = (if i < nat (pa_remoteNumaCnt a) \<and> mg_nid (pa_migrateParam a i) = src
         then (pa_migrateParam a i)\<lparr>mg_nid := dest\<rparr> else pa_migrateParam a i)) \<and>
      (config_distinct c \<longrightarrow> config_amount c' src + config_amount c' dest = config_amount c src + config_amount c dest) \<and>
      (valid_config huge c \<and> (\<forall>t \<in> set (config_targets c). 0 \<le> sint (rt_ratio t)) \<longrightarrow>
         FindProcessRemoteTarget c' src = None \<and>
         (\<forall>n. config_amount c' n = (if n = src then 0 else if n = dest then config_amount c dest + config_amount c src else config_amount c n)) \<and>
         pa_remoteNumaCnt a' = (if FindProcessRemoteTarget c src = None then pa_remoteNumaCnt a else int (tc_count c'))))"

lemma relocate_process_relocated:
  assumes nr: "0 < nr" "nr \<le> 8" and src: "nr \<le> src" "src < nr + 18" and dest: "nr \<le> dest" "dest < nr + 18" and ne: "src \<noteq> dest"
  shows "relocated huge nr src dest a (relocate_process nr src dest a)"
proof -
  note spec = relocate_process_spec [OF assms, where a = a]
  have cnt: "pa_remoteNumaCnt (MoveProcessTargetConfig src dest a) = (if FindProcessRemoteTarget (pa_targetConfig a) src = None
      then pa_remoteNumaCnt a else int (tc_count (pa_targetConfig (MoveProcessTargetConfig src dest a))))"
    by (simp add: MoveProcessTargetConfig_def Let_def split: option.splits prod.splits)
  show ?thesis unfolding relocated_def Let_def spec(4,5)
  proof (intro conjI impI)
    show "pa_pid (relocate_process nr src dest a) = pa_pid a" "pa_state (relocate_process nr src dest a) = pa_state a"
      using spec(1) by (simp_all add: identity_def)
    show "GetAttrL2 nr (nodes (relocate_process nr src dest a)) = dest" "\<not> EqualToAttrL2 nr (nodes (relocate_process nr src dest a)) src"
      "\<forall>l. InL1 (nodes (relocate_process nr src dest a)) l \<longleftrightarrow> InL1 (nodes a) l"
      using spec(2) SetL2ByNid_GetAttrL2_gen(1,2) [OF nr dest, of "nodes a"] SetL2ByNid_Equal [OF nr dest] ne by simp_all
  next
    assume "valid_config huge (pa_targetConfig a) \<and> (\<forall>t \<in> set (config_targets (pa_targetConfig a)). 0 \<le> sint (rt_ratio t))"
    then have v: "valid_config huge (pa_targetConfig a)" "\<forall>t \<in> set (config_targets (pa_targetConfig a)). 0 \<le> sint (rt_ratio t)" by auto
    note ex = MoveProcessTargetConfig_exact [OF v ne]
    show "FindProcessRemoteTarget (pa_targetConfig (MoveProcessTargetConfig src dest a)) src = None" by (rule ex(2))
    show "\<forall>n. config_amount (pa_targetConfig (MoveProcessTargetConfig src dest a)) n = (if n = src then 0 else if n = dest
        then config_amount (pa_targetConfig a) dest + config_amount (pa_targetConfig a) src else config_amount (pa_targetConfig a) n)"
      using ex(1) by blast
    show "pa_remoteNumaCnt (MoveProcessTargetConfig src dest a) = (if FindProcessRemoteTarget (pa_targetConfig a) src = None
        then pa_remoteNumaCnt a else int (tc_count (pa_targetConfig (MoveProcessTargetConfig src dest a))))" by (rule cnt)
  qed (use spec(3,6,7,8) MoveProcessTargetConfig_amount(1) [OF _ ne, of a] in blast)+
qed

lemma ChangePidRemoteByNuma_relocates_parts:
  fixes manager :: ProcessManager and src dest :: int
  defines "nr \<equiv> nrl manager" and "attrs \<equiv> pm_attrs manager"
  defines "uses \<equiv> \<lambda>a. EqualToAttrL2 nr (nodes a) src"
  assumes nr: "0 < nr" "nr \<le> 8" and src: "nr \<le> src" "src < nr + 18" and dest: "nr \<le> dest" "dest < nr + 18" and ne: "src \<noteq> dest"
    and few: "length (filter uses attrs) \<le> GetCurrentMaxNrPid huge"
    and res: "ChangePidRemoteByNuma huge ioctl manager src dest = (e, manager')"
  shows "e \<noteq> None \<Longrightarrow> manager' = manager"
    and "e = None \<Longrightarrow>
      list_all2 (\<lambda>a a'. if uses a then relocated huge nr src dest a a' else a' = a) attrs (pm_attrs manager') \<and>
      map (\<lambda>p. (ap_pid p, ap_numaNodes p)) (SetChangePidRemoteMsgPayload manager src dest (GetCurrentMaxNrPid huge)) =
        map (\<lambda>(a, a'). (pa_pid a', nodes a')) (filter (\<lambda>(a, a'). uses a) (zip attrs (pm_attrs manager')))"
proof -
  let ?payload = "SetChangePidRemoteMsgPayload manager src dest (GetCurrentMaxNrPid huge)"
  let ?g = "\<lambda>a. if uses a then relocate_process nr src dest a else a"
  show "e \<noteq> None \<Longrightarrow> manager' = manager"
    using res by (auto simp: ChangePidRemoteByNuma_def Let_def split: if_splits option.splits)
  assume none: "e = None"
  have pay: "?payload = map (\<lambda>a. \<lparr>ap_pid = pa_pid a, ap_numaNodes = SetL2ByNid nr (nodes a) dest,
      ap_scanTime = pa_scanTime a, ap_duration = pa_duration a, ap_type = pa_scanType a, ap_pidType = pa_type a\<rparr>) (filter uses attrs)"
    using few by (simp add: SetChangePidRemoteMsgPayload_def uses_def nr_def attrs_def)
  have attrs': "pm_attrs manager' = map ?g attrs"
  proof (cases "?payload = []")
    case True
    then have "filter uses attrs = []" unfolding pay by simp
    then have "map ?g attrs = attrs" by (intro map_idI) (auto simp: filter_empty_conv)
    then show ?thesis using res True by (simp add: ChangePidRemoteByNuma_def attrs_def)
  next
    case False
    then show ?thesis using res none
      by (auto simp: ChangePidRemoteByNuma_def Let_def attrs_def uses_def nr_def split: option.splits)
  qed
  note rel = relocate_process_relocated [OF nr src dest ne, of huge] and spec = relocate_process_spec [OF nr src dest ne]
  have "list_all2 (\<lambda>a a'. if uses a then relocated huge nr src dest a a' else a' = a) attrs (map ?g attrs)"
    unfolding list_all2_map2 by (rule list.rel_refl) (simp add: rel)
  moreover have zip: "filter (\<lambda>(a, a'). uses a) (zip xs (map ?g xs)) = map (\<lambda>a. (a, ?g a)) (filter uses xs)" for xs
    by (induction xs) auto
  have "map (\<lambda>p. (ap_pid p, ap_numaNodes p)) ?payload =
      map (\<lambda>(a, a'). (pa_pid a', nodes a')) (filter (\<lambda>(a, a'). uses a) (zip attrs (map ?g attrs)))"
    unfolding zip pay using spec(1,2) by (simp add: comp_def identity_def)
  ultimately show "list_all2 (\<lambda>a a'. if uses a then relocated huge nr src dest a a' else a' = a) attrs (pm_attrs manager') \<and>
      map (\<lambda>p. (ap_pid p, ap_numaNodes p)) ?payload =
        map (\<lambda>(a, a'). (pa_pid a', nodes a')) (filter (\<lambda>(a, a'). uses a) (zip attrs (pm_attrs manager')))"
    unfolding attrs' by blast
qed

text \<open>C28. The relocation of a remote node to another, for at most as many processes as one message to the
  tracking driver holds: when the driver refuses, nothing changes; otherwise exactly the
  processes of the source node change, and none is left on it. Each of them is then on the
  destination, with the same local nodes and the bitmap that was sent to the driver; the pages
  accounted to the source are accounted to the destination; its sizes, ratios and node parameters
  of the source are those of the destination; and its configuration, if valid, no longer
  names the source, asks on the destination for what it asked for on both, and is unchanged on every
  other node.\<close>

theorem ChangePidRemoteByNuma_relocates:
  fixes manager :: ProcessManager and src dest :: int
  defines "nr \<equiv> nrl manager" and "attrs \<equiv> pm_attrs manager"
  defines "uses \<equiv> \<lambda>a. EqualToAttrL2 nr (nodes a) src"
  assumes "0 < nr" "nr \<le> 8" "nr \<le> src" "src < nr + 18" "nr \<le> dest" "dest < nr + 18" "src \<noteq> dest"
    and "length (filter uses attrs) \<le> GetCurrentMaxNrPid huge"
    and "ChangePidRemoteByNuma huge ioctl manager src dest = (e, manager')"
  shows "if e \<noteq> None then manager' = manager
    else list_all2 (\<lambda>a a'. if uses a then relocated huge nr src dest a a' else a' = a) attrs (pm_attrs manager') \<and>
      map (\<lambda>p. (ap_pid p, ap_numaNodes p)) (SetChangePidRemoteMsgPayload manager src dest (GetCurrentMaxNrPid huge)) =
        map (\<lambda>(a, a'). (pa_pid a', nodes a')) (filter (\<lambda>(a, a'). uses a) (zip attrs (pm_attrs manager')))"
proof (cases "e = None")
  case True
  then show ?thesis using ChangePidRemoteByNuma_relocates_parts(2) [OF assms(4-12) [unfolded assms(1-3)]] unfolding assms(1-3) by simp
next
  case False
  then show ?thesis using ChangePidRemoteByNuma_relocates_parts(1) [OF assms(4-12) [unfolded assms(1-3)]] by simp
qed

text \<open>A machine with two local nodes and a process of pid 7 that has 30 percent of its memory on the remote node 5.\<close>

definition move_attr :: ProcessAttr where
  "move_attr = ProcessAttr_zero\<lparr>pa_pid := 7, pa_numaAttr := \<lparr>na_numaNodes = 2049\<rparr>,
     pa_targetConfig := \<lparr>tc_migrateMode = MIG_RATIO_MODE, tc_count = 1, tc_targets = (\<lambda>i. \<lparr>rt_remoteNid = 5, rt_ratio = 30, rt_memSizeKB = 0\<rparr>)\<rparr>\<rparr>"

definition move_demo :: ProcessManager where
  "move_demo = state_demo\<lparr>pm_attrs := [move_attr]\<rparr>"

theorem ChangePidRemoteByNuma_relocates_witness:
  "\<exists>a. pm_attrs (snd (ChangePidRemoteByNuma False (\<lambda>_. None) move_demo 5 4)) = [a] \<and> GetAttrL2 2 (nodes a) = 4 \<and> pa_pid a = 7 \<and>
     config_amount (pa_targetConfig a) 4 = 30 \<and> config_amount (pa_targetConfig a) 5 = 0"
proof -
  have st: "nrl move_demo = 2" "pm_attrs move_demo = [move_attr]" by (simp_all add: move_demo_def state_demo_def)
  have nodes: "nodes move_attr = 2049" by (simp add: move_attr_def)
  have eq: "EqualToAttrL2 2 2049 5" by code_simp
  obtain e m where em: "ChangePidRemoteByNuma False (\<lambda>_. None) move_demo 5 4 = (e, m)" by (metis surj_pair)
  have e: "e = None" using em by (simp add: ChangePidRemoteByNuma_def Let_def split: if_splits)
  note r = ChangePidRemoteByNuma_relocates [where manager = move_demo and src = 5 and dest = 4, OF _ _ _ _ _ _ _ _ em, unfolded st]
  have "list_all2 (\<lambda>a a'. if EqualToAttrL2 2 (nodes a) 5 then relocated False 2 5 4 a a' else a' = a) [move_attr] (pm_attrs m)"
    using r e by (simp add: GetCurrentMaxNrPid_def)
  then obtain a where a: "pm_attrs m = [a]" "relocated False 2 5 4 move_attr a" using eq nodes by (auto simp: list_all2_Cons1)
  have t: "config_targets (pa_targetConfig move_attr) = [\<lparr>rt_remoteNid = 5, rt_ratio = 30, rt_memSizeKB = 0\<rparr>]"
    by (simp add: config_targets_def move_attr_def)
  have "valid_config False (pa_targetConfig move_attr)" "\<forall>t \<in> set (config_targets (pa_targetConfig move_attr)). 0 \<le> sint (rt_ratio t)"
    by (simp_all add: valid_config_def config_distinct_def t) (simp_all add: move_attr_def)
  moreover have "config_amount (pa_targetConfig move_attr) 5 = 30" "config_amount (pa_targetConfig move_attr) 4 = 0"
    by (simp_all add: config_amount_def t target_amount_def) (simp_all add: move_attr_def)
  moreover have "pa_pid move_attr = 7" by (simp add: move_attr_def)
  ultimately show ?thesis using a em by (simp add: relocated_def Let_def)
qed

end
