(* ===== verification/Page_Select.thy ===== *)
theory Page_Select
  imports Process_Types
begin

text \<open>
  The selection of the pages of a process that are migrated: the access statistics of a scan
  (\<^verbatim>\<open>CalcActcStats\<close> in \<^verbatim>\<open>plugins/smap/src/user/manage/manage_scan.c\<close>) and the Pair migration strategy
  (\<^verbatim>\<open>plugins/smap/src/user/strategy/separate_strategy.c\<close>, lines 53 to 64 and 272 to 518). A page is named by
  its index in the scan data of its node.

  The fields of a migration list that the code declares as \<^verbatim>\<open>uint64_t\<close> are natural numbers, with
  \<open>add64\<close> where the code adds to them. The address array of a list holds the page indices written
  to it; \<open>None\<close> is the null pointer. The answers of \<^verbatim>\<open>calloc\<close> are an argument: \<open>noMem from to\<close> is
  true when the array of a list cannot be allocated.
\<close>

abbreviation (input) FREQ_BUCKETS :: nat where "FREQ_BUCKETS \<equiv> 256"

abbreviation (input) PRIOR_MAX_VALUE :: nat where "PRIOR_MAX_VALUE \<equiv> 63"

record MigList =
  li_successToUser :: bool
  li_nr :: nat
  li_failedMigNr :: nat
  li_failedIsolatedNr :: nat
  li_pid :: int
  li_from :: int
  li_to :: int
  li_addr :: "nat list option"

type_synonym miglists = "nat \<Rightarrow> nat \<Rightarrow> MigList"

section \<open>Access statistics\<close>

text \<open>The body of the loop over the pages of a node.\<close>

definition count_page :: "bool \<Rightarrow> nat \<Rightarrow> ActcData \<Rightarrow> ActCount \<Rightarrow> ActCount" where
  "count_page isLocal remoteHotThreshold page count =
     (let freq = ad_freq page; bucketIdx = min (unat freq) (FREQ_BUCKETS - 1);
          count = (if \<not> isLocal \<or> \<not> ad_isWhiteListPage page
                   then count\<lparr>ac_freqBuckets := (ac_freqBuckets count)(bucketIdx := ac_freqBuckets count bucketIdx + 1)\<rparr> else count);
          count = (if freq \<noteq> 0 then count\<lparr>ac_freqNum := ac_freqNum count + 1, ac_freqSum := ac_freqSum count + ucast freq\<rparr>
                   else count\<lparr>ac_freqZero := ac_freqZero count + 1\<rparr>);
          count = (if unat freq \<ge> remoteHotThreshold then count\<lparr>ac_remoteHotNum := ac_remoteHotNum count + 1\<rparr> else count);
          count = (if ad_isWhiteListPage page then count\<lparr>ac_whiteNum := ac_whiteNum count + 1\<rparr> else count)
      in count\<lparr>ac_freqMax := max (ac_freqMax count) freq, ac_freqMin := min (ac_freqMin count) freq\<rparr>)"

definition calc_node_stats :: "bool \<Rightarrow> nat \<Rightarrow> u64 \<Rightarrow> ActcData list option \<Rightarrow> ActCount" where
  "calc_node_stats isLocal remoteHotThreshold actcLen actc =
     (case actc of
        None \<Rightarrow> ActCount_zero
      | Some pages \<Rightarrow>
          if actcLen = 0 then ActCount_zero
          else fold (\<lambda>i. count_page isLocal remoteHotThreshold (pages ! i)) [0..<unat actcLen]
            (ActCount_zero\<lparr>ac_freqMin := 255, ac_pageNum := actcLen\<rparr>))"

definition CalcActcStats :: "nat \<Rightarrow> nat \<Rightarrow> ProcessAttr \<Rightarrow> ProcessAttr" where
  "CalcActcStats remoteHotThreshold nrLocalNuma attr =
     (let scan = pa_scanAttr attr in
      attr\<lparr>pa_scanAttr := scan\<lparr>
        sc_actCount := (\<lambda>nid. if nid < MAX_NODES
          then calc_node_stats (nid < nrLocalNuma) remoteHotThreshold (sc_actcLen scan nid) (sc_actcData scan nid)
          else sc_actCount scan nid),
        sc_selectedBuckets := (\<lambda>nid f. if nid < MAX_NODES \<and> f < FREQ_BUCKETS then 0 else sc_selectedBuckets scan nid f)\<rparr>\<rparr>)"

section \<open>Selecting pages\<close>

datatype SelectionMode = SELECT_TOP_K | SELECT_BOTTOM_K

text \<open>The loop over the buckets, in the order the mode asks for.\<close>

fun threshold_scan :: "nat list \<Rightarrow> nat \<Rightarrow> (nat \<Rightarrow> u32) \<Rightarrow> nat \<Rightarrow> (nat \<times> u32) option" where
  "threshold_scan [] nrMig buckets countSoFar = None"
| "threshold_scan (i # is) nrMig buckets countSoFar =
     (if buckets i = 0 then threshold_scan is nrMig buckets countSoFar
      else if add64 countSoFar (unat (buckets i)) \<ge> nrMig then Some (i, of_nat (sub64 nrMig countSoFar))
      else threshold_scan is nrMig buckets (add64 countSoFar (unat (buckets i))))"

definition FindThreshold :: "SelectionMode \<Rightarrow> nat \<Rightarrow> (nat \<Rightarrow> u32) \<Rightarrow> nat \<times> u32" where
  "FindThreshold mode nrMig buckets =
     (let order = (if mode = SELECT_TOP_K then rev [0..<FREQ_BUCKETS] else [0..<FREQ_BUCKETS]) in
      case threshold_scan order nrMig buckets 0 of
        None \<Rightarrow> (if mode = SELECT_TOP_K then 0 else FREQ_BUCKETS, 0)
      | Some r \<Rightarrow> r)"

definition beyond :: "SelectionMode \<Rightarrow> nat \<Rightarrow> nat \<Rightarrow> bool" where
  "beyond mode thresholdFreq freq \<longleftrightarrow> (if mode = SELECT_TOP_K then freq > thresholdFreq else freq < thresholdFreq)"

text \<open>
  The loops over the pages: \<open>fromLocal\<close> says that the pages are on a local node. The state is the
  scan data, the indices collected so far, what is left at the threshold, and the counts of the
  selected pages.
\<close>

fun collect_4K ::
  "SelectionMode \<Rightarrow> bool \<Rightarrow> nat \<Rightarrow> nat \<Rightarrow> nat list \<Rightarrow> ActcData list \<Rightarrow> nat list \<Rightarrow> u32 \<Rightarrow> (nat \<Rightarrow> u32) \<Rightarrow>
   ActcData list \<times> nat list \<times> (nat \<Rightarrow> u32)" where
  "collect_4K mode fromLocal nrMig thresholdFreq [] currentData addr tmp selectedBuckets = (currentData, addr, selectedBuckets)"
| "collect_4K mode fromLocal nrMig thresholdFreq (i # is) currentData addr tmp selectedBuckets =
     (let page = currentData ! i; freq = unat (ad_freq page) in
      if \<not> length addr < nrMig then (currentData, addr, selectedBuckets)
      else if ad_isSelected page
      then collect_4K mode fromLocal nrMig thresholdFreq is currentData addr tmp selectedBuckets
      else if \<not> (beyond mode thresholdFreq freq \<or> freq = thresholdFreq \<and> tmp > 0)
      then collect_4K mode fromLocal nrMig thresholdFreq is currentData addr tmp selectedBuckets
      else if fromLocal \<and> ad_isWhiteListPage page
      then collect_4K mode fromLocal nrMig thresholdFreq is currentData addr tmp selectedBuckets
      else
        let bucketIdx = min freq (FREQ_BUCKETS - 1) in
        collect_4K mode fromLocal nrMig thresholdFreq is (currentData[i := page\<lparr>ad_isSelected := True\<rparr>]) (addr @ [i])
          (if freq = thresholdFreq then tmp - 1 else tmp)
          (selectedBuckets(bucketIdx := selectedBuckets bucketIdx + 1)))"

definition CollectPages4K ::
  "SelectionMode \<Rightarrow> bool \<Rightarrow> nat \<Rightarrow> ActcData list \<Rightarrow> nat \<Rightarrow> nat \<Rightarrow> u32 \<Rightarrow> (nat \<Rightarrow> u32) \<Rightarrow>
   ActcData list \<times> nat list \<times> (nat \<Rightarrow> u32)" where
  "CollectPages4K mode fromLocal actcLen currentData nrMig thresholdFreq takeAtThreshold selectedBuckets =
     collect_4K mode fromLocal nrMig thresholdFreq [0..<actcLen] currentData [] takeAtThreshold selectedBuckets"

text \<open>The pages at the threshold by priority, and how many of each priority are taken, the highest first.\<close>

definition prior_counts :: "nat \<Rightarrow> nat \<Rightarrow> ActcData list \<Rightarrow> nat \<Rightarrow> nat" where
  "prior_counts actcLen thresholdFreq currentData =
     fold (\<lambda>i counts. let page = currentData ! i in
        if ad_isSelected page then counts
        else if ad_freq page \<noteq> of_nat thresholdFreq then counts
        else counts(unat (ad_prior page) := add64 (counts (unat (ad_prior page))) 1)) [0..<actcLen] (\<lambda>_. 0)"

fun take_from :: "nat list \<Rightarrow> (nat \<Rightarrow> nat) \<Rightarrow> nat \<Rightarrow> (nat \<Rightarrow> nat) \<Rightarrow> nat \<Rightarrow> nat" where
  "take_from [] priorCounts remaining takeFrom = takeFrom"
| "take_from (p # ps) priorCounts remaining takeFrom =
     (if remaining > 0
      then let take = min (priorCounts p) remaining in take_from ps priorCounts (remaining - take) (takeFrom(p := take))
      else takeFrom)"

fun collect_Vm ::
  "SelectionMode \<Rightarrow> bool \<Rightarrow> nat \<Rightarrow> nat \<Rightarrow> nat list \<Rightarrow> ActcData list \<Rightarrow> nat list \<Rightarrow> (nat \<Rightarrow> nat) \<Rightarrow> (nat \<Rightarrow> u32) \<Rightarrow>
   ActcData list \<times> nat list \<times> (nat \<Rightarrow> u32)" where
  "collect_Vm mode fromLocal nrMig thresholdFreq [] currentData addr takeFrom selectedBuckets = (currentData, addr, selectedBuckets)"
| "collect_Vm mode fromLocal nrMig thresholdFreq (i # is) currentData addr takeFrom selectedBuckets =
     (let page = currentData ! i; freq = unat (ad_freq page); prior = unat (ad_prior page) in
      if \<not> length addr < nrMig then (currentData, addr, selectedBuckets)
      else if ad_isSelected page
      then collect_Vm mode fromLocal nrMig thresholdFreq is currentData addr takeFrom selectedBuckets
      else
        let atThreshold = (\<not> beyond mode thresholdFreq freq \<and> freq = thresholdFreq \<and> takeFrom prior > 0);
            takeFrom = (if atThreshold then takeFrom(prior := takeFrom prior - 1) else takeFrom) in
        if \<not> (beyond mode thresholdFreq freq \<or> atThreshold)
        then collect_Vm mode fromLocal nrMig thresholdFreq is currentData addr takeFrom selectedBuckets
        else if fromLocal \<and> ad_isWhiteListPage page
        then collect_Vm mode fromLocal nrMig thresholdFreq is currentData addr takeFrom selectedBuckets
        else
          let bucketIdx = min freq (FREQ_BUCKETS - 1) in
          collect_Vm mode fromLocal nrMig thresholdFreq is (currentData[i := page\<lparr>ad_isSelected := True\<rparr>]) (addr @ [i]) takeFrom
            (selectedBuckets(bucketIdx := selectedBuckets bucketIdx + 1)))"

definition CollectPagesVm ::
  "SelectionMode \<Rightarrow> bool \<Rightarrow> nat \<Rightarrow> ActcData list \<Rightarrow> nat \<Rightarrow> nat \<Rightarrow> u32 \<Rightarrow> (nat \<Rightarrow> u32) \<Rightarrow>
   ActcData list \<times> nat list \<times> (nat \<Rightarrow> u32)" where
  "CollectPagesVm mode fromLocal actcLen currentData nrMig thresholdFreq takeAtThreshold selectedBuckets =
     collect_Vm mode fromLocal nrMig thresholdFreq [0..<actcLen] currentData []
       (take_from (rev [0..<PRIOR_MAX_VALUE + 1]) (prior_counts actcLen thresholdFreq currentData) (unat takeAtThreshold) (\<lambda>_. 0))
       selectedBuckets"

section \<open>Migration lists of a process\<close>

definition set_list :: "nat \<Rightarrow> nat \<Rightarrow> MigList \<Rightarrow> miglists \<Rightarrow> miglists" where
  "set_list i j l mlist = mlist(i := (mlist i)(j := l))"

definition BuildSelectKMlistAddr ::
  "bool \<Rightarrow> nat \<Rightarrow> ProcessAttr \<Rightarrow> miglists \<Rightarrow> (nat \<Rightarrow> nat) \<Rightarrow> nat \<Rightarrow> nat \<Rightarrow> SelectionMode \<Rightarrow>
   errno option \<times> ProcessAttr \<times> miglists" where
  "BuildSelectKMlistAddr noMem nrLocalNuma process mlist numaOffset src dst mode =
     (let offset = numaOffset src; scan = pa_scanAttr process; n = unat (sc_actcLen scan src); current = mlist src dst in
      if offset \<ge> n then (None, process, set_list src dst (current\<lparr>li_nr := 0\<rparr>) mlist)
      else
        let nrMig = min (li_nr current) (n - offset); current = current\<lparr>li_nr := nrMig\<rparr> in
        if nrMig = 0 then (None, process, set_list src dst current mlist)
        else (case sc_actcData scan src of
                None \<Rightarrow> (Some EINVAL, process, set_list src dst (current\<lparr>li_nr := 0, li_addr := None\<rparr>) mlist)
              | Some currentData \<Rightarrow>
                  if noMem then (Some ENOMEM, process, set_list src dst (current\<lparr>li_addr := None\<rparr>) mlist)
                  else
                    let freqBuckets = ac_freqBuckets (sc_actCount scan src); selectedBuckets = sc_selectedBuckets scan src;
                        remainBuckets = (\<lambda>f. if freqBuckets f > selectedBuckets f then freqBuckets f - selectedBuckets f else 0);
                        (thresholdFreq, takeAtThreshold) = FindThreshold mode nrMig remainBuckets;
                        collect = (if pa_type process = VM_TYPE then CollectPagesVm else CollectPages4K);
                        (currentData, addr, selectedBuckets) =
                          collect mode (src < nrLocalNuma) n currentData nrMig thresholdFreq takeAtThreshold selectedBuckets
                    in (None,
                        process\<lparr>pa_scanAttr := scan\<lparr>sc_actcData := (sc_actcData scan)(src := Some currentData),
                          sc_selectedBuckets := (sc_selectedBuckets scan)(src := selectedBuckets)\<rparr>\<rparr>,
                        set_list src dst (current\<lparr>li_nr := length addr, li_addr := Some addr\<rparr>) mlist)))"

definition BuildPairMlist ::
  "bool \<Rightarrow> nat \<Rightarrow> nat \<Rightarrow> nat \<Rightarrow> u32 \<Rightarrow> SelectionMode \<Rightarrow> ProcessAttr \<times> miglists \<times> (nat \<Rightarrow> nat) \<Rightarrow>
   errno option \<times> ProcessAttr \<times> miglists \<times> (nat \<Rightarrow> nat)" where
  "BuildPairMlist noMem nrLocalNuma src dst nrMigrate mode st =
     (let (process, mlist, numaOffset) = st in
      if nrMigrate = 0 then (None, process, mlist, numaOffset)
      else
        let mlist = set_list src dst ((mlist src dst)\<lparr>li_nr := unat nrMigrate\<rparr>) mlist in
        (case BuildSelectKMlistAddr noMem nrLocalNuma process mlist numaOffset src dst mode of
           (Some e, process, mlist) \<Rightarrow> (Some e, process, mlist, numaOffset)
         | (None, process, mlist) \<Rightarrow>
             (None, process, mlist, numaOffset(src := add64 (numaOffset src) (li_nr (mlist src dst))))))"

definition FreeMlist :: "miglists \<Rightarrow> miglists" where
  "FreeMlist mlist = (\<lambda>src dst. if src < MAX_NODES \<and> dst < MAX_NODES then (mlist src dst)\<lparr>li_addr := None, li_nr := 0\<rparr> else mlist src dst)"

text \<open>One pair of a local and a remote node: first the list from the local node, then the one from the remote node.\<close>

definition build_pair ::
  "(nat \<Rightarrow> nat \<Rightarrow> bool) \<Rightarrow> forbidden \<Rightarrow> nat \<Rightarrow> nat \<Rightarrow> nat \<Rightarrow> ProcessAttr \<times> miglists \<times> (nat \<Rightarrow> nat) \<Rightarrow>
   errno option \<times> ProcessAttr \<times> miglists \<times> (nat \<Rightarrow> nat)" where
  "build_pair noMem g nrLocalNuma localNid remoteNid st =
     (let strategy = pa_strategyAttr (fst st);
          localToRemote = sa_nrMigratePages strategy localNid remoteNid;
          remoteToLocal = sa_nrMigratePages strategy remoteNid localNid in
      if IsNodeForbidden remoteNid g then (None, st)
      else
        let swapPages = min localToRemote remoteToLocal;
            demotePages = localToRemote - swapPages;
            promotePages = remoteToLocal - swapPages;
            swapPages = (if sa_ubBwRestrict strategy remoteNid = UB_BW_SWAP_STOP then 0 else swapPages) in
        (case BuildPairMlist (noMem localNid remoteNid) nrLocalNuma localNid remoteNid (demotePages + swapPages) SELECT_BOTTOM_K st of
           (Some e, st) \<Rightarrow> (Some e, st)
         | (None, st) \<Rightarrow>
             BuildPairMlist (noMem remoteNid localNid) nrLocalNuma remoteNid localNid (promotePages + swapPages) SELECT_TOP_K st))"

fun build_pairs ::
  "(nat \<Rightarrow> nat \<Rightarrow> bool) \<Rightarrow> forbidden \<Rightarrow> nat \<Rightarrow> (nat \<times> nat) list \<Rightarrow> ProcessAttr \<times> miglists \<times> (nat \<Rightarrow> nat) \<Rightarrow>
   errno option \<times> ProcessAttr \<times> miglists \<times> (nat \<Rightarrow> nat)" where
  "build_pairs noMem g nrLocalNuma [] st = (None, st)"
| "build_pairs noMem g nrLocalNuma ((localNid, remoteNid) # ps) st =
     (case build_pair noMem g nrLocalNuma localNid remoteNid st of
        (Some e, process, mlist, numaOffset) \<Rightarrow> (Some e, process, FreeMlist mlist, numaOffset)
      | (None, st) \<Rightarrow> build_pairs noMem g nrLocalNuma ps st)"

definition PairMigrationStrategy ::
  "(nat \<Rightarrow> nat \<Rightarrow> bool) \<Rightarrow> forbidden \<Rightarrow> nat \<Rightarrow> ProcessAttr \<Rightarrow> miglists \<Rightarrow> errno option \<times> ProcessAttr \<times> miglists" where
  "PairMigrationStrategy noMem g nrLocalNuma process mlist =
     (if nrLocalNuma = 0 \<or> nrLocalNuma > LOCAL_NUMA_NUM \<or> nrLocalNuma + REMOTE_NUMA_NUM > MAX_NODES then (Some EINVAL, process, mlist)
      else
        let (ret, process, mlist, _) =
          build_pairs noMem g nrLocalNuma
            (List.product [0..<nrLocalNuma] [nrLocalNuma..<nrLocalNuma + REMOTE_NUMA_NUM]) (process, mlist, \<lambda>_. 0)
        in (ret, process, mlist))"

section \<open>The threshold\<close>

lemma threshold_scan_spec:
  assumes "c < nrMig" "nrMig < 2 ^ 64" "c + (\<Sum>i\<leftarrow>is. unat (b i)) < 2 ^ 64"
  shows "case threshold_scan is nrMig b c of
      None \<Rightarrow> c + (\<Sum>i\<leftarrow>is. unat (b i)) < nrMig
    | Some (t, k) \<Rightarrow> \<exists>xs ys. is = xs @ t # ys \<and> c + (\<Sum>i\<leftarrow>xs. unat (b i)) + unat k = nrMig \<and> unat k \<le> unat (b t)"
  using assms
proof (induction "is" arbitrary: c)
  case (Cons i "is")
  have add: "add64 c (unat (b i)) = c + unat (b i)" using Cons.prems(3) by (intro add64_eq) simp
  have extend: "case r of None \<Rightarrow> c' + (\<Sum>i\<leftarrow>is. unat (b i)) < nrMig
      | Some (t, k) \<Rightarrow> \<exists>xs ys. i # is = xs @ t # ys \<and> c' - unat (b i) + (\<Sum>i\<leftarrow>xs. unat (b i)) + unat k = nrMig \<and> unat k \<le> unat (b t)"
    if r: "case r of None \<Rightarrow> c' + (\<Sum>i\<leftarrow>is. unat (b i)) < nrMig
      | Some (t, k) \<Rightarrow> \<exists>xs ys. is = xs @ t # ys \<and> c' + (\<Sum>i\<leftarrow>xs. unat (b i)) + unat k = nrMig \<and> unat k \<le> unat (b t)"
    and c': "unat (b i) \<le> c'" for r :: "(nat \<times> u32) option" and c'
  proof (cases r)
    case (Some tk)
    obtain t k where tk: "tk = (t, k)" by (cases tk)
    from r obtain xs ys where x: "is = xs @ t # ys" "c' + (\<Sum>i\<leftarrow>xs. unat (b i)) + unat k = nrMig" "unat k \<le> unat (b t)"
      unfolding Some tk by auto
    have "i # is = (i # xs) @ t # ys \<and> c' - unat (b i) + (\<Sum>i\<leftarrow>i # xs. unat (b i)) + unat k = nrMig"
      using x c' by simp
    then show ?thesis unfolding Some tk option.case prod.case using x(3) by blast
  qed (use r in simp)
  consider "b i = 0" | "b i \<noteq> 0" "nrMig \<le> c + unat (b i)" | "b i \<noteq> 0" "c + unat (b i) < nrMig" by linarith
  then show ?case
  proof cases
    case 1
    then have eq: "threshold_scan (i # is) nrMig b c = threshold_scan is nrMig b c" by simp
    have pre: "c + (\<Sum>i\<leftarrow>is. unat (b i)) < 2 ^ 64" using Cons.prems(3) 1 by simp
    show ?thesis unfolding eq using extend [OF Cons.IH [OF Cons.prems(1,2) pre]] 1
      by (simp split: option.split_asm option.split prod.split_asm prod.split)
  next
    case 2
    have d: "sub64 nrMig c = nrMig - c" using Cons.prems by (intro sub64_eq) auto
    have le: "nrMig - c \<le> unat (b i)" using 2 by linarith
    then have "nrMig - c \<le> UINT32_MAX" using unat_u32_le [of "b i"] by linarith
    then have "unat (of_nat (nrMig - c) :: u32) = nrMig - c" by (rule unat_of_nat_u32)
    then have "i # is = [] @ i # is \<and> c + (\<Sum>i\<leftarrow>[]. unat (b i)) + unat (of_nat (nrMig - c) :: u32) = nrMig \<and>
        unat (of_nat (nrMig - c) :: u32) \<le> unat (b i)" using le Cons.prems(1) by simp
    moreover have eq: "threshold_scan (i # is) nrMig b c = Some (i, of_nat (nrMig - c))" using 2 by (simp add: add d)
    ultimately show ?thesis unfolding eq option.case prod.case by blast
  next
    case 3
    then have eq: "threshold_scan (i # is) nrMig b c = threshold_scan is nrMig b (c + unat (b i))" by (simp add: add)
    have pre: "c + unat (b i) + (\<Sum>i\<leftarrow>is. unat (b i)) < 2 ^ 64" using Cons.prems(3) by simp
    show ?thesis unfolding eq using extend [OF Cons.IH [OF 3(2) Cons.prems(2) pre]]
      by (simp add: add.assoc split: option.split_asm option.split prod.split_asm prod.split)
  qed
qed simp

section \<open>Picking pages\<close>

text \<open>
  The pages both collecting loops take, in one pass: every page beyond the threshold, and of the
  pages at the threshold as many of each class as its budget allows.
\<close>

fun picked :: "(nat \<Rightarrow> bool) \<Rightarrow> (nat \<Rightarrow> bool) \<Rightarrow> (nat \<Rightarrow> nat) \<Rightarrow> nat list \<Rightarrow> (nat \<Rightarrow> nat) \<Rightarrow> nat list" where
  "picked S T key [] B = []"
| "picked S T key (i # is) B =
     (if S i then i # picked S T key is B
      else if T i \<and> B (key i) > 0 then i # picked S T key is (B(key i := B (key i) - 1))
      else picked S T key is B)"

lemma picked_mem: "i \<in> set (picked S T key is B) \<Longrightarrow> i \<in> set is \<and> (S i \<or> T i)"
  by (induction "is" arbitrary: B) (auto split: if_splits)

lemma picked_subset: "set (picked S T key is B) \<subseteq> {i \<in> set is. S i \<or> T i}"
  using picked_mem by blast

lemma picked_beyond: "i \<in> set is \<Longrightarrow> S i \<Longrightarrow> i \<in> set (picked S T key is B)"
  by (induction "is" arbitrary: B) auto

lemma picked_sorted: "sorted_wrt (<) is \<Longrightarrow> sorted_wrt (<) (picked S T key is B)"
  by (induction "is" arbitrary: B) (auto dest: picked_mem)

lemma picked_filter:
  assumes "\<And>i. \<not> (S i \<and> T i)"
  shows "filter S (picked S T key is B) = filter S is"
    and "length (filter (\<lambda>i. T i \<and> key i = p) (picked S T key is B)) = min (B p) (length (filter (\<lambda>i. T i \<and> key i = p) is))"
  using assms by (induction "is" arbitrary: B) auto

lemma picked_cong:
  assumes "\<And>i. i \<in> set is \<Longrightarrow> S i = S' i \<and> T i = T' i \<and> key i = key' i"
  shows "picked S T key is B = picked S' T' key' is B"
  using assms by (induction "is" arbitrary: B) auto

lemma length_by_class:
  fixes m :: nat
  assumes "\<And>i. i \<in> set xs \<Longrightarrow> key i < m"
  shows "length (filter T xs) = (\<Sum>p<m. length (filter (\<lambda>i. T i \<and> key i = p) xs))"
  using assms
proof (induction xs)
  case (Cons x xs)
  have "(\<Sum>p<m. length (filter (\<lambda>i. T i \<and> key i = p) (x # xs))) =
      (\<Sum>p<m. length (filter (\<lambda>i. T i \<and> key i = p) xs) + (if p = key x then (if T x then 1 else 0) else 0))"
    by (rule sum.cong) auto
  moreover have "(\<Sum>p<m. if p = key x then (if T x then 1 else 0) else 0) = (if T x then 1 else 0 :: nat)"
    using Cons.prems [of x] by (subst sum.delta) auto
  ultimately show ?case using Cons by (simp add: sum.distrib)
qed simp

lemma length_picked:
  assumes "\<And>i. \<not> (S i \<and> T i)" "\<And>i. i \<in> set is \<Longrightarrow> key i < m"
  shows "length (picked S T key is B) =
    length (filter S is) + (\<Sum>p<m. min (B p) (length (filter (\<lambda>i. T i \<and> key i = p) is)))"
proof -
  let ?P = "picked S T key is B"
  have "filter (\<lambda>i. \<not> S i) ?P = filter T ?P" using picked_subset [of S T key "is" B] assms(1) by (intro filter_cong) auto
  then have "length ?P = length (filter S ?P) + length (filter T ?P)" using sum_length_filter_compl [of S ?P] by simp
  moreover have "length (filter T ?P) = (\<Sum>p<m. length (filter (\<lambda>i. T i \<and> key i = p) ?P))"
    using picked_subset assms(2) by (intro length_by_class) blast
  ultimately show ?thesis using picked_filter [OF assms(1)] by simp
qed

lemma picked_budget:
  "(\<And>i. i \<in> set is \<Longrightarrow> B (key i) = B' (key i)) \<Longrightarrow> picked S T key is B = picked S T key is B'"
proof (induction "is" arbitrary: B B')
  case (Cons i "is")
  have "picked S T key is B = picked S T key is B'" using Cons.prems by (intro Cons.IH) simp
  moreover have "picked S T key is (B(key i := B (key i) - 1)) = picked S T key is (B'(key i := B' (key i) - 1))"
    using Cons.prems by (intro Cons.IH) simp
  ultimately show ?case using Cons.prems by simp
qed simp

abbreviation freq_of :: "ActcData list \<Rightarrow> nat \<Rightarrow> nat" where
  "freq_of pages i \<equiv> unat (ad_freq (pages ! i))"

abbreviation prior_of :: "ActcData list \<Rightarrow> nat \<Rightarrow> nat" where
  "prior_of pages i \<equiv> unat (ad_prior (pages ! i))"

text \<open>The pages that may still be selected; from a local node, white-listed pages may not.\<close>

definition avail :: "bool \<Rightarrow> ActcData list \<Rightarrow> nat \<Rightarrow> bool" where
  "avail fromLocal pages i \<longleftrightarrow> \<not> ad_isSelected (pages ! i) \<and> \<not> (fromLocal \<and> ad_isWhiteListPage (pages ! i))"

definition picks :: "SelectionMode \<Rightarrow> bool \<Rightarrow> nat \<Rightarrow> ActcData list \<Rightarrow> (nat \<Rightarrow> nat) \<Rightarrow> nat list \<Rightarrow> (nat \<Rightarrow> nat) \<Rightarrow> nat list" where
  "picks mode fromLocal thr pages key is B =
     picked (\<lambda>i. avail fromLocal pages i \<and> beyond mode thr (freq_of pages i)) (\<lambda>i. avail fromLocal pages i \<and> freq_of pages i = thr) key is B"

definition mark :: "nat list \<Rightarrow> ActcData list \<Rightarrow> ActcData list" where
  "mark js pages = map (\<lambda>i. if i \<in> set js then (pages ! i)\<lparr>ad_isSelected := True\<rparr> else pages ! i) [0..<length pages]"

definition bump :: "ActcData list \<Rightarrow> nat list \<Rightarrow> (nat \<Rightarrow> u32) \<Rightarrow> nat \<Rightarrow> u32" where
  "bump pages js sb f = sb f + of_nat (length (filter (\<lambda>j. freq_of pages j = f) js))"

lemma mark_simps [simp]:
  "length (mark js pages) = length pages"
  "i < length pages \<Longrightarrow> mark js pages ! i = (if i \<in> set js then (pages ! i)\<lparr>ad_isSelected := True\<rparr> else pages ! i)"
  "mark [] pages = pages"
  by (simp_all add: mark_def map_nth)

lemma mark_Cons:
  "i \<notin> set js \<Longrightarrow> i < length pages \<Longrightarrow> mark js (pages[i := (pages ! i)\<lparr>ad_isSelected := True\<rparr>]) = mark (i # js) pages"
  by (rule nth_equalityI) (auto simp: nth_list_update)

lemma bump_Nil [simp]: "bump pages [] sb = sb"
  by (simp add: bump_def fun_eq_iff)

lemma bump_Cons:
  assumes "i \<notin> set js" "i < length pages"
  shows "bump (pages[i := p]) js (sb(freq_of pages i := sb (freq_of pages i) + 1)) = bump pages (i # js) sb"
proof
  fix f
  have "filter (\<lambda>j. freq_of (pages[i := p]) j = f) js = filter (\<lambda>j. freq_of pages j = f) js"
    using assms(1) by (intro filter_cong refl) (metis nth_list_update_neq)
  then show "bump (pages[i := p]) js (sb(freq_of pages i := sb (freq_of pages i) + 1)) f = bump pages (i # js) sb f"
    by (simp add: bump_def add.assoc)
qed

lemma picks_update:
  assumes "i \<notin> set is"
  shows "picks mode fl thr (pages[i := p]) (\<lambda>j. key (pages[i := p] ! j)) is B = picks mode fl thr pages (\<lambda>j. key (pages ! j)) is B"
proof -
  have "pages[i := p] ! j = pages ! j" if "j \<in> set is" for j using assms that by (metis nth_list_update_neq)
  then show ?thesis unfolding picks_def by (intro picked_cong) (simp add: avail_def)
qed

lemma picks_subset: "i \<in> set (picks mode fl thr pages key is B) \<Longrightarrow> i \<in> set is \<and> avail fl pages i"
  unfolding picks_def by (drule picked_mem) blast

lemma not_beyond_thr [simp]: "\<not> beyond mode thr thr"
  by (simp add: beyond_def)

lemma freq_bucket [simp]: "min (unat (w :: 8 word)) 255 = unat w"
  using unsigned_less [of w, where ?'a = nat] by simp

lemma picks_Cons:
  "picks mode fl thr pages key (i # is) B =
     (if \<not> avail fl pages i then picks mode fl thr pages key is B
      else if beyond mode thr (freq_of pages i) then i # picks mode fl thr pages key is B
      else if freq_of pages i = thr \<and> B (key i) > 0 then i # picks mode fl thr pages key is (B(key i := B (key i) - 1))
      else picks mode fl thr pages key is B)"
  by (auto simp: picks_def)

lemma collect_4K_picks:
  assumes "distinct is" "\<forall>i \<in> set is. i < length pages"
    and "length addr + length (picks mode fl thr pages (\<lambda>_. 0) is (\<lambda>_. unat tmp)) \<le> nrMig"
  shows "collect_4K mode fl nrMig thr is pages addr tmp sb =
    (let P = picks mode fl thr pages (\<lambda>_. 0) is (\<lambda>_. unat tmp) in (mark P pages, addr @ P, bump pages P sb))"
  using assms
proof (induction "is" arbitrary: pages addr tmp sb)
  case (Cons i "is")
  let ?P = "picks mode fl thr pages (\<lambda>_. 0)" and ?f = "freq_of pages i"
  let ?pages = "pages[i := (pages ! i)\<lparr>ad_isSelected := True\<rparr>]"
  show ?case
  proof (cases "length addr < nrMig")
    case False
    then have "length (?P (i # is) (\<lambda>_. unat tmp)) = 0" using Cons.prems(3) by linarith
    then show ?thesis using False by (simp add: Let_def)
  next
    case less: True
    show ?thesis
    proof (cases "avail fl pages i \<and> (beyond mode thr ?f \<or> ?f = thr \<and> tmp > 0)")
      case False
      then have eq: "collect_4K mode fl nrMig thr (i # is) pages addr tmp sb = collect_4K mode fl nrMig thr is pages addr tmp sb"
        using less by (auto simp: avail_def Let_def)
      have "?P (i # is) (\<lambda>_. unat tmp) = ?P is (\<lambda>_. unat tmp)"
        using False by (auto simp: picks_Cons unat_gt_0 word_gt_0)
      then show ?thesis unfolding eq using Cons.prems by (simp add: Cons.IH)
    next
      case True
      define tmp' where "tmp' = (if ?f = thr then tmp - 1 else tmp)"
      have eq: "collect_4K mode fl nrMig thr (i # is) pages addr tmp sb =
          collect_4K mode fl nrMig thr is ?pages (addr @ [i]) tmp' (sb(?f := sb ?f + 1))"
        using less True by (auto simp: avail_def Let_def tmp'_def)
      have "picks mode fl thr pages (\<lambda>_. 0) is ((\<lambda>_. unat tmp)(0 := unat tmp - 1)) = ?P is (\<lambda>_. unat (tmp - 1))" if "tmp > 0"
        unfolding picks_def using that by (intro picked_budget) (simp add: unat_minus_one word_gt_0)
      then have P: "?P (i # is) (\<lambda>_. unat tmp) = i # ?P is (\<lambda>_. unat tmp')"
        using True by (auto simp: picks_Cons tmp'_def unat_gt_0 word_gt_0)
      have P': "picks mode fl thr ?pages (\<lambda>_. 0) is B = ?P is B" for B
        using picks_update [of i "is" mode fl thr pages _ "\<lambda>_. 0"] Cons.prems(1) by simp
      have i: "i \<notin> set (?P is (\<lambda>_. unat tmp'))" "i < length pages" using picks_subset Cons.prems(1,2) by fastforce+
      show ?thesis unfolding eq P Let_def
        by (subst Cons.IH) (use Cons.prems P in \<open>simp_all add: P' Let_def mark_Cons [OF i] bump_Cons [OF i]\<close>)
    qed
  qed
qed (simp add: picks_def)

text \<open>
  The loop for virtual machines takes a white-listed local page off the budget before it leaves it, so its
  pages are the available ones among those picked without regard to the white list.
\<close>

lemma filter_avail_update:
  "i \<notin> set xs \<Longrightarrow> filter (avail fl (pages[i := p])) xs = filter (avail fl pages) xs"
  by (intro filter_cong refl) (metis avail_def nth_list_update_neq)

lemma collect_Vm_picks:
  assumes "distinct is" "\<forall>i \<in> set is. i < length pages"
    and "length addr + length (filter (avail fl pages) (picks mode False thr pages (prior_of pages) is B)) \<le> nrMig"
  shows "collect_Vm mode fl nrMig thr is pages addr B sb =
    (let P = filter (avail fl pages) (picks mode False thr pages (prior_of pages) is B) in (mark P pages, addr @ P, bump pages P sb))"
  using assms
proof (induction "is" arbitrary: pages addr B sb)
  case (Cons i "is")
  let ?Q = "picks mode False thr pages (prior_of pages)" and ?f = "freq_of pages i" and ?p = "prior_of pages i"
  let ?pages = "pages[i := (pages ! i)\<lparr>ad_isSelected := True\<rparr>]"
  define B' where "B' = (if \<not> beyond mode thr ?f then B(?p := B ?p - 1) else B)"
  show ?case
  proof (cases "length addr < nrMig")
    case False
    then have "length (filter (avail fl pages) (?Q (i # is) B)) = 0" using Cons.prems(3) by linarith
    then show ?thesis using False by (simp add: Let_def)
  next
    case less: True
    consider "\<not> (avail False pages i \<and> (beyond mode thr ?f \<or> ?f = thr \<and> B ?p > 0))"
      | "avail False pages i" "beyond mode thr ?f \<or> ?f = thr \<and> B ?p > 0" "\<not> avail fl pages i"
      | "avail False pages i" "beyond mode thr ?f \<or> ?f = thr \<and> B ?p > 0" "avail fl pages i" by blast
    then show ?thesis
    proof cases
      case 1
      then have eq: "collect_Vm mode fl nrMig thr (i # is) pages addr B sb = collect_Vm mode fl nrMig thr is pages addr B sb"
        using less by (auto simp: avail_def Let_def)
      have "?Q (i # is) B = ?Q is B" using 1 by (auto simp: picks_Cons)
      then show ?thesis unfolding eq using Cons.prems by (simp add: Cons.IH)
    next
      case 2
      then have eq: "collect_Vm mode fl nrMig thr (i # is) pages addr B sb = collect_Vm mode fl nrMig thr is pages addr B' sb"
        using less by (auto simp: avail_def Let_def B'_def)
      have "?Q (i # is) B = i # ?Q is B'" using 2 by (auto simp: picks_Cons B'_def)
      then show ?thesis unfolding eq using Cons.prems 2(3) by (simp add: Cons.IH)
    next
      case 3
      have eq: "collect_Vm mode fl nrMig thr (i # is) pages addr B sb =
          collect_Vm mode fl nrMig thr is ?pages (addr @ [i]) B' (sb(?f := sb ?f + 1))"
        using less 3 by (auto simp: avail_def Let_def B'_def)
      have Q: "?Q (i # is) B = i # ?Q is B'" using 3 by (auto simp: picks_Cons B'_def)
      have Q': "picks mode False thr ?pages (prior_of ?pages) is B'' = ?Q is B''" for B''
        using picks_update [of i "is" mode False thr pages _ "\<lambda>p. unat (ad_prior p)"] Cons.prems(1) by simp
      have i: "i \<notin> set (?Q is B')" "i < length pages" using picks_subset Cons.prems(1,2) by fastforce+
      have F: "filter (avail fl ?pages) (?Q is B') = filter (avail fl pages) (?Q is B')" by (rule filter_avail_update [OF i(1)])
      have i': "i \<notin> set (filter (avail fl pages) (?Q is B'))" using i(1) by simp
      show ?thesis unfolding eq Q Let_def
        by (subst Cons.IH) (use Cons.prems Q 3 in \<open>simp_all add: Q' F Let_def mark_Cons [OF i' i(2)] bump_Cons [OF i' i(2)]\<close>)
    qed
  qed
qed (simp add: picks_def)

section \<open>Pages by priority\<close>

lemma prior_counts_eq:
  assumes "n < 2 ^ 64"
  shows "prior_counts n thr pages p =
    length (filter (\<lambda>i. \<not> ad_isSelected (pages ! i) \<and> ad_freq (pages ! i) = of_nat thr \<and> prior_of pages i = p) [0..<n])"
proof -
  define f where "f = (\<lambda>i (counts :: nat \<Rightarrow> nat). let page = pages ! i in
        if ad_isSelected page then counts else if ad_freq page \<noteq> of_nat thr then counts
        else counts(unat (ad_prior page) := add64 (counts (unat (ad_prior page))) 1))"
  have "fold f [0..<m] (\<lambda>_. 0) p = length (filter (\<lambda>i. \<not> ad_isSelected (pages ! i) \<and> ad_freq (pages ! i) = of_nat thr \<and> prior_of pages i = p) [0..<m])"
    if "m < 2 ^ 64" for m
    using that
  proof (induction m)
    case (Suc m)
    let ?Q = "\<lambda>i. \<not> ad_isSelected (pages ! i) \<and> ad_freq (pages ! i) = of_nat thr \<and> prior_of pages i = p"
    have "length (filter ?Q [0..<m]) \<le> m" using length_filter_le [of ?Q "[0..<m]"] by simp
    then have "add64 (length (filter ?Q [0..<m])) 1 = length (filter ?Q [0..<m]) + 1" using Suc.prems by (intro add64_eq) simp
    moreover have "fold f [0..<m] (\<lambda>_. 0) p = length (filter ?Q [0..<m])" using Suc by simp
    moreover have "f m X p = (if ?Q m then add64 (X p) 1 else X p)" for X by (auto simp: f_def Let_def)
    ultimately show ?case by simp
  qed simp
  then show ?thesis using assms by (simp add: prior_counts_def f_def)
qed

lemma take_from_upd: "q \<notin> set ps \<Longrightarrow> take_from ps c rem (T(q := v)) = (take_from ps c rem T)(q := v)"
  by (induction ps arbitrary: rem T) (auto simp: Let_def fun_upd_twist)

lemma take_from_0 [simp]: "take_from ps c 0 T = T"
  by (cases ps) auto

lemma take_from_Cons:
  "a \<notin> set ps \<Longrightarrow> take_from (a # ps) c rem (\<lambda>_. 0) = (take_from ps c (rem - min (c a) rem) (\<lambda>_. 0))(a := min (c a) rem)"
  by (simp add: Let_def take_from_upd fun_eq_iff)

lemma take_from_other: "p \<notin> set ps \<Longrightarrow> take_from ps c rem T p = T p"
  by (induction ps arbitrary: rem T) (auto simp: Let_def)

lemma take_from_le: "distinct ps \<Longrightarrow> take_from ps c rem (\<lambda>_. 0) p \<le> c p"
  by (induction ps arbitrary: rem) (auto simp: take_from_Cons simp del: take_from.simps(2))

lemma take_from_sum: "distinct ps \<Longrightarrow> (\<Sum>p\<leftarrow>ps. take_from ps c rem (\<lambda>_. 0) p) = min rem (\<Sum>p\<leftarrow>ps. c p)"
proof (induction ps arbitrary: rem)
  case (Cons a ps)
  have m: "map (take_from (a # ps) c rem (\<lambda>_. 0)) ps = map (take_from ps c (rem - min (c a) rem) (\<lambda>_. 0)) ps"
    using Cons.prems by (intro map_cong refl) (auto simp: take_from_Cons simp del: take_from.simps(2))
  have h: "take_from (a # ps) c rem (\<lambda>_. 0) a = min (c a) rem"
    using Cons.prems by (simp add: take_from_Cons del: take_from.simps(2))
  have "(\<Sum>p\<leftarrow>a # ps. take_from (a # ps) c rem (\<lambda>_. 0) p) = min (c a) rem + min (rem - min (c a) rem) (\<Sum>p\<leftarrow>ps. c p)"
    unfolding list.map sum_list.Cons h m using Cons.IH Cons.prems by simp
  then show ?case by (simp del: take_from.simps(2))
qed simp

lemma take_from_order:
  assumes "sorted_wrt (>) ps" "p \<in> set ps" "q \<in> set ps" "p < q" "take_from ps c rem (\<lambda>_. 0) p > 0"
  shows "take_from ps c rem (\<lambda>_. 0) q = c q"
  using assms
proof (induction ps arbitrary: rem)
  case (Cons a ps)
  have a: "a \<notin> set ps" using Cons.prems(1) by auto
  have "p \<noteq> a" "p \<in> set ps" using Cons.prems(1,2,3,4) by auto
  then have tail: "take_from ps c (rem - min (c a) rem) (\<lambda>_. 0) p > 0"
    using Cons.prems(5) by (simp add: take_from_Cons [OF a] del: take_from.simps(2))
  show ?case
  proof (cases "q = a")
    case True
    have "rem - min (c a) rem \<noteq> 0" using tail by (intro notI) simp
    then show ?thesis using True by (simp add: take_from_Cons [OF a] min_def del: take_from.simps(2) split: if_splits)
  next
    case False
    then show ?thesis using Cons.IH [OF _ \<open>p \<in> set ps\<close> _ Cons.prems(4) tail] Cons.prems(1,3)
      by (simp add: take_from_Cons [OF a] del: take_from.simps(2))
  qed
qed simp

section \<open>Selection of the coldest and hottest pages\<close>

definition pages_at :: "bool \<Rightarrow> nat \<Rightarrow> ActcData list \<Rightarrow> nat \<Rightarrow> nat" where
  "pages_at fromLocal n pages f = length (filter (\<lambda>i. avail fromLocal pages i \<and> freq_of pages i = f) [0..<n])"

definition avail_count :: "bool \<Rightarrow> nat \<Rightarrow> ActcData list \<Rightarrow> nat" where
  "avail_count fromLocal n pages = length (filter (avail fromLocal pages) [0..<n])"

text \<open>The frequency buckets of a node count its pages: those that are selected and those that are available.\<close>

definition buckets_ok :: "bool \<Rightarrow> nat \<Rightarrow> ActcData list \<Rightarrow> (nat \<Rightarrow> u32) \<Rightarrow> (nat \<Rightarrow> u32) \<Rightarrow> bool" where
  "buckets_ok fromLocal n pages fb sb \<longleftrightarrow> (\<forall>f < 256. unat (fb f) = unat (sb f) + pages_at fromLocal n pages f)"

text \<open>
  As many pages as asked for, if there are so many, less at most \<open>short\<close>; and none of the others would have been a
  better choice.
\<close>

definition best_pages :: "SelectionMode \<Rightarrow> bool \<Rightarrow> nat \<Rightarrow> ActcData list \<Rightarrow> nat \<Rightarrow> nat \<Rightarrow> nat list \<Rightarrow> bool" where
  "best_pages mode fromLocal n pages nrMig short addr \<longleftrightarrow>
     sorted_wrt (<) addr \<and> (\<forall>i \<in> set addr. i < n \<and> avail fromLocal pages i) \<and>
     length addr \<le> min nrMig (avail_count fromLocal n pages) \<and> min nrMig (avail_count fromLocal n pages) \<le> length addr + short \<and>
     (\<forall>i \<in> set addr. \<forall>j < n. avail fromLocal pages j \<and> j \<notin> set addr \<longrightarrow>
       (if mode = SELECT_TOP_K then freq_of pages j \<le> freq_of pages i else freq_of pages i \<le> freq_of pages j))"

lemma best_pagesI:
  assumes "sorted_wrt (<) P"
    and mem: "\<And>i. i \<in> set P \<Longrightarrow> i < n \<and> avail fl pages i \<and> (beyond mode t (freq_of pages i) \<or> freq_of pages i = t)"
    and rest: "\<And>j. j < n \<Longrightarrow> avail fl pages j \<Longrightarrow> beyond mode t (freq_of pages j) \<Longrightarrow> j \<in> set P"
    and "length P \<le> min nrMig (avail_count fl n pages)" "min nrMig (avail_count fl n pages) \<le> length P + short"
  shows "best_pages mode fl n pages nrMig short P"
  unfolding best_pages_def
proof (intro conjI ballI allI impI)
  fix i assume "i \<in> set P"
  note i = mem [OF this]
  then show "i < n" "avail fl pages i" by auto
  fix j assume "j < n" "avail fl pages j \<and> j \<notin> set P"
  then have "\<not> beyond mode t (freq_of pages j)" using rest by blast
  then show "if mode = SELECT_TOP_K then freq_of pages j \<le> freq_of pages i else freq_of pages i \<le> freq_of pages j"
    using i by (auto simp: beyond_def split: if_splits)
qed (use assms in auto)

text \<open>The white-listed pages of a local node that are not selected.\<close>

definition white_count :: "bool \<Rightarrow> nat \<Rightarrow> ActcData list \<Rightarrow> nat" where
  "white_count fromLocal n pages = length (filter (\<lambda>i. avail False pages i \<and> \<not> avail fromLocal pages i) [0..<n])"

lemma white_count_remote [simp]: "white_count False n pages = 0"
  by (simp add: white_count_def)

lemma freq_less [simp]: "unat (w :: 8 word) < 256"
  using unsigned_less [of w, where ?'a = nat] by simp

lemma sum_classes:
  assumes "finite F"
  shows "(\<Sum>f\<in>F. length (filter (\<lambda>i. A i \<and> k i = f) xs)) = length (filter (\<lambda>i. A i \<and> k i \<in> F) xs)"
proof (induction xs)
  case (Cons x xs)
  have "(\<Sum>f\<in>F. length (filter (\<lambda>i. A i \<and> k i = f) (x # xs))) =
      (\<Sum>f\<in>F. length (filter (\<lambda>i. A i \<and> k i = f) xs) + (if f = k x then (if A x then 1 else 0) else 0))"
    by (rule sum.cong) auto
  then show ?case using Cons assms by (simp add: sum.distrib sum.delta)
qed simp

lemma sum_pages_at:
  assumes "distinct fs"
  shows "(\<Sum>f\<leftarrow>fs. pages_at fl n pages f) = length (filter (\<lambda>i. avail fl pages i \<and> freq_of pages i \<in> set fs) [0..<n])"
  using assms by (simp add: sum_list_distinct_conv_sum_set pages_at_def sum_classes)

abbreviation bucket_order :: "SelectionMode \<Rightarrow> nat list" where
  "bucket_order mode \<equiv> (if mode = SELECT_TOP_K then rev [0..<256] else [0..<256])"

lemma bucket_order_prefix:
  assumes "bucket_order mode = xs @ t # ys"
  shows "t < 256" and "f < 256 \<Longrightarrow> f \<in> set xs \<longleftrightarrow> beyond mode t f" and "distinct xs"
proof -
  have s: "set (xs @ t # ys) = {..<256}" unfolding assms [symmetric] by (auto split: if_splits)
  then show "t < 256" by auto
  have "distinct (xs @ t # ys)" unfolding assms [symmetric] by simp
  then show "distinct xs" by simp
  have "if mode = SELECT_TOP_K then sorted_wrt (>) (xs @ t # ys) else sorted_wrt (<) (xs @ t # ys)"
    unfolding assms [symmetric] by (simp add: sorted_wrt_rev sorted_wrt_upt)
  then have o: "(\<forall>x \<in> set xs. beyond mode t x) \<and> (\<forall>y \<in> set ys. \<not> beyond mode t y)"
    by (auto simp: sorted_wrt_append beyond_def split: if_splits)
  assume "f < 256"
  then have "f \<in> set xs \<or> f = t \<or> f \<in> set ys" using s by auto
  then show "f \<in> set xs \<longleftrightarrow> beyond mode t f" using o by auto
qed

lemma FindThreshold_spec:
  assumes n: "n < 2 ^ 64" "0 < nrMig" "nrMig \<le> n" and b: "\<And>f. f < 256 \<Longrightarrow> unat (b f) = pages_at fl n pages f"
    and ft: "FindThreshold mode nrMig b = (t, k)"
  defines "strict \<equiv> length (filter (\<lambda>i. avail fl pages i \<and> beyond mode t (freq_of pages i)) [0..<n])"
  shows "nrMig \<le> avail_count fl n pages \<and> t < 256 \<and> strict + unat k = nrMig \<and> unat k \<le> pages_at fl n pages t \<or>
    avail_count fl n pages < nrMig \<and> k = 0 \<and> t = (if mode = SELECT_TOP_K then 0 else 256)"
proof -
  let ?o = "bucket_order mode"
  have sum: "(\<Sum>f\<leftarrow>fs. unat (b f)) = length (filter (\<lambda>i. avail fl pages i \<and> freq_of pages i \<in> set fs) [0..<n])"
    if "set fs \<subseteq> {..<256}" "distinct fs" for fs
  proof -
    have "map (\<lambda>f. unat (b f)) fs = map (pages_at fl n pages) fs" using b that(1) by auto
    then show ?thesis by (simp only: sum_pages_at [OF that(2)])
  qed
  have so: "set ?o = {..<256}" by auto
  have all: "(\<Sum>f\<leftarrow>?o. unat (b f)) = avail_count fl n pages"
    unfolding avail_count_def by (subst sum) (auto intro!: arg_cong [of _ _ length] filter_cong)
  have "avail_count fl n pages \<le> n" unfolding avail_count_def using length_filter_le [of "avail fl pages" "[0..<n]"] by simp
  then have bound: "(0 :: nat) + (\<Sum>f\<leftarrow>?o. unat (b f)) < 2 ^ 64" using n unfolding all by simp
  have "nrMig < 2 ^ 64" using n by simp
  note spec = threshold_scan_spec [OF n(2) this bound, unfolded all]
  show ?thesis
  proof (cases "threshold_scan ?o nrMig b 0")
    case None
    then show ?thesis using spec ft by (auto simp: FindThreshold_def Let_def split: if_splits)
  next
    case (Some tk)
    then have tk: "tk = (t, k)" using ft by (auto simp: FindThreshold_def Let_def)
    from spec obtain xs ys where x: "?o = xs @ t # ys" "(\<Sum>f\<leftarrow>xs. unat (b f)) + unat k = nrMig" "unat k \<le> unat (b t)"
      unfolding Some tk option.case prod.case by auto
    note pre = bucket_order_prefix [OF x(1)]
    have "set xs \<subseteq> {..<256}" using so unfolding x(1) by auto
    then have "(\<Sum>f\<leftarrow>xs. unat (b f)) = strict" unfolding strict_def
      by (subst sum [OF _ pre(3)]) (auto intro!: arg_cong [of _ _ length] filter_cong simp: pre(2))
    moreover have "(\<Sum>f\<leftarrow>xs. unat (b f)) + unat (b t) \<le> (\<Sum>f\<leftarrow>?o. unat (b f))" unfolding x(1) by simp
    ultimately show ?thesis using x(2,3) pre(1) b [of t] all by auto
  qed
qed


lemma picks_best:
  assumes n: "n < 2 ^ 64" "0 < nrMig" "nrMig \<le> n" and b: "\<And>f. f < 256 \<Longrightarrow> unat (b f) = pages_at fl n pages f"
    and ft: "FindThreshold mode nrMig b = (t, k)" and many: "mode = SELECT_TOP_K \<Longrightarrow> nrMig \<le> avail_count fl n pages"
    and key: "\<And>i. i < n \<Longrightarrow> key i < m"
    and B: "t < 256 \<Longrightarrow> unat k \<le> pages_at fl n pages t \<Longrightarrow>
      (\<Sum>p<m. min (B p) (length (filter (\<lambda>i. (avail fl pages i \<and> freq_of pages i = t) \<and> key i = p) [0..<n]))) = unat k"
  shows "best_pages mode fl n pages nrMig 0 (picks mode fl t pages key [0..<n] B)"
proof -
  let ?P = "picks mode fl t pages key [0..<n] B" and ?S = "\<lambda>i. avail fl pages i \<and> beyond mode t (freq_of pages i)"
  let ?T = "\<lambda>i. avail fl pages i \<and> freq_of pages i = t"
  have dis: "\<not> (?S i \<and> ?T i)" for i by auto
  have len: "length ?P = length (filter ?S [0..<n]) +
      (\<Sum>p<m. min (B p) (length (filter (\<lambda>i. ?T i \<and> key i = p) [0..<n])))"
    unfolding picks_def by (rule length_picked [OF dis]) (simp add: key)
  have length: "length ?P = min nrMig (avail_count fl n pages)"
  proof (rule disjE [OF FindThreshold_spec [OF n b ft]])
    assume a: "nrMig \<le> avail_count fl n pages \<and> t < 256 \<and> length (filter ?S [0..<n]) + unat k = nrMig \<and> unat k \<le> pages_at fl n pages t"
    then show ?thesis using len B by simp
  next
    assume a: "avail_count fl n pages < nrMig \<and> k = 0 \<and> t = (if mode = SELECT_TOP_K then 0 else 256)"
    then have "mode \<noteq> SELECT_TOP_K" "t = 256" using many by auto
    then have "filter ?S [0..<n] = filter (avail fl pages) [0..<n]" "filter (\<lambda>i. ?T i \<and> key i = p) [0..<n] = []" for p
      by (auto simp: beyond_def filter_empty_conv intro!: filter_cong) (metis freq_less less_irrefl)
    then show ?thesis using len a by (simp add: avail_count_def)
  qed
  have mem: "i < n \<and> (?S i \<or> ?T i)" if "i \<in> set ?P" for i using that unfolding picks_def by (auto dest: picked_mem)
  have rest: "\<not> ?S j" if "j < n" "j \<notin> set ?P" for j using that picked_beyond [of j "[0..<n]" ?S] unfolding picks_def by auto
  show ?thesis
  proof (rule best_pagesI [where t = t])
    show "sorted_wrt (<) ?P" unfolding picks_def by (rule picked_sorted) (rule sorted_wrt_upt)
  qed (use mem rest length in auto)
qed

text \<open>
  Both loops give the best pages, mark them, and keep the buckets in agreement with the pages. The
  loop for virtual machines takes, among pages of the same frequency, those of higher priority.
\<close>

lemma buckets_ok_mark:
  assumes ok: "buckets_ok fl n pages fb sb" and len: "n \<le> length pages" and P: "sorted_wrt (<) P" "\<forall>i \<in> set P. i < n \<and> avail fl pages i"
  shows "buckets_ok fl n (mark P pages) fb (bump pages P sb)"
  unfolding buckets_ok_def
proof (intro allI impI)
  fix f :: nat assume f: "f < 256"
  let ?c = "\<lambda>xs. length (filter (\<lambda>j. freq_of pages j = f) xs)"
  let ?A = "filter (\<lambda>i. avail fl pages i \<and> freq_of pages i = f) [0..<n]"
  have dist: "distinct P" using P(1) by (simp add: strict_sorted_iff)
  have av: "(avail fl (mark P pages) i \<and> freq_of (mark P pages) i = f) = ((avail fl pages i \<and> freq_of pages i = f) \<and> i \<notin> set P)"
    if "i < n" for i using that len by (cases "i \<in> set P") (simp_all add: avail_def)
  have "filter (\<lambda>i. avail fl (mark P pages) i \<and> freq_of (mark P pages) i = f) [0..<n] = filter (\<lambda>i. i \<notin> set P) ?A"
    unfolding filter_filter by (rule filter_cong) (simp_all add: av)
  moreover have "length (filter (\<lambda>i. i \<in> set P) ?A) = ?c P"
  proof -
    have e: "set (filter (\<lambda>i. i \<in> set P) ?A) = set (filter (\<lambda>j. freq_of pages j = f) P)" using P(2) by auto
    have d: "distinct (filter (\<lambda>i. i \<in> set P) ?A)" by (intro distinct_filter) (rule distinct_upt)
    show ?thesis
      unfolding distinct_card [OF d, symmetric] distinct_card [OF distinct_filter [OF dist], symmetric] e ..
  qed
  ultimately have split: "pages_at fl n pages f = ?c P + pages_at fl n (mark P pages) f"
    unfolding pages_at_def using sum_length_filter_compl [of "\<lambda>i. i \<in> set P" ?A] by simp
  have eq: "unat (fb f) = unat (sb f) + pages_at fl n pages f" using ok f by (simp add: buckets_ok_def)
  have "?c P \<le> UINT32_MAX" using eq split unat_u32_le [of "fb f"] by linarith
  then have c: "unat (of_nat (?c P) :: u32) = ?c P" by (rule unat_of_nat_u32)
  have "unat (bump pages P sb f) = unat (sb f) + unat (of_nat (?c P) :: u32)"
    unfolding bump_def by (rule unat_plus_bounded [where c = "fb f"]) (use eq split c in simp)
  then have "unat (bump pages P sb f) = unat (sb f) + ?c P" by (simp only: c)
  then show "unat (fb f) = unat (bump pages P sb f) + pages_at fl n (mark P pages) f" using eq split by simp
qed


lemma CollectPages4K_best:
  assumes "n < 2 ^ 64" "0 < nrMig" "nrMig \<le> n" and "\<And>f. f < 256 \<Longrightarrow> unat (b f) = pages_at fl n pages f"
    and "FindThreshold mode nrMig b = (t, k)" and "mode = SELECT_TOP_K \<Longrightarrow> nrMig \<le> avail_count fl n pages" and len: "n \<le> length pages"
  shows "\<exists>P. CollectPages4K mode fl n pages nrMig t k sb = (mark P pages, P, bump pages P sb) \<and> best_pages mode fl n pages nrMig 0 P"
proof -
  let ?P = "picks mode fl t pages (\<lambda>_. 0) [0..<n] (\<lambda>_. unat k)"
  have best: "best_pages mode fl n pages nrMig 0 ?P"
    by (rule picks_best [OF assms(1-6), where m = 1]) (simp_all add: pages_at_def)
  then have "length ?P \<le> nrMig" by (simp add: best_pages_def)
  then have "CollectPages4K mode fl n pages nrMig t k sb = (mark ?P pages, ?P, bump pages ?P sb)"
    unfolding CollectPages4K_def using len by (subst collect_4K_picks) (simp_all add: Let_def)
  with best show ?thesis by blast
qed

definition prior_first :: "bool \<Rightarrow> nat \<Rightarrow> ActcData list \<Rightarrow> nat list \<Rightarrow> bool" where
  "prior_first fromLocal n pages addr \<longleftrightarrow>
     (\<forall>i \<in> set addr. \<forall>j < n. avail fromLocal pages j \<and> j \<notin> set addr \<and> freq_of pages j = freq_of pages i \<longrightarrow>
       prior_of pages j \<le> prior_of pages i)"

lemma prior_less [simp]: "unat (w :: 6 word) < 64"
  using unsigned_less [of w, where ?'a = nat] by simp

lemma byte_eq_iff: "t < 256 \<Longrightarrow> (w :: 8 word) = of_nat t \<longleftrightarrow> unat w = t"
  using word_unat_eq_iff [of w "of_nat t"] by (simp add: unat_of_nat)

lemma filter_full:
  assumes "distinct xs" "distinct ys" "set xs \<subseteq> set ys" "length (filter Q xs) = length (filter Q ys)" "y \<in> set ys" "Q y"
  shows "y \<in> set xs"
proof -
  have "card (set (filter Q xs)) = card (set (filter Q ys))"
    unfolding distinct_card [OF distinct_filter [OF assms(1)]] distinct_card [OF distinct_filter [OF assms(2)]] by (rule assms(4))
  moreover have "set (filter Q xs) \<subseteq> set (filter Q ys)" using assms(3) by auto
  ultimately have "set (filter Q xs) = set (filter Q ys)" by (intro card_subset_eq) simp_all
  then show ?thesis using assms(5,6) by auto
qed

lemma avail_mono: "avail fl pages i \<Longrightarrow> avail False pages i"
  by (simp add: avail_def)

text \<open>The number of pages picked at the threshold, and how many of them the white list takes away.\<close>

lemma picks_white:
  fixes n t :: nat and mode :: SelectionMode and pages :: "ActcData list" and key B :: "nat \<Rightarrow> nat"
  defines "Q \<equiv> picks mode False t pages key [0..<n] B"
  assumes key: "\<And>i. key i < m" and B: "(\<Sum>p<m. min (B p) (length (filter (\<lambda>i. (avail False pages i \<and> freq_of pages i = t) \<and> key i = p) [0..<n]))) = k"
  shows "length (filter (avail fl pages) Q) \<le> length (filter (\<lambda>i. avail fl pages i \<and> beyond mode t (freq_of pages i)) [0..<n]) + k"
    and "length (filter (\<lambda>i. avail fl pages i \<and> beyond mode t (freq_of pages i)) [0..<n]) + k \<le> length (filter (avail fl pages) Q) + white_count fl n pages"
proof -
  let ?S = "\<lambda>i. avail False pages i \<and> beyond mode t (freq_of pages i)" and ?T = "\<lambda>i. avail False pages i \<and> freq_of pages i = t"
  let ?A = "filter (avail fl pages)" and ?N = "filter (\<lambda>i. \<not> avail fl pages i)"
  have dis: "\<not> (?S i \<and> ?T i)" for i by auto
  have NS: "filter (\<lambda>i. \<not> ?S i) Q = filter ?T Q" using picked_subset [of ?S ?T key "[0..<n]" B] dis
    unfolding Q_def picks_def by (intro filter_cong) auto
  have swap: "filter X (?A Q) = ?A (filter X Q)" for X by (simp add: conj_commute)
  have split: "length (?A Q) = length (?A (filter ?S Q)) + length (?A (filter ?T Q))"
    using sum_length_filter_compl [of ?S "?A Q"] unfolding swap NS by (rule sym)
  have "filter ?S Q = filter ?S [0..<n]" unfolding Q_def picks_def by (rule picked_filter(1) [OF dis])
  then have strict: "?A (filter ?S Q) = filter (\<lambda>i. avail fl pages i \<and> beyond mode t (freq_of pages i)) [0..<n]"
    using avail_mono by (auto intro!: filter_cong)
  have len: "length Q = length (filter ?S [0..<n]) + k" unfolding Q_def picks_def B [symmetric] by (rule length_picked [OF dis key])
  have "length (filter ?S Q) + length (filter ?T Q) = length Q"
    using sum_length_filter_compl [of ?S Q] unfolding NS .
  then have T: "length (filter ?T Q) = k" using len \<open>filter ?S Q = filter ?S [0..<n]\<close> by simp
  have "sorted_wrt (<) Q" unfolding Q_def picks_def by (rule picked_sorted) (rule sorted_wrt_upt)
  then have dist: "distinct Q" by (simp add: strict_sorted_iff)
  have "set (?N (filter ?T Q)) \<subseteq> set (filter (\<lambda>i. avail False pages i \<and> \<not> avail fl pages i) [0..<n])"
    unfolding Q_def picks_def by (auto dest: picked_mem)
  then have "card (set (?N (filter ?T Q))) \<le> card (set (filter (\<lambda>i. avail False pages i \<and> \<not> avail fl pages i) [0..<n]))"
    by (intro card_mono) simp_all
  moreover have "card (set (?N (filter ?T Q))) = length (?N (filter ?T Q))" by (intro distinct_card distinct_filter dist)
  moreover have "card (set (filter (\<lambda>i. avail False pages i \<and> \<not> avail fl pages i) [0..<n])) = white_count fl n pages"
    unfolding white_count_def by (intro distinct_card distinct_filter distinct_upt)
  ultimately have "length (?N (filter ?T Q)) \<le> white_count fl n pages" by linarith
  moreover have "length (?A (filter ?T Q)) + length (?N (filter ?T Q)) = k" using sum_length_filter_compl [of "avail fl pages" "filter ?T Q"] T by simp
  ultimately show "length (?A Q) \<le> length (filter (\<lambda>i. avail fl pages i \<and> beyond mode t (freq_of pages i)) [0..<n]) + k"
    and "length (filter (\<lambda>i. avail fl pages i \<and> beyond mode t (freq_of pages i)) [0..<n]) + k \<le> length (?A Q) + white_count fl n pages"
    using split strict by simp_all
qed

lemma CollectPagesVm_best:
  assumes n: "n < 2 ^ 64" "0 < nrMig" "nrMig \<le> n" and b: "\<And>f. f < 256 \<Longrightarrow> unat (b f) = pages_at fl n pages f"
    and ft: "FindThreshold mode nrMig b = (t, k)" and many: "mode = SELECT_TOP_K \<Longrightarrow> nrMig \<le> avail_count fl n pages" and len: "n \<le> length pages"
  shows "\<exists>P. CollectPagesVm mode fl n pages nrMig t k sb = (mark P pages, P, bump pages P sb) \<and>
    best_pages mode fl n pages nrMig (white_count fl n pages) P \<and> prior_first fl n pages P"
proof -
  define c where "c = prior_counts n t pages"
  define B where "B = take_from (rev [0..<64]) c (unat k) (\<lambda>_. 0)"
  define Q where "Q = picks mode False t pages (prior_of pages) [0..<n] B"
  let ?P = "filter (avail fl pages) Q"
  let ?S = "\<lambda>i. avail False pages i \<and> beyond mode t (freq_of pages i)" and ?T = "\<lambda>i. avail False pages i \<and> freq_of pages i = t"
  let ?strict = "length (filter (\<lambda>i. avail fl pages i \<and> beyond mode t (freq_of pages i)) [0..<n])"
  have dis: "\<not> (?S i \<and> ?T i)" for i by auto
  have cnt: "length (filter (\<lambda>i. ?T i \<and> prior_of pages i = p) [0..<n]) = c p" if "t < 256" for p
    unfolding c_def prior_counts_eq [OF n(1)]
    by (intro arg_cong [of _ _ length] filter_cong) (auto simp: avail_def byte_eq_iff [OF that])
  have sumc: "(\<Sum>p<64. c p) = pages_at False n pages t" if "t < 256"
    unfolding pages_at_def length_by_class [of "[0..<n]" "prior_of pages" 64 ?T, OF prior_less] using cnt [OF that] by simp
  have sumB: "(\<Sum>p<64. B p) = min (unat k) (\<Sum>p<64. c p)"
    using take_from_sum [of "rev [0..<64]" c "unat k"] by (simp add: B_def sum_list_distinct_conv_sum_set atLeast0LessThan)
  have leB: "B p \<le> c p" for p unfolding B_def by (rule take_from_le) simp
  have bounds: "?strict + unat k \<le> length ?P + white_count fl n pages \<and> length ?P \<le> ?strict + unat k"
    if k: "unat k = 0 \<or> t < 256 \<and> unat k \<le> pages_at fl n pages t"
  proof -
    have "(\<Sum>p<64. min (B p) (length (filter (\<lambda>i. ?T i \<and> prior_of pages i = p) [0..<n]))) = unat k"
    proof (cases "unat k = 0")
      case True
      then show ?thesis using sumB by simp
    next
      case False
      then have t: "t < 256" "unat k \<le> pages_at fl n pages t" using k by auto
      have "filter (\<lambda>i. avail fl pages i \<and> freq_of pages i = t) [0..<n] = filter (avail fl pages) (filter ?T [0..<n])"
        unfolding filter_filter using avail_mono by (intro filter_cong) auto
      then have "pages_at fl n pages t \<le> pages_at False n pages t"
        using length_filter_le [of "avail fl pages" "filter ?T [0..<n]"] by (simp only: pages_at_def)
      moreover have "(\<Sum>p<64. min (B p) (length (filter (\<lambda>i. ?T i \<and> prior_of pages i = p) [0..<n]))) = (\<Sum>p<64. B p)"
        unfolding cnt [OF t(1)] using leB by (intro sum.cong) simp_all
      ultimately show ?thesis using sumB sumc [OF t(1)] t(2) by simp
    qed
    note w = picks_white [where key = "prior_of pages" and m = 64 and fl = fl and mode = mode, OF prior_less this, folded Q_def]
    show ?thesis by (intro conjI w)
  qed
  have lenP: "length ?P \<le> min nrMig (avail_count fl n pages) \<and> min nrMig (avail_count fl n pages) \<le> length ?P + white_count fl n pages"
  proof (rule disjE [OF FindThreshold_spec [OF n b ft]])
    assume a: "nrMig \<le> avail_count fl n pages \<and> t < 256 \<and> ?strict + unat k = nrMig \<and> unat k \<le> pages_at fl n pages t"
    from a have "unat k = 0 \<or> t < 256 \<and> unat k \<le> pages_at fl n pages t" by blast
    from bounds [OF this] a show ?thesis by linarith
  next
    assume a: "avail_count fl n pages < nrMig \<and> k = 0 \<and> t = (if mode = SELECT_TOP_K then 0 else 256)"
    then have "mode \<noteq> SELECT_TOP_K" "t = 256" using many by auto
    then have "filter (\<lambda>i. avail fl pages i \<and> beyond mode t (freq_of pages i)) [0..<n] = filter (avail fl pages) [0..<n]"
      by (intro filter_cong) (simp_all add: beyond_def)
    then have "?strict = avail_count fl n pages" by (simp add: avail_count_def)
    moreover have k0: "unat k = 0" using a by simp
    ultimately show ?thesis using bounds [OF disjI1 [OF k0]] a by linarith
  qed
  have sorted: "sorted_wrt (<) Q" unfolding Q_def picks_def by (rule picked_sorted) (rule sorted_wrt_upt)
  have best: "best_pages mode fl n pages nrMig (white_count fl n pages) ?P"
  proof (rule best_pagesI [where t = t])
    show "sorted_wrt (<) ?P" using sorted by (rule sorted_wrt_filter)
    show "i < n \<and> avail fl pages i \<and> (beyond mode t (freq_of pages i) \<or> freq_of pages i = t)" if "i \<in> set ?P" for i
      using that unfolding Q_def picks_def by (auto dest: picked_mem)
    show "j \<in> set ?P" if "j < n" "avail fl pages j" "beyond mode t (freq_of pages j)" for j
      using that picked_beyond [of j "[0..<n]" ?S] avail_mono unfolding Q_def picks_def by auto
  qed (use lenP in auto)
  have "prior_first fl n pages ?P" unfolding prior_first_def
  proof (intro ballI allI impI)
    fix i j assume i: "i \<in> set ?P" and j: "j < n" "avail fl pages j \<and> j \<notin> set ?P \<and> freq_of pages j = freq_of pages i"
    have mi: "i < n \<and> (?S i \<or> ?T i)" using i unfolding Q_def picks_def by (auto dest: picked_mem)
    have av: "avail False pages j" and jQ: "j \<notin> set Q" using j avail_mono by auto
    have "\<not> ?S j" using j(1) jQ picked_beyond [of j "[0..<n]" ?S] unfolding Q_def picks_def by auto
    then have T: "?T i" "?T j" using mi j av by auto
    then have t: "t < 256" by (metis freq_less)
    show "prior_of pages j \<le> prior_of pages i"
    proof (rule ccontr)
      assume "\<not> prior_of pages j \<le> prior_of pages i"
      then have lt: "prior_of pages i < prior_of pages j" by simp
      let ?F = "\<lambda>p xs. filter (\<lambda>x. ?T x \<and> prior_of pages x = p) xs"
      have num: "length (?F p Q) = min (B p) (c p)" for p unfolding Q_def picks_def picked_filter(2) [OF dis] cnt [OF t] ..
      have "i \<in> set (?F (prior_of pages i) Q)" using i T by simp
      from length_pos_if_in_set [OF this] have "B (prior_of pages i) > 0" unfolding num by simp
      then have B: "B (prior_of pages j) = c (prior_of pages j)"
        unfolding B_def by (rule take_from_order [rotated 4]) (use lt in \<open>simp_all add: sorted_wrt_rev sorted_wrt_upt prior_less\<close>)
      have "j \<in> set Q"
      proof (rule filter_full [of Q "[0..<n]"])
        show "distinct Q" using sorted by (simp add: strict_sorted_iff)
        show "set Q \<subseteq> set [0..<n]" unfolding Q_def using picks_subset by blast
        show "length (?F (prior_of pages j) Q) = length (?F (prior_of pages j) [0..<n])" unfolding num cnt [OF t] B by simp
      qed (use j T(2) in auto)
      then show False using jQ by blast
    qed
  qed
  moreover have "length ?P \<le> nrMig" using lenP by simp
  then have "CollectPagesVm mode fl n pages nrMig t k sb = (mark ?P pages, ?P, bump pages ?P sb)"
    unfolding CollectPagesVm_def using len
    by (subst collect_Vm_picks) (simp_all add: Let_def B_def c_def Q_def del: upt_Suc)
  ultimately show ?thesis using best by blast
qed


section \<open>One migration list\<close>

text \<open>
  What the strategy relies on for a node: the length of its scan data, buckets that agree with the
  pages, and an offset that counts the selected pages.
\<close>

definition sel_count :: "nat \<Rightarrow> ActcData list \<Rightarrow> nat" where
  "sel_count n pages = length (filter (\<lambda>i. ad_isSelected (pages ! i)) [0..<n])"

definition node_ok :: "nat \<Rightarrow> ProcessAttr \<Rightarrow> (nat \<Rightarrow> nat) \<Rightarrow> nat \<Rightarrow> bool" where
  "node_ok nr process offset s \<longleftrightarrow>
     (case sc_actcData (pa_scanAttr process) s of
        None \<Rightarrow> sc_actcLen (pa_scanAttr process) s = 0 \<and> offset s = 0
      | Some pages \<Rightarrow>
          length pages = unat (sc_actcLen (pa_scanAttr process) s) \<and>
          buckets_ok (s < nr) (length pages) pages (ac_freqBuckets (sc_actCount (pa_scanAttr process) s))
            (sc_selectedBuckets (pa_scanAttr process) s) \<and>
          offset s = sel_count (length pages) pages)"

definition list_addr :: "MigList \<Rightarrow> nat list" where
  "list_addr l = (case li_addr l of None \<Rightarrow> [] | Some a \<Rightarrow> a)"

lemma list_addr_simps [simp]:
  "list_addr (l\<lparr>li_nr := k\<rparr>) = list_addr l" "list_addr (l\<lparr>li_addr := Some a\<rparr>) = a"
  "list_addr (l\<lparr>li_nr := k, li_addr := Some a\<rparr>) = a" "li_addr l = None \<Longrightarrow> list_addr l = []"
  by (simp_all add: list_addr_def)

lemma sel_count_mark:
  assumes "distinct P" "\<forall>i \<in> set P. i < n \<and> \<not> ad_isSelected (pages ! i)" "n \<le> length pages"
  shows "sel_count n (mark P pages) = sel_count n pages + length P"
proof -
  have "set (filter (\<lambda>i. ad_isSelected (mark P pages ! i)) [0..<n]) = set (filter (\<lambda>i. ad_isSelected (pages ! i)) [0..<n]) \<union> set P"
    using assms(2,3) by auto
  moreover have "set (filter (\<lambda>i. ad_isSelected (pages ! i)) [0..<n]) \<inter> set P = {}" using assms(2) by auto
  moreover have "length (filter Q [0..<n]) = card (set (filter Q [0..<n]))" for Q
    by (rule distinct_card [symmetric]) (rule distinct_filter, rule distinct_upt)
  ultimately show ?thesis unfolding sel_count_def using distinct_card [OF assms(1)] by (simp add: card_Un_disjoint)
qed

lemma avail_count_remote: "avail_count False n pages = n - sel_count n pages"
  unfolding avail_count_def sel_count_def avail_def using sum_length_filter_compl [of "\<lambda>i. ad_isSelected (pages ! i)" "[0..<n]"] by simp

lemma BuildSelectKMlistAddr_picks:
  fixes process :: ProcessAttr and src nr :: nat
  defines "scan \<equiv> pa_scanAttr process"
  defines "n \<equiv> unat (sc_actcLen scan src)" and "fl \<equiv> src < nr"
  assumes ok: "node_ok nr process offset src" and top: "mode = SELECT_TOP_K \<longrightarrow> nr \<le> src"
    and pages: "sc_actcData scan src = Some pages" and some: "offset src < n" "0 < li_nr (mlist src dst)"
  shows "\<exists>P. BuildSelectKMlistAddr False nr process mlist offset src dst mode =
      (None, process\<lparr>pa_scanAttr := scan\<lparr>sc_actcData := (sc_actcData scan)(src := Some (mark P pages)),
          sc_selectedBuckets := (sc_selectedBuckets scan)(src := bump pages P (sc_selectedBuckets scan src))\<rparr>\<rparr>,
       set_list src dst ((mlist src dst)\<lparr>li_nr := length P, li_addr := Some P\<rparr>) mlist) \<and>
    best_pages mode fl n pages (min (li_nr (mlist src dst)) (n - offset src))
      (if pa_type process = VM_TYPE then white_count fl n pages else 0) P \<and>
    (pa_type process = VM_TYPE \<longrightarrow> prior_first fl n pages P)"
proof -
  let ?k = "min (li_nr (mlist src dst)) (n - offset src)"
  let ?fb = "ac_freqBuckets (sc_actCount scan src)" and ?sb = "sc_selectedBuckets scan src"
  let ?b = "\<lambda>f. if ?fb f > ?sb f then ?fb f - ?sb f else 0"
  have len: "length pages = n" and bok: "buckets_ok fl n pages ?fb ?sb" and off: "offset src = sel_count n pages"
    using ok pages by (auto simp: node_ok_def scan_def n_def fl_def)
  have n: "n < 2 ^ 64" "0 < ?k" "?k \<le> n" using some by (simp_all add: n_def)
  have b: "unat (?b f) = pages_at fl n pages f" if "f < 256" for f
  proof -
    have e: "unat (?fb f) = unat (?sb f) + pages_at fl n pages f" using bok that by (simp add: buckets_ok_def)
    then show ?thesis by (auto simp: word_less_nat_alt unat_sub word_le_nat_alt)
  qed
  have many: "?k \<le> avail_count fl n pages" if "mode = SELECT_TOP_K"
    using top that off by (simp add: fl_def avail_count_remote)
  obtain t k where ft: "FindThreshold mode ?k ?b = (t, k)" by (cases "FindThreshold mode ?k ?b")
  define collect where "collect = (if pa_type process = VM_TYPE then CollectPagesVm else CollectPages4K)"
  obtain P where P: "collect mode fl n pages ?k t k ?sb = (mark P pages, P, bump pages P ?sb)" "best_pages mode fl n pages ?k (if pa_type process = VM_TYPE then white_count fl n pages else 0) P"
    "pa_type process = VM_TYPE \<longrightarrow> prior_first fl n pages P"
  proof (cases "pa_type process = VM_TYPE")
    case True
    then show thesis using CollectPagesVm_best [OF n b ft many, of ?sb] len that by (auto simp: collect_def)
  next
    case False
    then show thesis using CollectPages4K_best [OF n b ft many, of ?sb] len that by (auto simp: collect_def)
  qed
  have k0: "?k \<noteq> 0" using n(2) by linarith
  have "BuildSelectKMlistAddr False nr process mlist offset src dst mode =
      (None, process\<lparr>pa_scanAttr := scan\<lparr>sc_actcData := (sc_actcData scan)(src := Some (mark P pages)),
          sc_selectedBuckets := (sc_selectedBuckets scan)(src := bump pages P ?sb)\<rparr>\<rparr>,
       set_list src dst ((mlist src dst)\<lparr>li_nr := length P, li_addr := Some P\<rparr>) mlist)"
    using some pages ft P(1) unfolding BuildSelectKMlistAddr_def Let_def scan_def [symmetric] n_def [symmetric] fl_def [symmetric] collect_def [symmetric]
    by (simp add: k0)
  then show ?thesis using P(2,3) by blast
qed


section \<open>All migration lists of a process\<close>

definition pair_allowed :: "forbidden \<Rightarrow> nat \<Rightarrow> nat \<Rightarrow> nat \<Rightarrow> bool" where
  "pair_allowed g nr s d \<longleftrightarrow>
     s < nr \<and> nr \<le> d \<and> d < nr + 18 \<and> \<not> IsNodeForbidden d g \<or> d < nr \<and> nr \<le> s \<and> s < nr + 18 \<and> \<not> IsNodeForbidden s g"

text \<open>The scan data of a node without the marks of the selection.\<close>

definition unmarked :: "ProcessAttr \<Rightarrow> nat \<Rightarrow> ActcData list option" where
  "unmarked process s = map_option (map (\<lambda>p. p\<lparr>ad_isSelected := False\<rparr>)) (sc_actcData (pa_scanAttr process) s)"

definition list_ok :: "forbidden \<Rightarrow> nat \<Rightarrow> ProcessAttr \<Rightarrow> nat \<Rightarrow> nat \<Rightarrow> MigList \<Rightarrow> bool" where
  "list_ok g nr process s d l \<longleftrightarrow>
     li_nr l = length (list_addr l) \<and> li_nr l \<le> unat (sa_nrMigratePages (pa_strategyAttr process) s d) \<and> distinct (list_addr l) \<and>
     (list_addr l \<noteq> [] \<longrightarrow> pair_allowed g nr s d \<and>
       (\<exists>pages. sc_actcData (pa_scanAttr process) s = Some pages \<and>
         (\<forall>i \<in> set (list_addr l). i < length pages \<and> ad_isSelected (pages ! i) \<and> \<not> (s < nr \<and> ad_isWhiteListPage (pages ! i)))))"

definition lists_ok :: "forbidden \<Rightarrow> nat \<Rightarrow> ProcessAttr \<Rightarrow> ProcessAttr \<times> miglists \<times> (nat \<Rightarrow> nat) \<Rightarrow> bool" where
  "lists_ok g nr p0 st \<longleftrightarrow>
     (case st of (process, mlist, offset) \<Rightarrow>
        pa_strategyAttr process = pa_strategyAttr p0 \<and> unmarked process = unmarked p0 \<and>
        (\<forall>s < 26. node_ok nr process offset s) \<and> (\<forall>s d. list_ok g nr process s d (mlist s d)) \<and>
        (\<forall>s d d'. d \<noteq> d' \<longrightarrow> set (list_addr (mlist s d)) \<inter> set (list_addr (mlist s d')) = {}))"

lemma set_list_apply: "set_list i j l mlist s d = (if s = i \<and> d = j then l else mlist s d)"
  by (simp add: set_list_def)

lemma mark_unmarked: "map (\<lambda>p. p\<lparr>ad_isSelected := False\<rparr>) (mark P pages) = map (\<lambda>p. p\<lparr>ad_isSelected := False\<rparr>) pages"
  by (rule nth_equalityI) (auto simp: ActcData.equality)

lemma BuildPairMlist_step:
  assumes ok: "lists_ok g nr p0 (process, mlist, offset)" and allowed: "pair_allowed g nr s d" and s: "s < 26"
    and le: "unat nrMigrate \<le> unat (sa_nrMigratePages (pa_strategyAttr p0) s d)" and top: "mode = SELECT_TOP_K \<longrightarrow> nr \<le> s"
    and new: "list_addr (mlist s d) = []"
  shows "\<exists>process' mlist' offset'. BuildPairMlist False nr s d nrMigrate mode (process, mlist, offset) = (None, process', mlist', offset') \<and>
    lists_ok g nr p0 (process', mlist', offset') \<and> (\<forall>s' d'. (s', d') \<noteq> (s, d) \<longrightarrow> mlist' s' d' = mlist s' d')"
proof (cases "nrMigrate = 0")
  case True
  then show ?thesis using ok by (simp add: BuildPairMlist_def)
next
  case False
  let ?scan = "pa_scanAttr process" and ?m = "set_list s d ((mlist s d)\<lparr>li_nr := unat nrMigrate\<rparr>) mlist"
  let ?n = "unat (sc_actcLen ?scan s)"
  have node: "node_ok nr process offset s" using ok s by (simp add: lists_ok_def)
  have ls: "list_ok g nr process s' d' (mlist s' d')" and same: "pa_strategyAttr process = pa_strategyAttr p0"
    and dj: "d' \<noteq> d'' \<Longrightarrow> set (list_addr (mlist s' d')) \<inter> set (list_addr (mlist s' d'')) = {}" for s' d' d''
    using ok by (auto simp: lists_ok_def)
  have run: "BuildPairMlist False nr s d nrMigrate mode (process, mlist, offset) =
      (case BuildSelectKMlistAddr False nr process ?m offset s d mode of
         (Some e, process, mlist) \<Rightarrow> (Some e, process, mlist, offset)
       | (None, process, mlist) \<Rightarrow> (None, process, mlist, offset(s := add64 (offset s) (li_nr (mlist s d)))))"
    using False by (simp add: BuildPairMlist_def Let_def)
  have off: "offset s < 2 ^ 64"
  proof (cases "sc_actcData ?scan s")
    case (Some pages)
    have "sel_count ?n pages \<le> ?n" unfolding sel_count_def by (rule le_trans [OF length_filter_le]) simp
    moreover have "offset s = sel_count ?n pages" using node Some by (auto simp: node_ok_def)
    ultimately have "offset s \<le> ?n" by simp
    then show ?thesis by (rule le_less_trans) simp
  qed (use node in \<open>simp add: node_ok_def\<close>)
  show ?thesis
  proof (cases "?n \<le> offset s")
    case True
    let ?m' = "set_list s d ((mlist s d)\<lparr>li_nr := 0\<rparr>) mlist"
    have "?m = set_list s d (?m s d) mlist" by (simp add: set_list_apply)
    have "BuildSelectKMlistAddr False nr process ?m offset s d mode = (None, process, ?m')"
      using True by (simp add: BuildSelectKMlistAddr_def set_list_def)
    then have r: "BuildPairMlist False nr s d nrMigrate mode (process, mlist, offset) = (None, process, ?m', offset)"
      unfolding run using off by (simp add: set_list_apply add64_eq)
    have "list_ok g nr process s' d' (?m' s' d')" "list_addr (?m' s' d') = list_addr (mlist s' d')" for s' d'
      using ls [of s' d'] new by (auto simp: set_list_apply list_ok_def)
    then have "lists_ok g nr p0 (process, ?m', offset)" using ok by (simp add: lists_ok_def)
    then show ?thesis using r by (auto simp: set_list_apply)
  next
    case small: False
    then obtain pages where pages: "sc_actcData ?scan s = Some pages"
      using node by (cases "sc_actcData ?scan s") (auto simp: node_ok_def)
    have "0 < li_nr (?m s d)" using False by (simp add: set_list_apply unat_gt_0)
    with BuildSelectKMlistAddr_picks [OF node top pages, where mlist = ?m and dst = d] small
    obtain P where P: "BuildSelectKMlistAddr False nr process ?m offset s d mode =
        (None, process\<lparr>pa_scanAttr := ?scan\<lparr>sc_actcData := (sc_actcData ?scan)(s := Some (mark P pages)),
            sc_selectedBuckets := (sc_selectedBuckets ?scan)(s := bump pages P (sc_selectedBuckets ?scan s))\<rparr>\<rparr>,
         set_list s d ((?m s d)\<lparr>li_nr := length P, li_addr := Some P\<rparr>) ?m)"
      "best_pages mode (s < nr) ?n pages (min (unat nrMigrate) (?n - offset s))
        (if pa_type process = VM_TYPE then white_count (s < nr) ?n pages else 0) P"
      by (auto simp: set_list_apply)
    define process' where "process' = process\<lparr>pa_scanAttr := ?scan\<lparr>sc_actcData := (sc_actcData ?scan)(s := Some (mark P pages)),
            sc_selectedBuckets := (sc_selectedBuckets ?scan)(s := bump pages P (sc_selectedBuckets ?scan s))\<rparr>\<rparr>"
    define mlist' where "mlist' = set_list s d ((mlist s d)\<lparr>li_nr := length P, li_addr := Some P\<rparr>) mlist"
    define offset' where "offset' = offset(s := offset s + length P)"
    have len: "length pages = ?n" and sel: "offset s = sel_count ?n pages"
      and bok: "buckets_ok (s < nr) ?n pages (ac_freqBuckets (sc_actCount ?scan s)) (sc_selectedBuckets ?scan s)"
      using node pages by (auto simp: node_ok_def)
    have Pd: "distinct P" "\<forall>i \<in> set P. i < ?n \<and> avail (s < nr) pages i" "length P \<le> unat nrMigrate" "length P \<le> ?n - offset s"
      "sorted_wrt (<) P" using P(2) by (auto simp: best_pages_def strict_sorted_iff)
    have "offset s + length P \<le> ?n" using Pd(4) small by linarith
    then have "offset s + length P < 2 ^ 64" by (rule le_less_trans) simp
    then have add: "add64 (offset s) (length P) = offset s + length P" by (rule add64_eq)
    have r: "BuildPairMlist False nr s d nrMigrate mode (process, mlist, offset) = (None, process', mlist', offset')"
      unfolding run P(1) by (simp add: process'_def mlist'_def offset'_def add set_list_apply) (simp add: set_list_def fun_eq_iff)
    have data: "sc_actcData (pa_scanAttr process') s' = (if s' = s then Some (mark P pages) else sc_actcData ?scan s')"
      "sc_actcLen (pa_scanAttr process') = sc_actcLen ?scan" "sc_actCount (pa_scanAttr process') = sc_actCount ?scan"
      "sc_selectedBuckets (pa_scanAttr process') s' = (if s' = s then bump pages P (sc_selectedBuckets ?scan s) else sc_selectedBuckets ?scan s')"
      "pa_type process' = pa_type process" "pa_strategyAttr process' = pa_strategyAttr process" for s'
      by (simp_all add: process'_def)
    have sc: "sel_count ?n (mark P pages) = sel_count ?n pages + length P"
      using Pd(2) len by (intro sel_count_mark [OF Pd(1)]) (auto simp: avail_def)
    have n1: "node_ok nr process' offset' s"
      unfolding node_ok_def data using len buckets_ok_mark [OF bok _ Pd(5,2)] by (simp add: offset'_def sel sc)
    have n2: "node_ok nr process' offset' s'" if "s' < 26" for s'
    proof (cases "s' = s")
      case False
      then have "node_ok nr process' offset' s' = node_ok nr process offset s'"
        unfolding node_ok_def data by (simp add: offset'_def cong: option.case_cong)
      then show ?thesis using ok that by (simp add: lists_ok_def)
    qed (use n1 in simp)
    have "unmarked process' = unmarked process"
      using pages by (auto simp: unmarked_def data mark_unmarked fun_eq_iff)
    then have um: "unmarked process' = unmarked p0" using ok by (simp add: lists_ok_def)
    have old: "i < ?n \<and> ad_isSelected (pages ! i) \<and> \<not> (s < nr \<and> ad_isWhiteListPage (pages ! i))" if "i \<in> set (list_addr (mlist s d'))" for i d'
      using ls [of s d'] that pages len by (auto simp: list_ok_def)
    have lo: "list_ok g nr process' s' d' (mlist' s' d')" for s' d'
    proof (cases "s' = s")
      case s': True
      have "list_ok g nr process' s d (mlist' s d)"
        using Pd len le same allowed by (auto simp: list_ok_def mlist'_def set_list_apply data avail_def)
      moreover have "list_ok g nr process' s d' (mlist s d')"
        using ls [of s d'] old [of _ d'] len by (auto simp: list_ok_def data)
      ultimately show ?thesis using s' by (cases "d' = d") (simp_all add: mlist'_def set_list_apply)
    next
      case False
      then show ?thesis using ls [of s' d'] by (simp add: list_ok_def mlist'_def set_list_apply data)
    qed
    have Pold: "set P \<inter> set (list_addr (mlist s d')) = {}" for d' using Pd(2) old [of _ d'] by (auto simp: avail_def)
    have dj': "set (list_addr (mlist' s' d')) \<inter> set (list_addr (mlist' s' d'')) = {}" if "d' \<noteq> d''" for s' d' d''
      using dj [OF that, of s'] Pold [of d'] Pold [of d''] that by (auto simp: mlist'_def set_list_apply)
    have "lists_ok g nr p0 (process', mlist', offset')" using um n2 lo dj' same by (simp add: lists_ok_def data)
    then show ?thesis using r by (auto simp: mlist'_def set_list_apply)
  qed
qed


lemma split_pages_le:
  fixes a b :: u32
  shows "unat (a - min a b + (if c then 0 else min a b)) \<le> unat a" "unat (b - min a b + (if c then 0 else min a b)) \<le> unat b"
proof -
  have "unat (x - y + (if c then 0 else y)) \<le> unat x" if "y \<le> x" for x y :: u32
    using that by (auto simp: unat_sub)
  then show "unat (a - min a b + (if c then 0 else min a b)) \<le> unat a" "unat (b - min a b + (if c then 0 else min a b)) \<le> unat b"
    by simp_all
qed

lemma build_pair_step:
  assumes nr: "nr \<le> 8" and l: "l < nr" and r: "nr \<le> r" "r < nr + 18" and ok: "lists_ok g nr p0 (process, mlist, offset)"
    and new: "list_addr (mlist l r) = []" "list_addr (mlist r l) = []"
  shows "\<exists>process' mlist' offset'. build_pair (\<lambda>_ _. False) g nr l r (process, mlist, offset) = (None, process', mlist', offset') \<and>
    lists_ok g nr p0 (process', mlist', offset') \<and> (\<forall>s d. (s, d) \<noteq> (l, r) \<and> (s, d) \<noteq> (r, l) \<longrightarrow> mlist' s d = mlist s d)"
proof (cases "IsNodeForbidden r g")
  case True
  then show ?thesis using ok by (simp add: build_pair_def Let_def)
next
  case False
  let ?st = "pa_strategyAttr p0"
  let ?a = "sa_nrMigratePages ?st l r" and ?b = "sa_nrMigratePages ?st r l" and ?c = "sa_ubBwRestrict ?st r = UB_BW_SWAP_STOP"
  have same: "pa_strategyAttr process = ?st" using ok by (simp add: lists_ok_def)
  have al: "pair_allowed g nr l r" "pair_allowed g nr r l" using False l r by (simp_all add: pair_allowed_def)
  have lim: "l < 26" "r < 26" "r \<noteq> l" using nr l r by auto
  obtain process1 mlist1 offset1 where st1:
    "BuildPairMlist False nr l r (?a - min ?a ?b + (if ?c then 0 else min ?a ?b)) SELECT_BOTTOM_K (process, mlist, offset) =
       (None, process1, mlist1, offset1)"
    "lists_ok g nr p0 (process1, mlist1, offset1)" "\<forall>s' d'. (s', d') \<noteq> (l, r) \<longrightarrow> mlist1 s' d' = mlist s' d'"
    using BuildPairMlist_step [OF ok al(1) lim(1) split_pages_le(1) _ new(1), where mode = SELECT_BOTTOM_K] by blast
  have "list_addr (mlist1 r l) = []" using st1(3) new(2) lim(3) by simp
  then obtain process2 mlist2 offset2 where st2:
    "BuildPairMlist False nr r l (?b - min ?a ?b + (if ?c then 0 else min ?a ?b)) SELECT_TOP_K (process1, mlist1, offset1) =
       (None, process2, mlist2, offset2)"
    "lists_ok g nr p0 (process2, mlist2, offset2)" "\<forall>s' d'. (s', d') \<noteq> (r, l) \<longrightarrow> mlist2 s' d' = mlist1 s' d'"
    using BuildPairMlist_step [OF st1(2) al(2) lim(2) split_pages_le(2), where mode = SELECT_TOP_K] r(1) by blast
  have "build_pair (\<lambda>_ _. False) g nr l r (process, mlist, offset) = (None, process2, mlist2, offset2)"
    using False st1(1) st2(1) by (simp add: build_pair_def Let_def same)
  then show ?thesis using st2(2,3) st1(3) by auto
qed

lemma build_pairs_steps:
  assumes nr: "nr \<le> 8" and "distinct ps" "\<forall>(l, r) \<in> set ps. l < nr \<and> nr \<le> r \<and> r < nr + 18" and "lists_ok g nr p0 (process, mlist, offset)"
    and "\<forall>(l, r) \<in> set ps. list_addr (mlist l r) = [] \<and> list_addr (mlist r l) = []"
  shows "\<exists>process' mlist' offset'. build_pairs (\<lambda>_ _. False) g nr ps (process, mlist, offset) = (None, process', mlist', offset') \<and>
    lists_ok g nr p0 (process', mlist', offset')"
  using assms(2-)
proof (induction ps arbitrary: process mlist offset)
  case (Cons p ps)
  obtain l r where p: "p = (l, r)" by (cases p)
  have lr: "l < nr" "nr \<le> r" "r < nr + 18" "list_addr (mlist l r) = []" "list_addr (mlist r l) = []" using Cons.prems(2,4) by (auto simp: p)
  obtain process1 mlist1 offset1 where st: "build_pair (\<lambda>_ _. False) g nr l r (process, mlist, offset) = (None, process1, mlist1, offset1)"
    "lists_ok g nr p0 (process1, mlist1, offset1)" "\<forall>s d. (s, d) \<noteq> (l, r) \<and> (s, d) \<noteq> (r, l) \<longrightarrow> mlist1 s d = mlist s d"
    using build_pair_step [OF nr lr(1-3) Cons.prems(3) lr(4,5)] by blast
  have "list_addr (mlist1 l' r') = [] \<and> list_addr (mlist1 r' l') = []" if "(l', r') \<in> set ps" for l' r'
  proof -
    have "(l', r') \<noteq> (l, r)" "l' < nr" "nr \<le> r'" using that Cons.prems(1,2) by (auto simp: p)
    then have "(l', r') \<noteq> (r, l)" "(r', l') \<noteq> (l, r)" "(r', l') \<noteq> (r, l)" using lr by auto
    then show ?thesis using st(3) Cons.prems(4) that \<open>(l', r') \<noteq> (l, r)\<close> by (auto simp: p)
  qed
  then have "\<forall>(l, r) \<in> set ps. list_addr (mlist1 l r) = [] \<and> list_addr (mlist1 r l) = []" by blast
  then show ?case using Cons.IH [OF _ _ st(2)] Cons.prems(1,2) by (simp add: p st(1))
qed simp

text \<open>A failing allocation ends the strategy with \<^verbatim>\<open>-ENOMEM\<close>, and all lists are emptied.\<close>

lemma BuildPairMlist_noMem:
  "BuildPairMlist noMem nr s d k mode st = BuildPairMlist False nr s d k mode st \<or>
   noMem \<and> fst (BuildPairMlist noMem nr s d k mode st) = Some ENOMEM"
proof (cases noMem)
  case True
  obtain process mlist offset where st: "st = (process, mlist, offset)" by (metis prod_cases3)
  show ?thesis unfolding st using True
    by (auto simp: BuildPairMlist_def BuildSelectKMlistAddr_def Let_def split: option.splits)
qed simp

lemma build_pair_noMem:
  "build_pair noMem g nr l r st = build_pair (\<lambda>_ _. False) g nr l r st \<or>
   (\<exists>s d. noMem s d) \<and> fst (build_pair noMem g nr l r st) = Some ENOMEM"
proof (cases "IsNodeForbidden r g")
  case True
  then show ?thesis by (simp add: build_pair_def Let_def)
next
  case False
  define a b where "a = sa_nrMigratePages (pa_strategyAttr (fst st)) l r" and "b = sa_nrMigratePages (pa_strategyAttr (fst st)) r l"
  define w where "w = (if sa_ubBwRestrict (pa_strategyAttr (fst st)) r = UB_BW_SWAP_STOP then 0 else min a b)"
  have run: "build_pair M g nr l r st = (case BuildPairMlist (M l r) nr l r (a - min a b + w) SELECT_BOTTOM_K st of
      (Some e, st) \<Rightarrow> (Some e, st) | (None, st) \<Rightarrow> BuildPairMlist (M r l) nr r l (b - min a b + w) SELECT_TOP_K st)" for M
    unfolding build_pair_def Let_def if_not_P [OF False] a_def [symmetric] b_def [symmetric] w_def [symmetric] by (rule refl)
  let ?one = "\<lambda>M. BuildPairMlist M nr l r (a - min a b + w) SELECT_BOTTOM_K st"
  obtain e st1 where one: "?one (noMem l r) = (e, st1)" by (metis surj_pair)
  show ?thesis
  proof (cases "?one False = (e, st1)")
    case True
    then show ?thesis using BuildPairMlist_noMem [of "noMem r l" nr r l "b - min a b + w" SELECT_TOP_K st1]
      by (cases e) (auto simp: run one)
  next
    case False
    then have "noMem l r \<and> e = Some ENOMEM"
      using BuildPairMlist_noMem [of "noMem l r" nr l r "a - min a b + w" SELECT_BOTTOM_K st] by (auto simp: one)
    moreover from this have "fst (build_pair noMem g nr l r st) = Some ENOMEM" unfolding run one by simp
    ultimately show ?thesis by blast
  qed
qed

lemma build_pairs_noMem:
  "build_pairs noMem g nr ps st = build_pairs (\<lambda>_ _. False) g nr ps st \<or>
   (\<exists>s d. noMem s d) \<and> (\<exists>process mlist offset. build_pairs noMem g nr ps st = (Some ENOMEM, process, FreeMlist mlist, offset))"
proof (induction ps arbitrary: st)
  case (Cons p ps)
  obtain l r where p: "p = (l, r)" by (cases p)
  obtain e process mlist offset where run: "build_pair noMem g nr l r st = (e, process, mlist, offset)" by (metis prod_cases4)
  show ?case
  proof (cases "build_pair (\<lambda>_ _. False) g nr l r st = (e, process, mlist, offset)")
    case True
    then show ?thesis using Cons.IH [of "(process, mlist, offset)"] by (cases e) (auto simp: p run)
  next
    case False
    then have "(\<exists>s d. noMem s d) \<and> e = Some ENOMEM" using build_pair_noMem [of noMem g nr l r st] by (auto simp: run)
    then show ?thesis by (auto simp: p run)
  qed
qed simp

section \<open>Statistics of a fresh scan\<close>

lemma count_page_buckets:
  "ac_freqBuckets (count_page fl thr page count) f =
     ac_freqBuckets count f + (if (\<not> fl \<or> \<not> ad_isWhiteListPage page) \<and> unat (ad_freq page) = f then 1 else 0)"
  by (simp add: count_page_def Let_def)

lemma calc_node_stats_ok:
  assumes "length pages = unat len" "unat len < 2 ^ 32" "\<forall>i < length pages. \<not> ad_isSelected (pages ! i)"
  shows "buckets_ok fl (length pages) pages (ac_freqBuckets (calc_node_stats fl thr len (Some pages))) (\<lambda>_. 0)"
  unfolding buckets_ok_def
proof (intro allI impI)
  fix f :: nat assume "f < 256"
  let ?Q = "\<lambda>i. (\<not> fl \<or> \<not> ad_isWhiteListPage (pages ! i)) \<and> freq_of pages i = f"
  have fold: "ac_freqBuckets (fold (\<lambda>i. count_page fl thr (pages ! i)) [0..<m] c) f = ac_freqBuckets c f + of_nat (length (filter ?Q [0..<m]))" for m c
    by (induction m) (simp_all add: count_page_buckets)
  have "filter ?Q [0..<length pages] = filter (\<lambda>i. avail fl pages i \<and> freq_of pages i = f) [0..<length pages]"
    using assms(3) by (intro filter_cong) (auto simp: avail_def)
  then have eq: "length (filter ?Q [0..<length pages]) = pages_at fl (length pages) pages f" by (simp add: pages_at_def)
  have "length (filter ?Q [0..<length pages]) \<le> length pages" using length_filter_le [of ?Q "[0..<length pages]"] by simp
  then have le: "pages_at fl (length pages) pages f \<le> UINT32_MAX" using assms(1,2) eq by simp
  have "ac_freqBuckets (calc_node_stats fl thr len (Some pages)) f = of_nat (pages_at fl (length pages) pages f)"
  proof (cases "len = 0")
    case True
    then show ?thesis using assms(1) by (simp add: calc_node_stats_def ActCount_zero_def pages_at_def)
  next
    case False
    then show ?thesis using fold [of "length pages"] eq by (simp add: calc_node_stats_def ActCount_zero_def assms(1) [symmetric])
  qed
  then show "unat (ac_freqBuckets (calc_node_stats fl thr len (Some pages)) f) = unat ((\<lambda>_. 0) f :: u32) + pages_at fl (length pages) pages f"
    using le by (simp add: unat_of_nat_u32)
qed


section \<open>Properties\<close>

text \<open>C15. One migration list is the best choice. Where the buckets of a node agree with its pages, the pages
  put on a list are as many as requested if so many are available (for a virtual machine, whose loop
  spends its budget on white-listed local pages too, less at most the number of these pages), none of them is
  already on another list or (from a local node) white-listed, and no page that was left is a better choice:
  colder, for pages that leave a local node, or hotter, for pages that leave a remote one. Of
  pages that are equally hot, those of a virtual machine are taken by priority. The buckets agree
  with the pages afterwards, so the next list is chosen as well. The array of the list can be allocated.\<close>

theorem BuildSelectKMlistAddr_best:
  fixes process :: ProcessAttr and src nr :: nat
  defines "scan \<equiv> pa_scanAttr process"
  defines "n \<equiv> unat (sc_actcLen scan src)" and "fl \<equiv> src < nr"
  assumes ok: "node_ok nr process offset src" and top: "mode = SELECT_TOP_K \<longrightarrow> nr \<le> src"
    and pages: "sc_actcData scan src = Some pages" and some: "offset src < n" "0 < li_nr (mlist src dst)"
    and res: "BuildSelectKMlistAddr False nr process mlist offset src dst mode = (e, process', mlist')"
  shows "e = None \<and> (let addr = list_addr (mlist' src dst) in
      li_nr (mlist' src dst) = length addr \<and> best_pages mode fl n pages (min (li_nr (mlist src dst)) (n - offset src))
        (if pa_type process = VM_TYPE then white_count fl n pages else 0) addr \<and>
      (pa_type process = VM_TYPE \<longrightarrow> prior_first fl n pages addr) \<and>
      sc_actcData (pa_scanAttr process') src = Some (mark addr pages) \<and>
      buckets_ok fl n (mark addr pages) (ac_freqBuckets (sc_actCount scan src)) (sc_selectedBuckets (pa_scanAttr process') src))"
proof -
  obtain P where P: "BuildSelectKMlistAddr False nr process mlist offset src dst mode =
      (None, process\<lparr>pa_scanAttr := scan\<lparr>sc_actcData := (sc_actcData scan)(src := Some (mark P pages)),
          sc_selectedBuckets := (sc_selectedBuckets scan)(src := bump pages P (sc_selectedBuckets scan src))\<rparr>\<rparr>,
       set_list src dst ((mlist src dst)\<lparr>li_nr := length P, li_addr := Some P\<rparr>) mlist)"
    "best_pages mode fl n pages (min (li_nr (mlist src dst)) (n - offset src))
      (if pa_type process = VM_TYPE then white_count fl n pages else 0) P"
    "pa_type process = VM_TYPE \<longrightarrow> prior_first fl n pages P"
    using BuildSelectKMlistAddr_picks [OF ok top pages [unfolded scan_def], where mlist = mlist and dst = dst] some
    unfolding scan_def n_def fl_def by blast
  have "length pages = n" "buckets_ok fl n pages (ac_freqBuckets (sc_actCount scan src)) (sc_selectedBuckets scan src)"
    using ok pages by (auto simp: node_ok_def scan_def n_def fl_def)
  then have "buckets_ok fl n (mark P pages) (ac_freqBuckets (sc_actCount scan src)) (bump pages P (sc_selectedBuckets scan src))"
    using P(2) by (intro buckets_ok_mark) (auto simp: best_pages_def)
  then show ?thesis using res P by (auto simp: set_list_apply Let_def)
qed

text \<open>Three pages of frequency 5, 1 and 3 on local node 0; two of them are to leave.\<close>

definition select_demo :: ProcessAttr where
  "select_demo = ProcessAttr_zero\<lparr>pa_scanAttr := \<lparr>sc_actcLen = (\<lambda>s. if s = 0 then 3 else 0),
     sc_actcData = (\<lambda>s. if s = 0 then Some (map (\<lambda>f. \<lparr>ad_freq = f, ad_isWhiteListPage = False, ad_isSelected = False, ad_prior = 0\<rparr>) [5, 1, 3]) else None),
     sc_actCount = (\<lambda>_. ActCount_zero), sc_selectedBuckets = (\<lambda>_ _. 0)\<rparr>,
     pa_strategyAttr := (pa_strategyAttr ProcessAttr_zero)\<lparr>sa_nrMigratePages := (\<lambda>s d. if s = 0 \<and> d = 1 then 2 else 0)\<rparr>\<rparr>"

definition empty_list :: MigList where
  "empty_list = \<lparr>li_successToUser = False, li_nr = 0, li_failedMigNr = 0, li_failedIsolatedNr = 0, li_pid = 0, li_from = 0, li_to = 0, li_addr = None\<rparr>"

text \<open>What the scan of a process delivers: pages that are not marked yet, fewer than \<open>2 ^ 32\<close> on a node.\<close>

definition fresh_scan :: "ProcessAttr \<Rightarrow> bool" where
  "fresh_scan process \<longleftrightarrow> (\<forall>s < 26. case sc_actcData (pa_scanAttr process) s of
      None \<Rightarrow> sc_actcLen (pa_scanAttr process) s = 0
    | Some pages \<Rightarrow> length pages = unat (sc_actcLen (pa_scanAttr process) s) \<and> length pages < 2 ^ 32 \<and>
        (\<forall>i < length pages. \<not> ad_isSelected (pages ! i)))"

lemma CalcActcStats_node_ok:
  assumes "fresh_scan process" "s < 26"
  shows "node_ok nr (CalcActcStats thr nr process) (\<lambda>_. 0) s"
proof (cases "sc_actcData (pa_scanAttr process) s")
  case None
  then show ?thesis using assms by (auto simp: node_ok_def fresh_scan_def CalcActcStats_def Let_def)
next
  case (Some pages)
  have f: "length pages = unat (sc_actcLen (pa_scanAttr process) s)" "length pages < 2 ^ 32" "\<forall>i < length pages. \<not> ad_isSelected (pages ! i)"
    using assms Some by (auto simp: fresh_scan_def)
  have "sel_count (length pages) pages = 0" unfolding sel_count_def using f(3) by (auto simp: filter_empty_conv)
  moreover have "buckets_ok (s < nr) (length pages) pages
      (ac_freqBuckets (calc_node_stats (s < nr) thr (sc_actcLen (pa_scanAttr process) s) (Some pages))) sb"
    if "\<forall>f < 256. sb f = 0" for sb
    using calc_node_stats_ok [OF f(1) _ f(3), of "s < nr" thr] f(1,2) that by (simp add: buckets_ok_def)
  ultimately show ?thesis using f Some assms(2) by (simp add: node_ok_def CalcActcStats_def Let_def)
qed

text \<open>C14. The migration lists of a process. After the statistics of a fresh scan, the Pair strategy fails
  only when an allocation fails, with \<^verbatim>\<open>-ENOMEM\<close>, and then all lists are empty. Otherwise, for every list: its
  length is its page count and at most the planned number of pages; it is empty unless it joins a local node
  with a remote node that is not disabled; its pages are different pages of the source node, not white-listed
  when the source is local (for a virtual machine as for any other process); and no page is on two lists. The
  scan data is changed only by the marks of the selected pages.\<close>

theorem PairMigrationStrategy_lists:
  assumes nr: "0 < nr" "nr \<le> 8" and fresh: "fresh_scan process" and init: "\<forall>s d. li_nr (mlist s d) = 0 \<and> li_addr (mlist s d) = None"
    and res: "PairMigrationStrategy noMem g nr (CalcActcStats thr nr process) mlist = (e, process', mlist')"
  shows "if e = None
    then unmarked process' = unmarked process \<and> (\<forall>s d. list_ok g nr process' s d (mlist' s d)) \<and>
      (\<forall>s d d'. d \<noteq> d' \<longrightarrow> set (list_addr (mlist' s d)) \<inter> set (list_addr (mlist' s d')) = {})
    else e = Some ENOMEM \<and> (\<exists>s d. noMem s d) \<and> (\<forall>s < 26. \<forall>d < 26. li_nr (mlist' s d) = 0 \<and> list_addr (mlist' s d) = [])"
proof -
  let ?p = "CalcActcStats thr nr process" and ?ps = "List.product [0..<nr] [nr..<nr + 18]"
  have ok: "lists_ok g nr ?p (?p, mlist, \<lambda>_. 0)"
    using CalcActcStats_node_ok [OF fresh] init by (simp add: lists_ok_def list_ok_def)
  have "\<exists>process' mlist' offset'. build_pairs (\<lambda>_ _. False) g nr ?ps (?p, mlist, \<lambda>_. 0) = (None, process', mlist', offset') \<and>
      lists_ok g nr ?p (process', mlist', offset')"
    by (rule build_pairs_steps [OF nr(2) _ _ ok]) (use init in \<open>auto simp: distinct_product\<close>)
  then obtain process1 mlist1 offset1 where run: "build_pairs (\<lambda>_ _. False) g nr ?ps (?p, mlist, \<lambda>_. 0) = (None, process1, mlist1, offset1)"
    and ok1: "lists_ok g nr ?p (process1, mlist1, offset1)" by blast
  have um: "unmarked ?p = unmarked process" by (simp add: unmarked_def CalcActcStats_def Let_def fun_eq_iff)
  from build_pairs_noMem [of noMem g nr ?ps "(?p, mlist, \<lambda>_. 0)"] show ?thesis
  proof
    assume "build_pairs noMem g nr ?ps (?p, mlist, \<lambda>_. 0) = build_pairs (\<lambda>_ _. False) g nr ?ps (?p, mlist, \<lambda>_. 0)"
    then have "e = None" "process' = process1" "mlist' = mlist1" using res nr run by (auto simp: PairMigrationStrategy_def)
    then show ?thesis using ok1 um by (simp add: lists_ok_def)
  next
    assume "(\<exists>s d. noMem s d) \<and> (\<exists>process mlist0 offset. build_pairs noMem g nr ?ps (?p, mlist, \<lambda>_. 0) = (Some ENOMEM, process, FreeMlist mlist0, offset))"
    then obtain mlist0 where "\<exists>s d. noMem s d" "e = Some ENOMEM" "mlist' = FreeMlist mlist0" using res nr by (auto simp: PairMigrationStrategy_def)
    then show ?thesis by (simp add: FreeMlist_def)
  qed
qed

lemma select_demo_fresh: "fresh_scan select_demo"
  unfolding fresh_scan_def select_demo_def by (auto simp: ProcessAttr_zero_def simp del: list.map)

theorem PairMigrationStrategy_lists_witness:
  "\<exists>process' mlist'. PairMigrationStrategy (\<lambda>_ _. False) (\<lambda>_. 0) 1 (CalcActcStats 2 1 select_demo) (\<lambda>_ _. empty_list) = (None, process', mlist') \<and>
     list_ok (\<lambda>_. 0) 1 process' 0 1 (mlist' 0 1)"
proof -
  obtain e p m where r: "PairMigrationStrategy (\<lambda>_ _. False) (\<lambda>_. 0) 1 (CalcActcStats 2 1 select_demo) (\<lambda>_ _. empty_list) = (e, p, m)"
    by (metis surj_pair)
  from PairMigrationStrategy_lists [OF _ _ select_demo_fresh _ r] show ?thesis using r by (auto simp: empty_list_def split: if_splits)
qed

theorem BuildSelectKMlistAddr_best_witness:
  "\<exists>process' mlist'. BuildSelectKMlistAddr False 1 (CalcActcStats 2 1 select_demo) (\<lambda>_ _. empty_list\<lparr>li_nr := 2\<rparr>) (\<lambda>_. 0) 0 1 SELECT_BOTTOM_K =
       (None, process', mlist') \<and> length (list_addr (mlist' 0 1)) = 2"
proof -
  let ?p = "CalcActcStats 2 1 select_demo" and ?m = "\<lambda>_ _. empty_list\<lparr>li_nr := 2\<rparr>"
  let ?pages = "map (\<lambda>f. \<lparr>ad_freq = f, ad_isWhiteListPage = False, ad_isSelected = False, ad_prior = 0\<rparr>) [5, 1, 3]"
  obtain e p m where r: "BuildSelectKMlistAddr False 1 ?p ?m (\<lambda>_. 0) 0 1 SELECT_BOTTOM_K = (e, p, m)" by (metis surj_pair)
  have ok: "node_ok 1 ?p (\<lambda>_. 0) 0" by (rule CalcActcStats_node_ok [OF select_demo_fresh]) simp
  have d: "sc_actcData (pa_scanAttr ?p) 0 = Some ?pages" "unat (sc_actcLen (pa_scanAttr ?p) 0) = 3"
    by (simp_all add: CalcActcStats_def Let_def select_demo_def)
  have c: "avail_count True 3 ?pages = 3" by (simp add: avail_count_def avail_def numeral_3_eq_3)
  have w: "white_count (0 < (1 :: nat)) 3 ?pages = 0" by (simp add: white_count_def avail_def numeral_3_eq_3)
  have "e = None \<and> length (list_addr (m 0 1)) = 2"
    using BuildSelectKMlistAddr_best [OF ok _ d(1), of SELECT_BOTTOM_K ?m 1 e p m] r c
    unfolding d(2) w if_cancel by (simp add: best_pages_def Let_def)
  then show ?thesis using r by blast
qed

text \<open>
  The loop for virtual machines spends its budget at the threshold on white-listed local pages that
  it then leaves: of two pages of frequency 0, the first white-listed, it takes none where one was
  asked for; the other loop takes the second.
\<close>

lemma CollectPagesVm_spends:
  defines "pages \<equiv> [\<lparr>ad_freq = 0, ad_isWhiteListPage = True, ad_isSelected = False, ad_prior = 0\<rparr>,
    \<lparr>ad_freq = 0, ad_isWhiteListPage = False, ad_isSelected = False, ad_prior = 0\<rparr>]"
  shows "fst (snd (CollectPagesVm SELECT_BOTTOM_K True 2 pages 1 0 1 (\<lambda>_. 0))) = []"
    and "fst (snd (CollectPages4K SELECT_BOTTOM_K True 2 pages 1 0 1 (\<lambda>_. 0))) = [1]"
proof -
  have [simp]: "[0..<2] = [0, 1 :: nat]" by (simp add: numeral_2_eq_2)
  have c: "prior_counts 2 0 pages = (\<lambda>_. 0)(0 := 2)" by (simp add: prior_counts_def pages_def add64_def fun_eq_iff)
  have skip: "take_from (ps @ qs) c 1 (\<lambda>_. 0) = take_from qs c 1 (\<lambda>_. 0)" if "\<forall>p \<in> set ps. c p = 0" for ps qs :: "nat list" and c
    using that by (induction ps) (simp_all add: fun_upd_idem)
  have r: "rev [0..<64] = rev [1..<64] @ [0 :: nat]" by (simp add: upt_conv_Cons)
  have "take_from (rev [1..<64] @ [0]) ((\<lambda>_. 0)(0 := 2)) 1 (\<lambda>_. 0) = take_from [0] ((\<lambda>_. 0)(0 := 2)) (1 :: nat) (\<lambda>_. 0)"
    by (rule skip) auto
  then have B: "take_from (rev [0..<64]) ((\<lambda>_. 0)(0 := 2)) 1 (\<lambda>_. 0) 0 = (1 :: nat)" unfolding r by simp
  show "fst (snd (CollectPagesVm SELECT_BOTTOM_K True 2 pages 1 0 1 (\<lambda>_. 0))) = []"
    using B by (simp add: CollectPagesVm_def c [unfolded pages_def] pages_def beyond_def Let_def)
  show "fst (snd (CollectPages4K SELECT_BOTTOM_K True 2 pages 1 0 1 (\<lambda>_. 0))) = [1]"
    by (simp add: CollectPages4K_def pages_def beyond_def Let_def)
qed

end
