(* ===== verification/Migration_Threads.thy ===== *)
theory Migration_Threads
  imports Remote_State Page_Select
begin

text \<open>
  The message of a migration and its execution by one or several threads
  (\<^verbatim>\<open>plugins/smap/src/user/strategy/migration.c\<close>, lines 57 to 87, 599 to 694, 1072 to 1308): how the migration
  lists of the processes are put into one message, how the message is split among threads, and how
  their results are put together again.

  The array \<^verbatim>\<open>migList\<close> with its count \<^verbatim>\<open>cnt\<close> is a list. The migration driver is an argument: a
  function from the message it is given to its result (negative for an error) and the message with
  the results filled in. The call of a thread may depend on the thread, so the driver that thread
  \<open>i\<close> calls is \<open>ioctl i\<close>. Whether an allocation or the creation of a thread fails is an argument too.
  The fields of a list that \<^verbatim>\<open>StrategyInitMigList\<close> does not set are never read; they are zero here.
\<close>

record MigrateMsg =
  mm_pageSize :: int
  mm_migList :: "MigList list"

record SubMigrateCtx =
  sm_msg :: MigrateMsg
  sm_origIdx :: "nat list"
  sm_ret :: int

section \<open>The message\<close>

definition InitMigrateMsg :: "bool \<Rightarrow> ProcessManager \<Rightarrow> errno + MigrateMsg" where
  "InitMigrateMsg noMem manager =
     (if noMem then Inl ENOMEM else Inr \<lparr>mm_pageSize = sint (pm_pageSize manager), mm_migList = []\<rparr>)"

definition AddMigList :: "bool \<Rightarrow> bool \<Rightarrow> MigrateMsg \<Rightarrow> MigList \<Rightarrow> errno option \<times> MigrateMsg" where
  "AddMigList hugeMode noMem mMsg mList =
     (case li_addr mList of
        None \<Rightarrow> (None, mMsg)
      | Some addr \<Rightarrow>
          if li_nr mList = 0 then (None, mMsg)
          else if length (mm_migList mMsg) \<ge> GetCurrentMaxNrPid hugeMode * 8 then (Some ENOSPC, mMsg)
          else if noMem then (Some ENOMEM, mMsg)
          else (None, mMsg\<lparr>mm_migList := mm_migList mMsg @
            [\<lparr>li_successToUser = False, li_nr = li_nr mList, li_failedMigNr = 0, li_failedIsolatedNr = 0, li_pid = li_pid mList,
              li_from = li_from mList, li_to = li_to mList, li_addr = Some (take (li_nr mList) addr)\<rparr>]\<rparr>))"

definition StrategyInitMigList :: "int \<Rightarrow> miglists" where
  "StrategyInitMigList pid = (\<lambda>s d. \<lparr>li_successToUser = False, li_nr = 0, li_failedMigNr = 0, li_failedIsolatedNr = 0, li_pid = pid,
     li_from = int s, li_to = int d, li_addr = None\<rparr>)"

definition CheckActcDataValid :: "ProcessAttr \<Rightarrow> errno option" where
  "CheckActcDataValid process =
     (if \<forall>n < MAX_NODES. \<not> sc_hasActcData (pa_scanAttr process) n then Some ENODATA else None)"

text \<open>\<open>grouped\<close> is the strategy of processes with a group policy, \<^verbatim>\<open>GroupedMigrationStrategy\<close>.\<close>

type_synonym strategy = "ProcessAttr \<Rightarrow> miglists \<Rightarrow> errno option \<times> ProcessAttr \<times> miglists"

definition RunStrategy :: "strategy \<Rightarrow> (nat \<Rightarrow> nat \<Rightarrow> bool) \<Rightarrow> forbidden \<Rightarrow> nat \<Rightarrow> strategy" where
  "RunStrategy grouped noMem g nrLocalNuma process mlist =
     (if CheckActcDataValid process \<noteq> None then (Some EINVAL, process, mlist)
      else if pa_groupPolicyEnabled process then grouped process mlist
      else PairMigrationStrategy noMem g nrLocalNuma process mlist)"

text \<open>The check of the remote nodes of a process: a disabled node stops a grouped process, a broken one every process.\<close>

fun check_nodes :: "forbidden \<Rightarrow> CriticalErr \<Rightarrow> nat \<Rightarrow> ProcessAttr \<Rightarrow> nat list \<Rightarrow> errno option" where
  "check_nodes g ce nrLocalNuma process [] = None"
| "check_nodes g ce nrLocalNuma process (i # is) =
     (if \<not> bit (na_numaNodes (pa_numaAttr process)) i then check_nodes g ce nrLocalNuma process is
      else
        let nid = i - (LOCAL_NUMA_BITS - nrLocalNuma) in
        if IsNodeForbidden nid g \<and> pa_groupPolicyEnabled process then Some EPERM
        else if IsRemoteNumaCriticalErr (int nrLocalNuma) ce (int nid) then Some ENODEV
        else check_nodes g ce nrLocalNuma process is)"

text \<open>The result is the message and the number of pages put on it; a full message is not an error.\<close>

fun add_cells :: "bool \<Rightarrow> (nat \<Rightarrow> nat \<Rightarrow> bool) \<Rightarrow> miglists \<Rightarrow> (nat \<times> nat) list \<Rightarrow> MigrateMsg \<Rightarrow> nat \<Rightarrow> (errno + nat) \<times> MigrateMsg" where
  "add_cells hugeMode noMem migList [] mMsg nrMigTotal = (Inr nrMigTotal, mMsg)"
| "add_cells hugeMode noMem migList ((s, d) # cells) mMsg nrMigTotal =
     (if li_nr (migList s d) = 0 then add_cells hugeMode noMem migList cells mMsg nrMigTotal
      else
        (case AddMigList hugeMode (noMem s d) mMsg (migList s d) of
           (Some e, mMsg) \<Rightarrow> if e = ENOSPC then (Inr nrMigTotal, mMsg) else (Inl e, mMsg)
         | (None, mMsg) \<Rightarrow> add_cells hugeMode noMem migList cells mMsg (add64 nrMigTotal (li_nr (migList s d)))))"

definition BuildMigrationMsg ::
  "strategy \<Rightarrow> (nat \<Rightarrow> nat \<Rightarrow> bool) \<Rightarrow> (nat \<Rightarrow> nat \<Rightarrow> bool) \<Rightarrow> bool \<Rightarrow> forbidden \<Rightarrow> CriticalErr \<Rightarrow> nat \<Rightarrow> ProcessAttr \<Rightarrow> MigrateMsg \<Rightarrow> nat \<Rightarrow>
   errno option \<times> ProcessAttr \<times> MigrateMsg \<times> nat" where
  "BuildMigrationMsg grouped noMem noMem2 hugeMode g ce nrLocalNuma process mMsg migratePage =
     (case CheckActcDataValid process of
        Some e \<Rightarrow> (Some e, process, mMsg, migratePage)
      | None \<Rightarrow>
          (case check_nodes g ce nrLocalNuma process [LOCAL_NUMA_BITS..<MAX_NODES] of
             Some e \<Rightarrow> (Some e, process, mMsg, migratePage)
           | None \<Rightarrow>
               (case RunStrategy grouped noMem g nrLocalNuma process (StrategyInitMigList (pa_pid process)) of
                  (Some e, process, _) \<Rightarrow> (Some e, process, mMsg, migratePage)
                | (None, process, migList) \<Rightarrow>
                    (case add_cells hugeMode noMem2 migList
                        (concat (map (\<lambda>(l, r). [(r, l), (l, r)]) (List.product [0..<nrLocalNuma] [nrLocalNuma..<nrLocalNuma + REMOTE_NUMA_NUM])))
                        mMsg 0 of
                       (Inl e, mMsg) \<Rightarrow> (Some e, process, mMsg, migratePage)
                     | (Inr nrMigTotal, mMsg) \<Rightarrow> (None, process, mMsg, add64 migratePage nrMigTotal)))))"

section \<open>Threads\<close>

definition DecideThreadNum :: "Machine \<Rightarrow> ProcessManager \<Rightarrow> MigrateMsg \<Rightarrow> int" where
  "DecideThreadNum mc manager mMsg =
     (if mm_pageSize mMsg \<noteq> sint (mc_pageSizeHuge mc) then 1
      else
        let total = fold (\<lambda>l t. add64 t (li_nr l)) (mm_migList mMsg) 0 in
        if total = 0 \<or> total \<le> 40 then 1
        else if list_ex (\<lambda>attr. pa_mmapType attr = MMAP_SHARED) (pm_attrs manager) then 1
        else if total \<le> 400 then 4 else 8)"

text \<open>One list is cut into a piece for every thread; \<open>offset\<close> is where the piece of thread \<open>i\<close> starts.\<close>

definition sub_list :: "MigList \<Rightarrow> nat \<Rightarrow> nat \<Rightarrow> MigList" where
  "sub_list l offset subNr = \<lparr>li_successToUser = False, li_nr = subNr, li_failedMigNr = 0, li_failedIsolatedNr = 0, li_pid = li_pid l,
     li_from = li_from l, li_to = li_to l, li_addr = map_option (\<lambda>addr. take subNr (drop offset addr)) (li_addr l)\<rparr>"

fun split_list :: "MigList \<Rightarrow> nat \<Rightarrow> nat \<Rightarrow> nat \<Rightarrow> nat list \<Rightarrow> nat \<Rightarrow> SubMigrateCtx list \<Rightarrow> SubMigrateCtx list" where
  "split_list l j chunk remd [] offset subs = subs"
| "split_list l j chunk remd (i # is) offset subs =
     (let subNr = chunk + (if i < remd then 1 else 0) in
      if subNr = 0 then split_list l j chunk remd is offset subs
      else
        let s = subs ! i; msg = sm_msg s in
        split_list l j chunk remd is (offset + subNr)
          (subs[i := s\<lparr>sm_msg := msg\<lparr>mm_migList := mm_migList msg @ [sub_list l offset subNr]\<rparr>, sm_origIdx := sm_origIdx s @ [j]\<rparr>]))"

definition BuildSubMigrateMsgs :: "bool \<Rightarrow> MigrateMsg \<Rightarrow> int \<Rightarrow> errno + SubMigrateCtx list" where
  "BuildSubMigrateMsgs noMem mMsg nrThreads =
     (if nrThreads \<le> 0 then Inl EINVAL
      else if noMem then Inl ENOMEM
      else
        let n = nat nrThreads;
            subs = replicate n \<lparr>sm_msg = \<lparr>mm_pageSize = mm_pageSize mMsg, mm_migList = []\<rparr>, sm_origIdx = [], sm_ret = 0\<rparr>
        in Inr (fold (\<lambda>j subs.
             let l = mm_migList mMsg ! j; nr = li_nr l in
             if nr = 0 then subs else split_list l j (nr div n) (nr mod n) [0..<n] 0 subs)
           [0..<length (mm_migList mMsg)] subs))"

definition SubMigrateThreadFn :: "(MigrateMsg \<Rightarrow> int \<times> MigrateMsg) \<Rightarrow> SubMigrateCtx \<Rightarrow> SubMigrateCtx" where
  "SubMigrateThreadFn ioctl ctx =
     (if length (mm_migList (sm_msg ctx)) > 0 then let (ret, msg) = ioctl (sm_msg ctx) in ctx\<lparr>sm_ret := ret, sm_msg := msg\<rparr>
      else ctx\<lparr>sm_ret := 0\<rparr>)"

definition aggregate_entry :: "int \<Rightarrow> MigList \<Rightarrow> MigList \<Rightarrow> MigList" where
  "aggregate_entry ret sub l =
     (let l = (if ret < 0 then l\<lparr>li_failedIsolatedNr := add64 (li_failedIsolatedNr l) (li_nr sub)\<rparr>
               else l\<lparr>li_failedMigNr := add64 (li_failedMigNr l) (li_failedMigNr sub),
                      li_failedIsolatedNr := add64 (li_failedIsolatedNr l) (li_failedIsolatedNr sub)\<rparr>)
      in if li_successToUser sub then l\<lparr>li_successToUser := True\<rparr> else l)"

definition AggregateSubMigResults :: "SubMigrateCtx list \<Rightarrow> MigList list \<Rightarrow> MigList list" where
  "AggregateSubMigResults subs migList =
     fold (\<lambda>ctx migList.
       fold (\<lambda>k migList. migList[sm_origIdx ctx ! k := aggregate_entry (sm_ret ctx) (mm_migList (sm_msg ctx) ! k) (migList ! (sm_origIdx ctx ! k))])
         [0..<length (mm_migList (sm_msg ctx))] migList) subs migList"

definition AggregateSubThreadRet :: "SubMigrateCtx list \<Rightarrow> int" where
  "AggregateSubThreadRet subs = (case find (\<lambda>ctx. sm_ret ctx < 0) subs of None \<Rightarrow> 0 | Some ctx \<Rightarrow> sm_ret ctx)"

text \<open>A thread that could not be created leaves its part untouched, with the result \<open>-EFAULT\<close> (14).\<close>

definition RunMultiThreadedMigrate ::
  "bool \<Rightarrow> bool \<Rightarrow> (nat \<Rightarrow> bool) \<Rightarrow> (nat \<Rightarrow> MigrateMsg \<Rightarrow> int \<times> MigrateMsg) \<Rightarrow> MigrateMsg \<Rightarrow> int \<Rightarrow> (errno + int) \<times> MigrateMsg" where
  "RunMultiThreadedMigrate noMem noMem2 created ioctl mMsg nrThreads =
     (if nrThreads \<le> 1 \<or> nrThreads > 8 then (Inl EINVAL, mMsg)
      else if noMem then (Inl ENOMEM, mMsg)
      else (case BuildSubMigrateMsgs noMem2 mMsg nrThreads of
              Inl e \<Rightarrow> (Inl e, mMsg)
            | Inr subs \<Rightarrow>
                let subs = map (\<lambda>i. if created i then SubMigrateThreadFn (ioctl i) (subs ! i) else (subs ! i)\<lparr>sm_ret := -14\<rparr>) [0..<length subs]
                in (Inr (AggregateSubThreadRet subs), mMsg\<lparr>mm_migList := AggregateSubMigResults subs (mm_migList mMsg)\<rparr>)))"

definition DoMigration ::
  "bool \<Rightarrow> bool \<Rightarrow> bool \<Rightarrow> (nat \<Rightarrow> bool) \<Rightarrow> (nat \<Rightarrow> MigrateMsg \<Rightarrow> int \<times> MigrateMsg) \<Rightarrow> Machine \<Rightarrow> ProcessManager \<Rightarrow> MigrateMsg \<Rightarrow>
   (errno + int) \<times> MigrateMsg" where
  "DoMigration noMem noMem1 noMem2 created ioctl mc manager mMsg =
     (if noMem then (Inl ENOMEM, mMsg)
      else
        let nThread = DecideThreadNum mc manager mMsg;
            (err, mMsg) =
              (if nThread = 1 then if length (mm_migList mMsg) > 0 then apfst Inr (ioctl 0 mMsg) else (Inr 0, mMsg)
               else RunMultiThreadedMigrate noMem1 noMem2 created ioctl mMsg nThread)
        in (err, mMsg\<lparr>mm_migList := map (\<lambda>l. l\<lparr>li_addr := None\<rparr>) (mm_migList mMsg)\<rparr>))"

section \<open>Splitting a list\<close>

definition size_of :: "nat \<Rightarrow> nat \<Rightarrow> nat \<Rightarrow> nat" where
  "size_of nr n i = nr div n + (if i < nr mod n then 1 else 0)"

definition start_of :: "nat \<Rightarrow> nat \<Rightarrow> nat \<Rightarrow> nat" where
  "start_of nr n i = i * (nr div n) + min i (nr mod n)"

definition piece_of :: "MigList \<Rightarrow> nat \<Rightarrow> nat \<Rightarrow> MigList" where
  "piece_of l n i = sub_list l (start_of (li_nr l) n i) (size_of (li_nr l) n i)"

lemma start_of_0 [simp]: "start_of nr n 0 = 0"
  by (simp add: start_of_def)

lemma start_of_Suc: "start_of nr n (Suc i) = start_of nr n i + size_of nr n i"
  by (auto simp: start_of_def size_of_def)

lemma start_of_all: "0 < n \<Longrightarrow> start_of nr n n = nr"
  by (simp add: start_of_def min.absorb2 less_imp_le mult.commute)

definition add_piece :: "nat \<Rightarrow> MigList \<Rightarrow> SubMigrateCtx \<Rightarrow> SubMigrateCtx" where
  "add_piece j l s = s\<lparr>sm_msg := (sm_msg s)\<lparr>mm_migList := mm_migList (sm_msg s) @ [l]\<rparr>, sm_origIdx := sm_origIdx s @ [j]\<rparr>"

lemma split_list_nth:
  fixes l :: MigList and j :: nat
  assumes "length subs = n" "i0 \<le> n"
  defines "subs' \<equiv> split_list l j (li_nr l div n) (li_nr l mod n) [i0..<n] (start_of (li_nr l) n i0) subs"
  shows "length subs' = n \<and> (\<forall>i < n. subs' ! i =
    (if i0 \<le> i \<and> size_of (li_nr l) n i \<noteq> 0 then add_piece j (piece_of l n i) (subs ! i) else subs ! i))"
  using assms(1,2) unfolding subs'_def
proof (induction "n - i0" arbitrary: i0 subs)
  case 0
  then show ?case by simp
next
  case (Suc k)
  let ?nr = "li_nr l"
  let ?s = "if size_of ?nr n i0 = 0 then subs else subs[i0 := add_piece j (piece_of l n i0) (subs ! i0)]"
  have lt: "i0 < n" using Suc.hyps(2) by simp
  have step: "split_list l j (?nr div n) (?nr mod n) [i0..<n] (start_of ?nr n i0) subs =
      split_list l j (?nr div n) (?nr mod n) [Suc i0..<n] (start_of ?nr n (Suc i0)) ?s"
    unfolding upt_conv_Cons [OF lt] by (simp add: Let_def start_of_Suc size_of_def add_piece_def piece_of_def)
  have "length ?s = n" using Suc.prems(1) by simp
  note IH = Suc.hyps(1) [OF _ this, of "Suc i0"]
  show ?case unfolding step using IH Suc.hyps(2) lt Suc.prems(1) by (auto simp: nth_list_update le_Suc_eq Suc_le_eq)
qed

text \<open>The work of thread \<open>i\<close>: for every list its piece, with the index of the list, unless the piece is empty.\<close>

definition work :: "MigList list \<Rightarrow> nat \<Rightarrow> nat \<Rightarrow> nat list" where
  "work migList n i = filter (\<lambda>j. size_of (li_nr (migList ! j)) n i \<noteq> 0) [0..<length migList]"

lemma BuildSubMigrateMsgs_eq:
  assumes "BuildSubMigrateMsgs False mMsg nrThreads = Inr subs"
  defines "n \<equiv> nat nrThreads" and "ml \<equiv> mm_migList mMsg"
  shows "0 < n \<and> length subs = n \<and> (\<forall>i < n. subs ! i =
    \<lparr>sm_msg = \<lparr>mm_pageSize = mm_pageSize mMsg, mm_migList = map (\<lambda>j. piece_of (ml ! j) n i) (work ml n i)\<rparr>,
     sm_origIdx = work ml n i, sm_ret = 0\<rparr>)"
proof -
  have n: "0 < n" using assms(1) by (auto simp: BuildSubMigrateMsgs_def n_def split: if_splits)
  define f where "f = (\<lambda>j subs. let l = ml ! j; nr = li_nr l in if nr = 0 then subs else split_list l j (nr div n) (nr mod n) [0..<n] 0 subs)"
  define s0 where "s0 = replicate n \<lparr>sm_msg = \<lparr>mm_pageSize = mm_pageSize mMsg, mm_migList = []\<rparr>, sm_origIdx = [], sm_ret = 0\<rparr>"
  have subs: "subs = fold f [0..<length ml] s0"
    using assms(1) unfolding BuildSubMigrateMsgs_def Let_def f_def s0_def n_def ml_def by (simp split: if_splits)
  define w where "w = (\<lambda>m i. filter (\<lambda>j. size_of (li_nr (ml ! j)) n i \<noteq> 0) [0..<m])"
  have "length (fold f [0..<m] s0) = n \<and> (\<forall>i < n. fold f [0..<m] s0 ! i =
    \<lparr>sm_msg = \<lparr>mm_pageSize = mm_pageSize mMsg, mm_migList = map (\<lambda>j. piece_of (ml ! j) n i) (w m i)\<rparr>, sm_origIdx = w m i, sm_ret = 0\<rparr>)" for m
  proof (induction m)
    case 0
    show ?case by (simp add: s0_def w_def)
  next
    case (Suc m)
    let ?s = "fold f [0..<m] s0" and ?l = "ml ! m"
    have "length (f m ?s) = n \<and> (\<forall>i < n. f m ?s ! i =
        (if size_of (li_nr ?l) n i \<noteq> 0 then add_piece m (piece_of ?l n i) (?s ! i) else ?s ! i))"
      using split_list_nth [of ?s n 0 ?l m] Suc by (cases "li_nr ?l = 0") (simp_all add: f_def Let_def size_of_def)
    then show ?case using Suc by (simp add: w_def add_piece_def)
  qed
  from this [of "length ml"] show ?thesis using n by (simp add: subs w_def work_def)
qed

lemma pieces_concat:
  assumes "li_addr l = Some a" "li_nr l = length a" "0 < n"
  shows "concat (map (\<lambda>i. list_addr (piece_of l n i)) [0..<n]) = a"
proof -
  have "concat (map (\<lambda>i. list_addr (piece_of l n i)) [0..<m]) = take (start_of (length a) n m) a" for m
    by (induction m) (simp_all add: piece_of_def sub_list_def list_addr_def assms(1,2) start_of_Suc take_add)
  from this [of n] show ?thesis using start_of_all [OF assms(3)] by simp
qed

lemma start_of_le:
  assumes "i \<le> n"
  shows "start_of nr n i \<le> nr"
proof -
  have "start_of nr n i \<le> n * (nr div n) + nr mod n"
    unfolding start_of_def by (intro add_mono mult_right_mono assms min.cobounded2) simp
  then show ?thesis by simp
qed

lemma piece_length:
  assumes "li_addr l = Some a" "li_nr l = length a" "0 < n" "i < n"
  shows "length (list_addr (piece_of l n i)) = size_of (li_nr l) n i"
  using start_of_le [of "Suc i" n "length a"] assms by (simp add: piece_of_def sub_list_def list_addr_def start_of_Suc)


section \<open>Putting the results together\<close>

lemma aggregate_ctx:
  fixes ret :: int
  assumes "distinct ix" "\<forall>j \<in> set ix. j < length ml" "length es = length ix"
  defines "ml' \<equiv> fold (\<lambda>k ml. ml[ix ! k := aggregate_entry ret (es ! k) (ml ! (ix ! k))]) [0..<length es] ml"
  shows "length ml' = length ml \<and> (\<forall>j < length ml. ml' ! j = (case map_of (zip ix es) j of None \<Rightarrow> ml ! j | Some e \<Rightarrow> aggregate_entry ret e (ml ! j)))"
proof -
  define f where "f = (\<lambda>k ml. ml[ix ! k := aggregate_entry ret (es ! k) (ml ! (ix ! k))])"
  have "length (fold f [0..<m] ml) = length ml \<and> (\<forall>j < length ml. fold f [0..<m] ml ! j =
      (case map_of (zip (take m ix) (take m es)) j of None \<Rightarrow> ml ! j | Some e \<Rightarrow> aggregate_entry ret e (ml ! j)))" if "m \<le> length es" for m
    using that
  proof (induction m)
    case (Suc m)
    have m: "m < length es" "m < length ix" using Suc.prems assms(3) by auto
    have z: "zip (take (Suc m) ix) (take (Suc m) es) = zip (take m ix) (take m es) @ [(ix ! m, es ! m)]"
      using m by (simp add: take_Suc_conv_app_nth zip_append)
    have notin: "map_of (zip (take m ix) (take m es)) (ix ! m) = None"
    proof -
      have "ix ! m \<notin> set (take m ix)" using assms(1) m by (auto simp: in_set_conv_nth nth_eq_iff_index_eq)
      then show ?thesis using m by (auto simp: map_of_eq_None_iff dest: set_zip_leftD)
    qed
    have IH: "length (fold f [0..<m] ml) = length ml" "\<And>j. j < length ml \<Longrightarrow> fold f [0..<m] ml ! j =
      (case map_of (zip (take m ix) (take m es)) j of None \<Rightarrow> ml ! j | Some e \<Rightarrow> aggregate_entry ret e (ml ! j))" using Suc by simp_all
    have "ix ! m < length ml" using assms(2) m by simp
    have step: "fold f [0..<Suc m] ml = (fold f [0..<m] ml)[ix ! m := aggregate_entry ret (es ! m) (fold f [0..<m] ml ! (ix ! m))]"
      by (simp add: f_def)
    show ?case unfolding z step using \<open>ix ! m < length ml\<close> IH notin
      by (auto simp: nth_list_update map_of_append map_add_def split: option.split)
  qed simp
  from this [of "length es"] show ?thesis using assms(3) by (simp add: ml'_def f_def)
qed

lemma AggregateSubMigResults_nth:
  assumes "\<forall>c \<in> set subs. distinct (sm_origIdx c) \<and> (\<forall>j \<in> set (sm_origIdx c). j < length ml) \<and> length (mm_migList (sm_msg c)) = length (sm_origIdx c)"
  shows "length (AggregateSubMigResults subs ml) = length ml \<and> (\<forall>j < length ml. AggregateSubMigResults subs ml ! j =
    fold (\<lambda>c l. case map_of (zip (sm_origIdx c) (mm_migList (sm_msg c))) j of None \<Rightarrow> l | Some e \<Rightarrow> aggregate_entry (sm_ret c) e l) subs (ml ! j))"
  using assms
proof (induction subs arbitrary: ml)
  case (Cons c subs)
  let ?ml = "fold (\<lambda>k migList. migList[sm_origIdx c ! k := aggregate_entry (sm_ret c) (mm_migList (sm_msg c) ! k) (migList ! (sm_origIdx c ! k))])
         [0..<length (mm_migList (sm_msg c))] ml"
  have c: "length ?ml = length ml \<and> (\<forall>j < length ml. ?ml ! j =
      (case map_of (zip (sm_origIdx c) (mm_migList (sm_msg c))) j of None \<Rightarrow> ml ! j | Some e \<Rightarrow> aggregate_entry (sm_ret c) e (ml ! j)))"
    using Cons.prems by (intro aggregate_ctx) auto
  have "AggregateSubMigResults (c # subs) ml = AggregateSubMigResults subs ?ml" by (simp add: AggregateSubMigResults_def)
  then show ?case using Cons.IH [of ?ml] Cons.prems c by simp
qed (simp add: AggregateSubMigResults_def)


section \<open>What the driver reports\<close>

definition GetMigListSuccessPages :: "MigList \<Rightarrow> nat" where
  "GetMigListSuccessPages l =
     (if \<not> li_successToUser l \<or> li_failedMigNr l \<ge> li_nr l then 0
      else
        let success = sub64 (li_nr l) (li_failedMigNr l) in
        if li_failedIsolatedNr l \<ge> success then 0 else sub64 success (li_failedIsolatedNr l))"

text \<open>
  What the migration driver decides about a page: it is migrated, it is isolated and not migrated, or
  it cannot be isolated. The verdict may depend on the process, the nodes and the page, not on the
  other pages of the call.
\<close>

datatype verdict = Migrated | Failed_Migration | Failed_Isolation

type_synonym verdicts = "int \<Rightarrow> int \<Rightarrow> int \<Rightarrow> nat \<Rightarrow> verdict"

definition count_of :: "verdicts \<Rightarrow> verdict \<Rightarrow> MigList \<Rightarrow> nat list \<Rightarrow> nat" where
  "count_of V v l pages = length (filter (\<lambda>p. V (li_pid l) (li_from l) (li_to l) p = v) pages)"

text \<open>The list after all its pages were dealt with; it is marked as reported once a page of it was isolated.\<close>

definition judge :: "verdicts \<Rightarrow> MigList \<Rightarrow> MigList" where
  "judge V l = l\<lparr>li_successToUser := (li_successToUser l \<or> count_of V Failed_Isolation l (list_addr l) \<noteq> length (list_addr l)),
     li_failedMigNr := count_of V Failed_Migration l (list_addr l),
     li_failedIsolatedNr := count_of V Failed_Isolation l (list_addr l)\<rparr>"

text \<open>A list as it is before the migration.\<close>

abbreviation (input) MAX_MIG_LIST_NR :: nat where "MAX_MIG_LIST_NR \<equiv> 2 ^ 28"

definition ready :: "MigList \<Rightarrow> bool" where
  "ready l \<longleftrightarrow> \<not> li_successToUser l \<and> li_failedMigNr l = 0 \<and> li_failedIsolatedNr l = 0 \<and> li_addr l \<noteq> None \<and>
     li_nr l = length (list_addr l) \<and> 0 < li_nr l \<and> li_nr l \<le> MAX_MIG_LIST_NR \<and>
     0 \<le> li_from l \<and> li_from l < int MAX_NODES \<and> 0 \<le> li_to l \<and> li_to l < int MAX_NODES"

definition shape :: "MigList \<Rightarrow> int \<times> int \<times> int \<times> nat" where
  "shape l = (li_pid l, li_from l, li_to l, li_nr l)"

text \<open>
  The contract of a call of the driver: it keeps the process, the nodes and the size of every list,
  and when it reports no error and was given proper lists, every page was dealt with. After an error
  the counters may hold anything.
\<close>

locale migration_driver =
  fixes V :: verdicts and ioctl :: "MigrateMsg \<Rightarrow> int \<times> MigrateMsg"
  assumes keeps: "map shape (mm_migList (snd (ioctl msg))) = map shape (mm_migList msg)"
    and completes: "\<forall>l \<in> set (mm_migList msg). ready l \<Longrightarrow> 0 \<le> fst (ioctl msg) \<Longrightarrow>
      mm_migList (snd (ioctl msg)) = map (judge V) (mm_migList msg)"

lemma count_of_total:
  "count_of V Migrated l pages + count_of V Failed_Migration l pages + count_of V Failed_Isolation l pages = length pages"
proof (induction pages)
  case (Cons p pages)
  then show ?case by (cases "V (li_pid l) (li_from l) (li_to l) p") (simp_all add: count_of_def)
qed (simp add: count_of_def)

lemma count_of_append: "count_of V v l (xs @ ys) = count_of V v l xs + count_of V v l ys"
  by (simp add: count_of_def)

lemma success_pages:
  assumes "li_nr l < 2 ^ 64" "li_nr l = m + li_failedMigNr l + li_failedIsolatedNr l" "li_successToUser l \<or> m = 0"
  shows "GetMigListSuccessPages l = m"
proof (cases "li_successToUser l \<and> 0 < m")
  case True
  then have s: "sub64 (li_nr l) (li_failedMigNr l) = m + li_failedIsolatedNr l" using assms(1,2) by (subst sub64_eq) auto
  have "sub64 (m + li_failedIsolatedNr l) (li_failedIsolatedNr l) = m" using assms(1,2) by (subst sub64_eq) auto
  moreover have "\<not> li_nr l \<le> li_failedMigNr l" using True assms(2) by simp
  ultimately show ?thesis using True by (simp add: GetMigListSuccessPages_def Let_def s)
next
  case False
  then have m: "m = 0 \<or> \<not> li_successToUser l" by auto
  have "sub64 (li_nr l) (li_failedMigNr l) = m + li_failedIsolatedNr l" using assms(1,2) by (subst sub64_eq) auto
  then show ?thesis using m assms(3) by (auto simp: GetMigListSuccessPages_def Let_def)
qed

lemma judge_success:
  assumes "ready l"
  shows "GetMigListSuccessPages (judge V l) = count_of V Migrated l (list_addr l)"
  by (rule success_pages) (use assms count_of_total [of V l "list_addr l"] in \<open>auto simp: ready_def judge_def\<close>)

lemma ready_piece:
  assumes "ready l" "i < n" "size_of (li_nr l) n i \<noteq> 0"
  shows "ready (piece_of l n i)"
proof -
  obtain a where a: "li_addr l = Some a" "li_nr l = length a" using assms(1) by (auto simp: ready_def list_addr_def)
  have "size_of (li_nr l) n i \<le> li_nr l" using start_of_le [of "Suc i" n "li_nr l"] assms(2) by (simp add: start_of_Suc)
  moreover have "length (list_addr (piece_of l n i)) = size_of (li_nr l) n i" using piece_length [OF a] assms(2) by simp
  ultimately show ?thesis using assms(1,3) unfolding ready_def by (auto simp: piece_of_def sub_list_def)
qed

text \<open>
  What is added to a list of the message by the threads, one after the other: \<open>works i\<close> says whether
  the call of thread \<open>i\<close> succeeded, \<open>e i\<close> is the piece as the call leaves it.
\<close>

lemma aggregate_pieces:
  fixes V :: verdicts and l :: MigList and n :: nat and works :: "nat \<Rightarrow> bool" and ret :: "nat \<Rightarrow> int" and e :: "nat \<Rightarrow> MigList"
  assumes l: "ready l" and n: "0 < n" and ret: "\<And>i. works i \<longleftrightarrow> \<not> ret i < 0"
    and e: "\<forall>i < n. size_of (li_nr l) n i \<noteq> 0 \<longrightarrow> (if works i then e i = judge V (piece_of l n i) else li_nr (e i) = size_of (li_nr l) n i)"
  defines "handled \<equiv> \<lambda>m. concat (map (\<lambda>i. if works i then list_addr (piece_of l n i) else []) [0..<m])"
  assumes m: "m \<le> n"
  shows "let l' = fold (\<lambda>i l'. if size_of (li_nr l) n i = 0 then l' else aggregate_entry (ret i) (e i) l') [0..<m] l in
    li_nr l' = li_nr l \<and>
    start_of (li_nr l) n m = count_of V Migrated l (handled m) + li_failedMigNr l' + li_failedIsolatedNr l' \<and>
    (li_successToUser l' \<or> count_of V Migrated l (handled m) = 0)"
  using m
proof (induction m)
  case 0
  then show ?case using l by (simp add: ready_def handled_def count_of_def)
next
  case (Suc m)
  define l' where "l' = fold (\<lambda>i l'. if size_of (li_nr l) n i = 0 then l' else aggregate_entry (ret i) (e i) l') [0..<m] l"
  let ?s = "size_of (li_nr l) n m" and ?p = "list_addr (piece_of l n m)"
  have IH: "li_nr l' = li_nr l" "start_of (li_nr l) n m = count_of V Migrated l (handled m) + li_failedMigNr l' + li_failedIsolatedNr l'"
    "li_successToUser l' \<or> count_of V Migrated l (handled m) = 0"
    using Suc unfolding l'_def Let_def by simp_all
  obtain a where a: "li_addr l = Some a" "li_nr l = length a" using l by (auto simp: ready_def list_addr_def)
  have le: "start_of (li_nr l) n (Suc m) \<le> length a" using start_of_le [OF Suc.prems] a(2) by simp
  have lenp: "length ?p = ?s" using piece_length [OF a n] Suc.prems by simp
  have handled: "count_of V Migrated l (handled (Suc m)) = count_of V Migrated l (handled m) + (if works m then count_of V Migrated l ?p else 0)"
    by (simp add: handled_def count_of_append count_of_def)
  have small: "li_failedMigNr l' + ?s < 2 ^ 64" "li_failedIsolatedNr l' + ?s < 2 ^ 64"
    using IH(2) le a l by (auto simp: start_of_Suc ready_def)
  have tot: "count_of V Migrated l ?p + count_of V Failed_Migration l ?p + count_of V Failed_Isolation l ?p = ?s"
    using count_of_total [of V l ?p] lenp by simp
  have cnt: "count_of V v (piece_of l n m) = count_of V v l" for v by (simp add: count_of_def piece_of_def sub_list_def fun_eq_iff)
  have step: "fold (\<lambda>i l'. if size_of (li_nr l) n i = 0 then l' else aggregate_entry (ret i) (e i) l') [0..<Suc m] l =
      (if ?s = 0 then l' else aggregate_entry (ret m) (e m) l')" by (simp add: l'_def)
  show ?case
  proof (cases "?s = 0")
    case True
    then show ?thesis unfolding step Let_def using IH tot by (simp add: start_of_Suc handled)
  next
    case False
    show ?thesis
    proof (cases "works m")
      case True
      have adds: "add64 (li_failedMigNr l') (count_of V Failed_Migration l ?p) = li_failedMigNr l' + count_of V Failed_Migration l ?p"
        "add64 (li_failedIsolatedNr l') (count_of V Failed_Isolation l ?p) = li_failedIsolatedNr l' + count_of V Failed_Isolation l ?p"
        using small tot by (auto intro!: add64_eq)
      have em: "e m = judge V (piece_of l n m)" using e False True Suc.prems by simp
      have "\<not> li_successToUser (piece_of l n m)" by (simp add: piece_of_def sub_list_def)
      then have "aggregate_entry (ret m) (e m) l' = l'\<lparr>li_failedMigNr := li_failedMigNr l' + count_of V Failed_Migration l ?p,
          li_failedIsolatedNr := li_failedIsolatedNr l' + count_of V Failed_Isolation l ?p,
          li_successToUser := li_successToUser l' \<or> count_of V Failed_Isolation l ?p \<noteq> ?s\<rparr>"
        using True ret [of m] lenp by (simp add: aggregate_entry_def Let_def em judge_def cnt adds)
      then show ?thesis unfolding step Let_def using IH tot False True by (auto simp: start_of_Suc handled)
    next
      case fails: False
      have "li_nr (e m) = ?s" using e False fails Suc.prems by simp
      then have "aggregate_entry (ret m) (e m) l' = l'\<lparr>li_failedIsolatedNr := li_failedIsolatedNr l' + ?s,
          li_successToUser := li_successToUser l' \<or> li_successToUser (e m)\<rparr>"
        using fails ret [of m] small by (simp add: aggregate_entry_def Let_def add64_eq)
      then show ?thesis unfolding step Let_def using IH False fails by (auto simp: start_of_Suc handled)
    qed
  qed
qed


section \<open>Migration by several threads\<close>

definition works_of :: "(nat \<Rightarrow> bool) \<Rightarrow> (nat \<Rightarrow> MigrateMsg \<Rightarrow> int \<times> MigrateMsg) \<Rightarrow> SubMigrateCtx list \<Rightarrow> nat \<Rightarrow> bool" where
  "works_of created ioctl subs i \<longleftrightarrow> created i \<and> \<not> sm_ret (SubMigrateThreadFn (ioctl i) (subs ! i)) < 0"

definition run_thread :: "(nat \<Rightarrow> bool) \<Rightarrow> (nat \<Rightarrow> MigrateMsg \<Rightarrow> int \<times> MigrateMsg) \<Rightarrow> SubMigrateCtx list \<Rightarrow> nat \<Rightarrow> SubMigrateCtx" where
  "run_thread created ioctl subs i = (if created i then SubMigrateThreadFn (ioctl i) (subs ! i) else (subs ! i)\<lparr>sm_ret := -14\<rparr>)"

lemma run_thread_keeps:
  assumes "migration_driver V (ioctl i)"
  shows "sm_origIdx (run_thread created ioctl subs i) = sm_origIdx (subs ! i)"
    and "map shape (mm_migList (sm_msg (run_thread created ioctl subs i))) = map shape (mm_migList (sm_msg (subs ! i)))"
    and "works_of created ioctl subs i \<longleftrightarrow> \<not> sm_ret (run_thread created ioctl subs i) < 0"
  using migration_driver.keeps [OF assms, of "sm_msg (subs ! i)"]
  by (auto simp: works_of_def run_thread_def SubMigrateThreadFn_def split: prod.splits)

lemma run_thread_completes:
  assumes "migration_driver V (ioctl i)" "works_of created ioctl subs i" "\<forall>l \<in> set (mm_migList (sm_msg (subs ! i))). ready l"
  shows "mm_migList (sm_msg (run_thread created ioctl subs i)) = map (judge V) (mm_migList (sm_msg (subs ! i)))"
  using migration_driver.completes [OF assms(1,3)] assms(2)
  by (auto simp: works_of_def run_thread_def SubMigrateThreadFn_def split: prod.splits if_splits)

lemma in_work: "j \<in> set (work ml n i) \<longleftrightarrow> j < length ml \<and> size_of (li_nr (ml ! j)) n i \<noteq> 0"
  by (auto simp: work_def)

lemma map_of_work:
  assumes "j < length ml"
  shows "map_of (zip (work ml n i) (map f (work ml n i))) j = (if size_of (li_nr (ml ! j)) n i = 0 then None else Some (f j))"
  using assms by (auto simp: map_of_zip_map work_def)

lemma map_of_shape:
  assumes "map shape es = map shape (map f ks)" "j \<in> set ks"
  shows "\<exists>e. map_of (zip ks es) j = Some e \<and> shape e = shape (f j)"
  using assms
proof (induction ks arbitrary: es)
  case (Cons k ks)
  then obtain e es' where "es = e # es'" by (cases es) auto
  then show ?case using Cons by auto
qed simp

text \<open>The piece of list \<open>j\<close> as thread \<open>i\<close> leaves it.\<close>

lemma thread_piece:
  fixes created :: "nat \<Rightarrow> bool"
  assumes drv: "migration_driver V (ioctl i)" and rdy: "\<forall>l \<in> set ml. ready l" and i: "i < n" and j: "j < length ml"
    and sub: "sm_origIdx (subs ! i) = work ml n i" "mm_migList (sm_msg (subs ! i)) = map (\<lambda>j. piece_of (ml ! j) n i) (work ml n i)"
  defines "c \<equiv> run_thread created ioctl subs i" and "l \<equiv> ml ! j"
  shows "map_of (zip (sm_origIdx c) (mm_migList (sm_msg c))) j = None \<longleftrightarrow> size_of (li_nr l) n i = 0"
    and "map_of (zip (sm_origIdx c) (mm_migList (sm_msg c))) j = Some e \<Longrightarrow>
      if works_of created ioctl subs i then e = judge V (piece_of l n i) else li_nr e = size_of (li_nr l) n i"
proof -
  have idx: "sm_origIdx c = work ml n i" using run_thread_keeps(1) [of V ioctl i, OF drv] sub by (simp add: c_def)
  have sh: "map shape (mm_migList (sm_msg c)) = map shape (map (\<lambda>j. piece_of (ml ! j) n i) (work ml n i))"
    using run_thread_keeps(2) [of V ioctl i, OF drv] sub by (simp add: c_def)
  have len: "length (mm_migList (sm_msg c)) = length (work ml n i)" using arg_cong [OF sh, of length] by simp
  show "map_of (zip (sm_origIdx c) (mm_migList (sm_msg c))) j = None \<longleftrightarrow> size_of (li_nr l) n i = 0"
    unfolding idx using len j in_work [of j ml n i] by (simp add: l_def)
  assume e: "map_of (zip (sm_origIdx c) (mm_migList (sm_msg c))) j = Some e"
  then have jw: "j \<in> set (work ml n i)" unfolding idx by (auto dest!: map_of_SomeD set_zip_leftD)
  show "if works_of created ioctl subs i then e = judge V (piece_of l n i) else li_nr e = size_of (li_nr l) n i"
  proof (cases "works_of created ioctl subs i")
    case True
    have "\<forall>l \<in> set (mm_migList (sm_msg (subs ! i))). ready l" unfolding sub using rdy i by (auto simp: in_work intro!: ready_piece)
    from run_thread_completes [of V ioctl i, OF drv True this]
    have "mm_migList (sm_msg c) = map (\<lambda>j. judge V (piece_of (ml ! j) n i)) (work ml n i)" by (simp add: c_def sub)
    then show ?thesis using e True jw unfolding idx by (auto simp: map_of_work [OF j] l_def split: if_splits)
  next
    case False
    obtain e' where "map_of (zip (work ml n i) (mm_migList (sm_msg c))) j = Some e'" "shape e' = shape (piece_of (ml ! j) n i)"
      using map_of_shape [OF sh jw] by blast
    then show ?thesis using e False unfolding idx by (simp add: shape_def piece_of_def sub_list_def l_def)
  qed
qed

text \<open>Exactly the pages that the driver migrated for the threads whose call succeeded are reported.\<close>

lemma RunMultiThreadedMigrate_reports:
  fixes created :: "nat \<Rightarrow> bool"
  assumes drv: "\<And>i. migration_driver V (ioctl i)" and rdy: "\<forall>l \<in> set (mm_migList mMsg). ready l"
    and build: "BuildSubMigrateMsgs False mMsg nrThreads = Inr subs" and j: "j < length (mm_migList mMsg)"
  defines "l \<equiv> mm_migList mMsg ! j" and "n \<equiv> nat nrThreads"
  defines "done_subs \<equiv> map (run_thread created ioctl subs) [0..<length subs]"
  shows "GetMigListSuccessPages (AggregateSubMigResults done_subs (mm_migList mMsg) ! j) =
    count_of V Migrated l (concat (map (\<lambda>i. if works_of created ioctl subs i then list_addr (piece_of l n i) else []) [0..<n]))"
proof -
  let ?ml = "mm_migList mMsg" and ?w = "works_of created ioctl subs" and ?run = "run_thread created ioctl subs"
  note B = BuildSubMigrateMsgs_eq [OF build, folded n_def]
  have n: "0 < n" and len: "length subs = n" and sub: "i < n \<Longrightarrow> sm_origIdx (subs ! i) = work ?ml n i"
    "i < n \<Longrightarrow> mm_migList (sm_msg (subs ! i)) = map (\<lambda>j. piece_of (?ml ! j) n i) (work ?ml n i)" for i
    using B by auto
  have l: "ready l" using rdy j by (simp add: l_def)
  define e where "e = (\<lambda>i. the (map_of (zip (sm_origIdx (?run i)) (mm_migList (sm_msg (?run i)))) j))"
  note T = thread_piece [where ioctl = ioctl and created = created and subs = subs and n = n and V = V, OF drv rdy _ j sub, folded l_def]
  have c: "map_of (zip (sm_origIdx (?run i)) (mm_migList (sm_msg (?run i)))) j = (if size_of (li_nr l) n i = 0 then None else Some (e i))"
    if "i < n" for i using T(1) [OF that that that] by (cases "map_of (zip (sm_origIdx (?run i)) (mm_migList (sm_msg (?run i)))) j") (auto simp: e_def)
  have e: "\<forall>i < n. size_of (li_nr l) n i \<noteq> 0 \<longrightarrow> (if ?w i then e i = judge V (piece_of l n i) else li_nr (e i) = size_of (li_nr l) n i)"
  proof (intro allI impI)
    fix i assume "i < n" "size_of (li_nr l) n i \<noteq> 0"
    then show "if ?w i then e i = judge V (piece_of l n i) else li_nr (e i) = size_of (li_nr l) n i"
      using T(2) [of i "e i"] c [of i] by presburger
  qed
  have wf: "\<forall>c \<in> set done_subs. distinct (sm_origIdx c) \<and> (\<forall>j \<in> set (sm_origIdx c). j < length ?ml) \<and>
      length (mm_migList (sm_msg c)) = length (sm_origIdx c)"
    using arg_cong [OF run_thread_keeps(2) [where ioctl = ioctl and created = created and subs = subs, OF drv], of length] by (auto simp: done_subs_def len run_thread_keeps(1) [where ioctl = ioctl, OF drv] sub work_def)
  define l' where "l' = fold (\<lambda>i l'. if size_of (li_nr l) n i = 0 then l' else aggregate_entry (sm_ret (?run i)) (e i) l') [0..<n] l"
  have res: "AggregateSubMigResults done_subs ?ml ! j = l'"
  proof -
    have "AggregateSubMigResults done_subs ?ml ! j = fold (\<lambda>i l. case map_of (zip (sm_origIdx (?run i))
        (mm_migList (sm_msg (?run i)))) j of None \<Rightarrow> l | Some e \<Rightarrow> aggregate_entry (sm_ret (?run i)) e l) [0..<n] l"
      using AggregateSubMigResults_nth [OF wf] j unfolding done_subs_def len fold_map comp_def l_def by simp
    also have "\<dots> = l'" unfolding l'_def by (rule fold_cong) (simp_all add: c fun_eq_iff)
    finally show ?thesis .
  qed
  have agg: "li_nr l' = li_nr l \<and>
    li_nr l = count_of V Migrated l (concat (map (\<lambda>i. if ?w i then list_addr (piece_of l n i) else []) [0..<n])) + li_failedMigNr l' + li_failedIsolatedNr l' \<and>
    (li_successToUser l' \<or> count_of V Migrated l (concat (map (\<lambda>i. if ?w i then list_addr (piece_of l n i) else []) [0..<n])) = 0)"
    using aggregate_pieces [where V = V and works = ?w and ret = "\<lambda>i. sm_ret (?run i)" and e = e,
      OF l n run_thread_keeps(3) [where ioctl = ioctl, OF drv] e order_refl] unfolding Let_def start_of_all [OF n] l'_def by blast
  show ?thesis unfolding res
  proof (rule success_pages)
    show "li_nr l' < 2 ^ 64" using agg l unfolding ready_def by (elim conjE) simp
  qed (use agg in simp_all)
qed


section \<open>Properties\<close>

text \<open>The pages of list \<open>j\<close> that thread context \<open>c\<close> was given.\<close>

definition share_of :: "nat \<Rightarrow> SubMigrateCtx \<Rightarrow> MigList list" where
  "share_of j c = map snd (filter (\<lambda>(k, l). k = j) (zip (sm_origIdx c) (mm_migList (sm_msg c))))"

lemma filter_upt_single: "j < m \<Longrightarrow> filter (\<lambda>k. P k \<and> k = j) [0..<m] = (if P j then [j] else [])"
  by (induction m) (auto simp: less_Suc_eq filter_empty_conv)

lemma filter_zip_map: "map snd (filter (\<lambda>(k, l). k = j) (zip ks (map f ks))) = map f (filter (\<lambda>k. k = j) ks)"
  by (induction ks) auto

lemma share_of_thread:
  assumes "BuildSubMigrateMsgs False mMsg nrThreads = Inr subs" "i < length subs" "j < length (mm_migList mMsg)"
  defines "l \<equiv> mm_migList mMsg ! j" and "n \<equiv> nat nrThreads"
  shows "share_of j (subs ! i) = (if size_of (li_nr l) n i = 0 then [] else [piece_of l n i])"
  using BuildSubMigrateMsgs_eq [OF assms(1)] assms(2,3) filter_upt_single [OF assms(3), of "\<lambda>k. size_of (li_nr (mm_migList mMsg ! k)) n i \<noteq> 0"]
  unfolding l_def n_def [symmetric] by (auto simp: share_of_def filter_zip_map work_def conj_commute)

text \<open>C16. Splitting a message among threads loses no page and gives none to two threads: for every
  list of the message, the pages of its pieces, in the order of the threads, are the pages of the
  list; a thread gets at most one piece of it, of at most one page more than an equal share, for the
  same process and the same nodes.\<close>

theorem BuildSubMigrateMsgs_partition:
  assumes "BuildSubMigrateMsgs False mMsg nrThreads = Inr subs"
    and "j < length (mm_migList mMsg)" "mm_migList mMsg ! j = l" "li_addr l = Some a" "li_nr l = length a"
  shows "concat (map (\<lambda>c. concat (map list_addr (share_of j c))) subs) = a \<and>
    (\<forall>c \<in> set subs. length (share_of j c) \<le> 1 \<and> (\<forall>p \<in> set (share_of j c).
       li_nr p = length (list_addr p) \<and> li_nr p \<le> li_nr l div nat nrThreads + 1 \<and>
       li_pid p = li_pid l \<and> li_from p = li_from l \<and> li_to p = li_to l))"
proof
  let ?n = "nat nrThreads"
  note B = BuildSubMigrateMsgs_eq [OF assms(1)]
  note S = share_of_thread [OF assms(1) _ assms(2), unfolded assms(3)]
  have n: "0 < ?n" and len: "length subs = ?n" using B by auto
  have lenp: "length (list_addr (piece_of l ?n i)) = size_of (li_nr l) ?n i" if "i < ?n" for i
    using piece_length [OF assms(4,5) n that] .
  have "concat (map list_addr (share_of j (subs ! i))) = list_addr (piece_of l ?n i)" if "i < ?n" for i
    using S [of i] that len lenp [OF that] by (cases "list_addr (piece_of l ?n i)") simp_all
  then have "map (\<lambda>c. concat (map list_addr (share_of j c))) subs = map (\<lambda>i. list_addr (piece_of l ?n i)) [0..<?n]"
    by (intro nth_equalityI) (simp_all add: len)
  then show "concat (map (\<lambda>c. concat (map list_addr (share_of j c))) subs) = a" using pieces_concat [OF assms(4,5) n] by simp
  show "\<forall>c \<in> set subs. length (share_of j c) \<le> 1 \<and> (\<forall>p \<in> set (share_of j c).
       li_nr p = length (list_addr p) \<and> li_nr p \<le> li_nr l div ?n + 1 \<and>
       li_pid p = li_pid l \<and> li_from p = li_from l \<and> li_to p = li_to l)"
  proof
    fix c assume "c \<in> set subs"
    then obtain i where i: "i < ?n" "c = subs ! i" by (auto simp: in_set_conv_nth len)
    show "length (share_of j c) \<le> 1 \<and> (\<forall>p \<in> set (share_of j c).
       li_nr p = length (list_addr p) \<and> li_nr p \<le> li_nr l div ?n + 1 \<and>
       li_pid p = li_pid l \<and> li_from p = li_from l \<and> li_to p = li_to l)"
      using S [of i] i len lenp [OF i(1)] by (simp add: piece_of_def sub_list_def size_of_def)
  qed
qed

lemma all_threads_work:
  assumes "0 \<le> AggregateSubThreadRet (map (run_thread created ioctl subs) [0..<length subs])" "\<And>i. migration_driver V (ioctl i)" "i < length subs"
  shows "works_of created ioctl subs i"
proof (rule ccontr)
  assume "\<not> works_of created ioctl subs i"
  then have "sm_ret (run_thread created ioctl subs i) < 0" using run_thread_keeps(3) [of V ioctl i created subs] assms(2) by blast
  then show False using assms(1,3)
    by (auto simp: AggregateSubThreadRet_def find_None_iff find_Some_iff split: option.splits)
qed

lemma not_reported: "ready l \<Longrightarrow> GetMigListSuccessPages l = 0"
  by (simp add: ready_def GetMigListSuccessPages_def)

lemma RunMultiThreadedMigrate_counts:
  assumes drv: "\<And>i. migration_driver V (ioctl i)" and rdy: "\<forall>l \<in> set (mm_migList mMsg). ready l"
    and run: "RunMultiThreadedMigrate noMem1 noMem2 created ioctl mMsg nrThreads = (res, mMsg')" and j: "j < length (mm_migList mMsg)"
  defines "l \<equiv> mm_migList mMsg ! j"
  shows "length (mm_migList mMsg') = length (mm_migList mMsg) \<and>
    GetMigListSuccessPages (mm_migList mMsg' ! j) \<le> count_of V Migrated l (list_addr l) \<and>
    (\<forall>err \<ge> 0. res = Inr err \<longrightarrow> GetMigListSuccessPages (mm_migList mMsg' ! j) = count_of V Migrated l (list_addr l))"
proof (cases res)
  case (Inl e)
  then have "mMsg' = mMsg" using run by (auto simp: RunMultiThreadedMigrate_def Let_def split: if_splits sum.splits)
  then show ?thesis using Inl rdy j by (simp add: not_reported l_def)
next
  case (Inr err)
  let ?n = "nat nrThreads" and ?subs = "\<lambda>subs. map (run_thread created ioctl subs) [0..<length subs]"
  obtain subs where b: "BuildSubMigrateMsgs noMem2 mMsg nrThreads = Inr subs"
    and m': "mMsg' = mMsg\<lparr>mm_migList := AggregateSubMigResults (?subs subs) (mm_migList mMsg)\<rparr>"
    and err: "err = AggregateSubThreadRet (?subs subs)"
    using run Inr by (auto simp: RunMultiThreadedMigrate_def run_thread_def [abs_def] Let_def split: if_splits sum.splits)
  have nm: "noMem2 = False" using b by (auto simp: BuildSubMigrateMsgs_def split: if_splits)
  note R = RunMultiThreadedMigrate_reports [where ioctl = ioctl and created = created, OF drv rdy b [unfolded nm] j, folded l_def]
  obtain a where a: "li_addr l = Some a" "li_nr l = length a" "list_addr l = a"
  proof -
    have "ready l" using rdy j by (simp add: l_def)
    then show ?thesis using that by (auto simp: ready_def list_addr_def)
  qed
  note B = BuildSubMigrateMsgs_eq [OF b [unfolded nm]]
  have n: "0 < ?n" "length subs = ?n" using B by auto
  note P = pieces_concat [OF a(1,2) n(1)]
  have mono: "count_of V Migrated l (concat (map (\<lambda>i. if w i then list_addr (piece_of l ?n i) else []) is)) \<le>
      count_of V Migrated l (concat (map (\<lambda>i. list_addr (piece_of l ?n i)) is))" for w "is"
    by (induction "is") (simp_all add: count_of_append count_of_def [of _ _ _ "[]"])
  have "GetMigListSuccessPages (mm_migList mMsg' ! j) \<le> count_of V Migrated l (list_addr l)"
    unfolding m' a(3) using R mono [of "works_of created ioctl subs" "[0..<?n]"] P by simp
  moreover have "GetMigListSuccessPages (mm_migList mMsg' ! j) = count_of V Migrated l (list_addr l)" if "0 \<le> err"
  proof -
    have "works_of created ioctl subs i" if "i \<in> set [0..<?n]" for i
      using all_threads_work [OF \<open>0 \<le> err\<close> [unfolded err] drv] n(2) that by simp
    then have "concat (map (\<lambda>i. if works_of created ioctl subs i then list_addr (piece_of l ?n i) else []) [0..<?n]) = a"
      unfolding P [symmetric] by (intro arg_cong [where f = concat] map_cong) simp_all
    then show ?thesis unfolding m' a(3) using R by simp
  qed
  moreover have "length (mm_migList mMsg') = length (mm_migList mMsg)"
    unfolding m' using AggregateSubMigResults_nth [of "?subs subs" "mm_migList mMsg"] B
      arg_cong [OF run_thread_keeps(2) [where ioctl = ioctl and created = created and subs = subs, OF drv], of length]
    by (auto simp: run_thread_keeps(1) [where ioctl = ioctl, OF drv] work_def)
  ultimately show ?thesis using Inr by simp
qed


lemma single_call_counts:
  assumes "migration_driver V ioctl" "\<forall>l \<in> set (mm_migList mMsg). ready l" "ioctl mMsg = (err, mMsg')" "0 \<le> err" "j < length (mm_migList mMsg)"
  defines "l \<equiv> mm_migList mMsg ! j"
  shows "GetMigListSuccessPages (mm_migList mMsg' ! j) = count_of V Migrated l (list_addr l)"
  using migration_driver.completes [OF assms(1,2)] assms(2-5) by (simp add: l_def judge_success)

text \<open>
  A migration by any number of threads: without an error every list reports exactly the pages that were
  migrated; with several threads no list ever reports more, whatever fails: an allocation, the creation
  of a thread, or the call of one.
\<close>

lemma DoMigration_reports:
  assumes drv: "\<And>i. migration_driver V (ioctl i)" and rdy: "\<forall>l \<in> set (mm_migList mMsg). ready l"
    and do: "DoMigration noMem noMem1 noMem2 created ioctl mc manager mMsg = (res, mMsg')"
    and j: "j < length (mm_migList mMsg)" "mm_migList mMsg ! j = l"
  shows "(\<forall>err \<ge> 0. res = Inr err \<longrightarrow> GetMigListSuccessPages (mm_migList mMsg' ! j) = count_of V Migrated l (list_addr l)) \<and>
    (DecideThreadNum mc manager mMsg \<noteq> 1 \<longrightarrow> GetMigListSuccessPages (mm_migList mMsg' ! j) \<le> count_of V Migrated l (list_addr l))"
proof -
  let ?n = "DecideThreadNum mc manager mMsg"
  have free: "GetMigListSuccessPages (k\<lparr>li_addr := None\<rparr>) = GetMigListSuccessPages k" for k by (simp add: GetMigListSuccessPages_def Let_def)
  have idle: "GetMigListSuccessPages l = 0" using rdy j not_reported by force
  consider (none) noMem | (one) "\<not> noMem" "?n = 1" | (many) "\<not> noMem" "?n \<noteq> 1" by blast
  then show ?thesis
  proof cases
    case none
    then show ?thesis using do j idle by (auto simp: DoMigration_def)
  next
    case one
    have ne: "mm_migList mMsg \<noteq> []" using j by auto
    obtain err m where io: "ioctl 0 mMsg = (err, m)" by (cases "ioctl 0 mMsg")
    have r: "res = Inr err" "mMsg' = m\<lparr>mm_migList := map (\<lambda>l. l\<lparr>li_addr := None\<rparr>) (mm_migList m)\<rparr>"
      using do one ne io by (auto simp: DoMigration_def Let_def)
    have "length (mm_migList m) = length (mm_migList mMsg)"
      using arg_cong [OF migration_driver.keeps [OF drv, of 0 mMsg], of length] io by simp
    then show ?thesis using single_call_counts [OF drv rdy io _ j(1)] one(2) r j by (auto simp: free)
  next
    case many
    obtain r m where run: "RunMultiThreadedMigrate noMem1 noMem2 created ioctl mMsg ?n = (r, m)"
      by (cases "RunMultiThreadedMigrate noMem1 noMem2 created ioctl mMsg ?n")
    have "res = r" "mMsg' = m\<lparr>mm_migList := map (\<lambda>l. l\<lparr>li_addr := None\<rparr>) (mm_migList m)\<rparr>"
      using do many run by (auto simp: DoMigration_def Let_def)
    then show ?thesis using RunMultiThreadedMigrate_counts [where ioctl = ioctl, OF drv rdy run j(1)] j by (simp add: free)
  qed
qed


section \<open>A concrete migration\<close>

text \<open>Forty-two huge pages of one process, split among four threads.\<close>

definition list_demo :: MigList where
  "list_demo = \<lparr>li_successToUser = False, li_nr = 42, li_failedMigNr = 0, li_failedIsolatedNr = 0, li_pid = 7, li_from = 0, li_to = 4,
     li_addr = Some [0..<42]\<rparr>"

definition msg_demo :: MigrateMsg where
  "msg_demo = \<lparr>mm_pageSize = 2097152, mm_migList = [list_demo]\<rparr>"

theorem BuildSubMigrateMsgs_partition_witness:
  "\<exists>subs. BuildSubMigrateMsgs False msg_demo 4 = Inr subs \<and> length subs = 4 \<and>
    concat (map (\<lambda>c. concat (map list_addr (share_of 0 c))) subs) = [0..<42]"
proof -
  obtain subs where b: "BuildSubMigrateMsgs False msg_demo 4 = Inr subs" by (simp add: BuildSubMigrateMsgs_def Let_def)
  then have "length subs = 4" using BuildSubMigrateMsgs_eq [OF b] by simp
  then show ?thesis using BuildSubMigrateMsgs_partition [OF b, of 0 list_demo "[0..<42]"] b
    by (auto simp: msg_demo_def list_demo_def)
qed

end
