(* ===== verification/Migration_Result.thy ===== *)
theory Migration_Result
  imports Migration_Threads
begin

text \<open>
  What a migration leaves in the accounts of the processes (\<^verbatim>\<open>plugins/smap/src/user/strategy/migration.c\<close>,
  lines 708 to 782, and \<^verbatim>\<open>grouped_strategy.c\<close>, lines 126 to 144 and 1179 to 1217): the number of pages that
  moved is entered into the account of the pair of nodes, or into the used pages of the group target.
\<close>

section \<open>Grouped processes\<close>

definition GroupHasLocal :: "MigrationGroupAttr \<Rightarrow> int \<Rightarrow> bool" where
  "GroupHasLocal grp nid \<longleftrightarrow> list_ex (\<lambda>i. gl_nid (gr_locals grp i) = nid) [0..<nat (gr_localCount grp)]"

definition GroupTargetIndex :: "MigrationGroupAttr \<Rightarrow> int \<Rightarrow> nat option" where
  "GroupTargetIndex grp nid = find (\<lambda>i. gt_nid (gr_targets grp i) = nid) [0..<nat (gr_targetCount grp)]"

definition set_usedPages :: "nat \<Rightarrow> nat \<Rightarrow> u64 \<Rightarrow> ProcessAttr \<Rightarrow> ProcessAttr" where
  "set_usedPages i t v process =
     (let policy = pa_groupPolicy process; grp = gp_groups policy i
      in process\<lparr>pa_groupPolicy := policy\<lparr>gp_groups := (gp_groups policy)(i :=
           grp\<lparr>gr_targets := (gr_targets grp)(t := (gr_targets grp t)\<lparr>gt_usedPages := v\<rparr>)\<rparr>)\<rparr>\<rparr>)"

fun settle_groups :: "ProcessAttr \<Rightarrow> int \<Rightarrow> int \<Rightarrow> nat \<Rightarrow> nat list \<Rightarrow> ProcessAttr" where
  "settle_groups process fromNid toNid successPages [] = process"
| "settle_groups process fromNid toNid successPages (i # is) =
     (let grp = gp_groups (pa_groupPolicy process) i; used = (\<lambda>t. gt_usedPages (gr_targets grp t)) in
      if GroupHasLocal grp fromNid \<and> GroupHasLocal grp toNid then process
      else if GroupHasLocal grp fromNid \<and> GroupTargetIndex grp toNid \<noteq> None then
        let t = the (GroupTargetIndex grp toNid) in set_usedPages i t (used t + of_nat successPages) process
      else if GroupHasLocal grp toNid \<and> GroupTargetIndex grp fromNid \<noteq> None then
        let t = the (GroupTargetIndex grp fromNid) in
        set_usedPages i t (if successPages > unat (used t) then 0 else used t - of_nat successPages) process
      else settle_groups process fromNid toNid successPages is)"

definition UpdateGroupedMigrationResult :: "ProcessAttr \<Rightarrow> int \<Rightarrow> int \<Rightarrow> nat \<Rightarrow> ProcessAttr" where
  "UpdateGroupedMigrationResult process fromNid toNid successPages =
     (if \<not> pa_groupPolicyEnabled process \<or> successPages = 0 then process
      else settle_groups process fromNid toNid successPages [0..<nat (gp_groupCount (pa_groupPolicy process))])"

section \<open>Accounts\<close>

definition RefreshPairAccountMask :: "ProcessAttr \<Rightarrow> nat \<Rightarrow> nat \<Rightarrow> ProcessAttr" where
  "RefreshPairAccountMask process localNid remoteIndex =
     (let localBit = push_bit localNid 1; st = pa_managedLocalState process;
          m = (if account process localNid remoteIndex > 0 then ml_accountLocalMask st remoteIndex OR localBit
               else ml_accountLocalMask st remoteIndex AND NOT localBit)
      in process\<lparr>pa_managedLocalState := st\<lparr>ml_accountLocalMask := (ml_accountLocalMask st)(remoteIndex := m),
           ml_managedLocalMask := ml_managedLocalMask st OR m\<rparr>\<rparr>)"

definition settle_pair :: "int \<Rightarrow> MigList \<Rightarrow> ProcessAttr \<Rightarrow> ProcessAttr" where
  "settle_pair nrLocalNuma l current =
     (let fromNid = li_from l; toNid = li_to l; successMigCount = GetMigListSuccessPages l;
          fromLocal = (0 \<le> fromNid \<and> fromNid < nrLocalNuma);
          toLocal = (0 \<le> toNid \<and> toNid < nrLocalNuma);
          remoteNidEnd = nrLocalNuma + int REMOTE_NUMA_NUM;
          fromRemote = (nrLocalNuma \<le> fromNid \<and> fromNid < remoteNidEnd);
          toRemote = (nrLocalNuma \<le> toNid \<and> toNid < remoteNidEnd)
      in if pa_groupPolicyEnabled current then UpdateGroupedMigrationResult current fromNid toNid successMigCount
         else if fromLocal \<and> toRemote then
           let remoteIndex = nat (toNid - nrLocalNuma); a = account current (nat fromNid) remoteIndex
           in RefreshPairAccountMask (set_account (nat fromNid) remoteIndex
                (if successMigCount > UINT32_MAX - unat a then of_nat UINT32_MAX else a + of_nat successMigCount) current)
                (nat fromNid) remoteIndex
         else if fromRemote \<and> toLocal then
           let remoteIndex = nat (fromNid - nrLocalNuma); a = account current (nat toNid) remoteIndex
           in RefreshPairAccountMask (set_account (nat toNid) remoteIndex
                (if successMigCount > unat a then 0 else a - of_nat successMigCount) current)
                (nat toNid) remoteIndex
         else current)"

definition UpdateMigResult :: "MigrateMsg \<Rightarrow> ProcessManager \<Rightarrow> ProcessManager" where
  "UpdateMigResult mMsg manager =
     fold (\<lambda>l manager.
       case GetProcessAttr manager (li_pid l) of
         None \<Rightarrow> manager
       | Some current \<Rightarrow>
           if \<not> li_successToUser l then manager
           else manager\<lparr>pm_attrs := update_first (\<lambda>attr. pa_pid attr = li_pid l) (settle_pair (nrl manager) l) (pm_attrs manager)\<rparr>)
     (mm_migList mMsg) manager"


section \<open>Settling a list\<close>

text \<open>What a grouped result leaves alone.\<close>

lemma settle_groups_frame [simp]:
  "pa_managedLocalState (settle_groups p s d n is) = pa_managedLocalState p"
  "pa_strategyAttr (settle_groups p s d n is) = pa_strategyAttr p"
  "pa_pid (settle_groups p s d n is) = pa_pid p"
  "pa_groupPolicyEnabled (settle_groups p s d n is) = pa_groupPolicyEnabled p"
  by (induction "is") (simp_all add: Let_def set_usedPages_def)

lemma UpdateGroupedMigrationResult_frame [simp]:
  "pa_managedLocalState (UpdateGroupedMigrationResult p s d n) = pa_managedLocalState p"
  "pa_strategyAttr (UpdateGroupedMigrationResult p s d n) = pa_strategyAttr p"
  "pa_pid (UpdateGroupedMigrationResult p s d n) = pa_pid p"
  "pa_groupPolicyEnabled (UpdateGroupedMigrationResult p s d n) = pa_groupPolicyEnabled p"
  by (simp_all add: UpdateGroupedMigrationResult_def)

lemma RefreshPairAccountMask_frame [simp]:
  "pa_strategyAttr (RefreshPairAccountMask p k r) = pa_strategyAttr p"
  "pa_pid (RefreshPairAccountMask p k r) = pa_pid p"
  "pa_groupPolicy (RefreshPairAccountMask p k r) = pa_groupPolicy p"
  by (simp_all add: RefreshPairAccountMask_def Let_def)

lemma set_account_frame [simp]:
  "pa_managedLocalState (set_account k r v p) = pa_managedLocalState p"
  "pa_pid (set_account k r v p) = pa_pid p"
  "pa_groupPolicy (set_account k r v p) = pa_groupPolicy p"
  "account (set_account k r v p) = (\<lambda>i j. if i = k \<and> j = r then v else account p i j)"
  by (auto simp: set_account_def put2_def fun_eq_iff)

lemma settle_pair_frame [simp]:
  "pa_pid (settle_pair nr l p) = pa_pid p"
  "pa_groupPolicyEnabled (settle_pair nr l p) = pa_groupPolicyEnabled p"
  by (simp_all add: settle_pair_def Let_def)

lemma RefreshPairAccountMask_ok:
  assumes ok: "managed_state_ok nr p" and k: "k < nat nr" and r: "r < 18"
  shows "managed_state_ok nr (RefreshPairAccountMask (set_account k r v p) k r)"
proof -
  let ?q = "RefreshPairAccountMask (set_account k r v p) k r"
  have k32: "k < 32" using ok k unfolding managed_state_ok_def by linarith
  have am: "bit (ml_accountLocalMask (pa_managedLocalState ?q) r') j \<longleftrightarrow>
      (if r' = r \<and> j = k then v \<noteq> 0 else bit (ml_accountLocalMask (pa_managedLocalState p) r') j)" for r' j
    using k32 by (auto simp: RefreshPairAccountMask_def Let_def bit_or_iff bit_and_iff bit_not_iff bit_exp_iff word_gt_0 dest: bit_imp_le_length)
  have mm: "bit (managedMask ?q) j \<longleftrightarrow> bit (managedMask p) j \<or> bit (ml_accountLocalMask (pa_managedLocalState ?q) r) j" for j
    by (simp add: RefreshPairAccountMask_def Let_def bit_or_iff)
  have rm: "residentMask ?q = residentMask p" by (simp add: RefreshPairAccountMask_def Let_def)
  have ac: "account ?q = (\<lambda>i j. if i = k \<and> j = r then v else account p i j)" by simp
  have ne: "managedMask ?q \<noteq> 0"
  proof -
    obtain j where "bit (managedMask p) j" using ok unfolding managed_state_ok_def by (metis bit_eqI bit_0_eq bot_apply bot_bool_def)
    then have "bit (managedMask ?q) j" by (simp add: mm)
    then show ?thesis by auto
  qed
  have O: "bit (managedMask p) j \<Longrightarrow> j < nat nr" "bit (residentMask p) j \<Longrightarrow> bit (managedMask p) j"
    "r' < 18 \<Longrightarrow> bit (ml_accountLocalMask (pa_managedLocalState p) r') j \<longleftrightarrow> j < nat nr \<and> account p j r' \<noteq> 0"
    "r' < 18 \<Longrightarrow> j < nat nr \<Longrightarrow> account p j r' \<noteq> 0 \<Longrightarrow> bit (managedMask p) j" for j r'
    using ok unfolding managed_state_ok_def by blast+
  have "bit (managedMask ?q) j \<Longrightarrow> j < nat nr" for j
    unfolding mm am by (cases "j = k") (use O(1) [of j] O(3) [OF r, of j] k in auto)
  moreover have "bit (managedMask ?q) j" if "r' < 18" "j < nat nr" "account ?q j r' \<noteq> 0" for j r'
  proof (cases "j = k \<and> r' = r")
    case True
    then show ?thesis unfolding mm am using that by simp
  next
    case False
    then have "account p j r' \<noteq> 0" using that(3) unfolding ac by metis
    then show ?thesis unfolding mm using O(4) [OF that(1,2)] by blast
  qed
  moreover have "r' < 18 \<Longrightarrow> bit (ml_accountLocalMask (pa_managedLocalState ?q) r') j \<longleftrightarrow> j < nat nr \<and> account ?q j r' \<noteq> 0" for j r'
    unfolding am ac using O(3) [of r' j] k by metis
  moreover have "bit (residentMask ?q) j \<Longrightarrow> bit (managedMask ?q) j" for j
    unfolding mm rm using O(2) by blast
  ultimately show ?thesis using ok ne unfolding managed_state_ok_def by blast
qed

lemma settle_pair_ok:
  assumes "managed_state_ok nr p"
  shows "managed_state_ok nr (settle_pair nr l p)"
proof -
  have "managed_state_ok nr (UpdateGroupedMigrationResult p s d n)" for s d n using assms by (simp add: managed_state_ok_def)
  then show ?thesis using assms by (auto simp: settle_pair_def Let_def intro!: RefreshPairAccountMask_ok)
qed

lemma set_update_first: "set (update_first P f xs) \<subseteq> set xs \<union> f ` set xs"
  by (induction xs) auto

lemma find_update_first:
  assumes "\<And>x. key (f x) = key x"
  shows "find (\<lambda>x. key x = k') (update_first (\<lambda>x. key x = k) f xs) =
    (if k = k' then map_option f (find (\<lambda>x. key x = k') xs) else find (\<lambda>x. key x = k') xs)"
  by (induction xs) (auto simp: assms)

definition settle_list :: "MigList \<Rightarrow> ProcessManager \<Rightarrow> ProcessManager" where
  "settle_list l manager = (case GetProcessAttr manager (li_pid l) of None \<Rightarrow> manager | Some current \<Rightarrow>
     if \<not> li_successToUser l then manager
     else manager\<lparr>pm_attrs := update_first (\<lambda>attr. pa_pid attr = li_pid l) (settle_pair (nrl manager) l) (pm_attrs manager)\<rparr>)"

lemma UpdateMigResult_fold: "UpdateMigResult mMsg manager = fold settle_list (mm_migList mMsg) manager"
  by (simp add: UpdateMigResult_def settle_list_def [abs_def])

lemma settle_list_nrl [simp]: "pm_nrLocalNuma (settle_list l manager) = pm_nrLocalNuma manager"
  by (simp add: settle_list_def split: option.split)

text \<open>C19. The entry of the results of a migration keeps the managed-node state of every process
  consistent: the mask of a remote node holds exactly the local nodes with an entry in the account,
  every one of them is managed, and managed nodes are local nodes of the machine.\<close>

theorem UpdateMigResult_managed:
  assumes "\<forall>p \<in> set (pm_attrs manager). managed_state_ok (nrl manager) p"
  shows "\<forall>p \<in> set (pm_attrs (UpdateMigResult mMsg manager)). managed_state_ok (nrl manager) p"
proof -
  have "\<forall>p \<in> set (pm_attrs (fold settle_list ls manager)). managed_state_ok (nrl manager) p" for ls
    using assms
  proof (induction ls arbitrary: manager)
    case (Cons l ls)
    have "\<forall>p \<in> set (pm_attrs (settle_list l manager)). managed_state_ok (nrl (settle_list l manager)) p"
      using Cons.prems set_update_first [of "\<lambda>attr. pa_pid attr = li_pid l" "settle_pair (nrl manager) l" "pm_attrs manager"]
      by (fastforce simp: settle_list_def settle_pair_ok split: option.split)
    then show ?case using Cons.IH [of "settle_list l manager"] by simp
  qed simp
  then show ?thesis by (simp add: UpdateMigResult_fold)
qed


section \<open>Accounts after a migration\<close>

text \<open>The pages of process \<open>pid\<close> that lists \<open>ls\<close> report as moved from node \<open>s\<close> to node \<open>d\<close>.\<close>

definition moved :: "int \<Rightarrow> int \<Rightarrow> int \<Rightarrow> MigList list \<Rightarrow> nat" where
  "moved pid s d ls = (\<Sum>l\<leftarrow>ls. if li_pid l = pid \<and> li_from l = s \<and> li_to l = d then GetMigListSuccessPages l else 0)"

lemma moved_simps [simp]:
  "moved pid s d [] = 0"
  "moved pid s d (l # ls) = (if li_pid l = pid \<and> li_from l = s \<and> li_to l = d then GetMigListSuccessPages l else 0) + moved pid s d ls"
  by (simp_all add: moved_def)

lemma not_reported_pages: "\<not> li_successToUser l \<Longrightarrow> GetMigListSuccessPages l = 0"
  by (simp add: GetMigListSuccessPages_def)

lemma settle_pair_account:
  assumes "\<not> pa_groupPolicyEnabled p" "int k < nr" "r < 18"
    and "unat (account p k r) + (if li_from l = int k \<and> li_to l = nr + int r then GetMigListSuccessPages l else 0) \<le> UINT32_MAX"
    and "(if li_from l = nr + int r \<and> li_to l = int k then GetMigListSuccessPages l else 0) \<le> unat (account p k r)"
  shows "unat (account (settle_pair nr l p) k r) + (if li_from l = nr + int r \<and> li_to l = int k then GetMigListSuccessPages l else 0) =
    unat (account p k r) + (if li_from l = int k \<and> li_to l = nr + int r then GetMigListSuccessPages l else 0)"
proof -
  let ?n = "GetMigListSuccessPages l" and ?a = "account p k r"
  consider (down) "li_from l = int k" "li_to l = nr + int r" | (up) "li_from l = nr + int r" "li_to l = int k"
    | (other) "\<not> (li_from l = int k \<and> li_to l = nr + int r)" "\<not> (li_from l = nr + int r \<and> li_to l = int k)" by blast
  then show ?thesis
  proof cases
    case down
    then have le: "unat ?a + ?n \<le> UINT32_MAX" using assms by simp
    then have "\<not> ?n > UINT32_MAX - unat ?a" by simp
    moreover have "unat (?a + of_nat ?n) = unat ?a + ?n" using le unat_of_nat_u32 [of ?n] by (simp add: unat_word_ariths(1))
    ultimately show ?thesis using down assms(1-3) by (simp add: settle_pair_def Let_def)
  next
    case up
    then have le: "?n \<le> unat ?a" using assms by (simp split: if_splits)
    moreover have "unat (?a - of_nat ?n) = unat ?a - ?n" using le by (simp add: unat_minus_of_nat)
    ultimately show ?thesis using up assms(1-3) by (simp add: settle_pair_def Let_def)
  next
    case other
    have "account (settle_pair nr l p) k r = account p k r"
      using assms(1-3) other by (auto simp: settle_pair_def Let_def nat_eq_iff)
    then show ?thesis unfolding if_not_P [OF other(1)] if_not_P [OF other(2)] by (simp only:)
  qed
qed

lemma settle_lists_account:
  assumes "GetProcessAttr manager pid = Some p" "\<not> pa_groupPolicyEnabled p" "int k < nrl manager" "r < 18"
    and "unat (account p k r) + moved pid (int k) (nrl manager + int r) ls \<le> UINT32_MAX"
    and "moved pid (nrl manager + int r) (int k) ls \<le> unat (account p k r)"
  shows "\<exists>p'. GetProcessAttr (fold settle_list ls manager) pid = Some p' \<and>
    unat (account p' k r) + moved pid (nrl manager + int r) (int k) ls =
    unat (account p k r) + moved pid (int k) (nrl manager + int r) ls"
  using assms
proof (induction ls arbitrary: manager p)
  case (Cons l ls)
  let ?m = "settle_list l manager" and ?nr = "nrl manager"
  let ?down = "if li_from l = int k \<and> li_to l = ?nr + int r then GetMigListSuccessPages l else 0"
  let ?up = "if li_from l = ?nr + int r \<and> li_to l = int k then GetMigListSuccessPages l else 0"
  obtain q where q: "GetProcessAttr ?m pid = Some q" "\<not> pa_groupPolicyEnabled q"
    and acc: "li_pid l = pid \<Longrightarrow> unat (account q k r) + ?up = unat (account p k r) + ?down" "li_pid l \<noteq> pid \<Longrightarrow> q = p"
  proof (cases "li_pid l = pid \<and> li_successToUser l")
    case True
    then have "GetProcessAttr ?m pid = Some (settle_pair ?nr l p)"
      using Cons.prems(1) by (simp add: settle_list_def GetProcessAttr_def find_update_first)
    moreover have "unat (account (settle_pair ?nr l p) k r) + ?up = unat (account p k r) + ?down"
      by (rule settle_pair_account) (use Cons.prems True in \<open>auto split: if_splits\<close>)
    ultimately show ?thesis using that [of "settle_pair ?nr l p"] True Cons.prems(2) by simp
  next
    case False
    then have "GetProcessAttr ?m pid = Some p"
      using Cons.prems(1) by (auto simp: settle_list_def GetProcessAttr_def find_update_first split: option.split)
    moreover have "unat (account p k r) + ?up = unat (account p k r) + ?down" if "li_pid l = pid"
    proof -
      have "GetMigListSuccessPages l = 0" using not_reported_pages [of l] False that by blast
      then show ?thesis by (simp only: if_cancel)
    qed
    ultimately show ?thesis using that [of p] Cons.prems(2) by blast
  qed
  have pre: "unat (account q k r) + moved pid (int k) (?nr + int r) ls \<le> UINT32_MAX" "moved pid (?nr + int r) (int k) ls \<le> unat (account q k r)"
    using Cons.prems(5,6) acc by (cases "li_pid l = pid"; simp)+
  from Cons.IH [of ?m q] q pre Cons.prems(3,4) obtain p' where p': "GetProcessAttr (fold settle_list ls ?m) pid = Some p'"
    "unat (account p' k r) + moved pid (?nr + int r) (int k) ls = unat (account q k r) + moved pid (int k) (?nr + int r) ls" by auto
  have "unat (account p' k r) + moved pid (?nr + int r) (int k) (l # ls) = unat (account p k r) + moved pid (int k) (?nr + int r) (l # ls)"
    using p'(2) acc by (cases "li_pid l = pid") auto
  then show ?case using p'(1) by auto
qed simp

text \<open>C18. The results of a migration are entered exactly: for a process that is not grouped, the account
  of a pair of a local and a remote node grows by the pages that were reported as moved to the remote
  node and shrinks by those that were brought back, as long as the account can hold them.\<close>

theorem UpdateMigResult_accounts:
  assumes "GetProcessAttr manager pid = Some p" "\<not> pa_groupPolicyEnabled p" "int k < nrl manager" "r < 18"
    and "unat (account p k r) + moved pid (int k) (nrl manager + int r) (mm_migList mMsg) \<le> UINT32_MAX"
    and "moved pid (nrl manager + int r) (int k) (mm_migList mMsg) \<le> unat (account p k r)"
  shows "\<exists>p'. GetProcessAttr (UpdateMigResult mMsg manager) pid = Some p' \<and>
    unat (account p' k r) = unat (account p k r) + moved pid (int k) (nrl manager + int r) (mm_migList mMsg) -
      moved pid (nrl manager + int r) (int k) (mm_migList mMsg)"
  using settle_lists_account [OF assms] unfolding UpdateMigResult_fold by fastforce


section \<open>A concrete result\<close>

text \<open>Process 7 has ten pages of local node 0 on remote node 2; five more are moved there and three come back.\<close>

definition result_process :: ProcessAttr where
  "result_process = ProcessAttr_zero\<lparr>pa_pid := 7, pa_managedLocalState := ManagedLocalState_zero\<lparr>ml_managedLocalMask := 1,
     ml_accountLocalMask := (\<lambda>_. 0)(0 := 1)\<rparr>, pa_strategyAttr := (pa_strategyAttr ProcessAttr_zero)\<lparr>
     sa_remoteNrPagesAfterMigrate := (\<lambda>k r. if k = 0 \<and> r = 0 then 10 else 0)\<rparr>\<rparr>"

definition result_manager :: ProcessManager where
  "result_manager = state_demo\<lparr>pm_attrs := [result_process]\<rparr>"

definition result_list :: "int \<Rightarrow> int \<Rightarrow> nat \<Rightarrow> MigList" where
  "result_list s d n = \<lparr>li_successToUser = True, li_nr = n + 1, li_failedMigNr = 1, li_failedIsolatedNr = 0, li_pid = 7, li_from = s,
     li_to = d, li_addr = None\<rparr>"

definition result_msg :: MigrateMsg where
  "result_msg = \<lparr>mm_pageSize = 4096, mm_migList = [result_list 0 2 5, result_list 2 0 3]\<rparr>"

lemma result_list_pages: "n < 100 \<Longrightarrow> GetMigListSuccessPages (result_list s d n) = n"
  by (rule success_pages) (auto simp: result_list_def)

lemma result_moved: "moved 7 0 2 (mm_migList result_msg) = 5" "moved 7 2 0 (mm_migList result_msg) = 3"
  by (simp_all add: result_msg_def result_list_pages) (simp_all add: result_list_def)

theorem UpdateMigResult_managed_witness:
  "list_all (managed_state_ok 2) (pm_attrs (UpdateMigResult result_msg result_manager))"
proof -
  have "nrl result_manager = 2" by (simp add: result_manager_def state_demo_def)
  moreover have "managed_state_ok 2 result_process"
    by (auto simp: managed_state_ok_def result_process_def ManagedLocalState_zero_def bit_1_iff)
  ultimately show ?thesis using UpdateMigResult_managed [of result_manager result_msg] by (simp add: result_manager_def list_all_iff)
qed

theorem UpdateMigResult_accounts_witness:
  "\<exists>p'. GetProcessAttr (UpdateMigResult result_msg result_manager) 7 = Some p' \<and> unat (account p' 0 0) = 12"
proof -
  have nr: "nrl result_manager = 2" by (simp add: result_manager_def state_demo_def)
  have p: "GetProcessAttr result_manager 7 = Some result_process" by (simp add: GetProcessAttr_def result_manager_def result_process_def)
  have g: "\<not> pa_groupPolicyEnabled result_process" by (simp add: result_process_def ProcessAttr_zero_def)
  have a: "account result_process 0 0 = 10" by (simp add: result_process_def)
  show ?thesis using UpdateMigResult_accounts [OF p g, of 0 0 result_msg] by (simp add: nr a result_moved)
qed

end
