(* ===== verification/Swap_Compensation.thy ===== *)
theory Swap_Compensation
  imports Migration_Result
begin

text \<open>
  The compensation of exchanges of grouped processes that moved more pages one way than the other, and
  the end of a migration (\<^verbatim>\<open>plugins/smap/src/user/strategy/migration.c\<close>, lines 38 to 55, 784 to 1070 and
  1664 to 1715).

  The arrays of statistics and of compensation plans, with their counts, are lists. The refreshed scan
  data (\<^verbatim>\<open>BuildAllPidData\<close>), the free pages of the nodes, the migration driver, the failing of
  allocations and the application of a pending group policy are arguments.
\<close>

section \<open>Compensation of unbalanced exchanges\<close>

abbreviation (input) MAX_GROUP_SWAP_COMP_PLANS :: nat where "MAX_GROUP_SWAP_COMP_PLANS \<equiv> 800"

record GroupSwapPairStat =
  gs_pid :: int
  gs_localNid :: int
  gs_remoteNid :: int
  gs_localToRemoteSuccess :: nat
  gs_remoteToLocalSuccess :: nat
  gs_hasLocalToRemote :: bool
  gs_hasRemoteToLocal :: bool

record GroupSwapCompPlan =
  cp_pid :: int
  cp_from :: int
  cp_to :: int
  cp_need :: nat
  cp_built :: nat
  cp_shouldFreeze :: bool

definition ResetGroupedSwapRuntimeLocked :: "ProcessAttr \<Rightarrow> bool \<Rightarrow> ProcessAttr" where
  "ResetGroupedSwapRuntimeLocked process freeze =
     process\<lparr>pa_groupSwapStableTotalRounds := 0, pa_groupSwapTotalPagesValid := False, pa_groupSwapFrozen := freeze,
       pa_groupPolicy := (pa_groupPolicy process)\<lparr>gp_groups := (\<lambda>i.
         if i < nat (gp_groupCount (pa_groupPolicy process))
         then (gp_groups (pa_groupPolicy process) i)\<lparr>gr_swapCandidateRounds := 0\<rparr> else gp_groups (pa_groupPolicy process) i)\<rparr>\<rparr>"

definition FreezeGroupedSwapLocked :: "ProcessManager \<Rightarrow> int \<Rightarrow> ProcessManager" where
  "FreezeGroupedSwapLocked manager pid =
     manager\<lparr>pm_attrs := update_first (\<lambda>attr. pa_pid attr = pid)
       (\<lambda>process. if pa_groupPolicyEnabled process then ResetGroupedSwapRuntimeLocked process True else process) (pm_attrs manager)\<rparr>"

definition FindGroupSwapPairStat :: "GroupSwapPairStat list \<Rightarrow> int \<Rightarrow> int \<Rightarrow> int \<Rightarrow> nat option" where
  "FindGroupSwapPairStat stats pid localNid remoteNid =
     find (\<lambda>i. gs_pid (stats ! i) = pid \<and> gs_localNid (stats ! i) = localNid \<and> gs_remoteNid (stats ! i) = remoteNid) [0..<length stats]"

definition AddGroupSwapPairStat :: "GroupSwapPairStat list \<Rightarrow> nat \<Rightarrow> int \<Rightarrow> int \<Rightarrow> int \<Rightarrow> errno + nat \<times> GroupSwapPairStat list" where
  "AddGroupSwapPairStat stats maxStats pid localNid remoteNid =
     (case FindGroupSwapPairStat stats pid localNid remoteNid of
        Some idx \<Rightarrow> Inr (idx, stats)
      | None \<Rightarrow>
          if length stats \<ge> maxStats then Inl ENOSPC
          else Inr (length stats, stats @ [\<lparr>gs_pid = pid, gs_localNid = localNid, gs_remoteNid = remoteNid, gs_localToRemoteSuccess = 0,
            gs_remoteToLocalSuccess = 0, gs_hasLocalToRemote = False, gs_hasRemoteToLocal = False\<rparr>]))"

definition AddGroupSwapCompPlan :: "GroupSwapCompPlan list \<Rightarrow> int \<Rightarrow> int \<Rightarrow> int \<Rightarrow> nat \<Rightarrow> GroupSwapCompPlan list" where
  "AddGroupSwapCompPlan plans pid fromNid toNid need =
     (if need = 0 \<or> length plans \<ge> MAX_GROUP_SWAP_COMP_PLANS then plans
      else plans @ [\<lparr>cp_pid = pid, cp_from = fromNid, cp_to = toNid, cp_need = need, cp_built = 0, cp_shouldFreeze = False\<rparr>])"

fun collect_stats :: "ProcessManager \<Rightarrow> MigList list \<Rightarrow> GroupSwapPairStat list \<Rightarrow> errno + GroupSwapPairStat list" where
  "collect_stats manager [] stats = Inr stats"
| "collect_stats manager (l # ls) stats =
     (let process = GetProcessAttr manager (li_pid l);
          localToRemote = (li_from l < nrl manager \<and> li_to l \<ge> nrl manager);
          remoteToLocal = (li_from l \<ge> nrl manager \<and> li_to l < nrl manager);
          localNid = (if localToRemote then li_from l else li_to l);
          remoteNid = (if localToRemote then li_to l else li_from l)
      in if process = None \<or> \<not> pa_groupPolicyEnabled (the process) then collect_stats manager ls stats
         else if \<not> localToRemote \<and> \<not> remoteToLocal then collect_stats manager ls stats
         else (case AddGroupSwapPairStat stats MAX_GROUP_SWAP_COMP_PLANS (li_pid l) localNid remoteNid of
                 Inl e \<Rightarrow> Inl e
               | Inr (idx, stats) \<Rightarrow>
                   let success = GetMigListSuccessPages l; s = stats ! idx in
                   collect_stats manager ls (stats[idx :=
                     if localToRemote then s\<lparr>gs_localToRemoteSuccess := add64 (gs_localToRemoteSuccess s) success, gs_hasLocalToRemote := True\<rparr>
                     else s\<lparr>gs_remoteToLocalSuccess := add64 (gs_remoteToLocalSuccess s) success, gs_hasRemoteToLocal := True\<rparr>])))"

definition BuildGroupedSwapCompPlans :: "MigrateMsg \<Rightarrow> ProcessManager \<Rightarrow> errno + GroupSwapCompPlan list" where
  "BuildGroupedSwapCompPlans mMsg manager =
     (case collect_stats manager (mm_migList mMsg) [] of
        Inl e \<Rightarrow> Inl e
      | Inr stats \<Rightarrow> Inr (fold (\<lambda>stat plans.
          if \<not> gs_hasLocalToRemote stat \<or> \<not> gs_hasRemoteToLocal stat then plans
          else if gs_remoteToLocalSuccess stat > gs_localToRemoteSuccess stat then
            AddGroupSwapCompPlan plans (gs_pid stat) (gs_localNid stat) (gs_remoteNid stat)
              (sub64 (gs_remoteToLocalSuccess stat) (gs_localToRemoteSuccess stat))
          else if gs_localToRemoteSuccess stat > gs_remoteToLocalSuccess stat then
            AddGroupSwapCompPlan plans (gs_pid stat) (gs_remoteNid stat) (gs_localNid stat)
              (sub64 (gs_localToRemoteSuccess stat) (gs_remoteToLocalSuccess stat))
          else plans) stats []))"

definition AppendCompMigResults :: "bool \<Rightarrow> MigrateMsg \<Rightarrow> MigrateMsg \<Rightarrow> errno option \<times> MigrateMsg" where
  "AppendCompMigResults noMem mMsg compMsg =
     (if mm_migList compMsg = [] then (None, mMsg)
      else if noMem then (Some ENOMEM, mMsg)
      else (None, mMsg\<lparr>mm_migList := mm_migList mMsg @ map (\<lambda>l. l\<lparr>li_addr := None\<rparr>) (mm_migList compMsg)\<rparr>))"

text \<open>\<open>destFreePages\<close> is the free pages of the destination; the result is the list, unless there is nothing to move.\<close>

definition BuildCompMigListFromScan :: "bool \<Rightarrow> u64 \<Rightarrow> ProcessAttr \<Rightarrow> GroupSwapCompPlan \<Rightarrow> MigList option \<times> GroupSwapCompPlan" where
  "BuildCompMigListFromScan noMem destFreePages process plan =
     (let scan = pa_scanAttr process; src = nat (cp_from plan);
          sourcePages = unat (sc_actcLen scan src);
          nr = min (min (cp_need plan) sourcePages) (unat destFreePages)
      in if nr = 0 \<or> \<not> sc_hasActcData scan src then (None, plan\<lparr>cp_shouldFreeze := True\<rparr>)
         else if noMem then (None, plan\<lparr>cp_shouldFreeze := True\<rparr>)
         else (Some \<lparr>li_successToUser = False, li_nr = nr, li_failedMigNr = 0, li_failedIsolatedNr = 0, li_pid = cp_pid plan,
                 li_from = cp_from plan, li_to = cp_to plan, li_addr = Some [0..<nr]\<rparr>,
               if nr < cp_need plan then plan\<lparr>cp_built := nr, cp_shouldFreeze := True\<rparr> else plan\<lparr>cp_built := nr\<rparr>))"

text \<open>The lists of the message, each with the index of its plan, and the plans.\<close>

definition build_comp ::
  "(nat \<Rightarrow> bool) \<Rightarrow> (nat \<Rightarrow> u64) \<Rightarrow> ProcessManager \<Rightarrow> nat \<Rightarrow> GroupSwapCompPlan list \<times> MigList list \<times> nat list \<Rightarrow>
   GroupSwapCompPlan list \<times> MigList list \<times> nat list" where
  "build_comp noMem freePages manager i = (\<lambda>(plans, lists, compPlanIdx).
     let plan = plans ! i in
     (case GetProcessAttr manager (cp_pid plan) of
        None \<Rightarrow> (plans[i := plan\<lparr>cp_shouldFreeze := True\<rparr>], lists, compPlanIdx)
      | Some process \<Rightarrow>
          if \<not> pa_groupPolicyEnabled process then (plans[i := plan\<lparr>cp_shouldFreeze := True\<rparr>], lists, compPlanIdx)
          else (case BuildCompMigListFromScan (noMem i) (freePages (nat (cp_to plan))) process plan of
                  (None, plan) \<Rightarrow> (plans[i := plan], lists, compPlanIdx)
                | (Some l, plan) \<Rightarrow> (plans[i := plan], lists @ [l], compPlanIdx @ [i]))))"

definition BuildGroupedSwapCompMsg ::
  "bool \<Rightarrow> (nat \<Rightarrow> bool) \<Rightarrow> (nat \<Rightarrow> u64) \<Rightarrow> ProcessManager \<Rightarrow> GroupSwapCompPlan list \<Rightarrow>
   errno + GroupSwapCompPlan list \<times> MigrateMsg \<times> nat list" where
  "BuildGroupedSwapCompMsg noMem noMem2 freePages manager plans =
     (if noMem then Inl ENOMEM
      else let (plans, lists, compPlanIdx) = fold (build_comp noMem2 freePages manager) [0..<length plans] (plans, [], [])
           in Inr (plans, \<lparr>mm_pageSize = sint (pm_pageSize manager), mm_migList = lists\<rparr>, compPlanIdx))"

definition FreezeFailedCompPlans :: "ProcessManager \<Rightarrow> GroupSwapCompPlan list \<Rightarrow> ProcessManager" where
  "FreezeFailedCompPlans manager plans =
     fold (\<lambda>plan manager. if cp_shouldFreeze plan then FreezeGroupedSwapLocked manager (cp_pid plan) else manager) plans manager"

definition freeze_all :: "GroupSwapCompPlan list \<Rightarrow> GroupSwapCompPlan list" where
  "freeze_all plans = map (\<lambda>plan. plan\<lparr>cp_shouldFreeze := True\<rparr>) plans"

text \<open>The result is \<open>Inr 0\<close> for success, another number for a failed refresh or call, or an error.\<close>

definition RunGroupedSwapCompensation ::
  "(ProcessManager \<Rightarrow> int \<times> ProcessManager) \<Rightarrow> bool \<Rightarrow> (nat \<Rightarrow> bool) \<Rightarrow> bool \<Rightarrow> (nat \<Rightarrow> u64) \<Rightarrow> (MigrateMsg \<Rightarrow> int \<times> MigrateMsg) \<Rightarrow>
   ProcessManager \<Rightarrow> MigrateMsg \<Rightarrow> GroupSwapCompPlan list \<Rightarrow> (errno + int) \<times> ProcessManager \<times> MigrateMsg" where
  "RunGroupedSwapCompensation BuildAllPidData noMem noMem2 noMem3 freePages ioctl manager mMsg plans =
     (let (ret, manager) = BuildAllPidData manager in
      if ret \<noteq> 0 then (Inr ret, FreezeFailedCompPlans manager (freeze_all plans), mMsg)
      else (case BuildGroupedSwapCompMsg noMem noMem2 freePages manager plans of
              Inl e \<Rightarrow> (Inl e, FreezeFailedCompPlans manager (freeze_all plans), mMsg)
            | Inr (plans, compMsg, compPlanIdx) \<Rightarrow>
                let (ret, compMsg) = (if list_ex (\<lambda>l. li_nr l > 0) (mm_migList compMsg) then ioctl compMsg else (0, compMsg));
                    plans = fold (\<lambda>i plans.
                      let l = mm_migList compMsg ! i; planIdx = compPlanIdx ! i in
                      if ret \<noteq> 0 \<or> GetMigListSuccessPages l < li_nr l
                      then plans[planIdx := (plans ! planIdx)\<lparr>cp_shouldFreeze := True\<rparr>] else plans)
                      [0..<length (mm_migList compMsg)] plans;
                    (appendRet, mMsg) = AppendCompMigResults noMem3 mMsg compMsg
                in (case appendRet of
                      None \<Rightarrow> (Inr ret, FreezeFailedCompPlans manager plans, mMsg)
                    | Some e \<Rightarrow> (Inl e, FreezeFailedCompPlans manager (freeze_all plans), mMsg))))"

section \<open>The end of a migration\<close>

definition PostMigration ::
  "(ProcessManager \<Rightarrow> int \<times> ProcessManager) \<Rightarrow> bool \<Rightarrow> (nat \<Rightarrow> bool) \<Rightarrow> bool \<Rightarrow> (nat \<Rightarrow> u64) \<Rightarrow> (MigrateMsg \<Rightarrow> int \<times> MigrateMsg) \<Rightarrow>
   Machine \<Rightarrow> (ProcessAttr \<Rightarrow> errno + ManagedLocalObservation) \<Rightarrow> (AccessAddPidPayload list \<Rightarrow> errno option) \<Rightarrow>
   (ProcessAttr \<Rightarrow> ProcessAttr) \<Rightarrow> ProcessManager \<Rightarrow> MigrateMsg \<Rightarrow> ProcessManager" where
  "PostMigration BuildAllPidData noMem noMem2 noMem3 freePages ioctl mc collected track ApplyPendingGroupedPolicy manager mMsg =
     (let (manager, mMsg) =
        (case BuildGroupedSwapCompPlans mMsg manager of
           Inr plans \<Rightarrow>
             if length plans > 0
             then snd (RunGroupedSwapCompensation BuildAllPidData noMem noMem2 noMem3 freePages ioctl manager mMsg plans)
             else (manager, mMsg)
         | Inl e \<Rightarrow>
             (fold (\<lambda>l manager. manager\<lparr>pm_attrs := update_first (\<lambda>attr. pa_pid attr = li_pid l)
                 (\<lambda>process. if pa_groupPolicyEnabled process then ResetGroupedSwapRuntimeLocked process True else process)
                 (pm_attrs manager)\<rparr>) (mm_migList mMsg) manager, mMsg));
          manager = UpdateMigResult mMsg manager
      in manager\<lparr>pm_attrs := map (\<lambda>current.
           if pa_state current = PROC_MIGRATE
           then (ApplyPendingGroupedPolicy (snd (ApplyPendingMigrationTargets mc (collected current) track current)))\<lparr>pa_state := PROC_IDLE\<rparr>
           else current) (pm_attrs manager)\<rparr>)"


section \<open>Compensation plans\<close>

definition stat_key :: "GroupSwapPairStat \<Rightarrow> int \<times> int \<times> int" where
  "stat_key s = (gs_pid s, gs_localNid s, gs_remoteNid s)"

lemma FindGroupSwapPairStat_None:
  "FindGroupSwapPairStat stats pid l r = None \<longleftrightarrow> (pid, l, r) \<notin> stat_key ` set stats"
  unfolding FindGroupSwapPairStat_def find_None_iff image_iff stat_key_def by (auto simp: in_set_conv_nth Bex_def)

lemma FindGroupSwapPairStat_Some:
  assumes "FindGroupSwapPairStat stats pid l r = Some i"
  shows "stats[i := f (stats ! i)] = update_first (\<lambda>s. stat_key s = (pid, l, r)) f stats"
proof -
  have at: "i < length stats" "stat_key (stats ! i) = (pid, l, r)" "\<And>j. j < i \<Longrightarrow> stat_key (stats ! j) \<noteq> (pid, l, r)"
    using assms by (auto simp: FindGroupSwapPairStat_def find_Some_iff stat_key_def)
  then show ?thesis
  proof (induction stats arbitrary: i)
    case (Cons s stats)
    show ?case
    proof (cases i)
      case (Suc i')
      then have "stat_key s \<noteq> (pid, l, r)" using Cons.prems(3) [of 0] by simp
      moreover have "stats[i' := f (stats ! i')] = update_first (\<lambda>s. stat_key s = (pid, l, r)) f stats"
        using Cons.prems(1,2) Cons.prems(3) [of "Suc j" for j] by (intro Cons.IH) (auto simp: Suc)
      ultimately show ?thesis by (simp add: Suc)
    qed (use Cons.prems in simp)
  qed simp
qed

text \<open>The effect of one list on the statistics.\<close>

definition fresh_stat :: "int \<times> int \<times> int \<Rightarrow> GroupSwapPairStat" where
  "fresh_stat = (\<lambda>(pid, l, r). \<lparr>gs_pid = pid, gs_localNid = l, gs_remoteNid = r, gs_localToRemoteSuccess = 0,
     gs_remoteToLocalSuccess = 0, gs_hasLocalToRemote = False, gs_hasRemoteToLocal = False\<rparr>)"

definition tally :: "bool \<Rightarrow> nat \<Rightarrow> GroupSwapPairStat \<Rightarrow> GroupSwapPairStat" where
  "tally down n s = (if down then s\<lparr>gs_localToRemoteSuccess := add64 (gs_localToRemoteSuccess s) n, gs_hasLocalToRemote := True\<rparr>
     else s\<lparr>gs_remoteToLocalSuccess := add64 (gs_remoteToLocalSuccess s) n, gs_hasRemoteToLocal := True\<rparr>)"

definition upsert :: "int \<times> int \<times> int \<Rightarrow> (GroupSwapPairStat \<Rightarrow> GroupSwapPairStat) \<Rightarrow> GroupSwapPairStat list \<Rightarrow> GroupSwapPairStat list" where
  "upsert K f stats = (if K \<in> stat_key ` set stats then update_first (\<lambda>s. stat_key s = K) f stats else stats @ [f (fresh_stat K)])"

definition stat_of :: "GroupSwapPairStat list \<Rightarrow> int \<times> int \<times> int \<Rightarrow> GroupSwapPairStat" where
  "stat_of stats K = (case find (\<lambda>s. stat_key s = K) stats of None \<Rightarrow> fresh_stat K | Some s \<Rightarrow> s)"

lemma tally_key [simp]: "stat_key (tally down n s) = stat_key s"
  by (simp add: tally_def stat_key_def)

lemma fresh_stat_key [simp]: "stat_key (fresh_stat K) = K"
  by (cases K) (simp add: fresh_stat_def stat_key_def)

lemma stat_of_upsert:
  assumes "\<And>s. stat_key (f s) = stat_key s"
  shows "stat_of (upsert K f stats) K' = (if K = K' then f (stat_of stats K) else stat_of stats K')"
proof -
  have "find (\<lambda>s. stat_key s = K) stats = None" if "K \<notin> stat_key ` set stats" using that by (auto simp: find_None_iff)
  moreover have "find (\<lambda>s. stat_key s = K) stats \<noteq> None" if "K \<in> stat_key ` set stats" using that by (auto simp: find_None_iff)
  ultimately show ?thesis by (auto simp: upsert_def stat_of_def find_append find_update_first assms split: option.split)
qed

lemma update_first_keys:
  assumes "\<And>s. key (f s) = key s"
  shows "map key (update_first P f xs) = map key xs"
  by (induction xs) (simp_all add: assms)

lemma upsert_keys:
  assumes "\<And>s. stat_key (f s) = stat_key s"
  shows "map stat_key (upsert K f stats) = (if K \<in> stat_key ` set stats then map stat_key stats else map stat_key stats @ [K])"
  by (simp add: upsert_def update_first_keys assms)

definition down :: "ProcessManager \<Rightarrow> MigList \<Rightarrow> bool" where
  "down manager l \<longleftrightarrow> li_from l < nrl manager \<and> li_to l \<ge> nrl manager"

definition list_key :: "ProcessManager \<Rightarrow> MigList \<Rightarrow> (int \<times> int \<times> int) option" where
  "list_key manager l =
     (case GetProcessAttr manager (li_pid l) of None \<Rightarrow> None | Some p \<Rightarrow>
        if \<not> pa_groupPolicyEnabled p then None
        else if down manager l then Some (li_pid l, li_from l, li_to l)
        else if li_from l \<ge> nrl manager \<and> li_to l < nrl manager then Some (li_pid l, li_to l, li_from l) else None)"

lemma collect_stats_step:
  "collect_stats manager (l # ls) stats =
     (case list_key manager l of None \<Rightarrow> collect_stats manager ls stats
      | Some K \<Rightarrow> if K \<notin> stat_key ` set stats \<and> length stats \<ge> 800 then Inl ENOSPC
          else collect_stats manager ls (upsert K (tally (down manager l) (GetMigListSuccessPages l)) stats))"
proof -
  have add: "(case AddGroupSwapPairStat stats 800 pid k r of Inl e \<Rightarrow> Inl e | Inr (idx, stats) \<Rightarrow> collect_stats manager ls (stats[idx := f (stats ! idx)])) =
      (if (pid, k, r) \<notin> stat_key ` set stats \<and> length stats \<ge> 800 then Inl ENOSPC else collect_stats manager ls (upsert (pid, k, r) f stats))" for pid k r f
  proof (cases "FindGroupSwapPairStat stats pid k r")
    case None
    then have "(pid, k, r) \<notin> stat_key ` set stats" by (simp add: FindGroupSwapPairStat_None)
    then show ?thesis using None by (simp add: AddGroupSwapPairStat_def upsert_def fresh_stat_def)
  next
    case (Some i)
    then have "(pid, k, r) \<in> stat_key ` set stats" using FindGroupSwapPairStat_None [of stats pid k r] by auto
    then show ?thesis using Some by (simp add: AddGroupSwapPairStat_def upsert_def FindGroupSwapPairStat_Some)
  qed
  have "collect_stats manager (l # ls) stats = (case list_key manager l of None \<Rightarrow> collect_stats manager ls stats
      | Some (pid, k, r) \<Rightarrow> (case AddGroupSwapPairStat stats 800 pid k r of Inl e \<Rightarrow> Inl e
          | Inr (idx, stats) \<Rightarrow> collect_stats manager ls (stats[idx := tally (down manager l) (GetMigListSuccessPages l) (stats ! idx)])))"
    unfolding collect_stats.simps Let_def list_key_def down_def tally_def by (auto split: option.split)
  then show ?thesis by (simp add: add split: option.split)
qed


definition stats_ok :: "ProcessManager \<Rightarrow> GroupSwapPairStat list \<Rightarrow> bool" where
  "stats_ok manager stats \<longleftrightarrow> distinct (map stat_key stats) \<and> length stats \<le> 800 \<and>
     (\<forall>s \<in> set stats. gs_localNid s < nrl manager \<and> nrl manager \<le> gs_remoteNid s)"

lemma list_key_range: "list_key manager l = Some (pid, k, r) \<Longrightarrow> k < nrl manager \<and> nrl manager \<le> r"
  by (auto simp: list_key_def down_def split: option.splits if_splits)

lemma stats_ok_keys:
  "stats_ok manager stats \<longleftrightarrow> distinct (map stat_key stats) \<and> length (map stat_key stats) \<le> 800 \<and>
     (\<forall>(pid, k, r) \<in> set (map stat_key stats). k < nrl manager \<and> nrl manager \<le> r)"
  by (auto simp: stats_ok_def stat_key_def)

lemma collect_stats_total:
  assumes "stats_ok manager stats" "length stats + length ls \<le> 800"
  shows "\<exists>stats'. collect_stats manager ls stats = Inr stats' \<and> stats_ok manager stats'"
  using assms
proof (induction ls arbitrary: stats)
  case (Cons l ls)
  show ?case
  proof (cases "list_key manager l")
    case None
    then show ?thesis using Cons by (simp add: collect_stats_step del: collect_stats.simps)
  next
    case (Some K)
    let ?s = "upsert K (tally (down manager l) (GetMigListSuccessPages l)) stats"
    have keys: "map stat_key ?s = (if K \<in> stat_key ` set stats then map stat_key stats else map stat_key stats @ [K])"
      by (simp add: upsert_keys)
    have "stats_ok manager ?s" unfolding stats_ok_keys keys
      using Cons.prems list_key_range [of manager l] Some unfolding stats_ok_keys by (cases K) auto
    moreover have "length ?s + length ls \<le> 800" using Cons.prems(2) arg_cong [OF keys, of length] by (simp split: if_splits)
    ultimately show ?thesis using Cons.IH [of ?s] Cons.prems(2) Some by (auto simp: collect_stats_step simp del: collect_stats.simps)
  qed
qed simp

definition present :: "int \<Rightarrow> int \<Rightarrow> int \<Rightarrow> MigList list \<Rightarrow> bool" where
  "present pid s d ls \<longleftrightarrow> (\<exists>l \<in> set ls. li_pid l = pid \<and> li_from l = s \<and> li_to l = d)"

lemma collect_stats_counts:
  assumes "collect_stats manager ls stats = Inr stats'" "GetProcessAttr manager pid = Some p" "pa_groupPolicyEnabled p"
    and "k < nrl manager" "nrl manager \<le> r"
    and "gs_localToRemoteSuccess (stat_of stats (pid, k, r)) + moved pid k r ls < 2 ^ 64"
    and "gs_remoteToLocalSuccess (stat_of stats (pid, k, r)) + moved pid r k ls < 2 ^ 64"
  defines "s \<equiv> stat_of stats (pid, k, r)" and "s' \<equiv> stat_of stats' (pid, k, r)"
  shows "gs_localToRemoteSuccess s' = gs_localToRemoteSuccess s + moved pid k r ls \<and>
    gs_remoteToLocalSuccess s' = gs_remoteToLocalSuccess s + moved pid r k ls \<and>
    (gs_hasLocalToRemote s' \<longleftrightarrow> gs_hasLocalToRemote s \<or> present pid k r ls) \<and>
    (gs_hasRemoteToLocal s' \<longleftrightarrow> gs_hasRemoteToLocal s \<or> present pid r k ls)"
  using assms(1,6,7) unfolding s_def s'_def
proof (induction ls arbitrary: stats)
  case Nil
  then show ?case by (simp add: present_def)
next
  case (Cons l ls)
  let ?K = "(pid, k, r)" and ?n = "GetMigListSuccessPages l"
  let ?dn = "li_pid l = pid \<and> li_from l = k \<and> li_to l = r" and ?up = "li_pid l = pid \<and> li_from l = r \<and> li_to l = k"
  have present: "present pid a b (l # ls) \<longleftrightarrow> (li_pid l = pid \<and> li_from l = a \<and> li_to l = b) \<or> present pid a b ls" for a b
    by (auto simp: present_def)
  have excl: "\<not> (?dn \<and> ?up)" using assms(4,5) by linarith
  have key: "list_key manager l = Some ?K \<longleftrightarrow> ?dn \<or> ?up" "?dn \<Longrightarrow> down manager l" "?up \<Longrightarrow> \<not> down manager l"
    using assms(2-5) by (auto simp: list_key_def down_def split: option.splits)
  define stats1 where "stats1 = (case list_key manager l of None \<Rightarrow> stats | Some K \<Rightarrow> upsert K (tally (down manager l) ?n) stats)"
  have rest: "collect_stats manager ls stats1 = Inr stats'"
    using Cons.prems(1) unfolding collect_stats_step stats1_def by (auto split: option.splits if_splits)
  have new: "stat_of stats1 ?K = (if ?dn \<or> ?up then tally (down manager l) ?n (stat_of stats ?K) else stat_of stats ?K)"
    unfolding key(1) [symmetric] stats1_def by (auto simp: stat_of_upsert split: option.split)
  consider (dn) ?dn "\<not> ?up" | (up) ?up "\<not> ?dn" | (other) "\<not> ?dn" "\<not> ?up" using excl by blast
  then show ?case
  proof cases
    case dn
    then have s1: "stat_of stats1 ?K = tally True ?n (stat_of stats ?K)" using new key(2) by simp
    have m: "moved pid k r (l # ls) = ?n + moved pid k r ls" "moved pid r k (l # ls) = moved pid r k ls"
      unfolding moved_simps if_P [OF dn(1)] if_not_P [OF dn(2)] by simp_all
    have "add64 (gs_localToRemoteSuccess (stat_of stats ?K)) ?n = gs_localToRemoteSuccess (stat_of stats ?K) + ?n"
      using Cons.prems(2) unfolding m by (intro add64_eq) linarith
    then have t: "gs_localToRemoteSuccess (stat_of stats1 ?K) = gs_localToRemoteSuccess (stat_of stats ?K) + ?n"
      "gs_remoteToLocalSuccess (stat_of stats1 ?K) = gs_remoteToLocalSuccess (stat_of stats ?K)"
      "gs_hasLocalToRemote (stat_of stats1 ?K)" "gs_hasRemoteToLocal (stat_of stats1 ?K) = gs_hasRemoteToLocal (stat_of stats ?K)"
      unfolding s1 by (simp_all add: tally_def)
    have "present pid k r (l # ls)" "present pid r k (l # ls) = present pid r k ls" using dn present by blast+
    then show ?thesis using Cons.IH [OF rest] Cons.prems(2,3) t(3) unfolding t(1,2,4) m by (simp add: add.assoc)
  next
    case up
    then have s1: "stat_of stats1 ?K = tally False ?n (stat_of stats ?K)" using new key(3) by simp
    have m: "moved pid k r (l # ls) = moved pid k r ls" "moved pid r k (l # ls) = ?n + moved pid r k ls"
      unfolding moved_simps if_P [OF up(1)] if_not_P [OF up(2)] by simp_all
    have "add64 (gs_remoteToLocalSuccess (stat_of stats ?K)) ?n = gs_remoteToLocalSuccess (stat_of stats ?K) + ?n"
      using Cons.prems(3) unfolding m by (intro add64_eq) linarith
    then have t: "gs_localToRemoteSuccess (stat_of stats1 ?K) = gs_localToRemoteSuccess (stat_of stats ?K)"
      "gs_remoteToLocalSuccess (stat_of stats1 ?K) = gs_remoteToLocalSuccess (stat_of stats ?K) + ?n"
      "gs_hasRemoteToLocal (stat_of stats1 ?K)" "gs_hasLocalToRemote (stat_of stats1 ?K) = gs_hasLocalToRemote (stat_of stats ?K)"
      unfolding s1 by (simp_all add: tally_def)
    have "present pid r k (l # ls)" "present pid k r (l # ls) = present pid k r ls" using up present by blast+
    then show ?thesis using Cons.IH [OF rest] Cons.prems(2,3) t(3) unfolding t(1,2,4) m by (simp add: add.assoc)
  next
    case other
    then have s1: "stat_of stats1 ?K = stat_of stats ?K" using new by (simp only: if_False simp_thms)
    have m: "moved pid k r (l # ls) = moved pid k r ls" "moved pid r k (l # ls) = moved pid r k ls"
      unfolding moved_simps if_not_P [OF other(1)] if_not_P [OF other(2)] by simp_all
    have "present pid r k (l # ls) = present pid r k ls" "present pid k r (l # ls) = present pid k r ls" using other present by blast+
    then show ?thesis using Cons.IH [OF rest] Cons.prems(2,3) unfolding s1 m by simp
  qed
qed


text \<open>The plan of one pair.\<close>

definition comp_of :: "GroupSwapPairStat \<Rightarrow> GroupSwapCompPlan list" where
  "comp_of s =
     (let plan = (\<lambda>f t n. [\<lparr>cp_pid = gs_pid s, cp_from = f, cp_to = t, cp_need = n, cp_built = 0, cp_shouldFreeze = False\<rparr>]);
          dn = gs_localToRemoteSuccess s; up = gs_remoteToLocalSuccess s
      in if \<not> gs_hasLocalToRemote s \<or> \<not> gs_hasRemoteToLocal s then []
         else if up > dn then plan (gs_localNid s) (gs_remoteNid s) (up - dn)
         else if dn > up then plan (gs_remoteNid s) (gs_localNid s) (dn - up) else [])"

definition need :: "int \<Rightarrow> int \<Rightarrow> int \<Rightarrow> GroupSwapCompPlan list \<Rightarrow> nat" where
  "need pid s d plans = (\<Sum>p\<leftarrow>plans. if cp_pid p = pid \<and> cp_from p = s \<and> cp_to p = d then cp_need p else 0)"

lemma need_append: "need pid s d (ps @ qs) = need pid s d ps + need pid s d qs"
  by (simp add: need_def)

definition add_comp :: "GroupSwapPairStat \<Rightarrow> GroupSwapCompPlan list \<Rightarrow> GroupSwapCompPlan list" where
  "add_comp stat plans =
     (if \<not> gs_hasLocalToRemote stat \<or> \<not> gs_hasRemoteToLocal stat then plans
      else if gs_remoteToLocalSuccess stat > gs_localToRemoteSuccess stat then
        AddGroupSwapCompPlan plans (gs_pid stat) (gs_localNid stat) (gs_remoteNid stat)
          (sub64 (gs_remoteToLocalSuccess stat) (gs_localToRemoteSuccess stat))
      else if gs_localToRemoteSuccess stat > gs_remoteToLocalSuccess stat then
        AddGroupSwapCompPlan plans (gs_pid stat) (gs_remoteNid stat) (gs_localNid stat)
          (sub64 (gs_localToRemoteSuccess stat) (gs_remoteToLocalSuccess stat))
      else plans)"

definition small_stat :: "GroupSwapPairStat \<Rightarrow> bool" where
  "small_stat s \<longleftrightarrow> gs_localToRemoteSuccess s < 2 ^ 64 \<and> gs_remoteToLocalSuccess s < 2 ^ 64"

lemma add_comp_eq:
  assumes "length plans < 800" "small_stat s"
  shows "add_comp s plans = plans @ comp_of s"
  using assms by (simp add: add_comp_def comp_of_def AddGroupSwapCompPlan_def small_stat_def sub64_eq)

lemma comp_of_length: "length (comp_of s) \<le> 1"
  by (simp add: comp_of_def Let_def)

lemma fold_add_comp:
  assumes "length plans + length stats \<le> 800" "\<forall>s \<in> set stats. small_stat s"
  shows "fold add_comp stats plans = plans @ concat (map comp_of stats)"
  using assms
proof (induction stats arbitrary: plans)
  case (Cons s stats)
  then have "fold add_comp stats (plans @ comp_of s) = (plans @ comp_of s) @ concat (map comp_of stats)"
    using comp_of_length [of s] by (intro Cons.IH) simp_all
  then show ?case using Cons.prems by (simp add: add_comp_eq)
qed simp

lemma collect_stats_small:
  "collect_stats manager ls stats = Inr stats' \<Longrightarrow> \<forall>s \<in> set stats. small_stat s \<Longrightarrow> \<forall>s \<in> set stats'. small_stat s"
proof (induction ls arbitrary: stats)
  case (Cons l ls)
  have t: "small_stat (tally d n s)" if "small_stat s" for d n s using that add64_less by (simp add: tally_def small_stat_def)
  have f: "small_stat (fresh_stat K)" for K by (cases K) (simp add: fresh_stat_def small_stat_def)
  have "\<forall>s \<in> set (upsert K (tally d n) stats). small_stat s" for K d n
    using set_update_first [of "\<lambda>s. stat_key s = K" "tally d n" stats] Cons.prems(2) t f by (auto simp: upsert_def)
  then show ?case using Cons by (auto simp: collect_stats_step simp del: collect_stats.simps split: option.splits if_splits)
qed simp

lemma sum_list_find:
  fixes g :: "'a \<Rightarrow> nat"
  assumes "distinct (map key xs)" "\<And>x. x \<in> set xs \<Longrightarrow> key x \<noteq> K \<Longrightarrow> g x = 0"
  shows "(\<Sum>x\<leftarrow>xs. g x) = (case find (\<lambda>x. key x = K) xs of None \<Rightarrow> 0 | Some x \<Rightarrow> g x)"
  using assms
proof (induction xs)
  case (Cons x xs)
  have IH: "(\<Sum>x\<leftarrow>xs. g x) = (case find (\<lambda>x. key x = K) xs of None \<Rightarrow> 0 | Some x \<Rightarrow> g x)" using Cons by simp
  show ?case
  proof (cases "key x = K")
    case True
    then have "K \<notin> key ` set xs" using Cons.prems(1) by simp
    then have "find (\<lambda>x. key x = K) xs = None" by (auto simp: find_None_iff)
    then show ?thesis using IH True by simp
  qed (use IH Cons.prems(2) [of x] in simp)
qed simp

lemma need_concat: "need pid s d (concat (map comp_of stats)) = (\<Sum>t\<leftarrow>stats. need pid s d (comp_of t))"
  by (induction stats) (simp_all add: need_append need_def)

lemma need_comp_of:
  assumes "gs_localNid s < nr" "nr \<le> gs_remoteNid s" "k < nr" "nr \<le> r"
  shows "need pid k r (comp_of s) = (if stat_key s = (pid, k, r) \<and> gs_hasLocalToRemote s \<and> gs_hasRemoteToLocal s
      then gs_remoteToLocalSuccess s - gs_localToRemoteSuccess s else 0)"
    and "need pid r k (comp_of s) = (if stat_key s = (pid, k, r) \<and> gs_hasLocalToRemote s \<and> gs_hasRemoteToLocal s
      then gs_localToRemoteSuccess s - gs_remoteToLocalSuccess s else 0)"
  using assms unfolding need_def comp_of_def stat_key_def Let_def by (auto split: if_splits)

text \<open>What is planned for a pair, from its statistics.\<close>

lemma need_stats:
  fixes pid :: int
  assumes ok: "stats_ok manager stats" and kr: "k < nrl manager" "nrl manager \<le> r"
  defines "s \<equiv> stat_of stats (pid, k, r)"
  shows "need pid k r (concat (map comp_of stats)) = (if gs_hasLocalToRemote s \<and> gs_hasRemoteToLocal s
      then gs_remoteToLocalSuccess s - gs_localToRemoteSuccess s else 0)"
    and "need pid r k (concat (map comp_of stats)) = (if gs_hasLocalToRemote s \<and> gs_hasRemoteToLocal s
      then gs_localToRemoteSuccess s - gs_remoteToLocalSuccess s else 0)"
proof -
  have d: "distinct (map stat_key stats)" using ok by (simp add: stats_ok_def)
  have n: "need pid k r (comp_of t) = (if stat_key t = (pid, k, r) \<and> gs_hasLocalToRemote t \<and> gs_hasRemoteToLocal t
      then gs_remoteToLocalSuccess t - gs_localToRemoteSuccess t else 0)"
    "need pid r k (comp_of t) = (if stat_key t = (pid, k, r) \<and> gs_hasLocalToRemote t \<and> gs_hasRemoteToLocal t
      then gs_localToRemoteSuccess t - gs_remoteToLocalSuccess t else 0)" if "t \<in> set stats" for t
    using need_comp_of [of t "nrl manager" k r pid] ok that kr by (simp_all add: stats_ok_def)
  have f: "t \<in> set stats \<and> stat_key t = (pid, k, r)" if "find (\<lambda>x. stat_key x = (pid, k, r)) stats = Some t" for t
    using that by (auto simp: find_Some_iff in_set_conv_nth)
  show "need pid k r (concat (map comp_of stats)) = (if gs_hasLocalToRemote s \<and> gs_hasRemoteToLocal s
      then gs_remoteToLocalSuccess s - gs_localToRemoteSuccess s else 0)"
    using sum_list_find [OF d, of "(pid, k, r)" "\<lambda>t. need pid k r (comp_of t)"] n(1) f unfolding need_concat s_def stat_of_def
    by (auto simp: fresh_stat_def split: option.split)
  show "need pid r k (concat (map comp_of stats)) = (if gs_hasLocalToRemote s \<and> gs_hasRemoteToLocal s
      then gs_localToRemoteSuccess s - gs_remoteToLocalSuccess s else 0)"
    using sum_list_find [OF d, of "(pid, k, r)" "\<lambda>t. need pid r k (comp_of t)"] n(2) f unfolding need_concat s_def stat_of_def
    by (auto simp: fresh_stat_def split: option.split)
qed

text \<open>C20. An exchange of pages of a grouped process that moved more pages one way than the other is put
  back exactly: for every pair of a local and a remote node, when the migration had lists in both
  directions, the compensation plans ask for the surplus in the opposite direction and for nothing
  else; when it had lists in one direction only, which is no exchange, they ask for nothing.\<close>

theorem BuildGroupedSwapCompPlans_balance:
  assumes "length (mm_migList mMsg) \<le> 800" "GetProcessAttr manager pid = Some p" "pa_groupPolicyEnabled p"
    and "k < nrl manager" "nrl manager \<le> r"
    and "moved pid k r (mm_migList mMsg) < 2 ^ 64" "moved pid r k (mm_migList mMsg) < 2 ^ 64"
  shows "\<exists>plans. BuildGroupedSwapCompPlans mMsg manager = Inr plans \<and>
    need pid k r plans = (if present pid k r (mm_migList mMsg) \<and> present pid r k (mm_migList mMsg)
      then moved pid r k (mm_migList mMsg) - moved pid k r (mm_migList mMsg) else 0) \<and>
    need pid r k plans = (if present pid k r (mm_migList mMsg) \<and> present pid r k (mm_migList mMsg)
      then moved pid k r (mm_migList mMsg) - moved pid r k (mm_migList mMsg) else 0)"
proof -
  let ?ls = "mm_migList mMsg"
  have ok0: "stats_ok manager []" by (simp add: stats_ok_def)
  obtain stats where c: "collect_stats manager ?ls [] = Inr stats" and ok: "stats_ok manager stats"
    using collect_stats_total [OF ok0, of ?ls] assms(1) by auto
  have "\<forall>s \<in> set stats. small_stat s" using collect_stats_small [OF c] by simp
  then have "fold add_comp stats [] = concat (map comp_of stats)" using ok by (simp add: fold_add_comp stats_ok_def)
  then have plans: "BuildGroupedSwapCompPlans mMsg manager = Inr (concat (map comp_of stats))"
    by (simp add: BuildGroupedSwapCompPlans_def c add_comp_def [abs_def])
  have zero: "stat_of [] (pid, k, r) = fresh_stat (pid, k, r)" by (simp add: stat_of_def)
  note counts = collect_stats_counts [OF c assms(2-5), unfolded zero, simplified fresh_stat_def, simplified, OF assms(6,7) [simplified]]
  show ?thesis using plans need_stats [OF ok assms(4,5), of pid] counts by simp
qed


section \<open>Failed compensation\<close>

text \<open>No process with this pid may exchange pages any more.\<close>

definition frozen :: "ProcessManager \<Rightarrow> int \<Rightarrow> bool" where
  "frozen manager pid \<longleftrightarrow>
     (case GetProcessAttr manager pid of None \<Rightarrow> True | Some p \<Rightarrow> pa_groupPolicyEnabled p \<longrightarrow> pa_groupSwapFrozen p)"

lemma GetProcessAttr_freeze:
  "GetProcessAttr (FreezeGroupedSwapLocked manager pid') pid =
     (if pid' = pid then map_option (\<lambda>p. if pa_groupPolicyEnabled p then ResetGroupedSwapRuntimeLocked p True else p) (GetProcessAttr manager pid)
      else GetProcessAttr manager pid)"
  unfolding GetProcessAttr_def FreezeGroupedSwapLocked_def
  by (simp add: find_update_first ResetGroupedSwapRuntimeLocked_def)

lemma frozen_freeze: "pid' = pid \<or> frozen manager pid \<Longrightarrow> frozen (FreezeGroupedSwapLocked manager pid') pid"
  by (auto simp: frozen_def GetProcessAttr_freeze ResetGroupedSwapRuntimeLocked_def split: option.splits)

lemma frozen_keeps: "frozen manager pid \<Longrightarrow> frozen (FreezeFailedCompPlans manager plans) pid"
  by (induction plans arbitrary: manager) (simp_all add: FreezeFailedCompPlans_def frozen_freeze)

lemma FreezeFailedCompPlans_frozen:
  "plan \<in> set plans \<Longrightarrow> cp_shouldFreeze plan \<Longrightarrow> frozen (FreezeFailedCompPlans manager plans) (cp_pid plan)"
proof (induction plans arbitrary: manager)
  case (Cons q plans)
  have step: "FreezeFailedCompPlans manager (q # plans) =
      FreezeFailedCompPlans (if cp_shouldFreeze q then FreezeGroupedSwapLocked manager (cp_pid q) else manager) plans"
    by (simp add: FreezeFailedCompPlans_def)
  show ?case
  proof (cases "plan = q")
    case True
    then show ?thesis unfolding step using Cons.prems(2) by (simp add: frozen_keeps frozen_freeze)
  next
    case False
    then show ?thesis unfolding step using Cons by simp
  qed
qed simp

lemma freeze_all_frozen: "plan \<in> set plans \<Longrightarrow> frozen (FreezeFailedCompPlans manager (freeze_all plans)) (cp_pid plan)"
  using FreezeFailedCompPlans_frozen [of "plan\<lparr>cp_shouldFreeze := True\<rparr>" "freeze_all plans" manager] by (auto simp: freeze_all_def)

text \<open>A plan and the list built for it; \<open>same_plan\<close> relates a plan to a later state of itself.\<close>

definition same_plan :: "GroupSwapCompPlan \<Rightarrow> GroupSwapCompPlan \<Rightarrow> bool" where
  "same_plan p q \<longleftrightarrow> cp_pid q = cp_pid p \<and> cp_from q = cp_from p \<and> cp_to q = cp_to p \<and> cp_need q = cp_need p"

definition fulfils :: "MigList \<Rightarrow> GroupSwapCompPlan \<Rightarrow> bool" where
  "fulfils l p \<longleftrightarrow> li_pid l = cp_pid p \<and> li_from l = cp_from p \<and> li_to l = cp_to p \<and> li_nr l = cp_need p"

lemma BuildCompMigListFromScan_plan:
  assumes "BuildCompMigListFromScan noMem dest process plan = (res, plan')"
  shows "same_plan plan plan' \<and> (cp_shouldFreeze plan' \<or> (\<exists>l. res = Some l \<and> fulfils l plan))"
  using assms by (auto simp: BuildCompMigListFromScan_def Let_def same_plan_def fulfils_def split: if_splits)

definition comp_inv :: "GroupSwapCompPlan list \<Rightarrow> nat \<Rightarrow> GroupSwapCompPlan list \<times> MigList list \<times> nat list \<Rightarrow> bool" where
  "comp_inv plans m = (\<lambda>(plans', lists, idx). list_all2 same_plan plans plans' \<and> length idx = length lists \<and> (\<forall>i \<in> set idx. i < length plans) \<and>
     (\<forall>i < m. cp_shouldFreeze (plans' ! i) \<or> (\<exists>j < length lists. idx ! j = i \<and> fulfils (lists ! j) (plans ! i))))"

lemma list_all2_update_right:
  "list_all2 R xs ys \<Longrightarrow> (i < length xs \<Longrightarrow> R (xs ! i) y) \<Longrightarrow> list_all2 R xs (ys[i := y])"
  by (simp add: list_all2_conv_all_nth) (metis nth_list_update_eq nth_list_update_neq)

lemma build_comp_step:
  assumes inv: "comp_inv plans m st" and m: "m < length plans"
  shows "comp_inv plans (Suc m) (build_comp noMem freePages manager m st)"
proof -
  obtain plans' lists idx where st: "st = (plans', lists, idx)" by (cases st)
  let ?p = "plans' ! m"
  have I: "list_all2 same_plan plans plans'" "length idx = length lists" "\<And>i. i \<in> set idx \<Longrightarrow> i < length plans"
    "\<And>i. i < m \<Longrightarrow> cp_shouldFreeze (plans' ! i) \<or> (\<exists>j < length lists. idx ! j = i \<and> fulfils (lists ! j) (plans ! i))"
    using inv by (auto simp: st comp_inv_def)
  have len: "length plans' = length plans" using I(1) by (simp add: list_all2_lengthD)
  have sp: "same_plan (plans ! m) ?p" using I(1) m by (simp add: list_all2_nthD)
  have res: "comp_inv plans (Suc m) (plans'[m := q], lists @ ls, idx @ map (\<lambda>_. m) ls)"
    if "same_plan (plans ! m) q" "cp_shouldFreeze q \<or> (\<exists>l. ls = [l] \<and> fulfils l (plans ! m))" for q ls
  proof -
    have "cp_shouldFreeze (plans'[m := q] ! i) \<or> (\<exists>j < length (lists @ ls). (idx @ map (\<lambda>_. m) ls) ! j = i \<and> fulfils ((lists @ ls) ! j) (plans ! i))"
      if "i < Suc m" for i
    proof (cases "i = m")
      case True
      then show ?thesis using \<open>cp_shouldFreeze q \<or> _\<close> m len I(2)
        by (auto intro!: exI [of _ "length lists"] simp: nth_append)
    next
      case False
      then have "i < m" using that by simp
      from I(4) [OF this] show ?thesis using False I(2) by (auto simp: nth_append intro: exI)
    qed
    moreover have "list_all2 same_plan plans (plans'[m := q])" using list_all2_update_right [OF I(1)] that(1) by blast
    ultimately show ?thesis using I(2,3) m by (auto simp: comp_inv_def)
  qed
  have fail: "comp_inv plans (Suc m) (plans'[m := ?p\<lparr>cp_shouldFreeze := True\<rparr>], lists, idx)"
    using res [of "?p\<lparr>cp_shouldFreeze := True\<rparr>" "[]"] sp by (simp add: same_plan_def)
  show ?thesis
  proof (cases "\<exists>process. GetProcessAttr manager (cp_pid ?p) = Some process \<and> pa_groupPolicyEnabled process")
    case True
    then obtain process where p: "GetProcessAttr manager (cp_pid ?p) = Some process" "pa_groupPolicyEnabled process" by blast
    obtain r q where b: "BuildCompMigListFromScan (noMem m) (freePages (nat (cp_to ?p))) process ?p = (r, q)" by (metis surj_pair)
    have "same_plan (plans ! m) q" "cp_shouldFreeze q \<or> (\<exists>l. r = Some l \<and> fulfils l (plans ! m))"
      using BuildCompMigListFromScan_plan [OF b] sp by (auto simp: same_plan_def fulfils_def)
    then show ?thesis using res [of q "case r of None \<Rightarrow> [] | Some l \<Rightarrow> [l]"] p b
      by (auto simp: build_comp_def st split: option.splits)
  next
    case False
    then show ?thesis using fail by (auto simp: build_comp_def st Let_def split: option.split)
  qed
qed


lemma mark_failed:
  fixes bad :: "nat \<Rightarrow> bool"
  assumes "\<And>j. j < m \<Longrightarrow> idx ! j < length plans"
  defines "plans' \<equiv> fold (\<lambda>j plans. if bad j then plans[idx ! j := (plans ! (idx ! j))\<lparr>cp_shouldFreeze := True\<rparr>] else plans) [0..<m] plans"
  shows "list_all2 same_plan plans plans' \<and> (\<forall>i < length plans. cp_shouldFreeze (plans ! i) \<longrightarrow> cp_shouldFreeze (plans' ! i)) \<and>
    (\<forall>j < m. bad j \<longrightarrow> cp_shouldFreeze (plans' ! (idx ! j)))"
  using assms(1) unfolding plans'_def
proof (induction m)
  case 0
  show ?case by (simp add: list_all2_conv_all_nth same_plan_def)
next
  case (Suc m)
  let ?q = "fold (\<lambda>j plans. if bad j then plans[idx ! j := (plans ! (idx ! j))\<lparr>cp_shouldFreeze := True\<rparr>] else plans) [0..<m] plans"
  have IH: "list_all2 same_plan plans ?q" "\<And>i. i < length plans \<Longrightarrow> cp_shouldFreeze (plans ! i) \<Longrightarrow> cp_shouldFreeze (?q ! i)"
    "\<And>j. j < m \<Longrightarrow> bad j \<Longrightarrow> cp_shouldFreeze (?q ! (idx ! j))" using Suc by auto
  have len: "length ?q = length plans" using IH(1) by (simp add: list_all2_lengthD)
  have "same_plan (plans ! (idx ! m)) (?q ! (idx ! m))" using list_all2_nthD [OF IH(1)] Suc.prems by simp
  then have "list_all2 same_plan plans (?q[idx ! m := (?q ! (idx ! m))\<lparr>cp_shouldFreeze := True\<rparr>])"
    using list_all2_update_right [OF IH(1)] by (simp add: same_plan_def)
  then show ?case using IH len Suc.prems by (auto simp: nth_list_update less_Suc_eq)
qed

lemma BuildGroupedSwapCompMsg_inv:
  assumes "BuildGroupedSwapCompMsg noMem noMem2 freePages manager plans = Inr (plans1, compMsg, idx)"
  shows "comp_inv plans (length plans) (plans1, mm_migList compMsg, idx)"
proof -
  have "m \<le> length plans \<Longrightarrow> comp_inv plans m (fold (build_comp noMem2 freePages manager) [0..<m] (plans, [], []))" for m
    by (induction m) (simp_all add: build_comp_step, simp add: comp_inv_def list_all2_conv_all_nth same_plan_def)
  from this [of "length plans"] show ?thesis using assms by (auto simp: BuildGroupedSwapCompMsg_def split: if_splits prod.splits)
qed

text \<open>C21. An exchange that could not be put back in full stops further exchanges: after the
  compensation, a grouped process that may still exchange pages has for every one of its plans a
  result in the message with all the pages the plan asked for moved, and the call succeeded. The
  driver may fail in any way; it only keeps process, nodes and size of the lists it is given.\<close>

theorem RunGroupedSwapCompensation_safe:
  assumes run: "RunGroupedSwapCompensation BuildAllPidData noMem noMem2 noMem3 freePages ioctl manager mMsg plans = (res, manager', mMsg')"
    and drv: "\<forall>msg. map shape (mm_migList (snd (ioctl msg))) = map shape (mm_migList msg)"
    and plan: "plan \<in> set plans"
    and live: "GetProcessAttr manager' (cp_pid plan) = Some p" "pa_groupPolicyEnabled p" "\<not> pa_groupSwapFrozen p"
  shows "res = Inr 0 \<and> (\<exists>l \<in> set (drop (length (mm_migList mMsg)) (mm_migList mMsg')).
    fulfils l plan \<and> cp_need plan \<le> GetMigListSuccessPages l)"
proof -
  have nf: "\<not> frozen manager' (cp_pid plan)" using live by (simp add: frozen_def)
  obtain ret0 m0 where b: "BuildAllPidData manager = (ret0, m0)" by (cases "BuildAllPidData manager")
  have nfa: "manager' \<noteq> FreezeFailedCompPlans m0 (freeze_all plans)" using nf freeze_all_frozen [OF plan] by blast
  obtain plans1 compMsg idx where msg: "BuildGroupedSwapCompMsg noMem noMem2 freePages m0 plans = Inr (plans1, compMsg, idx)"
    using run nfa b by (cases "BuildGroupedSwapCompMsg noMem noMem2 freePages m0 plans")
      (auto simp: RunGroupedSwapCompensation_def Let_def split: if_splits)
  have r0: "ret0 = 0" using run nfa b by (auto simp: RunGroupedSwapCompensation_def split: if_splits)
  obtain ret cm where call: "(if list_ex (\<lambda>l. li_nr l > 0) (mm_migList compMsg) then ioctl compMsg else (0, compMsg)) = (ret, cm)" by (metis surj_pair)
  define bad where "bad = (\<lambda>j. ret \<noteq> 0 \<or> GetMigListSuccessPages (mm_migList cm ! j) < li_nr (mm_migList cm ! j))"
  define plans2 where "plans2 = fold (\<lambda>j plans. if bad j then plans[idx ! j := (plans ! (idx ! j))\<lparr>cp_shouldFreeze := True\<rparr>] else plans)
    [0..<length (mm_migList cm)] plans1"
  have out: "(res, manager', mMsg') = (case AppendCompMigResults noMem3 mMsg cm of
        (None, mMsg) \<Rightarrow> (Inr ret, FreezeFailedCompPlans m0 plans2, mMsg)
      | (Some e, mMsg) \<Rightarrow> (Inl e, FreezeFailedCompPlans m0 (freeze_all plans2), mMsg))"
    using run by (simp add: RunGroupedSwapCompensation_def b r0 msg call plans2_def bad_def Let_def split: prod.splits option.splits)
  have sh: "map shape (mm_migList cm) = map shape (mm_migList compMsg)" using drv call by (metis snd_conv)
  note inv = BuildGroupedSwapCompMsg_inv [OF msg]
  have len: "length (mm_migList cm) = length (mm_migList compMsg)" using sh by (metis length_map)
  have idx: "idx ! j < length plans1" if "j < length (mm_migList cm)" for j
    using inv that len by (auto simp: comp_inv_def list_all2_lengthD [symmetric])
  have M: "list_all2 same_plan plans1 plans2" "\<And>i. i < length plans1 \<Longrightarrow> cp_shouldFreeze (plans1 ! i) \<Longrightarrow> cp_shouldFreeze (plans2 ! i)"
    "\<And>j. j < length (mm_migList cm) \<Longrightarrow> bad j \<Longrightarrow> cp_shouldFreeze (plans2 ! (idx ! j))"
    using mark_failed [of "length (mm_migList cm)" idx plans1 bad] idx unfolding plans2_def by blast+
  obtain i where i: "i < length plans" "plan = plans ! i" using plan by (auto simp: in_set_conv_nth)
  have s1: "list_all2 same_plan plans plans1" using inv by (simp add: comp_inv_def)
  have l12: "length plans1 = length plans" "length plans2 = length plans" using list_all2_lengthD [OF s1] list_all2_lengthD [OF M(1)] by simp_all
  have pid2: "cp_pid (plans2 ! i) = cp_pid plan"
    using list_all2_nthD [OF s1 i(1)] list_all2_nthD [OF M(1), of i] i l12 by (simp add: same_plan_def)
  have ok: "manager' = FreezeFailedCompPlans m0 plans2 \<and> res = Inr ret \<and> AppendCompMigResults noMem3 mMsg cm = (None, mMsg')"
  proof (cases "AppendCompMigResults noMem3 mMsg cm")
    case (Pair e mm)
    have "frozen (FreezeFailedCompPlans m0 (freeze_all plans2)) (cp_pid plan)"
      using freeze_all_frozen [of "plans2 ! i" plans2 m0] i l12 pid2 by simp
    then show ?thesis using out Pair nf by (cases e) auto
  qed
  have "\<not> cp_shouldFreeze (plans2 ! i)"
    using FreezeFailedCompPlans_frozen [of "plans2 ! i" plans2 m0] nf ok i l12 pid2 by auto
  moreover from this have "\<not> cp_shouldFreeze (plans1 ! i)" using M(2) i l12 by metis
  ultimately obtain j where j: "j < length (mm_migList cm)" "idx ! j = i" "fulfils (mm_migList compMsg ! j) plan" "\<not> bad j"
    using M(3) inv i len unfolding comp_inv_def prod.case by metis
  let ?l = "(mm_migList cm ! j)\<lparr>li_addr := None\<rparr>"
  have "shape (mm_migList cm ! j) = shape (mm_migList compMsg ! j)" using sh j(1) len by (metis nth_map)
  then have f: "fulfils ?l plan" using j(3) by (simp add: fulfils_def shape_def)
  have g: "GetMigListSuccessPages ?l = GetMigListSuccessPages (mm_migList cm ! j)" by (simp add: GetMigListSuccessPages_def Let_def)
  have "?l \<in> set (drop (length (mm_migList mMsg)) (mm_migList mMsg'))"
    using ok j(1) by (auto simp: AppendCompMigResults_def split: if_splits)
  moreover have "cp_need plan \<le> GetMigListSuccessPages ?l" using j(4) f g by (simp add: bad_def fulfils_def)
  ultimately show ?thesis using f ok j(4) by (auto simp: bad_def)
qed


section \<open>A concrete compensation\<close>

text \<open>The process of the theory of results as a grouped process: of an exchange between nodes 0 and 2, five pages
  left and three came back, so two more are brought back.\<close>

definition comp_process :: ProcessAttr where
  "comp_process = result_process\<lparr>pa_groupPolicy := (pa_groupPolicy result_process)\<lparr>gp_enabled := True\<rparr>,
     pa_scanAttr := (pa_scanAttr result_process)\<lparr>sc_actcLen := (\<lambda>_. 8), sc_actcData := (\<lambda>_. Some [])\<rparr>\<rparr>"

definition comp_manager :: ProcessManager where
  "comp_manager = state_demo\<lparr>pm_attrs := [comp_process]\<rparr>"

definition comp_plan :: GroupSwapCompPlan where
  "comp_plan = \<lparr>cp_pid = 7, cp_from = 2, cp_to = 0, cp_need = 2, cp_built = 0, cp_shouldFreeze = False\<rparr>"

definition comp_ioctl :: "MigrateMsg \<Rightarrow> int \<times> MigrateMsg" where
  "comp_ioctl msg = (0, msg\<lparr>mm_migList := map (\<lambda>l. l\<lparr>li_successToUser := True\<rparr>) (mm_migList msg)\<rparr>)"

lemma comp_manager_process:
  "nrl comp_manager = 2" "GetProcessAttr comp_manager 7 = Some comp_process" "pa_groupPolicyEnabled comp_process"
  by (simp_all add: comp_manager_def state_demo_def GetProcessAttr_def comp_process_def result_process_def)

theorem BuildGroupedSwapCompPlans_balance_witness:
  "\<exists>plans. BuildGroupedSwapCompPlans result_msg comp_manager = Inr plans \<and> need 7 0 2 plans = 0 \<and> need 7 2 0 plans = 2"
proof -
  have "present 7 0 2 (mm_migList result_msg)" "present 7 2 0 (mm_migList result_msg)" "length (mm_migList result_msg) \<le> 800"
    by (simp_all add: present_def result_msg_def result_list_def)
  then show ?thesis
    using BuildGroupedSwapCompPlans_balance [OF _ comp_manager_process(2,3), of result_msg 0 2] by (simp add: comp_manager_process(1) result_moved)
qed

theorem RunGroupedSwapCompensation_safe_witness:
  "\<exists>m' msg'. RunGroupedSwapCompensation (\<lambda>m. (0, m)) False (\<lambda>_. False) False (\<lambda>_. 100) comp_ioctl comp_manager result_msg [comp_plan] =
     (Inr 0, m', msg') \<and> (\<exists>l \<in> set (drop 2 (mm_migList msg')). fulfils l comp_plan \<and> 2 \<le> GetMigListSuccessPages l)"
proof -
  let ?r = "RunGroupedSwapCompensation (\<lambda>m. (0, m)) False (\<lambda>_. False) False (\<lambda>_. 100) comp_ioctl comp_manager result_msg [comp_plan]"
  let ?l = "\<lparr>li_successToUser = False, li_nr = 2, li_failedMigNr = 0, li_failedIsolatedNr = 0, li_pid = 7, li_from = 2, li_to = 0, li_addr = Some [0..<2]\<rparr>"
  have b: "BuildCompMigListFromScan False 100 comp_process comp_plan = (Some ?l, comp_plan\<lparr>cp_built := 2\<rparr>)"
    by (simp add: BuildCompMigListFromScan_def comp_process_def comp_plan_def)
  have cp: "cp_pid comp_plan = 7" "\<not> cp_shouldFreeze comp_plan" "cp_need comp_plan = 2" by (simp_all add: comp_plan_def)
  have c: "build_comp (\<lambda>_. False) (\<lambda>_. 100) comp_manager 0 ([comp_plan], [], []) = ([comp_plan\<lparr>cp_built := 2\<rparr>], [?l], [0])"
    by (simp add: build_comp_def cp comp_manager_process b)
  have good: "GetMigListSuccessPages (?l\<lparr>li_successToUser := True\<rparr>) = 2" by (rule success_pages) simp_all
  obtain res m' msg' where r: "?r = (res, m', msg')" by (cases ?r)
  then have "m' = comp_manager"
    by (simp add: RunGroupedSwapCompensation_def BuildGroupedSwapCompMsg_def c comp_ioctl_def good [simplified] AppendCompMigResults_def
        FreezeFailedCompPlans_def cp)
  then have "GetProcessAttr m' (cp_pid comp_plan) = Some comp_process" "\<not> pa_groupSwapFrozen comp_process"
    by (simp_all add: comp_manager_process cp) (simp add: comp_process_def result_process_def ProcessAttr_zero_def)
  moreover have "\<forall>msg. map shape (mm_migList (snd (comp_ioctl msg))) = map shape (mm_migList msg)" by (simp add: comp_ioctl_def shape_def)
  moreover have "length (mm_migList result_msg) = 2" by (simp add: result_msg_def)
  ultimately show ?thesis using RunGroupedSwapCompensation_safe [OF r, of comp_plan comp_process] r comp_manager_process(3) by (simp add: cp)
qed

end
