(* ===== verification/Migrate_Driver.thy ===== *)
theory Migrate_Driver
  imports Migration_Threads
begin

text \<open>
  The migration call of the kernel module, from \<^verbatim>\<open>__ioctl_migrate\<close> down to the batches of pages it
  migrates (\<^verbatim>\<open>plugins/smap/src/tiering/mig_init.c\<close>, lines 55 to 221, and \<^verbatim>\<open>smap_migrate_pages.c\<close>, lines 140 to
  234 and 647 to 925). It meets the contract \<open>migration_driver\<close>, as long as no node reports a critical
  error and the kernel counts the migrated base pages, so the user-space results hold with the real driver.

  What the kernel answers is an argument, the record \<open>DriverEnv\<close>: what becomes of a page, the count
  \<^verbatim>\<open>nr_succeeded\<close> that its functions for isolating and migrating folios leave, whether an
  allocation or a copy from user space fails, whether the translation of page positions to physical
  addresses fails. That the count is the number of migrated base pages, as the kernel documents it, is the
  hypothesis \<open>counts_base_pages\<close>. \<open>critical i r\<close> is the critical-error state of the nodes of list \<open>i\<close> at the batch
  that starts with \<open>r\<close> pages left: a batch is started at most once with the same count, so this is any
  change of the state over time. The same holds for \<open>de_noFolios\<close>.

  The positions in the address array stand for the pages throughout; the translation is not modelled.
  Copying back to a buffer that was copied from does not fail. The counters that are only logged are
  left out.
\<close>

text \<open>The type of a migration, and the function that allocates the new folio.\<close>

datatype smap_migrate_type = MIGRATE_TYPE_HOTNESS | MIGRATE_TYPE_BACK | MIGRATE_TYPE_REMOTE

datatype new_folio_t = smap_alloc_new_node_page | smap_alloc_new_node_page_mig_back

text \<open>
  \<open>de_pagesizeHuge\<close> is \<^verbatim>\<open>g_pagesize_huge\<close> and \<open>de_pageShift\<close> is \<^verbatim>\<open>PAGE_SHIFT\<close>. \<open>de_isolateAndMigrate\<close> is the
  \<^verbatim>\<open>nr_succeeded\<close> of the kernel's \<^verbatim>\<open>isolate_and_migrate_folios\<close>, \<open>de_migratePages\<close> that of \<^verbatim>\<open>fp_migrate_pages\<close>, and
  \<open>de_isolateFolio\<close> the answer of \<^verbatim>\<open>fp_isolate_folio_to_list\<close>; the list stands for the process and the
  nodes of the folios.
\<close>

record DriverEnv =
  de_verdict :: verdicts
  de_nrLocal :: int
  de_huge :: bool
  de_pagesizeHuge :: u32
  de_pageShift :: nat
  de_isolateAndMigrate :: "new_folio_t \<Rightarrow> MigList \<Rightarrow> nat list \<Rightarrow> u32"
  de_isolateFolio :: "MigList \<Rightarrow> nat \<Rightarrow> bool"
  de_migratePages :: "new_folio_t \<Rightarrow> MigList \<Rightarrow> nat list \<Rightarrow> u32"
  de_createErr :: "errno option"
  de_addrErr :: "errno option"
  de_convertErr :: "MigList \<Rightarrow> errno option"
  de_noRemain :: bool
  de_noFolios :: "nat \<Rightarrow> nat \<Rightarrow> bool"

type_synonym critical = "nat \<Rightarrow> nat \<Rightarrow> bool"

text \<open>The lists, the pages left of each, and the number of pages that could not be migrated.\<close>

record MigState =
  ms_lists :: "MigList list"
  ms_remain :: "nat list"
  ms_failed :: u32

abbreviation (input) NR_BATCHED_MIGRATION :: nat where "NR_BATCHED_MIGRATION \<equiv> 512"

definition is_node_invalid :: "int \<Rightarrow> bool" where
  "is_node_invalid node \<longleftrightarrow> node < 0 \<or> node \<ge> int MAX_NODES"

section \<open>One batch\<close>

text \<open>The page at position \<open>j\<close> is queued unless it is filtered out or cannot be isolated.\<close>

definition collect_one_folio :: "DriverEnv \<Rightarrow> MigList \<Rightarrow> nat \<Rightarrow> nat list \<Rightarrow> nat list" where
  "collect_one_folio env l j folios =
     (let p = list_addr l ! j in
      if de_verdict env (li_pid l) (li_from l) (li_to l) p \<noteq> Failed_Isolation then folios @ [p] else folios)"

text \<open>\<^verbatim>\<open>__builtin_ctz\<close>: the index of the least significant set bit; a page size is not 0.\<close>

definition builtin_ctz :: "u32 \<Rightarrow> nat" where
  "builtin_ctz w = nat (builtin_ffs w - 1)"

definition smap_isolate_and_migrate_folios :: "DriverEnv \<Rightarrow> MigList \<Rightarrow> nat list \<Rightarrow> new_folio_t \<Rightarrow> u32" where
  "smap_isolate_and_migrate_folios env l folios get_new_folio =
     (let source = filter (de_isolateFolio env l) folios in
      if source \<noteq> [] then de_migratePages env get_new_folio l source else 0)"

text \<open>
  The number of folios that were not migrated. The kernel counts base pages, so with huge pages the count
  is divided by the base pages of a huge page. The difference wraps around.
\<close>

definition smap_migrate :: "DriverEnv \<Rightarrow> MigList \<Rightarrow> nat list \<Rightarrow> smap_migrate_type \<Rightarrow> u32" where
  "smap_migrate env l folios type =
     (let nr_folios = of_nat (length folios) in
      if folios = [] then nr_folios
      else if is_node_invalid (li_to l) then nr_folios
      else
        let nr_succeeded =
              (case type of
                 MIGRATE_TYPE_BACK \<Rightarrow> de_isolateAndMigrate env smap_alloc_new_node_page_mig_back l folios
               | MIGRATE_TYPE_HOTNESS \<Rightarrow> de_isolateAndMigrate env smap_alloc_new_node_page l folios
               | MIGRATE_TYPE_REMOTE \<Rightarrow> smap_isolate_and_migrate_folios env l folios smap_alloc_new_node_page);
            nr_succeeded =
              (if de_huge env then drop_bit (builtin_ctz (de_pagesizeHuge env) - de_pageShift env) nr_succeeded else nr_succeeded)
        in nr_folios - nr_succeeded)"

definition migrate_one_batch :: "critical \<Rightarrow> DriverEnv \<Rightarrow> nat \<Rightarrow> nat \<Rightarrow> MigState \<Rightarrow> (errno + nat) \<times> MigState" where
  "migrate_one_batch critical env idx nr_remain st =
     (let l = ms_lists st ! idx in
      if critical idx nr_remain then (Inl EINVAL, st)
      else
        let nr_this_migrate = min nr_remain NR_BATCHED_MIGRATION; folio_index = li_nr l - nr_remain in
        if de_noFolios env idx nr_remain then (Inl ENOMEM, st)
        else
          let last_index = min (li_nr l) (folio_index + nr_this_migrate);
              folios = fold (collect_one_folio env l) [folio_index..<last_index] [];
              cnt = last_index - folio_index;
              l = l\<lparr>li_failedIsolatedNr := add64 (li_failedIsolatedNr l) (nr_this_migrate - length folios)\<rparr>
          in if folios = [] then (Inr (nr_remain - cnt), st\<lparr>ms_lists := (ms_lists st)[idx := l]\<rparr>)
             else
               let batch_failed = smap_migrate env l folios MIGRATE_TYPE_HOTNESS;
                   l = l\<lparr>li_failedMigNr := add64 (li_failedMigNr l) (unat batch_failed), li_successToUser := True\<rparr>
               in (Inr (nr_remain - cnt), st\<lparr>ms_lists := (ms_lists st)[idx := l], ms_failed := ms_failed st + batch_failed\<rparr>))"

definition run_one_batch :: "critical \<Rightarrow> DriverEnv \<Rightarrow> nat \<Rightarrow> MigState \<Rightarrow> errno option \<times> MigState" where
  "run_one_batch critical env i st =
     (case migrate_one_batch critical env i (ms_remain st ! i) st of
        (Inl e, st) \<Rightarrow> if e \<noteq> EINVAL then (Some e, st) else (None, st\<lparr>ms_remain := (ms_remain st)[i := 0]\<rparr>)
      | (Inr r, st) \<Rightarrow> (None, st\<lparr>ms_remain := (ms_remain st)[i := r]\<rparr>))"

section \<open>All batches of a call\<close>

definition init_mig_entry :: "MigList \<Rightarrow> MigList \<times> nat" where
  "init_mig_entry l =
     (if is_node_invalid (li_from l) \<or> is_node_invalid (li_to l) then (l, 0)
      else if li_nr l = 0 \<or> li_nr l > MAX_MIG_LIST_NR then (l, 0)
      else (l\<lparr>li_failedIsolatedNr := 0, li_failedMigNr := 0\<rparr>, li_nr l))"

text \<open>One of the two inner loops: a batch of the first list with work left in the given direction.\<close>

definition first_active :: "(int \<Rightarrow> bool) \<Rightarrow> nat \<Rightarrow> MigState \<Rightarrow> nat option" where
  "first_active dir index st =
     find (\<lambda>i. \<not> (li_pid (ms_lists st ! i) \<noteq> li_pid (ms_lists st ! index) \<or> ms_remain st ! i = 0 \<or> \<not> dir (li_from (ms_lists st ! i))))
       [index..<length (ms_remain st)]"

definition run_direction :: "critical \<Rightarrow> DriverEnv \<Rightarrow> (int \<Rightarrow> bool) \<Rightarrow> nat \<Rightarrow> MigState \<Rightarrow> errno option \<times> bool \<times> MigState" where
  "run_direction critical env dir index st =
     (case first_active dir index st of
        None \<Rightarrow> (None, False, st)
      | Some i \<Rightarrow> (case run_one_batch critical env i st of (e, st) \<Rightarrow> (e, True, st)))"

text \<open>
  The \<^verbatim>\<open>do ... while (progressed)\<close> loop: a batch brought back, a batch moved out. Every pass with progress
  leaves fewer pages, so the fuel \<open>sum_list (ms_remain st)\<close> is enough; without pages left there is nothing to do.
\<close>

fun migrate_pid_interleaved :: "nat \<Rightarrow> critical \<Rightarrow> DriverEnv \<Rightarrow> nat \<Rightarrow> MigState \<Rightarrow> errno option \<times> MigState" where
  "migrate_pid_interleaved 0 critical env index st = (None, st)"
| "migrate_pid_interleaved (Suc fuel) critical env index st =
     (case run_direction critical env (\<lambda>from_nid. \<not> from_nid < de_nrLocal env) index st of
        (Some e, _, st) \<Rightarrow> (Some e, st)
      | (None, p1, st) \<Rightarrow>
          (case run_direction critical env (\<lambda>from_nid. \<not> from_nid \<ge> de_nrLocal env) index st of
             (Some e, _, st) \<Rightarrow> (Some e, st)
           | (None, p2, st) \<Rightarrow> if p1 \<or> p2 then migrate_pid_interleaved fuel critical env index st else (None, st)))"

fun migrate_pids :: "critical \<Rightarrow> DriverEnv \<Rightarrow> nat list \<Rightarrow> MigState \<Rightarrow> errno option \<times> MigState" where
  "migrate_pids critical env [] st = (None, st)"
| "migrate_pids critical env (index # indices) st =
     (if ms_remain st ! index = 0 then migrate_pids critical env indices st
      else (case migrate_pid_interleaved (Suc (sum_list (ms_remain st))) critical env index st of
              (Some e, st) \<Rightarrow> (Some e, st)
            | (None, st) \<Rightarrow> migrate_pids critical env indices st))"

definition do_migrate :: "critical \<Rightarrow> DriverEnv \<Rightarrow> MigList list \<Rightarrow> (errno + int) \<times> MigList list" where
  "do_migrate critical env mlists =
     (if mlists = [] then (Inr 0, mlists)
      else if de_noRemain env then (Inl ENOMEM, mlists)
      else
        (case migrate_pids critical env [0..<length mlists]
            \<lparr>ms_lists = map (fst \<circ> init_mig_entry) mlists, ms_remain = map (snd \<circ> init_mig_entry) mlists, ms_failed = 0\<rparr> of
           (Some e, st) \<Rightarrow> (Inl e, ms_lists st)
         | (None, st) \<Rightarrow> (Inr (sint (ms_failed st)), ms_lists st)))"

section \<open>The call\<close>

definition is_migrate_msg_valid :: "DriverEnv \<Rightarrow> MigrateMsg \<Rightarrow> bool" where
  "is_migrate_msg_valid env msg \<longleftrightarrow>
     (let max_cnt = (if de_huge env then 800 else 2400);
          page_size = (if de_huge env then sint (de_pagesizeHuge env) else 2 ^ de_pageShift env) in
      0 < length (mm_migList msg) \<and> length (mm_migList msg) \<le> max_cnt \<and> mm_pageSize msg = page_size)"

definition init_migrate_list_addr :: "DriverEnv \<Rightarrow> MigList list \<Rightarrow> errno option" where
  "init_migrate_list_addr env mlist =
     (if mlist = [] then Some EINVAL
      else if list_ex (\<lambda>ml. li_nr ml = 0 \<or> li_nr ml > MAX_MIG_LIST_NR \<or> li_addr ml = None) mlist then Some EINVAL
      else de_addrErr env)"

fun convert_migrate_list :: "DriverEnv \<Rightarrow> MigList list \<Rightarrow> errno option" where
  "convert_migrate_list env [] = None"
| "convert_migrate_list env (ml # mlist) = (case de_convertErr env ml of Some e \<Rightarrow> Some e | None \<Rightarrow> convert_migrate_list env mlist)"

definition build_migrate_list :: "DriverEnv \<Rightarrow> MigrateMsg \<Rightarrow> errno option" where
  "build_migrate_list env msg =
     (case de_createErr env of
        Some e \<Rightarrow> Some e
      | None \<Rightarrow>
          (case init_migrate_list_addr env (mm_migList msg) of
             Some e \<Rightarrow> Some e
           | None \<Rightarrow> convert_migrate_list env (mm_migList msg)))"

definition ioctl_migrate :: "critical \<Rightarrow> DriverEnv \<Rightarrow> MigrateMsg \<Rightarrow> (errno + int) \<times> MigrateMsg" where
  "ioctl_migrate critical env msg =
     (if \<not> is_migrate_msg_valid env msg then (Inl EINVAL, msg)
      else (case build_migrate_list env msg of
              Some e \<Rightarrow> (Inl e, msg)
            | None \<Rightarrow> (case do_migrate critical env (mm_migList msg) of (ret, mlists) \<Rightarrow> (ret, msg\<lparr>mm_migList := mlists\<rparr>))))"

text \<open>The value a caller in user space sees: -1 for an error.\<close>

definition migrate_ioctl :: "critical \<Rightarrow> DriverEnv \<Rightarrow> MigrateMsg \<Rightarrow> int \<times> MigrateMsg" where
  "migrate_ioctl critical env msg = (case ioctl_migrate critical env msg of (ret, msg) \<Rightarrow> (case ret of Inl e \<Rightarrow> -1 | Inr n \<Rightarrow> n, msg))"


section \<open>Lists keep their shape\<close>

lemma migrate_one_batch_shape:
  "migrate_one_batch critical env i r st = (res, st') \<Longrightarrow> map shape (ms_lists st') = map shape (ms_lists st) \<and> ms_remain st' = ms_remain st"
proof -
  have upd: "map shape (ls[i := l']) = map shape ls" if "shape l' = shape (ls ! i)" for ls l'
    using that by (simp add: map_update) (metis list_update_id map_update)
  assume "migrate_one_batch critical env i r st = (res, st')"
  then show ?thesis by (auto simp: migrate_one_batch_def Let_def upd shape_def split: if_splits)
qed

lemma run_one_batch_shape:
  "run_one_batch critical env i st = (e, st') \<Longrightarrow> map shape (ms_lists st') = map shape (ms_lists st) \<and> length (ms_remain st') = length (ms_remain st)"
  by (auto simp: run_one_batch_def dest!: migrate_one_batch_shape split: prod.splits sum.splits if_splits)

lemma run_direction_shape:
  "run_direction critical env dir index st = (e, p, st') \<Longrightarrow> map shape (ms_lists st') = map shape (ms_lists st) \<and> length (ms_remain st') = length (ms_remain st)"
  by (auto simp: run_direction_def dest!: run_one_batch_shape split: option.splits prod.splits)

lemma interleaved_shape:
  "migrate_pid_interleaved fuel critical env index st = (e, st') \<Longrightarrow> map shape (ms_lists st') = map shape (ms_lists st)"
proof (induction fuel arbitrary: st)
  case (Suc fuel)
  obtain e1 p1 s1 where d1: "run_direction critical env (\<lambda>from_nid. \<not> from_nid < de_nrLocal env) index st = (e1, p1, s1)"
    by (metis prod_cases3)
  obtain e2 p2 s2 where d2: "run_direction critical env (\<lambda>from_nid. \<not> from_nid \<ge> de_nrLocal env) index s1 = (e2, p2, s2)"
    by (metis prod_cases3)
  show ?case using Suc.prems Suc.IH [of s2] run_direction_shape [OF d1] run_direction_shape [OF d2]
    unfolding migrate_pid_interleaved.simps d1 prod.case by (auto simp: d2 split: option.splits if_splits)
qed simp

lemma migrate_pids_shape:
  "migrate_pids critical env is st = (e, st') \<Longrightarrow> map shape (ms_lists st') = map shape (ms_lists st)"
proof (induction "is" arbitrary: st)
  case (Cons i "is")
  then show ?case by (auto simp del: migrate_pid_interleaved.simps dest!: interleaved_shape split: prod.splits option.splits if_splits)
qed simp

lemma migrate_ioctl_keeps: "map shape (mm_migList (snd (migrate_ioctl critical env msg))) = map shape (mm_migList msg)"
proof -
  have "map shape (map (fst \<circ> init_mig_entry) mlists) = map shape mlists" for mlists by (auto simp: init_mig_entry_def shape_def)
  then have "map shape (snd (do_migrate critical env mlists)) = map shape mlists" for mlists
    by (auto simp: do_migrate_def dest!: migrate_pids_shape split: prod.splits option.splits)
  then show ?thesis by (auto simp: migrate_ioctl_def ioctl_migrate_def split: prod.splits option.splits) (metis snd_conv)
qed


section \<open>What a batch does\<close>

text \<open>A list of which the first \<open>d\<close> pages were dealt with.\<close>

definition dealt :: "verdicts \<Rightarrow> nat \<Rightarrow> MigList \<Rightarrow> MigList" where
  "dealt V d l = l\<lparr>li_successToUser := (li_successToUser l \<or> count_of V Failed_Isolation l (take d (list_addr l)) \<noteq> d),
     li_failedMigNr := count_of V Failed_Migration l (take d (list_addr l)),
     li_failedIsolatedNr := count_of V Failed_Isolation l (take d (list_addr l))\<rparr>"

lemma dealt_simps [simp]:
  "li_pid (dealt V d l) = li_pid l" "li_from (dealt V d l) = li_from l" "li_to (dealt V d l) = li_to l" "li_nr (dealt V d l) = li_nr l"
  "list_addr (dealt V d l) = list_addr l"
  by (simp_all add: dealt_def list_addr_def)

lemma dealt_0: "ready l \<Longrightarrow> dealt V 0 l = l"
  by (simp add: dealt_def ready_def count_of_def)

lemma dealt_all: "ready l \<Longrightarrow> dealt V (li_nr l) l = judge V l"
  by (simp add: dealt_def judge_def ready_def)

lemma count_of_dealt [simp]: "count_of V v (dealt W d l) = count_of V v l"
  by (simp add: count_of_def [abs_def])

lemma count_of_le: "count_of V v l ps \<le> length ps"
  by (simp add: count_of_def)

lemma collect_folios:
  "fold (collect_one_folio env l) js folios =
     folios @ filter (\<lambda>p. de_verdict env (li_pid l) (li_from l) (li_to l) p \<noteq> Failed_Isolation) (map ((!) (list_addr l)) js)"
  by (induction js arbitrary: folios) (simp_all add: collect_one_folio_def)

lemma map_nth_upt: "b \<le> length xs \<Longrightarrow> map ((!) xs) [a..<b] = take (b - a) (drop a xs)"
  by (rule nth_equalityI) auto

lemma queued_length:
  "length (filter (\<lambda>p. V (li_pid l) (li_from l) (li_to l) p \<noteq> Failed_Isolation) ps) = length ps - count_of V Failed_Isolation l ps"
  using sum_length_filter_compl [of "\<lambda>p. V (li_pid l) (li_from l) (li_to l) p = Failed_Isolation" ps] by (simp add: count_of_def)

lemma queued_failed:
  fixes V :: verdicts and l :: MigList
  defines "q \<equiv> \<lambda>ps. filter (\<lambda>p. V (li_pid l) (li_from l) (li_to l) p \<noteq> Failed_Isolation) ps"
  shows "length (q ps) - count_of V Migrated l (q ps) = count_of V Failed_Migration l ps"
proof -
  have "count_of V Migrated l (q ps) = count_of V Migrated l ps" by (auto simp: q_def count_of_def intro!: arg_cong [of _ _ length] filter_cong)
  then show ?thesis using queued_length [of V l ps] count_of_total [of V l ps] by (simp add: q_def)
qed

text \<open>A batch moves the boundary of the pages dealt with.\<close>

lemma dealt_batch:
  fixes V :: verdicts
  assumes rdy: "ready l" and d: "d + k \<le> li_nr l"
  defines "B \<equiv> take k (drop d (list_addr l))"
  defines "q \<equiv> filter (\<lambda>p. V (li_pid l) (li_from l) (li_to l) p \<noteq> Failed_Isolation) B"
  shows "(dealt V d l)\<lparr>li_failedIsolatedNr := add64 (li_failedIsolatedNr (dealt V d l)) (k - length q),
      li_failedMigNr := add64 (li_failedMigNr (dealt V d l)) (count_of V Failed_Migration l B),
      li_successToUser := (li_successToUser (dealt V d l) \<or> q \<noteq> [])\<rparr> = dealt V (d + k) l"
proof -
  have len: "length B = k" "length (take d (list_addr l)) = d" and nr: "li_nr l \<le> 2 ^ 28" using rdy d by (auto simp: B_def ready_def)
  have app: "take (d + k) (list_addr l) = take d (list_addr l) @ B" by (simp add: B_def take_add)
  have le: "count_of V v l (take d (list_addr l)) \<le> d" "count_of V v l B \<le> k" for v
    using count_of_le [of V v l "take d (list_addr l)"] count_of_le [of V v l B] len by simp_all
  have q: "k - length q = count_of V Failed_Isolation l B" "q = [] \<longleftrightarrow> count_of V Failed_Isolation l B = k"
    using queued_length [of V l B] le(2) [of Failed_Isolation] len unfolding q_def by (auto simp: length_0_conv [symmetric] simp del: length_0_conv)
  have add: "add64 (count_of V v l (take d (list_addr l))) (count_of V v l B) = count_of V v l (take d (list_addr l)) + count_of V v l B" for v
    using le(1) [of v] le(2) [of v] nr d by (intro add64_eq) simp
  have "count_of V Failed_Isolation l (take d (list_addr l)) + count_of V Failed_Isolation l B \<noteq> d + k \<longleftrightarrow>
      count_of V Failed_Isolation l (take d (list_addr l)) \<noteq> d \<or> q \<noteq> []"
    using le [of Failed_Isolation] q(2) by linarith
  then show ?thesis by (simp add: dealt_def q(1) add app count_of_append)
qed

lemma dealt_batch_empty:
  fixes V :: verdicts
  assumes rdy: "ready l" and d: "d + k \<le> li_nr l"
    and q: "filter (\<lambda>p. V (li_pid l) (li_from l) (li_to l) p \<noteq> Failed_Isolation) (take k (drop d (list_addr l))) = []"
  shows "(dealt V d l)\<lparr>li_failedIsolatedNr := add64 (li_failedIsolatedNr (dealt V d l)) k\<rparr> = dealt V (d + k) l"
proof -
  have "count_of V Failed_Migration l (take k (drop d (list_addr l))) = 0" using queued_failed [of V l "take k (drop d (list_addr l))"] q by simp
  moreover have "li_failedMigNr (dealt V d l) \<le> length (take d (list_addr l))" 
    using count_of_le [of V Failed_Migration l "take d (list_addr l)"] by (simp add: dealt_def)
  then have "add64 (li_failedMigNr (dealt V d l)) 0 = li_failedMigNr (dealt V d l)" using rdy d by (subst add64_eq) (auto simp: ready_def)
  ultimately show ?thesis using dealt_batch [OF rdy d, of V] q by (cases "dealt V d l") simp
qed

lemma dealt_batch_some:
  fixes V :: verdicts
  assumes rdy: "ready l" and d: "d + k \<le> li_nr l"
  defines "B \<equiv> take k (drop d (list_addr l))"
  defines "q \<equiv> filter (\<lambda>p. V (li_pid l) (li_from l) (li_to l) p \<noteq> Failed_Isolation) B"
  assumes q: "q \<noteq> []"
  shows "(dealt V d l)\<lparr>li_failedIsolatedNr := add64 (li_failedIsolatedNr (dealt V d l)) (k - length q),
      li_failedMigNr := add64 (li_failedMigNr (dealt V d l)) (count_of V Failed_Migration l B), li_successToUser := True\<rparr> = dealt V (d + k) l"
  using dealt_batch [OF rdy d, of V, folded B_def, folded q_def] q by simp


section \<open>The count of the kernel\<close>

text \<open>
  What the kernel documents of the count: it is the number of base pages of the folios that were migrated.
  A huge page is a power of two of base pages. A batch holds at most 512 folios.
\<close>

definition counts_base_pages :: "DriverEnv \<Rightarrow> bool" where
  "counts_base_pages env \<longleftrightarrow> (\<exists>k < 32. de_pageShift env \<le> k \<and> de_pagesizeHuge env = 2 ^ k \<and>
     (\<forall>l folios. length folios \<le> NR_BATCHED_MIGRATION \<longrightarrow>
       unat (de_isolateAndMigrate env smap_alloc_new_node_page l folios) =
         count_of (de_verdict env) Migrated l folios * (if de_huge env then 2 ^ (k - de_pageShift env) else 1)))"

lemma builtin_ctz_exp: "k < 32 \<Longrightarrow> builtin_ctz (2 ^ k) = k"
proof -
  assume "k < 32"
  then have "builtin_ffs (2 ^ k) = int k + 1" unfolding builtin_ffs_eq by (simp add: bit_exp_iff)
  then show ?thesis by (simp add: builtin_ctz_def)
qed

text \<open>The shift undoes the factor, and the result is the number of queued folios that were not migrated.\<close>

lemma smap_migrate_counts:
  assumes "counts_base_pages env" "length folios \<le> 512" "\<not> is_node_invalid (li_to l)"
  shows "unat (smap_migrate env l folios MIGRATE_TYPE_HOTNESS) = length folios - count_of (de_verdict env) Migrated l folios"
proof -
  obtain k where k: "k < 32" "de_pagesizeHuge env = 2 ^ k"
    and n: "unat (de_isolateAndMigrate env smap_alloc_new_node_page l folios) =
      count_of (de_verdict env) Migrated l folios * (if de_huge env then 2 ^ (k - de_pageShift env) else 1)"
    using assms(1,2) unfolding counts_base_pages_def by blast
  define s where "s = (let nr = de_isolateAndMigrate env smap_alloc_new_node_page l folios in
    if de_huge env then drop_bit (builtin_ctz (de_pagesizeHuge env) - de_pageShift env) nr else nr)"
  have s: "unat s = count_of (de_verdict env) Migrated l folios"
    using n unfolding s_def k(2) builtin_ctz_exp [OF k(1)] by (cases "de_huge env") (simp_all add: Let_def unat_drop_bit_eq drop_bit_eq_div [where ?'a = nat])
  have le: "count_of (de_verdict env) Migrated l folios \<le> length folios" by (rule count_of_le)
  have len: "unat (of_nat (length folios) :: u32) = length folios" using assms(2) by (intro unat_of_nat_u32) simp
  have "unat (of_nat (length folios) - s) = length folios - count_of (de_verdict env) Migrated l folios"
    using s le len by (simp add: unat_sub word_le_nat_alt)
  moreover have "smap_migrate env l folios MIGRATE_TYPE_HOTNESS = (if folios = [] then 0 else of_nat (length folios) - s)"
    using assms(3) by (simp add: smap_migrate_def s_def Let_def)
  ultimately show ?thesis by (cases "folios = []") (simp_all add: count_of_def)
qed


section \<open>The batches of a call\<close>

definition batch_inv :: "verdicts \<Rightarrow> MigList list \<Rightarrow> MigState \<Rightarrow> bool" where
  "batch_inv V mlists st \<longleftrightarrow> length (ms_lists st) = length mlists \<and> length (ms_remain st) = length mlists \<and>
     (\<forall>i < length mlists. ms_remain st ! i \<le> li_nr (mlists ! i) \<and> ms_lists st ! i = dealt V (li_nr (mlists ! i) - ms_remain st ! i) (mlists ! i))"

abbreviation (input) no_critical :: critical where "no_critical \<equiv> \<lambda>_ _. False"

lemma migrate_one_batch_inv:
  assumes counts: "counts_base_pages env" and inv: "batch_inv (de_verdict env) mlists st" and rdy: "\<forall>l \<in> set mlists. ready l" and i: "i < length mlists"
    and run: "migrate_one_batch no_critical env i (ms_remain st ! i) st = (Inr r, st')"
  shows "r = ms_remain st ! i - min (ms_remain st ! i) 512 \<and> batch_inv (de_verdict env) mlists (st'\<lparr>ms_remain := (ms_remain st')[i := r]\<rparr>)"
proof -
  let ?V = "de_verdict env" and ?l = "mlists ! i" and ?rem = "ms_remain st ! i"
  let ?d = "li_nr ?l - ?rem" and ?k = "min ?rem 512"
  let ?B = "take ?k (drop ?d (list_addr ?l))"
  let ?q = "filter (\<lambda>p. ?V (li_pid ?l) (li_from ?l) (li_to ?l) p \<noteq> Failed_Isolation) ?B"
  have l: "ready ?l" and le: "?rem \<le> li_nr ?l" and cur: "ms_lists st ! i = dealt ?V ?d ?l" using inv rdy i by (auto simp: batch_inv_def)
  have dk: "?d + ?k \<le> li_nr ?l" using le by simp
  have valid: "\<not> is_node_invalid (li_to ?l)" using l by (simp add: ready_def is_node_invalid_def)
  have last: "min (li_nr ?l) (?d + ?k) = ?d + ?k" using dk by simp
  have q: "fold (collect_one_folio env (dealt ?V ?d ?l)) [?d..<?d + ?k] [] = ?q"
    unfolding collect_folios using map_nth_upt [of "?d + ?k" "list_addr ?l" ?d] dk l by (simp add: ready_def)
  have mig: "unat (smap_migrate env ((dealt ?V ?d ?l)\<lparr>li_failedIsolatedNr := x\<rparr>) ?q MIGRATE_TYPE_HOTNESS) = count_of ?V Failed_Migration ?l ?B" for x
  proof -
    have "count_of ?V Migrated ((dealt ?V ?d ?l)\<lparr>li_failedIsolatedNr := x\<rparr>) = count_of ?V Migrated ?l" by (simp add: count_of_def [abs_def])
    moreover have "length ?q \<le> 512" by (rule order_trans [OF length_filter_le]) simp
    ultimately show ?thesis using smap_migrate_counts [OF counts, of ?q "(dealt ?V ?d ?l)\<lparr>li_failedIsolatedNr := x\<rparr>"] valid
        queued_failed [of ?V ?l ?B] by simp
  qed
  have "?rem - (?d + ?k - ?d) = ?rem - ?k" by simp
  then have r: "r = ?rem - ?k" "ms_remain st' = ms_remain st" "length (ms_lists st') = length (ms_lists st)"
    using run unfolding migrate_one_batch_def by (auto simp: Let_def cur last split: if_splits)
  have new: "ms_lists st' = (ms_lists st)[i := dealt ?V (?d + ?k) ?l]"
  proof (cases "?q = []")
    case True
    then show ?thesis using run q dealt_batch_empty [OF l dk, of ?V] unfolding migrate_one_batch_def cur by (auto simp: Let_def last split: if_splits)
  next
    case False
    then show ?thesis using run q mig dealt_batch_some [OF l dk, of ?V] unfolding migrate_one_batch_def cur
      by (auto simp: Let_def last split: if_splits)
  qed
  have at: "li_nr ?l - (?rem - ?k) = ?d + ?k" using le by simp
  have "batch_inv ?V mlists (st'\<lparr>ms_remain := (ms_remain st')[i := r]\<rparr>)"
    using inv i at le unfolding batch_inv_def by (auto simp: r new nth_list_update)
  then show ?thesis using r(1) by blast
qed


lemma run_one_batch_inv:
  assumes counts: "counts_base_pages env" and inv: "batch_inv (de_verdict env) mlists st" and rdy: "\<forall>l \<in> set mlists. ready l" and i: "i < length mlists" "ms_remain st ! i \<noteq> 0"
    and run: "run_one_batch no_critical env i st = (None, st')"
  shows "batch_inv (de_verdict env) mlists st' \<and> list_all2 (\<le>) (ms_remain st') (ms_remain st) \<and>
    sum_list (ms_remain st') < sum_list (ms_remain st)"
proof -
  obtain r st1 where b: "migrate_one_batch no_critical env i (ms_remain st ! i) st = (Inr r, st1)"
    and st': "st' = st1\<lparr>ms_remain := (ms_remain st1)[i := r]\<rparr>"
    using run by (auto simp: run_one_batch_def migrate_one_batch_def Let_def split: prod.splits sum.splits if_splits)
  have r: "r < ms_remain st ! i" "batch_inv (de_verdict env) mlists st'"
    using migrate_one_batch_inv [OF counts inv rdy i(1) b] i(2) unfolding st' by auto
  have rem: "ms_remain st' = (ms_remain st)[i := r]" using migrate_one_batch_shape [OF b] by (simp add: st')
  have len: "i < length (ms_remain st)" using inv i(1) by (simp add: batch_inv_def)
  have "sum_list (ms_remain st) = sum_list (ms_remain st') + (ms_remain st ! i - r)"
    using r(1) len elem_le_sum_list [of i "ms_remain st"] unfolding rem by (simp add: sum_list_update)
  moreover have "list_all2 (\<le>) (ms_remain st') (ms_remain st)"
    using r(1) len unfolding rem by (auto simp: list_all2_conv_all_nth nth_list_update)
  ultimately show ?thesis using r by simp
qed

lemma run_direction_inv:
  assumes counts: "counts_base_pages env" and inv: "batch_inv (de_verdict env) mlists st" and rdy: "\<forall>l \<in> set mlists. ready l"
    and run: "run_direction no_critical env dir index st = (None, p, st')"
  shows "batch_inv (de_verdict env) mlists st' \<and> list_all2 (\<le>) (ms_remain st') (ms_remain st) \<and>
    (if p then sum_list (ms_remain st') < sum_list (ms_remain st) else st' = st \<and> first_active dir index st = None)"
proof (cases "first_active dir index st")
  case None
  then show ?thesis using inv run by (auto simp: run_direction_def list_all2_conv_all_nth)
next
  case (Some i)
  then have "i < length mlists" "ms_remain st ! i \<noteq> 0" using inv by (auto simp: first_active_def find_Some_iff batch_inv_def)
  then show ?thesis using run_one_batch_inv [OF counts inv rdy, of i st'] run Some by (auto simp: run_direction_def split: prod.splits)
qed

text \<open>When the loop ends without an error, no page of the process is left from \<open>index\<close> on.\<close>

definition pid_done :: "MigList list \<Rightarrow> nat \<Rightarrow> MigState \<Rightarrow> bool" where
  "pid_done mlists index st \<longleftrightarrow> (\<forall>i. index \<le> i \<longrightarrow> i < length mlists \<longrightarrow> li_pid (mlists ! i) = li_pid (mlists ! index) \<longrightarrow> ms_remain st ! i = 0)"

lemma not_active_done:
  assumes inv: "batch_inv V mlists st" and idx: "index < length mlists"
    and none: "first_active (\<lambda>n. \<not> n < c) index st = None" "first_active (\<lambda>n. \<not> n \<ge> c) index st = None"
  shows "pid_done mlists index st"
  unfolding pid_done_def
proof (intro allI impI)
  fix i assume i: "index \<le> i" "i < length mlists" "li_pid (mlists ! i) = li_pid (mlists ! index)"
  have I: "i \<in> set [index..<length (ms_remain st)]" "li_pid (ms_lists st ! i) = li_pid (ms_lists st ! index)" using inv i idx by (auto simp: batch_inv_def)
  show "ms_remain st ! i = 0" using none I unfolding first_active_def find_None_iff by (metis not_le)
qed

lemma interleaved_inv:
  assumes counts: "counts_base_pages env" and "batch_inv (de_verdict env) mlists st" "\<forall>l \<in> set mlists. ready l" "index < length mlists" "sum_list (ms_remain st) < fuel"
    and "migrate_pid_interleaved fuel no_critical env index st = (None, st')"
  shows "batch_inv (de_verdict env) mlists st' \<and> list_all2 (\<le>) (ms_remain st') (ms_remain st) \<and> pid_done mlists index st'"
  using assms(2,5,6)
proof (induction fuel arbitrary: st)
  case (Suc fuel)
  let ?up = "\<lambda>from_nid. \<not> from_nid < de_nrLocal env" and ?dn = "\<lambda>from_nid. \<not> from_nid \<ge> de_nrLocal env"
  obtain e1 p1 s1 where d1: "run_direction no_critical env ?up index st = (e1, p1, s1)" by (metis prod_cases3)
  obtain e2 p2 s2 where d2: "run_direction no_critical env ?dn index s1 = (e2, p2, s2)" by (metis prod_cases3)
  have e: "e1 = None" "e2 = None" "(if p1 \<or> p2 then migrate_pid_interleaved fuel no_critical env index s2 else (None, s2)) = (None, st')"
    using Suc.prems(3) unfolding migrate_pid_interleaved.simps d1 prod.case by (auto simp: d2 split: option.splits)
  note i1 = run_direction_inv [OF counts Suc.prems(1) assms(3) d1 [unfolded e]]
  note i2 = run_direction_inv [OF counts conjunct1 [OF i1] assms(3) d2 [unfolded e]]
  have le: "list_all2 (\<le>) (ms_remain s2) (ms_remain st)"
    using i1 i2 list_all2_trans [of "(\<le>)" "(\<le>)" "(\<le>)" "ms_remain s2" "ms_remain s1" "ms_remain st"] by auto
  have sums: "sum_list (ms_remain s2) \<le> sum_list (ms_remain s1)" "sum_list (ms_remain s1) \<le> sum_list (ms_remain st)"
    using i1 i2 by (auto split: if_splits)
  show ?case
  proof (cases "p1 \<or> p2")
    case True
    then have "sum_list (ms_remain s2) < fuel" using i1 i2 sums Suc.prems(2) by (auto split: if_splits)
    then have "batch_inv (de_verdict env) mlists st' \<and> list_all2 (\<le>) (ms_remain st') (ms_remain s2) \<and> pid_done mlists index st'"
      using Suc.IH [of s2] i2 e(3) True by simp
    then show ?thesis using le list_all2_trans [of "(\<le>)" "(\<le>)" "(\<le>)" "ms_remain st'" "ms_remain s2" "ms_remain st"] by auto
  next
    case False
    then have "st' = st" "first_active ?up index st = None" "first_active ?dn index st = None" using i1 i2 e(3) by auto
    then show ?thesis using not_active_done [OF Suc.prems(1) assms(4), of "de_nrLocal env"] Suc.prems(1) by (auto simp: list_all2_conv_all_nth)
  qed
qed simp

lemma migrate_pids_inv:
  assumes counts: "counts_base_pages env" and "batch_inv (de_verdict env) mlists st" "\<forall>l \<in> set mlists. ready l" "\<forall>i \<in> set is. i < length mlists"
    and "migrate_pids no_critical env is st = (None, st')"
  shows "batch_inv (de_verdict env) mlists st' \<and> list_all2 (\<le>) (ms_remain st') (ms_remain st) \<and> (\<forall>i \<in> set is. ms_remain st' ! i = 0)"
  using assms(2,4,5)
proof (induction "is" arbitrary: st)
  case (Cons i "is")
  have i: "i < length mlists" using Cons.prems(2) by simp
  obtain s1 where s1: "batch_inv (de_verdict env) mlists s1" "list_all2 (\<le>) (ms_remain s1) (ms_remain st)" "ms_remain s1 ! i = 0"
    and rest: "migrate_pids no_critical env is s1 = (None, st')"
  proof (cases "ms_remain st ! i = 0")
    case True
    then show ?thesis using that [of st] Cons.prems by (simp add: list_all2_conv_all_nth)
  next
    case False
    obtain e s1 where r: "migrate_pid_interleaved (Suc (sum_list (ms_remain st))) no_critical env i st = (e, s1)" by (metis surj_pair)
    have e: "e = None" "migrate_pids no_critical env is s1 = (None, st')"
      using Cons.prems(3) False r by (auto simp del: migrate_pid_interleaved.simps split: option.splits)
    from interleaved_inv [OF counts Cons.prems(1) assms(3) i _ r [unfolded e]] show ?thesis using that [of s1] e i by (simp add: pid_done_def)
  qed
  have IH: "batch_inv (de_verdict env) mlists st' \<and> list_all2 (\<le>) (ms_remain st') (ms_remain s1) \<and> (\<forall>i \<in> set is. ms_remain st' ! i = 0)"
    using Cons.IH [OF s1(1) _ rest] Cons.prems(2) by simp
  have "ms_remain st' ! i \<le> ms_remain s1 ! i" using IH i by (auto simp: list_all2_conv_all_nth batch_inv_def)
  then show ?case using IH s1 list_all2_trans [of "(\<le>)" "(\<le>)" "(\<le>)" "ms_remain st'" "ms_remain s1" "ms_remain st"] by auto
qed (simp add: list_all2_conv_all_nth)

lemma do_migrate_completes:
  assumes "counts_base_pages env" "\<forall>l \<in> set mlists. ready l" "do_migrate no_critical env mlists = (Inr n, mlists')"
  shows "mlists' = map (judge (de_verdict env)) mlists"
proof (cases "mlists = []")
  case False
  let ?st = "\<lparr>ms_lists = map (fst \<circ> init_mig_entry) mlists, ms_remain = map (snd \<circ> init_mig_entry) mlists, ms_failed = 0\<rparr>"
  have init: "init_mig_entry l = (l, li_nr l)" if "l \<in> set mlists" for l
    using that assms(2) by (auto simp: init_mig_entry_def is_node_invalid_def ready_def)
  obtain st where m: "migrate_pids no_critical env [0..<length mlists] ?st = (None, st)" and l': "mlists' = ms_lists st"
    using assms(3) False by (auto simp: do_migrate_def split: prod.splits option.splits if_splits)
  have "batch_inv (de_verdict env) mlists ?st" using assms(2) init by (auto simp: batch_inv_def dealt_0)
  from migrate_pids_inv [OF assms(1) this assms(2) _ m]
  have inv: "batch_inv (de_verdict env) mlists st" and zero: "\<forall>i < length mlists. ms_remain st ! i = 0" by auto
  show ?thesis unfolding l' using inv zero assms(2) by (intro nth_equalityI) (auto simp: batch_inv_def dealt_all)
qed (use assms(3) in \<open>simp add: do_migrate_def\<close>)

lemma migrate_ioctl_contract:
  assumes "counts_base_pages env"
  shows "migration_driver (de_verdict env) (migrate_ioctl no_critical env)"
proof
  fix msg
  show "map shape (mm_migList (snd (migrate_ioctl no_critical env msg))) = map shape (mm_migList msg)" by (rule migrate_ioctl_keeps)
  assume "\<forall>l \<in> set (mm_migList msg). ready l" "0 \<le> fst (migrate_ioctl no_critical env msg)"
  then show "mm_migList (snd (migrate_ioctl no_critical env msg)) = map (judge (de_verdict env)) (mm_migList msg)"
    using do_migrate_completes [OF assms, of "mm_migList msg"]
    by (auto simp: migrate_ioctl_def ioctl_migrate_def split: prod.splits option.splits sum.splits if_splits)
qed

text \<open>The contract of the kernel under the module, and the contract of the module that rests on it.\<close>

locale kernel_migration =
  fixes env :: DriverEnv
  assumes counts: "counts_base_pages env"

sublocale kernel_migration \<subseteq> migration_driver "de_verdict env" "migrate_ioctl no_critical env"
  by (rule migrate_ioctl_contract [OF counts])

text \<open>Whatever else the kernel answers, a counter that follows the documentation meets it, with huge pages of 2 MB.\<close>

definition counted :: "DriverEnv \<Rightarrow> DriverEnv" where
  "counted env = env\<lparr>de_pagesizeHuge := 2097152, de_pageShift := 12, de_isolateAndMigrate :=
     (\<lambda>alloc l folios. of_nat (count_of (de_verdict env) Migrated l folios * (if de_huge env then 512 else 1)))\<rparr>"

lemma counted_counts: "counts_base_pages (counted env)"
  unfolding counts_base_pages_def
proof (intro exI [of _ 21] conjI allI impI)
  fix l and folios :: "nat list" assume "length folios \<le> NR_BATCHED_MIGRATION"
  then have "count_of (de_verdict env) Migrated l folios \<le> 512" using count_of_le order_trans by blast
  then have "count_of (de_verdict env) Migrated l folios * (if de_huge env then 512 else 1) \<le> UINT32_MAX" by simp
  from unat_of_nat_u32 [OF this]
  show "unat (de_isolateAndMigrate (counted env) smap_alloc_new_node_page l folios) =
      count_of (de_verdict (counted env)) Migrated l folios * (if de_huge (counted env) then 2 ^ (21 - de_pageShift (counted env)) else 1)"
    by (simp add: counted_def)
qed (simp_all add: counted_def)

interpretation counting: kernel_migration "counted env" for env
  by unfold_locales (rule counted_counts)


section \<open>Critical errors\<close>

text \<open>
  A critical error of a node ends a list after the pages dealt with so far. When one of them was queued, the
  pages never tried are reported as migrated: for this reason critical errors are excluded below.
\<close>

lemma run_one_batch_critical:
  "critical i (ms_remain st ! i) \<Longrightarrow> run_one_batch critical env i st = (None, st\<lparr>ms_remain := (ms_remain st)[i := 0]\<rparr>)"
  by (simp add: run_one_batch_def migrate_one_batch_def)

theorem critical_error_overreports:
  assumes "ready l" "d \<le> li_nr l" "count_of V Failed_Isolation l (take d (list_addr l)) \<noteq> d"
  shows "GetMigListSuccessPages (dealt V d l) = count_of V Migrated l (take d (list_addr l)) + (li_nr l - d)"
proof (rule success_pages)
  have "length (take d (list_addr l)) = d" using assms(1,2) by (simp add: ready_def)
  then show "li_nr (dealt V d l) = count_of V Migrated l (take d (list_addr l)) + (li_nr l - d) + li_failedMigNr (dealt V d l) + li_failedIsolatedNr (dealt V d l)"
    using count_of_total [of V l "take d (list_addr l)"] assms(2) by (simp add: dealt_def)
qed (use assms in \<open>auto simp: dealt_def ready_def\<close>)


section \<open>Migrations with this driver\<close>

text \<open>C17. From the message of a migration to the counters that come back, through any number of threads and
  the kernel module, provided no node reports a critical error during the calls and the kernel counts
  the base pages it migrates: when the migration returns no error, every list reports exactly the pages of
  it that the kernel migrated, so the result does not depend on the number of threads; and with several
  threads no list ever reports more than that, whatever else fails: an allocation in user space or in the
  kernel, the creation of a thread, or the call of one.\<close>

theorem DoMigration_counts:
  assumes "\<forall>t. de_verdict (env t) = V \<and> counts_base_pages (env t)" "\<forall>t i r. \<not> critical t i r" "\<forall>l \<in> set (mm_migList mMsg). ready l"
    and "DoMigration noMem noMem1 noMem2 created (\<lambda>t. migrate_ioctl (critical t) (env t)) mc manager mMsg = (res, mMsg')"
    and "j < length (mm_migList mMsg)" "mm_migList mMsg ! j = l"
  shows "(\<forall>err \<ge> 0. res = Inr err \<longrightarrow> GetMigListSuccessPages (mm_migList mMsg' ! j) = count_of V Migrated l (list_addr l)) \<and>
    (DecideThreadNum mc manager mMsg \<noteq> 1 \<longrightarrow> GetMigListSuccessPages (mm_migList mMsg' ! j) \<le> count_of V Migrated l (list_addr l))"
proof -
  have "critical t = no_critical" for t using assms(2) by (simp add: fun_eq_iff)
  then have "migration_driver V (migrate_ioctl (critical t) (env t))" for t using migrate_ioctl_contract [of "env t"] assms(1) by simp
  from DoMigration_reports [OF this assms(3-6)] show ?thesis .
qed

text \<open>Four huge pages, one of which cannot be isolated and one not migrated.\<close>

definition env_demo :: DriverEnv where
  "env_demo = counted \<lparr>de_verdict = (\<lambda>pid s d p. if p = 0 then Failed_Migration else if p = 1 then Failed_Isolation else Migrated), de_nrLocal = 4,
     de_huge = True, de_pagesizeHuge = 0, de_pageShift = 0, de_isolateAndMigrate = (\<lambda>_ _ _. 0), de_isolateFolio = (\<lambda>_ _. False),
     de_migratePages = (\<lambda>_ _ _. 0), de_createErr = None, de_addrErr = None, de_convertErr = (\<lambda>_. None), de_noRemain = False,
     de_noFolios = (\<lambda>_ _. False)\<rparr>"

definition four_pages :: MigList where
  "four_pages = \<lparr>li_successToUser = False, li_nr = 4, li_failedMigNr = 0, li_failedIsolatedNr = 0, li_pid = 7, li_from = 0, li_to = 4,
     li_addr = Some [0, 1, 2, 3]\<rparr>"

definition four_msg :: MigrateMsg where
  "four_msg = \<lparr>mm_pageSize = 2097152, mm_migList = [four_pages]\<rparr>"

definition machine_demo :: Machine where
  "machine_demo = \<lparr>mc_nrLocalNuma = 4, mc_hugeMode = True, mc_pageSizeNormal = 4096, mc_pageSizeHuge = 2097152\<rparr>"

definition four_done :: MigList where
  "four_done = four_pages\<lparr>li_successToUser := True, li_failedMigNr := 1, li_failedIsolatedNr := 1\<rparr>"

lemma env_demo_counts: "counts_base_pages env_demo"
  unfolding env_demo_def by (rule counted_counts)

lemma four_mig: "smap_migrate env_demo l [0, 2, 3] MIGRATE_TYPE_HOTNESS = 1" if "li_to l = 4"
proof -
  have "count_of (de_verdict env_demo) Migrated l [0, 2, 3] = 2" by (simp add: count_of_def env_demo_def counted_def)
  moreover have "\<not> is_node_invalid (li_to l)" using that by (simp add: is_node_invalid_def)
  ultimately have "unat (smap_migrate env_demo l [0, 2, 3] MIGRATE_TYPE_HOTNESS) = 1"
    using smap_migrate_counts [OF env_demo_counts, of "[0, 2, 3]" l] by simp
  then show ?thesis by (metis unat_1 word_unat_eq_iff)
qed

lemma four_batch:
  "run_one_batch (\<lambda>_ _. False) env_demo 0 \<lparr>ms_lists = [four_pages], ms_remain = [4], ms_failed = 0\<rparr> =
     (None, \<lparr>ms_lists = [four_done], ms_remain = [0], ms_failed = 1\<rparr>)"
proof -
  have "[0..<4] = [0, 1, 2, 3 :: nat]" by (simp add: upt_rec)
  moreover have "de_verdict env_demo = (\<lambda>pid s d p. if p = 0 then Failed_Migration else if p = 1 then Failed_Isolation else Migrated)"
    "\<not> de_noFolios env_demo i r" for i r by (simp_all add: env_demo_def counted_def)
  ultimately show ?thesis
    by (simp add: run_one_batch_def migrate_one_batch_def collect_folios four_mig list_addr_def four_pages_def four_done_def add64_def)
qed

lemma four_dirs:
  "first_active (\<lambda>n. \<not> n < 4) 0 \<lparr>ms_lists = [four_pages], ms_remain = [4], ms_failed = 0\<rparr> = None"
  "first_active (\<lambda>n. \<not> n \<ge> 4) 0 \<lparr>ms_lists = [four_pages], ms_remain = [4], ms_failed = 0\<rparr> = Some 0"
  "first_active dir 0 \<lparr>ms_lists = [four_done], ms_remain = [0], ms_failed = 1\<rparr> = None"
  by (simp_all add: first_active_def four_pages_def)

lemma env_demo_call: "fst (migrate_ioctl (\<lambda>_ _. False) env_demo four_msg) = 1"
proof -
  have loc: "de_nrLocal env_demo = 4" by (simp add: env_demo_def counted_def)
  have "migrate_pid_interleaved (Suc (Suc k)) (\<lambda>_ _. False) env_demo 0 \<lparr>ms_lists = [four_pages], ms_remain = [4], ms_failed = 0\<rparr> =
      (None, \<lparr>ms_lists = [four_done], ms_remain = [0], ms_failed = 1\<rparr>)" for k
    by (simp add: loc run_direction_def four_dirs four_batch)
  from this [of 3] have loop: "migrate_pids (\<lambda>_ _. False) env_demo [0] \<lparr>ms_lists = [four_pages], ms_remain = [4], ms_failed = 0\<rparr> =
      (None, \<lparr>ms_lists = [four_done], ms_remain = [0], ms_failed = 1\<rparr>)" by simp
  have "init_mig_entry four_pages = (four_pages, 4)" by (simp add: init_mig_entry_def four_pages_def is_node_invalid_def)
  then have "do_migrate (\<lambda>_ _. False) env_demo [four_pages] = (Inr 1, [four_done])" using loop by (simp add: do_migrate_def) (simp add: env_demo_def counted_def)
  moreover have "is_migrate_msg_valid env_demo four_msg" by (simp add: is_migrate_msg_valid_def env_demo_def counted_def four_msg_def)
  moreover have "build_migrate_list env_demo four_msg = None"
    by (simp add: build_migrate_list_def init_migrate_list_addr_def env_demo_def counted_def four_msg_def four_pages_def)
  moreover have "mm_migList four_msg = [four_pages]" by (simp add: four_msg_def)
  ultimately show ?thesis by (simp add: migrate_ioctl_def ioctl_migrate_def)
qed

theorem DoMigration_counts_witness:
  "GetMigListSuccessPages (mm_migList (snd (DoMigration False False False (\<lambda>_. True) (\<lambda>i. migrate_ioctl (\<lambda>_ _. False) env_demo)
     machine_demo state_demo four_msg)) ! 0) = 2"
proof -
  obtain res m where r: "DoMigration False False False (\<lambda>_. True) (\<lambda>i. migrate_ioctl (\<lambda>_ _. False) env_demo) machine_demo state_demo four_msg = (res, m)"
    by (metis surj_pair)
  have "DecideThreadNum machine_demo state_demo four_msg = 1"
    by (simp add: DecideThreadNum_def machine_demo_def four_msg_def four_pages_def add64_def)
  moreover obtain c where "migrate_ioctl (\<lambda>_ _. False) env_demo four_msg = (1, c)" using env_demo_call by (metis prod.collapse)
  ultimately have "res = Inr 1" using r by (simp add: DoMigration_def four_msg_def)
  moreover have "count_of (de_verdict env_demo) Migrated four_pages (list_addr four_pages) = 2"
    by (simp add: count_of_def env_demo_def counted_def four_pages_def list_addr_def)
  moreover have "ready four_pages" by (simp add: ready_def four_pages_def list_addr_def)
  ultimately show ?thesis 
    using DoMigration_counts [OF _ _ _ r, of "de_verdict env_demo" 0 four_pages] r by (simp add: four_msg_def env_demo_counts)
qed

end
