(* ===== verification/Group_Policy.thy ===== *)
theory Group_Policy
  imports Process_Types
begin

text \<open>
  The accounting of the remote pages of a grouped process (\<^verbatim>\<open>plugins/smap/src/user/manage/manage_grouped.c\<close>, lines 62
  to 184, and \<^verbatim>\<open>user/strategy/grouped_strategy.c\<close>, lines 272 to 400): a remote node may be the target of several
  groups, each with a quota, and the pages that are resident on it are divided among them. A new
  policy is refused unless they fit the quotas; during operation they are divided in proportion to the
  quotas, whatever they add up to.

  A target is named by the index of its group and its index in the group. The computations that the
  code makes in 128 bits are made in natural numbers; the former used pages, which are only logged, are
  left out.
\<close>

type_synonym entry = "nat \<times> nat"

abbreviation (input) MAX_GROUP_TARGET_ENTRY :: nat where "MAX_GROUP_TARGET_ENTRY \<equiv> 144"

definition target :: "GroupMigrationPolicy \<Rightarrow> entry \<Rightarrow> GroupTargetAttr" where
  "target policy = (\<lambda>(g, t). gr_targets (gp_groups policy g) t)"

definition set_used :: "entry \<Rightarrow> u64 \<Rightarrow> GroupMigrationPolicy \<Rightarrow> GroupMigrationPolicy" where
  "set_used e v policy =
     (let (g, t) = e; grp = gp_groups policy g
      in policy\<lparr>gp_groups := (gp_groups policy)(g := grp\<lparr>gr_targets := (gr_targets grp)(t := (gr_targets grp t)\<lparr>gt_usedPages := v\<rparr>)\<rparr>)\<rparr>)"

abbreviation quota :: "GroupMigrationPolicy \<Rightarrow> entry \<Rightarrow> nat" where
  "quota policy e \<equiv> unat (gt_quotaPages (target policy e))"

abbreviation used :: "GroupMigrationPolicy \<Rightarrow> entry \<Rightarrow> nat" where
  "used policy e \<equiv> unat (gt_usedPages (target policy e))"

definition all_entries :: "GroupMigrationPolicy \<Rightarrow> entry list" where
  "all_entries policy =
     concat (map (\<lambda>i. map (Pair i) [0..<nat (gr_targetCount (gp_groups policy i))]) [0..<nat (gp_groupCount policy)])"

section \<open>A new policy\<close>

definition ResetGroupedPolicyRuntime :: "GroupMigrationPolicy \<Rightarrow> GroupMigrationPolicy" where
  "ResetGroupedPolicyRuntime policy =
     fold (\<lambda>e policy. set_used e 0 policy) (all_entries policy)
       (policy\<lparr>gp_groups := (\<lambda>i. if i < nat (gp_groupCount policy) then (gp_groups policy i)\<lparr>gr_swapCandidateRounds := 0\<rparr> else gp_groups policy i)\<rparr>)"

definition CollectGroupedTargetEntries :: "GroupMigrationPolicy \<Rightarrow> int \<Rightarrow> errno + entry list" where
  "CollectGroupedTargetEntries policy targetNid =
     (let es = filter (\<lambda>e. gt_nid (target policy e) = targetNid) (all_entries policy)
      in if length es > MAX_GROUP_TARGET_ENTRY then Inl EINVAL else Inr es)"

fun quota_sum :: "GroupMigrationPolicy \<Rightarrow> entry list \<Rightarrow> nat \<Rightarrow> nat option" where
  "quota_sum policy [] quotaSum = Some quotaSum"
| "quota_sum policy (e # es) quotaSum =
     (if UINT64_MAX - quotaSum < quota policy e then None else quota_sum policy es (quotaSum + quota policy e))"

definition assign_shares :: "entry list \<Rightarrow> nat \<Rightarrow> nat \<Rightarrow> GroupMigrationPolicy \<Rightarrow> GroupMigrationPolicy \<times> nat" where
  "assign_shares es residentPages quotaSum policy =
     fold (\<lambda>e (policy, assignedPages).
       let policy = set_used e (of_nat (residentPages * quota policy e div quotaSum)) policy
       in (policy, add64 assignedPages (used policy e))) es (policy, 0)"

text \<open>One pass of the inner loop: the policy, the pages that remain, whether a page was given out.\<close>

fun rest_pass :: "entry list \<Rightarrow> GroupMigrationPolicy \<Rightarrow> nat \<Rightarrow> bool \<Rightarrow> GroupMigrationPolicy \<times> nat \<times> bool" where
  "rest_pass [] policy remainingPages progressed = (policy, remainingPages, progressed)"
| "rest_pass (e # es) policy remainingPages progressed =
     (if remainingPages = 0 then (policy, remainingPages, progressed)
      else if gt_usedPages (target policy e) \<ge> gt_quotaPages (target policy e) then rest_pass es policy remainingPages progressed
      else rest_pass es (set_used e (gt_usedPages (target policy e) + 1) policy) (remainingPages - 1) True)"

lemma rest_pass_less:
  "rest_pass es policy r False = (policy', r', progressed) \<Longrightarrow> r' \<le> r \<and> (progressed \<longrightarrow> r' < r)"
proof -
  have "rest_pass es policy r pr = (policy', r', progressed) \<Longrightarrow> r' \<le> r \<and> (progressed \<longrightarrow> pr \<or> r' < r)" for pr
    by (induction es policy r pr rule: rest_pass.induct) (auto split: if_splits)
  then show "rest_pass es policy r False = (policy', r', progressed) \<Longrightarrow> r' \<le> r \<and> (progressed \<longrightarrow> r' < r)" by blast
qed

function hand_rest :: "entry list \<Rightarrow> GroupMigrationPolicy \<Rightarrow> nat \<Rightarrow> errno option \<times> GroupMigrationPolicy" where
  "hand_rest es policy remainingPages =
     (if remainingPages = 0 then (None, policy)
      else (case rest_pass es policy remainingPages False of
              (policy, remainingPages, progressed) \<Rightarrow>
                if \<not> progressed then (Some EINVAL, policy) else hand_rest es policy remainingPages))"
  by pat_completeness auto
termination
  by (relation "measure (\<lambda>(es, policy, r). r)") (auto dest!: rest_pass_less [OF sym])

declare hand_rest.simps [simp del]

definition InitGroupedTargetUsedPages :: "GroupMigrationPolicy \<Rightarrow> int \<Rightarrow> nat \<Rightarrow> errno option \<times> GroupMigrationPolicy" where
  "InitGroupedTargetUsedPages policy targetNid residentPages =
     (case CollectGroupedTargetEntries policy targetNid of
        Inl e \<Rightarrow> (Some EINVAL, policy)
      | Inr es \<Rightarrow>
          if es = [] then (Some EINVAL, policy)
          else (case quota_sum policy es 0 of
                  None \<Rightarrow> (Some EINVAL, policy)
                | Some quotaSum \<Rightarrow>
                    if quotaSum = 0 then (Some EINVAL, policy)
                    else if residentPages > quotaSum then (Some EINVAL, policy)
                    else
                      let (policy, assignedPages) = assign_shares es residentPages quotaSum policy
                      in (case hand_rest es policy (sub64 residentPages assignedPages) of
                            (Some e, policy) \<Rightarrow> (Some e, policy)
                          | (None, policy) \<Rightarrow>
                              if list_ex (\<lambda>e. gt_usedPages (target policy e) > gt_quotaPages (target policy e)) es
                              then (Some EINVAL, policy) else (None, policy))))"

fun init_used :: "(nat \<Rightarrow> u64) \<Rightarrow> nat list \<Rightarrow> GroupMigrationPolicy \<Rightarrow> errno option \<times> GroupMigrationPolicy" where
  "init_used numaPages [] policy = (None, policy)"
| "init_used numaPages (nid # nids) policy =
     (if numaPages nid = 0 then init_used numaPages nids policy
      else (case InitGroupedTargetUsedPages policy (int nid) (unat (numaPages nid)) of
              (Some e, policy) \<Rightarrow> (Some e, policy)
            | (None, policy) \<Rightarrow> init_used numaPages nids policy))"

definition InitGroupedUsedPages :: "nat \<Rightarrow> GroupMigrationPolicy \<Rightarrow> (nat \<Rightarrow> u64) \<Rightarrow> errno option \<times> GroupMigrationPolicy" where
  "InitGroupedUsedPages nrLocalNuma policy numaPages = init_used numaPages [nrLocalNuma..<MAX_NODES] policy"

section \<open>During operation\<close>

definition CollectTargetEntriesByNid :: "GroupMigrationPolicy \<Rightarrow> int \<Rightarrow> nat \<Rightarrow> entry list" where
  "CollectTargetEntriesByNid policy nid maxEntries = take maxEntries (filter (\<lambda>e. gt_nid (target policy e) = nid) (all_entries policy))"

fun CalcTargetQuotaSum :: "GroupMigrationPolicy \<Rightarrow> entry list \<Rightarrow> nat \<Rightarrow> nat" where
  "CalcTargetQuotaSum policy [] quotaSum = quotaSum"
| "CalcTargetQuotaSum policy (e # es) quotaSum =
     (if UINT64_MAX - quotaSum < quota policy e then UINT64_MAX else CalcTargetQuotaSum policy es (quotaSum + quota policy e))"

definition SyncSingleTargetUsedPages :: "entry \<Rightarrow> u64 \<Rightarrow> GroupMigrationPolicy \<Rightarrow> GroupMigrationPolicy" where
  "SyncSingleTargetUsedPages e residentPages policy = set_used e residentPages policy"

definition AssignSharedTargetUsedPages :: "entry list \<Rightarrow> nat \<Rightarrow> nat \<Rightarrow> GroupMigrationPolicy \<Rightarrow> GroupMigrationPolicy" where
  "AssignSharedTargetUsedPages es residentPages quotaSum policy =
     (let (policy, assignedPages) = assign_shares es residentPages quotaSum policy;
          remainingPages = sub64 residentPages assignedPages
      in fst (fold (\<lambda>e (policy, remainingPages).
           if remainingPages > 0 then (set_used e (gt_usedPages (target policy e) + 1) policy, remainingPages - 1)
           else (policy, remainingPages)) es (policy, remainingPages)))"

definition SyncSharedTargetUsedPages :: "entry list \<Rightarrow> nat \<Rightarrow> nat \<Rightarrow> GroupMigrationPolicy \<Rightarrow> GroupMigrationPolicy" where
  "SyncSharedTargetUsedPages es residentPages quotaSum policy =
     (if quotaSum = 0 \<or> quotaSum = UINT64_MAX then policy else AssignSharedTargetUsedPages es residentPages quotaSum policy)"

definition SyncGroupedTargetUsedPages :: "ProcessAttr \<Rightarrow> ProcessAttr" where
  "SyncGroupedTargetUsedPages process =
     process\<lparr>pa_groupPolicy := fold (\<lambda>nid policy.
       let es = CollectTargetEntriesByNid policy (int nid) MAX_GROUP_TARGET_ENTRY;
           residentPages = sc_actcLen (pa_scanAttr process) nid
       in if es = [] then policy
          else if length es = 1 then SyncSingleTargetUsedPages (es ! 0) residentPages policy
          else SyncSharedTargetUsedPages es (unat residentPages) (CalcTargetQuotaSum policy es 0) policy)
       [0..<MAX_NODES] (pa_groupPolicy process)\<rparr>"


section \<open>Updating the used pages\<close>

lemma target_set_used: "target (set_used e v p) e' = (if e' = e then (target p e)\<lparr>gt_usedPages := v\<rparr> else target p e')"
  by (cases e; cases e') (auto simp: target_def set_used_def Let_def)

lemma all_entries_set_used: "all_entries (set_used e v p) = all_entries p"
  by (cases e) (auto simp: all_entries_def set_used_def Let_def intro!: arg_cong [where f = concat])

lemma distinct_all_entries: "distinct (all_entries p)"
proof -
  have "distinct (concat (map (\<lambda>i. map (Pair i) (f i)) is))" if "distinct is" "\<And>i. distinct (f i)" for f :: "nat \<Rightarrow> nat list" and "is"
    using that by (induction "is") (auto simp: distinct_map inj_on_def)
  then show ?thesis by (simp add: all_entries_def)
qed

text \<open>Policies that differ in the used pages of the targets \<open>A\<close> only.\<close>

definition same_but :: "entry set \<Rightarrow> GroupMigrationPolicy \<Rightarrow> GroupMigrationPolicy \<Rightarrow> bool" where
  "same_but A p p' \<longleftrightarrow> all_entries p' = all_entries p \<and> (\<forall>e. gt_nid (target p' e) = gt_nid (target p e)) \<and>
     (\<forall>e. gt_quotaPages (target p' e) = gt_quotaPages (target p e)) \<and> (\<forall>e. e \<notin> A \<longrightarrow> target p' e = target p e)"

lemma same_but_refl [simp]: "same_but A p p"
  by (simp add: same_but_def)

lemma same_but_trans: "same_but A p p' \<Longrightarrow> same_but B p' p'' \<Longrightarrow> A \<union> B \<subseteq> C \<Longrightarrow> same_but C p p''"
  unfolding same_but_def by (metis Un_iff subsetD)

lemma same_but_set_used: "same_but {e} p (set_used e v p)"
  by (simp add: same_but_def target_set_used all_entries_set_used)

lemma same_but_quota: "same_but A p p' \<Longrightarrow> quota p' e = quota p e"
  unfolding same_but_def by presburger

lemma same_but_out: "same_but A p p' \<Longrightarrow> e \<notin> A \<Longrightarrow> target p' e = target p e"
  unfolding same_but_def by blast

abbreviation quotas :: "GroupMigrationPolicy \<Rightarrow> entry list \<Rightarrow> nat" where "quotas p es \<equiv> \<Sum>e\<leftarrow>es. quota p e"
abbreviation useds :: "GroupMigrationPolicy \<Rightarrow> entry list \<Rightarrow> nat" where "useds p es \<equiv> \<Sum>e\<leftarrow>es. used p e"

lemma quota_sum_eq: "s \<le> UINT64_MAX \<Longrightarrow> quota_sum p es s = (if s + quotas p es \<le> UINT64_MAX then Some (s + quotas p es) else None)"
  by (induction es arbitrary: s) (auto simp: add.assoc)

section \<open>Proportional shares\<close>

lemma assign_shares_gen:
  fixes res Q :: nat
  assumes "distinct es" "a + (\<Sum>e\<leftarrow>es. res * quota p e div Q) < 2 ^ 64"
  shows "\<exists>p'. fold (\<lambda>e (policy, assignedPages). let policy = set_used e (of_nat (res * quota policy e div Q)) policy
      in (policy, add64 assignedPages (used policy e))) es (p, a) = (p', a + (\<Sum>e\<leftarrow>es. res * quota p e div Q)) \<and>
    same_but (set es) p p' \<and> (\<forall>e \<in> set es. used p' e = res * quota p e div Q)"
  using assms
proof (induction es arbitrary: p a)
  case (Cons e es)
  let ?u = "res * quota p e div Q" and ?p = "set_used e (of_nat (res * quota p e div Q)) p"
  have u: "unat (of_nat ?u :: u64) = ?u" using Cons.prems(2) by (intro unat_of_nat_u64) simp
  have sb: "same_but {e} p ?p" by (rule same_but_set_used)
  have q: "quota ?p e' = quota p e'" for e' by (rule same_but_quota [OF sb])
  have used: "used ?p e = ?u" by (simp add: target_set_used u)
  have add: "add64 a ?u = a + ?u" using Cons.prems(2) by (intro add64_eq) simp
  from Cons.IH [of "a + ?u" ?p] Cons.prems obtain p' where p':
    "fold (\<lambda>e (policy, assignedPages). let policy = set_used e (of_nat (res * quota policy e div Q)) policy
      in (policy, add64 assignedPages (used policy e))) es (?p, a + ?u) = (p', a + ?u + (\<Sum>e\<leftarrow>es. res * quota p e div Q))"
    "same_but (set es) ?p p'" "\<forall>e \<in> set es. used p' e = res * quota p e div Q" by (auto simp: q add.assoc)
  have "same_but (set (e # es)) p p'" using same_but_trans [OF sb p'(2)] by auto
  moreover have "used p' e = ?u" using same_but_out [OF p'(2), of e] Cons.prems(1) used by simp
  ultimately show ?case using p' by (auto simp: Let_def used add)
qed simp

lemma assign_shares_eq:
  assumes "distinct es" "res < 2 ^ 64" "quotas p es \<le> Q"
  shows "\<exists>p'. assign_shares es res Q p = (p', (\<Sum>e\<leftarrow>es. res * quota p e div Q)) \<and>
    same_but (set es) p p' \<and> (\<forall>e \<in> set es. used p' e = res * quota p e div Q)"
proof -
  have "(\<Sum>e\<leftarrow>es. res * quota p e div Q) \<le> res" using apportion_floor_le [of "quota p" es Q res] assms(3) by simp
  then show ?thesis using assign_shares_gen [OF assms(1), of 0 res p Q] assms(2) unfolding assign_shares_def by simp
qed

section \<open>Handing out the rest\<close>

lemma useds_step:
  assumes "distinct E" "e \<in> set E" "used p e < quota p e"
  shows "useds (set_used e (gt_usedPages (target p e) + 1) p) E = useds p E + 1"
    and "used (set_used e (gt_usedPages (target p e) + 1) p) e = used p e + 1"
proof -
  have inc: "unat (gt_usedPages (target p e) + 1) = used p e + 1"
    using assms(3) unat_plus_bounded [of "gt_usedPages (target p e)" 1 "gt_quotaPages (target p e)"] by simp
  then show "used (set_used e (gt_usedPages (target p e) + 1) p) e = used p e + 1" by (simp add: target_set_used)
  from assms(1,2) show "useds (set_used e (gt_usedPages (target p e) + 1) p) E = useds p E + 1"
  proof (induction E)
    case (Cons x E)
    have "useds (set_used e v p) E = useds p E" if "e \<notin> set E" for v
      using that by (auto simp: target_set_used intro!: arg_cong [where f = sum_list] map_cong)
    then show ?case using Cons by (auto simp: target_set_used inc)
  qed simp
qed

lemma rest_pass_inv:
  assumes "distinct E" "set es \<subseteq> set E" "\<forall>e \<in> set E. used p e \<le> quota p e"
    and "rest_pass es p r pr = (p', r', pr')"
  shows "same_but (set E) p p' \<and> useds p' E + r' = useds p E + r \<and> (\<forall>e \<in> set E. used p' e \<le> quota p' e) \<and>
    (pr' \<longleftrightarrow> pr \<or> (0 < r \<and> (\<exists>e \<in> set es. used p e < quota p e)))"
  using assms(2-4)
proof (induction es arbitrary: p r pr)
  case (Cons e es)
  show ?case
  proof (cases "r = 0 \<or> quota p e \<le> used p e")
    case True
    then show ?thesis using Cons.IH [of p r pr] Cons.prems by (auto simp: word_le_nat_alt split: if_splits)
  next
    case False
    let ?p = "set_used e (gt_usedPages (target p e) + 1) p"
    have e: "e \<in> set E" "used p e < quota p e" using Cons.prems(1) False by auto
    note S = useds_step [OF assms(1) e]
    have sb: "same_but {e} p ?p" by (rule same_but_set_used)
    have le: "\<forall>x \<in> set E. used ?p x \<le> quota ?p x"
      using Cons.prems(2) e S(2) unfolding same_but_quota [OF sb] by (auto simp: target_set_used)
    have run: "rest_pass es ?p (r - 1) True = (p', r', pr')" using Cons.prems(3) False by (simp add: word_le_nat_alt)
    from Cons.IH [OF _ le run] Cons.prems(1) have IH: "same_but (set E) ?p p'" "useds p' E + r' = useds ?p E + (r - 1)"
      "\<forall>e \<in> set E. used p' e \<le> quota p' e" pr' by auto
    have "same_but (set E) p p'" using same_but_trans [OF sb IH(1)] e(1) by auto
    then show ?thesis using IH S(1) False e by auto
  qed
qed simp

lemma hand_rest_fits:
  assumes "distinct E" "\<forall>e \<in> set E. used p e \<le> quota p e" "useds p E + r \<le> quotas p E"
  shows "\<exists>p'. hand_rest E p r = (None, p') \<and> same_but (set E) p p' \<and> useds p' E = useds p E + r \<and> (\<forall>e \<in> set E. used p' e \<le> quota p' e)"
  using assms(2,3)
proof (induction r arbitrary: p rule: less_induct)
  case (less r)
  show ?case
  proof (cases "r = 0")
    case True
    then show ?thesis using less.prems(1) by (simp add: hand_rest.simps)
  next
    case False
    obtain p1 r1 pr where pass: "rest_pass E p r False = (p1, r1, pr)" by (metis prod_cases3)
    note I = rest_pass_inv [OF assms(1) subset_refl less.prems(1) pass]
    have "\<exists>e \<in> set E. used p e < quota p e"
    proof (rule ccontr)
      assume "\<not> ?thesis"
      then have "quotas p E \<le> useds p E" by (intro sum_list_mono) auto
      then show False using less.prems(2) False by simp
    qed
    then have pr: "pr" using I False by simp
    then have lt: "r1 < r" using rest_pass_less [OF pass] by simp
    have q: "quotas p1 E = quotas p E" using same_but_quota [OF conjunct1 [OF I]] by simp
    obtain p' where p': "hand_rest E p1 r1 = (None, p')" "same_but (set E) p1 p'" "useds p' E = useds p1 E + r1" "\<forall>e \<in> set E. used p' e \<le> quota p' e"
      using less.IH [OF lt, of p1] I less.prems(2) q by auto
    have "hand_rest E p r = (None, p')" using False pass pr p'(1) by (subst hand_rest.simps) simp
    moreover have "same_but (set E) p p'" using same_but_trans [of "set E" p p1 "set E" p'] I p'(2) by auto
    ultimately show ?thesis using p' I by auto
  qed
qed

definition node_entries :: "GroupMigrationPolicy \<Rightarrow> int \<Rightarrow> entry list" where
  "node_entries p nid = filter (\<lambda>e. gt_nid (target p e) = nid) (all_entries p)"

lemma distinct_node_entries: "distinct (node_entries p nid)"
  by (simp add: node_entries_def distinct_all_entries)

text \<open>C22. A new group policy takes over the pages on a remote node exactly when they fit: the node is a
  target of some group, its quotas add up to a number other than zero without an overflow, and the
  resident pages are at most that sum. Then the loop that hands out the rest ends, the used pages of
  the targets on the node add up to the resident pages, none exceeds its quota, and nothing else changes.\<close>

theorem InitGroupedTargetUsedPages_fits:
  fixes resident :: u64
  shows "let es = node_entries policy nid in
    if es \<noteq> [] \<and> length es \<le> 144 \<and> quotas policy es \<le> UINT64_MAX \<and> quotas policy es \<noteq> 0 \<and> unat resident \<le> quotas policy es
    then \<exists>policy'. InitGroupedTargetUsedPages policy nid (unat resident) = (None, policy') \<and> same_but (set es) policy policy' \<and>
      useds policy' es = unat resident \<and> list_all (\<lambda>e. used policy' e \<le> quota policy' e) es
    else fst (InitGroupedTargetUsedPages policy nid (unat resident)) = Some EINVAL"
proof -
  define es where "es = node_entries policy nid"
  let ?r = "unat resident" and ?Q = "quotas policy es"
  have coll: "CollectGroupedTargetEntries policy nid = (if length es > 144 then Inl EINVAL else Inr es)"
    by (simp add: CollectGroupedTargetEntries_def es_def node_entries_def Let_def)
  have qs: "quota_sum policy es 0 = (if ?Q \<le> UINT64_MAX then Some ?Q else None)" by (simp add: quota_sum_eq)
  have d: "distinct es" by (simp add: es_def distinct_node_entries)
  show ?thesis unfolding es_def [symmetric] Let_def
  proof (cases "es \<noteq> [] \<and> length es \<le> 144 \<and> ?Q \<le> UINT64_MAX \<and> ?Q \<noteq> 0 \<and> ?r \<le> ?Q")
    case True
    obtain p1 where p1: "assign_shares es ?r ?Q policy = (p1, (\<Sum>e\<leftarrow>es. ?r * quota policy e div ?Q))" "same_but (set es) policy p1"
      "\<forall>e \<in> set es. used p1 e = ?r * quota policy e div ?Q" using assign_shares_eq [OF d, of ?r policy ?Q] by auto
    let ?a = "\<Sum>e\<leftarrow>es. ?r * quota policy e div ?Q"
    have a: "?a \<le> ?r" using apportion_floor_le [of "quota policy" es ?Q ?r] by simp
    have u1: "useds p1 es = ?a" using p1(3) by (intro arg_cong [where f = sum_list] map_cong) simp_all
    have "\<forall>e \<in> set es. used p1 e \<le> quota p1 e" using p1(3) True same_but_quota [OF p1(2)] by (simp add: apportion_share_le)
    moreover have "quotas p1 es = ?Q" using same_but_quota [OF p1(2)] by simp
    ultimately obtain p2 where p2: "hand_rest es p1 (?r - ?a) = (None, p2)" "same_but (set es) p1 p2" "useds p2 es = useds p1 es + (?r - ?a)"
      "\<forall>e \<in> set es. used p2 e \<le> quota p2 e" using hand_rest_fits [OF d, of p1 "?r - ?a"] u1 a True by auto
    have "sub64 ?r ?a = ?r - ?a" using a by (intro sub64_eq) simp_all
    moreover have "\<not> list_ex (\<lambda>e. gt_usedPages (target p2 e) > gt_quotaPages (target p2 e)) es"
      using p2(4) by (auto simp: list_ex_iff word_less_nat_alt)
    ultimately have "InitGroupedTargetUsedPages policy nid ?r = (None, p2)"
      using True p1(1) p2(1) by (simp add: InitGroupedTargetUsedPages_def coll qs)
    moreover have "same_but (set es) policy p2" using same_but_trans [OF p1(2) p2(2)] by simp
    ultimately show "if es \<noteq> [] \<and> length es \<le> 144 \<and> ?Q \<le> UINT64_MAX \<and> ?Q \<noteq> 0 \<and> ?r \<le> ?Q
      then \<exists>policy'. InitGroupedTargetUsedPages policy nid ?r = (None, policy') \<and> same_but (set es) policy policy' \<and>
        useds policy' es = ?r \<and> list_all (\<lambda>e. used policy' e \<le> quota policy' e) es
      else fst (InitGroupedTargetUsedPages policy nid ?r) = Some EINVAL"
      using True p2(3,4) u1 a by (simp add: list_all_iff)
  next
    case False
    then have "fst (InitGroupedTargetUsedPages policy nid ?r) = Some EINVAL"
      by (auto simp: InitGroupedTargetUsedPages_def coll qs)
    then show "if es \<noteq> [] \<and> length es \<le> 144 \<and> ?Q \<le> UINT64_MAX \<and> ?Q \<noteq> 0 \<and> ?r \<le> ?Q
      then \<exists>policy'. InitGroupedTargetUsedPages policy nid ?r = (None, policy') \<and> same_but (set es) policy policy' \<and>
        useds policy' es = ?r \<and> list_all (\<lambda>e. used policy' e \<le> quota policy' e) es
      else fst (InitGroupedTargetUsedPages policy nid ?r) = Some EINVAL" using False by (simp only: if_False)
  qed
qed


section \<open>Synchronisation with the scan\<close>

lemma bump_rest:
  fixes p :: GroupMigrationPolicy
  assumes "distinct es" "r = 0 \<or> (\<forall>e \<in> set es. used p e < UINT64_MAX)"
  defines "p' \<equiv> fst (fold (\<lambda>e (policy, remainingPages).
      if remainingPages > 0 then (set_used e (gt_usedPages (target policy e) + 1) policy, remainingPages - 1)
      else (policy, remainingPages)) es (p, r))"
  shows "same_but (set es) p p' \<and> useds p' es = useds p es + min r (length es)"
  using assms(1,2) unfolding p'_def
proof (induction es arbitrary: p r)
  case (Cons e es)
  let ?f = "\<lambda>e (policy, remainingPages). if remainingPages > 0 then (set_used e (gt_usedPages (target policy e) + 1) policy, remainingPages - 1)
      else (policy, remainingPages :: nat)"
  show ?case
  proof (cases "r = 0")
    case True
    have "fold ?f es (p, 0) = (p, 0)" for es by (induction es) simp_all
    then show ?thesis using True by simp
  next
    case False
    let ?p = "set_used e (gt_usedPages (target p e) + 1) p"
    define p' where "p' = fst (fold ?f es (?p, r - 1))"
    have lt: "used p e < UINT64_MAX" using Cons.prems(2) False by simp
    have inc: "used ?p e = used p e + 1"
      using lt unat_plus_bounded [of "gt_usedPages (target p e)" 1 "of_nat UINT64_MAX"] unat_of_nat_u64 [of UINT64_MAX] by (simp add: target_set_used)
    have out: "used ?p x = used p x" if "x \<noteq> e" for x using that by (simp add: target_set_used)
    have ne: "x \<in> set es \<Longrightarrow> x \<noteq> e" for x using Cons.prems(1) by auto
    have "\<forall>x \<in> set es. used ?p x < UINT64_MAX" using Cons.prems(2) False out ne by auto
    then have IH: "same_but (set es) ?p p'" "useds p' es = useds ?p es + min (r - 1) (length es)"
      using Cons.IH [of "r - 1" ?p] Cons.prems(1) by (simp_all add: p'_def)
    have sb: "same_but (set (e # es)) p p'" using same_but_trans [OF same_but_set_used [of e p] IH(1)] by auto
    have "useds ?p es = useds p es" using out ne by (intro arg_cong [where f = sum_list] map_cong) auto
    moreover have "used p' e = used p e + 1" using same_but_out [OF IH(1), of e] Cons.prems(1) inc by simp
    moreover have "fst (fold ?f (e # es) (p, r)) = p'" using False by (simp add: p'_def)
    ultimately show ?thesis using sb IH(2) False by simp
  qed
qed simp

lemma AssignSharedTargetUsedPages_sum:
  assumes "distinct es" "res < 2 ^ 64" "quotas p es > 0"
  defines "p' \<equiv> AssignSharedTargetUsedPages es res (quotas p es) p"
  shows "same_but (set es) p p' \<and> useds p' es = res"
proof -
  let ?Q = "quotas p es" and ?a = "\<Sum>e\<leftarrow>es. res * quota p e div quotas p es"
  obtain p1 where p1: "assign_shares es res ?Q p = (p1, ?a)" "same_but (set es) p p1" "\<forall>e \<in> set es. used p1 e = res * quota p e div ?Q"
    using assign_shares_eq [OF assms(1,2), of p ?Q] by auto
  have a: "?a \<le> res" "res \<le> ?a + length es"
  proof -
    show "?a \<le> res" by (rule apportion_floor_le) simp
    have "res \<le> ?a + length (filter (\<lambda>e. quota p e \<noteq> 0) es)" by (rule apportion_rest [OF refl assms(3)])
    then show "res \<le> ?a + length es" using length_filter_le [of "\<lambda>e. quota p e \<noteq> 0" es] by linarith
  qed
  have u1: "useds p1 es = ?a" using p1(3) by (intro arg_cong [where f = sum_list] map_cong) simp_all
  have "used p1 e \<le> ?a" if "e \<in> set es" for e using member_le_sum_list [of "used p1 e" "map (used p1) es"] that u1 by simp
  then have small: "res - ?a = 0 \<or> (\<forall>e \<in> set es. used p1 e < UINT64_MAX)" using a assms(2) by force
  have sub: "sub64 res ?a = res - ?a" using a assms(2) by (intro sub64_eq) simp_all
  have "same_but (set es) p1 p' \<and> useds p' es = useds p1 es + min (res - ?a) (length es)"
    using bump_rest [OF assms(1) small] unfolding p'_def AssignSharedTargetUsedPages_def p1(1) prod.case Let_def sub .
  then show ?thesis using same_but_trans [OF p1(2), of "set es" p' "set es"] a u1 by auto
qed

lemma CalcTargetQuotaSum_eq: "s \<le> UINT64_MAX \<Longrightarrow> CalcTargetQuotaSum p es s = min UINT64_MAX (s + quotas p es)"
  by (induction es arbitrary: s) (auto simp: add.assoc)

definition sync_node :: "(nat \<Rightarrow> u64) \<Rightarrow> nat \<Rightarrow> GroupMigrationPolicy \<Rightarrow> GroupMigrationPolicy" where
  "sync_node pages nid policy =
     (let es = CollectTargetEntriesByNid policy (int nid) MAX_GROUP_TARGET_ENTRY
      in if es = [] then policy
         else if length es = 1 then SyncSingleTargetUsedPages (es ! 0) (pages nid) policy
         else SyncSharedTargetUsedPages es (unat (pages nid)) (CalcTargetQuotaSum policy es 0) policy)"

lemma SyncGroupedTargetUsedPages_fold:
  "pa_groupPolicy (SyncGroupedTargetUsedPages process) = fold (sync_node (sc_actcLen (pa_scanAttr process))) [0..<26] (pa_groupPolicy process)"
  by (simp add: SyncGroupedTargetUsedPages_def sync_node_def [abs_def] Let_def)

definition sync_ok :: "GroupMigrationPolicy \<Rightarrow> int \<Rightarrow> bool" where
  "sync_ok p nid \<longleftrightarrow> (let es = node_entries p nid in es \<noteq> [] \<and> length es \<le> 144 \<and> (length es = 1 \<or> 0 < quotas p es \<and> quotas p es < UINT64_MAX))"

lemma sync_node_frame: "same_but (set (node_entries p (int nid))) p (sync_node pages nid p)"
proof -
  let ?es = "CollectTargetEntriesByNid p (int nid) 144"
  have sub: "set ?es \<subseteq> set (node_entries p (int nid))" and d: "distinct ?es"
    by (auto simp: CollectTargetEntriesByNid_def node_entries_def distinct_all_entries intro!: distinct_take dest: in_set_takeD)
  have wide: "same_but (set ?es) p q \<Longrightarrow> same_but (set (node_entries p (int nid))) p q" for q
    using same_but_trans [OF same_but_refl [of "{}"], of "set ?es" p q] sub by blast
  consider "?es = []" | e where "?es = [e]" | "length ?es > 1" by (metis One_nat_def length_0_conv length_Suc_conv linorder_neqE_nat less_one)
  then show ?thesis
  proof cases
    case 1
    then show ?thesis by (simp add: sync_node_def)
  next
    case 2
    then show ?thesis using wide same_but_set_used by (simp add: sync_node_def SyncSingleTargetUsedPages_def)
  next
    case 3
    then have "?es \<noteq> []" "length ?es \<noteq> 1" by auto
    moreover have "same_but (set ?es) p (SyncSharedTargetUsedPages ?es (unat (pages nid)) (CalcTargetQuotaSum p ?es 0) p)"
      using AssignSharedTargetUsedPages_sum [OF d, of "unat (pages nid)" p] by (auto simp: SyncSharedTargetUsedPages_def CalcTargetQuotaSum_eq min_def)
    ultimately show ?thesis using wide by (simp add: sync_node_def Let_def)
  qed
qed

lemma sync_node_sum:
  assumes "sync_ok p (int nid)"
  shows "useds (sync_node pages nid p) (node_entries p (int nid)) = unat (pages nid)"
proof -
  let ?es = "node_entries p (int nid)"
  have es: "CollectTargetEntriesByNid p (int nid) 144 = ?es" "?es \<noteq> []" "length ?es = 1 \<or> 0 < quotas p ?es \<and> quotas p ?es < UINT64_MAX"
    using assms by (auto simp: sync_ok_def CollectTargetEntriesByNid_def node_entries_def Let_def)
  show ?thesis
  proof (cases "length ?es = 1")
    case True
    then obtain e where "?es = [e]" by (auto simp: length_Suc_conv)
    then show ?thesis using es by (simp add: sync_node_def SyncSingleTargetUsedPages_def target_set_used)
  next
    case False
    have "quotas p ?es > 0" "min UINT64_MAX (quotas p ?es) = quotas p ?es" "quotas p ?es \<noteq> UINT64_MAX" using es(3) False by auto
    then show ?thesis using es False AssignSharedTargetUsedPages_sum [OF distinct_node_entries, of "unat (pages nid)" p p "int nid"]
      by (simp add: sync_node_def SyncSharedTargetUsedPages_def CalcTargetQuotaSum_eq Let_def del: sum_list_eq_0_iff)
  qed
qed


lemma node_entries_same: "same_but A p p' \<Longrightarrow> node_entries p' nid = node_entries p nid"
  unfolding same_but_def node_entries_def by presburger

lemma useds_out:
  assumes "same_but A p p'" "A \<inter> set es = {}"
  shows "useds p' es = useds p es"
proof -
  have "used p' e = used p e" if "e \<in> set es" for e
  proof -
    have "e \<notin> A" using assms(2) that by blast
    then show ?thesis using same_but_out [OF assms(1)] by simp
  qed
  then show ?thesis by (intro arg_cong [where f = sum_list] map_cong) simp_all
qed

lemma node_entries_disjoint: "nid \<noteq> nid' \<Longrightarrow> set (node_entries p nid) \<inter> set (node_entries p nid') = {}"
  by (auto simp: node_entries_def)

lemma sync_nodes_keep:
  "same_but UNIV p (fold (sync_node pages) nids p) \<and>
   (nid \<notin> set nids \<longrightarrow> useds (fold (sync_node pages) nids p) (node_entries p (int nid)) = useds p (node_entries p (int nid)))"
proof (induction nids arbitrary: p)
  case (Cons n nids)
  let ?p = "sync_node pages n p"
  note F = sync_node_frame [of p n pages]
  have e: "node_entries ?p (int nid) = node_entries p (int nid)" by (rule node_entries_same [OF F])
  have "useds ?p (node_entries p (int nid)) = useds p (node_entries p (int nid))" if "nid \<noteq> n"
    using useds_out [OF F] node_entries_disjoint [of "int n" "int nid" p] that by simp
  moreover have "same_but UNIV p (fold (sync_node pages) nids ?p)" using same_but_trans [OF F conjunct1 [OF Cons.IH [of ?p]]] by simp
  ultimately show ?case using Cons.IH [of ?p] unfolding e by auto
qed simp

text \<open>C23. Before every cycle the used pages of the group targets are brought in line with the scan: for a
  remote node that is the target of one group, or of several with quotas that add up to a proper
  number, the used pages of its targets add up to the pages resident on the node. Quotas and nodes of
  the policy stay as they are.\<close>

theorem SyncGroupedTargetUsedPages_resident:
  assumes "nid < 26" "sync_ok (pa_groupPolicy process) (int nid)"
  shows "same_but UNIV (pa_groupPolicy process) (pa_groupPolicy (SyncGroupedTargetUsedPages process)) \<and>
    useds (pa_groupPolicy (SyncGroupedTargetUsedPages process)) (node_entries (pa_groupPolicy process) (int nid)) =
      unat (sc_actcLen (pa_scanAttr process) nid)"
proof -
  let ?p = "pa_groupPolicy process" and ?pages = "sc_actcLen (pa_scanAttr process)"
  let ?before = "fold (sync_node ?pages) [0..<nid] ?p"
  have split: "[0..<26] = [0..<nid] @ nid # [Suc nid..<26]" using assms(1) by (metis le_add_diff_inverse less_imp_le upt_add_eq_append upt_conv_Cons zero_le)
  have B: "same_but UNIV ?p ?before" using sync_nodes_keep by blast
  have e: "node_entries ?before (int nid) = node_entries ?p (int nid)" by (rule node_entries_same [OF B])
  have ok: "sync_ok ?before (int nid)" using assms(2) same_but_quota [OF B] unfolding sync_ok_def e by simp
  have e1: "node_entries (sync_node ?pages nid ?before) (int nid) = node_entries ?p (int nid)" using node_entries_same [OF sync_node_frame] e by simp
  have "useds (fold (sync_node ?pages) [Suc nid..<26] (sync_node ?pages nid ?before)) (node_entries ?p (int nid)) = unat (?pages nid)"
    using sync_node_sum [OF ok, of ?pages] sync_nodes_keep [of "sync_node ?pages nid ?before" ?pages "[Suc nid..<26]" nid] unfolding e e1 by simp
  then have "useds (fold (sync_node ?pages) [0..<26] ?p) (node_entries ?p (int nid)) = unat (?pages nid)" unfolding split by simp
  then show ?thesis unfolding SyncGroupedTargetUsedPages_fold using sync_nodes_keep [of ?p ?pages "[0..<26]"] by blast
qed

text \<open>Node 4 is shared by two groups with quotas 30 and 10; ten pages are resident on it.\<close>

definition group_demo :: "u64 \<Rightarrow> MigrationGroupAttr" where
  "group_demo q = MigrationGroupAttr_zero\<lparr>gr_targetCount := 1, gr_targets := (\<lambda>_. \<lparr>gt_nid = 4, gt_quotaPages = q, gt_usedPages = 0\<rparr>)\<rparr>"

definition policy_demo :: GroupMigrationPolicy where
  "policy_demo = \<lparr>gp_enabled = True, gp_groupCount = 2, gp_groups = (\<lambda>i. if i = 0 then group_demo 30 else group_demo 10)\<rparr>"

definition sync_demo :: ProcessAttr where
  "sync_demo = ProcessAttr_zero\<lparr>pa_groupPolicy := policy_demo, pa_scanAttr := (pa_scanAttr ProcessAttr_zero)\<lparr>sc_actcLen := (\<lambda>_. 10)\<rparr>\<rparr>"

theorem SyncGroupedTargetUsedPages_resident_witness:
  "useds (pa_groupPolicy (SyncGroupedTargetUsedPages sync_demo)) [(0, 0), (1, 0)] = 10"
proof -
  have "[0..<2] = [0, 1 :: nat]" by (simp add: upt_rec)
  then have e: "node_entries policy_demo 4 = [(0, 0), (1, 0)]"
    by (simp add: node_entries_def all_entries_def policy_demo_def group_demo_def target_def)
  then have "sync_ok policy_demo 4" by (simp add: sync_ok_def policy_demo_def group_demo_def target_def)
  then show ?thesis using SyncGroupedTargetUsedPages_resident [of 4 sync_demo] e by (simp add: sync_demo_def)
qed

end
