(* ===== verification/Spec2Isabelle.thy ===== *)
theory Spec2Isabelle
  imports Numa_Nodes Process_Types Target_Config Managed_Local Pair_Account Pair_Flow Pair_Network Pair_Request Pair_Capacity Pair_Cycle Slot_Threads Swap_Compensation Migrate_Driver Group_Policy
begin

text \<open>
  A verification library for SMAP, the memory-tiering plugin of ubturbo. All paths are below
  \<^verbatim>\<open>src/plugins/smap/src/\<close>.

  \<^bold>\<open>The program.\<close> SMAP keeps cold pages of processes on remote NUMA nodes and hot pages on local
  ones. A kernel module counts accesses to pages and migrates pages; a user-space part decides which.
  A managed process has a target configuration (how much of its memory belongs on which remote node, as
  a ratio or as a size) and an account: for every pair of a local and a remote node, how many pages of
  the local node are on the remote one. In every cycle
  \<^enum> the account is calibrated against the pages counted in the last scan,
  \<^enum> the target configuration becomes a request for every pair (a flow problem: the pages of the local
    nodes against the demands of the remote nodes),
  \<^enum> the requests of all processes compete for the capacity of the remote nodes,
  \<^enum> the granted targets become plans: pages to demote, to promote and to exchange, within the budget
    of the process and the free pages of the nodes,
  \<^enum> pages are selected for the plans by their access frequency and put into one message,
  \<^enum> the message is carried out by one or several threads that call the kernel module,
  \<^enum> the results are entered into the accounts and unbalanced exchanges are compensated.
  Configuration requests and relocations of remote nodes arrive at any time and are staged while a
  process is migrating. Processes live in a table of slots with reference counts.

  \<^bold>\<open>Theories and sources.\<close>
  \<^item> \<open>Smap_Prelude\<close>: error codes, 64-bit arithmetic with wrap-around (\<open>add64\<close>, \<open>sub64\<close>), proportional
    shares.
  \<^item> \<open>Numa_Nodes\<close>: \<^verbatim>\<open>user/manage/numa_nodes.h\<close> and the node helpers of \<^verbatim>\<open>manage.h\<close>.
  \<^item> \<open>Process_Types\<close>: the structs of \<^verbatim>\<open>user/manage/manage.h\<close>, with the field names of the source behind a
    prefix of two letters.
  \<^item> \<open>Target_Config\<close>, \<open>Target_Apply\<close>, \<open>Remote_State\<close>: \<^verbatim>\<open>user/manage/manage_remote.c\<close>: configurations, their
    validation, staging and application; borrowed sizes, memory return, relocation of remote nodes.
  \<^item> \<open>Managed_Local\<close>, \<open>Pid_Slots\<close>, \<open>Slot_Threads\<close>: \<^verbatim>\<open>user/manage/manage.c\<close>: the local nodes managed for a process;
    the slot table, first as whole operations, then one access to shared memory at a time under any
    interleaving of threads (an inductive step relation).
  \<^item> \<open>Pair_Account\<close>, \<open>Pair_Flow\<close>, \<open>Pair_Network\<close>, \<open>Pair_Request\<close>, \<open>Pair_Capacity\<close>: \<^verbatim>\<open>user/manage/manage_pair.c\<close>: steps
    one to three of the cycle. \<open>Pair_Network\<close> holds no code: it relates flows to page requests.
  \<^item> \<open>Qsort\<close>: the library function the arbitration and the plans sort with.
  \<^item> \<open>Pair_Plan\<close>, \<open>Swap_Count\<close>, \<open>Pair_Swap\<close>, \<open>Pair_Cycle\<close>: \<^verbatim>\<open>user/strategy/migration.c\<close>: step four, and the
    composition \<^verbatim>\<open>BuildAllPairPlans\<close> of steps one to four.
  \<^item> \<open>Page_Select\<close>: \<^verbatim>\<open>user/strategy/separate_strategy.c\<close> and \<^verbatim>\<open>CalcActcStats\<close> of \<^verbatim>\<open>user/manage/manage_scan.c\<close>: the choice
    of the pages.
  \<^item> \<open>Migration_Threads\<close>: \<^verbatim>\<open>user/strategy/migration.c\<close> and \<^verbatim>\<open>strategy.c\<close>: the message and its threads.
  \<^item> \<open>Migrate_Driver\<close>: \<^verbatim>\<open>tiering/mig_init.c\<close> and \<^verbatim>\<open>tiering/smap_migrate_pages.c\<close>: the call in the kernel module.
  \<^item> \<open>Migration_Result\<close>, \<open>Swap_Compensation\<close>: \<^verbatim>\<open>user/strategy/migration.c\<close> and \<^verbatim>\<open>grouped_strategy.c\<close>: step seven.
  \<^item> \<open>Group_Policy\<close>: \<^verbatim>\<open>user/manage/manage_grouped.c\<close> and \<^verbatim>\<open>user/strategy/grouped_strategy.c\<close>: how the remote pages of a
    process with a group policy are divided among the groups that share a remote node.
  A function of the source is a definition of the same name; a loop of it that needs one of its own has
  a name in lower case.

  \<^bold>\<open>What is shown.\<close>
  \<^item> Requests: the pages assigned to the pairs of a process extend its resident pages as far as any
    assignment can (maximum flow), the augmenting loop ends, a valid request never fails.
  \<^item> Arbitration: no pool is overdrawn, capacity is left over only where every request is served, the
    targets do not depend on the order of the processes, the published usage is the resident pages.
  \<^item> Plans: they go towards the targets and stop short only where a budget or the free pages end; an
    exchange takes the coldest local for the hottest remote pages and its number is the largest that pays;
    once its inputs are collected a whole cycle fails only when memory runs out, and it never exceeds the free
    pages of a node.
  \<^item> Selection: the lists hold different pages of their node, the coldest or hottest available, none of a local
    node white-listed; a list of a virtual machine may miss as many pages as there are white-listed ones.
  \<^item> Migration: splitting among threads loses no page; through the threads and the kernel module, without
    critical errors of a node, the reported pages are exactly the migrated ones (with a critical error they may be
    more, \<open>critical_error_overreports\<close>); they are entered exactly into the accounts, and the
    masks of the accounts stay consistent; an unbalanced exchange is put back exactly or stops further
    exchanges.
  \<^item> Groups: a new group policy takes over the pages resident on a node exactly when they fit the quotas,
    and then accounts for all of them; the synchronisation with a scan makes the used pages of the
    targets of a node add up to the pages resident there.
  \<^item> Configuration: only valid configurations are built, a refused request changes nothing, a staged
    request has the outcome of a direct one made when it is applied, a relocation moves exactly the processes
    of the node, with their accounts, sizes, parameters and configuration.
  \<^item> Slots: while a reference is held its attributes are not freed; in every interleaving a reserved slot
    has one owner. A lost reference under concurrency is proved possible (\<open>PidSlotAdd_loses_reference\<close>).

  \<^bold>\<open>Interfaces.\<close> Each contract between components is a locale, interpreted on the definitions of the model:
  \<open>flow_solver\<close> by \<open>CompletePairRequestFlow\<close>, \<open>page_split\<close> by \<open>DistributePairRequestPages\<close>, \<open>capacity_phase\<close> by
  \<open>AllocatePairCapacityPhase\<close>, \<open>key_comparison\<close> by the two comparison functions, \<open>reference_table\<close> by the slot table,
  \<open>migration_driver\<close> by \<open>migrate_ioctl\<close> of the kernel module, over the contract \<open>kernel_migration\<close> of the Linux kernel
  below it (the count of migrated base pages).

  \<^bold>\<open>Conventions.\<close> Struct fields of type \<^verbatim>\<open>uint32_t\<close> and \<^verbatim>\<open>uint64_t\<close> are words; local 64-bit counts are natural
  numbers under \<open>add64\<close> and \<open>sub64\<close>. Arrays are functions of their index, arrays with a count are lists. An
  error is the left of a sum or the value of an option. Null checks of pointers that are values in the model
  have no counterpart. What the operating system answers (free pages, affinity, failing allocations, the
  verdict of the kernel on a page) is an argument, so every theorem holds for every answer; loops that
  wait for other threads take the state they find at the n-th look as an argument.

  \<^bold>\<open>Bounds and fuel.\<close> The walk back along an augmenting path has at most 27 edges, for the 28 nodes of the
  network. The wait for a memory return looks at most 1260 times, the wait for a change of state at most 301
  times; both are the counts of the code. The loop over the batches of a process has the number of pages left
  as its fuel: every pass with progress leaves fewer. The slot table has 300 slots, the compensation 800 plans.

  \<^bold>\<open>Not modelled.\<close> The older strategies of \<^verbatim>\<open>separate_strategy.c\<close> and the ratios of \<^verbatim>\<open>manage_numa.c\<close> (floating point, no
  longer called by \<^verbatim>\<open>RunStrategy\<close>), the choice of pages of grouped processes and the registration of their
  policies (\<^verbatim>\<open>grouped_strategy.c\<close>, \<^verbatim>\<open>manage_grouped.c\<close>; an argument where the modelled code calls them), the parsing of scan data and
  scene detection, the relocation of single processes (one branch of it reads an uninitialised variable),
  \<^verbatim>\<open>PreMigration\<close> and the thread that drives the cycle, the public interface, configuration files, logging, the access
  scanner and the other calls of the kernel modules, the DMA driver, and the C++ daemon: input and output,
  marshalling, or the behaviour of the Linux kernel.
\<close>

end
